(* ===== verification/Tonk_Prelude.thy ===== *)
theory Tonk_Prelude
  imports Main "HOL-Library.Word" "HOL-Library.Monad_Syntax"
begin

text \<open>
  Shared vocabulary of the Tonk development.

  The C++ sources work on fixed-width unsigned integers and on raw byte buffers.  The integers are
  \<open>HOL-Library.Word\<close> words of the same width, so that \<open>+\<close>, \<open>-\<close> and \<open>*\<close> wrap exactly as in the code.
  A byte buffer is a list of 8-bit words, and every access goes through \<open>rd8\<close> or \<open>wr8\<close>, which
  return \<open>None\<close> for an index outside of the buffer: a model function that yields \<open>None\<close> has
  performed an out-of-bounds access, one that yields \<open>Some\<close> is memory safe.

  The theory also collects the lemmas on single bits of words (\<open>bit_consts\<close>), on masks, and on
  buffers that the components share.
\<close>

unbundle bit_operations_syntax

section \<open>Types\<close>

type_synonym u8 = "8 word"
type_synonym u16 = "16 word"
type_synonym u32 = "32 word"
type_synonym u64 = "64 word"
type_synonym bytes = "u8 list"

text \<open>What a deserializer returns: \<open>ParseError\<close> is the code's \<open>-1\<close>, \<open>Parsed n v\<close> is a return
  value \<open>n\<close> with the output parameter set to \<open>v\<close>.\<close>

datatype 'a parse = ParseError | Parsed (parsed_bytes: nat) (parsed_value: 'a)

named_theorems bit_consts \<open>single bits of the constants used as masks and tags\<close>
named_theorems mem_simps \<open>evaluation of bounds-checked buffer accesses\<close>

section \<open>Bits of words\<close>

abbreviation byte_at :: "nat \<Rightarrow> 'a::len word \<Rightarrow> u8" where
  "byte_at k x \<equiv> ucast (drop_bit k x)"

lemma word_bit_bound:
  fixes x :: "'a::len word"
  assumes "unat x < 2 ^ k" and "bit x n"
  shows "n < k"
proof (rule ccontr)
  assume "\<not> n < k"
  then have "(2::nat) ^ k \<le> 2 ^ n" by simp
  with assms(1) have "unat x < 2 ^ n" by linarith
  moreover have "bit (unat x) n" using assms(2) by (simp add: bit_simps bit_imp_le_length)
  ultimately show False by (simp add: bit_iff_odd)
qed

lemma bit_word_bound:
  fixes x :: "'a::len word"
  assumes "x \<le> w" and "unat w < 2 ^ k" and "bit x n"
  shows "n < k"
proof (rule word_bit_bound)
  show "unat x < 2 ^ k" using assms(1,2) unfolding word_le_nat_alt by (rule le_less_trans)
qed (rule assms(3))

lemma bit_int_mask_iff:
  assumes "(c::int) = mask k"
  shows "bit c n \<longleftrightarrow> n < k"
  using assms by (simp add: bit_mask_iff)

lemma bit_int_shifted_mask_iff:
  assumes "(c::int) = push_bit i (mask k)"
  shows "bit c n \<longleftrightarrow> i \<le> n \<and> n < i + k"
  unfolding assms bit_push_bit_iff bit_mask_iff by auto

lemma bit_consts_mask [bit_consts]:
  "bit (0x7f::int) n \<longleftrightarrow> n < 7"
  "bit (0xff::int) n \<longleftrightarrow> n < 8"
  "bit (0x3fff::int) n \<longleftrightarrow> n < 14"
  "bit (0x7fff::int) n \<longleftrightarrow> n < 15"
  "bit (0x1fffff::int) n \<longleftrightarrow> n < 21"
  "bit (0x3fffff::int) n \<longleftrightarrow> n < 22"
  "bit (0xffffff::int) n \<longleftrightarrow> n < 24"
  "bit (0x1fffffff::int) n \<longleftrightarrow> n < 29"
  by (rule bit_int_mask_iff, simp add: mask_numeral)+

lemma bit_consts_tag [bit_consts]:
  "bit (0x80::int) n \<longleftrightarrow> 7 \<le> n \<and> n < 7 + 1"
  "bit (0xC0::int) n \<longleftrightarrow> 6 \<le> n \<and> n < 6 + 2"
  "bit (0xE0::int) n \<longleftrightarrow> 5 \<le> n \<and> n < 5 + 3"
  "bit (4::int) n \<longleftrightarrow> 2 \<le> n \<and> n < 2 + 1"
  "bit (3::int) n \<longleftrightarrow> 0 \<le> n \<and> n < 0 + 2"
  by (rule bit_int_shifted_mask_iff, simp add: mask_numeral push_bit_eq_mult)+

lemma word_mask_eq_take_bit: "x AND mask k = take_bit k (x :: 'a::len word)"
  by (simp add: take_bit_eq_mask)

lemma take_bit_full [simp]:
  "take_bit 8 (a :: u8) = a" "take_bit 16 (b :: u16) = b"
  "take_bit 32 (c :: u32) = c" "take_bit 64 (d :: u64) = d"
  using take_bit_length_eq [of a] take_bit_length_eq [of b] take_bit_length_eq [of c]
    take_bit_length_eq [of d] by simp_all

lemma unat_bound: "unat (x :: 'a::len word) < 2 ^ LENGTH('a)"
  by (rule unsigned_less)

lemma unat_ucast_up:
  assumes "LENGTH('a) \<le> LENGTH('b)"
  shows "unat (ucast (x :: 'a::len word) :: 'b::len word) = unat x"
proof -
  have "unat x < 2 ^ LENGTH('b)"
    using unat_bound [of x] assms by (meson less_le_trans one_le_numeral power_increasing)
  then show ?thesis by (simp add: unsigned_ucast_eq take_bit_nat_eq_self)
qed

lemma unat_ucast_mod: "unat (ucast (x :: 'a::len word) :: 'b::len word) = unat x mod 2 ^ LENGTH('b)"
  by (simp add: unsigned_ucast_eq take_bit_eq_mod)

section \<open>Bounds-checked buffers\<close>

definition rd8 :: "bytes \<Rightarrow> nat \<Rightarrow> u8 option" where
  "rd8 b i = (if i < length b then Some (b ! i) else None)"

definition wr8 :: "bytes \<Rightarrow> nat \<Rightarrow> u8 \<Rightarrow> bytes option" where
  "wr8 b i v = (if i < length b then Some (b[i := v]) else None)"

text \<open>The contents of a buffer after the bytes \<open>bs\<close> were stored from offset \<open>off\<close> on.\<close>

definition overwrite :: "bytes \<Rightarrow> nat \<Rightarrow> bytes \<Rightarrow> bytes" where
  "overwrite b off bs = take off b @ bs @ drop (off + length bs) b"

lemma rd8_in [mem_simps]: "i < length b \<Longrightarrow> rd8 b i = Some (b ! i)"
  by (simp add: rd8_def)

lemma wr8_in: "i < length b \<Longrightarrow> wr8 b i v = Some (b[i := v])"
  by (simp add: wr8_def)

lemma rd8_Some_iff: "rd8 b i = Some v \<longleftrightarrow> i < length b \<and> v = b ! i"
  by (auto simp: rd8_def)

lemma rd8_None_iff: "rd8 b i = None \<longleftrightarrow> length b \<le> i"
  by (auto simp: rd8_def)

lemma rd8_append [mem_simps]: "rd8 (pre @ v # post) (length pre) = Some v"
  by (simp add: rd8_def)

lemma length_overwrite [simp]: "off + length bs \<le> length b \<Longrightarrow> length (overwrite b off bs) = length b"
  by (simp add: overwrite_def)

lemma overwrite_nil [simp]: "overwrite b off [] = b"
  by (simp add: overwrite_def)

lemma nth_overwrite:
  assumes "off + length bs \<le> length b" and "i < length b"
  shows "overwrite b off bs ! i
    = (if i < off then b ! i else if i < off + length bs then bs ! (i - off) else b ! i)"
  using assms by (auto simp: overwrite_def nth_append)

lemma overwrite_upd_front:
  assumes "off < length b"
  shows "b[off := v] = overwrite b off [v]"
  using assms by (simp add: overwrite_def upd_conv_take_nth_drop)

lemma overwrite_append:
  assumes "off + length xs + length ys \<le> length b"
  shows "overwrite (overwrite b off xs) (off + length xs) ys = overwrite b off (xs @ ys)"
  using assms by (intro nth_equalityI) (auto simp: nth_overwrite nth_append)

lemma wr8_overwrite [mem_simps]:
  "off < length b \<Longrightarrow> wr8 b off v = Some (overwrite b off [v])"
  by (simp add: wr8_def overwrite_upd_front)

lemma overwrite_snoc:
  assumes "off + length xs < length b"
  shows "(overwrite b off xs)[off + length xs := v] = overwrite b off (xs @ [v])"
  using assms by (simp add: overwrite_upd_front overwrite_append)

lemma overwrite_split:
  assumes "off + length bs \<le> length b"
  shows "overwrite b off bs = take off b @ bs @ drop (off + length bs) b" "length (take off b) = off"
  using assms by (auto simp: overwrite_def)

section \<open>Slices of buffers\<close>

definition slice :: "bytes \<Rightarrow> nat \<Rightarrow> nat \<Rightarrow> bytes" where
  "slice b off n = take n (drop off b)"

lemma length_slice [simp]: "off + n \<le> length b \<Longrightarrow> length (slice b off n) = n"
  by (simp add: slice_def)

lemma nth_slice: "off + n \<le> length b \<Longrightarrow> i < n \<Longrightarrow> slice b off n ! i = b ! (off + i)"
  by (simp add: slice_def)

lemma slice_overwrite [simp]:
  "off + length xs \<le> length b \<Longrightarrow> slice (overwrite b off xs) off (length xs) = xs"
  by (simp add: slice_def overwrite_def)

lemma slice_overwrite_other:
  assumes "off' + n \<le> length b" and "off + length xs \<le> length b"
    and "off' + n \<le> off \<or> off + length xs \<le> off'"
  shows "slice (overwrite b off xs) off' n = slice b off' n"
  using assms by (intro nth_equalityI) (auto simp: nth_slice nth_overwrite)

lemma slice_append [simp]: "slice (pre @ xs @ post) (length pre) (length xs) = xs"
  by (simp add: slice_def)

lemma slice_eq_iff:
  assumes "off + n \<le> length b" and "length xs = n"
  shows "slice b off n = xs \<longleftrightarrow> (\<forall>i<n. b ! (off + i) = xs ! i)"
  using assms by (auto simp: list_eq_iff_nth_eq nth_slice)

text \<open>A run of stores to ascending addresses accumulates one overwritten block.\<close>

lemma overwrite_join [mem_simps]:
  assumes "i = off + length xs" and "off + length xs + length ys \<le> length b"
  shows "overwrite (overwrite b off xs) i ys = overwrite b off (xs @ ys)"
  using assms by (simp add: overwrite_append)

lemma overwrite_join_left [mem_simps]:
  assumes "i = off + length ys" and "off + length ys + length xs \<le> length b"
  shows "overwrite (overwrite b i xs) off ys = overwrite b off (ys @ xs)"
  using assms by (intro nth_equalityI) (auto simp: nth_overwrite nth_append)

lemma rd8_in_field [mem_simps]:
  assumes "i = length pre + k" and "k < length xs"
  shows "rd8 (pre @ xs @ post) i = Some (xs ! k)"
  using assms by (simp add: rd8_def nth_append)

section \<open>Counted loops\<close>

text \<open>A loop over a list of values whose body may fail, and \<open>for (i = a; i < b; ++i)\<close>.\<close>

primrec for_each :: "('a \<Rightarrow> 's \<Rightarrow> 's option) \<Rightarrow> 'a list \<Rightarrow> 's \<Rightarrow> 's option" where
  "for_each f [] s = Some s"
| "for_each f (x # xs) s = do { s \<leftarrow> f x s; for_each f xs s }"

definition for_range :: "nat \<Rightarrow> nat \<Rightarrow> (nat \<Rightarrow> 's \<Rightarrow> 's option) \<Rightarrow> 's \<Rightarrow> 's option" where
  "for_range a b f s = for_each f [a..<b] s"

lemma for_each_append:
  "for_each f (xs @ ys) s = do { s \<leftarrow> for_each f xs s; for_each f ys s }"
  by (induction xs arbitrary: s) (auto split: Option.bind_splits)

lemma for_range_rule:
  assumes "a \<le> b" and "P a s"
    and "\<And>i s. a \<le> i \<Longrightarrow> i < b \<Longrightarrow> P i s \<Longrightarrow> \<exists>s'. f i s = Some s' \<and> P (Suc i) s'"
  shows "\<exists>s'. for_range a b f s = Some s' \<and> P b s'"
  using assms unfolding for_range_def
proof (induction "b - a" arbitrary: a s)
  case (Suc n)
  then have less: "a < b" and n: "n = b - Suc a" by simp_all
  obtain s' where s': "f a s = Some s'" "P (Suc a) s'" using Suc.prems(3) [of a s] Suc.prems(2) less by auto
  have "\<exists>s''. for_each f [Suc a..<b] s' = Some s'' \<and> P b s''"
    by (rule Suc.hyps(1)) (use n less s' Suc.prems(3) in auto)
  then show ?case using s' less by (simp add: upt_conv_Cons)
qed simp

text \<open>A loop that returns false at the first failing test.\<close>

primrec check_all :: "('a \<Rightarrow> bool option) \<Rightarrow> 'a list \<Rightarrow> bool option" where
  "check_all f [] = Some True"
| "check_all f (x # xs) = do { b \<leftarrow> f x; if b then check_all f xs else Some False }"

lemma check_all_eq: "(\<And>x. x \<in> set xs \<Longrightarrow> f x = Some (P x)) \<Longrightarrow> check_all f xs = Some (\<forall>x\<in>set xs. P x)"
  by (induction xs) simp_all

lemma check_all_True: "(\<And>x. x \<in> set xs \<Longrightarrow> f x = Some True) \<Longrightarrow> check_all f xs = Some True"
  by (induction xs) simp_all

section \<open>Bounds-checked arrays\<close>

definition tab_get :: "'a list \<Rightarrow> nat \<Rightarrow> 'a option" where
  "tab_get t i = (if i < length t then Some (t ! i) else None)"

definition tab_set :: "'a list \<Rightarrow> nat \<Rightarrow> 'a \<Rightarrow> 'a list option" where
  "tab_set t i v = (if i < length t then Some (t[i := v]) else None)"

lemma tab_get_in [simp]: "i < length t \<Longrightarrow> tab_get t i = Some (t ! i)"
  by (simp add: tab_get_def)

lemma tab_set_in [simp]: "i < length t \<Longrightarrow> tab_set t i v = Some (t[i := v])"
  by (simp add: tab_set_def)

lemma tab_get_Some_iff: "tab_get t i = Some v \<longleftrightarrow> i < length t \<and> v = t ! i"
  by (auto simp: tab_get_def)

end
