(* ===== verification/Counter_Math.thy ===== *)
theory Counter_Math
  imports Tonk_Prelude
begin

text \<open>
  The rolling counters of \<open>Counter.h\<close>.

  The C++ class \<open>Counter<T, TkBits>\<close> stores a value of the unsigned type \<open>T\<close> of which only the low
  \<open>TkBits\<close> bits are used.  Here \<open>T\<close> is the word type, the template argument \<open>TkBits\<close> is the
  natural-number argument \<open>k\<close> of each operation, and the value is the word itself.  A counter value is
  well-formed when it has no bit at or above position \<open>k\<close> (\<open>counter_wf\<close>); every operation keeps that.

  Shown below: the comparison operators implement serial-number arithmetic on the signed distance of
  two counters, and truncating a counter and expanding it against a recent value gives the counter
  back whenever the two are less than half a (truncated) period apart.
\<close>

section \<open>The class template\<close>

definition kMSB :: "nat \<Rightarrow> 'w::len word" where
  "kMSB k = push_bit (k - 1) 1"

definition kMask :: "nat \<Rightarrow> 'w::len word" where
  "kMask k = drop_bit (LENGTH('w) - k) (- 1)"

definition Counter :: "nat \<Rightarrow> 'w::len word \<Rightarrow> 'w word" where
  "Counter k value = value AND kMask k"

definition counter_wf :: "nat \<Rightarrow> 'w::len word \<Rightarrow> bool" where
  "counter_wf k c \<longleftrightarrow> c AND kMask k = c"

text \<open>Timestamps count in units of 8 microseconds (\<open>TimeSync.h\<close>).\<close>

definition kTime23LostBits :: nat where "kTime23LostBits = 3"

subsection \<open>Increment, decrement, addition\<close>

definition counter_preinc :: "nat \<Rightarrow> 'w::len word \<Rightarrow> 'w word" where
  "counter_preinc k Value = (Value + 1) AND kMask k"

definition counter_predec :: "nat \<Rightarrow> 'w::len word \<Rightarrow> 'w word" where
  "counter_predec k Value = (Value - 1) AND kMask k"

text \<open>The post-increment and post-decrement return the old value and update the counter.\<close>

definition counter_postinc :: "nat \<Rightarrow> 'w::len word \<Rightarrow> 'w word \<times> 'w word" where
  "counter_postinc k Value = (Counter k Value, (Value + 1) AND kMask k)"

definition counter_postdec :: "nat \<Rightarrow> 'w::len word \<Rightarrow> 'w word \<times> 'w word" where
  "counter_postdec k Value = (Counter k Value, (Value - 1) AND kMask k)"

definition counter_add :: "nat \<Rightarrow> 'w::len word \<Rightarrow> 'w word \<Rightarrow> 'w word" where
  "counter_add k a b = Counter k (a + b)"

definition counter_sub :: "nat \<Rightarrow> 'w::len word \<Rightarrow> 'w word \<Rightarrow> 'w word" where
  "counter_sub k a b = Counter k (a - b)"

definition counter_add_assign :: "nat \<Rightarrow> 'w::len word \<Rightarrow> 'w word \<Rightarrow> 'w word" where
  "counter_add_assign k a b = (a + b) AND kMask k"

definition counter_sub_assign :: "nat \<Rightarrow> 'w::len word \<Rightarrow> 'w word \<Rightarrow> 'w word" where
  "counter_sub_assign k a b = (a - b) AND kMask k"

subsection \<open>Comparison\<close>

definition counter_eq :: "'w::len word \<Rightarrow> 'w word \<Rightarrow> bool" where
  "counter_eq a b \<longleftrightarrow> a = b"

definition counter_ge :: "nat \<Rightarrow> 'w::len word \<Rightarrow> 'w word \<Rightarrow> bool" where
  "counter_ge k a b \<longleftrightarrow> (a - b) AND kMask k < kMSB k"

definition counter_lt :: "nat \<Rightarrow> 'w::len word \<Rightarrow> 'w word \<Rightarrow> bool" where
  "counter_lt k a b \<longleftrightarrow> kMSB k \<le> (a - b) AND kMask k"

definition counter_le :: "nat \<Rightarrow> 'w::len word \<Rightarrow> 'w word \<Rightarrow> bool" where
  "counter_le k a b \<longleftrightarrow> (b - a) AND kMask k < kMSB k"

definition counter_gt :: "nat \<Rightarrow> 'w::len word \<Rightarrow> 'w word \<Rightarrow> bool" where
  "counter_gt k a b \<longleftrightarrow> kMSB k \<le> (b - a) AND kMask k"

subsection \<open>Truncation and expansion\<close>

text \<open>The smaller counter type has its own word type \<open>'s\<close> and bit count \<open>m\<close>.\<close>

definition Truncate :: "nat \<Rightarrow> 'w::len word \<Rightarrow> 's::len word" where
  "Truncate m Value = Counter m (ucast Value)"

definition ExpandFromTruncatedWithBias ::
  "nat \<Rightarrow> nat \<Rightarrow> 'w::len word \<Rightarrow> 's::len word \<Rightarrow> 'w word \<Rightarrow> 'w word" where
  "ExpandFromTruncatedWithBias k m recent smaller bias =
     (let result = Counter k (ucast smaller OR (recent AND NOT (ucast (kMask m :: 's word))));
          recentLow = recent AND ucast (kMask m :: 's word)
      in if recentLow < ucast smaller then
           (let absDiff = ucast smaller - recentLow
            in if ucast (kMSB m :: 's word) - bias \<le> absDiff
               then counter_sub_assign k result (Counter k (push_bit 1 (ucast (kMSB m :: 's word))))
               else result)
         else
           (let absDiff = recentLow - ucast smaller
            in if ucast (kMSB m :: 's word) + bias < absDiff
               then counter_add_assign k result (Counter k (push_bit 1 (ucast (kMSB m :: 's word))))
               else result))"

definition ExpandFromTruncated :: "nat \<Rightarrow> nat \<Rightarrow> 'w::len word \<Rightarrow> 's::len word \<Rightarrow> 'w word" where
  "ExpandFromTruncated k m recent smaller =
     (let smallerMSB = (ucast (smaller AND kMSB m) :: 'w word);
          smallerSigned = ucast smaller - push_bit 1 smallerMSB;
          smallRecent = (ucast (recent AND ucast (kMask m :: 's word)) :: 's word);
          gap = (ucast (smallerSigned - ucast smallRecent) :: 's word) AND kMask m;
          gapMSB = (ucast (gap AND kMSB m) :: 'w word);
          gapSigned = ucast gap - push_bit 1 gapMSB
      in Counter k (recent + gapSigned))"

text \<open>The overloads for counters that fill their word: the gap is taken at the width of the smaller
  type, reinterpreted as signed and sign-extended.\<close>

definition ExpandFromTruncated_full :: "nat \<Rightarrow> 'w::len word \<Rightarrow> 's::len word \<Rightarrow> 'w word" where
  "ExpandFromTruncated_full k recent smaller =
     (let gap = smaller - ucast recent
      in counter_add k recent (Counter k (scast gap)))"

definition CounterExpand :: "u64 \<Rightarrow> u64 \<Rightarrow> nat \<Rightarrow> u64" where
  "CounterExpand largest partial nbytes =
     (if nbytes = 1 then ExpandFromTruncated_full 64 largest (Counter 8 (ucast partial :: u8))
      else if nbytes = 2 then ExpandFromTruncated_full 64 largest (Counter 16 (ucast partial :: u16))
      else if nbytes = 3 then ExpandFromTruncated 64 24 largest (Counter 24 (ucast partial :: u32))
      else if nbytes = 4 then ExpandFromTruncated_full 64 largest (Counter 32 (ucast partial :: u32))
      else if nbytes = 5 then ExpandFromTruncated 64 40 largest (Counter 40 partial)
      else if nbytes = 6 then ExpandFromTruncated 64 48 largest (Counter 48 partial)
      else if nbytes = 7 then ExpandFromTruncated 64 56 largest (Counter 56 partial)
      else 0)"

section \<open>Masks as bit truncation\<close>

lemma kMask_eq_mask [simp]: "k \<le> LENGTH('w) \<Longrightarrow> (kMask k :: 'w::len word) = mask k"
  unfolding kMask_def by (rule bit_word_eqI) (auto simp: bit_simps)

lemma Counter_eq_take_bit: "k \<le> LENGTH('w) \<Longrightarrow> Counter k (x :: 'w::len word) = take_bit k x"
  by (simp add: Counter_def take_bit_eq_mask)

lemma kMSB_eq: "(kMSB k :: 'w::len word) = 2 ^ (k - 1)"
  by (simp add: kMSB_def push_bit_eq_mult)

lemma uint_take_bit_mod: "uint (take_bit k (x::'w::len word)) = uint x mod 2 ^ k"
  by (subst unsigned_take_bit_eq) (rule take_bit_eq_mod)

lemma counter_wf_iff:
  assumes "k \<le> LENGTH('w)"
  shows "counter_wf k (c :: 'w::len word) \<longleftrightarrow> uint c < 2 ^ k"
proof -
  have "counter_wf k c \<longleftrightarrow> uint (take_bit k c) = uint c"
    using assms by (simp add: counter_wf_def word_mask_eq_take_bit flip: word_uint_eq_iff)
  also have "\<dots> \<longleftrightarrow> uint c < 2 ^ k"
    unfolding uint_take_bit_mod using take_bit_int_eq_self_iff [of k "uint c"]
    by (simp add: take_bit_eq_mod)
  finally show ?thesis .
qed

text \<open>Every operation of the class yields a well-formed counter.\<close>

lemma counter_wf_ops:
  assumes "k \<le> LENGTH('w)"
  shows "counter_wf k (Counter k (a :: 'w::len word))" "counter_wf k (counter_preinc k a)"
    "counter_wf k (counter_predec k a)" "counter_wf k (counter_add k a b)"
    "counter_wf k (counter_sub k a b)" "counter_wf k (counter_add_assign k a b)"
    "counter_wf k (counter_sub_assign k a b)"
  using assms
  by (simp_all add: counter_wf_def Counter_def counter_preinc_def counter_predec_def counter_add_def
      counter_sub_def counter_add_assign_def counter_sub_assign_def and.assoc)

section \<open>Sign extension and the reference form of expansion\<close>

lemma signed_take_bit_word_id:
  fixes d :: "'w::len word"
  assumes "- (2 ^ n) \<le> sint d" "sint d < 2 ^ n"
  shows "signed_take_bit n d = d"
proof (rule bit_word_eqI)
  fix i assume i: "i < LENGTH('w)"
  then have i': "i \<le> LENGTH('w) - Suc 0" by simp
  have eq: "bit (signed_take_bit n (sint d)) i = bit (sint d) i"
    using signed_take_bit_int_eq_self [OF assms] by simp
  show "bit (signed_take_bit n d) i = bit d i"
  proof (cases "LENGTH('w) - Suc 0 \<le> n")
    case True
    then have "i \<le> n" using i' by simp
    then show ?thesis using i by (cases "i = n") (auto simp: bit_simps min_def)
  next
    case False
    show ?thesis
    proof (cases "i = LENGTH('w) - Suc 0")
      case True
      with eq False i show ?thesis by (auto simp: bit_simps min_def)
    next
      case False
      with eq i i' \<open>\<not> LENGTH('w) - Suc 0 \<le> n\<close> show ?thesis by (auto simp: bit_simps min_def split: if_splits)
    qed
  qed
qed

lemma gap_signed:
  fixes d :: "'w::len word" and g :: "'s::len word"
  assumes m: "0 < m" "m \<le> LENGTH('s)" "m < LENGTH('w)" and g: "g = take_bit m (ucast d)"
  shows "ucast g - push_bit 1 (ucast (g AND kMSB m)) = signed_take_bit (m - 1) d"
proof -
  have "(ucast g :: 'w word) = take_bit m d"
    unfolding g using m by (intro bit_word_eqI) (auto simp: bit_simps)
  moreover have "push_bit 1 (ucast (g AND kMSB m)) = (push_bit m (of_bool (bit d (m - 1))) :: 'w word)"
  proof (rule bit_word_eqI)
    fix n assume "n < LENGTH('w)"
    then show "bit (push_bit 1 (ucast (g AND kMSB m)) :: 'w word) n = bit (push_bit m (of_bool (bit d (m - 1))) :: 'w word) n"
      unfolding g kMSB_eq bit_push_bit_iff using m by (auto simp: bit_simps)
  qed
  ultimately show ?thesis using m(1) by (simp add: signed_take_bit_eq_take_bit_minus push_bit_eq_mult)
qed
lemma take_bit_sub_cong:
  fixes a b c d :: "'w::len word"
  assumes k: "k \<le> LENGTH('w)" and "take_bit k a = take_bit k c" "take_bit k b = take_bit k d"
  shows "take_bit k (a - b) = take_bit k (c - d)"
proof -
  have d: "(2::int) ^ k dvd 2 ^ LENGTH('w)" using k by (simp add: le_imp_power_dvd)
  have "uint a mod 2 ^ k = uint c mod 2 ^ k" "uint b mod 2 ^ k = uint d mod 2 ^ k"
    using assms(2,3) unfolding uint_take_bit_mod [symmetric] by auto
  then show ?thesis
    unfolding word_uint_eq_iff uint_take_bit_mod uint_word_ariths mod_mod_cancel [OF d]
    by (intro mod_diff_cong)
qed

lemma take_bit_ucast:
  fixes w :: "'w::len word"
  assumes "m \<le> LENGTH('w)"
  shows "take_bit m (ucast w :: 's::len word) = ucast (take_bit m w)"
  using assms by (intro bit_word_eqI) (auto simp: bit_simps)

lemma Counter_full [simp]: "Counter LENGTH('w) (x :: 'w::len word) = x"
  by (simp add: Counter_eq_take_bit)

lemma ExpandFromTruncated_eq:
  fixes recent x :: "'w::len word"
  assumes m: "0 < m" "m \<le> LENGTH('s)" "m < LENGTH('w)"
  shows "ExpandFromTruncated LENGTH('w) m recent (Counter m (ucast x :: 's::len word))
    = recent + signed_take_bit (m - 1) (x - recent)"
proof -
  let ?s = "Counter m (ucast x) :: 's word"
  have s: "?s = take_bit m (ucast x)" using m by (simp add: Counter_eq_take_bit)
  define smallRecent where "smallRecent = (ucast (recent AND ucast (kMask m :: 's word)) :: 's word)"
  have "(ucast (mask m :: 's word) :: 'w word) = mask m"
    using m by (intro bit_word_eqI) (auto simp: bit_simps)
  then have sr: "(ucast smallRecent :: 'w word) = take_bit m recent"
    unfolding smallRecent_def using m
    by (intro bit_word_eqI) (auto simp: bit_simps)
  have ss: "ucast ?s - push_bit 1 (ucast (?s AND kMSB m)) = signed_take_bit (m - 1) x"
    using gap_signed [OF m s] .
  have "take_bit m (signed_take_bit (m - 1) x - ucast smallRecent) = take_bit m (x - recent)"
    using m unfolding sr by (intro take_bit_sub_cong) (simp_all add: take_bit_signed_take_bit)
  then have gap: "(ucast (signed_take_bit (m - 1) x - ucast smallRecent) :: 's word) AND kMask m
      = take_bit m (ucast (x - recent))"
    using m by (simp add: word_mask_eq_take_bit take_bit_ucast)
  show ?thesis
    unfolding ExpandFromTruncated_def Let_def smallRecent_def [symmetric] ss gap
      gap_signed [OF m refl] by simp
qed

lemma ucast_minus:
  fixes a b :: "'w::len word"
  assumes "LENGTH('s::len) \<le> LENGTH('w)"
  shows "(ucast (a - b) :: 's word) = ucast a - ucast b"
proof -
  have d: "(2::int) ^ LENGTH('s) dvd 2 ^ LENGTH('w)" using assms by (simp add: le_imp_power_dvd)
  show ?thesis
    by (simp add: word_uint_eq_iff unsigned_ucast_eq take_bit_eq_mod uint_word_ariths mod_mod_cancel [OF d] mod_simps)
qed

lemma scast_ucast_signed:
  fixes d :: "'w::len word"
  assumes "LENGTH('s::len) \<le> LENGTH('w)"
  shows "scast (ucast d :: 's word) = signed_take_bit (LENGTH('s) - 1) d"
  using assms by (intro bit_word_eqI) (auto simp: bit_simps min_def)

lemma ExpandFromTruncated_full_eq:
  fixes recent x :: "'w::len word"
  assumes "LENGTH('s::len) \<le> LENGTH('w)"
  shows "ExpandFromTruncated_full LENGTH('w) recent (ucast x :: 's word)
    = recent + signed_take_bit (LENGTH('s) - 1) (x - recent)"
proof -
  have "(ucast x - ucast recent :: 's word) = ucast (x - recent)"
    using assms by (simp add: ucast_minus)
  then show ?thesis
    unfolding ExpandFromTruncated_full_def Let_def counter_add_def
    by (simp add: scast_ucast_signed [OF assms])
qed

lemma CounterExpand_eq:
  assumes "1 \<le> n" "n \<le> 7"
  shows "CounterExpand largest partial n = largest + signed_take_bit (8 * n - 1) (partial - largest)"
proof -
  have "n = 1 \<or> n = 2 \<or> n = 3 \<or> n = 4 \<or> n = 5 \<or> n = 6 \<or> n = 7" using assms by arith
  then show ?thesis
    unfolding CounterExpand_def
    using ExpandFromTruncated_full_eq [where 's = 8, of largest partial]
    using ExpandFromTruncated_full_eq [where 's = 16, of largest partial]
    using ExpandFromTruncated_full_eq [where 's = 32, of largest partial]
    using ExpandFromTruncated_eq [where 's = 32, of 24 largest partial]
    using ExpandFromTruncated_eq [where 's = 64, of 40 largest partial]
    using ExpandFromTruncated_eq [where 's = 64, of 48 largest partial]
    using ExpandFromTruncated_eq [where 's = 64, of 56 largest partial]
     Counter_full [where 'w = 8]  Counter_full [where 'w = 16] Counter_full [where 'w = 32]
    by (elim disjE) (simp_all add: ucast_id)
qed

lemma low_replace:
  fixes r :: "'w::len word"
  shows "take_bit m x OR (r AND NOT (mask m)) = r - take_bit m r + take_bit m x"
proof -
  have "take_bit m x OR (r AND NOT (mask m)) = take_bit m x + (r AND NOT (mask m))"
    by (rule disjunctive_add [symmetric]) (auto simp: bit_simps)
  moreover have "take_bit m r + (r AND NOT (mask m)) = take_bit m r OR (r AND NOT (mask m))"
    by (rule disjunctive_add) (auto simp: bit_simps)
  moreover have "take_bit m r OR (r AND NOT (mask m)) = r" 
     by (rule bit_word_eqI) (auto simp: bit_simps)
  ultimately show ?thesis by (simp add: algebra_simps)
qed

lemma bias_choice:
  fixes s l t b :: int
  assumes M: "M = 2 * H" and b: "- H < b" "b < H"
    and s: "0 \<le> s" "s < M" and l: "0 \<le> l" "l < M"
    and t: "- (H + b) \<le> t" "t < H - b" and c: "M dvd t - (s - l)"
  shows "t = s - l + (if l < s then (if H - b \<le> s - l then - M else 0)
                       else (if H + b < l - s then M else 0))"
proof -
  have "(t - (s - l)) mod M = 0" using c by simp
  then obtain q where q: "t = s - l + M * q" using c by (auto simp: dvd_def algebra_simps)
  have "0 < M" using M b by simp
  moreover have mq: "M * q = t - (s - l)" using q by simp
  have "M * q < M * 2" "M * (-2) < M * q" unfolding mq using M b s l t by linarith+
  ultimately have "q < 2" "-2 < q" by (simp_all only: mult_less_cancel_left_pos)
  then have "q = -1 \<or> q = 0 \<or> q = 1" by arith
  then show ?thesis using q M b s l t by auto
qed

lemma ExpandFromTruncatedWithBias_range:
  fixes recent x :: "'w::len word"
  assumes m: "0 < m" "m \<le> LENGTH('s)" "m < LENGTH('w)"
    and b: "- (2 ^ (m - 1)) < b" "b < 2 ^ (m - 1)"
    and t: "- (2 ^ (m - 1) + b) \<le> sint (x - recent)" "sint (x - recent) < 2 ^ (m - 1) - b"
  shows "ExpandFromTruncatedWithBias LENGTH('w) m recent (Counter m (ucast x :: 's::len word)) (word_of_int b) = x"
proof -
  let ?s = "Counter m (ucast x) :: 's word"
  define H M :: int where "H = 2 ^ (m - 1)" and "M = 2 ^ m"
  have MH: "M = 2 * H" unfolding M_def H_def using m(1) by (simp add: power_eq_if)
  have MW: "M * 2 \<le> 2 ^ LENGTH('w)" unfolding M_def using m(3)
    by (metis Suc_leI one_le_numeral power_Suc2 power_increasing)
  have dM: "M dvd 2 ^ LENGTH('w)" unfolding M_def using m(3) by (simp add: le_imp_power_dvd)
  define s l where "s = uint x mod M" and "l = uint recent mod M"
  have wx: "(ucast ?s :: 'w word) = take_bit m x"
    using m by (simp add: Counter_eq_take_bit take_bit_ucast) (intro bit_word_eqI, auto simp: bit_simps)
  have us: "uint (take_bit m x) = s" and ul: "uint (take_bit m recent) = l"
    by (simp_all only: s_def l_def M_def uint_take_bit_mod)
  have km: "(ucast (kMask m :: 's word) :: 'w word) = mask m"
    using m by simp (intro bit_word_eqI, auto simp: bit_simps)
  have kh: "(ucast (kMSB m :: 's word) :: 'w word) = word_of_int H"
    unfolding kMSB_eq H_def using m by (intro bit_word_eqI) (auto simp: bit_simps)
  have xr: "x = recent + word_of_int (sint (x - recent))" by simp
  have "M dvd sint (x - recent) - (uint x - uint recent)"
  proof -
    have "(2::int) ^ LENGTH('w) dvd sint (x - recent) - (uint x - uint recent)"
    proof -
      have "(word_of_int (sint (x - recent)) :: 'w word) = word_of_int (uint x - uint recent)" by simp
      then show ?thesis by (simp only: word_of_int_eq_iff take_bit_eq_mod mod_eq_dvd_iff)
    qed
    with dM show ?thesis by (rule dvd_trans)
  qed
  then have dv: "M dvd sint (x - recent) - (s - l)" unfolding s_def l_def 
    by (metis mod_diff_eq mod_diff_right_eq mod_eq_dvd_iff)
  have rng: "0 \<le> s" "s < M" "0 \<le> l" "l < M" unfolding s_def l_def using MH b by (simp_all add: H_def)
  note ch = bias_choice [OF MH b [folded H_def] rng t [folded H_def] dv]
  have res: "Counter LENGTH('w) (ucast ?s OR (recent AND NOT (ucast (kMask m :: 's word)))) = recent + word_of_int (s - l)"
    unfolding wx km low_replace us [symmetric] ul [symmetric] by simp
  have c1: "recent AND mask m < take_bit m x \<longleftrightarrow> l < s"
    unfolding word_mask_eq_take_bit word_less_def us ul ..
  have d1: "uint (take_bit m x - take_bit m recent) = s - l" if "l < s"
    using uint_minus_simple_alt [of "take_bit m recent" "take_bit m x"] that
    unfolding us ul word_le_def by simp
  have d2: "uint (take_bit m recent - take_bit m x) = l - s" if "\<not> l < s"
    using uint_minus_simple_alt [of "take_bit m x" "take_bit m recent"] that
    unfolding us ul word_le_def by simp
  have wH: "word_of_int H - word_of_int b = (word_of_int (H - b) :: 'w word)"
    "word_of_int H + word_of_int b = (word_of_int (H + b) :: 'w word)" by simp_all
  have uH: "uint (word_of_int (H - b) :: 'w word) = H - b" "uint (word_of_int (H + b) :: 'w word) = H + b"
    unfolding uint_word_of_int using b [folded H_def] MH MW
    by (intro mod_pos_pos_trivial; linarith)+
  have pM: "Counter LENGTH('w) (push_bit 1 (word_of_int H)) = (word_of_int M :: 'w word)"
    unfolding MH by (simp add: push_bit_eq_mult)
  show ?thesis
    unfolding ExpandFromTruncatedWithBias_def Let_def res unfolding km wx kh c1
    unfolding word_le_def word_less_def wH uH word_mask_eq_take_bit pM counter_sub_assign_def counter_add_assign_def
    using d1 d2 ch xr by (auto simp: word_mask_eq_take_bit)
  
qed


section \<open>Order of rolling counters\<close>

lemma uint_exp:
  assumes "n < LENGTH('w)"
  shows "uint (2 ^ n :: 'w::len word) = 2 ^ n"
proof -
  have "uint (word_of_int (2 ^ n) :: 'w word) = 2 ^ n"
    unfolding uint_word_of_int using assms by (intro mod_pos_pos_trivial) simp_all
  then show ?thesis by simp
qed

lemma counter_lt_iff_bit:
  assumes "0 < k" "k \<le> LENGTH('w)"
  shows "counter_lt k a b \<longleftrightarrow> bit (a - b :: 'w::len word) (k - 1)"
proof -
  obtain n where n: "k = Suc n" using assms(1) by (cases k) auto
  let ?d = "uint (a - b)"
  have "counter_lt k a b \<longleftrightarrow> uint (2 ^ n :: 'w word) \<le> uint (take_bit k (a - b))"
    using assms by (simp add: counter_lt_def kMSB_eq n word_le_def word_mask_eq_take_bit)
  also have "uint (2 ^ n :: 'w word) = 2 ^ n" using assms n by (intro uint_exp) simp
  also have "uint (take_bit k (a - b)) = take_bit (Suc n) ?d"
    unfolding n by (rule unsigned_take_bit_eq)
  also have "take_bit (Suc n) ?d = 2 ^ n * of_bool (bit ?d n) + take_bit n ?d"
    by (rule take_bit_Suc_from_most)
  also have "2 ^ n \<le> 2 ^ n * of_bool (bit ?d n) + take_bit n ?d \<longleftrightarrow> bit ?d n"
    by (cases "bit ?d n") (auto simp flip: not_less)
  also have "bit ?d n \<longleftrightarrow> bit (a - b) (k - 1)" using assms n by (simp add: bit_simps)
  finally show ?thesis .
qed

lemma counter_lt64_iff_sint: "counter_lt 64 a (b :: u64) \<longleftrightarrow> sint (a - b) < 0"
  using bit_last_iff [of "a - b"] by (simp add: counter_lt_iff_bit)

lemma wrap_less_iff:
  fixes A B :: int
  assumes "0 \<le> A" "A < 2 ^ 63" "0 \<le> B" "B < 2 ^ 63"
  shows "2 ^ 63 \<le> (if B \<le> A then A - B else A - B + 2 ^ 64) \<longleftrightarrow> A < B"
  using assms by auto

text \<open>Below half of the range the rolling order is the plain order.\<close>

lemma counter_lt64_small:
  assumes "a < 2 ^ 63" "(b :: u64) < 2 ^ 63"
  shows "counter_lt 64 a b \<longleftrightarrow> a < b"
proof -
  have "counter_lt 64 a b \<longleftrightarrow> 2 ^ 63 \<le> uint (a - b)"
    by (simp add: counter_lt_def kMSB_eq word_le_def word_mask_eq_take_bit)
  also have "\<dots> \<longleftrightarrow> uint a < uint b"
  proof -
    have le: "uint a < 2 ^ 63" "uint b < 2 ^ 63"
      using assms by (simp_all add: word_less_def)
    have ge: "0 \<le> uint a" "0 \<le> uint b" by simp_all
    have "uint (a - b) = (if uint b \<le> uint a then uint a - uint b else uint a - uint b + 2 ^ 64)"
      using uint_sub_if' [of a b] by simp
    then show ?thesis using wrap_less_iff [OF ge(1) le(1) ge(2) le(2)] by simp
  qed
  finally show ?thesis by (simp add: word_less_def)
qed


lemma sint_signed_take_bit:
  fixes d :: "'w::len word"
  assumes "Suc n < LENGTH('w)"
  shows "sint (signed_take_bit n d) = signed_take_bit n (sint d)"
  using assms by (intro bit_eqI) (auto simp: bit_simps min_def)

lemma take_bit_add_cong:
  fixes a b c d :: "'w::len word"
  assumes k: "k \<le> LENGTH('w)" and "take_bit k a = take_bit k c" "take_bit k b = take_bit k d"
  shows "take_bit k (a + b) = take_bit k (c + d)"
proof -
  have d: "(2::int) ^ k dvd 2 ^ LENGTH('w)" using k by (simp add: le_imp_power_dvd)
  have "uint a mod 2 ^ k = uint c mod 2 ^ k" "uint b mod 2 ^ k = uint d mod 2 ^ k"
    using assms(2,3) unfolding uint_take_bit_mod [symmetric] by auto
  then show ?thesis
    unfolding word_uint_eq_iff uint_take_bit_mod uint_word_ariths mod_mod_cancel [OF d]
    by (intro mod_add_cong)
qed

lemma CounterExpand_unique:
  assumes n: "1 \<le> n" "n \<le> 7"
  shows "CounterExpand largest partial n = x \<longleftrightarrow>
    take_bit (8 * n) x = take_bit (8 * n) partial \<and>
    - (2 ^ (8 * n - 1)) \<le> sint (x - largest) \<and> sint (x - largest) < 2 ^ (8 * n - 1)"
    (is "?lhs \<longleftrightarrow> ?low \<and> ?lo \<and> ?hi")
proof
  have j: "Suc (8 * n - 1) = 8 * n" using n by simp
  show "?low \<and> ?lo \<and> ?hi" if ?lhs
  proof -
    have x: "x = largest + signed_take_bit (8 * n - 1) (partial - largest)"
      using that n by (simp add: CounterExpand_eq)
    then have "x - largest = signed_take_bit (8 * n - 1) (partial - largest)" by simp
    then have s: "sint (x - largest) = signed_take_bit (8 * n - 1) (sint (partial - largest))"
      using n by (simp add: sint_signed_take_bit)
    have "take_bit (8 * n) x = take_bit (8 * n) (largest + (partial - largest))"
      unfolding x using n by (intro take_bit_add_cong) (simp_all add: take_bit_signed_take_bit)
    then show ?thesis unfolding s by (simp add: signed_take_bit_int_greater_eq_minus_exp signed_take_bit_int_less_exp)
  qed
  show ?lhs if *: "?low \<and> ?lo \<and> ?hi"
  proof -
    have "take_bit (Suc (8 * n - 1)) (partial - largest) = take_bit (Suc (8 * n - 1)) (x - largest)"
      unfolding j using * n by (intro take_bit_sub_cong) simp_all
    then have "signed_take_bit (8 * n - 1) (partial - largest) = x - largest"
      using * by (metis signed_take_bit_eq_iff_take_bit_eq signed_take_bit_word_id)
    then show ?thesis using n by (simp add: CounterExpand_eq)
  qed
qed

text \<open>Property C32: For a truncation to 1..7 bytes, \<open>CounterExpand\<close> returns exactly the one 64-bit value
  whose low bytes are the received ones and whose signed distance from the largest value seen so far
  lies in the half-open window of one truncated period around it.  In particular a truncated
  counter is recovered whenever sender and receiver are less than half a period apart, also across
  a roll-over of the full counter.\<close>

theorem CounterExpand_iff:
  assumes "1 \<le> n" and "n \<le> 7"
  shows "CounterExpand largest partial n = x \<longleftrightarrow>
    take_bit (8 * n) x = take_bit (8 * n) partial \<and>
    - (2 ^ (8 * n - 1)) \<le> sint (x - largest) \<and> sint (x - largest) < 2 ^ (8 * n - 1)"
  using assms by (rule CounterExpand_unique)

theorem CounterExpand_iff_witness:
  "CounterExpand 0x1ff 0x01 1 = 0x201 \<and> CounterExpand 0xffffffffffffffff 0x05 2 = 0x05"
  using CounterExpand_iff [of 1 "0x1ff" "0x01" "0x201"]
    CounterExpand_iff [of 2 "0xffffffffffffffff" "0x05" "0x05"] by simp

lemma uint_take_bit_rollback:
  fixes a d :: "'w::len word"
  assumes k: "0 < k" "k \<le> LENGTH('w)" and d: "0 < uint d" "uint d < 2 ^ (k - 1)"
  shows "uint (take_bit k (a - take_bit k (a + d))) = 2 ^ k - uint d"
    "uint (take_bit k (take_bit k (a + d) - a)) = uint d"
proof -
  have e: "(2::int) ^ k = 2 * 2 ^ (k - 1)" using k(1) by (simp add: power_eq_if)
  have "take_bit k (a - take_bit k (a + d)) = take_bit k (a - (a + d))"
    using k by (intro take_bit_sub_cong) simp_all
  also have "a - (a + d) = - d" by simp
  finally have "uint (take_bit k (a - take_bit k (a + d))) = (- uint d) mod 2 ^ k"
    using k by (simp only: uint_take_bit_mod uint_word_ariths mod_mod_cancel le_imp_power_dvd)
  also have "\<dots> = (2 ^ k - uint d) mod 2 ^ k" by (simp add: mod_simps)
  also have "\<dots> = 2 ^ k - uint d" using d e by (intro mod_pos_pos_trivial) simp_all
  finally show "uint (take_bit k (a - take_bit k (a + d))) = 2 ^ k - uint d" .
  have "take_bit k (take_bit k (a + d) - a) = take_bit k ((a + d) - a)"
    using k by (intro take_bit_sub_cong) simp_all
  then have "uint (take_bit k (take_bit k (a + d) - a)) = uint d mod 2 ^ k"
    by (simp only: uint_take_bit_mod add_diff_cancel_left')
  also have "\<dots> = uint d" using d e by (intro mod_pos_pos_trivial) simp_all
  finally show "uint (take_bit k (take_bit k (a + d) - a)) = uint d" .
qed

text \<open>Advancing a \<open>k\<close>-bit counter by less than half of its range makes it compare greater
  than before under every one of the overloaded comparison operators, also when the counter rolls
  over from its maximum to zero.\<close>

lemma counter_order_survives_rollover:
  fixes a d :: "'w::len word"
  assumes k: "0 < k" "k \<le> LENGTH('w)" and d: "0 < uint d" "uint d < 2 ^ (k - 1)"
  shows "counter_lt k a (counter_add k a d) \<and> counter_le k a (counter_add k a d) \<and>
    counter_gt k (counter_add k a d) a \<and> counter_ge k (counter_add k a d) a \<and>
    \<not> counter_lt k (counter_add k a d) a \<and> \<not> counter_gt k a (counter_add k a d)"
proof -
  have e: "(2::int) ^ k = 2 * 2 ^ (k - 1)" using k(1) by (simp add: power_eq_if)
  have ms: "uint (2 ^ (k - 1) :: 'w word) = 2 ^ (k - 1)" using k by (intro uint_exp) simp
  have c: "counter_add k a d = take_bit k (a + d)"
    using k by (simp add: counter_add_def Counter_eq_take_bit)
  have m: "(w :: 'w word) AND kMask k = take_bit k w" for w
    using k by (simp add: word_mask_eq_take_bit)
  show ?thesis
    unfolding counter_lt_def counter_le_def counter_gt_def counter_ge_def kMSB_eq c m word_le_def
      word_less_def ms uint_take_bit_rollback [OF k d]
    using d e by simp
qed

end
