(* ===== verification/Strike_Register.thy ===== *)
theory Strike_Register
  imports Counter_Math
begin

text \<open>
  The anti-replay window of \<open>StrikeRegister.h\<close> and \<open>StrikeRegister.cpp\<close>.

  The register keeps a bit field of 4096 recent sequence numbers.  The field is not shifted when the
  window advances; instead \<open>WindowBitRotation\<close> says at which bit the number \<open>WindowBase\<close> is kept.
  The model follows the code word by word: 64 words of 64 bits, the 32-bit cast of the slide count
  and the loop that clears the words being reused.

  Shown: the representation invariant is kept, \<open>Accept\<close> strikes exactly the accepted number and the
  numbers that fall out of the window, and hence no sequence number is ever accepted twice.
\<close>

section \<open>Model\<close>

record StrikeRegister =
  SlidingWindow :: "u64 list"
  WindowBase :: u64
  WindowBitRotation :: u32
  LargestSequence :: u64

definition kStrikeRegisterBits :: nat where
  "kStrikeRegisterBits = 4096"

definition kWordCount :: nat where
  "kWordCount = (kStrikeRegisterBits + 63) div 64"

definition Reset :: "u64 \<Rightarrow> StrikeRegister" where
  "Reset newBase = \<lparr>SlidingWindow = replicate kWordCount 0, WindowBase = newBase,
     WindowBitRotation = 0, LargestSequence = newBase\<rparr>"

text \<open>\<open>SlidingWindow[bit / 64] & (1 << (bit % 64))\<close> and the corresponding \<open>|=\<close>.\<close>

definition window_test :: "u64 list \<Rightarrow> nat \<Rightarrow> bool" where
  "window_test W b \<longleftrightarrow> W ! (b div 64) AND push_bit (b mod 64) 1 \<noteq> 0"

definition window_set :: "u64 list \<Rightarrow> nat \<Rightarrow> u64 list" where
  "window_set W b = W[b div 64 := W ! (b div 64) OR push_bit (b mod 64) 1]"

definition IsDuplicate :: "StrikeRegister \<Rightarrow> u64 \<Rightarrow> bool" where
  "IsDuplicate s sequence =
     (if counter_lt 64 sequence (WindowBase s) then True
      else let distance = counter_sub 64 sequence (WindowBase s)
           in if of_nat kStrikeRegisterBits \<le> distance then False
              else window_test (SlidingWindow s)
                     (unat ((distance + ucast (WindowBitRotation s)) mod of_nat kStrikeRegisterBits)))"

text \<open>The loop that clears the words reused from the front: \<open>n\<close> iterations starting at \<open>word\<close>.\<close>

fun clear_words :: "u64 list \<Rightarrow> nat \<Rightarrow> nat \<Rightarrow> u64 list" where
  "clear_words W word 0 = W"
| "clear_words W word (Suc n) =
     clear_words (W[word := 0]) (if Suc word \<ge> kWordCount then 0 else Suc word) n"

text \<open>\<open>Accept\<close>: first the largest sequence number is updated, then the window slides if the number is
  ahead of it, then the bit of the number is set.\<close>

definition update_largest :: "StrikeRegister \<Rightarrow> u64 \<Rightarrow> StrikeRegister" where
  "update_largest s sequence =
     (if counter_lt 64 (LargestSequence s) sequence then s\<lparr>LargestSequence := sequence\<rparr> else s)"

definition strike_window :: "StrikeRegister \<Rightarrow> u64 \<Rightarrow> StrikeRegister" where
  "strike_window s sequence =
     (if counter_lt 64 sequence (WindowBase s) then s
      else let distance = counter_sub 64 sequence (WindowBase s)
      in if of_nat kStrikeRegisterBits \<le> distance then
           (let slideWords = (ucast ((distance - of_nat kStrikeRegisterBits) div 64 + 1) :: u32)
            in if of_nat kWordCount \<le> slideWords
               then (Reset sequence)\<lparr>SlidingWindow := (replicate kWordCount 0)[0 := 1]\<rparr>
               else
                 (let W = clear_words (SlidingWindow s) (unat (WindowBitRotation s) div 64) (unat slideWords);
                      slideBits = slideWords * 64;
                      rot = WindowBitRotation s + slideBits;
                      rot' = (if of_nat kStrikeRegisterBits \<le> rot
                              then rot - of_nat kStrikeRegisterBits else rot);
                      distance' = distance - ucast slideBits;
                      b = unat ((distance' + ucast rot') mod of_nat kStrikeRegisterBits)
                  in s\<lparr>WindowBase := counter_add_assign 64 (WindowBase s) (Counter 64 (ucast slideBits)),
                       WindowBitRotation := rot', SlidingWindow := window_set W b\<rparr>))
         else
           (let b = unat ((distance + ucast (WindowBitRotation s)) mod of_nat kStrikeRegisterBits)
            in s\<lparr>SlidingWindow := window_set (SlidingWindow s) b\<rparr>))"

definition Accept :: "StrikeRegister \<Rightarrow> u64 \<Rightarrow> StrikeRegister" where
  "Accept s sequence = strike_window (update_largest s sequence) sequence"

definition GetNextExpected :: "StrikeRegister \<Rightarrow> u64" where
  "GetNextExpected s = counter_add 64 (LargestSequence s) (Counter 64 1)"

definition Expand :: "StrikeRegister \<Rightarrow> u64 \<Rightarrow> nat \<Rightarrow> u64" where
  "Expand s partial nbytes = CounterExpand (LargestSequence s) partial nbytes"

section \<open>Representation invariant\<close>

definition strike_inv :: "StrikeRegister \<Rightarrow> bool" where
  "strike_inv s \<longleftrightarrow> length (SlidingWindow s) = kWordCount \<and>
     unat (WindowBitRotation s) < kStrikeRegisterBits \<and> unat (WindowBitRotation s) mod 64 = 0"

lemmas strike_consts = kStrikeRegisterBits_def kWordCount_def

section \<open>The bit field\<close>

lemma window_test_bit: "window_test W b \<longleftrightarrow> bit (W ! (b div 64)) (b mod 64)"
  by (simp add: window_test_def push_bit_eq_mult and_exp_eq_0_iff_not_bit)

lemma window_test_set:
  assumes "length W = kWordCount" "a < kStrikeRegisterBits" "b < kStrikeRegisterBits"
  shows "window_test (window_set W b) a \<longleftrightarrow> a = b \<or> window_test W a"
proof -
  have "b div 64 < length W" using assms by (simp add: strike_consts)
  moreover have "a = b \<longleftrightarrow> a div 64 = b div 64 \<and> a mod 64 = b mod 64"
    by (metis div_mult_mod_eq)
  ultimately show ?thesis
    by (auto simp: window_test_bit window_set_def bit_simps nth_list_update)
qed

lemma length_window_set [simp]: "length (window_set W b) = length W"
  by (simp add: window_set_def)

lemma length_clear_words [simp]: "length (clear_words W w n) = length W"
  by (induction W w n rule: clear_words.induct) auto

text \<open>Clearing \<open>n\<close> words from \<open>w\<close> on clears exactly the words less than \<open>n\<close> steps ahead.\<close>

lemma nth_clear_words:
  assumes "length W = kWordCount" "w < kWordCount" "i < kWordCount" "n \<le> kWordCount"
  shows "clear_words W w n ! i = (if (i + kWordCount - w) mod kWordCount < n then 0 else W ! i)"
  using assms
proof (induction n arbitrary: W w)
  case 0
  then show ?case by simp
next
  case (Suc n)
  let ?w = "if Suc w \<ge> kWordCount then 0 else Suc w"
  have "clear_words W w (Suc n) ! i = clear_words (W[w := 0]) ?w n ! i" by simp
  also have "\<dots> = (if (i + kWordCount - ?w) mod kWordCount < n then 0 else (W[w := 0]) ! i)"
    using Suc.prems by (intro Suc.IH) (auto simp: strike_consts)
  also have "\<dots> = (if (i + kWordCount - w) mod kWordCount < Suc n then 0 else W ! i)"
  proof (cases "i = w")
    case True
    then show ?thesis using Suc.prems by simp
  next
    case False
    have "(i + kWordCount - w) mod kWordCount = Suc ((i + kWordCount - ?w) mod kWordCount)"
      using Suc.prems(2,3) False by (auto simp: strike_consts mod_if)
    then show ?thesis using False by simp
  qed
  finally show ?case .
qed


section \<open>The register in terms of natural numbers\<close>

lemma counter_sub_64 [simp]: "counter_sub 64 a b = a - (b::u64)" "Counter 64 x = (x::u64)" "counter_add_assign 64 a b = a + b"
  "counter_add 64 a b = a + b"
  by (simp_all add: counter_sub_def counter_add_def counter_add_assign_def Counter_eq_take_bit word_mask_eq_take_bit)

lemma bit_index:
  assumes "unat (d::u64) + unat (r::u32) < 2 ^ 64"
  shows "unat ((d + ucast r) mod of_nat kStrikeRegisterBits) = (unat d + unat r) mod kStrikeRegisterBits"
proof -
  have "unat (ucast r :: u64) = unat r" by (rule unat_ucast_up) simp
  then have "unat (d + ucast r) = unat d + unat r" using assms by (subst unat_add_lem [THEN iffD1]) simp_all
  then show ?thesis by (simp add: unat_mod strike_consts)
qed

lemma IsDuplicate_nat:
  assumes "strike_inv s" "WindowBase s < 2 ^ 63" "p < 2 ^ 63"
  shows "IsDuplicate s p \<longleftrightarrow> p < WindowBase s \<or>
    (unat p - unat (WindowBase s) < kStrikeRegisterBits \<and>
     window_test (SlidingWindow s)
       ((unat p - unat (WindowBase s) + unat (WindowBitRotation s)) mod kStrikeRegisterBits))"
proof (cases "p < WindowBase s")
  case True
  then show ?thesis using assms by (simp add: IsDuplicate_def counter_lt64_small)
next
  case False
  then have d: "unat (p - WindowBase s) = unat p - unat (WindowBase s)"
    by (intro unat_sub) simp
  have "unat p < 2 ^ 63" using assms(3) by (simp add: word_less_nat_alt)
  then have "unat (p - WindowBase s) + unat (WindowBitRotation s) < 2 ^ 64"
    using d unat_bound [of "WindowBitRotation s"] by simp
  note i = bit_index [OF this, unfolded d]
  have c: "of_nat kStrikeRegisterBits \<le> p - WindowBase s \<longleftrightarrow> \<not> unat p - unat (WindowBase s) < kStrikeRegisterBits"
    unfolding word_le_nat_alt d by (auto simp: strike_consts)
  show ?thesis using False assms
    unfolding IsDuplicate_def Let_def counter_sub_64 i c by (simp add: counter_lt64_small)
qed

lemma strike_window_in:
  assumes "strike_inv s" "WindowBase s \<le> q" "q < 2 ^ 63" 
    and D: "D = unat q - unat (WindowBase s)" "D < kStrikeRegisterBits"
  shows "SlidingWindow (strike_window s q) = window_set (SlidingWindow s) ((D + unat (WindowBitRotation s)) mod kStrikeRegisterBits)"
    "WindowBase (strike_window s q) = WindowBase s" "WindowBitRotation (strike_window s q) = WindowBitRotation s"
proof -
  have b: "WindowBase s < 2 ^ 63" using assms by simp
  have d: "unat (q - WindowBase s) = D" using assms by (simp add: unat_sub)
  have "unat (q - WindowBase s) + unat (WindowBitRotation s) < 2 ^ 64"
    using d D(2) unat_bound [of "WindowBitRotation s"] by (simp add: strike_consts)
  note i = bit_index [OF this, unfolded d]
  have n: "\<not> of_nat kStrikeRegisterBits \<le> q - WindowBase s"
    using d D(2) by (simp add: word_le_nat_alt strike_consts)
  have nlt: "\<not> q < WindowBase s" using assms by simp
  show "SlidingWindow (strike_window s q) = window_set (SlidingWindow s) ((D + unat (WindowBitRotation s)) mod kStrikeRegisterBits)"
    "WindowBase (strike_window s q) = WindowBase s" "WindowBitRotation (strike_window s q) = WindowBitRotation s"
    using i n nlt b assms(3) by (simp_all add: strike_window_def Let_def counter_lt64_small)
qed

lemma strike_window_slide:
  assumes "strike_inv s" "WindowBase s \<le> q" "q < 2 ^ 63" 
    and D: "D = unat q - unat (WindowBase s)" "kStrikeRegisterBits \<le> D"
    and sw: "sw = (D - kStrikeRegisterBits) div 64 + 1" "sw < kWordCount"
    and r: "r = (unat (WindowBitRotation s) + 64 * sw) mod kStrikeRegisterBits"
  shows "SlidingWindow (strike_window s q) =
      window_set (clear_words (SlidingWindow s) (unat (WindowBitRotation s) div 64) sw) ((D - 64 * sw + r) mod kStrikeRegisterBits)"
    "unat (WindowBase (strike_window s q)) = unat (WindowBase s) + 64 * sw" "unat (WindowBitRotation (strike_window s q)) = r"
proof -
  have b: "WindowBase s < 2 ^ 63" using assms by simp
  have d: "unat (q - WindowBase s) = D" using assms by (simp add: unat_sub)
  have nlt: "\<not> q < WindowBase s" using assms by simp
  have n: "of_nat kStrikeRegisterBits \<le> q - WindowBase s"
    using d D(2) by (simp add: word_le_nat_alt strike_consts)
  define sww where "sww = (ucast ((q - WindowBase s - of_nat kStrikeRegisterBits) div 64 + 1) :: u32)"
  have k: "unat (of_nat kStrikeRegisterBits :: u64) = kStrikeRegisterBits" by (simp add: strike_consts)
  have e: "unat ((q - WindowBase s - of_nat kStrikeRegisterBits) div 64) = (D - kStrikeRegisterBits) div 64"
    using n d k by (simp add: unat_div unat_sub)
  have usw64: "unat ((q - WindowBase s - of_nat kStrikeRegisterBits) div 64 + 1) = sw"
    using sw e by (subst unat_add_lem [THEN iffD1]) (simp_all add: strike_consts)
  then have usw: "unat sww = sw"
    unfolding sww_def unat_ucast_mod using sw(2) by (simp add: strike_consts)
  have swl: "\<not> of_nat kWordCount \<le> sww" using usw sw(2) by (simp add: word_le_nat_alt strike_consts)
  have u64: "unat (sww * 64) = 64 * sw"
    using usw sw(2) by (subst unat_mult_lem [THEN iffD1]) (simp_all add: strike_consts)
  have u64': "unat (ucast (sww * 64) :: u64) = 64 * sw" using u64 by (simp add: unat_ucast_up)
  define rr where "rr = WindowBitRotation s + sww * 64"
  have rot: "unat (WindowBitRotation s) < kStrikeRegisterBits" using assms(1) by (simp add: strike_inv_def)
  have urr: "unat rr = unat (WindowBitRotation s) + 64 * sw"
    unfolding rr_def using u64 rot sw(2) by (subst unat_add_lem [THEN iffD1]) (simp_all add: strike_consts)
  define r' where "r' = (if of_nat kStrikeRegisterBits \<le> rr then rr - of_nat kStrikeRegisterBits else rr)"
  have k32: "unat (of_nat kStrikeRegisterBits :: u32) = kStrikeRegisterBits" by (simp add: strike_consts)
  have ur: "unat r' = r"
    unfolding r'_def r using urr rot sw(2) k32
    by (auto simp: unat_sub word_le_nat_alt mod_if strike_consts)
  have dsw: "64 * sw \<le> D" using sw(1) D(2) by (simp add: strike_consts)
  have ud: "unat (q - WindowBase s - ucast (sww * 64)) = D - 64 * sw"
    using d u64' dsw by (simp add: unat_sub word_le_nat_alt)
  have dl: "D - 64 * sw < 4096" using sw D(2) by (simp add: strike_consts)
  have "unat (q - WindowBase s - ucast (sww * 64)) + unat r' < 2 ^ 64"
    unfolding ud using dl unat_bound [of r'] by simp
  note i = bit_index [OF this, unfolded ud ur]
  have bs: "unat (WindowBase s + ucast (sww * 64)) = unat (WindowBase s) + 64 * sw"
    using u64' dsw D(1) unat_bound [of q] assms(2) [unfolded word_le_nat_alt]
    by (subst unat_add_lem [THEN iffD1]) simp_all
  show "SlidingWindow (strike_window s q) =
      window_set (clear_words (SlidingWindow s) (unat (WindowBitRotation s) div 64) sw) ((D - 64 * sw + r) mod kStrikeRegisterBits)"
    "unat (WindowBase (strike_window s q)) = unat (WindowBase s) + 64 * sw" "unat (WindowBitRotation (strike_window s q)) = r"
    using  nlt b assms(3) n swl ur bs
    unfolding strike_window_def Let_def counter_sub_64 sww_def [symmetric] rr_def [symmetric] r'_def [symmetric] i usw
    by (simp_all add:  counter_lt64_small)
qed

lemma strike_window_reset:
  assumes "strike_inv s" "WindowBase s \<le> q" "q < 2 ^ 63" 
    and D: "D = unat q - unat (WindowBase s)" "kStrikeRegisterBits \<le> D" "D < 2 ^ 38"
    and sw: "kWordCount \<le> (D - kStrikeRegisterBits) div 64 + 1"
  shows "strike_window s q = (Reset q)\<lparr>SlidingWindow := (replicate kWordCount 0)[0 := 1]\<rparr>"
proof -
  have b: "WindowBase s < 2 ^ 63" using assms by simp
  have d: "unat (q - WindowBase s) = D" using assms by (simp add: unat_sub)
  have nlt: "\<not> q < WindowBase s" using assms by simp
  have n: "of_nat kStrikeRegisterBits \<le> q - WindowBase s"
    using d D(2) by (simp add: word_le_nat_alt strike_consts)
  have k: "unat (of_nat kStrikeRegisterBits :: u64) = kStrikeRegisterBits" by (simp add: strike_consts)
  have e: "unat ((q - WindowBase s - of_nat kStrikeRegisterBits) div 64) = (D - kStrikeRegisterBits) div 64"
    using n d k by (simp add: unat_div unat_sub)
  have usw64: "unat ((q - WindowBase s - of_nat kStrikeRegisterBits) div 64 + 1) = (D - kStrikeRegisterBits) div 64 + 1"
    using D(3) e by (subst unat_add_lem [THEN iffD1]) (simp_all add: strike_consts)
  have "(D - kStrikeRegisterBits) div 64 + 1 < 2 ^ 32" using D(2,3) by (simp add: strike_consts)
  then have "unat (ucast ((q - WindowBase s - of_nat kStrikeRegisterBits) div 64 + 1) :: u32) = (D - kStrikeRegisterBits) div 64 + 1"
    unfolding unat_ucast_mod usw64 by simp
  then have "of_nat kWordCount \<le> (ucast ((q - WindowBase s - of_nat kStrikeRegisterBits) div 64 + 1) :: u32)"
    using sw by (simp add: word_le_nat_alt strike_consts)
  then show ?thesis using nlt b assms(3) n by (simp add: strike_window_def Let_def counter_lt64_small)
qed


lemma word_index_rotate:
  assumes "rw < 64"
  shows "((d + 64 * rw) mod 4096 div 64 + 64 - rw) mod 64 = (d div 64) mod (64::nat)"
proof -
  have "(d + 64 * rw) mod (64 * 64) div 64 = ((d + 64 * rw) div 64) mod 64"
    by (simp only: mod_mult2_eq)
  also have "(d + 64 * rw) div 64 = d div 64 + rw" by simp
  finally have "(d + 64 * rw) mod 4096 div 64 = (d div 64 + rw) mod 64" by simp
  moreover have "((d div 64 + rw) mod 64 + 64 - rw) mod 64 = (d div 64) mod 64"
  proof -
    have "(d div 64 + rw) mod 64 + 64 - rw = (d div 64 + rw) mod 64 + (64 - rw)" using assms by simp
    also have "\<dots> mod 64 = (d div 64 + rw + (64 - rw)) mod 64" by (simp add: mod_simps)
    also have "d div 64 + rw + (64 - rw) = d div 64 + 64" using assms by simp
    finally show ?thesis by simp
  qed
  ultimately show ?thesis by simp
qed

lemma window_test_clear:
  assumes W: "length W = kWordCount" and r: "r < kStrikeRegisterBits" "r mod 64 = 0" and n: "n \<le> kWordCount"
  shows "window_test (clear_words W (r div 64) n) ((d + r) mod kStrikeRegisterBits)
    \<longleftrightarrow> n \<le> (d div 64) mod 64 \<and> window_test W ((d + r) mod kStrikeRegisterBits)"
proof -
  define rw where "rw = r div 64"
  have rr: "r = 64 * rw" using r(2) unfolding rw_def by auto
  have rw: "rw < 64" using r(1) by (simp add: rw_def strike_consts)
  let ?b = "(d + r) mod 4096"
  have "clear_words W rw n ! (?b div 64) = (if (?b div 64 + 64 - rw) mod 64 < n then 0 else W ! (?b div 64))"
    using W rw n by (subst nth_clear_words) (simp_all add: strike_consts)
  also have "(?b div 64 + 64 - rw) mod 64 = (d div 64) mod 64"
    unfolding rr using word_index_rotate [OF rw] by simp
  finally show ?thesis
    unfolding window_test_bit rw_def [symmetric] by (simp add: kStrikeRegisterBits_def not_le)
qed

lemma rotate_inj:
  assumes "(a::nat) < kStrikeRegisterBits" "b < kStrikeRegisterBits"
  shows "(a + r) mod kStrikeRegisterBits = (b + r) mod kStrikeRegisterBits \<longleftrightarrow> a = b"
proof -
  have *: "x = y" if "x \<le> y" "y < kStrikeRegisterBits"
      "(x + r) mod kStrikeRegisterBits = (y + r) mod kStrikeRegisterBits" for x y
  proof -
    have "kStrikeRegisterBits dvd (y + r) - (x + r)"
      using that by (subst mod_eq_dvd_iff_nat [symmetric]) simp_all
    then have "kStrikeRegisterBits dvd y - x" by simp
    then show ?thesis using that(1,2) by (auto dest: dvd_imp_le)
  qed
  show ?thesis using * [of a b] * [of b a] assms by (cases "a \<le> b") auto
qed

lemma rotate_shift:
  assumes "(c::nat) \<le> d"
  shows "(d - c + (r + c) mod K) mod K = (d + r) mod K"
proof -
  have "(d - c + (r + c) mod K) mod K = (d - c + (r + c)) mod K" by (rule mod_add_right_eq)
  then show ?thesis using assms by simp
qed

section \<open>The contract of \<open>Accept\<close>\<close>

text \<open>\<open>strikes s q t\<close>: register \<open>t\<close> is register \<open>s\<close> with the number \<open>q\<close> struck.  The window only moves
  forward, and the struck numbers are the ones struck before, \<open>q\<close>, and those behind the window.\<close>

definition strikes :: "StrikeRegister \<Rightarrow> u64 \<Rightarrow> StrikeRegister \<Rightarrow> bool" where
  "strikes s q t \<longleftrightarrow> strike_inv t \<and> WindowBase s \<le> WindowBase t \<and> WindowBase t \<le> q \<and>
     (\<forall>p < 2 ^ 63. IsDuplicate t p \<longleftrightarrow> p < WindowBase t \<or> p = q \<or> IsDuplicate s p)"

lemma strikes_in:
  assumes inv: "strike_inv s" and q: "WindowBase s \<le> q" "q < 2 ^ 63"
    and D: "unat q - unat (WindowBase s) < kStrikeRegisterBits"
  shows "strikes s q (strike_window s q)"
  unfolding strikes_def
proof (intro conjI allI impI)
  note eff = strike_window_in [OF inv q refl D]
  let ?r = "unat (WindowBitRotation s)"
  show inv': "strike_inv (strike_window s q)" using inv eff by (simp add: strike_inv_def)
  fix p :: u64 assume p: "p < 2 ^ 63"
  have b: "WindowBase s < 2 ^ 63" using q by simp
  have k: "kStrikeRegisterBits > 0" by (simp add: strike_consts)
  have pq: "(unat p - unat (WindowBase s) + ?r) mod kStrikeRegisterBits = (unat q - unat (WindowBase s) + ?r) mod kStrikeRegisterBits
      \<longleftrightarrow> p = q" if "\<not> p < WindowBase s" "unat p - unat (WindowBase s) < kStrikeRegisterBits"
  proof -
    have "unat (WindowBase s) \<le> unat p" "unat (WindowBase s) \<le> unat q"
      using that(1) q(1) by (simp_all add: word_le_nat_alt word_less_nat_alt)
    then show ?thesis using rotate_inj [OF that(2) D] by (auto simp: word_unat_eq_iff)
  qed
  show "IsDuplicate (strike_window s q) p \<longleftrightarrow> p < WindowBase (strike_window s q) \<or> p = q \<or> IsDuplicate s p"
    unfolding IsDuplicate_nat [OF inv' _ p, unfolded eff, OF b] IsDuplicate_nat [OF inv b p] eff
    using pq D inv k by (auto simp: window_test_set strike_inv_def)
qed (use strike_window_in [OF inv q refl D] q in simp_all)


lemma strikes_slide:
  assumes inv: "strike_inv s" and q: "WindowBase s \<le> q" "q < 2 ^ 63"
    and D: "D = unat q - unat (WindowBase s)" "kStrikeRegisterBits \<le> D"
    and sw: "sw = (D - kStrikeRegisterBits) div 64 + 1" "sw < kWordCount"
  shows "strikes s q (strike_window s q)"
  unfolding strikes_def
proof (intro conjI allI impI)
  let ?r = "unat (WindowBitRotation s)" and ?K = kStrikeRegisterBits
  define r where "r = (?r + 64 * sw) mod ?K"
  note eff = strike_window_slide [OF inv q D sw r_def]
  have K: "?K = 64 * 64" by (simp add: strike_consts)
  have rot: "?r < ?K" "?r mod 64 = 0" and len: "length (SlidingWindow s) = kWordCount"
    using inv by (simp_all add: strike_inv_def)
  have bq: "unat (WindowBase s) \<le> unat q" using q(1) by (simp add: word_le_nat_alt)
  have "r mod 64 = 0" unfolding r_def K using rot(2) by (simp add: mod_mod_cancel mod_simps)
  moreover have "r < ?K" unfolding r_def by (simp add: strike_consts)
  ultimately show inv': "strike_inv (strike_window s q)" using len eff by (simp add: strike_inv_def)
  show bb: "WindowBase s \<le> WindowBase (strike_window s q)" using eff by (simp add: word_le_nat_alt)
  have swD: "64 * sw \<le> D" "D < ?K + 64 * sw" using sw D(2) by (simp_all add: strike_consts)
  then show bq': "WindowBase (strike_window s q) \<le> q"
    using eff D(1) bq by (simp add: word_le_nat_alt)
  have b': "WindowBase (strike_window s q) < 2 ^ 63" and b: "WindowBase s < 2 ^ 63"
    using bq' q by simp_all
  fix p :: u64 assume p: "p < 2 ^ 63"
  show "IsDuplicate (strike_window s q) p \<longleftrightarrow> p < WindowBase (strike_window s q) \<or> p = q \<or> IsDuplicate s p"
  proof (cases "p < WindowBase (strike_window s q)")
    case True
    then show ?thesis using IsDuplicate_nat [OF inv' b' p] by simp
  next
    case False
    define d where "d = unat p - unat (WindowBase s)"
    have up: "unat (WindowBase s) + 64 * sw \<le> unat p"
      using False eff by (simp add: word_less_nat_alt)
    then have nlt: "\<not> p < WindowBase s" by (simp add: word_less_nat_alt)
    have dd: "unat p - unat (WindowBase (strike_window s q)) = d - 64 * sw" "64 * sw \<le> d"
      using eff up by (simp_all add: d_def)
    have idx: "(d - 64 * sw + r) mod ?K = (d + ?r) mod ?K"
      unfolding r_def by (rule rotate_shift [OF dd(2)])
    have idq: "(D - 64 * sw + r) mod ?K = (D + ?r) mod ?K"
      unfolding r_def by (rule rotate_shift [OF swD(1)])
    have eqpq: "(d - 64 * sw + r) mod ?K = (D - 64 * sw + r) mod ?K \<longleftrightarrow> p = q" if "d - 64 * sw < ?K"
      using rotate_inj [OF that, of "D - 64 * sw"] swD dd(2) bq up D(1) d_def
      by (auto simp: word_unat_eq_iff)
    have wt: "window_test (SlidingWindow (strike_window s q)) ((d - 64 * sw + r) mod ?K) \<longleftrightarrow>
        (d - 64 * sw + r) mod ?K = (D - 64 * sw + r) mod ?K \<or>
        sw \<le> (d div 64) mod 64 \<and> window_test (SlidingWindow s) ((d + ?r) mod ?K)"
    proof -
      have len': "length (clear_words (SlidingWindow s) (?r div 64) sw) = kWordCount" using len by simp
      have lt: "x mod ?K < ?K" for x by (simp add: strike_consts)
      show ?thesis
        unfolding eff(1) window_test_set [OF len' lt lt] idx
          window_test_clear [OF len rot less_imp_le [OF sw(2)]] by (rule refl)
    qed
    have far: "sw \<le> (d div 64) mod 64 \<longleftrightarrow> d < ?K" if "d - 64 * sw < ?K"
      using that dd(2) sw(2) by (auto simp: strike_consts mod_if)
    have dq: "D - 64 * sw < ?K" using swD by linarith
    show ?thesis
      unfolding IsDuplicate_nat [OF inv' b' p] IsDuplicate_nat [OF inv b p] dd(1) eff(3) d_def [symmetric] wt
      using False nlt eqpq far dq dd(2) D(1) d_def by auto
  qed
qed

lemma strikes_reset:
  assumes inv: "strike_inv s" and q: "WindowBase s \<le> q" "q < 2 ^ 63" 
    and D: "D = unat q - unat (WindowBase s)" "kStrikeRegisterBits \<le> D" "D < 2 ^ 38"
    and sw: "kWordCount \<le> (D - kStrikeRegisterBits) div 64 + 1"
  shows "strikes s q (strike_window s q)"
  unfolding strikes_def
proof (intro conjI allI impI)
  note eff = strike_window_reset [OF inv q D sw]
  show inv': "strike_inv (strike_window s q)" by (simp add: eff strike_inv_def Reset_def strike_consts)
  fix p :: u64 assume p: "p < 2 ^ 63"
  have b: "WindowBase s < 2 ^ 63" using q by simp
  have b': "WindowBase (strike_window s q) < 2 ^ 63" using q(2) by (simp add: eff Reset_def)
  have bq: "unat (WindowBase s) \<le> unat q" using q(1) by (simp add: word_le_nat_alt)
  have z: "window_test ((replicate kWordCount 0)[0 := 1]) i \<longleftrightarrow> i = 0" if "i < kStrikeRegisterBits" for i
    using that by (cases "i div 64 = 0") (auto simp: window_test_bit strike_consts nth_list_update bit_simps div_eq_0_iff)
  have kpos: "0 < kStrikeRegisterBits" by (simp add: strike_consts)
  show "IsDuplicate (strike_window s q) p \<longleftrightarrow> p < WindowBase (strike_window s q) \<or> p = q \<or> IsDuplicate s p"
  proof (cases "p < q")
    case True
    then show ?thesis using IsDuplicate_nat [OF inv' b' p] by (simp add: eff Reset_def)
  next
    case False
    then have uqp: "unat q \<le> unat p" by (simp add: word_less_nat_alt)
    then have n: "\<not> p < WindowBase s" using bq by (simp add: word_less_nat_alt)
    have far: "\<not> unat p - unat (WindowBase s) < kStrikeRegisterBits" using D uqp by linarith
    show ?thesis
      unfolding IsDuplicate_nat [OF inv' b' p] IsDuplicate_nat [OF inv b p]
      using False far n uqp z [of "unat p - unat q"] kpos by (auto simp: eff Reset_def word_unat_eq_iff)
  qed
qed (simp_all add: strike_window_reset [OF inv q D sw] Reset_def q)

lemma strikes_window:
  assumes inv: "strike_inv s" and q: "WindowBase s \<le> q" "q < 2 ^ 63" "unat q - unat (WindowBase s) < 2 ^ 38"
  shows "strikes s q (strike_window s q)"
proof -
  let ?D = "unat q - unat (WindowBase s)"
  consider "?D < kStrikeRegisterBits"
    | "kStrikeRegisterBits \<le> ?D" "(?D - kStrikeRegisterBits) div 64 + 1 < kWordCount"
    | "kStrikeRegisterBits \<le> ?D" "kWordCount \<le> (?D - kStrikeRegisterBits) div 64 + 1" by linarith
  then show ?thesis
    by cases (use assms in \<open>auto intro: strikes_in strikes_slide strikes_reset\<close>)
qed


lemma update_largest_fields [simp]:
  "SlidingWindow (update_largest s q) = SlidingWindow s" "WindowBase (update_largest s q) = WindowBase s"
  "WindowBitRotation (update_largest s q) = WindowBitRotation s"
  by (simp_all add: update_largest_def)

lemma IsDuplicate_update_largest [simp]: "IsDuplicate (update_largest s q) p = IsDuplicate s p"
  by (simp add: IsDuplicate_def)

lemma strikes_Accept:
  assumes "strike_inv s" "WindowBase s \<le> q" "q < 2 ^ 63" "unat q - unat (WindowBase s) < 2 ^ 38"
  shows "strikes s q (Accept s q)"
proof -
  have "strikes (update_largest s q) q (strike_window (update_largest s q) q)"
    using assms by (intro strikes_window) (simp_all add: strike_inv_def)
  then show ?thesis by (simp add: strikes_def Accept_def)
qed

lemma strike_inv_Reset [simp]: "strike_inv (Reset b)"
  by (simp add: strike_inv_def Reset_def strike_consts)

text \<open>The largest number accepted so far lies inside of the window.\<close>

definition strike_wf :: "StrikeRegister \<Rightarrow> bool" where
  "strike_wf s \<longleftrightarrow> strike_inv s \<and> LargestSequence s < 2 ^ 63 \<and> WindowBase s \<le> LargestSequence s \<and>
     unat (LargestSequence s) - unat (WindowBase s) < kStrikeRegisterBits"

lemma strike_window_largest:
  assumes "strike_inv s" "WindowBase s \<le> q" "q < 2 ^ 63" "unat q - unat (WindowBase s) < 2 ^ 38"
    and "q \<le> LargestSequence s"
    and "kStrikeRegisterBits \<le> unat q - unat (WindowBase s) \<Longrightarrow> LargestSequence s = q"
  shows "LargestSequence (strike_window s q) = LargestSequence s"
proof -
  have b: "WindowBase s < 2 ^ 63" using assms by simp
  have "unat (q - WindowBase s) = unat q - unat (WindowBase s)" using assms by (simp add: unat_sub)
  then have "kStrikeRegisterBits \<le> unat q - unat (WindowBase s)" if "of_nat kStrikeRegisterBits \<le> q - WindowBase s"
    using that by (simp add: word_le_nat_alt strike_consts)
  then show ?thesis using assms(6) by (auto simp: strike_window_def Let_def Reset_def)
qed

lemma strike_window_base_advances:
  assumes "strike_inv s" "WindowBase s \<le> q" "q < 2 ^ 63" "unat q - unat (WindowBase s) < 2 ^ 38"
  shows "unat q - unat (WindowBase (strike_window s q)) < kStrikeRegisterBits"
proof (rule ccontr)
  let ?t = "strike_window s q"
  assume far: "\<not> ?thesis"
  have st: "strikes s q ?t" using assms by (rule strikes_window)
  then have "IsDuplicate ?t q" using assms(3) by (simp add: strikes_def)
  moreover have t: "WindowBase ?t \<le> q" "strike_inv ?t" using st by (simp_all add: strikes_def)
  moreover have "WindowBase ?t < 2 ^ 63" using t(1) assms(3) by (rule le_less_trans)
  ultimately show False using far IsDuplicate_nat [of ?t q] assms(3) by auto
qed

lemma strike_wf_Accept:
  assumes wf: "strike_wf s" and q: "WindowBase s \<le> q" "q < 2 ^ 63" "unat q - unat (WindowBase s) < 2 ^ 38"
  shows "strike_wf (Accept s q)" "LargestSequence (Accept s q) = max (LargestSequence s) q"
proof -
  let ?u = "update_largest s q" and ?t = "Accept s q"
  have inv: "strike_inv ?u" using wf by (simp add: strike_wf_def strike_inv_def)
  have lu: "LargestSequence ?u = max (LargestSequence s) q"
    using wf q by (auto simp: update_largest_def strike_wf_def counter_lt64_small max_def)
  have "LargestSequence ?u = q" if "kStrikeRegisterBits \<le> unat q - unat (WindowBase s)"
    using that wf unfolding lu strike_wf_def by (auto simp: max_def word_le_nat_alt)
  then show lt: "LargestSequence ?t = max (LargestSequence s) q"
    using strike_window_largest [of ?u q] inv q lu by (simp add: Accept_def)
  have st: "strikes s q ?t" using wf q by (intro strikes_Accept) (simp_all add: strike_wf_def)
  have far: "unat q - unat (WindowBase ?t) < kStrikeRegisterBits"
    unfolding Accept_def using inv q by (intro strike_window_base_advances) simp_all
  have "unat (max (LargestSequence s) q) - unat (WindowBase ?t) < kStrikeRegisterBits"
  proof (cases "LargestSequence s \<le> q")
    case True
    then show ?thesis using far by (simp add: max_def)
  next
    case False
    have "unat (WindowBase s) \<le> unat (WindowBase ?t)" using st by (simp add: strikes_def word_le_nat_alt)
    from diff_le_mono2 [OF this, of "unat (LargestSequence s)"]
    show ?thesis using False wf by (simp add: strike_wf_def max_def)
  qed
  then show "strike_wf ?t" using st wf q unfolding strike_wf_def lt strikes_def by (auto simp: max_def)
qed

lemma IsDuplicate_behind: "sint (q - WindowBase s) < 0 \<Longrightarrow> IsDuplicate s q"
  by (simp add: IsDuplicate_def counter_lt64_iff_sint)

text \<open>Property C7: Accepting a sequence number that is not behind the window (and less than \<open>2^38\<close> ahead of
  it) keeps the register well-formed, remembers the largest number, never moves the window back, and
  afterwards \<open>IsDuplicate\<close> reports exactly the numbers reported before, the accepted number, and the
  numbers that fell out of the window.\<close>

theorem Accept_strikes_exactly:
  assumes "strike_wf s" and "WindowBase s \<le> q" and "q < 2 ^ 63"
    and "unat q - unat (WindowBase s) < 2 ^ 38"
  shows "strike_wf (Accept s q) \<and> LargestSequence (Accept s q) = max (LargestSequence s) q \<and>
    WindowBase s \<le> WindowBase (Accept s q) \<and> WindowBase (Accept s q) \<le> q \<and>
    (\<forall>p < 2 ^ 63. IsDuplicate (Accept s q) p \<longleftrightarrow>
       p < WindowBase (Accept s q) \<or> p = q \<or> IsDuplicate s p)"
proof -
  have "strikes s q (Accept s q)" using assms by (intro strikes_Accept) (simp_all add: strike_wf_def)
  then show ?thesis using strike_wf_Accept [OF assms] by (simp add: strikes_def)
qed

lemma strike_wf_Reset: "b < 2 ^ 63 \<Longrightarrow> strike_wf (Reset b)"
  by (simp add: strike_wf_def) (simp add: Reset_def strike_consts)

theorem Accept_strikes_exactly_witness:
  "strike_wf (Reset 0) \<and> IsDuplicate (Accept (Reset 0) 5000) 5000 \<and> \<not> IsDuplicate (Accept (Reset 0) 5000) 5001"
proof -
  have wf: "strike_wf (Reset 0)" by (rule strike_wf_Reset) simp
  have "\<not> IsDuplicate (Reset 0) 5001"
    by (simp add: IsDuplicate_def Reset_def counter_lt64_iff_sint Let_def strike_consts)
  moreover have "WindowBase (Reset 0) = 0" by (simp add: Reset_def)
  ultimately show ?thesis
    using wf Accept_strikes_exactly [OF wf, of 5000] by (auto dest: less_le_trans)
qed


end
