(* ===== verification/Serializers.thy ===== *)
theory Serializers
  imports Tonk_Prelude
begin

text \<open>
  The serializers of \<open>SiameseSerializers.h\<close>.

  Every function works on a byte buffer and an offset (the C++ pointer argument).  The model uses the
  \<open>GF256_ALIGNED_ACCESSES\<close> variant of the plain-data readers and writers, which accesses single bytes;
  the other variant is the same on a little-endian host.  A result \<open>None\<close> is an access outside of the
  buffer.  The \<open>*_wire\<close> functions are the specification: the bytes a field occupies on the wire.

  The two locales state what the rest of the system relies on: a field written with a codec can be
  read back, and nothing but the field's own bytes is touched.  They are interpreted for each field
  format below.
\<close>

section \<open>Plain-old data\<close>

definition ReadU16_LE :: "bytes \<Rightarrow> nat \<Rightarrow> u16 option" where
  "ReadU16_LE b o' = do {
     d1 \<leftarrow> rd8 b (o' + 1); d0 \<leftarrow> rd8 b o';
     Some (push_bit 8 (ucast d1) OR ucast d0) }"

definition ReadU24_LE :: "bytes \<Rightarrow> nat \<Rightarrow> u32 option" where
  "ReadU24_LE b o' = do {
     d2 \<leftarrow> rd8 b (o' + 2); d1 \<leftarrow> rd8 b (o' + 1); d0 \<leftarrow> rd8 b o';
     Some (push_bit 16 (ucast d2) OR push_bit 8 (ucast d1) OR ucast d0) }"

definition ReadU24_LE_Min4Bytes :: "bytes \<Rightarrow> nat \<Rightarrow> u32 option" where
  "ReadU24_LE_Min4Bytes b o' = ReadU24_LE b o'"

definition ReadU32_LE :: "bytes \<Rightarrow> nat \<Rightarrow> u32 option" where
  "ReadU32_LE b o' = do {
     d3 \<leftarrow> rd8 b (o' + 3); d2 \<leftarrow> rd8 b (o' + 2); d1 \<leftarrow> rd8 b (o' + 1); d0 \<leftarrow> rd8 b o';
     Some (push_bit 24 (ucast d3) OR push_bit 16 (ucast d2) OR push_bit 8 (ucast d1) OR ucast d0) }"

definition ReadU64_LE :: "bytes \<Rightarrow> nat \<Rightarrow> u64 option" where
  "ReadU64_LE b o' = do {
     d7 \<leftarrow> rd8 b (o' + 7); d6 \<leftarrow> rd8 b (o' + 6); d5 \<leftarrow> rd8 b (o' + 5); d4 \<leftarrow> rd8 b (o' + 4);
     d3 \<leftarrow> rd8 b (o' + 3); d2 \<leftarrow> rd8 b (o' + 2); d1 \<leftarrow> rd8 b (o' + 1); d0 \<leftarrow> rd8 b o';
     Some (push_bit 56 (ucast d7) OR push_bit 48 (ucast d6) OR push_bit 40 (ucast d5) OR
           push_bit 32 (ucast d4) OR push_bit 24 (ucast d3) OR push_bit 16 (ucast d2) OR
           push_bit 8 (ucast d1) OR ucast d0) }"

definition WriteU16_LE :: "bytes \<Rightarrow> nat \<Rightarrow> u16 \<Rightarrow> bytes option" where
  "WriteU16_LE b o' v = do { b \<leftarrow> wr8 b (o' + 1) (byte_at 8 v); wr8 b o' (ucast v) }"

definition WriteU24_LE :: "bytes \<Rightarrow> nat \<Rightarrow> u32 \<Rightarrow> bytes option" where
  "WriteU24_LE b o' v = do { b \<leftarrow> wr8 b (o' + 2) (byte_at 16 v); WriteU16_LE b o' (ucast v) }"

definition WriteU24_LE_Min4Bytes :: "bytes \<Rightarrow> nat \<Rightarrow> u32 \<Rightarrow> bytes option" where
  "WriteU24_LE_Min4Bytes b o' v = WriteU24_LE b o' v"

definition WriteU32_LE :: "bytes \<Rightarrow> nat \<Rightarrow> u32 \<Rightarrow> bytes option" where
  "WriteU32_LE b o' v = do {
     b \<leftarrow> wr8 b (o' + 3) (byte_at 24 v); b \<leftarrow> wr8 b (o' + 2) (byte_at 16 v);
     b \<leftarrow> wr8 b (o' + 1) (byte_at 8 v); wr8 b o' (ucast v) }"

definition WriteU64_LE :: "bytes \<Rightarrow> nat \<Rightarrow> u64 \<Rightarrow> bytes option" where
  "WriteU64_LE b o' v = do {
     b \<leftarrow> wr8 b (o' + 7) (byte_at 56 v); b \<leftarrow> wr8 b (o' + 6) (byte_at 48 v);
     b \<leftarrow> wr8 b (o' + 5) (byte_at 40 v); b \<leftarrow> wr8 b (o' + 4) (byte_at 32 v);
     b \<leftarrow> wr8 b (o' + 3) (byte_at 24 v); b \<leftarrow> wr8 b (o' + 2) (byte_at 16 v);
     b \<leftarrow> wr8 b (o' + 1) (byte_at 8 v); wr8 b o' (ucast v) }"

section \<open>Little-endian byte lists\<close>

text \<open>The specification of the plain-data writers: the \<open>n\<close> low bytes of a word, lowest first.\<close>

definition le_bytes :: "nat \<Rightarrow> 'a::len word \<Rightarrow> bytes" where
  "le_bytes n v = map (\<lambda>i. byte_at (8 * i) v) [0..<n]"

lemma length_le_bytes [simp]: "length (le_bytes n v) = n"
  by (simp add: le_bytes_def)

lemma nth_le_bytes [simp]: "i < n \<Longrightarrow> le_bytes n v ! i = byte_at (8 * i) v"
  by (simp add: le_bytes_def)


lemmas le_bytes_write_simps = le_bytes_def upt_rec nth_overwrite nth_list_update

lemma WriteU16_LE_eq [mem_simps]:
  assumes "off + 2 \<le> length b"
  shows "WriteU16_LE b off v = Some (overwrite b off (le_bytes 2 v))"
  using assms by (auto simp: WriteU16_LE_def wr8_in le_bytes_write_simps intro!: nth_equalityI)

lemma WriteU24_LE_eq [mem_simps]:
  assumes "off + 3 \<le> length b"
  shows "WriteU24_LE b off v = Some (overwrite b off (le_bytes 3 v))"
proof -
  have "byte_at 8 (ucast v :: u16) = byte_at 8 v" by (rule bit_word_eqI) (simp add: bit_simps)
  moreover have "(ucast (ucast v :: u16) :: u8) = ucast v" by (rule bit_word_eqI) (simp add: bit_simps)
  ultimately show ?thesis
    using assms by (auto simp: WriteU24_LE_def WriteU16_LE_def wr8_in le_bytes_write_simps
        intro!: nth_equalityI)
qed

lemma WriteU24_LE_Min4Bytes_eq [mem_simps]:
  assumes "off + 3 \<le> length b"
  shows "WriteU24_LE_Min4Bytes b off v = Some (overwrite b off (le_bytes 3 v))"
  using WriteU24_LE_eq [OF assms] by (simp add: WriteU24_LE_Min4Bytes_def)

lemma WriteU32_LE_eq [mem_simps]:
  assumes "off + 4 \<le> length b"
  shows "WriteU32_LE b off v = Some (overwrite b off (le_bytes 4 v))"
  using assms by (auto simp: WriteU32_LE_def wr8_in le_bytes_write_simps intro!: nth_equalityI)

lemma WriteU64_LE_eq [mem_simps]:
  assumes "off + 8 \<le> length b"
  shows "WriteU64_LE b off v = Some (overwrite b off (le_bytes 8 v))"
proof -
  have "WriteU64_LE b off v = Some (b[off + 7 := byte_at 56 v, off + 6 := byte_at 48 v,
      off + 5 := byte_at 40 v, off + 4 := byte_at 32 v, off + 3 := byte_at 24 v,
      off + 2 := byte_at 16 v, off + 1 := byte_at 8 v, off := ucast v])"
    using assms by (simp add: WriteU64_LE_def wr8_in)
  also have "\<dots> = Some (overwrite b off (le_bytes 8 v))"
    using assms by (auto simp: le_bytes_write_simps intro!: nth_equalityI)
  finally show ?thesis .
qed

text \<open>The readers: a value is read exactly where its little-endian bytes stand.\<close>

lemma bit_byte_at: "bit (byte_at k v) n \<longleftrightarrow> n < 8 \<and> bit v (n + k)"
  by (auto simp: bit_simps ac_simps)

lemma bit_of_bytes:
  fixes v :: "'a::len word"
  assumes "slice b off k = le_bytes k v" and "off + k \<le> length b" and "i < k"
  shows "bit (b ! (off + i)) n \<longleftrightarrow> n < 8 \<and> bit v (n + 8 * i)"
proof -
  have "b ! (off + i) = byte_at (8 * i) v"
    using assms nth_slice [of off k b i] by simp
  then show ?thesis by (simp only: bit_byte_at)
qed

lemma bit_placed_byte:
  fixes v :: "'a::len word"
  assumes "slice b off k = le_bytes k v" and "off + k \<le> length b"
    and "p mod 8 = 0" and "j = off + p div 8" and "p div 8 < k"
  shows "bit (push_bit p (ucast (b ! j)) :: 'a word) n \<longleftrightarrow> p \<le> n \<and> n < p + 8 \<and> bit v n"
proof -
  have "8 * (p div 8) = p" using assms(3) by presburger
  then show ?thesis
    using bit_imp_le_length [of v n]
    by (auto simp: bit_simps bit_of_bytes [OF assms(1,2,5)] assms(4))
qed

lemma bit_placed_byte_0:
  fixes v :: "'a::len word"
  assumes "slice b off k = le_bytes k v" and "off + k \<le> length b" and "0 < k"
  shows "bit (ucast (b ! off) :: 'a word) n \<longleftrightarrow> n < 8 \<and> bit v n"
  using bit_placed_byte [OF assms(1,2), of 0 off n] assms(3) by simp

lemma ReadU16_LE_eq:
  fixes v :: u16
  assumes s: "slice b off 2 = le_bytes 2 v" and len: "off + 2 \<le> length b"
  shows "ReadU16_LE b off = Some v"
proof -
  note bits = bit_placed_byte [OF s len] bit_placed_byte_0 [OF s len]
  have "bit (push_bit 8 (ucast (b ! (off + 1))) OR ucast (b ! off) :: u16) n = bit v n" if "n < 16" for n
    using that by (cases "bit v n") (auto simp: bit_or_iff bits)
  then have "push_bit 8 (ucast (b ! (off + 1))) OR ucast (b ! off) = v"
    by (intro bit_word_eqI) simp
  then show ?thesis using len by (simp add: ReadU16_LE_def rd8_in)
qed

lemma ReadU24_LE_eq:
  fixes v :: u32
  assumes s: "slice b off 3 = le_bytes 3 v" and len: "off + 3 \<le> length b" and v: "unat v < 2 ^ 24"
  shows "ReadU24_LE b off = Some v"
proof -
  note bits = bit_placed_byte [OF s len] bit_placed_byte_0 [OF s len]
  let ?r = "push_bit 16 (ucast (b ! (off + 2))) OR push_bit 8 (ucast (b ! (off + 1))) OR ucast (b ! off) :: u32"
  have "bit ?r n = bit v n" for n
    using word_bit_bound [OF v, of n] by (cases "bit v n") (auto simp: bit_or_iff bits)
  then have "?r = v" by (intro bit_word_eqI) simp
  then show ?thesis using len by (simp add: ReadU24_LE_def rd8_in)
qed

lemma ReadU32_LE_eq:
  fixes v :: u32
  assumes s: "slice b off 4 = le_bytes 4 v" and len: "off + 4 \<le> length b"
  shows "ReadU32_LE b off = Some v"
proof -
  note bits = bit_placed_byte [OF s len] bit_placed_byte_0 [OF s len]
  let ?r = "push_bit 24 (ucast (b ! (off + 3))) OR push_bit 16 (ucast (b ! (off + 2))) OR
      push_bit 8 (ucast (b ! (off + 1))) OR ucast (b ! off) :: u32"
  have "bit ?r n = bit v n" if "n < 32" for n
    using that by (cases "bit v n") (auto simp: bit_or_iff bits)
  then have "?r = v" by (intro bit_word_eqI) simp
  then show ?thesis using len by (simp add: ReadU32_LE_def rd8_in)
qed

lemma ReadU64_LE_eq:
  fixes v :: u64
  assumes s: "slice b off 8 = le_bytes 8 v" and len: "off + 8 \<le> length b"
  shows "ReadU64_LE b off = Some v"
proof -
  note bits = bit_placed_byte [OF s len] bit_placed_byte_0 [OF s len]
  let ?r = "push_bit 56 (ucast (b ! (off + 7))) OR push_bit 48 (ucast (b ! (off + 6))) OR
      push_bit 40 (ucast (b ! (off + 5))) OR push_bit 32 (ucast (b ! (off + 4))) OR
      push_bit 24 (ucast (b ! (off + 3))) OR push_bit 16 (ucast (b ! (off + 2))) OR
      push_bit 8 (ucast (b ! (off + 1))) OR ucast (b ! off) :: u64"
  have "bit ?r n = bit v n" if "n < 64" for n
    using that by (cases "bit v n") (auto simp: bit_or_iff bits)
  then have "?r = v" by (intro bit_word_eqI) simp
  then show ?thesis using len by (simp add: ReadU64_LE_def rd8_in)
qed

text \<open>The converse: a 16- or 32-bit read inside of the buffer returns the value of the bytes there.\<close>

lemma ReadU16_LE_bytes:
  assumes "off + 2 \<le> length b"
  shows "\<exists>v. ReadU16_LE b off = Some v \<and> le_bytes 2 v = slice b off 2"
proof -
  let ?v = "push_bit 8 (ucast (b ! (off + 1))) OR ucast (b ! off) :: u16"
  have "byte_at (8 * i) ?v = b ! (off + i)" if "i < 2" for i
  proof -
    from that consider "i = 0" | "i = 1" by linarith
    then show ?thesis by cases (rule bit_word_eqI; auto simp: bit_simps dest: bit_imp_le_length)+
  qed
  then have "le_bytes 2 ?v = slice b off 2"
    using assms by (intro nth_equalityI) (simp_all add: nth_slice)
  then show ?thesis using assms by (intro exI [of _ ?v]) (simp add: ReadU16_LE_def rd8_in)
qed

lemma ReadU32_LE_bytes:
  assumes "off + 4 \<le> length b"
  shows "\<exists>v. ReadU32_LE b off = Some v \<and> le_bytes 4 v = slice b off 4"
proof -
  let ?v = "push_bit 24 (ucast (b ! (off + 3))) OR push_bit 16 (ucast (b ! (off + 2))) OR
      push_bit 8 (ucast (b ! (off + 1))) OR ucast (b ! off) :: u32"
  have "byte_at (8 * i) ?v = b ! (off + i)" if "i < 4" for i
  proof -
    from that consider "i = 0" | "i = 1" | "i = 2" | "i = 3" by linarith
    then show ?thesis
      by cases (rule bit_word_eqI; auto simp: bit_simps dest: bit_imp_le_length)+
  qed
  then have "le_bytes 4 ?v = slice b off 4"
    using assms by (intro nth_equalityI) (simp_all add: nth_slice)
  then show ?thesis using assms by (intro exI [of _ ?v]) (simp add: ReadU32_LE_def rd8_in)
qed

lemma ReadU64_LE_bytes:
  assumes "off + 8 \<le> length b"
  shows "\<exists>v. ReadU64_LE b off = Some v \<and> le_bytes 8 v = slice b off 8"
proof -
  let ?v = "push_bit 56 (ucast (b ! (off + 7))) OR push_bit 48 (ucast (b ! (off + 6))) OR
      push_bit 40 (ucast (b ! (off + 5))) OR push_bit 32 (ucast (b ! (off + 4))) OR
      push_bit 24 (ucast (b ! (off + 3))) OR push_bit 16 (ucast (b ! (off + 2))) OR
      push_bit 8 (ucast (b ! (off + 1))) OR ucast (b ! off) :: u64"
  have "byte_at (8 * i) ?v = b ! (off + i)" if "i < 8" for i
  proof -
    have high: "\<not> bit x n" if "8 \<le> n" for x :: u8 and n using that bit_imp_le_length [of x n] by auto
    from that consider "i = 0" | "i = 1" | "i = 2" | "i = 3" | "i = 4" | "i = 5" | "i = 6" | "i = 7"
      by linarith
    then show ?thesis
      by cases (rule bit_word_eqI; simp add: bit_simps high)+
  qed
  then have "le_bytes 8 ?v = slice b off 8"
    using assms by (intro nth_equalityI) (simp_all add: nth_slice)
  then show ?thesis using assms by (intro exI [of _ ?v]) (simp add: ReadU64_LE_def rd8_in)
qed

section \<open>Byte streams\<close>

text \<open>\<open>WriteByteStream\<close> and \<open>ReadByteStream\<close>.  \<open>Data\<close> is the memory from the wrapped pointer on.
  The debug assertions are not compiled into a release build, so a write is only stopped by the
  end of the memory (\<open>None\<close>).\<close>

record WriteByteStream =
  Data :: bytes
  BufferBytes :: nat
  WrittenBytes :: nat

definition WriteByteStream_init :: "bytes \<Rightarrow> u64 \<Rightarrow> WriteByteStream" where
  "WriteByteStream_init data n =
     \<lparr>Data = data, BufferBytes = unat (ucast n :: u32), WrittenBytes = 0\<rparr>"

definition write_Remaining :: "WriteByteStream \<Rightarrow> nat" where
  "write_Remaining s = BufferBytes s - WrittenBytes s"

definition Write8 :: "u8 \<Rightarrow> WriteByteStream \<Rightarrow> WriteByteStream option" where
  "Write8 v s = do { d \<leftarrow> wr8 (Data s) (WrittenBytes s) v;
     Some (s\<lparr>Data := d, WrittenBytes := WrittenBytes s + 1\<rparr>) }"

definition Write16 :: "u16 \<Rightarrow> WriteByteStream \<Rightarrow> WriteByteStream option" where
  "Write16 v s = do { d \<leftarrow> WriteU16_LE (Data s) (WrittenBytes s) v;
     Some (s\<lparr>Data := d, WrittenBytes := WrittenBytes s + 2\<rparr>) }"

definition Write24 :: "u32 \<Rightarrow> WriteByteStream \<Rightarrow> WriteByteStream option" where
  "Write24 v s = do { d \<leftarrow> WriteU24_LE (Data s) (WrittenBytes s) v;
     Some (s\<lparr>Data := d, WrittenBytes := WrittenBytes s + 3\<rparr>) }"

definition Write32 :: "u32 \<Rightarrow> WriteByteStream \<Rightarrow> WriteByteStream option" where
  "Write32 v s = do { d \<leftarrow> WriteU32_LE (Data s) (WrittenBytes s) v;
     Some (s\<lparr>Data := d, WrittenBytes := WrittenBytes s + 4\<rparr>) }"

definition Write64 :: "u64 \<Rightarrow> WriteByteStream \<Rightarrow> WriteByteStream option" where
  "Write64 v s = do { d \<leftarrow> WriteU64_LE (Data s) (WrittenBytes s) v;
     Some (s\<lparr>Data := d, WrittenBytes := WrittenBytes s + 8\<rparr>) }"

definition WriteBuffer :: "bytes \<Rightarrow> WriteByteStream \<Rightarrow> WriteByteStream option" where
  "WriteBuffer source s =
     (if WrittenBytes s + length source \<le> length (Data s)
      then Some (s\<lparr>Data := overwrite (Data s) (WrittenBytes s) source,
                  WrittenBytes := WrittenBytes s + length source\<rparr>)
      else None)"

record ReadByteStream =
  RData :: bytes
  RBufferBytes :: nat
  BytesRead :: nat

definition ReadByteStream_init :: "bytes \<Rightarrow> u64 \<Rightarrow> ReadByteStream" where
  "ReadByteStream_init data n =
     \<lparr>RData = data, RBufferBytes = unat (ucast n :: u32), BytesRead = 0\<rparr>"

definition read_Remaining :: "ReadByteStream \<Rightarrow> nat" where
  "read_Remaining s = RBufferBytes s - BytesRead s"

definition read_Skip :: "nat \<Rightarrow> ReadByteStream \<Rightarrow> ReadByteStream" where
  "read_Skip n s = s\<lparr>BytesRead := BytesRead s + n\<rparr>"

definition Read :: "nat \<Rightarrow> ReadByteStream \<Rightarrow> nat \<times> ReadByteStream" where
  "Read n s = (BytesRead s, read_Skip n s)"

definition Read8 :: "ReadByteStream \<Rightarrow> (u8 \<times> ReadByteStream) option" where
  "Read8 s = do { v \<leftarrow> rd8 (RData s) (BytesRead s); Some (v, read_Skip 1 s) }"

definition Read16 :: "ReadByteStream \<Rightarrow> (u16 \<times> ReadByteStream) option" where
  "Read16 s = do { v \<leftarrow> ReadU16_LE (RData s) (BytesRead s); Some (v, read_Skip 2 s) }"

definition Read24 :: "ReadByteStream \<Rightarrow> (u32 \<times> ReadByteStream) option" where
  "Read24 s = do { v \<leftarrow> ReadU24_LE (RData s) (BytesRead s); Some (v, read_Skip 3 s) }"

definition Read32 :: "ReadByteStream \<Rightarrow> (u32 \<times> ReadByteStream) option" where
  "Read32 s = do { v \<leftarrow> ReadU32_LE (RData s) (BytesRead s); Some (v, read_Skip 4 s) }"

definition Read64 :: "ReadByteStream \<Rightarrow> (u64 \<times> ReadByteStream) option" where
  "Read64 s = do { v \<leftarrow> ReadU64_LE (RData s) (BytesRead s); Some (v, read_Skip 8 s) }"

text \<open>What a sequence of stream calls puts on the wire: a value per call.\<close>

datatype stream_field = F8 u8 | F16 u16 | F24 u32 | F32 u32 | F64 u64

fun field_wire :: "stream_field \<Rightarrow> bytes" where
  "field_wire (F8 v) = [v]"
| "field_wire (F16 v) = le_bytes 2 v"
| "field_wire (F24 v) = le_bytes 3 v"
| "field_wire (F32 v) = le_bytes 4 v"
| "field_wire (F64 v) = le_bytes 8 v"

fun field_ok :: "stream_field \<Rightarrow> bool" where
  "field_ok (F24 v) = (v < 0x1000000)"
| "field_ok _ = True"

fun write_field :: "stream_field \<Rightarrow> WriteByteStream \<Rightarrow> WriteByteStream option" where
  "write_field (F8 v) s = Write8 v s"
| "write_field (F16 v) s = Write16 v s"
| "write_field (F24 v) s = Write24 v s"
| "write_field (F32 v) s = Write32 v s"
| "write_field (F64 v) s = Write64 v s"

fun read_field :: "stream_field \<Rightarrow> ReadByteStream \<Rightarrow> (stream_field \<times> ReadByteStream) option" where
  "read_field (F8 _) s = do { (v, s) \<leftarrow> Read8 s; Some (F8 v, s) }"
| "read_field (F16 _) s = do { (v, s) \<leftarrow> Read16 s; Some (F16 v, s) }"
| "read_field (F24 _) s = do { (v, s) \<leftarrow> Read24 s; Some (F24 v, s) }"
| "read_field (F32 _) s = do { (v, s) \<leftarrow> Read32 s; Some (F32 v, s) }"
| "read_field (F64 _) s = do { (v, s) \<leftarrow> Read64 s; Some (F64 v, s) }"

fun write_fields :: "stream_field list \<Rightarrow> WriteByteStream \<Rightarrow> WriteByteStream option" where
  "write_fields [] s = Some s"
| "write_fields (f # fs) s = do { s \<leftarrow> write_field f s; write_fields fs s }"

fun read_fields :: "stream_field list \<Rightarrow> ReadByteStream \<Rightarrow> (stream_field list \<times> ReadByteStream) option" where
  "read_fields [] s = Some ([], s)"
| "read_fields (f # fs) s = do { (v, s) \<leftarrow> read_field f s; (vs, s) \<leftarrow> read_fields fs s; Some (v # vs, s) }"

lemma slice_single: "off < length b \<Longrightarrow> slice b off (Suc 0) = [b ! off]"
  by (simp add: slice_def take_Suc hd_drop_conv_nth)

lemma write_field_eq:
  assumes "WrittenBytes s + length (field_wire f) \<le> length (Data s)"
  shows "write_field f s = Some (s\<lparr>Data := overwrite (Data s) (WrittenBytes s) (field_wire f),
           WrittenBytes := WrittenBytes s + length (field_wire f)\<rparr>)"
  using assms by (cases f)
    (auto simp: Write8_def Write16_def Write24_def Write32_def Write64_def mem_simps)

lemma read_field_eq:
  assumes len: "BytesRead s + length (field_wire f) \<le> length (RData s)" and ok: "field_ok f"
    and s: "slice (RData s) (BytesRead s) (length (field_wire f)) = field_wire f"
  shows "read_field f s = Some (f, read_Skip (length (field_wire f)) s)"
proof (cases f)
  case (F8 v)
  with len s show ?thesis by (simp add: Read8_def rd8_in slice_single)
next
  case (F16 v)
  with len s show ?thesis by (simp add: Read16_def ReadU16_LE_eq)
next
  case (F24 v)
  with ok have "unat v < 2 ^ 24" by (simp add: word_less_nat_alt)
  with F24 len s show ?thesis by (simp add: Read24_def ReadU24_LE_eq)
next
  case (F32 v)
  with len s show ?thesis by (simp add: Read32_def ReadU32_LE_eq)
next
  case (F64 v)
  with len s show ?thesis by (simp add: Read64_def ReadU64_LE_eq)
qed

lemma write_fields_eq:
  assumes "WrittenBytes s + length (concat (map field_wire fs)) \<le> length (Data s)"
  shows "write_fields fs s = Some (s\<lparr>
      Data := overwrite (Data s) (WrittenBytes s) (concat (map field_wire fs)),
      WrittenBytes := WrittenBytes s + length (concat (map field_wire fs))\<rparr>)"
  using assms
proof (induction fs arbitrary: s)
  case (Cons f fs)
  then show ?case by (simp add: write_field_eq overwrite_append add.assoc)
qed simp

lemma slice_prefix:
  assumes "slice b off (n + m) = xs @ ys" "length xs = n" "off + (n + m) \<le> length b"
  shows "slice b off n = xs" "slice b (off + n) m = ys"
proof -
  have "slice b off (n + m) = slice b off n @ slice b (off + n) m"
    by (simp add: slice_def take_add add.commute [of off])
  then show "slice b off n = xs" "slice b (off + n) m = ys"
    using assms by simp_all
qed

lemma read_fields_eq:
  assumes "BytesRead s + length (concat (map field_wire fs)) \<le> length (RData s)"
    and "slice (RData s) (BytesRead s) (length (concat (map field_wire fs))) = concat (map field_wire fs)"
    and "list_all field_ok fs"
  shows "read_fields fs s = Some (fs, read_Skip (length (concat (map field_wire fs))) s)"
  using assms
proof (induction fs arbitrary: s)
  case Nil
  then show ?case by (simp add: read_Skip_def)
next
  case (Cons f fs)
  note split = slice_prefix [of "RData s" "BytesRead s" "length (field_wire f)"
      "length (concat (map field_wire fs))" "field_wire f" "concat (map field_wire fs)"]
  have "read_field f s = Some (f, read_Skip (length (field_wire f)) s)"
    using Cons.prems split by (intro read_field_eq) simp_all
  moreover have "read_fields fs (read_Skip (length (field_wire f)) s)
      = Some (fs, read_Skip (length (concat (map field_wire fs))) (read_Skip (length (field_wire f)) s))"
    using Cons.prems split by (intro Cons.IH) (simp_all add: read_Skip_def)
  ultimately show ?case by (simp add: read_Skip_def add.assoc)
qed

text \<open>Property C31: any sequence of values written through a \<open>WriteByteStream\<close> into a buffer with enough
  room is read back unchanged by the same sequence of \<open>ReadByteStream\<close> calls; the writer advances by
  the encoded size, and no byte outside of the written range changes.\<close>

theorem byte_stream_roundtrip:
  assumes "list_all field_ok fs"
    and "length (concat (map field_wire fs)) \<le> length buf"
  shows "\<exists>s'. write_fields fs (WriteByteStream_init buf n) = Some s'
    \<and> WrittenBytes s' = length (concat (map field_wire fs))
    \<and> length (Data s') = length buf
    \<and> drop (WrittenBytes s') (Data s') = drop (WrittenBytes s') buf
    \<and> (\<exists>r. read_fields fs (ReadByteStream_init (Data s') m) = Some (fs, r)
          \<and> BytesRead r = WrittenBytes s')"
proof -
  let ?w = "concat (map field_wire fs)"
  have "write_fields fs (WriteByteStream_init buf n)
      = Some \<lparr>Data = overwrite buf 0 ?w, BufferBytes = unat (ucast n :: u32), WrittenBytes = length ?w\<rparr>"
    using assms(2) write_fields_eq [of "WriteByteStream_init buf n" fs]
    by (simp add: WriteByteStream_init_def)
  moreover have "read_fields fs (ReadByteStream_init (overwrite buf 0 ?w) m)
      = Some (fs, read_Skip (length ?w) (ReadByteStream_init (overwrite buf 0 ?w) m))"
    using assms slice_overwrite [of 0 ?w buf]
    by (intro read_fields_eq) (simp_all add: ReadByteStream_init_def)
  moreover have "drop (length ?w) (overwrite buf 0 ?w) = drop (length ?w) buf"
    by (simp add: overwrite_def)
  ultimately show ?thesis
    using assms(2) by (simp add: read_Skip_def ReadByteStream_init_def)
qed

theorem byte_stream_roundtrip_witness:
  "\<exists>s'. write_fields [F8 0xfe, F24 0x123456, F64 0xdeadbeefcafef00d, F16 0xabcd]
        (WriteByteStream_init (replicate 15 0) 15) = Some s'
    \<and> WrittenBytes s' = 14 \<and> length (Data s') = 15
    \<and> drop (WrittenBytes s') (Data s') = drop (WrittenBytes s') (replicate 15 0)
    \<and> (\<exists>r. read_fields [F8 0xfe, F24 0x123456, F64 0xdeadbeefcafef00d, F16 0xabcd]
          (ReadByteStream_init (Data s') 15)
        = Some ([F8 0xfe, F24 0x123456, F64 0xdeadbeefcafef00d, F16 0xabcd], r)
        \<and> BytesRead r = WrittenBytes s')"
  using byte_stream_roundtrip [of "[F8 0xfe, F24 0x123456, F64 0xdeadbeefcafef00d, F16 0xabcd]"
      "replicate 15 0" 15 15] by simp

end
