(* ===== verification/Field_Codecs.thy ===== *)
theory Field_Codecs
  imports Serializers
begin

text \<open>
  The variable-length fields of \<open>SiameseSerializers.h\<close>: packet numbers, packet counts, packet
  lengths, recovery metadata and NACK loss ranges.

  A serializer takes the value, the buffer and the offset of the C++ pointer and returns the new
  buffer with the number of bytes written.  A deserializer takes the buffer, the offset and the
  number of bytes it may look at.  A field at the front of a range is a header, one at its end is a
  footer.  The \<open>*_wire\<close> functions are the specification: the bytes the field occupies on the wire.

  The locales \<open>header_codec\<close> and \<open>footer_codec\<close> state what the rest of the system relies on: a
  serializer stores exactly the wire bytes of the value, and the deserializer finds the value in
  front of (behind) anything else.  The round trip, the unique readability of concatenated fields
  and the decoding of a run of fields follow inside of the locales; each field format is an
  interpretation.
\<close>

section \<open>Field interfaces\<close>

fun enc_all :: "('v \<Rightarrow> bytes \<Rightarrow> nat \<Rightarrow> (bytes \<times> nat) option) \<Rightarrow> 'v list \<Rightarrow> bytes \<Rightarrow> nat \<Rightarrow> (bytes \<times> nat) option" where
  "enc_all enc [] b off = Some (b, 0)"
| "enc_all enc (v # vs) b off = do {
     (b, n) \<leftarrow> enc v b off;
     (b, k) \<leftarrow> enc_all enc vs b (off + n);
     Some (b, n + k) }"

fun dec_all :: "(bytes \<Rightarrow> nat \<Rightarrow> nat \<Rightarrow> 'v parse option) \<Rightarrow> nat \<Rightarrow> bytes \<Rightarrow> nat \<Rightarrow> nat \<Rightarrow> 'v list parse option" where
  "dec_all dec 0 b off space = Some (Parsed 0 [])"
| "dec_all dec (Suc k) b off space = (case dec b off space of
      None \<Rightarrow> None
    | Some ParseError \<Rightarrow> Some ParseError
    | Some (Parsed n v) \<Rightarrow> (case dec_all dec k b (off + n) (space - n) of
          None \<Rightarrow> None
        | Some ParseError \<Rightarrow> Some ParseError
        | Some (Parsed m vs) \<Rightarrow> Some (Parsed (n + m) (v # vs))))"

locale field_writer =
  fixes enc :: "'v \<Rightarrow> bytes \<Rightarrow> nat \<Rightarrow> (bytes \<times> nat) option"
    and wire :: "'v \<Rightarrow> bytes"
    and valid :: "'v \<Rightarrow> bool"
  assumes wire_nonempty: "valid v \<Longrightarrow> wire v \<noteq> []"
    and enc_wire: "valid v \<Longrightarrow> off + length (wire v) \<le> length b
      \<Longrightarrow> enc v b off = Some (overwrite b off (wire v), length (wire v))"
begin

lemma enc_all_wire:
  assumes "list_all valid vs" and "off + length (concat (map wire vs)) \<le> length b"
  shows "enc_all enc vs b off
    = Some (overwrite b off (concat (map wire vs)), length (concat (map wire vs)))"
  using assms
proof (induction vs arbitrary: b off)
  case (Cons v vs)
  then show ?case by (simp add: enc_wire overwrite_append add.assoc)
qed simp

end

locale header_codec = field_writer enc wire valid
  for enc :: "'v \<Rightarrow> bytes \<Rightarrow> nat \<Rightarrow> (bytes \<times> nat) option" and wire and valid +
  fixes dec :: "bytes \<Rightarrow> nat \<Rightarrow> nat \<Rightarrow> 'v parse option"
    and min_space :: nat
  assumes dec_wire: "valid v \<Longrightarrow> length (wire v) \<le> space \<Longrightarrow> min_space \<le> space
      \<Longrightarrow> space \<le> length (wire v @ post)
      \<Longrightarrow> dec (pre @ wire v @ post) (length pre) space = Some (Parsed (length (wire v)) v)"
begin

lemma roundtrip:
  assumes "valid v" and "off + length (wire v) \<le> length b" and "off + min_space \<le> length b"
  shows "\<exists>b' n. enc v b off = Some (b', n) \<and> n = length (wire v) \<and> length b' = length b
    \<and> take off b' = take off b \<and> drop (off + n) b' = drop (off + n) b
    \<and> dec b' off (length b' - off) = Some (Parsed n v)"
  using assms dec_wire [of v "length b - off" "drop (off + length (wire v)) b" "take off b"]
  by (simp add: enc_wire overwrite_def)

lemma uniquely_readable:
  assumes "valid v" and "valid w" and "wire v @ xs = wire w @ ys"
    and "min_space \<le> length (wire v @ xs)"
  shows "v = w \<and> xs = ys"
proof -
  have "dec (wire v @ xs) 0 (length (wire v @ xs)) = Some (Parsed (length (wire v)) v)"
    using dec_wire [of v "length (wire v @ xs)" xs "[]"] assms(1,4) by simp
  moreover have "dec (wire w @ ys) 0 (length (wire w @ ys)) = Some (Parsed (length (wire w)) w)"
    using dec_wire [of w "length (wire w @ ys)" ys "[]"] assms by simp
  ultimately show ?thesis using assms(3) by simp
qed

lemma dec_all_wire:
  assumes "list_all valid vs" and "min_space \<le> length post"
  shows "dec_all dec (length vs) (pre @ concat (map wire vs) @ post) (length pre)
      (length (concat (map wire vs) @ post))
    = Some (Parsed (length (concat (map wire vs))) vs)"
  using assms
proof (induction vs arbitrary: pre)
  case (Cons v vs)
  let ?r = "concat (map wire vs)"
  have "dec (pre @ wire v @ ?r @ post) (length pre) (length (wire v @ ?r @ post))
      = Some (Parsed (length (wire v)) v)"
    using Cons.prems by (intro dec_wire) simp_all
  moreover have "dec_all dec (length vs) ((pre @ wire v) @ ?r @ post) (length (pre @ wire v))
      (length (?r @ post)) = Some (Parsed (length ?r) vs)"
    using Cons.prems by (intro Cons.IH) simp_all
  ultimately show ?case by (simp add: add.assoc)
qed simp

text \<open>A run of fields written back to back into a buffer is decoded by a run of reads.\<close>

lemma run_roundtrip:
  assumes "list_all valid vs"
    and "off + length (concat (map wire vs)) + min_space \<le> length b"
  shows "\<exists>b' n. enc_all enc vs b off = Some (b', n)
    \<and> dec_all dec (length vs) b' off (length b' - off) = Some (Parsed n vs)"
proof -
  let ?w = "concat (map wire vs)"
  have "enc_all enc vs b off = Some (overwrite b off ?w, length ?w)"
    using assms by (intro enc_all_wire) auto
  moreover have "dec_all dec (length vs) (overwrite b off ?w) off (length (overwrite b off ?w) - off)
      = Some (Parsed (length ?w) vs)"
    using dec_all_wire [OF assms(1), of "drop (off + length ?w) b" "take off b"] assms(2)
    by (simp add: overwrite_def)
  ultimately show ?thesis by blast
qed

end

locale footer_codec = field_writer enc wire valid
  for enc :: "'v \<Rightarrow> bytes \<Rightarrow> nat \<Rightarrow> (bytes \<times> nat) option" and wire and valid +
  fixes dec :: "bytes \<Rightarrow> nat \<Rightarrow> nat \<Rightarrow> 'v parse option"
  assumes dec_wire: "valid v \<Longrightarrow> dec (pre @ mid @ wire v @ post) (length pre) (length mid + length (wire v))
      = Some (Parsed (length (wire v)) v)"
begin

lemma roundtrip:
  assumes "valid v" and "start \<le> off" and "off + length (wire v) \<le> length b"
  shows "\<exists>b' n. enc v b off = Some (b', n) \<and> n = length (wire v) \<and> length b' = length b
    \<and> take off b' = take off b \<and> drop (off + n) b' = drop (off + n) b
    \<and> dec b' start (off + n - start) = Some (Parsed n v)"
proof -
  have eq: "overwrite b off (wire v)
      = take start b @ drop start (take off b) @ wire v @ drop (off + length (wire v)) b"
    using assms(2) append_take_drop_id [of start "take off b"]
    by (simp add: overwrite_def min_absorb1 flip: append_assoc)
  have "dec (overwrite b off (wire v)) start (off + length (wire v) - start)
      = Some (Parsed (length (wire v)) v)"
    using assms dec_wire [of v "take start b" "drop start (take off b)" "drop (off + length (wire v)) b"]
    by (subst eq) simp
  moreover have "take off (overwrite b off (wire v)) = take off b"
    "drop (off + length (wire v)) (overwrite b off (wire v)) = drop (off + length (wire v)) b"
    using assms by (simp_all add: overwrite_def)
  ultimately show ?thesis using assms by (simp add: enc_wire)
qed

lemma uniquely_readable:
  assumes "valid v" and "valid w" and "xs @ wire v = ys @ wire w"
  shows "v = w \<and> xs = ys"
proof -
  have "dec (xs @ wire v) 0 (length (xs @ wire v)) = Some (Parsed (length (wire v)) v)"
    using dec_wire [of v "[]" xs "[]"] assms(1) by simp
  moreover have "dec (ys @ wire w) 0 (length (ys @ wire w)) = Some (Parsed (length (wire w)) w)"
    using dec_wire [of w "[]" ys "[]"] assms(2) by simp
  ultimately show ?thesis using assms(3) by simp
qed

end

section \<open>Tags and values of the variable-length formats\<close>

lemma u32_le_bit_bound:
  fixes v :: u32
  assumes "bit v n"
  shows "v \<le> 0x7f \<Longrightarrow> n < 7" "v \<le> 0x3fff \<Longrightarrow> n < 14" "v \<le> 0x7fff \<Longrightarrow> n < 15"
    "v \<le> 0x1fffff \<Longrightarrow> n < 21" "v \<le> 0x3fffff \<Longrightarrow> n < 22" "v \<le> 0x1fffffff \<Longrightarrow> n < 29"
  using assms by (auto elim!: bit_word_bound)

lemma vl_value:
  fixes v :: u32
  shows "v \<le> 0x7f \<Longrightarrow> ucast (ucast v :: u8) = v"
    "v \<le> 0x3fff \<Longrightarrow> (push_bit 8 (ucast (ucast (0x80 OR drop_bit 8 v) :: u8)) OR ucast (ucast v :: u8)) AND 0x3fff = v"
    "v \<le> 0x7fff \<Longrightarrow> (push_bit 8 (ucast (ucast (0x80 OR drop_bit 8 v) :: u8)) OR ucast (ucast v :: u8)) AND 0x7fff = v"
  by (rule bit_word_eqI; auto simp: bit_simps bit_consts dest: u32_le_bit_bound; fail)+


lemma vl_value3:
  fixes v :: u32
  shows "v \<le> 0x3fffff \<Longrightarrow> (push_bit 16 (ucast (ucast (0xC0 OR drop_bit 16 v) :: u8))
      OR push_bit 8 (ucast (byte_at 8 v)) OR ucast (ucast v :: u8)) AND 0x3fffff = v"
    "v \<le> 0x1fffff \<Longrightarrow> (push_bit 16 (ucast (ucast (0xC0 OR drop_bit 16 v) :: u8))
      OR push_bit 8 (ucast (byte_at 8 v)) OR ucast (ucast v :: u8)) AND 0x1fffff = v"
  by (rule bit_word_eqI; auto simp: bit_simps bit_consts dest: u32_le_bit_bound; fail)+

lemma vl_value4:
  fixes v :: u32
  assumes "v \<le> 0x1fffffff"
  shows "(push_bit 24 (ucast (ucast (0xE0 OR drop_bit 24 v) :: u8)) OR push_bit 16 (ucast (byte_at 16 v))
      OR push_bit 8 (ucast (byte_at 8 v)) OR ucast (ucast v :: u8)) AND 0x1fffffff = v"
proof (rule bit_word_eqI)
  fix n :: nat
  show "bit ((push_bit 24 (ucast (ucast (0xE0 OR drop_bit 24 v) :: u8)) OR push_bit 16 (ucast (byte_at 16 v))
      OR push_bit 8 (ucast (byte_at 8 v)) OR ucast (ucast v :: u8)) AND 0x1fffffff :: u32) n = bit v n"
  proof (cases "bit v n")
    case True
    then have "n < 29" using assms by (rule u32_le_bit_bound)
    with True show ?thesis by (cases "n < 8"; cases "n < 16"; cases "n < 24") (auto simp: bit_simps bit_consts)
  next
    case False
    then show ?thesis by (auto simp: bit_simps bit_consts)
  qed
qed

lemma vl_tag:
  fixes v :: u32
  shows "v \<le> 0x7f \<Longrightarrow> drop_bit 6 (ucast v :: u8) \<le> 1"
    "v \<le> 0x3fff \<Longrightarrow> drop_bit 6 (ucast (0x80 OR drop_bit 8 v) :: u8) = 2"
    "v \<le> 0x3fffff \<Longrightarrow> drop_bit 6 (ucast (0xC0 OR drop_bit 16 v) :: u8) = 3"
    "v \<le> 0x1fffffff \<Longrightarrow> drop_bit 6 (ucast (0xE0 OR drop_bit 24 v) :: u8) = 3"
    "v \<le> 0x1fffff \<Longrightarrow> (ucast (0xC0 OR drop_bit 16 v) :: u8) AND 0xE0 = 0xC0"
    "(ucast (0xE0 OR drop_bit 24 v) :: u8) AND 0xE0 \<noteq> 0xC0"
    "v \<le> 0x7f \<Longrightarrow> (ucast v :: u8) AND 0x80 = 0"
    "(ucast (0x80 OR drop_bit 8 v) :: u8) AND 0x80 \<noteq> 0"
proof -
  have c: "bit (2::int) n \<longleftrightarrow> n = 1" for n using bit_int_shifted_mask_iff [of 2 1 1 n] by auto
  have s: "n < 8" if "bit (x::u8) n" for x n using bit_imp_le_length [OF that] by simp
  show "v \<le> 0x7f \<Longrightarrow> drop_bit 6 (ucast v :: u8) \<le> 1"
  proof -
    assume v: "v \<le> 0x7f"
    have "unat (ucast v div 64 :: u8) = unat v mod 2 ^ 8 div 64"
      by (simp add: unat_div unat_ucast_mod)
    also have "\<dots> \<le> 1" using v by (simp add: word_le_nat_alt)
    finally show ?thesis by (simp add: word_le_nat_alt drop_bit_eq_div)
  qed
  show "v \<le> 0x3fff \<Longrightarrow> drop_bit 6 (ucast (0x80 OR drop_bit 8 v) :: u8) = 2"
    by (rule bit_word_eqI) (auto simp: bit_simps bit_consts c dest: u32_le_bit_bound s)
  show "v \<le> 0x3fffff \<Longrightarrow> drop_bit 6 (ucast (0xC0 OR drop_bit 16 v) :: u8) = 3"
    by (rule bit_word_eqI) (auto simp: bit_simps bit_consts c dest: u32_le_bit_bound s)
  show "v \<le> 0x1fffffff \<Longrightarrow> drop_bit 6 (ucast (0xE0 OR drop_bit 24 v) :: u8) = 3"
    by (rule bit_word_eqI) (auto simp: bit_simps bit_consts c dest: u32_le_bit_bound s)
  show "v \<le> 0x1fffff \<Longrightarrow> (ucast (0xC0 OR drop_bit 16 v) :: u8) AND 0xE0 = 0xC0"
    by (rule bit_word_eqI) (auto simp: bit_simps bit_consts c dest: u32_le_bit_bound s)
  show "v \<le> 0x7f \<Longrightarrow> (ucast v :: u8) AND 0x80 = 0"
    by (rule bit_word_eqI) (auto simp: bit_simps bit_consts c dest: u32_le_bit_bound s)
  have "bit ((ucast (0xE0 OR drop_bit 24 v) :: u8) AND 0xE0) 5 \<noteq> bit (0xC0 :: u8) 5"
    by (simp add: bit_simps bit_consts)
  then show "(ucast (0xE0 OR drop_bit 24 v) :: u8) AND 0xE0 \<noteq> 0xC0" by metis
  have "bit ((ucast (0x80 OR drop_bit 8 v) :: u8) AND 0x80) 7 \<noteq> bit (0 :: u8) 7"
    by (simp add: bit_simps bit_consts)
  then show "(ucast (0x80 OR drop_bit 8 v) :: u8) AND 0x80 \<noteq> 0" by metis
qed


section \<open>Packet number\<close>

definition SerializeHeader_PacketNum :: "u32 \<Rightarrow> bytes \<Rightarrow> nat \<Rightarrow> (bytes \<times> nat) option" where
  "SerializeHeader_PacketNum packetNum b o' =
     (if packetNum \<le> 0x7f then do {
        b \<leftarrow> wr8 b o' (ucast packetNum);
        Some (b, 1) }
      else if packetNum \<le> 0x3fff then do {
        b \<leftarrow> wr8 b o' (ucast (0x80 OR drop_bit 8 packetNum));
        b \<leftarrow> wr8 b (o' + 1) (ucast packetNum);
        Some (b, 2) }
      else do {
        b \<leftarrow> wr8 b o' (ucast (0xC0 OR drop_bit 16 packetNum));
        b \<leftarrow> wr8 b (o' + 1) (byte_at 8 packetNum);
        b \<leftarrow> wr8 b (o' + 2) (ucast packetNum);
        Some (b, 3) })"

definition DeserializeHeader_PacketNum :: "bytes \<Rightarrow> nat \<Rightarrow> nat \<Rightarrow> u32 parse option" where
  "DeserializeHeader_PacketNum b o' space =
     (if space < 1 then Some ParseError else do {
        b0 \<leftarrow> rd8 b o';
        let byteCount = drop_bit 6 b0;
        (if byteCount \<le> 1 then Some (Parsed 1 (ucast b0))
         else if space < unat byteCount then Some ParseError
         else if byteCount = 2 then do {
           b1 \<leftarrow> rd8 b (o' + 1);
           Some (Parsed 2 ((push_bit 8 (ucast b0) OR ucast b1) AND 0x3fff)) }
         else do {
           b1 \<leftarrow> rd8 b (o' + 1); b2 \<leftarrow> rd8 b (o' + 2);
           Some (Parsed (unat byteCount)
             ((push_bit 16 (ucast b0) OR push_bit 8 (ucast b1) OR ucast b2) AND 0x3fffff)) }) })"

definition SerializeFooter_PacketNum :: "u32 \<Rightarrow> bytes \<Rightarrow> nat \<Rightarrow> (bytes \<times> nat) option" where
  "SerializeFooter_PacketNum packetNum b o' =
     (if packetNum \<le> 0x7f then do {
        b \<leftarrow> wr8 b o' (ucast packetNum);
        Some (b, 1) }
      else if packetNum \<le> 0x3fff then do {
        b \<leftarrow> wr8 b o' (ucast packetNum);
        b \<leftarrow> wr8 b (o' + 1) (ucast (0x80 OR drop_bit 8 packetNum));
        Some (b, 2) }
      else do {
        b \<leftarrow> wr8 b o' (ucast packetNum);
        b \<leftarrow> wr8 b (o' + 1) (byte_at 8 packetNum);
        b \<leftarrow> wr8 b (o' + 2) (ucast (0xC0 OR drop_bit 16 packetNum));
        Some (b, 3) })"

definition DeserializeFooter_PacketNum :: "bytes \<Rightarrow> nat \<Rightarrow> nat \<Rightarrow> u32 parse option" where
  "DeserializeFooter_PacketNum b o' space =
     (if space < 1 then Some ParseError else do {
        let e = o' + space - 1;
        b0 \<leftarrow> rd8 b e;
        let byteCount = drop_bit 6 b0;
        (if byteCount \<le> 1 then Some (Parsed 1 (ucast b0))
         else if space < unat byteCount then Some ParseError
         else if byteCount = 2 then do {
           b1 \<leftarrow> rd8 b (e - 1);
           Some (Parsed 2 ((push_bit 8 (ucast b0) OR ucast b1) AND 0x3fff)) }
         else do {
           b1 \<leftarrow> rd8 b (e - 1); b2 \<leftarrow> rd8 b (e - 2);
           Some (Parsed (unat byteCount)
             ((push_bit 16 (ucast b0) OR push_bit 8 (ucast b1) OR ucast b2) AND 0x3fffff)) }) })"

text \<open>The variant without a length check; its argument is the end of the buffer.\<close>

definition DeserializeFooter_PacketNum_Unsafe :: "bytes \<Rightarrow> nat \<Rightarrow> (u32 \<times> nat) option" where
  "DeserializeFooter_PacketNum_Unsafe b e = do {
     b0 \<leftarrow> rd8 b (e - 1);
     let byteCount = drop_bit 6 b0;
     (if byteCount \<le> 1 then Some (ucast b0, 1)
      else if byteCount = 2 then do {
        b1 \<leftarrow> rd8 b (e - 2);
        Some ((push_bit 8 (ucast b0) OR ucast b1) AND 0x3fff, unat byteCount) }
      else do {
        b1 \<leftarrow> rd8 b (e - 2); b2 \<leftarrow> rd8 b (e - 3);
        Some ((push_bit 16 (ucast b0) OR push_bit 8 (ucast b1) OR ucast b2) AND 0x3fffff,
              unat byteCount) }) }"

definition packet_num_wire :: "u32 \<Rightarrow> bytes" where
  "packet_num_wire v =
     (if v \<le> 0x7f then [ucast v]
      else if v \<le> 0x3fff then [ucast (0x80 OR drop_bit 8 v), ucast v]
      else [ucast (0xC0 OR drop_bit 16 v), byte_at 8 v, ucast v])"

definition packet_num_ok :: "u32 \<Rightarrow> bool" where
  "packet_num_ok v \<longleftrightarrow> v \<le> 0x3fffff"

lemma not_le_1 [simp]: "\<not> (2 :: u8) \<le> 1" "\<not> (3 :: u8) \<le> 1"
  by (simp_all add: word_le_nat_alt)

interpretation packet_num_header: header_codec
  SerializeHeader_PacketNum packet_num_wire packet_num_ok DeserializeHeader_PacketNum 1
proof unfold_locales
  fix v :: u32 and pre post :: bytes and b :: bytes and off space :: nat
  assume v: "packet_num_ok v"
  show "packet_num_wire v \<noteq> []" by (simp add: packet_num_wire_def)
  show "SerializeHeader_PacketNum v b off
      = Some (overwrite b off (packet_num_wire v), length (packet_num_wire v))"
    if "off + length (packet_num_wire v) \<le> length b"
    using that by (auto simp: SerializeHeader_PacketNum_def packet_num_wire_def mem_simps)
  show "DeserializeHeader_PacketNum (pre @ packet_num_wire v @ post) (length pre) space
      = Some (Parsed (length (packet_num_wire v)) v)"
    if "length (packet_num_wire v) \<le> space"
    using that v
    by (auto simp: DeserializeHeader_PacketNum_def packet_num_wire_def packet_num_ok_def Let_def
        rd8_def nth_append vl_value vl_value3 vl_tag split: if_splits)
qed


lemma rev_packet_num_wire:
  "rev (packet_num_wire v) =
     (if v \<le> 0x7f then [ucast v]
      else if v \<le> 0x3fff then [ucast v, ucast (0x80 OR drop_bit 8 v)]
      else [ucast v, byte_at 8 v, ucast (0xC0 OR drop_bit 16 v)])"
  by (simp add: packet_num_wire_def)

lemma DeserializeFooter_PacketNum_wire:
  assumes "packet_num_ok v"
  shows "DeserializeFooter_PacketNum (pre @ mid @ rev (packet_num_wire v) @ post) (length pre)
      (length mid + length (rev (packet_num_wire v)))
    = Some (Parsed (length (rev (packet_num_wire v))) v)"
  using assms unfolding rev_packet_num_wire
  by (auto simp: DeserializeFooter_PacketNum_def packet_num_ok_def Let_def
      rd8_def nth_append vl_value vl_value3 vl_tag)

interpretation packet_num_footer: footer_codec
  SerializeFooter_PacketNum "\<lambda>v. rev (packet_num_wire v)" packet_num_ok DeserializeFooter_PacketNum
proof unfold_locales
  fix v :: u32 and pre post :: bytes and b :: bytes and off space :: nat
  show "rev (packet_num_wire v) \<noteq> []" by (simp add: packet_num_wire_def)
  show "SerializeFooter_PacketNum v b off
      = Some (overwrite b off (rev (packet_num_wire v)), length (rev (packet_num_wire v)))"
    if "off + length (rev (packet_num_wire v)) \<le> length b"
    using that unfolding rev_packet_num_wire
    by (auto simp: SerializeFooter_PacketNum_def mem_simps)
qed (rule DeserializeFooter_PacketNum_wire)

text \<open>The unchecked variant agrees with the checked one whenever the field it finds is complete.\<close>

lemma DeserializeFooter_PacketNum_Unsafe_eq:
  assumes "DeserializeFooter_PacketNum b off space = Some (Parsed n v)"
  shows "DeserializeFooter_PacketNum_Unsafe b (off + space) = Some (v, n)"
proof -
  have "x - Suc (Suc 0) = x - 2" "x - Suc (Suc (Suc 0)) = x - 3" for x :: nat by simp_all
  then show ?thesis
    using assms
    by (auto simp: DeserializeFooter_PacketNum_def DeserializeFooter_PacketNum_Unsafe_def Let_def
        split: if_splits option.splits bind_splits)
qed

section \<open>Packet count\<close>

definition SerializeHeader_PacketCount :: "u32 \<Rightarrow> bytes \<Rightarrow> nat \<Rightarrow> (bytes \<times> nat) option" where
  "SerializeHeader_PacketCount count b o' =
     (if count \<le> 127 then do {
        b \<leftarrow> wr8 b o' (ucast count);
        Some (b, 1) }
      else do {
        b \<leftarrow> wr8 b o' (ucast (0x80 OR drop_bit 8 count));
        b \<leftarrow> wr8 b (o' + 1) (ucast count);
        Some (b, 2) })"

definition DeserializeHeader_PacketCount :: "bytes \<Rightarrow> nat \<Rightarrow> nat \<Rightarrow> u32 parse option" where
  "DeserializeHeader_PacketCount b o' space =
     (if space < 1 then Some ParseError else do {
        b0 \<leftarrow> rd8 b o';
        (if b0 AND 0x80 = 0 then Some (Parsed 1 (ucast b0))
         else if space < 2 then Some ParseError
         else do {
           b1 \<leftarrow> rd8 b (o' + 1);
           Some (Parsed 2 ((ucast b1 OR push_bit 8 (ucast b0)) AND 0x7fff)) }) })"

definition SerializeFooter_PacketCount :: "u32 \<Rightarrow> bytes \<Rightarrow> nat \<Rightarrow> (bytes \<times> nat) option" where
  "SerializeFooter_PacketCount count b o' =
     (if count \<le> 127 then do {
        b \<leftarrow> wr8 b o' (ucast count);
        Some (b, 1) }
      else do {
        b \<leftarrow> wr8 b o' (ucast count);
        b \<leftarrow> wr8 b (o' + 1) (ucast (0x80 OR drop_bit 8 count));
        Some (b, 2) })"

definition DeserializeFooter_PacketCount :: "bytes \<Rightarrow> nat \<Rightarrow> nat \<Rightarrow> u32 parse option" where
  "DeserializeFooter_PacketCount b o' space =
     (if space < 1 then Some ParseError else do {
        let e = o' + space - 1;
        b0 \<leftarrow> rd8 b e;
        (if b0 AND 0x80 = 0 then Some (Parsed 1 (ucast b0))
         else if space < 2 then Some ParseError
         else do {
           b1 \<leftarrow> rd8 b (e - 1);
           Some (Parsed 2 ((push_bit 8 (ucast b0) OR ucast b1) AND 0x7fff)) }) })"

definition packet_count_wire :: "u32 \<Rightarrow> bytes" where
  "packet_count_wire v =
     (if v \<le> 127 then [ucast v] else [ucast (0x80 OR drop_bit 8 v), ucast v])"

definition packet_count_ok :: "u32 \<Rightarrow> bool" where
  "packet_count_ok v \<longleftrightarrow> v \<le> 0x7fff"

lemma rev_packet_count_wire:
  "rev (packet_count_wire v) =
     (if v \<le> 127 then [ucast v] else [ucast v, ucast (0x80 OR drop_bit 8 v)])"
  by (simp add: packet_count_wire_def)

lemma vl_value2_swapped:
  fixes v :: u32
  assumes "v \<le> 0x7fff"
  shows "(ucast (ucast v :: u8) OR push_bit 8 (ucast (ucast (0x80 OR drop_bit 8 v) :: u8))) AND 0x7fff = v"
  using vl_value(3) [OF assms] by (simp add: or.commute)

interpretation packet_count_header: header_codec
  SerializeHeader_PacketCount packet_count_wire packet_count_ok DeserializeHeader_PacketCount 1
proof unfold_locales
  fix v :: u32 and pre post :: bytes and b :: bytes and off space :: nat
  assume v: "packet_count_ok v"
  show "packet_count_wire v \<noteq> []" by (simp add: packet_count_wire_def)
  show "SerializeHeader_PacketCount v b off
      = Some (overwrite b off (packet_count_wire v), length (packet_count_wire v))"
    if "off + length (packet_count_wire v) \<le> length b"
    using that by (auto simp: SerializeHeader_PacketCount_def packet_count_wire_def mem_simps)
  show "DeserializeHeader_PacketCount (pre @ packet_count_wire v @ post) (length pre) space
      = Some (Parsed (length (packet_count_wire v)) v)"
    if "length (packet_count_wire v) \<le> space"
    using that v
    by (auto simp: DeserializeHeader_PacketCount_def packet_count_wire_def packet_count_ok_def Let_def
        rd8_def nth_append vl_value vl_value2_swapped vl_tag)
qed

lemma DeserializeFooter_PacketCount_wire:
  assumes "packet_count_ok v"
  shows "DeserializeFooter_PacketCount (pre @ mid @ rev (packet_count_wire v) @ post) (length pre)
      (length mid + length (rev (packet_count_wire v)))
    = Some (Parsed (length (rev (packet_count_wire v))) v)"
  using assms unfolding rev_packet_count_wire
  by (auto simp: DeserializeFooter_PacketCount_def packet_count_ok_def Let_def
      rd8_def nth_append vl_value vl_tag)

interpretation packet_count_footer: footer_codec
  SerializeFooter_PacketCount "\<lambda>v. rev (packet_count_wire v)" packet_count_ok DeserializeFooter_PacketCount
proof unfold_locales
  fix v :: u32 and pre post :: bytes and b :: bytes and off space :: nat
  show "rev (packet_count_wire v) \<noteq> []" by (simp add: packet_count_wire_def)
  show "SerializeFooter_PacketCount v b off
      = Some (overwrite b off (rev (packet_count_wire v)), length (rev (packet_count_wire v)))"
    if "off + length (rev (packet_count_wire v)) \<le> length b"
    using that unfolding rev_packet_count_wire
    by (auto simp: SerializeFooter_PacketCount_def mem_simps)
qed (rule DeserializeFooter_PacketCount_wire)


section \<open>Packet length\<close>

definition SerializeHeader_PacketLength :: "u32 \<Rightarrow> bytes \<Rightarrow> nat \<Rightarrow> (bytes \<times> nat) option" where
  "SerializeHeader_PacketLength len b o' =
     (if len \<le> 0x7f then do {
        b \<leftarrow> wr8 b o' (ucast len);
        Some (b, 1) }
      else if len \<le> 0x3fff then do {
        b \<leftarrow> wr8 b o' (ucast (0x80 OR drop_bit 8 len));
        b \<leftarrow> wr8 b (o' + 1) (ucast len);
        Some (b, 2) }
      else if len \<le> 0x1fffff then do {
        b \<leftarrow> wr8 b o' (ucast (0xC0 OR drop_bit 16 len));
        b \<leftarrow> wr8 b (o' + 1) (byte_at 8 len);
        b \<leftarrow> wr8 b (o' + 2) (ucast len);
        Some (b, 3) }
      else do {
        b \<leftarrow> wr8 b o' (ucast (0xE0 OR drop_bit 24 len));
        b \<leftarrow> wr8 b (o' + 1) (byte_at 16 len);
        b \<leftarrow> wr8 b (o' + 2) (byte_at 8 len);
        b \<leftarrow> wr8 b (o' + 3) (ucast len);
        Some (b, 4) })"

definition DeserializeHeader_PacketLength :: "bytes \<Rightarrow> nat \<Rightarrow> nat \<Rightarrow> u32 parse option" where
  "DeserializeHeader_PacketLength b o' space =
     (if space < 1 then Some ParseError else do {
        b0 \<leftarrow> rd8 b o';
        let byteCount = drop_bit 6 b0;
        (if byteCount \<le> 1 then Some (Parsed 1 (ucast b0))
         else if byteCount = 2 then
           (if space < 2 then Some ParseError else do {
              b1 \<leftarrow> rd8 b (o' + 1);
              Some (Parsed 2 ((push_bit 8 (ucast b0) OR ucast b1) AND 0x3fff)) })
         else if b0 AND 0xE0 = 0xC0 then
           (if space < 3 then Some ParseError else do {
              b1 \<leftarrow> rd8 b (o' + 1); b2 \<leftarrow> rd8 b (o' + 2);
              Some (Parsed 3 ((push_bit 16 (ucast b0) OR push_bit 8 (ucast b1) OR ucast b2)
                AND 0x1fffff)) })
         else if space < 4 then Some ParseError
         else do {
           b1 \<leftarrow> rd8 b (o' + 1); b2 \<leftarrow> rd8 b (o' + 2); b3 \<leftarrow> rd8 b (o' + 3);
           Some (Parsed 4 ((push_bit 24 (ucast b0) OR push_bit 16 (ucast b1) OR
                            push_bit 8 (ucast b2) OR ucast b3) AND 0x1fffffff)) }) })"

definition SerializeFooter_PacketLength :: "u32 \<Rightarrow> bytes \<Rightarrow> nat \<Rightarrow> (bytes \<times> nat) option" where
  "SerializeFooter_PacketLength len b o' =
     (if len \<le> 0x7f then do {
        b \<leftarrow> wr8 b o' (ucast len);
        Some (b, 1) }
      else if len \<le> 0x3fff then do {
        b \<leftarrow> wr8 b o' (ucast len);
        b \<leftarrow> wr8 b (o' + 1) (ucast (0x80 OR drop_bit 8 len));
        Some (b, 2) }
      else if len \<le> 0x1fffff then do {
        b \<leftarrow> wr8 b o' (ucast len);
        b \<leftarrow> wr8 b (o' + 1) (byte_at 8 len);
        b \<leftarrow> wr8 b (o' + 2) (ucast (0xC0 OR drop_bit 16 len));
        Some (b, 3) }
      else do {
        b \<leftarrow> wr8 b o' (ucast len);
        b \<leftarrow> wr8 b (o' + 1) (byte_at 8 len);
        b \<leftarrow> wr8 b (o' + 2) (byte_at 16 len);
        b \<leftarrow> wr8 b (o' + 3) (ucast (0xE0 OR drop_bit 24 len));
        Some (b, 4) })"

definition DeserializeFooter_PacketLength :: "bytes \<Rightarrow> nat \<Rightarrow> nat \<Rightarrow> u32 parse option" where
  "DeserializeFooter_PacketLength b o' space =
     (if space < 1 then Some ParseError else do {
        let e = o' + space - 1;
        b0 \<leftarrow> rd8 b e;
        let byteCount = drop_bit 6 b0;
        (if byteCount \<le> 1 then Some (Parsed 1 (ucast b0))
         else if byteCount = 2 then
           (if space < 2 then Some ParseError else do {
              b1 \<leftarrow> rd8 b (e - 1);
              Some (Parsed 2 ((push_bit 8 (ucast b0) OR ucast b1) AND 0x3fff)) })
         else if b0 AND 0xE0 = 0xC0 then
           (if space < 3 then Some ParseError else do {
              b1 \<leftarrow> rd8 b (e - 1); b2 \<leftarrow> rd8 b (e - 2);
              Some (Parsed 3 ((push_bit 16 (ucast b0) OR push_bit 8 (ucast b1) OR ucast b2)
                AND 0x1fffff)) })
         else if space < 4 then Some ParseError
         else do {
           b1 \<leftarrow> rd8 b (e - 1); b2 \<leftarrow> rd8 b (e - 2); b3 \<leftarrow> rd8 b (e - 3);
           Some (Parsed 4 ((push_bit 24 (ucast b0) OR push_bit 16 (ucast b1) OR
                            push_bit 8 (ucast b2) OR ucast b3) AND 0x1fffffff)) }) })"

definition packet_length_wire :: "u32 \<Rightarrow> bytes" where
  "packet_length_wire v =
     (if v \<le> 0x7f then [ucast v]
      else if v \<le> 0x3fff then [ucast (0x80 OR drop_bit 8 v), ucast v]
      else if v \<le> 0x1fffff then [ucast (0xC0 OR drop_bit 16 v), byte_at 8 v, ucast v]
      else [ucast (0xE0 OR drop_bit 24 v), byte_at 16 v, byte_at 8 v, ucast v])"

definition packet_length_ok :: "u32 \<Rightarrow> bool" where
  "packet_length_ok v \<longleftrightarrow> v \<le> 0x1fffffff"

lemma rev_packet_length_wire:
  "rev (packet_length_wire v) =
     (if v \<le> 0x7f then [ucast v]
      else if v \<le> 0x3fff then [ucast v, ucast (0x80 OR drop_bit 8 v)]
      else if v \<le> 0x1fffff then [ucast v, byte_at 8 v, ucast (0xC0 OR drop_bit 16 v)]
      else [ucast v, byte_at 8 v, byte_at 16 v, ucast (0xE0 OR drop_bit 24 v)])"
  by (simp add: packet_length_wire_def)

lemma u32_le_21_22: "v \<le> 0x1fffff \<Longrightarrow> (v :: u32) \<le> 0x3fffff"
  by (simp add: word_le_nat_alt)

lemma DeserializeHeader_PacketLength_wire:
  assumes "packet_length_ok v" and "length (packet_length_wire v) \<le> space"
  shows "DeserializeHeader_PacketLength (pre @ packet_length_wire v @ post) (length pre) space
      = Some (Parsed (length (packet_length_wire v)) v)"
  using assms
  by (auto simp: DeserializeHeader_PacketLength_def packet_length_wire_def packet_length_ok_def Let_def
      rd8_def nth_append vl_value vl_value3 vl_value4 vl_tag u32_le_21_22 split: if_splits)

lemma DeserializeFooter_PacketLength_wire:
  assumes "packet_length_ok v"
  shows "DeserializeFooter_PacketLength (pre @ mid @ rev (packet_length_wire v) @ post) (length pre)
      (length mid + length (rev (packet_length_wire v)))
    = Some (Parsed (length (rev (packet_length_wire v))) v)"
  using assms unfolding rev_packet_length_wire
  by (auto simp: DeserializeFooter_PacketLength_def packet_length_ok_def Let_def
      rd8_def nth_append vl_value vl_value3 vl_value4 vl_tag u32_le_21_22)

interpretation packet_length_header: header_codec
  SerializeHeader_PacketLength packet_length_wire packet_length_ok DeserializeHeader_PacketLength 1
proof unfold_locales
  fix v :: u32 and b :: bytes and off :: nat
  show "packet_length_wire v \<noteq> []" by (simp add: packet_length_wire_def)
  show "SerializeHeader_PacketLength v b off
      = Some (overwrite b off (packet_length_wire v), length (packet_length_wire v))"
    if "off + length (packet_length_wire v) \<le> length b"
    using that by (auto simp: SerializeHeader_PacketLength_def packet_length_wire_def mem_simps)
qed (rule DeserializeHeader_PacketLength_wire)

interpretation packet_length_footer: footer_codec
  SerializeFooter_PacketLength "\<lambda>v. rev (packet_length_wire v)" packet_length_ok DeserializeFooter_PacketLength
proof unfold_locales
  fix v :: u32 and b :: bytes and off :: nat
  show "rev (packet_length_wire v) \<noteq> []" by (simp add: packet_length_wire_def)
  show "SerializeFooter_PacketLength v b off
      = Some (overwrite b off (rev (packet_length_wire v)), length (rev (packet_length_wire v)))"
    if "off + length (rev (packet_length_wire v)) \<le> length b"
    using that unfolding rev_packet_length_wire
    by (auto simp: SerializeFooter_PacketLength_def mem_simps)
qed (rule DeserializeFooter_PacketLength_wire)


section \<open>Recovery metadata\<close>

record RecoveryMetadata =
  Row :: u32
  ColumnStart :: u32
  SumCount :: u32
  LDPCCount :: u32

definition SerializeFooter_RecoveryMetadata :: "RecoveryMetadata \<Rightarrow> bytes \<Rightarrow> nat \<Rightarrow> (bytes \<times> nat) option" where
  "SerializeFooter_RecoveryMetadata metadata b o' = do {
     (b, n) \<leftarrow> (if SumCount metadata > 1 then do {
          b \<leftarrow> wr8 b o' (ucast (Row metadata));
          (b, k) \<leftarrow> SerializeFooter_PacketCount (LDPCCount metadata) b (o' + 1);
          Some (b, 1 + k) }
        else Some (b, 0));
     (b, k) \<leftarrow> SerializeFooter_PacketNum (ColumnStart metadata) b (o' + n);
     let n = n + k;
     (b, k) \<leftarrow> SerializeFooter_PacketCount (SumCount metadata - 1) b (o' + n);
     Some (b, n + k) }"

definition DeserializeFooter_RecoveryMetadata :: "bytes \<Rightarrow> nat \<Rightarrow> nat \<Rightarrow> RecoveryMetadata parse option" where
  "DeserializeFooter_RecoveryMetadata b o' space =
     (case DeserializeFooter_PacketCount b o' space of
        None \<Rightarrow> None
      | Some ParseError \<Rightarrow> Some ParseError
      | Some (Parsed n sumCountM1) \<Rightarrow>
        let rest = space - n; sumCount = sumCountM1 + 1 in
       (case DeserializeFooter_PacketNum b o' rest of
          None \<Rightarrow> None
        | Some ParseError \<Rightarrow> Some ParseError
        | Some (Parsed n columnStart) \<Rightarrow>
          let rest = rest - n in
          if sumCount \<le> 1 then
            Some (Parsed (space - rest)
              \<lparr>Row = 0, ColumnStart = columnStart, SumCount = sumCount, LDPCCount = 1\<rparr>)
          else
           (case DeserializeFooter_PacketCount b o' rest of
              None \<Rightarrow> None
            | Some ParseError \<Rightarrow> Some ParseError
            | Some (Parsed n ldpcCount) \<Rightarrow>
              let rest = rest - n in
              if sumCount < ldpcCount then Some ParseError
              else if rest \<ge> 1 then do {
                row \<leftarrow> rd8 b (o' + (rest - 1));
                Some (Parsed (space - (rest - 1))
                  \<lparr>Row = ucast row, ColumnStart = columnStart, SumCount = sumCount,
                   LDPCCount = ldpcCount\<rparr>) }
              else Some ParseError)))"

definition recovery_metadata_wire :: "RecoveryMetadata \<Rightarrow> bytes" where
  "recovery_metadata_wire m =
     (if SumCount m > 1 then ucast (Row m) # rev (packet_count_wire (LDPCCount m)) else [])
     @ rev (packet_num_wire (ColumnStart m)) @ rev (packet_count_wire (SumCount m - 1))"

text \<open>The values the encoder produces: a single-packet recovery block carries no row and no LDPC
  count, so these have their defaults.\<close>

definition recovery_metadata_ok :: "RecoveryMetadata \<Rightarrow> bool" where
  "recovery_metadata_ok m \<longleftrightarrow>
     Row m < 0x100 \<and> ColumnStart m < 0x400000 \<and> 1 \<le> SumCount m \<and> SumCount m \<le> 0x8000
     \<and> LDPCCount m \<le> 0x7fff \<and> LDPCCount m \<le> SumCount m
     \<and> (SumCount m = 1 \<longrightarrow> Row m = 0 \<and> LDPCCount m = 1)"

lemma SumCountM1_ok:
  assumes "1 \<le> s" and "s \<le> 0x8000"
  shows "packet_count_ok (s - 1)"
  using assms unat_sub [of 1 s] by (simp add: packet_count_ok_def word_le_nat_alt)

lemma SerializeFooter_RecoveryMetadata_wire:
  assumes "recovery_metadata_ok m" and "off + length (recovery_metadata_wire m) \<le> length b"
  shows "SerializeFooter_RecoveryMetadata m b off
      = Some (overwrite b off (recovery_metadata_wire m), length (recovery_metadata_wire m))"
proof -
  have ok: "packet_count_ok (LDPCCount m)" "packet_num_ok (ColumnStart m)" "packet_count_ok (SumCount m - 1)"
    using assms(1) SumCountM1_ok [of "SumCount m"]
    by (auto simp: recovery_metadata_ok_def packet_count_ok_def packet_num_ok_def word_le_nat_alt word_less_nat_alt)
  show ?thesis
    using assms(2)
    by (auto simp: SerializeFooter_RecoveryMetadata_def recovery_metadata_wire_def mem_simps
        packet_count_footer.enc_wire [OF ok(1), simplified] packet_num_footer.enc_wire [OF ok(2), simplified]
        packet_count_footer.enc_wire [OF ok(3), simplified] add.assoc)
qed

lemma DeserializeFooter_RecoveryMetadata_wire:
  assumes "recovery_metadata_ok m"
  shows "DeserializeFooter_RecoveryMetadata (pre @ mid @ recovery_metadata_wire m @ post) (length pre)
      (length mid + length (recovery_metadata_wire m))
    = Some (Parsed (length (recovery_metadata_wire m)) m)"
proof -
  let ?c = "rev (packet_count_wire (LDPCCount m))" and ?n = "rev (packet_num_wire (ColumnStart m))"
    and ?s = "rev (packet_count_wire (SumCount m - 1))"
    and ?h = "if SumCount m > 1 then ucast (Row m) # rev (packet_count_wire (LDPCCount m)) else []"
  have ok: "packet_count_ok (LDPCCount m)" "packet_num_ok (ColumnStart m)" "packet_count_ok (SumCount m - 1)"
    using assms SumCountM1_ok [of "SumCount m"]
    by (auto simp: recovery_metadata_ok_def packet_count_ok_def packet_num_ok_def word_le_nat_alt word_less_nat_alt)
  have row: "ucast (ucast (Row m) :: u8) = Row m"
    using assms by (intro bit_word_eqI)
      (auto simp: bit_simps recovery_metadata_ok_def word_less_nat_alt dest: word_bit_bound [rotated, where k = 8])
  let ?b = "pre @ mid @ ?h @ ?n @ ?s @ post"
  have 1: "DeserializeFooter_PacketCount ?b (length pre) (length mid + length ?h + length ?n + length ?s)
      = Some (Parsed (length ?s) (SumCount m - 1))"
    using packet_count_footer.dec_wire [OF ok(3), of pre "mid @ ?h @ ?n" post] by (simp add: add.assoc)
  have 2: "DeserializeFooter_PacketNum ?b (length pre) (length mid + length ?h + length ?n)
      = Some (Parsed (length ?n) (ColumnStart m))"
    using packet_num_footer.dec_wire [OF ok(2), of pre "mid @ ?h" "?s @ post"] by (simp add: add.assoc)
  have 3: "DeserializeFooter_PacketCount ?b (length pre) (length mid + 1 + length ?c)
      = Some (Parsed (length ?c) (LDPCCount m))" if "SumCount m > 1"
    using packet_count_footer.dec_wire [OF ok(1), of pre "mid @ [ucast (Row m)]" "?n @ ?s @ post"] that
    by (simp add: add.assoc)
  show ?thesis
  proof (cases "SumCount m > 1")
    case True
    have 4: "rd8 ?b (length pre + length mid) = Some (ucast (Row m))"
      using True rd8_append [of "pre @ mid" "ucast (Row m)" "?c @ ?n @ ?s @ post"] by simp
    have "\<not> SumCount m \<le> 1" "\<not> SumCount m < LDPCCount m"
      using True assms by (auto simp: recovery_metadata_ok_def)
    with True 1 2 3 4 show ?thesis
      by (simp add: DeserializeFooter_RecoveryMetadata_def recovery_metadata_wire_def Let_def row
          add.assoc)
  next
    case False
    then have "SumCount m = 1" using assms by (auto simp: recovery_metadata_ok_def)
    with False 1 2 assms show ?thesis
      by (simp add: DeserializeFooter_RecoveryMetadata_def recovery_metadata_wire_def Let_def
          recovery_metadata_ok_def add.assoc)
  qed
qed


interpretation recovery_metadata: footer_codec SerializeFooter_RecoveryMetadata recovery_metadata_wire
  recovery_metadata_ok DeserializeFooter_RecoveryMetadata
proof unfold_locales
  fix v
  show "recovery_metadata_wire v \<noteq> []"
    by (simp add: recovery_metadata_wire_def packet_num_wire_def)
qed (fact SerializeFooter_RecoveryMetadata_wire DeserializeFooter_RecoveryMetadata_wire)+

section \<open>NACK loss range\<close>

definition kMaxLossRangeFieldBytes :: nat where
  "kMaxLossRangeFieldBytes = 7"

definition SerializeHeader_NACKLossRange :: "u32 \<times> u32 \<Rightarrow> bytes \<Rightarrow> nat \<Rightarrow> (bytes \<times> nat) option" where
  "SerializeHeader_NACKLossRange = (\<lambda>(relativeStart, lossCountM1) b o'. do {
     let byte0 = (if lossCountM1 \<le> 2 then lossCountM1 else 3) OR push_bit 3 relativeStart;
     (b, byte0, n) \<leftarrow>
       (if relativeStart \<ge> 2 ^ 5 then do {
          let byte1 = drop_bit 5 relativeStart;
          (b, byte1, n) \<leftarrow>
            (if relativeStart \<ge> 2 ^ (5 + 7) then do {
               let byte2 = drop_bit (5 + 7) relativeStart;
               (b, byte2, n) \<leftarrow>
                 (if relativeStart \<ge> 2 ^ (5 + 7 + 7) then do {
                    b \<leftarrow> wr8 b (o' + 3) (byte_at (5 + 7 + 7) relativeStart);
                    Some (b, byte2 OR 0x80, 2) }
                  else Some (b, byte2, 1));
               b \<leftarrow> wr8 b (o' + 2) (ucast byte2);
               Some (b, byte1 OR 0x80, n + 1) }
             else Some (b, byte1, 1));
          b \<leftarrow> wr8 b (o' + 1) (ucast byte1);
          Some (b, byte0 OR 4, n + 1) }
        else Some (b, byte0, 1));
     b \<leftarrow> wr8 b o' (ucast byte0);
     (if lossCountM1 \<ge> 3 then do {
        let p = o' + n;
        let lossCountM1 = lossCountM1 - 3;
        let byte1 = lossCountM1;
        (b, byte1, n) \<leftarrow>
          (if lossCountM1 \<ge> 2 ^ 7 then do {
             let byte2 = drop_bit 7 lossCountM1;
             (b, byte2, n) \<leftarrow>
               (if lossCountM1 \<ge> 2 ^ (7 + 7) then do {
                  let byte3 = drop_bit (7 + 7) lossCountM1;
                  b \<leftarrow> wr8 b (p + 2) (ucast byte3);
                  Some (b, byte2 OR 0x80, n + 1) }
                else Some (b, byte2, n));
             b \<leftarrow> wr8 b (p + 1) (ucast byte2);
             Some (b, byte1 OR 0x80, n + 1) }
           else Some (b, byte1, n));
        b \<leftarrow> wr8 b p (ucast byte1);
        Some (b, n + 1) }
      else Some (b, n)) })"

definition DeserializeHeader_NACKLossRange :: "bytes \<Rightarrow> nat \<Rightarrow> nat \<Rightarrow> (u32 \<times> u32) parse option" where
  "DeserializeHeader_NACKLossRange b o' space =
     (if space < kMaxLossRangeFieldBytes then Some ParseError else do {
        r0 \<leftarrow> rd8 b o';
        let byte0 = (ucast r0 :: u32);
        let lossCountM1 = byte0 AND 3;
        let relativeStart = drop_bit 3 byte0;
        (relativeStart, n) \<leftarrow>
          (if byte0 AND 4 \<noteq> 0 then do {
             r1 \<leftarrow> rd8 b (o' + 1);
             let byte1 = (ucast r1 :: u32);
             let relativeStart = relativeStart OR push_bit 5 (byte1 AND 0x7f);
             (if byte1 AND 0x80 \<noteq> 0 then do {
                r2 \<leftarrow> rd8 b (o' + 2);
                let byte2 = (ucast r2 :: u32);
                let relativeStart = relativeStart OR push_bit (5 + 7) (byte2 AND 0x7f);
                (if byte2 AND 0x80 \<noteq> 0 then do {
                   r3 \<leftarrow> rd8 b (o' + 3);
                   Some (relativeStart OR push_bit (5 + 7 + 7) (ucast r3), 4) }
                 else Some (relativeStart, 3)) }
              else Some (relativeStart, 2)) }
           else Some (relativeStart, 1));
        (lossCountM1, n) \<leftarrow>
          (if lossCountM1 = 3 then do {
             let p = o' + n;
             r1 \<leftarrow> rd8 b p;
             let byte1 = (ucast r1 :: u32);
             let lossCountM1 = lossCountM1 + (byte1 AND 0x7f);
             (if byte1 AND 0x80 \<noteq> 0 then do {
                r2 \<leftarrow> rd8 b (p + 1);
                let byte2 = (ucast r2 :: u32);
                let lossCountM1 = lossCountM1 + push_bit 7 (byte2 AND 0x7f);
                (if byte2 AND 0x80 \<noteq> 0 then do {
                   r3 \<leftarrow> rd8 b (p + 2);
                   Some (lossCountM1 + push_bit (7 + 7) (ucast r3), n + 3) }
                 else Some (lossCountM1, n + 2)) }
              else Some (lossCountM1, n + 1)) }
           else Some (lossCountM1, n));
        Some (Parsed n (relativeStart, lossCountM1)) })"

text \<open>The wire image: a flag byte with the low five bits of the start and a two-bit count, up to
  three more groups of start bits, and up to three groups of the count beyond three.\<close>

definition nack_start_wire :: "u32 \<Rightarrow> bytes" where
  "nack_start_wire r =
     (if r < 2 ^ 5 then []
      else if r < 2 ^ 12 then [ucast (drop_bit 5 r)]
      else if r < 2 ^ 19 then [ucast (drop_bit 5 r OR 0x80), ucast (drop_bit 12 r)]
      else [ucast (drop_bit 5 r OR 0x80), ucast (drop_bit 12 r OR 0x80), ucast (drop_bit 19 r)])"

definition nack_count_wire :: "u32 \<Rightarrow> bytes" where
  "nack_count_wire c =
     (if c < 2 ^ 7 then [ucast c]
      else if c < 2 ^ 14 then [ucast (c OR 0x80), ucast (drop_bit 7 c)]
      else [ucast (c OR 0x80), ucast (drop_bit 7 c OR 0x80), ucast (drop_bit 14 c)])"

definition nack_flag_byte :: "u32 \<Rightarrow> u32 \<Rightarrow> u8" where
  "nack_flag_byte r c = ucast ((if c \<le> 2 then c else 3) OR push_bit 3 r OR (if r < 2 ^ 5 then 0 else 4))"

definition nack_wire :: "u32 \<times> u32 \<Rightarrow> bytes" where
  "nack_wire = (\<lambda>(r, c). nack_flag_byte r c # nack_start_wire r @ (if c \<le> 2 then [] else nack_count_wire (c - 3)))"

definition nack_ok :: "u32 \<times> u32 \<Rightarrow> bool" where
  "nack_ok = (\<lambda>(r, c). r < 2 ^ 22 \<and> c < 2 ^ 22)"

lemma nack_bounds:
  fixes r :: u32
  assumes "bit r n"
  shows "r < 2 ^ 5 \<Longrightarrow> n < 5" "r < 2 ^ 7 \<Longrightarrow> n < 7" "r < 2 ^ 12 \<Longrightarrow> n < 12" "r < 2 ^ 14 \<Longrightarrow> n < 14"
    "r < 2 ^ 19 \<Longrightarrow> n < 19" "r < 2 ^ 22 \<Longrightarrow> n < 22" "r \<le> 2 \<Longrightarrow> n < 2"
  using assms by (auto elim!: word_bit_bound [rotated] simp: word_less_nat_alt word_le_nat_alt)

lemma bit_small_consts [bit_consts]:
  "bit (31::int) n \<longleftrightarrow> n < 5"
  by (rule bit_int_mask_iff) (simp add: mask_numeral)

lemma group_byte:
  fixes x :: u32
  shows "ucast (ucast (x OR 0x80) :: u8) AND (0x7f :: u32) = take_bit 7 x"
    "ucast (ucast x :: u8) AND (0x7f :: u32) = take_bit 7 x"
    "x < 2 ^ 7 \<Longrightarrow> ucast (ucast x :: u8) AND (0x80 :: u32) = 0"
    by (rule bit_word_eqI; auto simp: bit_simps bit_consts dest: nack_bounds; fail)+

lemma group_byte_more: "ucast (ucast (x OR 0x80 :: u32) :: u8) AND (0x80 :: u32) \<noteq> 0"
proof -
  have "bit (ucast (ucast (x OR 0x80) :: u8) AND (0x80 :: u32)) 7 \<noteq> bit (0 :: u32) 7"
    by (simp add: bit_simps bit_consts)
  then show ?thesis by metis
qed

lemma flag_byte_cc:
  shows "ucast (nack_flag_byte r c) AND (3 :: u32) = (if c \<le> 2 then c else 3)"
  by (rule bit_word_eqI) (auto simp: nack_flag_byte_def bit_simps bit_consts dest: nack_bounds)

lemma flag_byte_start: "drop_bit 3 (ucast (nack_flag_byte r c) :: u32) = take_bit 5 r"
  by (rule bit_word_eqI) (auto simp: nack_flag_byte_def bit_simps bit_consts dest: nack_bounds)

lemma flag_byte_more: "ucast (nack_flag_byte r c) AND (4 :: u32) = 0 \<longleftrightarrow> r < 2 ^ 5"
proof -
  have "bit (ucast (nack_flag_byte r c) AND (4 :: u32)) n \<longleftrightarrow> n = 2 \<and> \<not> r < 2 ^ 5" for n
    by (auto simp: nack_flag_byte_def bit_simps bit_consts dest: nack_bounds)
  then show ?thesis by (metis bit_0_eq bot_apply bot_bool_def bit_eq_iff)
qed

lemma bit_group:
  fixes r :: u32
  shows "bit (push_bit k (take_bit j (drop_bit k r))) n \<longleftrightarrow> k \<le> n \<and> n < k + j \<and> bit r n"
    "bit (push_bit k (ucast (ucast (drop_bit k r) :: u8) :: u32)) n \<longleftrightarrow> k \<le> n \<and> n < k + 8 \<and> bit r n"
  using bit_imp_le_length [of r n] by (auto simp: bit_simps)

lemma nack_start_value:
  fixes r :: u32
  shows "r < 2 ^ 5 \<Longrightarrow> take_bit 5 r = r"
    "r < 2 ^ 12 \<Longrightarrow> take_bit 5 r OR push_bit 5 (take_bit 7 (drop_bit 5 r)) = r"
    "r < 2 ^ 19 \<Longrightarrow> take_bit 5 r OR push_bit 5 (take_bit 7 (drop_bit 5 r))
        OR push_bit 12 (take_bit 7 (drop_bit 12 r)) = r"
    "r < 2 ^ 22 \<Longrightarrow> take_bit 5 r OR push_bit 5 (take_bit 7 (drop_bit 5 r))
        OR push_bit 12 (take_bit 7 (drop_bit 12 r)) OR push_bit 19 (ucast (ucast (drop_bit 19 r) :: u8)) = r"
  by (rule bit_word_eqI; auto simp: bit_or_iff bit_take_bit_iff bit_group not_less dest: nack_bounds; fail)+

lemma nack_count_value:
  fixes c :: u32
  shows "c < 2 ^ 7 \<Longrightarrow> take_bit 7 c = c"
    "c < 2 ^ 14 \<Longrightarrow> take_bit 7 c + push_bit 7 (take_bit 7 (drop_bit 7 c)) = c"
    "c < 2 ^ 22 \<Longrightarrow> take_bit 7 c + push_bit 7 (take_bit 7 (drop_bit 7 c))
       + push_bit 14 (ucast (ucast (drop_bit 14 c) :: u8)) = c"
proof -
  have or1: "take_bit 7 c + push_bit 7 (take_bit 7 (drop_bit 7 c))
      = take_bit 7 c OR push_bit 7 (take_bit 7 (drop_bit 7 c))"
    by (rule disjunctive_add) (auto simp: bit_take_bit_iff bit_group)
  have or2: "(take_bit 7 c OR push_bit 7 (take_bit 7 (drop_bit 7 c)))
      + push_bit 14 (ucast (ucast (drop_bit 14 c) :: u8))
    = take_bit 7 c OR push_bit 7 (take_bit 7 (drop_bit 7 c))
      OR push_bit 14 (ucast (ucast (drop_bit 14 c) :: u8))"
    by (subst or.assoc [symmetric], rule disjunctive_add) (auto simp: bit_or_iff bit_take_bit_iff bit_group)
  show "c < 2 ^ 7 \<Longrightarrow> take_bit 7 c = c"
    by (rule bit_word_eqI) (auto simp: bit_take_bit_iff dest: nack_bounds)
  show "c < 2 ^ 14 \<Longrightarrow> take_bit 7 c + push_bit 7 (take_bit 7 (drop_bit 7 c)) = c"
    unfolding or1
    by (rule bit_word_eqI) (auto simp: bit_or_iff bit_take_bit_iff bit_group not_less dest: nack_bounds)
  show "c < 2 ^ 22 \<Longrightarrow> take_bit 7 c + push_bit 7 (take_bit 7 (drop_bit 7 c))
       + push_bit 14 (ucast (ucast (drop_bit 14 c) :: u8)) = c"
    unfolding or1 or2
    by (rule bit_word_eqI) (auto simp: bit_or_iff bit_take_bit_iff bit_group not_less dest: nack_bounds)
qed

lemma nack_lt_mono:
  fixes r :: u32
  shows "r < 2 ^ 5 \<Longrightarrow> r < 2 ^ 12" "r < 2 ^ 12 \<Longrightarrow> r < 2 ^ 19" "r < 2 ^ 7 \<Longrightarrow> r < 2 ^ 14"
    "2 ^ 5 \<le> r \<longleftrightarrow> \<not> r < 2 ^ 5" "2 ^ 12 \<le> r \<longleftrightarrow> \<not> r < 2 ^ 12" "2 ^ 19 \<le> r \<longleftrightarrow> \<not> r < 2 ^ 19"
    "2 ^ 7 \<le> r \<longleftrightarrow> \<not> r < 2 ^ 7" "2 ^ 14 \<le> r \<longleftrightarrow> \<not> r < 2 ^ 14" "3 \<le> r \<longleftrightarrow> \<not> r \<le> 2"
  by (auto simp: word_less_nat_alt word_le_nat_alt not_less)

lemma drop_small:
  fixes r :: u32
  shows "r < 2 ^ 12 \<Longrightarrow> drop_bit 5 r < 2 ^ 7" "r < 2 ^ 19 \<Longrightarrow> drop_bit 12 r < 2 ^ 7"
    "r < 2 ^ 14 \<Longrightarrow> drop_bit 7 r < 2 ^ 7"
  by (simp_all add: word_less_nat_alt unat_drop_bit_eq drop_bit_eq_div unat_div less_mult_imp_div_less)

lemma SerializeHeader_NACKLossRange_wire:
  assumes "off + length (nack_wire v) \<le> length b"
  shows "SerializeHeader_NACKLossRange v b off = Some (overwrite b off (nack_wire v), length (nack_wire v))"
proof -
  obtain r c where v: "v = (r, c)" by (cases v)
  show ?thesis
    using assms unfolding v
    by (cases "r < 2 ^ 5"; cases "r < 2 ^ 12"; cases "r < 2 ^ 19";
        cases "c \<le> 2"; cases "c - 3 < 2 ^ 7"; cases "c - 3 < 2 ^ 14")
      (simp_all add: SerializeHeader_NACKLossRange_def nack_wire_def nack_start_wire_def
        nack_count_wire_def nack_flag_byte_def nack_lt_mono Let_def mem_simps or.assoc
        del: power_numeral push_bit_and)
qed

lemma nack_count_value3:
  fixes c :: u32
  shows "c < 2 ^ 7 \<Longrightarrow> 3 + take_bit 7 c = c + 3"
    "c < 2 ^ 14 \<Longrightarrow> 3 + take_bit 7 c + push_bit 7 (take_bit 7 (drop_bit 7 c)) = c + 3"
    "c < 2 ^ 22 \<Longrightarrow> 3 + take_bit 7 c + push_bit 7 (take_bit 7 (drop_bit 7 c))
       + push_bit 14 (ucast (ucast (drop_bit 14 c) :: u8)) = c + 3"
  using nack_count_value [of c] by (simp_all add: ac_simps)

lemma DeserializeHeader_NACKLossRange_wire:
  assumes "nack_ok v" and "kMaxLossRangeFieldBytes \<le> space"
  shows "DeserializeHeader_NACKLossRange (pre @ nack_wire v @ post) (length pre) space
    = Some (Parsed (length (nack_wire v)) v)"
proof -
  obtain r c where v: "v = (r, c)" by (cases v)
  have bounds: "r < 2 ^ 22" "\<not> c \<le> 2 \<Longrightarrow> c - 3 < 2 ^ 22" "c = 3 \<Longrightarrow> \<not> c \<le> 2"
    using assms(1) unfolding v nack_ok_def
    by (auto simp: word_less_nat_alt word_le_nat_alt unat_sub)
  define d where "d = c - 3"
  have c: "c = d + 3" by (simp add: d_def)
  have "c \<le> 2 \<Longrightarrow> c \<noteq> 3" by auto
  with bounds show ?thesis
    using assms(2) unfolding v d_def [symmetric]
    by (cases "r < 2 ^ 5"; cases "r < 2 ^ 12"; cases "r < 2 ^ 19";
        cases "c \<le> 2"; cases "d < 2 ^ 7"; cases "d < 2 ^ 14")
      (simp_all add: DeserializeHeader_NACKLossRange_def nack_wire_def nack_start_wire_def
        nack_count_wire_def nack_lt_mono Let_def flag_byte_cc flag_byte_start flag_byte_more
        group_byte group_byte_more drop_small nack_start_value nack_count_value3 or.assoc
        rd8_def nth_append c [symmetric] d_def [symmetric]
        del: power_numeral push_bit_and)
qed

interpretation nack: header_codec SerializeHeader_NACKLossRange nack_wire nack_ok
  DeserializeHeader_NACKLossRange kMaxLossRangeFieldBytes
proof unfold_locales
  show "nack_wire v \<noteq> []" for v by (cases v) (simp add: nack_wire_def)
qed (simp_all add: SerializeHeader_NACKLossRange_wire DeserializeHeader_NACKLossRange_wire)

lemma length_nack_wire: "length (nack_wire v) \<le> kMaxLossRangeFieldBytes"
  by (cases v) (simp add: nack_wire_def nack_start_wire_def nack_count_wire_def kMaxLossRangeFieldBytes_def)

section \<open>Memory safety of the deserializers\<close>

lemma top_two_bits: "unat (drop_bit 6 (x :: u8)) \<le> 3"
proof -
  have "unat (x div 64) = unat x div 64" by (simp add: unat_div)
  moreover have "unat x < 256" using unat_bound [of x] by simp
  ultimately show ?thesis by (simp add: drop_bit_eq_div)
qed

lemma tag_3:
  assumes "\<not> drop_bit 6 (x :: u8) \<le> 1" and "drop_bit 6 x \<noteq> 2"
  shows "unat (drop_bit 6 x) = 3"
proof -
  have "unat (drop_bit 6 x) \<noteq> unat (2 :: u8)" using assms(2) by (metis word_unat_eq_iff)
  then show ?thesis using assms(1) top_two_bits [of x] by (simp add: word_le_nat_alt)
qed

lemma DeserializeFooter_PacketNum_safe:
  assumes "off + space \<le> length b"
  shows "DeserializeFooter_PacketNum b off space \<noteq> None"
  using assms tag_3 [of "b ! (off + space - 1)"]
  by (auto simp: DeserializeFooter_PacketNum_def Let_def rd8_def)

lemma DeserializeFooter_PacketCount_safe:
  assumes "off + space \<le> length b"
  shows "DeserializeFooter_PacketCount b off space \<noteq> None"
  using assms by (auto simp: DeserializeFooter_PacketCount_def Let_def rd8_def)

lemma DeserializeFooter_PacketCount_le:
  assumes "DeserializeFooter_PacketCount b off space = Some (Parsed n v)"
  shows "n \<le> space"
  using assms by (auto simp: DeserializeFooter_PacketCount_def Let_def split: if_splits bind_splits)

lemma DeserializeFooter_RecoveryMetadata_safe:
  assumes "off + space \<le> length b"
  shows "DeserializeFooter_RecoveryMetadata b off space \<noteq> None"
proof -
  have sub: "off + (space - n) \<le> length b" for n using assms by simp
  define f g where "f n = the (DeserializeFooter_PacketNum b off (space - n))"
    and "g n = the (DeserializeFooter_PacketCount b off (space - n))" for n
  then have f: "DeserializeFooter_PacketNum b off (space - n) = Some (f n)"
    and g: "DeserializeFooter_PacketCount b off (space - n) = Some (g n)" for n
    using DeserializeFooter_PacketNum_safe [OF sub] DeserializeFooter_PacketCount_safe [OF sub]
    by simp_all
  have "DeserializeFooter_PacketCount b off space = Some (g 0)" using g [of 0] by simp
  then show ?thesis
    using assms
    by (auto simp: DeserializeFooter_RecoveryMetadata_def Let_def rd8_def f g diff_diff_eq
        split: parse.split)
qed

lemma DeserializeHeader_NACKLossRange_safe:
  assumes "off + space \<le> length b"
  shows "DeserializeHeader_NACKLossRange b off space \<noteq> None"
  using assms
  by (auto simp: DeserializeHeader_NACKLossRange_def kMaxLossRangeFieldBytes_def Let_def rd8_def
      split: if_splits)

section \<open>Properties\<close>



text \<open>Property C28: recovery metadata round trip.  Whatever precedes and follows it in the recovery
  packet, the metadata the encoder appends is read back from the end of the packet, the number of
  bytes agrees, at most \<open>kMaxRecoveryMetadataBytes = 8\<close> bytes are used, and no other byte of the
  buffer changes.\<close>

theorem recovery_metadata_roundtrip:
  assumes "recovery_metadata_ok m" and "start \<le> off" and "off + 8 \<le> length b"
  shows "\<exists>b' n. SerializeFooter_RecoveryMetadata m b off = Some (b', n) \<and> n \<le> 8
    \<and> length b' = length b \<and> take off b' = take off b \<and> drop (off + n) b' = drop (off + n) b
    \<and> DeserializeFooter_RecoveryMetadata b' start (off + n - start) = Some (Parsed n m)"
proof -
  have len: "length (recovery_metadata_wire m) \<le> 8"
    by (simp add: recovery_metadata_wire_def packet_count_wire_def packet_num_wire_def)
  with assms show ?thesis
    using recovery_metadata.roundtrip [OF assms(1,2), of b] by auto
qed

theorem recovery_metadata_roundtrip_witness:
  "\<exists>b' n. SerializeFooter_RecoveryMetadata
        \<lparr>Row = 200, ColumnStart = 0x3ffff0, SumCount = 300, LDPCCount = 130\<rparr> (replicate 12 0) 3 = Some (b', n)
    \<and> n \<le> 8 \<and> length b' = 12 \<and> take 3 b' = take 3 (replicate 12 0)
    \<and> drop (3 + n) b' = drop (3 + n) (replicate 12 0)
    \<and> DeserializeFooter_RecoveryMetadata b' 1 (3 + n - 1)
      = Some (Parsed n \<lparr>Row = 200, ColumnStart = 0x3ffff0, SumCount = 300, LDPCCount = 130\<rparr>)"
  using recovery_metadata_roundtrip
    [of "\<lparr>Row = 200, ColumnStart = 0x3ffff0, SumCount = 300, LDPCCount = 130\<rparr>" 1 3 "replicate 12 0"]
  by (simp add: recovery_metadata_ok_def)

text \<open>Property C29: an acknowledgement body, that is a run of NACK loss ranges written back to back, is
  decoded to the same ranges as long as seven bytes of room follow the last range (the
  deserializer's precondition).\<close>

theorem nack_ranges_roundtrip:
  assumes "list_all nack_ok ranges"
    and "off + length (concat (map nack_wire ranges)) + kMaxLossRangeFieldBytes \<le> length b"
  shows "\<exists>b' n. enc_all SerializeHeader_NACKLossRange ranges b off = Some (b', n)
    \<and> n \<le> kMaxLossRangeFieldBytes * length ranges
    \<and> dec_all DeserializeHeader_NACKLossRange (length ranges) b' off (length b' - off) = Some (Parsed n ranges)"
proof -
  have "length (concat (map nack_wire ranges)) \<le> kMaxLossRangeFieldBytes * length ranges"
    using length_nack_wire by (induction ranges) (auto intro: add_mono)
  moreover have "enc_all SerializeHeader_NACKLossRange ranges b off
      = Some (overwrite b off (concat (map nack_wire ranges)), length (concat (map nack_wire ranges)))"
    using assms by (intro nack.enc_all_wire) auto
  ultimately show ?thesis using nack.run_roundtrip [OF assms] by auto
qed

theorem nack_ranges_roundtrip_witness:
  "\<exists>b' n. enc_all SerializeHeader_NACKLossRange [(0x3fffff, 0), (5, 2), (4096, 20000)] (replicate 40 0xff) 1
      = Some (b', n) \<and> n \<le> 21
    \<and> dec_all DeserializeHeader_NACKLossRange 3 b' 1 (length b' - 1)
      = Some (Parsed n [(0x3fffff, 0), (5, 2), (4096, 20000)])"
proof -
  have "list_all nack_ok [(0x3fffff, 0), (5, 2), (4096, 20000)]" by (simp add: nack_ok_def)
  moreover have "length (nack_wire (0x3fffff, 0)) + (length (nack_wire (5, 2)) + length (nack_wire (4096, 20000))) \<le> 21"
    using length_nack_wire [of "(0x3fffff, 0)"] length_nack_wire [of "(5, 2)"] length_nack_wire [of "(4096, 20000)"]
    by (simp add: kMaxLossRangeFieldBytes_def)
  ultimately show ?thesis
    using nack_ranges_roundtrip [of "[(0x3fffff, 0), (5, 2), (4096, 20000)]" 1 "replicate 40 0xff"]
    by (simp add: kMaxLossRangeFieldBytes_def numeral_3_eq_3 del: enc_all.simps dec_all.simps)
qed

text \<open>The packet number footer of a datagram is read back by the unchecked reader, which
  only gets the end of the buffer.\<close>

lemma packet_num_footer_roundtrip:
  assumes "packetNum \<le> 0x3fffff" and "off + 3 \<le> length b"
  shows "\<exists>b' n. SerializeFooter_PacketNum packetNum b off = Some (b', n) \<and> n \<le> 3
    \<and> take off b' = take off b
    \<and> DeserializeFooter_PacketNum_Unsafe b' (off + n) = Some (packetNum, n)"
proof -
  have ok: "packet_num_ok packetNum" using assms(1) by (simp add: packet_num_ok_def)
  have len: "length (packet_num_wire packetNum) \<le> 3" by (simp add: packet_num_wire_def)
  obtain b' where "SerializeFooter_PacketNum packetNum b off = Some (b', length (packet_num_wire packetNum))"
    "take off b' = take off b"
    "DeserializeFooter_PacketNum b' 0 (off + length (packet_num_wire packetNum) - 0)
      = Some (Parsed (length (packet_num_wire packetNum)) packetNum)"
    using packet_num_footer.roundtrip [OF ok, of 0 off b] assms(2) len by auto
  then show ?thesis
    using len DeserializeFooter_PacketNum_Unsafe_eq
      [where b = b' and off = 0 and space = "off + length (packet_num_wire packetNum)"]
    by auto
qed

end
