(* ===== verification/Siamese_Common.thy ===== *)
theory Siamese_Common
  imports Tonk_Prelude "HOL-Library.Sublist"
begin

text \<open>
  The shared tools of the Siamese codec: the PCG random number generator and the windowed
  minimum/maximum of \<open>SiameseTools.h\<close>, and the code parameters and column arithmetic of
  \<open>SiameseCommon.h\<close>.

  The windowed filter is parametric in its comparison, like the C++ template.  The locale
  \<open>windowed_filter\<close> states what it relies on (the comparison is a total preorder) and relates the
  three samples it keeps to the whole history of samples; it is interpreted for the two comparisons
  of the code, minimum and maximum.
\<close>

unbundle bit_operations_syntax

section \<open>PCG random numbers\<close>

record PCGRandom =
  State :: u64
  Inc :: u64

text \<open>The rotation of a 32-bit value as the code writes it: a right shift, and a left shift by the
  negated amount modulo 32.\<close>

definition Next :: "PCGRandom \<Rightarrow> u32 \<times> PCGRandom" where
  "Next g =
     (let oldstate = State g;
          xorshifted = ucast (drop_bit 27 (drop_bit 18 oldstate XOR oldstate)) :: u32;
          rot = ucast (drop_bit 59 oldstate) :: u32
      in (drop_bit (unat rot) xorshifted OR push_bit (unat ((- rot) AND 31)) xorshifted,
          g\<lparr>State := oldstate * 6364136223846793005 + Inc g\<rparr>))"

definition Seed :: "u64 \<Rightarrow> u64 \<Rightarrow> PCGRandom" where
  "Seed y x =
     (let g = \<lparr>State = 0, Inc = push_bit 1 y OR 1\<rparr>;
          g = snd (Next g);
          g = g\<lparr>State := State g + x\<rparr>
      in snd (Next g))"

section \<open>Results\<close>

datatype SiameseResult =
  Siamese_Success | Siamese_InvalidInput | Siamese_NeedMoreData | Siamese_MaxPacketsReached
  | Siamese_DuplicateData | Siamese_Disabled

section \<open>Code parameters\<close>

definition kColumnValuePeriod :: u32 where "kColumnValuePeriod = 253"
definition kRowValuePeriod :: u32 where "kRowValuePeriod = 255"
definition kColumnPeriod :: u32 where "kColumnPeriod = 0x400000"
definition kColumnLaneCount :: u32 where "kColumnLaneCount = 8"
definition kColumnSumCount :: nat where "kColumnSumCount = 3"

definition GetColumnValue :: "u32 \<Rightarrow> u8" where
  "GetColumnValue column = ucast (3 + (column * 199) mod kColumnValuePeriod)"

definition GetRowValue :: "u32 \<Rightarrow> u8" where
  "GetRowValue row = ucast (1 + (row + 1) mod kRowValuePeriod)"

definition IsColumnDeltaNegative :: "u32 \<Rightarrow> bool" where
  "IsColumnDeltaNegative columnDelta \<longleftrightarrow> columnDelta \<ge> kColumnPeriod div 2"

definition SubtractColumns :: "u32 \<Rightarrow> u32 \<Rightarrow> u32" where
  "SubtractColumns column_a column_b = (column_a - column_b) mod kColumnPeriod"

definition AddColumns :: "u32 \<Rightarrow> u32 \<Rightarrow> u32" where
  "AddColumns column_a column_b = (column_a + column_b) mod kColumnPeriod"

definition IncrementColumn1 :: "u32 \<Rightarrow> u32" where
  "IncrementColumn1 column = AddColumns column 1"

definition Int32Hash :: "u32 \<Rightarrow> u32" where
  "Int32Hash key =
     (let key = key + NOT (push_bit 15 key);
          key = key XOR drop_bit 10 key;
          key = key + push_bit 3 key;
          key = key XOR drop_bit 6 key;
          key = key + NOT (push_bit 11 key);
          key = key XOR drop_bit 16 key
      in key)"

definition GetRowOpcode :: "u32 \<Rightarrow> u32 \<Rightarrow> u32" where
  "GetRowOpcode lane row =
     (let kSumMask = push_bit (kColumnSumCount * 2) 1 - 1;
          kZeroValue = push_bit ((kColumnSumCount - 1) * 2) 1;
          opcode = Int32Hash (lane + (row + 3) * kColumnLaneCount) AND kSumMask
      in if opcode = 0 then kZeroValue else opcode)"

section \<open>Windowed minimum and maximum\<close>

record 'a Sample =
  Value :: 'a
  Timestamp :: u64

definition TimeoutExpired :: "'a Sample \<Rightarrow> u64 \<Rightarrow> u64 \<Rightarrow> bool" where
  "TimeoutExpired s now timeout \<longleftrightarrow> now - Timestamp s > timeout"

record 'a WindowedMinMax =
  S0 :: "'a Sample"
  S1 :: "'a Sample"
  S2 :: "'a Sample"

definition IsValid :: "'a::zero WindowedMinMax \<Rightarrow> bool" where
  "IsValid w \<longleftrightarrow> Value (S0 w) \<noteq> 0"

definition GetBest :: "'a WindowedMinMax \<Rightarrow> 'a" where
  "GetBest w = Value (S0 w)"

definition Reset :: "'a Sample \<Rightarrow> 'a WindowedMinMax" where
  "Reset s = \<lparr>S0 = s, S1 = s, S2 = s\<rparr>"

definition WindowedMinCompare :: "'a::linorder \<Rightarrow> 'a \<Rightarrow> bool" where
  "WindowedMinCompare x y \<longleftrightarrow> x \<le> y"

definition WindowedMaxCompare :: "'a::linorder \<Rightarrow> 'a \<Rightarrow> bool" where
  "WindowedMaxCompare x y \<longleftrightarrow> x \<ge> y"

definition insert_sample :: "('a \<Rightarrow> 'a \<Rightarrow> bool) \<Rightarrow> 'a Sample \<Rightarrow> 'a WindowedMinMax \<Rightarrow> 'a WindowedMinMax" where
  "insert_sample Compare sample w =
     (if Compare (Value sample) (Value (S1 w)) then w\<lparr>S1 := sample, S2 := sample\<rparr>
      else if Compare (Value sample) (Value (S2 w)) then w\<lparr>S2 := sample\<rparr>
      else w)"

definition expire_samples :: "'a Sample \<Rightarrow> u64 \<Rightarrow> 'a WindowedMinMax \<Rightarrow> 'a WindowedMinMax" where
  "expire_samples sample windowLengthTime w =
     (if TimeoutExpired (S0 w) (Timestamp sample) windowLengthTime then
        (if TimeoutExpired (S1 w) (Timestamp sample) windowLengthTime
         then \<lparr>S0 = S2 w, S1 = sample, S2 = sample\<rparr>
         else \<lparr>S0 = S1 w, S1 = S2 w, S2 = sample\<rparr>)
      else if Value (S1 w) = Value (S0 w) \<and> TimeoutExpired (S1 w) (Timestamp sample) (windowLengthTime div 4)
      then w\<lparr>S1 := sample, S2 := sample\<rparr>
      else if Value (S2 w) = Value (S1 w) \<and> TimeoutExpired (S2 w) (Timestamp sample) (windowLengthTime div 2)
      then w\<lparr>S2 := sample\<rparr>
      else w)"

definition Update :: "('a::zero \<Rightarrow> 'a \<Rightarrow> bool) \<Rightarrow> 'a \<Rightarrow> u64 \<Rightarrow> u64 \<Rightarrow> 'a WindowedMinMax \<Rightarrow> 'a WindowedMinMax" where
  "Update Compare v timestamp windowLengthTime w =
     (let sample = \<lparr>Value = v, Timestamp = timestamp\<rparr> in
      if \<not> IsValid w \<or> Compare v (Value (S0 w)) \<or> TimeoutExpired (S2 w) timestamp windowLengthTime
      then Reset sample
      else expire_samples sample windowLengthTime (insert_sample Compare sample w))"

text \<open>A run of updates; each carries a value, its time and the window length in force.\<close>

fun updates :: "('a::zero \<Rightarrow> 'a \<Rightarrow> bool) \<Rightarrow> ('a \<times> u64 \<times> u64) list \<Rightarrow> 'a WindowedMinMax \<Rightarrow> 'a WindowedMinMax" where
  "updates Compare [] w = w"
| "updates Compare ((v, t, l) # us) w = updates Compare us (Update Compare v t l w)"

definition sample_of :: "'a \<times> u64 \<times> u64 \<Rightarrow> 'a Sample" where
  "sample_of u = \<lparr>Value = fst u, Timestamp = fst (snd u)\<rparr>"

text \<open>A sample \<open>s\<close> leads a history: the history ends with a run that starts at \<open>s\<close> and in which \<open>s\<close>
  is the best.\<close>

definition leads :: "('a \<Rightarrow> 'a \<Rightarrow> bool) \<Rightarrow> 'a Sample list \<Rightarrow> 'a Sample \<Rightarrow> 'a Sample list \<Rightarrow> bool" where
  "leads Compare hist s h \<longleftrightarrow>
     suffix h hist \<and> h \<noteq> [] \<and> hd h = s \<and> (\<forall>x \<in> set h. Compare (Value s) (Value x))"

definition filter_inv :: "('a \<Rightarrow> 'a \<Rightarrow> bool) \<Rightarrow> 'a Sample list \<Rightarrow> 'a WindowedMinMax \<Rightarrow> bool" where
  "filter_inv Compare hist w \<longleftrightarrow>
     (\<exists>h0 h1 h2. leads Compare hist (S0 w) h0 \<and> leads Compare h0 (S1 w) h1 \<and> leads Compare h1 (S2 w) h2)"

text \<open>The filter relies on a comparison that is total on the values it is given, the ones with \<open>ok\<close>.\<close>

locale windowed_filter =
  fixes Compare :: "'a::zero \<Rightarrow> 'a \<Rightarrow> bool" and ok :: "'a \<Rightarrow> bool"
  assumes compare_total: "ok x \<Longrightarrow> ok y \<Longrightarrow> Compare x y \<or> Compare y x"
begin

lemma compare_refl: "ok x \<Longrightarrow> Compare x x"
  using compare_total by blast

abbreviation values_ok :: "'a Sample list \<Rightarrow> bool" where
  "values_ok hist \<equiv> \<forall>s \<in> set hist. ok (Value s)"

lemma leads_snoc:
  assumes "leads Compare hist s h" and "Compare (Value s) (Value x)"
  shows "leads Compare (hist @ [x]) s (h @ [x])"
  using assms by (auto simp: leads_def)

lemma leads_last: "ok (Value x) \<Longrightarrow> leads Compare (hist @ [x]) x [x]"
  by (simp add: leads_def compare_refl)

lemma leads_ok: "leads Compare hist s h \<Longrightarrow> values_ok hist \<Longrightarrow> ok (Value s) \<and> values_ok h"
  unfolding leads_def by (metis hd_in_set set_mono_suffix subsetD)

lemma leads_trans:
  assumes "leads Compare hist s h" and "leads Compare h s' h'"
  shows "leads Compare hist s' h'"
  using assms by (auto simp: leads_def intro: suffix_order.trans)

lemma leads_mono:
  assumes "leads Compare hist s h" and "leads Compare h s' h'"
  shows "Compare (Value s) (Value s')"
  using assms by (metis hd_in_set leads_def set_mono_suffix subsetD)

lemma not_compare: "\<not> Compare x y \<Longrightarrow> ok x \<Longrightarrow> ok y \<Longrightarrow> Compare y x"
  using compare_total by blast

lemma filter_inv_Reset: "ok (Value s) \<Longrightarrow> filter_inv Compare (hist @ [s]) (Reset s)"
  unfolding filter_inv_def Reset_def using leads_last by (metis WindowedMinMax.select_convs append_Nil)

lemma leads_end:
  assumes "leads Compare (hist @ [x]) s h" and "ok (Value x)"
  shows "leads Compare h x [x]" and "\<exists>h'. h = h' @ [x]"
proof -
  from assms(1) obtain h' where "h = h' @ [x]"
    unfolding leads_def by (metis append_butlast_last_id last_appendR last_snoc suffixE not_Cons_self2)
  then show "leads Compare h x [x]" "\<exists>h'. h = h' @ [x]" using assms(2) by (simp_all add: leads_def compare_refl)
qed

lemma leads_single: "ok (Value x) \<Longrightarrow> leads Compare [x] x [x]"
  by (simp add: leads_def compare_refl)

lemma filter_inv_insert:
  assumes inv: "filter_inv Compare hist w" and new: "\<not> Compare (Value s) (Value (S0 w))"
    and ok: "values_ok hist" "ok (Value s)"
  shows "filter_inv Compare (hist @ [s]) (insert_sample Compare s w)"
proof -
  from inv obtain h0 h1 h2 where h: "leads Compare hist (S0 w) h0" "leads Compare h0 (S1 w) h1"
    "leads Compare h1 (S2 w) h2" unfolding filter_inv_def by blast
  note ok0 = leads_ok [OF h(1) ok(1)]
  note ok1 = leads_ok [OF h(2) conjunct2 [OF ok0]]
  note oks = conjunct1 [OF ok0] conjunct1 [OF ok1] conjunct1 [OF leads_ok [OF h(3) conjunct2 [OF ok1]]]
  have h0: "leads Compare (hist @ [s]) (S0 w) (h0 @ [s])"
    using h(1) not_compare [OF new ok(2) oks(1)] by (rule leads_snoc)
  consider "Compare (Value s) (Value (S1 w))"
    | "\<not> Compare (Value s) (Value (S1 w))" "Compare (Value s) (Value (S2 w))"
    | "\<not> Compare (Value s) (Value (S1 w))" "\<not> Compare (Value s) (Value (S2 w))" by blast
  then show ?thesis
  proof cases
    case 1
    then show ?thesis
      using h0 leads_end [OF h0 ok(2)] leads_single [OF ok(2)]
      by (auto simp: filter_inv_def insert_sample_def)
  next
    case 2
    then have h1: "leads Compare (h0 @ [s]) (S1 w) (h1 @ [s])"
      using h(2) oks ok(2) by (intro leads_snoc not_compare)
    with 2 h0 leads_end [OF h1 ok(2)] show ?thesis by (auto simp: filter_inv_def insert_sample_def)
  next
    case 3
    then have "leads Compare (h0 @ [s]) (S1 w) (h1 @ [s])" "leads Compare (h1 @ [s]) (S2 w) (h2 @ [s])"
      using h(2,3) oks ok(2) by (auto intro: leads_snoc not_compare)
    with 3 h0 show ?thesis by (auto simp: filter_inv_def insert_sample_def)
  qed
qed

lemma filter_inv_expire:
  assumes "filter_inv Compare (hist @ [s]) w" and ok: "ok (Value s)"
  shows "filter_inv Compare (hist @ [s]) (expire_samples s l w)"
proof -
  from assms(1) obtain h0 h1 h2 where h: "leads Compare (hist @ [s]) (S0 w) h0" "leads Compare h0 (S1 w) h1"
    "leads Compare h1 (S2 w) h2" unfolding filter_inv_def by blast
  have t: "leads Compare (hist @ [s]) (S1 w) h1" "leads Compare (hist @ [s]) (S2 w) h2"
    using h by (auto intro: leads_trans)
  note e = leads_end(1) [OF h(1) ok] leads_end(1) [OF t(1) ok] leads_end(1) [OF t(2) ok] leads_single [OF ok]
  show ?thesis using h t e by (auto simp: filter_inv_def expire_samples_def)
qed

lemma filter_inv_Update:
  assumes "filter_inv Compare hist w \<or> \<not> IsValid w" and "values_ok hist" and "ok v"
  shows "filter_inv Compare (hist @ [\<lparr>Value = v, Timestamp = t\<rparr>]) (Update Compare v t l w)"
  using assms filter_inv_Reset filter_inv_expire [OF filter_inv_insert]
  by (auto simp: Update_def Let_def)

lemma Update_fresh: "\<not> TimeoutExpired (S0 (Update Compare v t l w)) t l"
  by (auto simp: Update_def Let_def Reset_def expire_samples_def insert_sample_def TimeoutExpired_def)

lemma filter_inv_updates:
  assumes "filter_inv Compare hist w \<or> \<not> IsValid w" and "us \<noteq> []" and "values_ok hist" and "values_ok (map sample_of us)"
  shows "filter_inv Compare (hist @ map sample_of us) (updates Compare us w)"
  using assms
proof (induction us arbitrary: hist w)
  case (Cons u us)
  obtain v t l where u: "u = (v, t, l)" by (cases u)
  let ?w = "Update Compare v t l w"
  have inv: "filter_inv Compare (hist @ [sample_of u]) ?w"
    using filter_inv_Update [OF Cons.prems(1,3)] Cons.prems(4) by (simp add: u sample_of_def)
  show ?case
  proof (cases "us = []")
    case True
    with inv u show ?thesis by simp
  next
    case False
    with Cons.IH [of "hist @ [sample_of u]" ?w] inv u Cons.prems(3,4) show ?thesis by auto
  qed
qed simp

lemma updates_snoc: "updates Compare (us @ [(v, t, l)]) w = Update Compare v t l (updates Compare us w)"
  by (induction us arbitrary: w) auto

text \<open>The contract of the filter, from any history: the result is the best value of a run of the most
  recent samples, and that run starts inside of the window.\<close>

lemma best_of_recent:
  assumes "\<not> IsValid w" and "\<forall>u \<in> set (us @ [(v, t, l)]). ok (fst u)"
  shows "\<exists>old recent. us @ [(v, t, l)] = old @ recent \<and> recent \<noteq> []
    \<and> GetBest (updates Compare (us @ [(v, t, l)]) w) = fst (hd recent)
    \<and> (\<forall>x \<in> set recent. Compare (fst (hd recent)) (fst x))
    \<and> t - fst (snd (hd recent)) \<le> l"
proof -
  let ?us = "us @ [(v, t, l)]"
  let ?w = "updates Compare ?us w"
  have "filter_inv Compare (map sample_of ?us) ?w"
    using filter_inv_updates [of "[]" w ?us] assms by (auto simp: sample_of_def)
  then obtain h where h: "leads Compare (map sample_of ?us) (S0 ?w) h"
    unfolding filter_inv_def by blast
  then obtain old where "map sample_of ?us = old @ h"
    unfolding leads_def by (auto elim: suffixE)
  then obtain o' r where r: "?us = o' @ r" "h = map sample_of r"
    unfolding map_eq_append_conv by blast
  then have ne: "r \<noteq> []" using h by (auto simp: leads_def)
  then have hd: "S0 ?w = sample_of (hd r)" using h r by (auto simp: leads_def hd_map)
  have "\<forall>x \<in> set r. Compare (fst (hd r)) (fst x)"
    using h r hd by (auto simp: leads_def sample_of_def)
  moreover have "t - Timestamp (S0 ?w) \<le> l"
    using Update_fresh [of v t l "updates Compare us w"] by (simp add: TimeoutExpired_def updates_snoc)
  ultimately show ?thesis
    using r ne hd by (intro exI [of _ o'] exI [of _ r]) (simp add: GetBest_def sample_of_def)
qed

lemma samples_sorted:
  assumes "\<not> IsValid w" and "us \<noteq> []" and "\<forall>u \<in> set us. ok (fst u)"
  shows "Compare (Value (S0 (updates Compare us w))) (Value (S1 (updates Compare us w)))
    \<and> Compare (Value (S1 (updates Compare us w))) (Value (S2 (updates Compare us w)))"
proof -
  have "filter_inv Compare ([] @ map sample_of us) (updates Compare us w)"
    using assms by (intro filter_inv_updates) (simp_all add: sample_of_def)
  then show ?thesis unfolding filter_inv_def by (metis leads_mono leads_trans)
qed

end

interpretation window_min: windowed_filter "WindowedMinCompare :: 'a::{linorder,zero} \<Rightarrow> 'a \<Rightarrow> bool" "\<lambda>_. True"
  by unfold_locales (auto simp: WindowedMinCompare_def)

interpretation window_max: windowed_filter "WindowedMaxCompare :: 'a::{linorder,zero} \<Rightarrow> 'a \<Rightarrow> bool" "\<lambda>_. True"
  by unfold_locales (auto simp: WindowedMaxCompare_def)

section \<open>Column and row parameters\<close>

lemma unat_mod_u32: "unat ((x :: u32) mod y) = unat x mod unat y"
  by (simp add: unat_mod)

lemma unat_SubtractColumns:
  assumes "a < kColumnPeriod" and "b < kColumnPeriod"
  shows "unat (SubtractColumns a b) = (unat a + 0x400000 - unat b) mod 0x400000"
proof -
  have ab: "unat a < 0x400000" "unat b < 0x400000"
    using assms by (simp_all add: kColumnPeriod_def word_less_nat_alt)
  have "unat (a - b) = (unat a + 2 ^ 32 - unat b) mod 2 ^ 32"
  proof (cases "b \<le> a")
    case True
    then have le: "unat b \<le> unat a" by (simp add: word_le_nat_alt)
    have "unat (a - b) = unat a - unat b" using True by (rule unat_sub)
    also have "\<dots> = (unat a - unat b + 2 ^ 32) mod 2 ^ 32" using ab by simp
    also have "unat a - unat b + 2 ^ 32 = unat a + 2 ^ 32 - unat b" using le by simp
    finally show ?thesis .
  next
    case False
    then have "unat a < unat b" by (simp add: word_le_nat_alt)
    then show ?thesis using ab unat_sub_if' [of a b] by (simp add: word_le_nat_alt)
  qed
  then have "unat (SubtractColumns a b) = (unat a + 2 ^ 32 - unat b) mod 2 ^ 32 mod 0x400000"
    by (simp add: SubtractColumns_def kColumnPeriod_def unat_mod)
  also have "\<dots> = (unat a + 2 ^ 32 - unat b) mod 0x400000"
    by (rule mod_mod_cancel) simp
  also have "unat a + 2 ^ 32 - unat b = unat a + 0x400000 - unat b + 0x400000 * 1023"
    using ab by simp
  finally show ?thesis by (simp only: mod_mult_self2)
qed

lemma unat_AddColumns:
  assumes "a < kColumnPeriod" and "b < kColumnPeriod"
  shows "unat (AddColumns a b) = (unat a + unat b) mod 0x400000"
proof -
  have ab: "unat a < 0x400000" "unat b < 0x400000"
    using assms by (simp_all add: kColumnPeriod_def word_less_nat_alt)
  then have "unat (a + b) = unat a + unat b" by (intro unat_add_lem [THEN iffD1]) simp
  then show ?thesis by (simp add: AddColumns_def kColumnPeriod_def unat_mod)
qed

lemma unat_GetColumnValue:
  assumes "column < kColumnPeriod"
  shows "unat (GetColumnValue column) = 3 + (unat column * 199) mod 253"
proof -
  have c: "unat column < 0x400000"
    using assms by (simp add: kColumnPeriod_def word_less_nat_alt)
  then have "unat (column * 199) = unat column * 199"
    using unat_mult_lem [THEN iffD1, of column 199] by simp
  then have m: "unat ((column * 199) mod 253) = (unat column * 199) mod 253"
    by (simp add: unat_mod)
  have "unat (3 + (column * 199) mod 253) = 3 + (unat column * 199) mod 253"
  proof -
    have "(unat column * 199) mod 253 < 253" by simp
    then have "unat (3 :: u32) + unat ((column * 199) mod 253) < 2 ^ LENGTH(32)" unfolding m by simp
    then show ?thesis using unat_add_lem [THEN iffD1, of 3 "(column * 199) mod 253"] m by simp
  qed
  moreover have "(unat column * 199) mod 253 < 253" by simp
  ultimately show ?thesis
    by (simp add: GetColumnValue_def kColumnValuePeriod_def unat_ucast_mod)
qed

lemma times_199_inj:
  assumes "(i * 199) mod 253 = (j * 199) mod (253 :: nat)"
  shows "i mod 253 = j mod 253"
proof -
  have "(i * 199 * 89) mod 253 = (j * 199 * 89) mod 253"
    using assms by (metis mod_mult_left_eq)
  moreover have "k * 199 * 89 = k + 253 * (70 * k)" for k :: nat by simp
  ultimately show ?thesis by (metis mod_mult_self2)
qed

section \<open>Properties\<close>



text \<open>The windowed maximum, the same contract with the other comparison.\<close>

theorem windowed_max_correct:
  fixes us :: "('a::{linorder,zero} \<times> u64 \<times> u64) list"
  assumes "\<not> IsValid w"
  shows "\<exists>old recent. us @ [(v, t, l)] = old @ recent \<and> recent \<noteq> []
    \<and> GetBest (updates WindowedMaxCompare (us @ [(v, t, l)]) w) = Max (fst ` set recent)
    \<and> t - fst (snd (hd recent)) \<le> l"
proof -
  obtain old recent where *: "us @ [(v, t, l)] = old @ recent" "recent \<noteq> []"
    "GetBest (updates WindowedMaxCompare (us @ [(v, t, l)]) w) = fst (hd recent)"
    "\<forall>x \<in> set recent. WindowedMaxCompare (fst (hd recent)) (fst x)"
    "t - fst (snd (hd recent)) \<le> l"
    using window_max.best_of_recent [OF assms, of us v t l] by auto
  then have "Max (fst ` set recent) = fst (hd recent)"
    by (intro Max_eqI) (auto simp: WindowedMaxCompare_def)
  with * show ?thesis by metis
qed

theorem windowed_max_correct_witness:
  "\<exists>old recent. [(5 :: nat, 10 :: u64, 100 :: u64), (3, 20, 100), (7, 130, 100)] = old @ recent \<and> recent \<noteq> []
    \<and> GetBest (updates WindowedMaxCompare [(5 :: nat, 10, 100), (3, 20, 100), (7, 130, 100)]
        (Reset \<lparr>Value = 0, Timestamp = 0\<rparr>)) = Max (fst ` set recent)
    \<and> 130 - fst (snd (hd recent)) \<le> 100"
  using windowed_max_correct [of "Reset \<lparr>Value = 0 :: nat, Timestamp = 0\<rparr>"
      "[(5, 10, 100), (3, 20, 100)]" 7 130 100]
  by (simp add: IsValid_def Reset_def)

text \<open>The column multipliers of the code.  Two columns get the same multiplier exactly when
  they are congruent modulo the period 253, so every window of 253 consecutive columns uses 253
  different multipliers, all of them in 3..255.\<close>

lemma GetColumnValue_period:
  assumes "i < kColumnPeriod" and "j < kColumnPeriod"
  shows "(GetColumnValue i = GetColumnValue j \<longleftrightarrow> unat i mod 253 = unat j mod 253)
    \<and> 3 \<le> GetColumnValue i"
proof -
  have "GetColumnValue i = GetColumnValue j
      \<longleftrightarrow> unat (GetColumnValue i) = unat (GetColumnValue j)" by (rule word_unat_eq_iff)
  also have "\<dots> \<longleftrightarrow> (unat i * 199) mod 253 = (unat j * 199) mod 253"
    by (simp add: unat_GetColumnValue [OF assms(1)] unat_GetColumnValue [OF assms(2)])
  also have "\<dots> \<longleftrightarrow> unat i mod 253 = unat j mod 253"
    using times_199_inj by (metis mod_mult_left_eq)
  finally show ?thesis
    by (simp add: word_le_nat_alt unat_GetColumnValue [OF assms(1)])
qed

text \<open>Column arithmetic wraps around consistently.  Adding a delta to a column and
  subtracting the column again gives the delta back, and the delta is classified as negative exactly
  when it moves backwards by at most half of the period.\<close>

theorem column_delta_roundtrip:
  assumes "c < kColumnPeriod" and "d < kColumnPeriod"
  shows "SubtractColumns (AddColumns c d) c = d
    \<and> (IsColumnDeltaNegative d \<longleftrightarrow> 0x400000 - unat d \<le> 0x200000)"
proof -
  have cd: "unat c < 0x400000" "unat d < 0x400000"
    using assms by (simp_all add: kColumnPeriod_def word_less_nat_alt)
  have "AddColumns c d < kColumnPeriod"
    unfolding word_less_nat_alt unat_AddColumns [OF assms] by (simp add: kColumnPeriod_def)
  then have "unat (SubtractColumns (AddColumns c d) c)
      = ((unat c + unat d) mod 0x400000 + 0x400000 - unat c) mod 0x400000"
    by (simp add: unat_SubtractColumns assms unat_AddColumns)
  also have "\<dots> = unat d"
  proof (cases "unat c + unat d < 0x400000")
    case True
    then show ?thesis using cd by simp
  next
    case False
    then have "(unat c + unat d) mod 0x400000 = unat c + unat d - 0x400000"
      using cd by (simp add: mod_if)
    then show ?thesis using cd False by simp
  qed
  finally have "SubtractColumns (AddColumns c d) c = d" by (simp only: word_unat_eq_iff)
  moreover have "unat (kColumnPeriod div 2) = 0x200000" by (simp add: kColumnPeriod_def unat_div)
  then have "IsColumnDeltaNegative d \<longleftrightarrow> 0x400000 - unat d \<le> 0x200000"
    unfolding IsColumnDeltaNegative_def word_le_nat_alt using cd by auto
  ultimately show ?thesis by blast
qed

theorem column_delta_roundtrip_witness:
  "SubtractColumns (AddColumns 0x3ffffe 5) 0x3ffffe = 5
    \<and> (IsColumnDeltaNegative 5 \<longleftrightarrow> 0x400000 - unat (5 :: u32) \<le> 0x200000)"
  using column_delta_roundtrip [of "0x3ffffe" 5] by (simp add: kColumnPeriod_def)

end
