(* ===== verification/Protocol.thy ===== *)
theory Protocol
  imports Serializers Siamese_Common
begin

text \<open>
  The Tonk wire protocol of \<open>TonkineseProtocol.h\<close> and \<open>TonkineseProtocol.cpp\<close>: message frame headers,
  the flags byte and the optional footer fields of a datagram, the handshake records, the small
  datagrams generated outside of a connection, the port selection of the NAT traversal protocol, and
  the peer-to-peer connect parameters.

  Footer fields use the byte-wise (\<open>GF256_ALIGNED_ACCESSES\<close>) variant of the code.  An address of the
  asio library is represented by the byte array it is converted to and from.
\<close>

unbundle bit_operations_syntax

section \<open>Encoding constants\<close>

definition kTimestampBytes :: nat where "kTimestampBytes = 3"
definition kSequenceNumberBytes :: nat where "kSequenceNumberBytes = 3"
definition kHandshakeBytes :: nat where "kHandshakeBytes = 12"
definition kNonceBytes :: nat where "kNonceBytes = 3"
definition kFlagsBytes :: nat where "kFlagsBytes = 1"
definition kEncryptionTagBytes :: nat where "kEncryptionTagBytes = 2"
definition kUntaggedDatagramBytes :: nat where "kUntaggedDatagramBytes = 3 + 1 + 2"

definition kMaxOverheadBytes :: nat where
  "kMaxOverheadBytes = kTimestampBytes + kSequenceNumberBytes + kHandshakeBytes
     + kNonceBytes + kFlagsBytes + kEncryptionTagBytes"

lemmas byte_count_defs = kTimestampBytes_def kSequenceNumberBytes_def kHandshakeBytes_def
  kNonceBytes_def kFlagsBytes_def kEncryptionTagBytes_def kUntaggedDatagramBytes_def

definition TimestampFlagTagInt :: "u32 \<Rightarrow> u8 \<Rightarrow> u32" where
  "TimestampFlagTagInt timestamp24 flags = push_bit 8 timestamp24 OR ucast flags"

definition kMessageLengthBits :: nat where "kMessageLengthBits = 11"

definition WriteMessageFrameHeader :: "bytes \<Rightarrow> nat \<Rightarrow> u32 \<Rightarrow> u32 \<Rightarrow> bytes option" where
  "WriteMessageFrameHeader b o' messageType messageBytes =
     (let headerWord = push_bit kMessageLengthBits messageType OR messageBytes
      in WriteU16_LE b o' (ucast headerWord))"

section \<open>Flags byte and footer fields\<close>

definition kConnectionMask :: u8 where "kConnectionMask = 0x80"
definition kHandshakeMask :: u8 where "kHandshakeMask = 0x40"
definition kSeqCompMask :: u8 where "kSeqCompMask = 0x20"
definition kOnlyFECMask :: u8 where "kOnlyFECMask = 0x10"
definition kEncryptionNonceMask :: u8 where "kEncryptionNonceMask = 0x0c"
definition kSequenceNumberMask :: u8 where "kSequenceNumberMask = 3"

lemmas flag_mask_defs = kConnectionMask_def kHandshakeMask_def kSeqCompMask_def kOnlyFECMask_def
  kEncryptionNonceMask_def kSequenceNumberMask_def

definition IsConnectionDatagram :: "u8 \<Rightarrow> bool" where
  "IsConnectionDatagram f \<longleftrightarrow> f AND kConnectionMask \<noteq> 0"

definition GetUnconnectedType :: "u8 \<Rightarrow> u8" where
  "GetUnconnectedType f = f AND 127"

definition IsOnlyFEC :: "u8 \<Rightarrow> bool" where
  "IsOnlyFEC f \<longleftrightarrow> f AND kOnlyFECMask \<noteq> 0"

definition ShouldCompressSequenceNumbers :: "u8 \<Rightarrow> bool" where
  "ShouldCompressSequenceNumbers f \<longleftrightarrow> f AND kSeqCompMask \<noteq> 0"

definition SequenceNumberBytes :: "u8 \<Rightarrow> nat" where
  "SequenceNumberBytes f = unat (f AND kSequenceNumberMask)"

definition EncryptionNonceBytes :: "u8 \<Rightarrow> nat" where
  "EncryptionNonceBytes f = unat (drop_bit 2 (f AND kEncryptionNonceMask))"

definition HandshakeBytes :: "u8 \<Rightarrow> nat" where
  "HandshakeBytes f = (if f AND kHandshakeMask \<noteq> 0 then kHandshakeBytes else 0)"

definition ConnectedFooterBytes :: "u8 \<Rightarrow> nat" where
  "ConnectedFooterBytes f = kEncryptionTagBytes + kFlagsBytes + kTimestampBytes
     + HandshakeBytes f + EncryptionNonceBytes f + SequenceNumberBytes f"

definition ReadFooterField :: "bytes \<Rightarrow> nat \<Rightarrow> nat \<Rightarrow> u32 option" where
  "ReadFooterField b e n =
     (let msk = NOT (push_bit (n * 8) 0xffffffff); o' = e - n in do {
        d2 \<leftarrow> rd8 b (o' + 2); d1 \<leftarrow> rd8 b (o' + 1); d0 \<leftarrow> rd8 b o';
        Some ((push_bit 16 (ucast d2) OR push_bit 8 (ucast d1) OR ucast d0) AND msk) })"

definition WriteFooterField :: "bytes \<Rightarrow> nat \<Rightarrow> u32 \<Rightarrow> bytes option" where
  "WriteFooterField b o' field = do {
     b \<leftarrow> wr8 b o' (ucast field);
     b \<leftarrow> wr8 b (o' + 1) (byte_at 8 field);
     wr8 b (o' + 2) (byte_at 16 field) }"

text \<open>The length check on a received datagram.\<close>

definition DatagramIsTruncated :: "bytes \<Rightarrow> bool option" where
  "DatagramIsTruncated data =
     (if length data < kEncryptionTagBytes + kFlagsBytes then Some True
      else do {
        flags \<leftarrow> rd8 data (length data - kFlagsBytes - kEncryptionTagBytes);
        Some (IsConnectionDatagram flags \<and> length data < ConnectedFooterBytes flags) })"

section \<open>Handshakes\<close>

definition kMagicC2SConnectionRequest :: u32 where "kMagicC2SConnectionRequest = 0x6b6e6f54"
definition kMagicS2CCookieResponse :: u32 where "kMagicS2CCookieResponse = 0x546f6e6b"
definition kMagicP2PConnectionRequest :: u32 where "kMagicP2PConnectionRequest = 0x50325054"

datatype HandshakeType =
    NotHandshake | C2SConnectionRequest | S2CCookieResponse | Disconnect
  | S2CUnknownSourceAddress | C2SUpdateSourceAddress | Peer2PeerConnect
  | C2SDiscovery | S2CDiscovery

fun HandshakeType_code :: "HandshakeType \<Rightarrow> u32" where
  "HandshakeType_code NotHandshake = 0"
| "HandshakeType_code C2SConnectionRequest = 1"
| "HandshakeType_code S2CCookieResponse = 2"
| "HandshakeType_code Disconnect = 3"
| "HandshakeType_code S2CUnknownSourceAddress = 4"
| "HandshakeType_code C2SUpdateSourceAddress = 5"
| "HandshakeType_code Peer2PeerConnect = 6"
| "HandshakeType_code C2SDiscovery = 7"
| "HandshakeType_code S2CDiscovery = 8"

definition WriteC2SConnectionRequest :: "bytes \<Rightarrow> nat \<Rightarrow> u64 \<Rightarrow> bytes option" where
  "WriteC2SConnectionRequest b o' key = do {
     b \<leftarrow> WriteU32_LE b o' kMagicC2SConnectionRequest; WriteU64_LE b (o' + 4) key }"

definition WriteS2CCookieResponse :: "bytes \<Rightarrow> nat \<Rightarrow> u64 \<Rightarrow> bytes option" where
  "WriteS2CCookieResponse b o' cookie = do {
     b \<leftarrow> WriteU32_LE b o' kMagicS2CCookieResponse; WriteU64_LE b (o' + 4) cookie }"

definition WriteP2PConnectionRequest :: "bytes \<Rightarrow> nat \<Rightarrow> u64 \<Rightarrow> bytes option" where
  "WriteP2PConnectionRequest b o' key = do {
     b \<leftarrow> WriteU32_LE b o' kMagicP2PConnectionRequest; WriteU64_LE b (o' + 4) key }"

definition WriteDisconnect :: "bytes \<Rightarrow> nat \<Rightarrow> u64 \<Rightarrow> bytes option" where
  "WriteDisconnect b o' key = do {
     b \<leftarrow> WriteU32_LE b o' (HandshakeType_code Disconnect); WriteU64_LE b (o' + 4) key }"

definition WriteS2CUnknownSourceAddress :: "bytes \<Rightarrow> nat \<Rightarrow> bytes option" where
  "WriteS2CUnknownSourceAddress b o' = do {
     b \<leftarrow> WriteU32_LE b o' (HandshakeType_code S2CUnknownSourceAddress); WriteU64_LE b (o' + 4) 0 }"

definition WriteC2SUpdateSourceAddress :: "bytes \<Rightarrow> nat \<Rightarrow> u64 \<Rightarrow> u32 \<Rightarrow> bytes option" where
  "WriteC2SUpdateSourceAddress b o' key ident = do {
     b \<leftarrow> WriteU32_LE b o' (push_bit 8 ident OR HandshakeType_code C2SUpdateSourceAddress);
     WriteU64_LE b (o' + 4) key }"

definition GetType :: "bytes \<Rightarrow> nat \<Rightarrow> HandshakeType option" where
  "GetType b o' = do {
     t \<leftarrow> ReadU32_LE b o';
     Some (if t = kMagicC2SConnectionRequest then C2SConnectionRequest
       else if t = kMagicS2CCookieResponse then S2CCookieResponse
       else if t = kMagicP2PConnectionRequest then Peer2PeerConnect
       else if t = HandshakeType_code Disconnect then Disconnect
       else if t = HandshakeType_code S2CUnknownSourceAddress then S2CUnknownSourceAddress
       else if ucast (ucast t :: u8) = HandshakeType_code C2SUpdateSourceAddress
       then C2SUpdateSourceAddress
       else NotHandshake) }"

definition GetKey :: "bytes \<Rightarrow> nat \<Rightarrow> u64 option" where
  "GetKey b o' = ReadU64_LE b (o' + 4)"

definition GetConnectionId :: "bytes \<Rightarrow> nat \<Rightarrow> u32 option" where
  "GetConnectionId b o' = ReadU24_LE_Min4Bytes b (o' + 1)"

section \<open>Packet generators\<close>

definition kDisconnectBytes :: nat where
  "kDisconnectBytes = kTimestampBytes + kHandshakeBytes + kFlagsBytes + kEncryptionTagBytes"

definition generator_flags :: u8 where
  "generator_flags = kHandshakeMask OR kConnectionMask OR kSeqCompMask"

definition GenerateDisconnect :: "u64 \<Rightarrow> bytes \<Rightarrow> bytes option" where
  "GenerateDisconnect key datagram = do {
     b \<leftarrow> WriteU24_LE datagram 0 0;
     b \<leftarrow> WriteDisconnect b kTimestampBytes key;
     b \<leftarrow> wr8 b (kTimestampBytes + kHandshakeBytes) generator_flags;
     WriteU16_LE b (kTimestampBytes + kHandshakeBytes + 1) 0 }"

definition GenerateS2CCookieResponse :: "u64 \<Rightarrow> bytes \<Rightarrow> bytes option" where
  "GenerateS2CCookieResponse cookie datagram = do {
     b \<leftarrow> WriteU24_LE datagram 0 0;
     b \<leftarrow> WriteS2CCookieResponse b kTimestampBytes cookie;
     b \<leftarrow> wr8 b (kTimestampBytes + kHandshakeBytes) generator_flags;
     WriteU16_LE b (kTimestampBytes + kHandshakeBytes + 1) 0 }"

definition GenerateS2CUnknownSource :: "bytes \<Rightarrow> bytes option" where
  "GenerateS2CUnknownSource datagram = do {
     b \<leftarrow> WriteU24_LE datagram 0 0;
     b \<leftarrow> WriteS2CUnknownSourceAddress b kTimestampBytes;
     b \<leftarrow> wr8 b (kTimestampBytes + kHandshakeBytes) generator_flags;
     WriteU16_LE b (kTimestampBytes + kHandshakeBytes + 1) 0 }"

text \<open>Where \<open>Connection::OnUnauthenticatedHandshake\<close> looks for the handshake of a datagram, and what it
  finds there.  \<open>None\<close> is its early return on a short datagram.\<close>

definition handshake_offset :: "bytes \<Rightarrow> nat option" where
  "handshake_offset data =
     (let kHandshakeRightOffset = kUntaggedDatagramBytes + kHandshakeBytes in
      if length data < kHandshakeRightOffset then None
      else Some (length data - kHandshakeRightOffset))"

section \<open>NAT traversal\<close>

definition kNATRound1Exact_PortCount :: u32 where "kNATRound1Exact_PortCount = 16"
definition kNATFuzzyPortRange :: u32 where "kNATFuzzyPortRange = 128"

definition CalculateExactNATPort :: "u16 \<Rightarrow> u32 \<Rightarrow> u16" where
  "CalculateExactNATPort externalPort portIndex =
     (if portIndex \<ge> kNATRound1Exact_PortCount then 0
      else if externalPort < 1024 then 0
      else let kBelowHalf = kNATRound1Exact_PortCount div 2;
               port = (if portIndex < kBelowHalf then ucast externalPort - kBelowHalf + portIndex
                       else ucast externalPort + portIndex - kBelowHalf + 1) :: u32
           in if port < 1024 \<or> port > 65535 then 0 else ucast port)"

definition CalculateFuzzyNATPort :: "u16 \<Rightarrow> PCGRandom \<Rightarrow> u16 \<times> PCGRandom" where
  "CalculateFuzzyNATPort externalPort portPrng =
     (let (r, portPrng) = Next portPrng;
          port = uint externalPort - uint kNATFuzzyPortRange;
          port = port + uint (r mod (kNATFuzzyPortRange * 2));
          port = (if port \<le> 0 then port + uint kNATFuzzyPortRange
                  else if port \<ge> 65536 then port - uint kNATFuzzyPortRange
                  else port)
      in (word_of_int port, portPrng))"

definition CalculateRandomNATPort :: "PCGRandom \<Rightarrow> u16 \<times> PCGRandom" where
  "CalculateRandomNATPort portPrng =
     (let (r, portPrng) = Next portPrng
      in (ucast (1024 + (r mod (65536 - 1024))), portPrng))"

section \<open>Peer-to-peer connect parameters\<close>

text \<open>An address is the array \<open>to_bytes\<close> returns: four bytes for IPv4, sixteen for IPv6.\<close>

datatype ip_address = V4 bytes | V6 bytes

record UDPAddress =
  address :: ip_address
  port :: u16

fun address_ok :: "ip_address \<Rightarrow> bool" where
  "address_ok (V4 b) = (length b = 4)"
| "address_ok (V6 b) = (length b = 16)"

fun is_v6 :: "ip_address \<Rightarrow> bool" where
  "is_v6 (V4 _) = False"
| "is_v6 (V6 _) = True"

record P2PConnectParams =
  WinTies :: bool
  EncryptionKey :: u64
  ProtocolRoundIntervalMsec :: u16
  ShotTS16 :: u16
  SelfExternalPort :: u16
  PeerNATMappedPort :: u16
  PeerExternalAddress :: UDPAddress

definition kMinBytes :: nat where "kMinBytes = 1 + 8 + 2 + 2 + 2 + 2 + 4"
definition kMaxBytes :: nat where "kMaxBytes = 1 + 8 + 2 + 2 + 2 + 2 + 16"

definition kWinTiesBit :: u8 where "kWinTiesBit = 1"
definition kAddressV6Bit :: u8 where "kAddressV6Bit = 2"
definition kHasPeerNATBit :: u8 where "kHasPeerNATBit = 4"

definition p2p_flags :: "P2PConnectParams \<Rightarrow> u8" where
  "p2p_flags p =
     (let flags = 0;
          flags = (if WinTies p then flags OR kWinTiesBit else flags);
          flags = (if is_v6 (address (PeerExternalAddress p)) then flags OR kAddressV6Bit else flags);
          flags = (if PeerNATMappedPort p \<noteq> 0 then flags OR kHasPeerNATBit else flags)
      in flags)"

definition P2PConnectParams_Write :: "P2PConnectParams \<Rightarrow> WriteByteStream \<Rightarrow> (bool \<times> WriteByteStream) option" where
  "P2PConnectParams_Write p s =
     (if write_Remaining s < kMaxBytes then Some (False, s)
      else do {
        s \<leftarrow> Write8 (p2p_flags p) s;
        s \<leftarrow> Write64 (EncryptionKey p) s;
        s \<leftarrow> Write16 (ProtocolRoundIntervalMsec p) s;
        s \<leftarrow> Write16 (ShotTS16 p) s;
        s \<leftarrow> Write16 (SelfExternalPort p) s;
        s \<leftarrow> (if PeerNATMappedPort p \<noteq> 0 then Write16 (PeerNATMappedPort p) s else Some s);
        s \<leftarrow> Write16 (port (PeerExternalAddress p)) s;
        s \<leftarrow> (case address (PeerExternalAddress p) of
                V4 addrData \<Rightarrow> WriteBuffer addrData s
              | V6 addrData \<Rightarrow> WriteBuffer addrData s);
        Some (True, s) })"

text \<open>The address bytes are read through the pointer that \<open>Read\<close> returns.\<close>

definition read_address :: "nat \<Rightarrow> ReadByteStream \<Rightarrow> (bytes \<times> ReadByteStream) option" where
  "read_address n s =
     (let (ptr, s') = Read n s in
      if ptr + n \<le> length (RData s) then Some (slice (RData s) ptr n, s') else None)"

definition P2PConnectParams_Read :: "P2PConnectParams \<Rightarrow> ReadByteStream
    \<Rightarrow> (bool \<times> P2PConnectParams \<times> ReadByteStream) option" where
  "P2PConnectParams_Read p s =
     (if read_Remaining s < kMinBytes then Some (False, p, s)
      else do {
        (flags, s) \<leftarrow> Read8 s;
        let p = p\<lparr>WinTies := (flags AND kWinTiesBit \<noteq> 0)\<rparr>;
        (v, s) \<leftarrow> Read64 s;
        let p = p\<lparr>EncryptionKey := v\<rparr>;
        (v, s) \<leftarrow> Read16 s;
        let p = p\<lparr>ProtocolRoundIntervalMsec := v\<rparr>;
        (v, s) \<leftarrow> Read16 s;
        let p = p\<lparr>ShotTS16 := v\<rparr>;
        (v, s) \<leftarrow> Read16 s;
        let p = p\<lparr>SelfExternalPort := v\<rparr>;
        (v, s) \<leftarrow> (if flags AND kHasPeerNATBit \<noteq> 0 then Read16 s else Some (0, s));
        let p = p\<lparr>PeerNATMappedPort := v\<rparr>;
        (prt, s) \<leftarrow> Read16 s;
        (if flags AND kAddressV6Bit \<noteq> 0 then
           (if read_Remaining s < kMaxBytes then Some (False, p, s)
            else do {
              (a, s) \<leftarrow> read_address 16 s;
              Some (True, p\<lparr>PeerExternalAddress := \<lparr>address = V6 a, port = prt\<rparr>\<rparr>, s) })
         else do {
           (a, s) \<leftarrow> read_address 4 s;
           Some (True, p\<lparr>PeerExternalAddress := \<lparr>address = V4 a, port = prt\<rparr>\<rparr>, s) }) })"

definition GetOutgoingProbeKey :: "P2PConnectParams \<Rightarrow> u32" where
  "GetOutgoingProbeKey p =
     (if WinTies p then ucast (drop_bit 32 (EncryptionKey p)) else ucast (EncryptionKey p))"

definition GetExpectedIncomingProbeKey :: "P2PConnectParams \<Rightarrow> u32" where
  "GetExpectedIncomingProbeKey p =
     (if WinTies p then ucast (EncryptionKey p) else ucast (drop_bit 32 (EncryptionKey p)))"

definition GetOutgoingHandshakeKey :: "P2PConnectParams \<Rightarrow> u64" where
  "GetOutgoingHandshakeKey p =
     (if WinTies p
      then push_bit 32 (EncryptionKey p) OR ucast (ucast (drop_bit 32 (EncryptionKey p)) :: u32)
      else EncryptionKey p)"

definition GetExpectedIncomingHandshakeKey :: "P2PConnectParams \<Rightarrow> u64" where
  "GetExpectedIncomingHandshakeKey p =
     (if WinTies p then EncryptionKey p
      else push_bit 32 (EncryptionKey p) OR ucast (ucast (drop_bit 32 (EncryptionKey p)) :: u32))"

definition GetPcgDomain :: "P2PConnectParams \<Rightarrow> u64" where
  "GetPcgDomain p = (if WinTies p then 0xbaadbeef else 0xdeadd00d)"

section \<open>Handshake records\<close>

lemma le_bytes_0 [simp]: "le_bytes n (0 :: 'a::len word) = replicate n 0"
  by (simp add: le_bytes_def map_replicate_const)

text \<open>Every handshake is a 32-bit tag followed by a 64-bit key.\<close>

definition handshake_wire :: "u32 \<Rightarrow> u64 \<Rightarrow> bytes" where
  "handshake_wire tag key = le_bytes 4 tag @ le_bytes 8 key"

lemma length_handshake_wire [simp]: "length (handshake_wire tag key) = 12"
  by (simp add: handshake_wire_def)

lemma write_handshake:
  assumes "off + 12 \<le> length b"
  shows "do { b \<leftarrow> WriteU32_LE b off tag; WriteU64_LE b (off + 4) key }
    = Some (overwrite b off (handshake_wire tag key))"
  using assms by (simp add: mem_simps handshake_wire_def)

lemma handshake_writers:
  assumes "off + 12 \<le> length b"
  shows "WriteC2SConnectionRequest b off key = Some (overwrite b off (handshake_wire kMagicC2SConnectionRequest key))"
    "WriteS2CCookieResponse b off key = Some (overwrite b off (handshake_wire kMagicS2CCookieResponse key))"
    "WriteP2PConnectionRequest b off key = Some (overwrite b off (handshake_wire kMagicP2PConnectionRequest key))"
    "WriteDisconnect b off key = Some (overwrite b off (handshake_wire 3 key))"
    "WriteS2CUnknownSourceAddress b off = Some (overwrite b off (handshake_wire 4 0))"
    "WriteC2SUpdateSourceAddress b off key ident
      = Some (overwrite b off (handshake_wire (push_bit 8 ident OR 5) key))"
  unfolding WriteC2SConnectionRequest_def WriteS2CCookieResponse_def WriteP2PConnectionRequest_def
    WriteDisconnect_def WriteS2CUnknownSourceAddress_def WriteC2SUpdateSourceAddress_def
    HandshakeType_code.simps
  using write_handshake [OF assms] by blast+

lemma read_handshake:
  assumes "off + 12 \<le> length b" and "slice b off 12 = handshake_wire tag key"
  shows "ReadU32_LE b off = Some tag" and "GetKey b off = Some key"
proof -
  have s: "slice b off (4 + 8) = le_bytes 4 tag @ le_bytes 8 key"
    using assms(2) by (simp add: handshake_wire_def)
  show "ReadU32_LE b off = Some tag"
    using slice_prefix(1) [OF s] assms(1) by (intro ReadU32_LE_eq) simp_all
  show "GetKey b off = Some key"
    unfolding GetKey_def using slice_prefix(2) [OF s] assms(1) by (intro ReadU64_LE_eq) simp_all
qed

definition type_of_tag :: "u32 \<Rightarrow> HandshakeType" where
  "type_of_tag t =
     (if t = kMagicC2SConnectionRequest then C2SConnectionRequest
      else if t = kMagicS2CCookieResponse then S2CCookieResponse
      else if t = kMagicP2PConnectionRequest then Peer2PeerConnect
      else if t = 3 then Disconnect
      else if t = 4 then S2CUnknownSourceAddress
      else if ucast (ucast t :: u8) = (5 :: u32) then C2SUpdateSourceAddress
      else NotHandshake)"

lemma GetType_eq: "ReadU32_LE b off = Some t \<Longrightarrow> GetType b off = Some (type_of_tag t)"
  by (simp add: GetType_def type_of_tag_def)

lemma type_of_known_tags [simp]:
  "type_of_tag kMagicC2SConnectionRequest = C2SConnectionRequest"
  "type_of_tag kMagicS2CCookieResponse = S2CCookieResponse"
  "type_of_tag kMagicP2PConnectionRequest = Peer2PeerConnect"
  "type_of_tag 3 = Disconnect" "type_of_tag 4 = S2CUnknownSourceAddress"
  by (simp_all add: type_of_tag_def kMagicC2SConnectionRequest_def kMagicS2CCookieResponse_def
      kMagicP2PConnectionRequest_def)

lemma ucast_update_tag: "(ucast (push_bit 8 ident OR 5 :: u32) :: u8) = 5"
  by (rule bit_word_eqI) (auto simp: bit_simps)

lemma type_of_update_tag [simp]: "type_of_tag (push_bit 8 ident OR 5) = C2SUpdateSourceAddress"
proof -
  have neq: "push_bit 8 ident OR 5 \<noteq> t" if "(ucast t :: u8) \<noteq> 5" for t :: u32
    using that ucast_update_tag by metis
  show ?thesis
    unfolding type_of_tag_def ucast_update_tag
    by (simp add: neq kMagicC2SConnectionRequest_def kMagicS2CCookieResponse_def
        kMagicP2PConnectionRequest_def)
qed

text \<open>The connection id sits in the three bytes after the type byte.\<close>

lemma GetConnectionId_eq:
  assumes "off + 12 \<le> length b" and "slice b off 12 = handshake_wire (push_bit 8 ident OR 5) key"
    and "ident < 0x1000000"
  shows "GetConnectionId b off = Some ident"
proof -
  have s: "slice b off (4 + 8) = le_bytes 4 (push_bit 8 ident OR 5) @ le_bytes 8 key"
    using assms(2) by (simp add: handshake_wire_def)
  have bytes: "b ! (off + i) = byte_at (8 * i) (push_bit 8 ident OR 5)" if "i < 4" for i
    using slice_prefix(1) [OF s] assms(1) that nth_slice [of off 4 b i] by simp
  have v: "unat ident < 2 ^ 24" using assms(3) by (simp add: word_less_nat_alt)
  have id5: "bit (5::int) n \<longleftrightarrow> n = 0 \<or> n = 2" for n
  proof -
    have eq: "(5::int) = push_bit 2 1 OR 1" by simp
    show ?thesis unfolding eq bit_or_iff bit_push_bit_iff bit_1_iff by auto
  qed
  have "slice b (off + 1) 3 = le_bytes 3 ident"
  proof (rule nth_equalityI)
    fix i assume "i < length (slice b (off + 1) 3)"
    then have i: "i < 3" using assms(1) by simp
    have "slice b (off + 1) 3 ! i = byte_at (8 * Suc i) (push_bit 8 ident OR 5)"
      using bytes [of "Suc i"] nth_slice [of "off + 1" 3 b i] i assms(1) by simp
    also have "\<dots> = byte_at (8 * i) ident"
      using i by (intro bit_word_eqI) (auto simp: bit_byte_at bit_simps id5 add.commute)
    finally show "slice b (off + 1) 3 ! i = le_bytes 3 ident ! i" using i by simp
  qed (use assms(1) in simp)
  then show ?thesis
    unfolding GetConnectionId_def ReadU24_LE_Min4Bytes_def
    using assms(1) v by (intro ReadU24_LE_eq) simp_all
qed

lemma DatagramIsTruncated_safe: "DatagramIsTruncated data \<noteq> None"
  by (auto simp: DatagramIsTruncated_def byte_count_defs rd8_def)

section \<open>Generated datagrams\<close>

lemma overwrite_all: "length xs = length b \<Longrightarrow> overwrite b 0 xs = xs"
  by (simp add: overwrite_def)

lemma generated_datagram:
  assumes "length buf = kDisconnectBytes"
  shows "do { b \<leftarrow> WriteU24_LE buf 0 0;
              b \<leftarrow> Some (overwrite b kTimestampBytes (handshake_wire tag key));
              b \<leftarrow> wr8 b (kTimestampBytes + kHandshakeBytes) generator_flags;
              WriteU16_LE b (kTimestampBytes + kHandshakeBytes + 1) 0 }
    = Some ([0, 0, 0] @ handshake_wire tag key @ [generator_flags, 0, 0])"
  using assms
  by (simp add: kDisconnectBytes_def byte_count_defs mem_simps overwrite_all numeral_2_eq_2 numeral_3_eq_3)

lemma type_of_shifted_tag: "type_of_tag (push_bit 24 (ucast (x :: u8))) = NotHandshake"
proof -
  have "(ucast (push_bit 24 (ucast x) :: u32) :: u8) = 0"
    by (rule bit_word_eqI) (auto simp: bit_simps)
  then have low: "push_bit 24 (ucast x) \<noteq> t" if "(ucast t :: u8) \<noteq> 0" for t :: u32
    using that by metis
  show ?thesis
    unfolding type_of_tag_def \<open>ucast (push_bit 24 (ucast x)) = 0\<close>
    by (simp add: low kMagicC2SConnectionRequest_def kMagicS2CCookieResponse_def
        kMagicP2PConnectionRequest_def)
qed

lemma generated_not_recognised:
  defines "d tag key \<equiv> [0, 0, 0] @ handshake_wire tag key @ [generator_flags, 0, 0]"
  shows "DatagramIsTruncated (d tag key) = Some False \<and> handshake_offset (d tag key) = Some 0
    \<and> GetType (d tag key) 0 = Some NotHandshake"
proof -
  have len: "length (d tag key) = 18" by (simp add: d_def)
  have d: "d tag key ! 0 = 0" "d tag key ! 1 = 0" "d tag key ! 2 = 0" "d tag key ! 15 = generator_flags"
    by (simp_all add: d_def nth_append)
  have "ReadU32_LE (d tag key) 0 = Some (push_bit 24 (ucast (d tag key ! 3)))"
    using d by (simp add: ReadU32_LE_def rd8_in len numeral_2_eq_2)
  then have "GetType (d tag key) 0 = Some NotHandshake"
    using type_of_shifted_tag by (simp add: GetType_eq)
  moreover have "DatagramIsTruncated (d tag key) = Some False"
    using d by (simp add: DatagramIsTruncated_def len byte_count_defs rd8_in generator_flags_def
        flag_mask_defs ConnectedFooterBytes_def HandshakeBytes_def EncryptionNonceBytes_def
        SequenceNumberBytes_def)
  moreover have "handshake_offset (d tag key) = Some 0"
    by (simp add: handshake_offset_def len byte_count_defs)
  ultimately show ?thesis by blast
qed

section \<open>NAT ports\<close>

lemma unat_ExactNATPort:
  assumes "i < 16"
  shows "unat (CalculateExactNATPort e i) =
    (if unat e < 1024 then 0
     else let p = (if unat i < 8 then unat e - 8 + unat i else unat e + unat i - 7)
          in if p < 1024 \<or> 65535 < p then 0 else p)"
proof (cases "unat e < 1024")
  case True
  then show ?thesis
    by (simp add: CalculateExactNATPort_def word_less_nat_alt)
next
  case False
  have i: "unat i < 16" using assms by (simp add: word_less_nat_alt)
  have e: "unat e < 65536" using unat_bound [of e] by simp
  have ue: "unat (ucast e :: u32) = unat e" by (rule unat_ucast_up) simp
  have 1: "unat (ucast e - 8 + i :: u32) = unat e - 8 + unat i"
  proof -
    have "unat (ucast e - 8 :: u32) = unat e - 8"
      using False ue unat_sub [of 8 "ucast e :: u32"] by (simp add: word_le_nat_alt)
    then show ?thesis using unat_add_lem [THEN iffD1, of "ucast e - 8" i] e i by simp
  qed
  have 2: "unat (ucast e + i - 8 + 1 :: u32) = unat e + unat i - 7"
  proof -
    have s: "unat (ucast e + i :: u32) = unat e + unat i"
      using unat_add_lem [THEN iffD1, of "ucast e" i] ue e i by simp
    then have "unat (ucast e + i - 8 :: u32) = unat e + unat i - 8"
      using False unat_sub [of 8 "ucast e + i :: u32"] by (simp add: word_le_nat_alt)
    then show ?thesis using unat_add_lem [THEN iffD1, of "ucast e + i - 8" 1] False e i by simp
  qed
  then have 3: "unat (ucast e + i - 7 :: u32) = unat e + unat i - 7" by simp
  have "\<not> 16 \<le> i" using assms by simp
  then show ?thesis
    using False i e
    by (auto simp: CalculateExactNATPort_def kNATRound1Exact_PortCount_def Let_def word_less_nat_alt
        1 3 unat_ucast_mod not_less unat_div)
qed

section \<open>Peer-to-peer connect parameters on a stream\<close>

definition p2p_fields :: "P2PConnectParams \<Rightarrow> stream_field list" where
  "p2p_fields p =
     [F8 (p2p_flags p), F64 (EncryptionKey p), F16 (ProtocolRoundIntervalMsec p), F16 (ShotTS16 p),
      F16 (SelfExternalPort p)]
     @ (if PeerNATMappedPort p \<noteq> 0 then [F16 (PeerNATMappedPort p)] else [])
     @ [F16 (port (PeerExternalAddress p))]"

fun address_bytes :: "ip_address \<Rightarrow> bytes" where
  "address_bytes (V4 a) = a"
| "address_bytes (V6 a) = a"

definition p2p_wire :: "P2PConnectParams \<Rightarrow> bytes" where
  "p2p_wire p = concat (map field_wire (p2p_fields p)) @ address_bytes (address (PeerExternalAddress p))"

lemma length_p2p_wire:
  assumes "address_ok (address (PeerExternalAddress p))"
  shows "length (p2p_wire p) = 17 + (if PeerNATMappedPort p \<noteq> 0 then 2 else 0)
    + (if is_v6 (address (PeerExternalAddress p)) then 16 else 4)"
  using assms by (cases "address (PeerExternalAddress p)") (auto simp: p2p_wire_def p2p_fields_def)

lemma P2PConnectParams_Write_fields:
  "P2PConnectParams_Write p s =
     (if write_Remaining s < kMaxBytes then Some (False, s)
      else do { s \<leftarrow> write_fields (p2p_fields p) s;
                s \<leftarrow> WriteBuffer (address_bytes (address (PeerExternalAddress p))) s;
                Some (True, s) })"
  by (cases "address (PeerExternalAddress p)")
    (simp_all add: P2PConnectParams_Write_def p2p_fields_def bind_assoc)

lemma P2PConnectParams_Write_wire:
  assumes "kMaxBytes \<le> write_Remaining s" and "WrittenBytes s + length (p2p_wire p) \<le> length (Data s)"
  shows "P2PConnectParams_Write p s = Some (True, s\<lparr>
      Data := overwrite (Data s) (WrittenBytes s) (p2p_wire p),
      WrittenBytes := WrittenBytes s + length (p2p_wire p)\<rparr>)"
  using assms
  by (simp add: P2PConnectParams_Write_fields write_fields_eq p2p_wire_def WriteBuffer_def
      overwrite_append add.assoc not_less)

lemma p2p_flag_bits:
  "p2p_flags p AND kWinTiesBit \<noteq> 0 \<longleftrightarrow> WinTies p"
  "p2p_flags p AND kAddressV6Bit \<noteq> 0 \<longleftrightarrow> is_v6 (address (PeerExternalAddress p))"
  "p2p_flags p AND kHasPeerNATBit \<noteq> 0 \<longleftrightarrow> PeerNATMappedPort p \<noteq> 0"
  by (simp_all add: p2p_flags_def kWinTiesBit_def kAddressV6Bit_def kHasPeerNATBit_def Let_def)

text \<open>Reading the fixed part of a message that was written: every field comes back and the stream stands
  at the address.\<close>

lemma p2p_read_fields:
  assumes "BytesRead s + length (p2p_wire p) \<le> length (RData s)"
    and "slice (RData s) (BytesRead s) (length (p2p_wire p)) = p2p_wire p"
  shows "read_fields (p2p_fields p) s
      = Some (p2p_fields p, read_Skip (length (concat (map field_wire (p2p_fields p)))) s)"
    and "slice (RData s) (BytesRead s + length (concat (map field_wire (p2p_fields p))))
      (length (address_bytes (address (PeerExternalAddress p))))
      = address_bytes (address (PeerExternalAddress p))"
proof -
  let ?f = "concat (map field_wire (p2p_fields p))" and ?a = "address_bytes (address (PeerExternalAddress p))"
  have s: "slice (RData s) (BytesRead s) (length ?f + length ?a) = ?f @ ?a"
    using assms(2) by (simp add: p2p_wire_def)
  have l: "BytesRead s + (length ?f + length ?a) \<le> length (RData s)"
    using assms(1) by (simp add: p2p_wire_def)
  have "list_all field_ok (p2p_fields p)" by (simp add: p2p_fields_def)
  then show "read_fields (p2p_fields p) s = Some (p2p_fields p, read_Skip (length ?f) s)"
    using slice_prefix(1) [OF s _ l] l by (intro read_fields_eq) simp_all
  show "slice (RData s) (BytesRead s + length ?f) (length ?a) = ?a"
    using slice_prefix(2) [OF s _ l] by simp
qed

lemma P2PConnectParams_Read_fields:
  assumes "kMinBytes \<le> read_Remaining s" and "read_fields (p2p_fields p) s = Some (p2p_fields p, r)"
  shows "P2PConnectParams_Read q s =
    (let p' = p\<lparr>PeerExternalAddress := PeerExternalAddress q\<rparr>; prt = port (PeerExternalAddress p) in
     if is_v6 (address (PeerExternalAddress p)) then
       (if read_Remaining r < kMaxBytes then Some (False, p', r)
        else do { (a, s) \<leftarrow> read_address 16 r;
                  Some (True, p'\<lparr>PeerExternalAddress := \<lparr>address = V6 a, port = prt\<rparr>\<rparr>, s) })
     else do { (a, s) \<leftarrow> read_address 4 r;
               Some (True, p'\<lparr>PeerExternalAddress := \<lparr>address = V4 a, port = prt\<rparr>\<rparr>, s) })"
proof -
  have all: "q\<lparr>WinTies := WinTies p, EncryptionKey := EncryptionKey p,
      ProtocolRoundIntervalMsec := ProtocolRoundIntervalMsec p, ShotTS16 := ShotTS16 p,
      SelfExternalPort := SelfExternalPort p, PeerNATMappedPort := PeerNATMappedPort p\<rparr>
    = p\<lparr>PeerExternalAddress := PeerExternalAddress q\<rparr>"
    by (cases p; cases q) simp
  have all_addr: "q\<lparr>WinTies := WinTies p, EncryptionKey := EncryptionKey p,
      ProtocolRoundIntervalMsec := ProtocolRoundIntervalMsec p, ShotTS16 := ShotTS16 p,
      SelfExternalPort := SelfExternalPort p, PeerNATMappedPort := PeerNATMappedPort p,
      PeerExternalAddress := x\<rparr> = p\<lparr>PeerExternalAddress := x\<rparr>" for x
    by (cases p; cases q) simp
  show ?thesis
  proof (cases "PeerNATMappedPort p = 0")
    case True
    with assms obtain s1 s2 s3 s4 s5 where "Read8 s = Some (p2p_flags p, s1)"
      "Read64 s1 = Some (EncryptionKey p, s2)" "Read16 s2 = Some (ProtocolRoundIntervalMsec p, s3)"
      "Read16 s3 = Some (ShotTS16 p, s4)" "Read16 s4 = Some (SelfExternalPort p, s5)"
      "Read16 s5 = Some (port (PeerExternalAddress p), r)"
      by (auto simp: p2p_fields_def bind_eq_Some_conv)
    then show ?thesis
      using True assms(1) p2p_flag_bits [of p]
      by (simp add: P2PConnectParams_Read_def Let_def not_less all [unfolded True] all_addr [unfolded True])
  next
    case False
    with assms obtain s1 s2 s3 s4 s5 s6 where "Read8 s = Some (p2p_flags p, s1)"
      "Read64 s1 = Some (EncryptionKey p, s2)" "Read16 s2 = Some (ProtocolRoundIntervalMsec p, s3)"
      "Read16 s3 = Some (ShotTS16 p, s4)" "Read16 s4 = Some (SelfExternalPort p, s5)"
      "Read16 s5 = Some (PeerNATMappedPort p, s6)"
      "Read16 s6 = Some (port (PeerExternalAddress p), r)"
      by (auto simp: p2p_fields_def bind_eq_Some_conv)
    then show ?thesis
      using False assms(1) p2p_flag_bits [of p]
      by (simp add: P2PConnectParams_Read_def Let_def not_less all all_addr)
  qed
qed

section \<open>Properties\<close>

text \<open>Property C35: handshake records.  Each writer fills exactly its twelve bytes, and the receiver's
  \<open>GetType\<close>, \<open>GetKey\<close> and \<open>GetConnectionId\<close> recover the type, the key and the connection id.\<close>

theorem handshake_roundtrip:
  assumes "off + 12 \<le> length b" and "ident < 0x1000000"
  shows "(\<exists>d. WriteC2SConnectionRequest b off key = Some d \<and> GetType d off = Some C2SConnectionRequest
        \<and> GetKey d off = Some key \<and> take off d = take off b \<and> drop (off + 12) d = drop (off + 12) b)
    \<and> (\<exists>d. WriteS2CCookieResponse b off key = Some d \<and> GetType d off = Some S2CCookieResponse
        \<and> GetKey d off = Some key)
    \<and> (\<exists>d. WriteP2PConnectionRequest b off key = Some d \<and> GetType d off = Some Peer2PeerConnect
        \<and> GetKey d off = Some key)
    \<and> (\<exists>d. WriteDisconnect b off key = Some d \<and> GetType d off = Some Disconnect
        \<and> GetKey d off = Some key)
    \<and> (\<exists>d. WriteS2CUnknownSourceAddress b off = Some d \<and> GetType d off = Some S2CUnknownSourceAddress)
    \<and> (\<exists>d. WriteC2SUpdateSourceAddress b off key ident = Some d
        \<and> GetType d off = Some C2SUpdateSourceAddress
        \<and> GetKey d off = Some key \<and> GetConnectionId d off = Some ident)"
proof -
  have len: "off + 12 \<le> length (overwrite b off (handshake_wire t k))" for t k
    using assms(1) by simp
  have s: "slice (overwrite b off (handshake_wire t k)) off 12 = handshake_wire t k" for t k
    using slice_overwrite [of off "handshake_wire t k" b] assms(1) by simp
  note r = read_handshake [OF len s] GetType_eq [OF read_handshake(1) [OF len s]]
    GetConnectionId_eq [OF len s assms(2)]
  show ?thesis
    using assms(1) r by (auto simp: handshake_writers overwrite_def)
qed

theorem handshake_roundtrip_witness:
  "\<exists>d. WriteC2SUpdateSourceAddress (replicate 20 7) 5 0x1122334455667788 0xabcdef = Some d
    \<and> GetType d 5 = Some C2SUpdateSourceAddress \<and> GetKey d 5 = Some 0x1122334455667788
    \<and> GetConnectionId d 5 = Some 0xabcdef"
  using handshake_roundtrip [of 5 "replicate 20 7" "0xabcdef" "0x1122334455667788"] by simp

text \<open>Property C36: the datagrams generated outside of a connection are not understood by their receiver.
  The generators write the timestamp in front of the handshake, while the receiver expects it
  behind, so for every key the disconnect, cookie and unknown-source datagrams pass the length
  check and are then classified as \<open>NotHandshake\<close> and ignored.\<close>

theorem generated_datagrams_not_recognised:
  assumes "length buf = kDisconnectBytes"
  shows "(\<exists>d. GenerateDisconnect key buf = Some d \<and> DatagramIsTruncated d = Some False
        \<and> handshake_offset d = Some 0 \<and> GetType d 0 = Some NotHandshake)
    \<and> (\<exists>d. GenerateS2CCookieResponse key buf = Some d \<and> DatagramIsTruncated d = Some False
        \<and> handshake_offset d = Some 0 \<and> GetType d 0 = Some NotHandshake)
    \<and> (\<exists>d. GenerateS2CUnknownSource buf = Some d \<and> DatagramIsTruncated d = Some False
        \<and> handshake_offset d = Some 0 \<and> GetType d 0 = Some NotHandshake)"
proof -
  have w: "kTimestampBytes + 12 \<le> length (overwrite buf 0 (le_bytes 3 (0 :: u32)))"
    "0 + 3 \<le> length buf"
    using assms by (simp_all add: kDisconnectBytes_def byte_count_defs)
  show ?thesis
    unfolding GenerateDisconnect_def GenerateS2CCookieResponse_def GenerateS2CUnknownSource_def
    using w generated_datagram [OF assms] generated_not_recognised
    by (simp add: WriteU24_LE_eq handshake_writers)
qed

theorem generated_datagrams_not_recognised_witness:
  "\<exists>d. GenerateDisconnect 0x1122334455667788 (replicate 18 0xcc) = Some d
    \<and> DatagramIsTruncated d = Some False
    \<and> handshake_offset d = Some 0 \<and> GetType d 0 = Some NotHandshake"
  using generated_datagrams_not_recognised [of "replicate 18 0xcc" "0x1122334455667788"]
  by (simp add: kDisconnectBytes_def byte_count_defs)

text \<open>The ports tried in the exact round.  The sixteen candidates that are not skipped (0) are
  unprivileged ports next to the visible external port, different from it, and no port is tried
  twice.\<close>

theorem exact_NAT_ports:
  assumes "i < 16" and "j < 16" and "CalculateExactNATPort e i \<noteq> 0"
  shows "1024 \<le> unat (CalculateExactNATPort e i)
    \<and> CalculateExactNATPort e i \<noteq> e
    \<and> \<bar>uint (CalculateExactNATPort e i) - uint e\<bar> \<le> 8
    \<and> (CalculateExactNATPort e i = CalculateExactNATPort e j \<longleftrightarrow> i = j)"
proof -
  let ?P = "CalculateExactNATPort"
  define p where "p k = (if k < 8 then unat e - 8 + k else unat e + k - 7)" for k
  have ij: "unat i < 16" "unat j < 16" using assms(1,2) by (simp_all add: word_less_nat_alt)
  have "unat (?P e i) \<noteq> 0" using assms(3) by (simp add: unat_eq_0)
  then have e: "1024 \<le> unat e" and pi: "unat (?P e i) = p (unat i)" "1024 \<le> p (unat i)"
    using unat_ExactNATPort [OF assms(1), of e] by (auto simp: p_def Let_def split: if_splits)
  have pj: "unat (?P e j) = p (unat j) \<or> unat (?P e j) = 0"
    using unat_ExactNATPort [OF assms(2), of e] by (auto simp: p_def Let_def split: if_splits)
  have inj: "p a = p b \<longleftrightarrow> a = b" for a b using e by (auto simp: p_def)
  have near: "k < 16 \<Longrightarrow> p k \<noteq> unat e \<and> \<bar>int (p k) - int (unat e)\<bar> \<le> 8" for k
    using e by (auto simp: p_def)
  have "?P e i \<noteq> e" "\<bar>uint (?P e i) - uint e\<bar> \<le> 8"
    unfolding uint_nat pi(1) using near [OF ij(1)] pi(1) by (auto simp only:)
  moreover have "?P e i = ?P e j \<longleftrightarrow> i = j"
    using pi pj inj [of "unat i" "unat j"] by (metis word_unat_eq_iff not_numeral_le_zero)
  ultimately show ?thesis using pi by simp
qed

theorem exact_NAT_ports_witness:
  "1024 \<le> unat (CalculateExactNATPort 5000 3) \<and> CalculateExactNATPort 5000 3 \<noteq> 5000
    \<and> \<bar>uint (CalculateExactNATPort 5000 3) - uint (5000 :: u16)\<bar> \<le> 8
    \<and> (CalculateExactNATPort 5000 3 = CalculateExactNATPort 5000 12 \<longleftrightarrow> (3 :: u32) = 12)"
  using exact_NAT_ports [of 3 12 5000]
  by (simp add: CalculateExactNATPort_def kNATRound1Exact_PortCount_def)

text \<open>The randomised rounds always choose a port that can be used: the fuzzy choice is
  never 0 and stays near the external port, the random choice is never a service port.\<close>

theorem random_NAT_ports:
  assumes "e \<noteq> 0"
  shows "fst (CalculateFuzzyNATPort e g) \<noteq> 0
    \<and> \<bar>uint (fst (CalculateFuzzyNATPort e g)) - uint e\<bar> \<le> 128
    \<and> 1024 \<le> unat (fst (CalculateRandomNATPort g))"
proof -
  obtain r g' where n: "Next g = (r, g')" by fastforce
  have e: "0 < uint e" "uint e < 65536"
    using assms uint_lt2p [of e] uint_0_iff [of e] uint_ge_0 [of e] by (linarith, simp)
  define q where "q = uint (r mod 256)"
  have q: "0 \<le> q" "q < 256"
    using word_mod_less_divisor [of 256 r] by (simp_all add: q_def word_less_def)
  define p where "p = (let x = uint e - 128 + q in
    if x \<le> 0 then x + 128 else if x \<ge> 65536 then x - 128 else x)"
  have p: "0 < p" "p < 65536" "\<bar>p - uint e\<bar> \<le> 128" using e q by (auto simp: p_def Let_def)
  have fz: "fst (CalculateFuzzyNATPort e g) = word_of_int p"
    by (simp add: CalculateFuzzyNATPort_def n p_def q_def kNATFuzzyPortRange_def Let_def)
  have up: "uint (word_of_int p :: u16) = p" using p by (simp add: uint_word_of_int)
  have "unat (r mod 64512) < 64512"
    using word_mod_less_divisor [of 64512 r] by (simp add: word_less_nat_alt)
  then have "unat (1024 + r mod 64512) = 1024 + unat (r mod 64512)"
    using unat_add_lem [THEN iffD1, of 1024 "r mod 64512"] by simp
  then have "1024 \<le> unat (fst (CalculateRandomNATPort g))"
    using \<open>unat (r mod 64512) < 64512\<close>
    by (simp add: CalculateRandomNATPort_def n unat_ucast_mod)
  moreover have "fst (CalculateFuzzyNATPort e g) \<noteq> 0" using up p(1) fz by auto
  ultimately show ?thesis using up p(3) fz by simp
qed

theorem random_NAT_ports_witness:
  "fst (CalculateFuzzyNATPort 65500 (Seed 1 2)) \<noteq> 0
    \<and> \<bar>uint (fst (CalculateFuzzyNATPort 65500 (Seed 1 2))) - uint (65500 :: u16)\<bar> \<le> 128
    \<and> 1024 \<le> unat (fst (CalculateRandomNATPort (Seed 1 2)))"
  using random_NAT_ports [of 65500 "Seed 1 2"] by simp

text \<open>The two peers of a hole punch agree on the keys.  When the rendezvous server gives both
  the same encryption key and opposite tie-breaker roles, each side expects exactly the probe key
  and the handshake key the other one sends, and the low half of a handshake key is the probe key
  under which the receiver looks the connection up.\<close>

lemma p2p_keys_agree:
  assumes "EncryptionKey alice = EncryptionKey bob" and "WinTies alice = (\<not> WinTies bob)"
  shows "GetOutgoingProbeKey alice = GetExpectedIncomingProbeKey bob
    \<and> GetOutgoingHandshakeKey alice = GetExpectedIncomingHandshakeKey bob
    \<and> ucast (GetOutgoingHandshakeKey alice) = GetExpectedIncomingProbeKey bob"
proof -
  have low: "(ucast (push_bit 32 k OR ucast (ucast (drop_bit 32 k) :: u32) :: u64) :: u32)
      = ucast (drop_bit 32 k)" for k :: u64
    by (rule bit_word_eqI) (auto simp: bit_simps)
  show ?thesis
    using assms low
    by (auto simp: GetOutgoingProbeKey_def GetExpectedIncomingProbeKey_def
        GetOutgoingHandshakeKey_def GetExpectedIncomingHandshakeKey_def)
qed

definition p2p_example :: "bool \<Rightarrow> P2PConnectParams" where
  "p2p_example w = \<lparr>WinTies = w, EncryptionKey = 0x1122334455667788, ProtocolRoundIntervalMsec = 300,
     ShotTS16 = 0xbeef, SelfExternalPort = 5000, PeerNATMappedPort = 6000,
     PeerExternalAddress = \<lparr>address = V4 [192, 168, 0, 7], port = 7000\<rparr>\<rparr>"

text \<open>Connect parameters with an IPv4 address survive the control channel: what the
  rendezvous server writes into a buffer with the required room is read back by the client.\<close>

lemma p2p_params_roundtrip_v4:
  assumes "address (PeerExternalAddress p) = V4 a" and "length a = 4"
    and "WrittenBytes s + kMaxBytes \<le> BufferBytes s" and "BufferBytes s \<le> length (Data s)"
  shows "\<exists>s'. P2PConnectParams_Write p s = Some (True, s')
    \<and> WrittenBytes s' \<le> BufferBytes s'
    \<and> (\<exists>r. P2PConnectParams_Read q \<lparr>RData = Data s', RBufferBytes = WrittenBytes s', BytesRead = WrittenBytes s\<rparr>
        = Some (True, p, r) \<and> BytesRead r = WrittenBytes s')"
proof -
  let ?b = "overwrite (Data s) (WrittenBytes s) (p2p_wire p)"
  let ?n = "WrittenBytes s + length (p2p_wire p)"
  let ?r = "\<lparr>RData = ?b, RBufferBytes = ?n, BytesRead = WrittenBytes s\<rparr>"
  have len: "length (p2p_wire p) = 21 + (if PeerNATMappedPort p \<noteq> 0 then 2 else 0)"
    using length_p2p_wire [of p] assms(1,2) by simp
  have fits: "?n \<le> length (Data s)" "kMaxBytes \<le> write_Remaining s"
    using assms(3,4) len by (auto simp: kMaxBytes_def write_Remaining_def split: if_splits)
  have w: "P2PConnectParams_Write p s = Some (True, s\<lparr>Data := ?b, WrittenBytes := ?n\<rparr>)"
    using fits by (intro P2PConnectParams_Write_wire)
  have rd: "BytesRead ?r + length (p2p_wire p) \<le> length (RData ?r)"
    "slice (RData ?r) (BytesRead ?r) (length (p2p_wire p)) = p2p_wire p"
    using fits by simp_all
  note fields = p2p_read_fields [OF rd]
  let ?k = "length (concat (map field_wire (p2p_fields p)))"
  have k: "length (p2p_wire p) = ?k + 4" using assms(1,2) by (simp add: p2p_wire_def)
  have "read_address 4 (read_Skip ?k ?r) = Some (a, read_Skip 4 (read_Skip ?k ?r))"
    using fields(2) assms(1,2) fits(1) k
    by (simp add: read_address_def Read_def read_Skip_def add.assoc)
  moreover have "p\<lparr>PeerExternalAddress := \<lparr>address = V4 a, port = port (PeerExternalAddress p)\<rparr>\<rparr> = p"
    using assms(1) by simp
  ultimately have "P2PConnectParams_Read q ?r = Some (True, p, read_Skip 4 (read_Skip ?k ?r))"
    using P2PConnectParams_Read_fields [OF _ fields(1), of q] assms(1) len
    by (simp add: kMinBytes_def read_Remaining_def)
  then show ?thesis
    using w k fits(2) assms(3) len by (auto simp: read_Skip_def kMaxBytes_def write_Remaining_def split: if_splits)
qed

text \<open>Property C40: connect parameters with an IPv6 address are never accepted.  The reader compares the
  bytes that remain after the port with the size of a whole message, so a message exactly as the
  server wrote it is rejected.\<close>

theorem p2p_params_v6_rejected:
  assumes "address (PeerExternalAddress p) = V6 a" and "length a = 16"
  shows "\<exists>r. P2PConnectParams_Read q \<lparr>RData = p2p_wire p, RBufferBytes = length (p2p_wire p), BytesRead = 0\<rparr>
    = Some (False, p\<lparr>PeerExternalAddress := PeerExternalAddress q\<rparr>, r)"
proof -
  let ?r = "\<lparr>RData = p2p_wire p, RBufferBytes = length (p2p_wire p), BytesRead = 0\<rparr>"
  have "read_fields (p2p_fields p) ?r
      = Some (p2p_fields p, read_Skip (length (concat (map field_wire (p2p_fields p)))) ?r)"
    by (rule p2p_read_fields) (simp_all add: slice_def)
  then show ?thesis
    using P2PConnectParams_Read_fields [of ?r p] length_p2p_wire [of p] assms
    by (simp add: kMinBytes_def kMaxBytes_def read_Remaining_def read_Skip_def p2p_wire_def)
qed

theorem p2p_params_v6_rejected_witness:
  "\<exists>r. P2PConnectParams_Read (p2p_example False)
      \<lparr>RData = p2p_wire ((p2p_example True)\<lparr>PeerExternalAddress := \<lparr>address = V6 (replicate 16 1), port = 9\<rparr>\<rparr>),
       RBufferBytes = length (p2p_wire ((p2p_example True)\<lparr>PeerExternalAddress
           := \<lparr>address = V6 (replicate 16 1), port = 9\<rparr>\<rparr>)), BytesRead = 0\<rparr>
    = Some (False, (p2p_example True)\<lparr>PeerExternalAddress := PeerExternalAddress (p2p_example False)\<rparr>, r)"
  using p2p_params_v6_rejected [of "(p2p_example True)\<lparr>PeerExternalAddress
      := \<lparr>address = V6 (replicate 16 1), port = 9\<rparr>\<rparr>" "replicate 16 1" "p2p_example False"]
  by simp

text \<open>The writer can run over its buffer.  For an IPv6 peer with a mapped NAT port the message
  has 35 bytes, but the room check only asks for 33, the size of the buffer the connection passes:
  the access after the last byte is out of bounds.\<close>

theorem p2p_params_write_overrun:
  assumes "address (PeerExternalAddress p) = V6 a" and "length a = 16" and "PeerNATMappedPort p \<noteq> 0"
    and "length buf = kMaxBytes"
  shows "length (p2p_wire p) = kMaxBytes + 2
    \<and> P2PConnectParams_Write p (WriteByteStream_init buf 33) = None"
proof -
  let ?s = "WriteByteStream_init buf 33"
  have k: "length (concat (map field_wire (p2p_fields p))) = 19"
    using assms(3) by (simp add: p2p_fields_def)
  have "write_fields (p2p_fields p) ?s = Some (?s\<lparr>
      Data := overwrite buf 0 (concat (map field_wire (p2p_fields p))), WrittenBytes := 19\<rparr>)"
    using write_fields_eq [of ?s "p2p_fields p"] k assms(4)
    by (simp add: WriteByteStream_init_def kMaxBytes_def)
  then show ?thesis
    using assms k length_p2p_wire [of p]
    by (simp add: P2PConnectParams_Write_fields WriteBuffer_def WriteByteStream_init_def kMaxBytes_def
        write_Remaining_def)
qed

theorem p2p_params_write_overrun_witness:
  "length (p2p_wire ((p2p_example True)\<lparr>PeerExternalAddress := \<lparr>address = V6 (replicate 16 1), port = 9\<rparr>\<rparr>))
      = kMaxBytes + 2
    \<and> P2PConnectParams_Write
      ((p2p_example True)\<lparr>PeerExternalAddress := \<lparr>address = V6 (replicate 16 1), port = 9\<rparr>\<rparr>)
      (WriteByteStream_init (replicate 33 0) 33) = None"
  by (rule p2p_params_write_overrun [of _ "replicate 16 1"]) (simp_all add: p2p_example_def kMaxBytes_def)

end
