(* ===== verification/Simple_Cipher.thy ===== *)
theory Simple_Cipher
  imports Serializers
begin

text \<open>
  The datagram cipher and tag of \<open>SimpleCipher.cpp\<close>, in the portable variant (without SIMD, byte-wise
  accesses).  The little-endian accessors the file repeats are the ones of theory \<open>Serializers\<close>.

  The hash \<open>t1ha\<close> is third-party code and a parameter of \<open>Tag\<close>.

  The main result is a refinement: enciphering a range of a buffer adds (by exclusive or) a
  key stream that depends on the session key, the sequence number and the position only.
\<close>

unbundle bit_operations_syntax

section \<open>Partial words\<close>

definition TailReadLE32 :: "bytes \<Rightarrow> nat \<Rightarrow> nat \<Rightarrow> u32 option" where
  "TailReadLE32 b o' n =
     (if n = 4 then ReadU32_LE b o'
      else if n = 3 then do { d2 \<leftarrow> rd8 b (o' + 2); v \<leftarrow> ReadU16_LE b o'; Some (push_bit 16 (ucast d2) + ucast v) }
      else if n = 2 then do { v \<leftarrow> ReadU16_LE b o'; Some (ucast v) }
      else if n = 1 then do { d0 \<leftarrow> rd8 b o'; Some (ucast d0) }
      else Some 0)"

definition TailReadLE64 :: "bytes \<Rightarrow> nat \<Rightarrow> nat \<Rightarrow> u64 option" where
  "TailReadLE64 b o' n =
     (if n \<le> 4 then do { v \<leftarrow> TailReadLE32 b o' n; Some (ucast v) }
      else if n = 5 \<or> n = 6 \<or> n = 7 then do {
        r \<leftarrow> (if n = 7 then do { d6 \<leftarrow> rd8 b (o' + 6); Some (push_bit 8 (ucast d6)) } else Some 0);
        r \<leftarrow> (if n \<ge> 6 then do { d5 \<leftarrow> rd8 b (o' + 5); Some (push_bit 8 (r + ucast d5)) } else Some r);
        d4 \<leftarrow> rd8 b (o' + 4);
        v \<leftarrow> ReadU32_LE b o';
        Some (push_bit 32 (r + ucast d4) + ucast v) }
      else ReadU64_LE b o')"

definition TailWriteLE32 :: "u32 \<Rightarrow> bytes \<Rightarrow> nat \<Rightarrow> nat \<Rightarrow> bytes option" where
  "TailWriteLE32 v b o' n =
     (if n = 4 then WriteU32_LE b o' v
      else if n = 3 then do { b \<leftarrow> wr8 b (o' + 2) (byte_at 16 v); WriteU16_LE b o' (ucast v) }
      else if n = 2 then WriteU16_LE b o' (ucast v)
      else if n = 1 then wr8 b o' (ucast v)
      else Some b)"

definition TailWriteLE64 :: "u64 \<Rightarrow> bytes \<Rightarrow> nat \<Rightarrow> nat \<Rightarrow> bytes option" where
  "TailWriteLE64 v b o' n =
     (if n \<le> 4 then TailWriteLE32 (ucast v) b o' n
      else if n = 8 then WriteU64_LE b o' v
      else do {
        b \<leftarrow> (if n = 7 then wr8 b (o' + 6) (byte_at 48 v) else Some b);
        b \<leftarrow> (if n = 7 \<or> n = 6 then wr8 b (o' + 5) (byte_at 40 v) else Some b);
        b \<leftarrow> (if n = 7 \<or> n = 6 \<or> n = 5 then wr8 b (o' + 4) (byte_at 32 v) else Some b);
        WriteU32_LE b o' (ucast v) })"

section \<open>Key schedule\<close>

record SimpleCipher =
  ExpandedKey :: "u32 list"

definition MultiplyAndFold19 :: "u32 \<Rightarrow> u32 \<Rightarrow> u32" where
  "MultiplyAndFold19 a b =
     (let p = (ucast a :: u64) * ucast b in ucast p XOR ucast (drop_bit 19 p))"

definition Initialize :: "u64 \<Rightarrow> SimpleCipher" where
  "Initialize encryptionKey =
     (let q0 = 0xe7988061; q1 = 0xbd9fa5c7;
          e0 = ucast encryptionKey; e1 = ucast (drop_bit 32 encryptionKey)
      in \<lparr>ExpandedKey = [e0, e1, MultiplyAndFold19 q0 e0, MultiplyAndFold19 q1 e1]\<rparr>)"

definition cipher_adder :: "u64 \<Rightarrow> u32 list" where
  "cipher_adder sequence =
     (let p0 = 0x905c4577; p1 = 0xb84c88cb; p2 = 0xde0efbf1; p3 = 0x9f614c3d; p4 = 0xf3f77d13;
          x0 = 0x80771ab1; x1 = 0x55f2cc88;
          n0 = ucast sequence + x0;
          n1 = MultiplyAndFold19 (ucast (drop_bit 32 sequence) + x1) p4
      in [MultiplyAndFold19 p0 n0 + n1, MultiplyAndFold19 p1 n0 + n1,
          MultiplyAndFold19 p2 n0 + n1, MultiplyAndFold19 p3 n0 + n1])"

section \<open>Cipher\<close>

definition xor_word :: "bytes \<Rightarrow> nat \<Rightarrow> u32 \<Rightarrow> bytes option" where
  "xor_word b o' x = do { v \<leftarrow> ReadU32_LE b o'; WriteU32_LE b o' (v XOR x) }"

text \<open>The inner loop over the four words of a 16-byte block, the loop over the blocks, and the loop over
  the remaining whole words.\<close>

function cipher_block :: "u32 list \<Rightarrow> u32 list \<Rightarrow> bytes \<Rightarrow> nat \<Rightarrow> nat \<Rightarrow> (u32 list \<times> bytes) option" where
  "cipher_block a k b o' i =
     (if i < 4 then
        (let k = k[i := k ! i + a ! i] in do {
           b \<leftarrow> xor_word b (o' + i * 4) (k ! i);
           cipher_block a k b o' (i + 1) })
      else Some (k, b))"
  by pat_completeness auto
termination by (relation "measure (\<lambda>(a, k, b, o', i). 4 - i)") auto

function cipher_blocks :: "u32 list \<Rightarrow> u32 list \<Rightarrow> bytes \<Rightarrow> nat \<Rightarrow> nat \<Rightarrow> (u32 list \<times> bytes \<times> nat \<times> nat) option" where
  "cipher_blocks a k b o' n =
     (if n \<ge> 16 then do {
        (k, b) \<leftarrow> cipher_block a k b o' 0;
        cipher_blocks a k b (o' + 16) (n - 16) }
      else Some (k, b, o', n))"
  by pat_completeness auto
termination by (relation "measure (\<lambda>(a, k, b, o', n). n)") auto

function cipher_words :: "u32 list \<Rightarrow> u32 list \<Rightarrow> bytes \<Rightarrow> nat \<Rightarrow> nat \<Rightarrow> nat
    \<Rightarrow> (u32 list \<times> bytes \<times> nat \<times> nat \<times> nat) option" where
  "cipher_words a k b o' n i =
     (if n \<ge> 4 then
        (let j = i mod 4; k = k[j := k ! j + a ! j] in do {
           b \<leftarrow> xor_word b o' (k ! j);
           cipher_words a k b (o' + 4) (n - 4) (i + 1) })
      else Some (k, b, o', n, i))"
  by pat_completeness auto
termination by (relation "measure (\<lambda>(a, k, b, o', n, i). n)") auto

declare cipher_block.simps [simp del] cipher_blocks.simps [simp del] cipher_words.simps [simp del]

definition Cipher :: "SimpleCipher \<Rightarrow> bytes \<Rightarrow> nat \<Rightarrow> nat \<Rightarrow> u64 \<Rightarrow> bytes option" where
  "Cipher c b o' n sequence =
     (if ExpandedKey c ! 0 = 0 \<and> ExpandedKey c ! 1 = 0 then Some b
      else let a = cipher_adder sequence; k = ExpandedKey c in do {
        (k, b, o', n) \<leftarrow> cipher_blocks a k b o' n;
        (k, b, o', n, i) \<leftarrow> cipher_words a k b o' n 0;
        (if n > 0 then
           (let j = i mod 4; k = k[j := k ! j + a ! j] in do {
              x \<leftarrow> TailReadLE32 b o' n;
              TailWriteLE32 (x XOR (k ! j)) b o' n })
         else Some b) })"

section \<open>Tags\<close>

definition Tag :: "(bytes \<Rightarrow> u64 \<Rightarrow> u64) \<Rightarrow> SimpleCipher \<Rightarrow> bytes \<Rightarrow> u64 \<Rightarrow> u16" where
  "Tag t1ha c data nonce =
     (let key = push_bit 32 (ucast (ExpandedKey c ! 1)) OR ucast (ExpandedKey c ! 0);
          tag64 = t1ha data (nonce XOR key)
      in ucast (drop_bit 19 tag64))"

definition rot64 :: "u64 \<Rightarrow> nat \<Rightarrow> u64" where
  "rot64 v s = drop_bit s v OR push_bit (64 - s) v"

definition TagInt :: "SimpleCipher \<Rightarrow> u32 \<Rightarrow> u16" where
  "TagInt c data =
     (let key = ExpandedKey c ! 0;
          prod = (ucast key :: u64) * ucast (data XOR (ExpandedKey c ! 1));
          tag64 = prod XOR rot64 prod 41
      in ucast (drop_bit 19 tag64))"

section \<open>The key stream\<close>

text \<open>The words the cipher adds, in order: word \<open>i\<close> advances lane \<open>i mod 4\<close> by its adder and uses the
  new lane value.\<close>

fun key_words :: "u32 list \<Rightarrow> u32 list \<Rightarrow> nat \<Rightarrow> nat \<Rightarrow> u32 list" where
  "key_words a k i 0 = []"
| "key_words a k i (Suc n) =
     (let j = i mod 4; kj = k ! j + a ! j in kj # key_words a (k[j := kj]) (Suc i) n)"

definition keystream :: "u32 list \<Rightarrow> u32 list \<Rightarrow> nat \<Rightarrow> nat \<Rightarrow> bytes" where
  "keystream a k i n = take n (concat (map (le_bytes 4) (key_words a k i ((n + 3) div 4))))"

definition xor_bytes :: "bytes \<Rightarrow> bytes \<Rightarrow> bytes" where
  "xor_bytes xs ys = map2 (XOR) xs ys"

lemma length_xor_bytes [simp]: "length (xor_bytes xs ys) = min (length xs) (length ys)"
  by (simp add: xor_bytes_def)

lemma xor_bytes_append:
  "length xs = length us \<Longrightarrow> xor_bytes (xs @ ys) (us @ vs) = xor_bytes xs us @ xor_bytes ys vs"
  by (simp add: xor_bytes_def)

lemma xor_bytes_twice: "length xs = length ks \<Longrightarrow> xor_bytes (xor_bytes xs ks) ks = xs"
  by (induction xs ks rule: list_induct2) (simp_all add: xor_bytes_def xor.assoc)

lemma xor_bytes_zero: "xor_bytes xs (replicate (length xs) 0) = xs"
  by (induction xs) (simp_all add: xor_bytes_def)

lemma le_bytes_xor: "le_bytes n (v XOR x) = xor_bytes (le_bytes n v) (le_bytes n x)"
  by (rule nth_equalityI) (auto simp: xor_bytes_def intro!: bit_word_eqI simp: bit_simps)

lemma length_key_words [simp]: "length (key_words a k i n) = n"
  by (induction n arbitrary: k i) (simp_all add: Let_def)

lemma length_concat_le4 [simp]: "length (concat (map (le_bytes 4) ws)) = 4 * length ws"
  by (induction ws) simp_all

lemma length_keystream [simp]: "length (keystream a k i n) = n"
  by (simp add: keystream_def)

lemma key_words_mod: "key_words a k (i mod 4) n = key_words a k i n"
  by (induction n arbitrary: k i) (simp_all add: Let_def, metis mod_Suc_eq)

lemma keystream_step:
  assumes "4 \<le> n" and "j = i mod 4" and "kj = k ! j + a ! j"
  shows "keystream a k i n = le_bytes 4 kj @ keystream a (k[j := kj]) (Suc i) (n - 4)"
proof -
  have "(n + 3) div 4 = Suc ((n - 4 + 3) div 4)" using assms(1) by presburger
  then show ?thesis using assms by (simp add: keystream_def Let_def)
qed

lemma take_le_bytes: "n \<le> m \<Longrightarrow> take n (le_bytes m v) = le_bytes n v"
  by (simp add: le_bytes_def take_map)

lemma keystream_last:
  assumes "0 < n" and "n < 4" and "j = i mod 4"
  shows "keystream a k i n = le_bytes n (k ! j + a ! j)"
proof -
  have "(n + 3) div 4 = Suc 0" using assms(1,2) by presburger
  then show ?thesis using assms by (simp add: keystream_def Let_def take_le_bytes)
qed

section \<open>Refinement\<close>

text \<open>What enciphering \<open>n\<close> bytes from offset \<open>off\<close> on with a key stream means.\<close>

definition xor_range :: "bytes \<Rightarrow> nat \<Rightarrow> bytes \<Rightarrow> bytes" where
  "xor_range b off ks = overwrite b off (xor_bytes (slice b off (length ks)) ks)"

lemma length_xor_range [simp]: "off + length ks \<le> length b \<Longrightarrow> length (xor_range b off ks) = length b"
  by (simp add: xor_range_def)

lemma xor_range_nil [simp]: "xor_range b off [] = b"
  by (simp add: xor_range_def xor_bytes_def)

lemma slice_append_len:
  "off + (n + m) \<le> length b \<Longrightarrow> slice b off (n + m) = slice b off n @ slice b (off + n) m"
  by (simp add: slice_def take_add add.commute [of off])

lemma xor_range_append:
  assumes "off + length xs + length ys \<le> length b" and "off' = off + length xs"
  shows "xor_range (xor_range b off xs) off' ys = xor_range b off (xs @ ys)"
proof -
  have "slice (xor_range b off xs) off' (length ys) = slice b off' (length ys)"
    using assms unfolding xor_range_def by (intro slice_overwrite_other) simp_all
  moreover have "xor_bytes (slice b off (length xs + length ys)) (xs @ ys)
      = xor_bytes (slice b off (length xs)) xs @ xor_bytes (slice b off' (length ys)) ys"
    using assms slice_append_len [of off "length xs" "length ys" b] by (simp add: xor_bytes_append)
  ultimately show ?thesis
    using assms by (simp add: xor_range_def overwrite_join)
qed

lemma xor_range_twice:
  assumes "off + length ks \<le> length b"
  shows "xor_range (xor_range b off ks) off ks = b"
proof -
  let ?x = "xor_bytes (slice b off (length ks)) ks"
  have "slice (xor_range b off ks) off (length ks) = ?x"
    using assms slice_overwrite [of off ?x b] by (simp add: xor_range_def)
  then have "xor_range (xor_range b off ks) off ks
      = overwrite (overwrite b off ?x) off (slice b off (length ks))"
    using assms by (simp add: xor_range_def xor_bytes_twice)
  also have "\<dots> = b"
    using assms by (intro nth_equalityI) (auto simp: nth_overwrite nth_slice)
  finally show ?thesis .
qed

lemma xor_word_eq:
  assumes "off + 4 \<le> length b"
  shows "xor_word b off x = Some (xor_range b off (le_bytes 4 x))"
proof -
  obtain v where "ReadU32_LE b off = Some v" "le_bytes 4 v = slice b off 4"
    using ReadU32_LE_bytes [OF assms] by blast
  then show ?thesis
    using assms by (simp add: xor_word_def WriteU32_LE_eq le_bytes_xor xor_range_def)
qed

text \<open>Every step of the loops consumes one word of the key stream and leaves the overall effect
  unchanged: \<open>pending\<close> is the buffer the cipher will have produced in the end.\<close>

definition pending :: "u32 list \<Rightarrow> u32 list \<Rightarrow> bytes \<Rightarrow> nat \<Rightarrow> nat \<Rightarrow> nat \<Rightarrow> bytes" where
  "pending a k b off n i = xor_range b off (keystream a k i n)"

lemma pending_step:
  assumes "4 \<le> n" and "off + n \<le> length b" and "j = i mod 4"
  shows "\<exists>b'. xor_word b off (k ! j + a ! j) = Some b' \<and> length b' = length b
    \<and> pending a (k[j := k ! j + a ! j]) b' (off + 4) (n - 4) (Suc i) = pending a k b off n i"
proof -
  let ?w = "le_bytes 4 (k ! j + a ! j)"
  have "pending a (k[j := k ! j + a ! j]) (xor_range b off ?w) (off + 4) (n - 4) (Suc i)
      = pending a k b off n i"
    unfolding pending_def keystream_step [OF assms(1,3) refl]
    using assms(1,2) by (intro xor_range_append) simp_all
  moreover have "xor_word b off (k ! j + a ! j) = Some (xor_range b off ?w)"
    using assms by (intro xor_word_eq) simp
  ultimately show ?thesis using assms by simp
qed

lemma pending_mod: "pending a k b off n (i mod 4) = pending a k b off n i"
  by (simp add: pending_def keystream_def key_words_mod)

lemma cipher_words_pending:
  assumes "off + n \<le> length b" and "length k = 4"
  shows "\<exists>k' b' off' n' i'. cipher_words a k b off n i = Some (k', b', off', n', i')
    \<and> n' < 4 \<and> off' + n' \<le> length b' \<and> length b' = length b \<and> length k' = 4
    \<and> pending a k' b' off' n' i' = pending a k b off n i"
  using assms
proof (induction a k b off n i rule: cipher_words.induct)
  case (1 a k b off n i)
  show ?case
  proof (cases "4 \<le> n")
    case False
    with 1(2,3) show ?thesis by (subst cipher_words.simps) simp
  next
    case True
    let ?j = "i mod 4" and ?k = "k[i mod 4 := k ! (i mod 4) + a ! (i mod 4)]"
    have kj: "?k ! ?j = k ! ?j + a ! ?j" using 1(3) by simp
    obtain b' where b': "xor_word b off (k ! ?j + a ! ?j) = Some b'" "length b' = length b"
      "pending a ?k b' (off + 4) (n - 4) (Suc i) = pending a k b off n i"
      using pending_step [OF True 1(2) refl] by blast
    have "cipher_words a k b off n i = cipher_words a ?k b' (off + 4) (n - 4) (i + 1)"
      using True b'(1) kj by (subst cipher_words.simps) (simp add: Let_def)
    moreover have "\<exists>k' b'' off' n' i'.
        cipher_words a ?k b' (off + 4) (n - 4) (i + 1) = Some (k', b'', off', n', i')
        \<and> n' < 4 \<and> off' + n' \<le> length b'' \<and> length b'' = length b' \<and> length k' = 4
        \<and> pending a k' b'' off' n' i' = pending a ?k b' (off + 4) (n - 4) (i + 1)"
      by (rule "1.IH" [OF True refl refl]) (use True b' kj 1(2,3) in simp_all)
    ultimately show ?thesis using b'(2,3) by simp
  qed
qed

lemma cipher_block_pending:
  assumes "i \<le> 4" and "4 * (4 - i) \<le> n" and "off + i * 4 + n \<le> length b" and "length k = 4"
  shows "\<exists>k' b'. cipher_block a k b off i = Some (k', b') \<and> length b' = length b \<and> length k' = 4
    \<and> pending a k' b' (off + 16) (n - 4 * (4 - i)) 4 = pending a k b (off + i * 4) n i"
  using assms
proof (induction "4 - i" arbitrary: i k b n)
  case 0
  then show ?case by (subst cipher_block.simps) simp
next
  case (Suc m)
  then have i: "i < 4" "m = 4 - Suc i" "4 \<le> n" by auto
  let ?k = "k[i := k ! i + a ! i]"
  have j: "i = i mod 4" using i(1) by simp
  obtain b' where b': "xor_word b (off + i * 4) (k ! i + a ! i) = Some b'" "length b' = length b"
    "pending a ?k b' (off + i * 4 + 4) (n - 4) (Suc i) = pending a k b (off + i * 4) n i"
    using pending_step [OF i(3) Suc.prems(3) j] by blast
  have "cipher_block a k b off i = cipher_block a ?k b' off (Suc i)"
    using i(1) b'(1) Suc.prems(4) by (subst cipher_block.simps) (simp add: Let_def)
  moreover have "\<exists>k' b''. cipher_block a ?k b' off (Suc i) = Some (k', b'') \<and> length b'' = length b'
      \<and> length k' = 4
      \<and> pending a k' b'' (off + 16) (n - 4 - 4 * (4 - Suc i)) 4 = pending a ?k b' (off + Suc i * 4) (n - 4) (Suc i)"
    using Suc.prems i b'(2) by (intro Suc.hyps(1)) simp_all
  moreover have "n - 4 - 4 * (4 - Suc i) = n - 4 * (4 - i)" "off + Suc i * 4 = off + i * 4 + 4"
    using i by simp_all
  ultimately show ?case using b'(2,3) by (simp add: ac_simps)
qed

lemma cipher_blocks_pending:
  assumes "off + n \<le> length b" and "length k = 4"
  shows "\<exists>k' b' off' n'. cipher_blocks a k b off n = Some (k', b', off', n')
    \<and> off' + n' \<le> length b' \<and> length b' = length b \<and> length k' = 4
    \<and> pending a k' b' off' n' 0 = pending a k b off n 0"
  using assms
proof (induction a k b off n rule: cipher_blocks.induct)
  case (1 a k b off n)
  show ?case
  proof (cases "16 \<le> n")
    case False
    with 1(2,3) show ?thesis by (subst cipher_blocks.simps) simp
  next
    case True
    obtain k' b' where b': "cipher_block a k b off 0 = Some (k', b')" "length b' = length b" "length k' = 4"
      "pending a k' b' (off + 16) (n - 16) 4 = pending a k b off n 0"
      using cipher_block_pending [of 0 n off b k a] True 1(2,3) by auto
    have "cipher_blocks a k b off n = cipher_blocks a k' b' (off + 16) (n - 16)"
      using True b'(1) by (subst cipher_blocks.simps) simp
    moreover have "\<exists>k'' b'' off' n'. cipher_blocks a k' b' (off + 16) (n - 16) = Some (k'', b'', off', n')
        \<and> off' + n' \<le> length b'' \<and> length b'' = length b' \<and> length k'' = 4
        \<and> pending a k'' b'' off' n' 0 = pending a k' b' (off + 16) (n - 16) 0"
      using True b' 1(2) by (intro "1.IH" [OF True b'(1) refl]) simp_all
    moreover have "pending a k' b' (off + 16) (n - 16) 0 = pending a k' b' (off + 16) (n - 16) 4"
      using pending_mod [of a k' b' "off + 16" "n - 16" 4] by simp
    ultimately show ?thesis using b' by simp
  qed
qed

lemma TailReadLE32_bytes:
  assumes "off + n \<le> length b" and "0 < n" and "n < 4"
  shows "\<exists>v. TailReadLE32 b off n = Some v \<and> le_bytes n v = slice b off n"
proof -
  from assms(2,3) consider "n = 1" | "n = 2" | "n = 3" by linarith
  then show ?thesis
  proof cases
    case 1
    have "(ucast (ucast (b ! off) :: u32) :: u8) = b ! off" by (rule bit_word_eqI) (simp add: bit_simps)
    then have "le_bytes 1 (ucast (b ! off) :: u32) = [b ! off]" by (simp add: le_bytes_def)
    with 1 assms show ?thesis by (simp add: TailReadLE32_def rd8_in slice_single)
  next
    case 2
    with assms obtain v where v: "ReadU16_LE b off = Some v" "le_bytes 2 v = slice b off 2"
      using ReadU16_LE_bytes by auto
    have "le_bytes 2 (ucast v :: u32) = le_bytes 2 v"
      by (simp add: le_bytes_def) (auto intro!: bit_word_eqI simp: bit_simps)
    with 2 v show ?thesis by (simp add: TailReadLE32_def)
  next
    case 3
    with assms obtain v where v: "ReadU16_LE b off = Some v" "le_bytes 2 v = slice b off 2"
      using ReadU16_LE_bytes [of off b] by auto
    let ?r = "push_bit 16 (ucast (b ! (off + 2))) + ucast v :: u32"
    have or: "?r = push_bit 16 (ucast (b ! (off + 2))) OR ucast v"
      by (rule disjunctive_add) (auto simp: bit_simps dest: bit_imp_le_length)
    have low: "b ! (off + i) = byte_at (8 * i) v" if "i < 2" for i
      using v(2) that nth_slice [of off 2 b i] nth_le_bytes [of i 2 v] assms(1) 3 by simp
    have "byte_at (8 * i) ?r = b ! (off + i)" if "i < 3" for i
    proof (cases "i = 2")
      case True
      then show ?thesis unfolding or by (intro bit_word_eqI) (auto simp: bit_simps dest: bit_imp_le_length)
    next
      case False
      with that have "i < 2" by simp
      then show ?thesis unfolding or low [OF \<open>i < 2\<close>] by (intro bit_word_eqI) (auto simp: bit_simps)
    qed
    then have "le_bytes 3 ?r = slice b off 3"
      using assms 3 by (intro nth_equalityI) (simp_all add: nth_slice)
    with 3 v assms show ?thesis by (simp add: TailReadLE32_def rd8_in)
  qed
qed

lemma TailWriteLE32_eq:
  assumes "off + n \<le> length b" and "0 < n" and "n < 4"
  shows "TailWriteLE32 v b off n = Some (overwrite b off (le_bytes n v))"
proof -
  have 2: "le_bytes 2 (ucast v :: u16) = le_bytes 2 v"
    by (simp add: le_bytes_def) (auto intro!: bit_word_eqI simp: bit_simps)
  have 3: "le_bytes 3 v = le_bytes 2 v @ [byte_at 16 v]"
    by (simp add: le_bytes_def upt_rec)
  from assms(2,3) consider "n = 1" | "n = 2" | "n = 3" by linarith
  then show ?thesis
  proof cases
    case 1
    with assms show ?thesis by (simp add: TailWriteLE32_def mem_simps le_bytes_def)
  next
    case 2
    with assms \<open>le_bytes 2 (ucast v) = le_bytes 2 v\<close> show ?thesis
      by (simp add: TailWriteLE32_def mem_simps)
  next
    case 3
    with assms WriteU24_LE_eq [of off b v] show ?thesis
      by (simp add: TailWriteLE32_def WriteU24_LE_def)
  qed
qed

lemma tail_pending:
  assumes "off + n \<le> length b" and "0 < n" and "n < 4" and "j = i mod 4"
  shows "do { x \<leftarrow> TailReadLE32 b off n; TailWriteLE32 (x XOR (k ! j + a ! j)) b off n }
    = Some (pending a k b off n i)"
proof -
  obtain v where "TailReadLE32 b off n = Some v" "le_bytes n v = slice b off n"
    using TailReadLE32_bytes [OF assms(1-3)] by blast
  then show ?thesis
    using assms by (simp add: TailWriteLE32_eq le_bytes_xor pending_def keystream_last xor_range_def)
qed

definition cipher_stream :: "SimpleCipher \<Rightarrow> u64 \<Rightarrow> nat \<Rightarrow> bytes" where
  "cipher_stream c sequence n =
     (if ExpandedKey c ! 0 = 0 \<and> ExpandedKey c ! 1 = 0 then replicate n 0
      else keystream (cipher_adder sequence) (ExpandedKey c) 0 n)"

lemma length_cipher_stream [simp]: "length (cipher_stream c sequence n) = n"
  by (simp add: cipher_stream_def)

lemma xor_range_zeros: "off + n \<le> length b \<Longrightarrow> xor_range b off (replicate n 0) = b"
  using xor_bytes_zero [of "slice b off n"]
  by (auto simp: xor_range_def intro!: nth_equalityI simp: nth_overwrite nth_slice)

lemma Cipher_eq:
  assumes "off + n \<le> length b" and "length (ExpandedKey c) = 4"
  shows "Cipher c b off n sequence = Some (xor_range b off (cipher_stream c sequence n))"
proof (cases "ExpandedKey c ! 0 = 0 \<and> ExpandedKey c ! 1 = 0")
  case True
  then show ?thesis using assms by (simp add: Cipher_def cipher_stream_def xor_range_zeros)
next
  case False
  let ?a = "cipher_adder sequence" and ?k = "ExpandedKey c"
  obtain k1 b1 o1 n1 where 1: "cipher_blocks ?a ?k b off n = Some (k1, b1, o1, n1)"
    "o1 + n1 \<le> length b1" "length k1 = 4" "pending ?a k1 b1 o1 n1 0 = pending ?a ?k b off n 0"
    using cipher_blocks_pending [OF assms] by blast
  obtain k2 b2 o2 n2 i2 where 2: "cipher_words ?a k1 b1 o1 n1 0 = Some (k2, b2, o2, n2, i2)"
    "n2 < 4" "o2 + n2 \<le> length b2" "length k2 = 4"
    "pending ?a k2 b2 o2 n2 i2 = pending ?a k1 b1 o1 n1 0"
    using cipher_words_pending [OF 1(2,3)] by blast
  have "pending ?a ?k b off n 0 = xor_range b off (cipher_stream c sequence n)"
    using False by (auto simp: pending_def cipher_stream_def)
  moreover have "pending ?a k2 b2 o2 0 i2 = b2" by (simp add: pending_def keystream_def)
  ultimately show ?thesis
    using False 1(1,4) 2 tail_pending [OF 2(3) _ 2(2) refl, where k = k2 and a = ?a and i = i2]
    by (cases "n2 = 0") (auto simp: Cipher_def Let_def)
qed

lemma length_ExpandedKey_Initialize [simp]: "length (ExpandedKey (Initialize key)) = 4"
  by (simp add: Initialize_def Let_def)

section \<open>Properties\<close>

text \<open>Property C10: the cipher is a stream cipher.  On every range of every buffer it returns the buffer with
  exactly that range exclusive-or'd with a key stream that depends on the session key, the sequence
  number and the length only; the zero key leaves the data readable.\<close>

theorem Cipher_stream:
  assumes "off + n \<le> length b"
  shows "Cipher (Initialize key) b off n sequence
    = Some (take off b @ map2 (XOR) (slice b off n) (cipher_stream (Initialize key) sequence n) @ drop (off + n) b)
    \<and> Cipher (Initialize 0) b off n sequence = Some b"
proof
  show "Cipher (Initialize key) b off n sequence
    = Some (take off b @ map2 (XOR) (slice b off n) (cipher_stream (Initialize key) sequence n) @ drop (off + n) b)"
    using Cipher_eq [of off n b "Initialize key" sequence] assms
    by (simp add: xor_range_def overwrite_def flip: xor_bytes_def)
  show "Cipher (Initialize 0) b off n sequence = Some b"
    by (simp add: Cipher_def Initialize_def Let_def)
qed

theorem Cipher_stream_witness:
  "Cipher (Initialize 0x1234) (replicate 40 7) 3 21 9
    = Some (take 3 (replicate 40 7)
        @ map2 (XOR) (slice (replicate 40 7) 3 21) (cipher_stream (Initialize 0x1234) 9 21)
        @ drop (3 + 21) (replicate 40 7))
    \<and> Cipher (Initialize 0) (replicate 40 7) 3 21 9 = Some (replicate 40 7)"
  using Cipher_stream [of 3 21 "replicate 40 7" "0x1234" 9] by simp

text \<open>Decryption: applying the cipher twice with the same key and sequence number restores
  the datagram, for every length (whole blocks, whole words and a partial word).\<close>

theorem Cipher_involutive:
  assumes "off + n \<le> length b"
  shows "\<exists>e. Cipher (Initialize key) b off n sequence = Some e \<and> length e = length b
    \<and> Cipher (Initialize key) e off n sequence = Some b"
proof -
  let ?ks = "cipher_stream (Initialize key) sequence n"
  have "Cipher (Initialize key) b off n sequence = Some (xor_range b off ?ks)"
    using assms by (intro Cipher_eq) simp_all
  moreover have "Cipher (Initialize key) (xor_range b off ?ks) off n sequence
      = Some (xor_range (xor_range b off ?ks) off ?ks)"
    using assms by (intro Cipher_eq) simp_all
  ultimately show ?thesis using assms by (simp add: xor_range_twice)
qed

end
