(* ===== verification/Session_Send.thy ===== *)
theory Session_Send
  imports Counter_Math Protocol Simple_Cipher
begin

text \<open>
  The sending half of a session, from \<open>TonkineseOutgoing.h\<close> and \<open>TonkineseOutgoing.cpp\<close>: the queue of
  datagrams under construction (\<open>OutgoingQueue\<close>), the choice of the number of nonce and sequence
  number bytes (\<open>writeNonce\<close>, \<open>getPacketNumBytes\<close>), and \<open>sendQueuedDatagram\<close>, which pads, writes the
  footer, enciphers and tags a datagram.

  The data area of a queued datagram is a byte list; its length is the memory that belongs to it, so
  a result \<open>None\<close> is a write outside of the allocation.  The contents of a freshly allocated datagram
  are a parameter, as is the current time.  Statistics, bandwidth control and the socket are not
  modelled; the bytes handed to the socket are the result.
\<close>

unbundle bit_operations_syntax

section \<open>Datagrams under construction\<close>

definition kMessageFrameBytes :: nat where "kMessageFrameBytes = 2"
definition kMaxRandomPaddingBytes :: nat where "kMaxRandomPaddingBytes = 15"
definition kMessageSplitMinimumBytes :: nat where "kMessageSplitMinimumBytes = 20"
definition TonkChannel_Count :: u32 where "TonkChannel_Count = 6"
definition MessageType_Padding :: u32 where "MessageType_Padding = 4"

text \<open>Message types and the channel numbers of the interface.\<close>

definition MessageType_TimeSync :: u32 where "MessageType_TimeSync = 0"
definition MessageType_Acknowledgements :: u32 where "MessageType_Acknowledgements = 1"
definition MessageType_AckAck :: u32 where "MessageType_AckAck = 2"
definition MessageType_Unreliable :: u32 where "MessageType_Unreliable = 3"
definition MessageType_StartOfReliables :: u32 where "MessageType_StartOfReliables = 5"
definition MessageType_Compressed :: u32 where "MessageType_Compressed = 5"
definition MessageType_Reliable :: u32 where "MessageType_Reliable = 6"
definition MessageType_LowPri :: u32 where "MessageType_LowPri = MessageType_Reliable + TonkChannel_Count * 2"
definition MessageType_Control :: u32 where "MessageType_Control = MessageType_Reliable + TonkChannel_Count * 4"
definition MessageType_Unordered :: u32 where "MessageType_Unordered = MessageType_Reliable + (TonkChannel_Count * 4 + 1)"
definition kLowPriEndChannel0 :: u32 where "kLowPriEndChannel0 = TonkChannel_Count * 3"
definition TonkChannel_Reliable0 :: nat where "TonkChannel_Reliable0 = 50"
definition TonkChannel_LowPri0 :: nat where "TonkChannel_LowPri0 = 150"
definition TonkChannel_Unreliable :: nat where "TonkChannel_Unreliable = 255"
definition TonkChannel_Unordered :: nat where "TonkChannel_Unordered = 200"
definition TONK_MAX_RELIABLE_BYTES :: nat where "TONK_MAX_RELIABLE_BYTES = 64000"

lemmas message_type_defs = MessageType_TimeSync_def MessageType_Acknowledgements_def MessageType_AckAck_def
  MessageType_Unreliable_def MessageType_StartOfReliables_def MessageType_Compressed_def MessageType_Reliable_def
  MessageType_LowPri_def MessageType_Control_def MessageType_Unordered_def kLowPriEndChannel0_def
  TonkChannel_Count_def TonkChannel_Reliable0_def TonkChannel_LowPri0_def


record OutgoingQueuedDatagram =
  DData :: bytes
  NextWriteOffset :: nat

record OutgoingQueue =
  OutBuffer :: "OutgoingQueuedDatagram option"
  Queued :: "OutgoingQueuedDatagram list"
  QueuedBytes :: nat

text \<open>The frame header followed by the message bytes, as \<open>Append\<close> and \<open>AppendSplitReliable\<close> store them.\<close>

definition write_frame :: "bytes \<Rightarrow> nat \<Rightarrow> u32 \<Rightarrow> bytes \<Rightarrow> bytes option" where
  "write_frame d o' messageType messageData = do {
     d \<leftarrow> WriteMessageFrameHeader d o' messageType (word_of_nat (length messageData));
     (if o' + kMessageFrameBytes + length messageData \<le> length d
      then Some (overwrite d (o' + kMessageFrameBytes) messageData)
      else None) }"

definition Append :: "nat \<Rightarrow> u32 \<Rightarrow> bytes \<Rightarrow> OutgoingQueue \<Rightarrow> (bool \<times> OutgoingQueue) option" where
  "Append maxMessageSectionBytes messageType messageData q =
     (case OutBuffer q of
        None \<Rightarrow> Some (False, q)
      | Some datagram \<Rightarrow>
        let writeBytes = kMessageFrameBytes + length messageData;
            nextWriteOffset = NextWriteOffset datagram
        in if nextWriteOffset + writeBytes > maxMessageSectionBytes then Some (False, q)
        else do {
          d \<leftarrow> write_frame (DData datagram) nextWriteOffset messageType messageData;
          Some (True, q\<lparr>OutBuffer := Some \<lparr>DData = d, NextWriteOffset = nextWriteOffset + writeBytes\<rparr>,
                       QueuedBytes := QueuedBytes q + writeBytes\<rparr>) })"

definition AppendSplitReliable :: "nat \<Rightarrow> u32 \<Rightarrow> bytes \<Rightarrow> OutgoingQueue \<Rightarrow> (nat \<times> OutgoingQueue) option" where
  "AppendSplitReliable bufferBytes messageType messageData q =
     (case OutBuffer q of
        None \<Rightarrow> Some (0, q)
      | Some datagram \<Rightarrow>
        let nextWriteOffset = NextWriteOffset datagram in
        if nextWriteOffset + kMessageFrameBytes + kMessageSplitMinimumBytes > bufferBytes then Some (0, q)
        else let writeBytes = kMessageFrameBytes + length messageData;
                 (messageType, writeBytes, messageBytes) =
                   (if nextWriteOffset + writeBytes > bufferBytes
                    then (messageType, bufferBytes - nextWriteOffset,
                          bufferBytes - nextWriteOffset - kMessageFrameBytes)
                    else (messageType + TonkChannel_Count, writeBytes, length messageData))
        in do {
          d \<leftarrow> write_frame (DData datagram) nextWriteOffset messageType (take messageBytes messageData);
          Some (messageBytes, q\<lparr>
              OutBuffer := Some \<lparr>DData = d, NextWriteOffset = nextWriteOffset + writeBytes\<rparr>,
              QueuedBytes := QueuedBytes q + writeBytes\<rparr>) })"

text \<open>A buffer that leaves the front of the queue keeps the memory that the footer and the random padding
  need (\<open>Shrink\<close>); the allocation of the fresh buffer may fail.\<close>

definition PushAndGetFreshBuffer :: "bytes option \<Rightarrow> OutgoingQueue \<Rightarrow> bool \<times> OutgoingQueue" where
  "PushAndGetFreshBuffer fresh q =
     (case OutBuffer q of
        Some out \<Rightarrow>
          if NextWriteOffset out \<le> 0 then (True, q)
          else let out = out\<lparr>DData := take (NextWriteOffset out + kMaxOverheadBytes + kMaxRandomPaddingBytes)
                     (DData out)\<rparr>;
                   q = q\<lparr>Queued := Queued q @ [out]\<rparr>
               in (case fresh of
                     None \<Rightarrow> (False, q\<lparr>OutBuffer := None\<rparr>)
                   | Some d \<Rightarrow> (True, q\<lparr>OutBuffer := Some \<lparr>DData = d, NextWriteOffset = 0\<rparr>\<rparr>))
      | None \<Rightarrow>
          (case fresh of
             None \<Rightarrow> (False, q)
           | Some d \<Rightarrow> (True, q\<lparr>OutBuffer := Some \<lparr>DData = d, NextWriteOffset = 0\<rparr>\<rparr>)))"

definition FlushPeek :: "bytes option \<Rightarrow> OutgoingQueue \<Rightarrow> OutgoingQueuedDatagram option \<times> OutgoingQueue" where
  "FlushPeek fresh q =
     (if QueuedBytes q \<le> 0 then (None, q)
      else case Queued q of
        d # _ \<Rightarrow> (Some d, q)
      | [] \<Rightarrow> let q = snd (PushAndGetFreshBuffer fresh q)
              in (case Queued q of [] \<Rightarrow> (None, q) | d # _ \<Rightarrow> (Some d, q)))"

text \<open>\<open>None\<close>: the queue has no datagram to pop (a null pointer in the code).\<close>

definition PopIsEmpty :: "OutgoingQueue \<Rightarrow> (bool \<times> OutgoingQueue) option" where
  "PopIsEmpty q =
     (case Queued q of
        [] \<Rightarrow> None
      | datagram # rest \<Rightarrow>
          Some (rest = [], q\<lparr>Queued := rest, QueuedBytes := QueuedBytes q - NextWriteOffset datagram\<rparr>))"

section \<open>Session state\<close>

record SessionOutgoing =
  NextNonce :: u64
  PeerNextExpectedNonce :: u64
  PeerNextExpectedSeqNum :: u32
  NextSequenceNumber :: u32
  CompressNumbers :: bool
  AttachHandshake :: bool
  Handshake :: bytes
  Encryptor :: SimpleCipher
  EnablePadding :: bool
  PaddingPRNG :: PCGRandom
  MaxMessageSectionBytes :: nat

definition DisableSequenceNumberCompress :: "SessionOutgoing \<Rightarrow> SessionOutgoing" where
  "DisableSequenceNumberCompress s = s\<lparr>CompressNumbers := False\<rparr>"

definition UpdateNextExpectedNonceFromTimeSync :: "u32 \<Rightarrow> SessionOutgoing \<Rightarrow> SessionOutgoing" where
  "UpdateNextExpectedNonceFromTimeSync nextExpectedNonce24 s =
     (let recovered = ExpandFromTruncated 64 24 (PeerNextExpectedNonce s) nextExpectedNonce24 in
      if counter_lt 64 (PeerNextExpectedNonce s) recovered
      then s\<lparr>PeerNextExpectedNonce := recovered\<rparr> else s)"

text \<open>The number of nonce bytes; the difference is a 32-bit signed integer.\<close>

definition nonce_bytes :: "bool \<Rightarrow> u64 \<Rightarrow> u64 \<Rightarrow> nat" where
  "nonce_bytes compress nonce peerNext =
     (if compress then
        (let mag = sint (ucast nonce - ucast peerNext :: u32) in
         if mag = 1 then 0
         else let mag = (if mag < 0 then - mag else mag) + 1 in
              if mag < 0x80 then 1 else if mag < 0x8000 then 2 else 3)
      else 3)"

definition writeNonce :: "bytes \<Rightarrow> nat \<Rightarrow> SessionOutgoing \<Rightarrow> (u64 \<times> nat \<times> bytes \<times> SessionOutgoing) option" where
  "writeNonce b footer s =
     (let nonce = NextNonce s;
          n = nonce_bytes (CompressNumbers s) nonce (PeerNextExpectedNonce s)
      in do {
        b \<leftarrow> WriteFooterField b footer (ucast nonce);
        Some (nonce, n, b, s\<lparr>NextNonce := nonce + 1\<rparr>) })"

definition getPacketNumBytes :: "u32 \<Rightarrow> SessionOutgoing \<Rightarrow> nat" where
  "getPacketNumBytes packetNum s =
     (if CompressNumbers s then
        (let mag = sint (packetNum - PeerNextExpectedSeqNum s);
             mag = (if mag < 0 then - mag else mag);
             mag2 = sint (packetNum - NextSequenceNumber s);
             mag2 = (if mag2 < 0 then - mag2 else mag2);
             mag = (if mag < mag2 then mag2 else mag);
             mag = mag + 1
         in if mag < 0x80 then 1 else if mag < 0x8000 then 2 else 3)
      else 3)"

section \<open>Sending a datagram\<close>

definition TONK_RAND_PAD_EXP :: "nat list" where
  "TONK_RAND_PAD_EXP = [
     15, 14, 14, 14, 14, 14, 13, 13, 13, 13, 13, 13, 12, 12, 12, 12, 12, 12, 12, 15, 14, 14, 14, 14,
     14, 13, 13, 13, 13, 13, 13, 12, 12, 12, 12, 12, 12, 12, 15, 14, 14, 14, 14, 14, 13, 13, 13, 13,
     13, 13, 12, 12, 12, 12, 12, 12, 12, 11, 11, 11, 11, 11, 11, 11, 10, 10, 10, 10, 10, 10, 10, 10,
     10, 9, 9, 9, 9, 9, 9, 9, 9, 9, 9, 8, 8, 8, 8, 8, 8, 8, 8, 8, 8, 8, 7, 7,
     7, 7, 7, 7, 7, 7, 7, 7, 7, 7, 6, 6, 6, 6, 6, 6, 6, 6, 6, 6, 6, 6, 6, 6,
     5, 5, 5, 5, 5, 5, 5, 5, 5, 5, 5, 5, 5, 5, 5, 5, 5, 4, 4, 4, 4, 4, 4, 4,
     4, 4, 4, 4, 4, 4, 4, 4, 4, 4, 4, 3, 3, 3, 3, 3, 3, 3, 3, 3, 3, 3, 3, 3,
     3, 3, 3, 3, 3, 3, 3, 2, 2, 2, 2, 2, 2, 2, 2, 2, 2, 2, 2, 2, 2, 2, 2, 2,
     2, 2, 2, 2, 2, 2, 2, 1, 1, 1, 1, 1, 1, 1, 1, 1, 1, 1, 1, 1, 1, 1, 1, 1,
     1, 1, 1, 1, 1, 1, 1, 1, 1, 0, 0, 0, 0, 0, 0, 0, 0, 0, 0, 0, 0, 0, 0, 0,
     0, 0, 0, 0, 0, 0, 0, 0, 0, 0, 0, 0, 0, 0, 0, 0]"

text \<open>The number of padding bytes selected by a random value.\<close>

definition pad_target :: "nat \<Rightarrow> nat \<Rightarrow> u32 \<Rightarrow> nat" where
  "pad_target maxSection messageBytes r =
     (let target = TONK_RAND_PAD_EXP ! unat (r mod 256)
      in if messageBytes + target > maxSection then maxSection - messageBytes else target)"

definition random_padding :: "bytes \<Rightarrow> nat \<Rightarrow> SessionOutgoing \<Rightarrow> (bytes \<times> nat \<times> SessionOutgoing) option" where
  "random_padding b messageBytes s =
     (if EnablePadding s \<and> messageBytes + kMessageFrameBytes \<le> MaxMessageSectionBytes s then
        (let (r, g) = Next (PaddingPRNG s);
             s = s\<lparr>PaddingPRNG := g\<rparr>;
             target = pad_target (MaxMessageSectionBytes s) messageBytes r
         in if target \<ge> kMessageFrameBytes then do {
              b \<leftarrow> write_frame b messageBytes MessageType_Padding (replicate (target - kMessageFrameBytes) 0);
              Some (b, messageBytes + target, s) }
            else Some (b, messageBytes, s))
      else Some (b, messageBytes, s))"

text \<open>The optional twelve handshake bytes: a 64-bit and a 32-bit copy.\<close>

definition copy_handshake :: "bytes \<Rightarrow> nat \<Rightarrow> bytes \<Rightarrow> bytes option" where
  "copy_handshake b footer handshake = do {
     y \<leftarrow> ReadU32_LE handshake 8;
     x \<leftarrow> ReadU64_LE handshake 0;
     b \<leftarrow> WriteU64_LE b footer x;
     WriteU32_LE b (footer + 8) y }"


definition sendQueuedDatagram :: "(bytes \<Rightarrow> u64 \<Rightarrow> u64) \<Rightarrow> OutgoingQueuedDatagram \<Rightarrow> nat \<Rightarrow> u32 \<Rightarrow> u64
    \<Rightarrow> SessionOutgoing \<Rightarrow> (bytes \<times> SessionOutgoing) option" where
  "sendQueuedDatagram t1ha datagram sequenceNumberBytes sequenceNumber nowUsec s = do {
     (b, messageBytes, s) \<leftarrow> random_padding (DData datagram) (NextWriteOffset datagram) s;
     let footer = messageBytes;
     let flags = kConnectionMask;
     let flags = (if CompressNumbers s then flags OR kSeqCompMask else flags);
     (b, flags, footer) \<leftarrow>
       (if sequenceNumberBytes > 0 then do {
          b \<leftarrow> WriteFooterField b footer sequenceNumber;
          Some (b, flags OR word_of_nat sequenceNumberBytes, footer + sequenceNumberBytes) }
        else Some (b, flags, footer));
     (nonce, nonceBytes, b, s) \<leftarrow> writeNonce b footer s;
     let flags = flags OR push_bit 2 (word_of_nat nonceBytes);
     let footer = footer + nonceBytes;
     (b, flags, footer) \<leftarrow>
       (if AttachHandshake s then do {
          b \<leftarrow> copy_handshake b footer (Handshake s);
          Some (b, flags OR kHandshakeMask, footer + kHandshakeBytes) }
        else Some (b, flags, footer));
     let taggedBytes = footer;
     b \<leftarrow> wr8 b (taggedBytes + kTimestampBytes) flags;
     b \<leftarrow> Cipher (Encryptor s) b 0 messageBytes nonce;
     let tag = Tag t1ha (Encryptor s) (take taggedBytes b) nonce;
     let sendBytes = taggedBytes + kUntaggedDatagramBytes;
     let timestamp24 = ucast (drop_bit kTime23LostBits nowUsec);
     let tag = tag XOR TagInt (Encryptor s) (TimestampFlagTagInt timestamp24 flags);
     b \<leftarrow> WriteU24_LE b taggedBytes timestamp24;
     b \<leftarrow> WriteU16_LE b (taggedBytes + kTimestampBytes + 1) tag;
     Some (take sendBytes b, s) }"

section \<open>The wire image of a datagram\<close>

definition datagram_flags :: "bool \<Rightarrow> nat \<Rightarrow> nat \<Rightarrow> bool \<Rightarrow> u8" where
  "datagram_flags compress seqBytes nonceBytes handshake =
     (let flags = kConnectionMask;
          flags = (if compress then flags OR kSeqCompMask else flags);
          flags = (if seqBytes > 0 then flags OR word_of_nat seqBytes else flags);
          flags = flags OR push_bit 2 (word_of_nat nonceBytes)
      in if handshake then flags OR kHandshakeMask else flags)"

definition tagged_part :: "SimpleCipher \<Rightarrow> bytes \<Rightarrow> nat \<Rightarrow> u32 \<Rightarrow> nat \<Rightarrow> u64 \<Rightarrow> bytes \<Rightarrow> bytes" where
  "tagged_part c payload seqBytes seqNum nonceBytes nonce handshake =
     xor_bytes payload (cipher_stream c nonce (length payload))
     @ le_bytes seqBytes seqNum @ le_bytes nonceBytes (ucast nonce :: u32) @ handshake"

definition datagram_wire :: "(bytes \<Rightarrow> u64 \<Rightarrow> u64) \<Rightarrow> SimpleCipher \<Rightarrow> bytes \<Rightarrow> nat \<Rightarrow> u32 \<Rightarrow> nat \<Rightarrow> u64 \<Rightarrow> bytes
    \<Rightarrow> u8 \<Rightarrow> u32 \<Rightarrow> bytes" where
  "datagram_wire t1ha c payload seqBytes seqNum nonceBytes nonce handshake flags ts =
     (let tagged = tagged_part c payload seqBytes seqNum nonceBytes nonce handshake;
          tag = Tag t1ha c tagged nonce XOR TagInt c (TimestampFlagTagInt ts flags)
      in tagged @ le_bytes 3 ts @ [flags] @ le_bytes 2 tag)"

lemma take_overwrite:
  "off + length xs \<le> length b \<Longrightarrow> take (off + length xs) (overwrite b off xs) = take off b @ xs"
  by (simp add: overwrite_def)

lemma take_overwrite_le: "k \<le> off \<Longrightarrow> k \<le> length b \<Longrightarrow> take k (overwrite b off xs) = take k b"
  by (simp add: overwrite_def min_absorb1)

lemma WriteFooterField_eq:
  assumes "f + 3 \<le> length b"
  shows "WriteFooterField b f v = Some (overwrite b f (le_bytes 3 v))"
  using assms by (simp add: WriteFooterField_def mem_simps le_bytes_def upt_rec)

lemma take_footer_field:
  assumes "f + 3 \<le> length b" and "n \<le> 3"
  shows "take (f + n) (overwrite b f (le_bytes 3 v)) = take f b @ le_bytes n v"
  using assms by (simp add: overwrite_def take_le_bytes min_absorb1)

lemma copy_handshake_eq:
  assumes "length h = 12" and "f + 12 \<le> length b"
  shows "copy_handshake b f h = Some (overwrite b f h)"
proof -
  obtain y where y: "ReadU32_LE h 8 = Some y" "le_bytes 4 y = slice h 8 4"
    using ReadU32_LE_bytes [of 8 h] assms(1) by auto
  obtain x where x: "ReadU64_LE h 0 = Some x" "le_bytes 8 x = slice h 0 8"
    using ReadU64_LE_bytes [of 0 h] assms(1) by auto
  have "slice h 0 8 @ slice h 8 4 = h"
    using assms(1) by (simp add: slice_def)
  with x y show ?thesis
    using assms by (simp add: copy_handshake_def mem_simps)
qed

lemma nonce_bytes_le: "nonce_bytes c n p \<le> 3"
  by (simp add: nonce_bytes_def Let_def)

lemma getPacketNumBytes_range: "getPacketNumBytes n s \<in> {1..3}"
  by (simp add: getPacketNumBytes_def Let_def)

text \<open>Filling in the footer, the cipher and the tag behind a payload of \<open>m\<close> bytes.\<close>

lemma finish_datagram:
  assumes b: "t + 6 \<le> length b" and m: "m \<le> t" and c: "length (ExpandedKey c) = 4"
  shows "do { b \<leftarrow> wr8 b (t + kTimestampBytes) flags;
              b \<leftarrow> Cipher c b 0 m nonce;
              let tag = Tag t1ha c (take t b) nonce;
              let tag = tag XOR TagInt c (TimestampFlagTagInt ts flags);
              b \<leftarrow> WriteU24_LE b t ts;
              b \<leftarrow> WriteU16_LE b (t + kTimestampBytes + 1) tag;
              Some (take (t + kUntaggedDatagramBytes) b, s) }
    = (let tagged = xor_bytes (take m b) (cipher_stream c nonce m) @ take (t - m) (drop m b)
       in Some (tagged @ le_bytes 3 ts @ [flags]
            @ le_bytes 2 (Tag t1ha c tagged nonce XOR TagInt c (TimestampFlagTagInt ts flags)), s))"
proof -
  let ?b1 = "overwrite b (t + 3) [flags]"
  let ?b2 = "xor_range ?b1 0 (cipher_stream c nonce m)"
  let ?tagged = "xor_bytes (take m b) (cipher_stream c nonce m) @ take (t - m) (drop m b)"
  have l1: "length ?b1 = length b" "length ?b2 = length b" using b m by simp_all
  have t1: "take t ?b1 = take t b" using b by (intro take_overwrite_le) simp_all
  have b2: "?b2 = xor_bytes (take m ?b1) (cipher_stream c nonce m) @ drop m ?b1"
    using m b l1 by (simp add: xor_range_def overwrite_def slice_def)
  have tm: "take m ?b1 = take m b" "take (t - m) (drop m ?b1) = take (t - m) (drop m b)"
    using t1 m by (metis min.absorb1 take_take, metis drop_take)
  have tagged: "take t ?b2 = ?tagged"
    using m b unfolding b2 by (simp add: tm min_absorb1 min_absorb2)
  have fl: "?b2 ! (t + 3) = flags"
    using m b l1 unfolding b2 by (simp add: nth_append nth_overwrite)
  let ?tag = "Tag t1ha c ?tagged nonce XOR TagInt c (TimestampFlagTagInt ts flags)"
  have "take (t + 6) (overwrite (overwrite ?b2 t (le_bytes 3 ts)) (t + 4) (le_bytes 2 ?tag))
      = take t ?b2 @ le_bytes 3 ts @ [?b2 ! (t + 3)] @ le_bytes 2 ?tag"
  proof (rule nth_equalityI)
    show "length (take (t + 6) (overwrite (overwrite ?b2 t (le_bytes 3 ts)) (t + 4) (le_bytes 2 ?tag)))
        = length (take t ?b2 @ le_bytes 3 ts @ [?b2 ! (t + 3)] @ le_bytes 2 ?tag)"
      using b l1 by simp
    fix i
    assume "i < length (take (t + 6) (overwrite (overwrite ?b2 t (le_bytes 3 ts)) (t + 4) (le_bytes 2 ?tag)))"
    then have i: "i < t + 6" using b l1 by simp
    then consider "i < t" | "t \<le> i" "i < t + 3" | "i = t + 3" | "t + 4 \<le> i" by linarith
    then show "take (t + 6) (overwrite (overwrite ?b2 t (le_bytes 3 ts)) (t + 4) (le_bytes 2 ?tag)) ! i
        = (take t ?b2 @ le_bytes 3 ts @ [?b2 ! (t + 3)] @ le_bytes 2 ?tag) ! i"
      using b l1 i by cases (auto simp: nth_append nth_overwrite add.commute [of 4 t])
  qed
  then show ?thesis
    using b m l1 tagged fl c
    by (simp add: mem_simps Cipher_eq byte_count_defs Let_def add.commute [of 4 t])
qed

lemma length_TONK_RAND_PAD_EXP: "length TONK_RAND_PAD_EXP = 256"
  by (simp add: TONK_RAND_PAD_EXP_def)

lemma TONK_RAND_PAD_EXP_bound: "list_all (\<lambda>p. p \<le> kMaxRandomPaddingBytes) TONK_RAND_PAD_EXP"
  by (simp add: TONK_RAND_PAD_EXP_def kMaxRandomPaddingBytes_def)

lemma pad_bound: "TONK_RAND_PAD_EXP ! unat ((r :: u32) mod 256) \<le> kMaxRandomPaddingBytes"
proof -
  have "unat (r mod 256) < 256" by (simp add: unat_mod)
  then show ?thesis
    using TONK_RAND_PAD_EXP_bound by (simp add: list_all_length length_TONK_RAND_PAD_EXP)
qed

text \<open>A message frame on the wire.\<close>

definition frame_wire :: "u32 \<times> bytes \<Rightarrow> bytes" where
  "frame_wire = (\<lambda>(t, d). le_bytes 2 (ucast (push_bit 11 t OR word_of_nat (length d)) :: u16) @ d)"

lemma length_frame_wire [simp]: "length (frame_wire (t, d)) = 2 + length d"
  by (simp add: frame_wire_def)

lemma write_frame_eq:
  assumes "off + 2 + length d \<le> length b"
  shows "write_frame b off t d = Some (overwrite b off (frame_wire (t, d)))"
  using assms
  by (simp add: write_frame_def WriteMessageFrameHeader_def kMessageLengthBits_def kMessageFrameBytes_def
      frame_wire_def mem_simps)

text \<open>The memory a queued datagram must own: either the whole section with its overhead, or (after
  shrinking) the written part with room for the padding and the overhead.\<close>

definition datagram_room :: "nat \<Rightarrow> OutgoingQueuedDatagram \<Rightarrow> bool" where
  "datagram_room maxSection d \<longleftrightarrow> NextWriteOffset d \<le> maxSection
     \<and> (maxSection + kMaxOverheadBytes \<le> length (DData d)
        \<or> NextWriteOffset d + kMaxRandomPaddingBytes + kMaxOverheadBytes \<le> length (DData d))"

text \<open>The padding is at most one frame of zeros.\<close>

lemma random_padding_eq:
  assumes "datagram_room (MaxMessageSectionBytes s) d"
  shows "\<exists>b pads g. random_padding (DData d) (NextWriteOffset d) s
      = Some (b, NextWriteOffset d + length (concat (map frame_wire pads)), s\<lparr>PaddingPRNG := g\<rparr>)
    \<and> take (NextWriteOffset d + length (concat (map frame_wire pads))) b
        = take (NextWriteOffset d) (DData d) @ concat (map frame_wire pads)
    \<and> length b = length (DData d)
    \<and> NextWriteOffset d + length (concat (map frame_wire pads)) + kMaxOverheadBytes \<le> length b
    \<and> (pads = [] \<or> (\<exists>k<14. pads = [(MessageType_Padding, replicate k 0)]))"
proof -
  obtain r g where n: "Next (PaddingPRNG s) = (r, g)" by fastforce
  let ?m = "NextWriteOffset d" and ?max = "MaxMessageSectionBytes s"
  define target where "target = pad_target ?max ?m r"
  have base: "?m \<le> ?max" "?m + kMaxOverheadBytes \<le> length (DData d)"
    using assms by (auto simp: datagram_room_def)
  have t15: "target \<le> 15"
    using pad_bound [of r] by (auto simp: target_def pad_target_def Let_def kMaxRandomPaddingBytes_def)
  have tmax: "?m + target \<le> ?max" using base by (auto simp: target_def pad_target_def Let_def)
  have room: "?m + target + kMaxOverheadBytes \<le> length (DData d)"
    using assms tmax t15 by (auto simp: datagram_room_def kMaxRandomPaddingBytes_def)
  show ?thesis
  proof (cases "EnablePadding s \<and> ?m + kMessageFrameBytes \<le> ?max \<and> kMessageFrameBytes \<le> target")
    case False
    have "\<exists>g. random_padding (DData d) ?m s = Some (DData d, ?m, s\<lparr>PaddingPRNG := g\<rparr>)"
    proof (cases "EnablePadding s \<and> ?m + kMessageFrameBytes \<le> ?max")
      case True
      with False have "\<not> kMessageFrameBytes \<le> target" by blast
      with True show ?thesis
        by (auto simp: random_padding_def n target_def Let_def)
    next
      case False
      then have "random_padding (DData d) ?m s = Some (DData d, ?m, s\<lparr>PaddingPRNG := PaddingPRNG s\<rparr>)"
        by (auto simp: random_padding_def)
      then show ?thesis by blast
    qed
    then obtain g' where "random_padding (DData d) ?m s = Some (DData d, ?m, s\<lparr>PaddingPRNG := g'\<rparr>)" ..
    then show ?thesis
      using base by (intro exI [of _ "DData d"] exI [of _ "[]"] exI [of _ g']) simp
  next
    case True
    let ?pad = "(MessageType_Padding, replicate (target - 2) 0)"
    have t2: "2 \<le> target" using True by (simp add: kMessageFrameBytes_def)
    have w: "write_frame (DData d) ?m MessageType_Padding (replicate (target - 2) 0)
        = Some (overwrite (DData d) ?m (frame_wire ?pad))"
      using room t2 by (intro write_frame_eq) simp
    have "random_padding (DData d) ?m s
        = Some (overwrite (DData d) ?m (frame_wire ?pad), ?m + target, s\<lparr>PaddingPRNG := g\<rparr>)"
      using True w by (simp add: random_padding_def n Let_def kMessageFrameBytes_def flip: target_def)
    moreover have len: "length (frame_wire ?pad) = target" using t2 by simp
    moreover have "take (?m + target) (overwrite (DData d) ?m (frame_wire ?pad))
        = take ?m (DData d) @ frame_wire ?pad"
      using room take_overwrite [of ?m "frame_wire ?pad" "DData d", unfolded len] by simp
    ultimately show ?thesis
      using room t2 t15 by (intro exI [of _ "overwrite (DData d) ?m (frame_wire ?pad)"] exI [of _ "[?pad]"] exI [of _ g])
        auto
  qed
qed


lemma word_of_nat_0 [simp]: "(word_of_nat 0 :: 'a::len word) = 0"
  by simp

lemma sendQueuedDatagram_wire:
  assumes room: "datagram_room (MaxMessageSectionBytes s) d"
    and key: "length (ExpandedKey (Encryptor s)) = 4"
    and seq: "seqBytes \<le> 3"
    and hs: "AttachHandshake s \<Longrightarrow> length (Handshake s) = 12"
  shows "\<exists>pads g. sendQueuedDatagram t1ha d seqBytes seqNum nowUsec s
      = Some (datagram_wire t1ha (Encryptor s)
            (take (NextWriteOffset d) (DData d) @ concat (map frame_wire pads))
            seqBytes seqNum (nonce_bytes (CompressNumbers s) (NextNonce s) (PeerNextExpectedNonce s))
            (NextNonce s) (if AttachHandshake s then Handshake s else [])
            (datagram_flags (CompressNumbers s) seqBytes
              (nonce_bytes (CompressNumbers s) (NextNonce s) (PeerNextExpectedNonce s)) (AttachHandshake s))
            (ucast (drop_bit kTime23LostBits nowUsec)),
          s\<lparr>PaddingPRNG := g, NextNonce := NextNonce s + 1\<rparr>)
    \<and> (pads = [] \<or> (\<exists>k<14. pads = [(MessageType_Padding, replicate k 0)]))"
proof -
  obtain b pads g where pad: "random_padding (DData d) (NextWriteOffset d) s
      = Some (b, NextWriteOffset d + length (concat (map frame_wire pads)), s\<lparr>PaddingPRNG := g\<rparr>)"
    "take (NextWriteOffset d + length (concat (map frame_wire pads))) b
        = take (NextWriteOffset d) (DData d) @ concat (map frame_wire pads)"
    "NextWriteOffset d + length (concat (map frame_wire pads)) + kMaxOverheadBytes \<le> length b"
    "pads = [] \<or> (\<exists>k<14. pads = [(MessageType_Padding, replicate k 0)])"
    using random_padding_eq [OF room] by blast
  define m where "m = NextWriteOffset d + length (concat (map frame_wire pads))"
  define payload where "payload = take (NextWriteOffset d) (DData d) @ concat (map frame_wire pads)"
  define nb where "nb = nonce_bytes (CompressNumbers s) (NextNonce s) (PeerNextExpectedNonce s)"
  define h where "h = (if AttachHandshake s then Handshake s else [])"
  have nb: "nb \<le> 3" by (simp add: nb_def nonce_bytes_le)
  have b: "m + 24 \<le> length b" using pad(3) by (simp add: m_def kMaxOverheadBytes_def byte_count_defs)
  have tb: "take m b = payload" using pad(2) by (simp add: m_def payload_def)
  have lp: "length payload = m" using tb b by (metis length_take min.absorb2 le_add1 order.trans)
  have lh: "length h \<le> 12" "AttachHandshake s \<Longrightarrow> length h = 12" "\<not> AttachHandshake s \<Longrightarrow> h = []"
    using hs by (auto simp: h_def)
  text \<open>the three footer fields, written one after the other\<close>
  define b1 where "b1 = (if seqBytes > 0 then overwrite b m (le_bytes 3 seqNum) else b)"
  have b1: "length b1 = length b" "take (m + seqBytes) b1 = payload @ le_bytes seqBytes seqNum"
    using b seq tb take_footer_field [of m b seqBytes seqNum] by (auto simp: b1_def le_bytes_def)
  define b2 where "b2 = overwrite b1 (m + seqBytes) (le_bytes 3 (ucast (NextNonce s) :: u32))"
  have b2: "length b2 = length b"
    "take (m + seqBytes + nb) b2 = payload @ le_bytes seqBytes seqNum @ le_bytes nb (ucast (NextNonce s) :: u32)"
    using b b1 seq nb take_footer_field [of "m + seqBytes" b1 nb "ucast (NextNonce s)"]
    by (simp_all add: b2_def)
  define t where "t = m + seqBytes + nb + length h"
  define b3 where "b3 = overwrite b2 (m + seqBytes + nb) h"
  have t: "t + 6 \<le> length b" "m \<le> t" using b seq nb lh(1) by (simp_all add: t_def)
  have b3: "length b3 = length b"
    "take t b3 = payload @ le_bytes seqBytes seqNum @ le_bytes nb (ucast (NextNonce s) :: u32) @ h"
    using b b2 seq nb lh(1) t take_overwrite [of "m + seqBytes + nb" h b2]
    by (simp_all add: b3_def t_def)
  have m3: "take m b3 = payload"
    "take (t - m) (drop m b3) = le_bytes seqBytes seqNum @ le_bytes nb (ucast (NextNonce s) :: u32) @ h"
  proof -
    have "take m (take t b3) = payload" "drop m (take t b3)
        = le_bytes seqBytes seqNum @ le_bytes nb (ucast (NextNonce s) :: u32) @ h"
      unfolding b3(2) using lp by simp_all
    then show "take m b3 = payload" "take (t - m) (drop m b3)
        = le_bytes seqBytes seqNum @ le_bytes nb (ucast (NextNonce s) :: u32) @ h"
      using t(2) by (simp_all add: drop_take min_absorb1)
  qed
  have w1: "seqBytes > 0 \<Longrightarrow> WriteFooterField b m seqNum = Some b1"
    using b by (simp add: b1_def WriteFooterField_eq)
  have w2: "WriteFooterField b1 (m + seqBytes) (ucast (NextNonce s)) = Some b2"
    using b b1 seq by (simp add: b2_def WriteFooterField_eq)
  have w3: "AttachHandshake s \<Longrightarrow> copy_handshake b2 (m + seqBytes + nb) (Handshake s) = Some b3"
    using b b2 seq nb hs lh(2) by (simp add: b3_def h_def copy_handshake_eq)
  have w3': "\<not> AttachHandshake s \<Longrightarrow> b3 = b2" by (simp add: b3_def lh(3))
  have w1': "seqBytes = 0 \<Longrightarrow> b1 = b" by (simp add: b1_def)
  let ?F = "datagram_flags (CompressNumbers s) seqBytes nb (AttachHandshake s)"
  let ?ts = "ucast (drop_bit kTime23LostBits nowUsec) :: u32"
  let ?s = "s\<lparr>PaddingPRNG := g, NextNonce := NextNonce s + 1\<rparr>"
  have fin: "do { b \<leftarrow> wr8 b3 (t + kTimestampBytes) ?F;
              b \<leftarrow> Cipher (Encryptor s) b 0 m (NextNonce s);
              let tag = Tag t1ha (Encryptor s) (take t b) (NextNonce s);
              let tag = tag XOR TagInt (Encryptor s) (TimestampFlagTagInt ?ts ?F);
              b \<leftarrow> WriteU24_LE b t ?ts;
              b \<leftarrow> WriteU16_LE b (t + kTimestampBytes + 1) tag;
              Some (take (t + kUntaggedDatagramBytes) b, ?s) }
      = Some (datagram_wire t1ha (Encryptor s) payload seqBytes seqNum nb (NextNonce s) h ?F ?ts, ?s)"
    using t b3(1) key m3 lp by (subst finish_datagram) (simp_all add: datagram_wire_def tagged_part_def Let_def)
  have "sendQueuedDatagram t1ha d seqBytes seqNum nowUsec s
      = Some (datagram_wire t1ha (Encryptor s) payload seqBytes seqNum nb (NextNonce s) h ?F ?ts, ?s)"
    unfolding sendQueuedDatagram_def pad(1)
    using fin w1 w1' w2 w3 w3' lh
    by (cases "seqBytes > 0"; cases "AttachHandshake s")
      (simp_all add: writeNonce_def datagram_flags_def t_def Let_def kHandshakeBytes_def
        flip: m_def nb_def)
  then show ?thesis
    using pad(4) unfolding payload_def nb_def h_def by blast
qed

section \<open>Queue invariant\<close>

definition payload_of :: "OutgoingQueuedDatagram \<Rightarrow> bytes" where
  "payload_of d = take (NextWriteOffset d) (DData d)"

definition queue_payloads :: "OutgoingQueue \<Rightarrow> bytes list" where
  "queue_payloads q = map payload_of (Queued q)"

definition out_payload :: "OutgoingQueue \<Rightarrow> bytes" where
  "out_payload q = (case OutBuffer q of None \<Rightarrow> [] | Some d \<Rightarrow> payload_of d)"

definition queue_inv :: "nat \<Rightarrow> OutgoingQueue \<Rightarrow> bool" where
  "queue_inv maxSection q \<longleftrightarrow>
     (case OutBuffer q of None \<Rightarrow> True
      | Some d \<Rightarrow> NextWriteOffset d \<le> maxSection \<and> maxSection + kMaxOverheadBytes \<le> length (DData d))
     \<and> list_all (\<lambda>d. datagram_room maxSection d \<and> 0 < NextWriteOffset d) (Queued q)
     \<and> QueuedBytes q = length (concat (queue_payloads q)) + length (out_payload q)"

lemma room_payload_length: "datagram_room m d \<Longrightarrow> length (payload_of d) = NextWriteOffset d"
  by (auto simp: datagram_room_def payload_of_def)

lemma queue_out_room:
  "queue_inv m q \<Longrightarrow> OutBuffer q = Some d \<Longrightarrow> datagram_room m d"
  by (simp add: queue_inv_def datagram_room_def)

text \<open>The common part of both append operations: a frame that fits extends the payload.\<close>

lemma append_frame:
  assumes inv: "queue_inv m q" and out: "OutBuffer q = Some d"
    and fits: "NextWriteOffset d + 2 + length x \<le> m" and w: "w = 2 + length x"
  shows "\<exists>d'. write_frame (DData d) (NextWriteOffset d) t x = Some d'
    \<and> queue_inv m (q\<lparr>OutBuffer := Some \<lparr>DData = d', NextWriteOffset = NextWriteOffset d + w\<rparr>,
                     QueuedBytes := QueuedBytes q + w\<rparr>)
    \<and> take (NextWriteOffset d + w) d' = payload_of d @ frame_wire (t, x)"
proof -
  let ?n = "NextWriteOffset d" and ?f = "frame_wire (t, x)"
  have len: "m + kMaxOverheadBytes \<le> length (DData d)" using inv out by (simp add: queue_inv_def)
  then have b: "?n + length ?f \<le> length (DData d)" using fits by simp
  have "write_frame (DData d) ?n t x = Some (overwrite (DData d) ?n ?f)"
    using b by (intro write_frame_eq) simp
  moreover have p: "take (?n + w) (overwrite (DData d) ?n ?f) = payload_of d @ ?f"
    using take_overwrite [OF b] w by (simp add: payload_of_def)
  moreover have "length (payload_of d) = ?n" using b by (simp add: payload_of_def)
  ultimately show ?thesis
    using inv out fits w len b
    by (auto simp: queue_inv_def out_payload_def queue_payloads_def payload_of_def)
qed

lemma Append_ok:
  assumes "queue_inv m q"
  shows "\<exists>ok q'. Append m t x q = Some (ok, q') \<and> queue_inv m q'
    \<and> queue_payloads q' = queue_payloads q
    \<and> out_payload q' = (if ok then out_payload q @ frame_wire (t, x) else out_payload q)"
proof (cases "OutBuffer q")
  case None
  with assms show ?thesis by (auto simp: Append_def)
next
  case (Some d)
  show ?thesis
  proof (cases "NextWriteOffset d + 2 + length x \<le> m")
    case False
    with Some assms show ?thesis by (auto simp: Append_def kMessageFrameBytes_def)
  next
    case True
    then obtain d' where "write_frame (DData d) (NextWriteOffset d) t x = Some d'"
      "queue_inv m (q\<lparr>OutBuffer := Some \<lparr>DData = d', NextWriteOffset = NextWriteOffset d + (2 + length x)\<rparr>,
                     QueuedBytes := QueuedBytes q + (2 + length x)\<rparr>)"
      "take (NextWriteOffset d + (2 + length x)) d' = payload_of d @ frame_wire (t, x)"
      using append_frame [OF assms Some True refl] by blast
    with Some True show ?thesis
      by (auto simp: Append_def kMessageFrameBytes_def queue_payloads_def out_payload_def payload_of_def)
  qed
qed

lemma AppendSplitReliable_ok:
  assumes "queue_inv m q" and "x \<noteq> []"
  shows "\<exists>n q'. AppendSplitReliable m t x q = Some (n, q') \<and> queue_inv m q' \<and> n \<le> length x
    \<and> queue_payloads q' = queue_payloads q
    \<and> out_payload q' = (if n = 0 then out_payload q
         else out_payload q @ frame_wire (if n = length x then t + TonkChannel_Count else t, take n x))"
proof (cases "OutBuffer q")
  case None
  with assms show ?thesis by (simp add: AppendSplitReliable_def)
next
  case (Some d)
  let ?n = "NextWriteOffset d"
  show ?thesis
  proof (cases "?n + 2 + 20 > m")
    case True
    with Some assms show ?thesis
      by (simp add: AppendSplitReliable_def kMessageFrameBytes_def kMessageSplitMinimumBytes_def)
  next
    case room: False
    define k where "k = (if ?n + (2 + length x) > m then m - ?n - 2 else length x)"
    define t' where "t' = (if k = length x then t + TonkChannel_Count else t)"
    have k: "0 < k" "k \<le> length x" "?n + 2 + length (take k x) \<le> m"
      using room assms(2) by (auto simp: k_def)
    have split: "?n + (2 + length x) > m \<longleftrightarrow> k \<noteq> length x" "k \<noteq> length x \<Longrightarrow> m - ?n = 2 + k"
      using room by (auto simp: k_def)
    obtain d' where w: "write_frame (DData d) ?n t' (take k x) = Some d'"
      "queue_inv m (q\<lparr>OutBuffer := Some \<lparr>DData = d', NextWriteOffset = ?n + (2 + length (take k x))\<rparr>,
                     QueuedBytes := QueuedBytes q + (2 + length (take k x))\<rparr>)"
      "take (?n + (2 + length (take k x))) d' = payload_of d @ frame_wire (t', take k x)"
      using append_frame [OF assms(1) Some k(3) refl] by blast
    have "AppendSplitReliable m t x q = Some (k, q\<lparr>
        OutBuffer := Some \<lparr>DData = d', NextWriteOffset = ?n + (2 + k)\<rparr>, QueuedBytes := QueuedBytes q + (2 + k)\<rparr>)"
      using Some room split w(1) k
      by (cases "k = length x")
        (simp_all add: AppendSplitReliable_def kMessageFrameBytes_def kMessageSplitMinimumBytes_def t'_def Let_def)
    with Some w k show ?thesis
      by (simp add: queue_payloads_def out_payload_def payload_of_def t'_def min_absorb2)
  qed
qed

lemma PushAndGetFreshBuffer_ok:
  assumes inv: "queue_inv m q" and fresh: "\<And>d. fresh = Some d \<Longrightarrow> m + kMaxOverheadBytes \<le> length d"
  shows "queue_inv m (snd (PushAndGetFreshBuffer fresh q))
    \<and> concat (queue_payloads (snd (PushAndGetFreshBuffer fresh q))) @ out_payload (snd (PushAndGetFreshBuffer fresh q))
      = concat (queue_payloads q) @ out_payload q"
proof (cases "OutBuffer q")
  case None
  with assms show ?thesis
    by (cases fresh) (auto simp: PushAndGetFreshBuffer_def queue_inv_def queue_payloads_def out_payload_def payload_of_def)
next
  case (Some d)
  let ?d = "d\<lparr>DData := take (NextWriteOffset d + kMaxOverheadBytes + kMaxRandomPaddingBytes) (DData d)\<rparr>"
  have d: "NextWriteOffset d \<le> m" "m + kMaxOverheadBytes \<le> length (DData d)"
    using inv Some by (simp_all add: queue_inv_def)
  then have room: "datagram_room m ?d" and pay: "payload_of ?d = payload_of d"
    by (auto simp: datagram_room_def payload_of_def min_def)
  show ?thesis
    using assms Some room pay
    by (cases fresh) (auto simp: PushAndGetFreshBuffer_def queue_inv_def queue_payloads_def
        out_payload_def payload_of_def Let_def)
qed

lemma PopIsEmpty_ok:
  assumes "queue_inv m q" and "Queued q \<noteq> []"
  shows "\<exists>e q'. PopIsEmpty q = Some (e, q') \<and> queue_inv m q' \<and> e = (Queued q' = [])
    \<and> queue_payloads q = payload_of (hd (Queued q)) # queue_payloads q' \<and> out_payload q' = out_payload q"
  using assms room_payload_length
  by (cases "Queued q") (auto simp: PopIsEmpty_def queue_inv_def queue_payloads_def out_payload_def split: option.splits)

lemma FlushPeek_eq:
  "FlushPeek fresh q =
     (if QueuedBytes q = 0 then (None, q)
      else let q' = (if Queued q = [] then snd (PushAndGetFreshBuffer fresh q) else q)
           in (if Queued q' = [] then None else Some (hd (Queued q')), q'))"
  by (auto simp: FlushPeek_def Let_def split: list.split)

text \<open>The life of a queue: the bytes appended so far and the bytes popped so far are recorded beside the
  queue.  A flush is a \<open>FlushPeek\<close> followed by \<open>PopIsEmpty\<close>.\<close>

inductive queue_run :: "nat \<Rightarrow> bytes \<Rightarrow> bytes \<Rightarrow> OutgoingQueue \<Rightarrow> bool" for m where
  start: "queue_run m [] [] \<lparr>OutBuffer = None, Queued = [], QueuedBytes = 0\<rparr>"
| append: "queue_run m a p q \<Longrightarrow> Append m t x q = Some (ok, q')
    \<Longrightarrow> queue_run m (if ok then a @ frame_wire (t, x) else a) p q'"
| split: "queue_run m a p q \<Longrightarrow> x \<noteq> [] \<Longrightarrow> AppendSplitReliable m t x q = Some (n, q')
    \<Longrightarrow> queue_run m (if n = 0 then a
         else a @ frame_wire (if n = length x then t + TonkChannel_Count else t, take n x)) p q'"
| push: "queue_run m a p q \<Longrightarrow> (\<And>d. fresh = Some d \<Longrightarrow> m + kMaxOverheadBytes \<le> length d)
    \<Longrightarrow> queue_run m a p (snd (PushAndGetFreshBuffer fresh q))"
| flush: "queue_run m a p q \<Longrightarrow> (\<And>d. fresh = Some d \<Longrightarrow> m + kMaxOverheadBytes \<le> length d)
    \<Longrightarrow> FlushPeek fresh q = (Some d, q') \<Longrightarrow> PopIsEmpty q' = Some (e, q'')
    \<Longrightarrow> queue_run m a (p @ payload_of d) q''"

lemma queue_run_inv:
  assumes "queue_run m a p q"
  shows "queue_inv m q \<and> a = p @ concat (queue_payloads q) @ out_payload q"
  using assms
proof induction
  case start
  show ?case by (simp add: queue_inv_def queue_payloads_def out_payload_def)
next
  case (append a p q t x ok q')
  then show ?case using Append_ok [of m q t x] by auto
next
  case (split a p q x t n q')
  then show ?case using AppendSplitReliable_ok [of m q x t] by auto
next
  case (push a p q fresh)
  then show ?case using PushAndGetFreshBuffer_ok [of m q fresh] by simp
next
  case (flush a p q fresh d q' e q'')
  have inv: "queue_inv m q' \<and> concat (queue_payloads q') @ out_payload q' = concat (queue_payloads q) @ out_payload q"
    using flush.hyps(3) flush.IH PushAndGetFreshBuffer_ok [of m q fresh, OF _ flush.hyps(2)]
    by (auto simp: FlushPeek_eq Let_def split: if_splits)
  have "Queued q' \<noteq> []" "d = hd (Queued q')"
    using flush.hyps(3) by (auto simp: FlushPeek_eq Let_def split: if_splits)
  then show ?case
    using PopIsEmpty_ok [of m q'] inv flush.hyps(4) flush.IH by auto
qed

section \<open>Properties\<close>

text \<open>Property C9: the outgoing queue is a lossless FIFO of bytes.  In every reachable queue, the frames
  appended are exactly the bytes already flushed, followed by the payloads of the queued datagrams
  and of the one under construction, in order; the byte count is exact, every datagram fits the
  message section and still owns the memory that its padding and footer will need; and neither
  append operation writes outside of the allocation.\<close>

theorem outgoing_queue_fifo:
  assumes "queue_run m appended flushed q"
  shows "appended = flushed @ concat (queue_payloads q) @ out_payload q
    \<and> QueuedBytes q = length appended - length flushed
    \<and> list_all (datagram_room m) (Queued q)
    \<and> Append m t x q \<noteq> None \<and> (x \<noteq> [] \<longrightarrow> AppendSplitReliable m t x q \<noteq> None)"
proof -
  have inv: "queue_inv m q" and eq: "appended = flushed @ concat (queue_payloads q) @ out_payload q"
    using queue_run_inv [OF assms] by blast+
  moreover have "Append m t x q \<noteq> None" using Append_ok [OF inv, of t x] by auto
  moreover have "x \<noteq> [] \<longrightarrow> AppendSplitReliable m t x q \<noteq> None"
    using AppendSplitReliable_ok [OF inv, of x t] by auto
  ultimately show ?thesis by (auto simp: queue_inv_def list_all_iff)
qed

theorem outgoing_queue_fifo_witness:
  "\<exists>q. [] = [] @ concat (queue_payloads q) @ out_payload q
    \<and> QueuedBytes q = 0 \<and> list_all (datagram_room 100) (Queued q)
    \<and> Append 100 6 [1, 2, 3] q \<noteq> None \<and> AppendSplitReliable 100 6 [1, 2, 3] q \<noteq> None
    \<and> OutBuffer q \<noteq> None"
proof -
  let ?q = "snd (PushAndGetFreshBuffer (Some (replicate 124 0)) \<lparr>OutBuffer = None, Queued = [], QueuedBytes = 0\<rparr>)"
  have "queue_run 100 [] [] ?q"
    by (rule queue_run.push [OF queue_run.start]) (simp add: kMaxOverheadBytes_def byte_count_defs)
  from outgoing_queue_fifo [OF this, of 6 "[1, 2, 3]"] show ?thesis
    by (intro exI [of _ ?q]) (auto simp: PushAndGetFreshBuffer_def)
qed


definition send_example :: SessionOutgoing where
  "send_example = \<lparr>NextNonce = 7, PeerNextExpectedNonce = 3, PeerNextExpectedSeqNum = 0,
     NextSequenceNumber = 5, CompressNumbers = True, AttachHandshake = False, Handshake = [],
     Encryptor = Initialize 0x1234, EnablePadding = True, PaddingPRNG = Seed 1 2,
     MaxMessageSectionBytes = 60\<rparr>"


end
