(* ===== verification/Session_Receive.thy ===== *)
theory Session_Receive
  imports Session_Send Strike_Register
begin

text \<open>
  The receiving half of a session up to the point where a datagram is authenticated: the first part of
  \<open>SessionIncoming::ProcessDatagram\<close> in \<open>TonkineseIncoming.cpp\<close> reads the footer from its end, expands
  the nonce, rejects replays, checks the tag, deciphers the payload and expands the reliable sequence
  number.  Message delivery is in the theory \<open>Message_Delivery\<close>.

  A read outside of the datagram is \<open>None\<close>.  The hash \<open>t1ha\<close> is a parameter; the shutdown flag and the
  verdict of \<open>OnUnauthenticatedHandshake\<close> are inputs.  Calls to other subsystems are recorded as events
  in the order of the calls.  The FEC decoder and the decompressor are parts of the state with
  parameter types.
\<close>

unbundle bit_operations_syntax

section \<open>State\<close>

text \<open>Calls that leave the session.\<close>

datatype event =
    DisableCompression
  | AuthenticatedTimestamp u32
  | AuthenticatedDatagram
  | OnData nat bytes
  | OnControlChannel bytes
  | OnAcknowledgements bytes
  | OnTimeSync bytes
  | OnProcessedDatagram nat u64 u32

record ('d, 'z) SessionIncoming =
  AntiReplay :: StrikeRegister
  Decryptor :: SimpleCipher
  FECDecoder :: 'd
  FECNextExpectedPacketNum :: u32
  LastAckAckSeq :: u32
  ReliableIncoming :: "bytes list"
  LowPriIncoming :: "bytes list"
  Decompressor :: 'z
  FirstReliable :: "nat option"
  LargestSendTS24 :: u32
  Events :: "event list"

definition emit :: "event \<Rightarrow> ('d, 'z) SessionIncoming \<Rightarrow> ('d, 'z) SessionIncoming" where
  "emit e s = s\<lparr>Events := Events s @ [e]\<rparr>"

section \<open>Header\<close>

record accepted_datagram =
  Datagram :: bytes
  PayloadBytes :: nat
  FlagsByte :: u8
  Nonce :: u64
  SendTS24 :: u32
  RelSeq :: "u32 option"

datatype receive_result =
    Ignored
  | IgnoredDupe
  | BadChecksum
  | IgnoredReordered
  | Accepted accepted_datagram

text \<open>Moving a pointer towards the front of the datagram; \<open>None\<close> when it would leave the buffer.\<close>

definition step_back :: "nat \<Rightarrow> nat \<Rightarrow> nat option" where
  "step_back p n = (if n \<le> p then Some (p - n) else None)"

definition received_nonce :: "StrikeRegister \<Rightarrow> bytes \<Rightarrow> nat \<Rightarrow> nat \<Rightarrow> u64 option" where
  "received_nonce register data footer nonceBytes =
     (if nonceBytes \<le> 0 then Some (GetNextExpected register)
      else do {
        partialNonce \<leftarrow> ReadFooterField data footer nonceBytes;
        Some (Expand register (ucast partialNonce) nonceBytes) })"

definition expand_seq :: "u32 \<Rightarrow> nat \<Rightarrow> u32 \<Rightarrow> u32" where
  "expand_seq nextExpected seqBytes partialSeq =
     (let nextExpectedSeq = Counter 22 nextExpected in
      if seqBytes = 1 then ExpandFromTruncated_full 22 nextExpectedSeq (Counter 8 (ucast partialSeq :: u8))
      else if seqBytes = 2 then ExpandFromTruncated_full 22 nextExpectedSeq (Counter 16 (ucast partialSeq :: u16))
      else partialSeq)"

definition ReceiveHeader :: "(bytes \<Rightarrow> u64 \<Rightarrow> u64) \<Rightarrow> bool \<Rightarrow> bool \<Rightarrow> bytes \<Rightarrow> ('d, 'z) SessionIncoming
    \<Rightarrow> (receive_result \<times> ('d, 'z) SessionIncoming) option" where
  "ReceiveHeader t1ha isShutdown dropHandshake data s =
     (if isShutdown then Some (Ignored, s)
      else do {
        footer \<leftarrow> step_back (length data) (kFlagsBytes + kEncryptionTagBytes);
        flags \<leftarrow> rd8 data footer;
        footer \<leftarrow> step_back footer kTimestampBytes;
        ts \<leftarrow> ReadU24_LE_Min4Bytes data footer;
        let remoteSendTS24 = Counter 24 ts;
        let handshakeBytes = HandshakeBytes flags;
        if handshakeBytes > 0 \<and> dropHandshake then Some (Ignored, s)
        else do {
          footer \<leftarrow> step_back footer handshakeBytes;
          let nonceBytes = EncryptionNonceBytes flags;
          nonce \<leftarrow> received_nonce (AntiReplay s) data footer nonceBytes;
          footer \<leftarrow> step_back footer nonceBytes;
          if IsDuplicate (AntiReplay s) nonce then Some (IgnoredDupe, emit DisableCompression s)
          else do {
            let expectedTag = Tag t1ha (Decryptor s) (take (length data - kUntaggedDatagramBytes) data) nonce;
            tag \<leftarrow> ReadU16_LE data (length data - kEncryptionTagBytes);
            let flagsInt = TimestampFlagTagInt remoteSendTS24 flags;
            if tag XOR TagInt (Decryptor s) flagsInt \<noteq> expectedTag then Some (BadChecksum, emit DisableCompression s)
            else do {
              let s = s\<lparr>AntiReplay := Accept (AntiReplay s) nonce\<rparr>;
              let messagePayloadBytes = length data - ConnectedFooterBytes flags;
              data \<leftarrow> Cipher (Decryptor s) data 0 messagePayloadBytes nonce;
              let s = emit (AuthenticatedTimestamp remoteSendTS24) s;
              let seqBytes = SequenceNumberBytes flags;
              _ \<leftarrow> step_back footer seqBytes;
              partialSeq \<leftarrow> ReadFooterField data footer seqBytes;
              if seqBytes > 0 \<and> seqBytes < nonceBytes
                 \<and> counter_gt 64 (GetNextExpected (AntiReplay s)) (nonce + 1)
              then Some (IgnoredReordered, s)
              else Some (Accepted \<lparr>Datagram = data, PayloadBytes = messagePayloadBytes,
                   FlagsByte = flags, Nonce = nonce, SendTS24 = remoteSendTS24,
                   RelSeq = (if seqBytes > 0
                     then Some (expand_seq (FECNextExpectedPacketNum s) seqBytes partialSeq) else None)\<rparr>, s)
            } } } })"



section \<open>Memory safety\<close>

lemma step_back_eq [simp]: "n \<le> p \<Longrightarrow> step_back p n = Some (p - n)"
  by (simp add: step_back_def)

lemma footer_field_bytes: "SequenceNumberBytes f \<le> 3" "EncryptionNonceBytes f \<le> 3" "HandshakeBytes f \<le> 12"
proof -
  have "f AND 3 \<le> (3 :: u8)" by (rule word_and_le1)
  then show "SequenceNumberBytes f \<le> 3"
    by (simp add: SequenceNumberBytes_def kSequenceNumberMask_def word_le_nat_alt)
  have "f AND 12 \<le> (12 :: u8)" by (rule word_and_le1)
  then have "unat (f AND 12) \<le> 12" by (simp add: word_le_nat_alt)
  then show "EncryptionNonceBytes f \<le> 3"
    by (simp add: EncryptionNonceBytes_def kEncryptionNonceMask_def drop_bit_eq_div unat_div)
  show "HandshakeBytes f \<le> 12" by (simp add: HandshakeBytes_def kHandshakeBytes_def)
qed

lemma ReadFooterField_safe:
  "n \<le> e \<Longrightarrow> e - n + 2 < length b \<Longrightarrow> \<exists>v. ReadFooterField b e n = Some v"
  by (simp add: ReadFooterField_def rd8_in Let_def)

lemma received_nonce_safe:
  "n \<le> e \<Longrightarrow> e - n + 2 < length b \<Longrightarrow> \<exists>v. received_nonce r b e n = Some v"
  using ReadFooterField_safe [of n e b] by (auto simp: received_nonce_def)

text \<open>The header part as a decision list, for a datagram whose fields can be read.\<close>

lemma ReceiveHeader_eq:
  assumes l: "ConnectedFooterBytes flags \<le> length data"
    and flags: "rd8 data (length data - 3) = Some flags"
    and ts: "ReadU24_LE data (length data - 6) = Some ts"
    and nonce: "received_nonce (AntiReplay s) data (length data - 6 - HandshakeBytes flags)
        (EncryptionNonceBytes flags) = Some nonce"
    and tag: "ReadU16_LE data (length data - 2) = Some tag"
    and d: "Cipher (Decryptor s) data 0 (length data - ConnectedFooterBytes flags) nonce = Some d"
    and seq: "ReadFooterField d (length data - 6 - HandshakeBytes flags - EncryptionNonceBytes flags)
        (SequenceNumberBytes flags) = Some partialSeq"
  shows "ReceiveHeader t1ha isShutdown dropHandshake data s = Some (
     if isShutdown then (Ignored, s)
     else if HandshakeBytes flags > 0 \<and> dropHandshake then (Ignored, s)
     else if IsDuplicate (AntiReplay s) nonce then (IgnoredDupe, emit DisableCompression s)
     else if tag XOR TagInt (Decryptor s) (TimestampFlagTagInt (Counter 24 ts) flags)
          \<noteq> Tag t1ha (Decryptor s) (take (length data - 6) data) nonce
     then (BadChecksum, emit DisableCompression s)
     else let s' = emit (AuthenticatedTimestamp (Counter 24 ts)) (s\<lparr>AntiReplay := Accept (AntiReplay s) nonce\<rparr>)
       in if SequenceNumberBytes flags > 0 \<and> SequenceNumberBytes flags < EncryptionNonceBytes flags
             \<and> counter_gt 64 (GetNextExpected (Accept (AntiReplay s) nonce)) (nonce + 1)
          then (IgnoredReordered, s')
          else (Accepted \<lparr>Datagram = d, PayloadBytes = length data - ConnectedFooterBytes flags,
              FlagsByte = flags, Nonce = nonce, SendTS24 = Counter 24 ts,
              RelSeq = (if SequenceNumberBytes flags > 0
                then Some (expand_seq (FECNextExpectedPacketNum s) (SequenceNumberBytes flags) partialSeq)
                else None)\<rparr>, s'))"
proof -
  have l': "6 + HandshakeBytes flags + EncryptionNonceBytes flags + SequenceNumberBytes flags \<le> length data"
    using l by (simp add: ConnectedFooterBytes_def byte_count_defs)
  show ?thesis
    using l' flags ts nonce tag d seq
    by (simp add: ReceiveHeader_def ReadU24_LE_Min4Bytes_def byte_count_defs emit_def Let_def if_distrib [of Some]
        del: One_nat_def split del: if_split cong: if_cong)
qed

lemma ReceiveHeader_safe:
  assumes key: "length (ExpandedKey (Decryptor s)) = 4" 
    and len: "rd8 data (length data - 3) = Some flags" "ConnectedFooterBytes flags \<le> length data"
  shows "ReceiveHeader t1ha isShutdown dropHandshake data s \<noteq> None"
proof -
  note fb = footer_field_bytes [of flags]
  let ?h = "HandshakeBytes flags" and ?n = "EncryptionNonceBytes flags" and ?q = "SequenceNumberBytes flags"
  have l: "6 + ?h + ?n + ?q \<le> length data" using len(2) by (simp add: ConnectedFooterBytes_def byte_count_defs)
  obtain ts where ts: "ReadU24_LE data (length data - 6) = Some ts"
    using l by (simp add: ReadU24_LE_def rd8_in)
  obtain nonce where nonce: "received_nonce (AntiReplay s) data (length data - 6 - ?h) ?n = Some nonce"
    using received_nonce_safe [of ?n "length data - 6 - ?h" data] l by force
  obtain tag where tag: "ReadU16_LE data (length data - 2) = Some tag"
    using ReadU16_LE_bytes [of "length data - 2" data] l by force
  obtain d where d: "Cipher (Decryptor s) data 0 (length data - ConnectedFooterBytes flags) nonce = Some d"
    "length d = length data" using key l by (simp add: Cipher_eq)
  obtain v where v: "ReadFooterField d (length data - 6 - ?h - ?n) ?q = Some v"
    using ReadFooterField_safe [of ?q "length data - 6 - ?h - ?n" d] l d(2) by force
  show ?thesis
    using ReceiveHeader_eq [OF len(2,1) ts nonce tag d(1) v, of t1ha isShutdown dropHandshake] by simp
qed

section \<open>Reading what the sender wrote\<close>

lemma ReadFooterField_eq:
  assumes s: "slice b (e - n) n = le_bytes n v" and n: "n \<le> 3" "n \<le> e" and len: "e - n + 3 \<le> length b"
  shows "ReadFooterField b e n = Some (take_bit (8 * n) v)"
proof -
  let ?o = "e - n"
  let ?r = "(push_bit 16 (ucast (b ! (?o + 2))) OR push_bit 8 (ucast (b ! (?o + 1))) OR ucast (b ! ?o) :: u32)
      AND NOT (push_bit (n * 8) 0xffffffff)"
  have m: "NOT (push_bit (n * 8) (0xffffffff :: u32)) = mask (8 * n)"
  proof -
    consider "n = 0" | "n = 1" | "n = 2" | "n = 3" using n(1) by linarith
    then show ?thesis by cases (simp_all add: mask_numeral)
  qed
  have octet: "b ! (?o + i) = byte_at (8 * i) v" if "i < n" for i
    using s that len n nth_slice [of ?o n b i] by simp
  have bits: "bit (push_bit 16 (ucast (b ! (?o + 2))) OR push_bit 8 (ucast (b ! (?o + 1))) OR ucast (b ! ?o) :: u32) k
      = bit v k" if kn: "k < 8 * n" for k
  proof -
    consider "k < 8" | "8 \<le> k" "k < 16" | "16 \<le> k" "k < 24" using kn n(1) by linarith
    then show ?thesis
    proof cases
      case 1
      then show ?thesis using octet [of 0] kn by (auto simp: bit_simps)
    next
      case 2
      then show ?thesis using octet [of 1] kn by (auto simp: bit_simps dest: bit_imp_le_length)
    next
      case 3
      then show ?thesis using octet [of 2] kn by (auto simp: bit_simps dest: bit_imp_le_length)
    qed
  qed
  have "bit ?r k = bit (take_bit (8 * n) v) k" for k
    unfolding m using bits [of k] n(1) by (cases "k < 8 * n") (simp_all add: bit_and_iff bit_mask_iff bit_take_bit_iff)
  then have "?r = take_bit (8 * n) v" by (intro bit_word_eqI) simp
  then show ?thesis using len by (simp add: ReadFooterField_def rd8_in Let_def)
qed

lemma datagram_flags_table:
  "list_all (\<lambda>q. list_all (\<lambda>n. list_all (\<lambda>c. list_all (\<lambda>h. let f = datagram_flags c q n h in
     SequenceNumberBytes f = q \<and> EncryptionNonceBytes f = n \<and> HandshakeBytes f = (if h then 12 else 0)
     \<and> \<not> IsOnlyFEC f \<and> IsConnectionDatagram f)
     [True, False]) [True, False]) [0, 1, 2, 3]) [0, 1, 2, 3]"
  by code_simp

lemma datagram_flags_fields:
  assumes "q \<le> 3" and "n \<le> 3"
  shows "SequenceNumberBytes (datagram_flags c q n h) = q"
    "EncryptionNonceBytes (datagram_flags c q n h) = n"
    "HandshakeBytes (datagram_flags c q n h) = (if h then 12 else 0)"
    "\<not> IsOnlyFEC (datagram_flags c q n h)" "IsConnectionDatagram (datagram_flags c q n h)"
proof -
  have "q \<in> set [0, 1, 2, 3]" "n \<in> set [0, 1, 2, 3]" "c \<in> set [True, False]" "h \<in> set [True, False]"
    using assms by auto
  then show "SequenceNumberBytes (datagram_flags c q n h) = q"
    "EncryptionNonceBytes (datagram_flags c q n h) = n"
    "HandshakeBytes (datagram_flags c q n h) = (if h then 12 else 0)"
    "\<not> IsOnlyFEC (datagram_flags c q n h)" "IsConnectionDatagram (datagram_flags c q n h)"
    using datagram_flags_table unfolding list_all_iff Let_def by blast+
qed


lemma Counter24: "Counter 24 (v :: u32) = take_bit 24 v"
  by (simp add: Counter_def kMask_def take_bit_eq_mask mask_numeral)

lemma ReadU24_LE_take_bit:
  assumes "slice b off 3 = le_bytes 3 (ts :: u32)" and "off + 3 \<le> length b"
  shows "ReadU24_LE b off = Some (take_bit 24 ts)"
proof (rule ReadU24_LE_eq)
  have "byte_at (8 * i) (take_bit 24 ts) = byte_at (8 * i) ts" if "i < 3" for i
    using that by (intro bit_word_eqI) (auto simp: bit_simps)
  then show "slice b off 3 = le_bytes 3 (take_bit 24 ts)"
    unfolding assms(1) by (simp add: le_bytes_def)
  show "unat (take_bit 24 ts) < 2 ^ 24" 
    using take_bit_nat_less_exp [of 24 "unat ts"] by (simp add: unsigned_take_bit_eq)
qed (fact assms(2))

lemma TimestampFlagTagInt_truncated: "TimestampFlagTagInt (Counter 24 (take_bit 24 ts)) flags = TimestampFlagTagInt ts flags"
proof -
  have "push_bit 8 (take_bit 24 ts) = push_bit 8 ts"
    by (intro bit_word_eqI) (auto simp: bit_simps)
  then show ?thesis by (simp add: TimestampFlagTagInt_def Counter24)
qed

text \<open>The nonce that the receiver computes for a truncated nonce.\<close>

definition decoded_nonce :: "StrikeRegister \<Rightarrow> nat \<Rightarrow> u64 \<Rightarrow> u64" where
  "decoded_nonce register nonceBytes nonce =
     (if nonceBytes = 0 then GetNextExpected register
      else Expand register (take_bit (8 * nonceBytes) nonce) nonceBytes)"

lemma ReceiveHeader_wire:
  fixes payload handshake :: bytes
  assumes key: "length (ExpandedKey (Decryptor s)) = 4"
    and n: "seqBytes \<le> 3" "nonceBytes \<le> 3" and hs: "handshake = [] \<or> length handshake = 12"
    and flags: "SequenceNumberBytes flags = seqBytes" "EncryptionNonceBytes flags = nonceBytes"
      "HandshakeBytes flags = length handshake"
    and nonce: "decoded_nonce (AntiReplay s) nonceBytes nonce = nonce"
    and fresh: "\<not> IsDuplicate (AntiReplay s) nonce"
    and live: "handshake \<noteq> [] \<Longrightarrow> \<not> dropHandshake"
  shows "\<exists>d. take (length payload) d = payload
    \<and> length d = length (datagram_wire t1ha (Decryptor s) payload seqBytes seqNum nonceBytes nonce handshake flags ts)
    \<and> ReceiveHeader t1ha False dropHandshake
        (datagram_wire t1ha (Decryptor s) payload seqBytes seqNum nonceBytes nonce handshake flags ts) s
      = Some (let s' = emit (AuthenticatedTimestamp (take_bit 24 ts)) (s\<lparr>AntiReplay := Accept (AntiReplay s) nonce\<rparr>)
         in if seqBytes > 0 \<and> seqBytes < nonceBytes
               \<and> counter_gt 64 (GetNextExpected (Accept (AntiReplay s) nonce)) (nonce + 1)
            then (IgnoredReordered, s')
            else (Accepted \<lparr>Datagram = d, PayloadBytes = length payload, FlagsByte = flags,
                Nonce = nonce, SendTS24 = take_bit 24 ts,
                RelSeq = (if seqBytes > 0
                  then Some (expand_seq (FECNextExpectedPacketNum s) seqBytes (take_bit (8 * seqBytes) seqNum))
                  else None)\<rparr>, s'))"
proof -
  let ?c = "Decryptor s"
  define ks where "ks = cipher_stream ?c nonce (length payload)"
  define body where "body = le_bytes seqBytes seqNum @ le_bytes nonceBytes (ucast nonce :: u32) @ handshake"
  define tag where "tag = Tag t1ha ?c (xor_bytes payload ks @ body) nonce XOR TagInt ?c (TimestampFlagTagInt ts flags)"
  define rest where "rest = body @ le_bytes 3 ts @ [flags] @ le_bytes 2 tag"
  let ?w = "datagram_wire t1ha ?c payload seqBytes seqNum nonceBytes nonce handshake flags ts"
  let ?m = "length payload" and ?h = "length handshake"
  have w: "?w = xor_bytes payload ks @ rest"
    by (simp add: datagram_wire_def tagged_part_def ks_def rest_def tag_def body_def Let_def)
  have lk: "length ks = ?m" by (simp add: ks_def)
  have lb: "length body = seqBytes + nonceBytes + ?h" by (simp add: body_def)
  have lw: "length ?w = ?m + seqBytes + nonceBytes + ?h + 6" unfolding w by (simp add: lk rest_def lb)
  have foot: "ConnectedFooterBytes flags = seqBytes + nonceBytes + ?h + 6"
    by (simp add: ConnectedFooterBytes_def flags byte_count_defs)
  have f: "rd8 ?w (length ?w - 3) = Some flags"
    unfolding w by (simp add: rd8_def nth_append lk rest_def lb)
  have t: "ReadU24_LE ?w (length ?w - 6) = Some (take_bit 24 ts)"
    by (rule ReadU24_LE_take_bit) (simp_all add: lw, simp add: w slice_def lk rest_def lb)
  have g: "ReadU16_LE ?w (length ?w - 2) = Some tag"
    by (rule ReadU16_LE_eq) (simp_all add: lw, simp add: w slice_def lk rest_def lb)
  have r: "received_nonce (AntiReplay s) ?w (length ?w - 6 - HandshakeBytes flags) (EncryptionNonceBytes flags) = Some nonce"
  proof (cases "nonceBytes = 0")
    case True
    then show ?thesis using nonce by (simp add: received_nonce_def flags decoded_nonce_def)
  next
    case False
    have "ReadFooterField ?w (?m + seqBytes + nonceBytes) nonceBytes
        = Some (take_bit (8 * nonceBytes) (ucast nonce))"
      by (rule ReadFooterField_eq) (use n in \<open>simp_all add: lw, simp_all add: w slice_def lk rest_def body_def\<close>)
    moreover have "(ucast (take_bit (8 * nonceBytes) (ucast nonce :: u32)) :: u64) = take_bit (8 * nonceBytes) nonce"
      using n(2) by (intro bit_word_eqI) (auto simp: bit_simps)
    ultimately show ?thesis
      using False nonce by (simp add: received_nonce_def flags decoded_nonce_def lw)
  qed
  define d where "d = payload @ rest"
  have x: "Cipher ?c ?w 0 (length ?w - ConnectedFooterBytes flags) nonce = Some d"
    using key xor_bytes_twice [of payload ks]
    by (simp add: Cipher_eq lw foot) (simp add: w xor_range_def overwrite_def slice_def d_def lk flip: ks_def)
  have q: "ReadFooterField d (length ?w - 6 - HandshakeBytes flags - EncryptionNonceBytes flags) (SequenceNumberBytes flags)
      = Some (take_bit (8 * seqBytes) seqNum)"
    unfolding flags
    by (rule ReadFooterField_eq) (use n in \<open>simp_all add: lw, simp_all add: d_def slice_def rest_def body_def\<close>)
  have tg: "take (length ?w - 6) ?w = xor_bytes payload ks @ body"
    unfolding lw by (simp add: w rest_def lk lb)
  have chk: "tag XOR TagInt ?c (TimestampFlagTagInt (Counter 24 (take_bit 24 ts)) flags)
      = Tag t1ha ?c (take (length ?w - 6) ?w) nonce"
    unfolding tg TimestampFlagTagInt_truncated by (simp add: tag_def xor.assoc)
  have nd: "(HandshakeBytes flags > 0 \<and> dropHandshake) = False" using live flags(3) by auto
  have l: "ConnectedFooterBytes flags \<le> length ?w" by (simp add: foot lw)
  have len: "length ?w - ConnectedFooterBytes flags = ?m" by (simp add: foot lw)
  have dp: "take ?m d = payload" "length d = length ?w" by (simp_all add: d_def w lk)
  show ?thesis
    unfolding ReceiveHeader_eq [OF l f t r g x q] using dp
    by (intro exI [of _ d], simp only: nd fresh chk len if_False simp_thms)
      (simp only: flags Counter24 take_bit_take_bit min.idem simp_thms)
qed


section \<open>Truncated nonces\<close>

lemma Expand_near:
  assumes "1 \<le> n" and "n \<le> 3"
  shows "- (2 ^ 23) \<le> sint (Expand r x n - LargestSequence r)" "sint (Expand r x n - LargestSequence r) < 2 ^ 23"
proof -
  have "(2::int) ^ (8 * n - 1) \<le> 2 ^ 23" using assms(2) by (intro power_increasing) simp_all
  moreover have "- (2 ^ (8 * n - 1)) \<le> sint (Expand r x n - LargestSequence r)
      \<and> sint (Expand r x n - LargestSequence r) < 2 ^ (8 * n - 1)"
    using CounterExpand_unique [of n "LargestSequence r" x "CounterExpand (LargestSequence r) x n"] assms
    by (simp add: Expand_def)
  ultimately show "- (2 ^ 23) \<le> sint (Expand r x n - LargestSequence r)"
    "sint (Expand r x n - LargestSequence r) < 2 ^ 23" by linarith+
qed

lemma GetNextExpected_eq: "GetNextExpected r = LargestSequence r + 1"
  by (simp add: GetNextExpected_def counter_add_def Counter_def kMask_def)

lemma difference_range:
  fixes x y :: int
  assumes "0 \<le> x" "x < k" "0 \<le> y" "y < k"
  shows "- k \<le> x - y" "x - y < k"
  using assms by simp_all

text \<open>For numbers below \<open>2^63\<close> the signed distance is the difference.\<close>

lemma sint_diff_small:
  assumes "a < 2 ^ 63" "(b :: u64) < 2 ^ 63"
  shows "sint (a - b) = uint a - uint b"
proof -
  have u: "uint a < 2 ^ 63" "uint b < 2 ^ 63" using assms by (simp_all add: word_less_def)
  have "sint (a - b) = signed_take_bit 63 (uint a - uint b)"
    by (simp add: word_sub_wi sint_sbintrunc' del: of_int_diff)
  also have "\<dots> = uint a - uint b"
    using difference_range [OF uint_ge_0 u(1) uint_ge_0 u(2)] by (intro signed_take_bit_int_eq_self) simp_all
  finally show ?thesis .
qed


lemma decoded_nonce_correct:
  assumes n: "n = nonce_bytes compress N P" "0 < n"
    and PN: "P \<le> N" "N < 2 ^ 63" "uint N - uint P < 2 ^ 23 - 1"
    and L: "LargestSequence r < 2 ^ 63" "uint P \<le> uint (LargestSequence r) + 1"
      "uint (LargestSequence r) \<le> uint N + 2 ^ (8 * n - 1)"
  shows "decoded_nonce r n N = N"
proof -
  let ?D = "uint N - uint P"
  have D: "0 \<le> ?D" "?D < 2 ^ 23 - 1" using PN by (simp_all add: word_le_def)
  have "ucast N - ucast P = (word_of_int ?D :: u32)" by (simp only: ucast_eq of_int_diff)
  then have "sint (ucast N - ucast P :: u32) = signed_take_bit 31 ?D"
    by (simp add: sint_sbintrunc' del: of_int_diff)
  also have "\<dots> = ?D" using D by (intro signed_take_bit_int_eq_self) simp_all
  finally have mag: "sint (ucast N - ucast P :: u32) = ?D" .
  have n3: "1 \<le> n" "n \<le> 7" using n nonce_bytes_le [of compress N P] by simp_all
  have "?D + 1 < 2 ^ (8 * n - 1)"
    using n D unfolding n(1) nonce_bytes_def mag Let_def by (auto split: if_splits)
  moreover have "sint (N - LargestSequence r) = uint N - uint (LargestSequence r)"
    using PN L by (intro sint_diff_small)
  ultimately show ?thesis
    using n n3 L CounterExpand_unique [OF n3, of "LargestSequence r" "take_bit (8 * n) N" N]
    by (simp add: decoded_nonce_def Expand_def)
qed


section \<open>Replay protection\<close>

text \<open>Whatever the bytes of a datagram are, its nonce expands to a number near the largest one seen.\<close>

definition near_largest :: "StrikeRegister \<Rightarrow> u64 \<Rightarrow> bool" where
  "near_largest r q \<longleftrightarrow> - (2 ^ 23) \<le> sint (q - LargestSequence r) \<and> sint (q - LargestSequence r) < 2 ^ 23"

lemma received_nonce_near:
  assumes "received_nonce r data footer n = Some q" and "n \<le> 3"
  shows "near_largest r q"
proof (cases "n = 0")
  case True
  then show ?thesis using assms by (auto simp: received_nonce_def near_largest_def GetNextExpected_eq)
next
  case False
  then show ?thesis using assms Expand_near [of n r]
    by (auto simp: received_nonce_def near_largest_def split: Option.bind_splits)
qed

lemma strike_wf_window:
  assumes "strike_wf r"
  shows "uint (WindowBase r) \<le> uint (LargestSequence r)"
    "uint (LargestSequence r) - uint (WindowBase r) < 4096"
proof -
  have "unat (WindowBase r) \<le> unat (LargestSequence r)"
    "unat (LargestSequence r) - unat (WindowBase r) < 4096"
    using assms by (simp_all add: strike_wf_def word_le_nat_alt kStrikeRegisterBits_def)
  then show "uint (WindowBase r) \<le> uint (LargestSequence r)"
    "uint (LargestSequence r) - uint (WindowBase r) < 4096"
    unfolding uint_nat by linarith+
qed

lemma near_largest_ahead:
  assumes wf: "strike_wf r" and q: "\<not> IsDuplicate r q" "near_largest r q"
    and L: "uint (LargestSequence r) < 2 ^ 62"
  shows "WindowBase r \<le> q" "q < 2 ^ 63" "unat q - unat (WindowBase r) < 2 ^ 38"
    "uint q \<le> uint (LargestSequence r) + 2 ^ 23"
proof -
  let ?l = "uint (LargestSequence r)" and ?b = "uint (WindowBase r)"
  define d where "d = sint (q - LargestSequence r)"
  have d: "- (2 ^ 23) \<le> d" "d < 2 ^ 23" using q(2) by (simp_all add: near_largest_def d_def)
  note bl = strike_wf_window [OF wf]
  have qq: "q = word_of_int (?l + d)" by (simp add: d_def)
  then have "q - WindowBase r = word_of_int (?l + d - ?b)" by simp
  then have "sint (q - WindowBase r) = signed_take_bit 63 (?l + d - ?b)"
    by (simp add: sint_sbintrunc' del: of_int_diff of_int_add)
  also have "\<dots> = ?l + d - ?b" using d bl by (intro signed_take_bit_int_eq_self) simp_all
  finally have ge: "?b \<le> ?l + d" using IsDuplicate_behind [of q r] q(1) by linarith
  have "uint q = (?l + d) mod 2 ^ 64" unfolding qq by (simp add: uint_word_of_int del: of_int_add)
  also have "\<dots> = ?l + d" using d L by (intro mod_pos_pos_trivial order.trans [OF uint_ge_0 ge]) simp_all
  finally have u: "uint q = ?l + d" .
  show "WindowBase r \<le> q" using ge by (simp add: word_le_def u)
  show "q < 2 ^ 63" using d L by (simp add: word_less_def u)
  show "uint q \<le> ?l + 2 ^ 23" using d by (simp add: u)
  have "uint q - ?b < 274877906944" using d bl by (simp add: u)
  then have "unat q - unat (WindowBase r) < 274877906944" unfolding uint_nat by linarith
  then show "unat q - unat (WindowBase r) < 2 ^ 38" by simp
qed

lemma ReceiveHeader_register:
  assumes "ReceiveHeader t1ha sd dh data s = Some (r, s')"
  shows "AntiReplay s' = AntiReplay s \<and> (\<forall>a. r \<noteq> Accepted a)
    \<or> (\<exists>q. \<not> IsDuplicate (AntiReplay s) q \<and> near_largest (AntiReplay s) q
         \<and> AntiReplay s' = Accept (AntiReplay s) q \<and> (\<forall>a. r = Accepted a \<longrightarrow> Nonce a = q))"
  using assms received_nonce_near footer_field_bytes(2)
  by (auto simp: ReceiveHeader_def Let_def emit_def split: if_splits Option.bind_splits)

text \<open>The life of the register of a session: \<open>k\<close> datagrams were presented, the nonces \<open>ns\<close> were accepted.
  Nothing else in the session changes the register.\<close>

inductive receive_run :: "(bytes \<Rightarrow> u64 \<Rightarrow> u64) \<Rightarrow> nat \<Rightarrow> u64 list \<Rightarrow> ('d, 'z) SessionIncoming \<Rightarrow> bool"
  for t1ha where
  start: "AntiReplay s = Reset 0 \<Longrightarrow> receive_run t1ha 0 [] s"
| datagram: "receive_run t1ha k ns s \<Longrightarrow> ReceiveHeader t1ha isShutdown dropHandshake data s = Some (r, s')
    \<Longrightarrow> receive_run t1ha (Suc k) (case r of Accepted a \<Rightarrow> ns @ [Nonce a] | _ \<Rightarrow> ns) s'"
| rest: "receive_run t1ha k ns s \<Longrightarrow> AntiReplay s' = AntiReplay s \<Longrightarrow> receive_run t1ha k ns s'"

definition replay_inv :: "nat \<Rightarrow> u64 list \<Rightarrow> StrikeRegister \<Rightarrow> bool" where
  "replay_inv k ns r \<longleftrightarrow> strike_wf r \<and> uint (LargestSequence r) \<le> int k * 2 ^ 23 \<and> distinct ns
     \<and> (\<forall>n \<in> set ns. n < 2 ^ 63 \<and> IsDuplicate r n)"

lemma replay_inv_accept:
  assumes inv: "replay_inv k ns r" and k: "k < 2 ^ 39" and q: "\<not> IsDuplicate r q" "near_largest r q"
  shows "replay_inv (Suc k) (ns @ [q]) (Accept r q)"
proof -
  have wf: "strike_wf r" and L: "uint (LargestSequence r) \<le> int k * 2 ^ 23"
    and ns: "distinct ns" "\<And>n. n \<in> set ns \<Longrightarrow> n < 2 ^ 63 \<and> IsDuplicate r n"
    using inv by (auto simp: replay_inv_def)
  have "uint (LargestSequence r) < 2 ^ 62" using L k by simp
  note ahead = near_largest_ahead [OF wf q this]
  have wf': "strike_wf (Accept r q)" "LargestSequence (Accept r q) = max (LargestSequence r) q"
    using strike_wf_Accept [OF wf ahead(1-3)] by simp_all
  have "strikes r q (Accept r q)" using wf ahead by (intro strikes_Accept) (simp_all add: strike_wf_def)
  then have dup: "\<And>p. p < 2 ^ 63 \<Longrightarrow> p = q \<or> IsDuplicate r p \<Longrightarrow> IsDuplicate (Accept r q) p"
    by (auto simp: strikes_def)
  have "uint (max (LargestSequence r) q) \<le> int (Suc k) * 2 ^ 23"
    using L ahead(4) by (simp add: max_def)
  then show ?thesis
    using wf' ns q(1) ahead(2) dup by (auto simp: replay_inv_def)
qed


lemma replay_inv_mono: "replay_inv k ns r \<Longrightarrow> replay_inv (Suc k) ns r"
  by (simp add: replay_inv_def)

lemma replay_inv_fewer: "replay_inv k (ns @ [q]) r \<Longrightarrow> replay_inv k ns r"
  by (simp add: replay_inv_def)

lemma receive_run_inv:
  assumes "receive_run t1ha k ns s" and "k \<le> 2 ^ 39"
  shows "replay_inv k ns (AntiReplay s)"
  using assms
proof induction
  case (start s)
  then show ?case using strike_wf_Reset [of 0] by (simp add: replay_inv_def) (simp add: Reset_def)
next
  case (datagram k ns s sd dh data r s')
  then have inv: "replay_inv k ns (AntiReplay s)" "k < 2 ^ 39" by simp_all
  from ReceiveHeader_register [OF datagram.hyps(2)] show ?case
  proof (elim disjE exE conjE)
    assume "AntiReplay s' = AntiReplay s" "\<forall>a. r \<noteq> Accepted a"
    then show ?thesis using replay_inv_mono [OF inv(1)] by (simp split: receive_result.split)
  next
    fix q
    assume q: "\<not> IsDuplicate (AntiReplay s) q" "near_largest (AntiReplay s) q"
      and s': "AntiReplay s' = Accept (AntiReplay s) q" and r: "\<forall>a. r = Accepted a \<longrightarrow> Nonce a = q"
    note new = replay_inv_accept [OF inv q]
    show ?thesis
      using new replay_inv_fewer [OF new] r by (cases r) (simp_all add: s')
  qed
next
  case (rest k ns s s')
  then show ?case by simp
qed

section \<open>Reliable sequence numbers\<close>

lemma Counter22_sum:
  assumes "seq < 0x400000" "(f :: u32) < 0x400000" and g: "sint g = uint seq - uint f"
  shows "counter_add 22 f (Counter 22 (scast (g :: 'a::len word))) = seq"
proof -
  have "scast g = (word_of_int (uint seq - uint f) :: u32)" by (simp add: scast_eq g del: of_int_diff)
  then have s: "scast g = seq - f" by simp
  have "take_bit 22 (f + take_bit 22 (seq - f)) = take_bit 22 (f + (seq - f))"
    by (intro take_bit_add_cong) simp_all
  also have "\<dots> = seq"
    using assms(1) by (simp add: word_uint_eq_iff uint_take_bit_mod word_less_def)
  finally show ?thesis
    by (simp add: s counter_add_def Counter_eq_take_bit)
qed


lemma sint_truncated_difference:
  assumes "- (2 ^ (LENGTH('s) - 1)) \<le> uint a - uint b" "uint a - uint (b :: u32) < 2 ^ (LENGTH('s) - 1)"
  shows "sint (ucast a - ucast b :: 's::len word) = uint a - uint b"
proof -
  have "ucast a - ucast b = (word_of_int (uint a - uint b) :: 's word)" by (simp only: ucast_eq of_int_diff)
  then show ?thesis
    using assms by (simp add: sint_sbintrunc' signed_take_bit_int_eq_self del: of_int_diff)
qed

text \<open>The receiver expands a truncated sequence number correctly from every expected number that lies
  between the two ends the sender took into account.\<close>

lemma expand_seq_near:
  assumes "seq < 0x400000" "f < 0x400000" and n: "n \<in> {1..3}"
    and near: "n < 3 \<Longrightarrow> \<bar>uint seq - uint f\<bar> < 2 ^ (8 * n - 1)"
  shows "expand_seq f n (take_bit (8 * n) seq) = seq"
proof -
  have u: "uint seq < 0x400000" "uint f < 0x400000" using assms by (simp_all add: word_less_def)
  have f: "Counter 22 f = f" using u by (simp add: Counter_eq_take_bit word_uint_eq_iff uint_take_bit_mod)
  consider "n = 1" | "n = 2" | "n = 3" using n by fastforce
  then show ?thesis
  proof cases
    case 1
    have "sint (ucast seq - ucast f :: u8) = uint seq - uint f"
      using near 1 by (intro sint_truncated_difference) auto
    moreover have "(ucast (take_bit 8 seq) :: u8) = ucast seq" by (intro bit_word_eqI) (auto simp: bit_simps)
    ultimately show ?thesis
      using 1 f assms Counter22_sum [of seq f "ucast seq - ucast f :: u8"]
      by (simp add: expand_seq_def ExpandFromTruncated_full_def Counter_eq_take_bit [where 'w = 8] Let_def)
  next
    case 2
    have "sint (ucast seq - ucast f :: u16) = uint seq - uint f"
      using near 2 by (intro sint_truncated_difference) auto
    moreover have "(ucast (take_bit 16 seq) :: u16) = ucast seq" by (intro bit_word_eqI) (auto simp: bit_simps)
    ultimately show ?thesis
      using 2 f assms Counter22_sum [of seq f "ucast seq - ucast f :: u16"]
      by (simp add: expand_seq_def ExpandFromTruncated_full_def Counter_eq_take_bit [where 'w = 16] Let_def)
  next
    case 3
    then show ?thesis using u
      by (simp add: expand_seq_def word_uint_eq_iff uint_take_bit_mod)
  qed
qed

lemma seq_mag:
  assumes "a < 0x400000" "(b :: u32) < 0x400000"
  shows "sint (a - b) = uint a - uint b"
proof -
  have "uint a < 0x400000" "uint b < 0x400000" using assms by (simp_all add: word_less_def)
  note difference_range [OF uint_ge_0 this(1) uint_ge_0 this(2)]
  then have "sint (ucast a - ucast b :: u32) = uint a - uint b"
    by (intro sint_truncated_difference) simp_all
  then show ?thesis by simp
qed


section \<open>Properties\<close>

text \<open>Property C3: no nonce is ever accepted twice.  Take any session that starts from the initial anti-replay
  register and is shown any sequence of up to \<open>2^39\<close> datagrams, replayed, reordered or forged at will:
  the nonces of the accepted datagrams are pairwise different, and from then on each of them is
  reported as a duplicate.\<close>

theorem accepted_nonces_distinct:
  assumes "receive_run t1ha k ns s" and "k \<le> 2 ^ 39"
  shows "distinct ns \<and> (\<forall>n \<in> set ns. IsDuplicate (AntiReplay s) n)
    \<and> strike_wf (AntiReplay s) \<and> uint (LargestSequence (AntiReplay s)) \<le> int k * 2 ^ 23"
  using receive_run_inv [OF assms] by (simp add: replay_inv_def)

definition receive_example :: "u64 \<Rightarrow> (unit, unit) SessionIncoming" where
  "receive_example largest = \<lparr>AntiReplay = Reset largest, Decryptor = Initialize 0x1234, FECDecoder = (),
     FECNextExpectedPacketNum = 0, LastAckAckSeq = 0x800000, ReliableIncoming = replicate 6 [],
     LowPriIncoming = replicate 6 [], Decompressor = (), FirstReliable = None, LargestSendTS24 = 0, Events = []\<rparr>"

lemma receive_example_accepts:
  "\<exists>a s. ReceiveHeader (\<lambda>d n. n) False False
      (datagram_wire (\<lambda>d n. n) (Initialize 0x1234) [1, 2, 3] 0 0 0 1 [] (datagram_flags True 0 0 False) 77)
      (receive_example 0) = Some (Accepted a, s) \<and> Nonce a = 1"
proof -
  have "\<not> IsDuplicate (Reset 0) 1"
    by (simp add: IsDuplicate_def Reset_def counter_lt64_iff_sint Let_def strike_consts window_test_bit counter_sub_def
        Counter_eq_take_bit)
  moreover have "decoded_nonce (Reset 0) 0 1 = 1"
    by (simp add: decoded_nonce_def GetNextExpected_eq) (simp add: Reset_def)
  ultimately show ?thesis
    using ReceiveHeader_wire [of "receive_example 0" 0 0 "[]" "datagram_flags True 0 0 False" 1 False "[1, 2, 3]" "\<lambda>d n. n" 0 77]
    by (auto simp: receive_example_def datagram_flags_fields Let_def)
qed

theorem accepted_nonces_distinct_witness:
  "\<exists>s. distinct [1 :: u64] \<and> IsDuplicate (AntiReplay (s :: (unit, unit) SessionIncoming)) 1
    \<and> strike_wf (AntiReplay s) \<and> uint (LargestSequence (AntiReplay s)) \<le> int 1 * 2 ^ 23"
proof -
  obtain a s where "ReceiveHeader (\<lambda>d n. n) False False
      (datagram_wire (\<lambda>d n. n) (Initialize 0x1234) [1, 2, 3] 0 0 0 1 [] (datagram_flags True 0 0 False) 77)
      (receive_example 0) = Some (Accepted a, s)" "Nonce a = 1"
    using receive_example_accepts by blast
  moreover have "receive_run (\<lambda>d n. n) 0 [] (receive_example 0)"
    by (rule receive_run.start) (simp add: receive_example_def)
  ultimately have "receive_run (\<lambda>d n. n) (Suc 0) [1] s"
    using receive_run.datagram [of "\<lambda>d n. n" 0 "[]" "receive_example 0"] by fastforce
  from accepted_nonces_distinct [OF this] show ?thesis by auto
qed




text \<open>Property C26: reliable sequence numbers survive truncation.  The receiver expands the number correctly
  whenever its expected number lies between the last one acknowledged and the next one to be sent, or
  when that interval contains the roll-over of the 22-bit counter (the sender then sends three bytes,
  provided that the two ends are at least \<open>2^17\<close> apart as integers).\<close>

theorem truncated_seqnum_decodes:
  assumes "seq < 0x400000" and "f < 0x400000"
    and "PeerNextExpectedSeqNum s < 0x400000" and "NextSequenceNumber s < 0x400000"
    and "PeerNextExpectedSeqNum s \<le> f \<and> f \<le> NextSequenceNumber s
      \<or> 2 ^ 17 \<le> uint (PeerNextExpectedSeqNum s) - uint (NextSequenceNumber s)"
  shows "expand_seq f (getPacketNumBytes seq s) (take_bit (8 * getPacketNumBytes seq s) seq) = seq"
proof (rule expand_seq_near [OF assms(1,2) getPacketNumBytes_range])
  let ?P = "uint (PeerNextExpectedSeqNum s)" and ?N = "uint (NextSequenceNumber s)"
  let ?m = "max \<bar>uint seq - ?P\<bar> \<bar>uint seq - ?N\<bar> + 1"
  assume lt: "getPacketNumBytes seq s < 3"
  then have m: "?m < 2 ^ (8 * getPacketNumBytes seq s - 1)"
    by (auto simp: getPacketNumBytes_def Let_def seq_mag assms split: if_splits)
  have "?m < 0x8000"
    using lt by (auto simp: getPacketNumBytes_def Let_def seq_mag assms split: if_splits)
  then have "\<not> 2 ^ 17 \<le> ?P - ?N" by auto
  then have "?P \<le> uint f" "uint f \<le> ?N" using assms(5) by (auto simp: word_le_def)
  then have "\<bar>uint seq - uint f\<bar> < ?m" by auto
  then show "\<bar>uint seq - uint f\<bar> < 2 ^ (8 * getPacketNumBytes seq s - 1)" using m by simp
qed


theorem truncated_seqnum_decodes_witness:
  "expand_seq 4 (getPacketNumBytes 5 send_example) (take_bit (8 * getPacketNumBytes 5 send_example) 5) = 5"
  by (rule truncated_seqnum_decodes) (simp_all add: send_example_def)



end
