(* ===== verification/Message_Delivery.thy ===== *)
theory Message_Delivery
  imports Session_Receive
begin

text \<open>
  Message processing of a session, the remaining functions of \<open>TonkineseIncoming.cpp\<close>: stepping through
  the message frames of a datagram, a decompressed block or a packet recovered by the FEC decoder,
  reassembling split messages per channel, resuming in-order processing, and the tail of
  \<open>ProcessDatagram\<close>.

  The FEC decoder, the decompressor and the handlers of other subsystems are given by their functions,
  collected in the record \<open>incoming_deps\<close>.  An operation returns the error it stopped with, if any,
  and the new state; a read outside of a buffer is the error \<open>MemoryFault\<close>.  The two loops that depend on
  the answers of the FEC decoder are partial functions in the option monad, \<open>None\<close> meaning that the
  loop does not end.
\<close>

unbundle bit_operations_syntax

section \<open>Types\<close>

definition kMessageLengthMask :: u32 where "kMessageLengthMask = 2047"
definition kAckAckBytes :: nat where "kAckAckBytes = 3"
definition SIAMESE_PACKET_NUM_INC :: "u32 \<Rightarrow> u32" where "SIAMESE_PACKET_NUM_INC x = (x + 1) AND (0x400000 - 1)"


datatype recv_error =
    MemoryFault
  | TruncatedMessage
  | InvalidFrame
  | InvalidAckAck
  | InvalidMessageType
  | ReliableTooLong
  | NoSequenceNumber
  | BogonData
  | SiameseFailed SiameseResult
  | DecompressFailed
  | HandlerFailed event

type_synonym 's outcome = "recv_error option \<times> 's"

text \<open>The operations of the decoder and the decompressor that the session calls.  \<open>HandlerOk\<close> says whether
  a call to another subsystem succeeds, given the calls made before it.\<close>

record ('d, 'z) incoming_deps =
  decoder_get :: "'d \<Rightarrow> u32 \<Rightarrow> SiameseResult \<times> bytes"
  decoder_add_original :: "u32 \<Rightarrow> bytes \<Rightarrow> 'd \<Rightarrow> SiameseResult \<times> 'd"
  decoder_add_recovery :: "bytes \<Rightarrow> 'd \<Rightarrow> SiameseResult \<times> 'd"
  decoder_is_ready :: "'d \<Rightarrow> SiameseResult"
  siamese_decode :: "'d \<Rightarrow> SiameseResult \<times> bytes list \<times> 'd"
  Decompress :: "bytes \<Rightarrow> 'z \<Rightarrow> bytes option \<times> 'z"
  InsertUncompressed :: "bytes \<Rightarrow> 'z \<Rightarrow> 'z"
  HandlerOk :: "event list \<Rightarrow> event \<Rightarrow> bool"

text \<open>Sequencing with early return on an error.\<close>

definition andThen :: "'s outcome \<Rightarrow> ('s \<Rightarrow> 's outcome) \<Rightarrow> 's outcome" where
  "andThen o' k = (case o' of (Some e, s) \<Rightarrow> (Some e, s) | (None, s) \<Rightarrow> k s)"

definition call_handler :: "('d, 'z) incoming_deps \<Rightarrow> event \<Rightarrow> ('d, 'z) SessionIncoming
    \<Rightarrow> ('d, 'z) SessionIncoming outcome" where
  "call_handler D e s = (if HandlerOk D (Events s) e then None else Some (HandlerFailed e), emit e s)"

section \<open>Frames\<close>

text \<open>The loop over the message frames of a buffer of which \<open>limit\<close> bytes may be read.  The body \<open>h\<close> gets the
  offset of the message data, the type and the number of bytes.\<close>

function for_frames :: "(nat \<Rightarrow> u32 \<Rightarrow> nat \<Rightarrow> 's \<Rightarrow> 's outcome) \<Rightarrow> bytes \<Rightarrow> nat \<Rightarrow> nat \<Rightarrow> 's \<Rightarrow> 's outcome" where
  "for_frames h data limit pos s =
     (if pos + kMessageFrameBytes \<le> limit then
        (case ReadU16_LE data pos of
           None \<Rightarrow> (Some MemoryFault, s)
         | Some w \<Rightarrow>
           let header = (ucast w :: u32);
               messageBytes = unat (header AND kMessageLengthMask);
               messageData = pos + kMessageFrameBytes
           in if limit - messageData < messageBytes then (Some TruncatedMessage, s)
              else (case h messageData (drop_bit kMessageLengthBits header) messageBytes s of
                      (Some e, s) \<Rightarrow> (Some e, s)
                    | (None, s) \<Rightarrow> for_frames h data limit (messageData + messageBytes) s))
      else if pos < limit then (Some InvalidFrame, s)
      else (None, s))"
  by pat_completeness auto
termination
  by (relation "measure (\<lambda>(h, data, limit, pos, s). limit - pos)") (auto simp: kMessageFrameBytes_def)

declare for_frames.simps [simp del]

section \<open>Delivery\<close>

definition insertUncompressed :: "('d, 'z) incoming_deps \<Rightarrow> bytes \<Rightarrow> nat \<Rightarrow> ('d, 'z) SessionIncoming
    \<Rightarrow> ('d, 'z) SessionIncoming" where
  "insertUncompressed D data end' s =
     (case FirstReliable s of
        None \<Rightarrow> s
      | Some start \<Rightarrow> s\<lparr>Decompressor := InsertUncompressed D (slice data start (end' - start)) (Decompressor s),
                         FirstReliable := None\<rparr>)"

definition irc_get :: "bool \<Rightarrow> nat \<Rightarrow> ('d, 'z) SessionIncoming \<Rightarrow> bytes" where
  "irc_get lowPri channel s = (if lowPri then LowPriIncoming s else ReliableIncoming s) ! channel"

definition irc_set :: "bool \<Rightarrow> nat \<Rightarrow> bytes \<Rightarrow> ('d, 'z) SessionIncoming \<Rightarrow> ('d, 'z) SessionIncoming" where
  "irc_set lowPri channel d s =
     (if lowPri then s\<lparr>LowPriIncoming := (LowPriIncoming s)[channel := d]\<rparr>
      else s\<lparr>ReliableIncoming := (ReliableIncoming s)[channel := d]\<rparr>)"

definition deliver_channel :: "bool \<Rightarrow> nat \<Rightarrow> u32 \<Rightarrow> bytes \<Rightarrow> ('d, 'z) SessionIncoming
    \<Rightarrow> ('d, 'z) SessionIncoming outcome" where
  "deliver_channel lowPri channelOffset channel messageData s =
     (if channel < TonkChannel_Count then
        (let s = irc_set lowPri (unat channel) (irc_get lowPri (unat channel) s @ messageData) s
         in if length (irc_get lowPri (unat channel) s) > TONK_MAX_RELIABLE_BYTES
            then (Some ReliableTooLong, s) else (None, s))
      else
        (let ch = unat (channel - TonkChannel_Count) in
         if irc_get lowPri ch s \<noteq> [] then
           (let s = irc_set lowPri ch (irc_get lowPri ch s @ messageData) s;
                totalBytes = length (irc_get lowPri ch s)
            in if totalBytes > TONK_MAX_RELIABLE_BYTES then (Some ReliableTooLong, s)
               else (None, irc_set lowPri ch [] (emit (OnData (channelOffset + ch) (irc_get lowPri ch s)) s)))
         else (None, irc_set lowPri ch [] (emit (OnData (channelOffset + ch) messageData) s))))"

definition deliverMessage :: "('d, 'z) incoming_deps \<Rightarrow> u32 \<Rightarrow> bytes \<Rightarrow> ('d, 'z) SessionIncoming
    \<Rightarrow> ('d, 'z) SessionIncoming outcome" where
  "deliverMessage D messageType messageData s =
     (if messageType = MessageType_Control then call_handler D (OnControlChannel messageData) s
      else if messageType = MessageType_Unordered then (None, emit (OnData TonkChannel_Unordered messageData) s)
      else if messageType = MessageType_Unreliable then (None, emit (OnData TonkChannel_Unreliable messageData) s)
      else let channel = messageType - MessageType_Reliable in
        if channel \<ge> kLowPriEndChannel0 + TonkChannel_Count then (Some InvalidMessageType, s)
        else if channel < TonkChannel_Count * 2 then deliver_channel False TonkChannel_Reliable0 channel messageData s
        else deliver_channel True TonkChannel_LowPri0 (channel - TonkChannel_Count * 2) messageData s)"

definition onCompressed :: "('d, 'z) incoming_deps \<Rightarrow> bytes \<Rightarrow> ('d, 'z) SessionIncoming
    \<Rightarrow> ('d, 'z) SessionIncoming outcome" where
  "onCompressed D data s =
     (if length data \<le> 0 then (None, s)
      else case Decompress D data (Decompressor s) of
        (None, z) \<Rightarrow> (Some DecompressFailed, s\<lparr>Decompressor := z\<rparr>)
      | (Some decompressed, z) \<Rightarrow>
          for_frames (\<lambda>off messageType messageBytes. deliverMessage D messageType (slice decompressed off messageBytes))
            decompressed (length decompressed) 0 (s\<lparr>Decompressor := z\<rparr>))"

text \<open>\<open>data\<close> is the buffer that holds the message at offset \<open>off\<close>.\<close>

definition handleReliableMessage :: "('d, 'z) incoming_deps \<Rightarrow> bytes \<Rightarrow> nat \<Rightarrow> u32 \<Rightarrow> nat \<Rightarrow> ('d, 'z) SessionIncoming
    \<Rightarrow> ('d, 'z) SessionIncoming outcome" where
  "handleReliableMessage D data off messageType messageBytes s =
     (if messageType = MessageType_Compressed then
        onCompressed D (slice data off messageBytes) (insertUncompressed D data (off - kMessageFrameBytes) s)
      else let s = (if FirstReliable s = None \<and> messageType < MessageType_Control
                    then s\<lparr>FirstReliable := Some (off - kMessageFrameBytes)\<rparr> else s)
        in deliverMessage D messageType (slice data off messageBytes) s)"

section \<open>Recovered packets\<close>

definition onSiameseSolved :: "('d, 'z) incoming_deps \<Rightarrow> bytes \<Rightarrow> ('d, 'z) SessionIncoming
    \<Rightarrow> ('d, 'z) SessionIncoming outcome" where
  "onSiameseSolved D data =
     for_frames (\<lambda>off messageType messageBytes s.
         if messageType = MessageType_Unordered \<or> messageType = MessageType_Unreliable
         then deliverMessage D messageType (slice data off messageBytes) s
         else (None, s))
       data (length data) 0"

text \<open>The body of the loop of \<open>resumeProcessing\<close>, for a packet that the decoder returned.\<close>

definition resume_packet :: "('d, 'z) incoming_deps \<Rightarrow> bytes \<Rightarrow> ('d, 'z) SessionIncoming
    \<Rightarrow> ('d, 'z) SessionIncoming outcome" where
  "resume_packet D data s =
     (let s = s\<lparr>FirstReliable := None, FECNextExpectedPacketNum := SIAMESE_PACKET_NUM_INC (FECNextExpectedPacketNum s)\<rparr>
      in andThen
        (for_frames (\<lambda>off messageType messageBytes s.
             if messageType < MessageType_StartOfReliables \<or> messageType = MessageType_Unordered then (None, s)
             else handleReliableMessage D data off messageType messageBytes s)
           data (length data) 0 s)
        (\<lambda>s. (None, insertUncompressed D data (length data) s)))"

partial_function (option) resumeProcessing :: "('d, 'z) incoming_deps \<Rightarrow> ('d, 'z) SessionIncoming
    \<Rightarrow> ('d, 'z) SessionIncoming outcome option" where
  "resumeProcessing D s =
     (case decoder_get D (FECDecoder s) (FECNextExpectedPacketNum s) of (getResult, data) \<Rightarrow>
        if getResult = Siamese_NeedMoreData then Some (None, s)
        else if getResult \<noteq> Siamese_Success then Some (Some (SiameseFailed getResult), s)
        else (case resume_packet D data s of
                (Some e, s) \<Rightarrow> Some (Some e, s)
              | (None, s) \<Rightarrow> resumeProcessing D s))"

text \<open>Errors inside of recovered packets are ignored, as in the code.\<close>

definition deliver_solved :: "('d, 'z) incoming_deps \<Rightarrow> bytes list \<Rightarrow> ('d, 'z) SessionIncoming
    \<Rightarrow> ('d, 'z) SessionIncoming" where
  "deliver_solved D packets s = fold (\<lambda>p s. snd (onSiameseSolved D p s)) packets s"

partial_function (option) attemptDecode :: "('d, 'z) incoming_deps \<Rightarrow> ('d, 'z) SessionIncoming
    \<Rightarrow> ('d, 'z) SessionIncoming outcome option" where
  "attemptDecode D s =
     (let readyResult = decoder_is_ready D (FECDecoder s) in
      if readyResult = Siamese_NeedMoreData then Some (None, s)
      else if readyResult \<noteq> Siamese_Success then Some (Some (SiameseFailed readyResult), s)
      else (case siamese_decode D (FECDecoder s) of (decodeResult, recovered, d) \<Rightarrow>
        let s = deliver_solved D recovered (s\<lparr>FECDecoder := d\<rparr>) in
        if decodeResult = Siamese_NeedMoreData then Some (None, s)
        else if decodeResult \<noteq> Siamese_Success then Some (Some (SiameseFailed decodeResult), s)
        else Option.bind (resumeProcessing D s) (\<lambda>r. case r of
            (Some e, s) \<Rightarrow> Some (Some e, s)
          | (None, s) \<Rightarrow> attemptDecode D s)))"

definition onRecovery :: "('d, 'z) incoming_deps \<Rightarrow> bytes \<Rightarrow> ('d, 'z) SessionIncoming
    \<Rightarrow> ('d, 'z) SessionIncoming outcome option" where
  "onRecovery D data s =
     (case decoder_add_recovery D data (FECDecoder s) of (result, d) \<Rightarrow>
        let s = s\<lparr>FECDecoder := d\<rparr> in
        if result \<noteq> Siamese_Success then Some (Some (SiameseFailed result), s) else attemptDecode D s)"

definition decoderAddOriginal :: "('d, 'z) incoming_deps \<Rightarrow> u32 \<Rightarrow> bytes \<Rightarrow> ('d, 'z) SessionIncoming
    \<Rightarrow> ('d, 'z) SessionIncoming outcome option" where
  "decoderAddOriginal D packetNum data s =
     (case decoder_add_original D packetNum data (FECDecoder s) of (result, d) \<Rightarrow>
        let s = s\<lparr>FECDecoder := d\<rparr> in
        if result = Siamese_DuplicateData then Some (None, s)
        else if result \<noteq> Siamese_Success then Some (Some (SiameseFailed result), s)
        else if packetNum = FECNextExpectedPacketNum s then
          Option.bind
            (resumeProcessing D (s\<lparr>FECNextExpectedPacketNum := SIAMESE_PACKET_NUM_INC (FECNextExpectedPacketNum s)\<rparr>))
            (\<lambda>r. case r of (Some e, s) \<Rightarrow> Some (Some e, s) | (None, s) \<Rightarrow> attemptDecode D s)
        else attemptDecode D s)"


section \<open>Datagrams\<close>

text \<open>The local variables of the message loop of \<open>ProcessDatagram\<close>, with the session state.\<close>

record ('d, 'z) datagram_loop =
  Session :: "('d, 'z) SessionIncoming"
  checkedFSOOS :: bool
  firstSeenOutOfSequence :: bool
  reliableStartOffset :: nat
  reliableEndOffset :: nat

definition lift_session :: "('d, 'z) SessionIncoming outcome \<Rightarrow> ('d, 'z) datagram_loop \<Rightarrow> ('d, 'z) datagram_loop outcome" where
  "lift_session o' l = (fst o', l\<lparr>Session := snd o'\<rparr>)"

definition mark_reliable :: "nat \<Rightarrow> nat \<Rightarrow> ('d, 'z) datagram_loop \<Rightarrow> ('d, 'z) datagram_loop" where
  "mark_reliable frameStart frameEnd l =
     l\<lparr>reliableStartOffset := (if reliableEndOffset l = 0 then frameStart else reliableStartOffset l),
       reliableEndOffset := frameEnd\<rparr>"

definition unordered_frame :: "('d, 'z) incoming_deps \<Rightarrow> u32 \<Rightarrow> bytes \<Rightarrow> ('d, 'z) datagram_loop
    \<Rightarrow> ('d, 'z) datagram_loop outcome" where
  "unordered_frame D relseqNum messageData l =
     (let getResult = fst (decoder_get D (FECDecoder (Session l)) relseqNum);
          checked = checkedFSOOS l;
          l = l\<lparr>checkedFSOOS := True\<rparr>;
          l = (if \<not> checked \<and> getResult = Siamese_NeedMoreData then l\<lparr>firstSeenOutOfSequence := True\<rparr> else l)
      in if \<not> checked \<and> getResult \<noteq> Siamese_NeedMoreData \<and> getResult \<noteq> Siamese_Success
         then (Some (SiameseFailed getResult), l)
         else (None, if firstSeenOutOfSequence l
                     then l\<lparr>Session := emit (OnData TonkChannel_Unordered messageData) (Session l)\<rparr> else l))"

definition datagram_frame :: "('d, 'z) incoming_deps \<Rightarrow> bytes \<Rightarrow> u32 \<Rightarrow> bool \<Rightarrow> nat \<Rightarrow> u32 \<Rightarrow> nat
    \<Rightarrow> ('d, 'z) datagram_loop \<Rightarrow> ('d, 'z) datagram_loop outcome" where
  "datagram_frame D data relseqNum inSequence off messageType messageBytes l =
     (let messageData = slice data off messageBytes in
      if messageType \<ge> MessageType_StartOfReliables then
        andThen
          (if messageType = MessageType_Unordered then unordered_frame D relseqNum messageData l
           else if inSequence
           then lift_session (handleReliableMessage D data off messageType messageBytes (Session l)) l
           else (None, l))
          (\<lambda>l. (None, mark_reliable (off - kMessageFrameBytes) (off + messageBytes) l))
      else if messageType = MessageType_Unreliable then
        (None, l\<lparr>Session := emit (OnData TonkChannel_Unreliable messageData) (Session l)\<rparr>)
      else if messageType = MessageType_Acknowledgements then
        lift_session (call_handler D (OnAcknowledgements messageData) (Session l)) l
      else if messageType = MessageType_TimeSync then
        lift_session (call_handler D (OnTimeSync messageData) (Session l)) l
      else if messageType = MessageType_AckAck then
        (if messageBytes \<noteq> kAckAckBytes then (Some InvalidAckAck, l)
         else case ReadU24_LE_Min4Bytes data off of
           None \<Rightarrow> (Some MemoryFault, l)
         | Some v \<Rightarrow> (None, l\<lparr>Session := (Session l)\<lparr>LastAckAckSeq := v\<rparr>\<rparr>))
      else (None, l\<lparr>Session := insertUncompressed D data (off - kMessageFrameBytes) (Session l)\<rparr>))"

definition kUDPIPV4_HeaderBytes :: nat where "kUDPIPV4_HeaderBytes = 28"

text \<open>The code after the label \<open>SkipMessageProcessing\<close>.\<close>

definition finish_datagram_receive :: "('d, 'z) incoming_deps \<Rightarrow> u64 \<Rightarrow> accepted_datagram \<Rightarrow> nat \<Rightarrow> nat
    \<Rightarrow> ('d, 'z) SessionIncoming \<Rightarrow> ('d, 'z) SessionIncoming outcome option" where
  "finish_datagram_receive D receiveUsec a start end' s =
     (let sendTimeTS24 = ExpandFromTruncated 32 24 (LargestSendTS24 s) (SendTS24 a);
          s = (if counter_lt 32 (LargestSendTS24 s) sendTimeTS24 then s\<lparr>LargestSendTS24 := sendTimeTS24\<rparr> else s);
          recvTimeTS24 = ucast (drop_bit kTime23LostBits receiveUsec);
          s = emit (OnProcessedDatagram (length (Datagram a) + kUDPIPV4_HeaderBytes) (Nonce a)
                (counter_sub 32 recvTimeTS24 sendTimeTS24)) s
      in if end' \<le> start then Some (None, s)
         else (case RelSeq a of
                 None \<Rightarrow> Some (Some NoSequenceNumber, s)
               | Some relseqNum \<Rightarrow> decoderAddOriginal D relseqNum (slice (Datagram a) start (end' - start)) s))"

definition handle_accepted :: "('d, 'z) incoming_deps \<Rightarrow> u64 \<Rightarrow> accepted_datagram
    \<Rightarrow> ('d, 'z) SessionIncoming \<Rightarrow> ('d, 'z) SessionIncoming outcome option" where
  "handle_accepted D receiveUsec a s =
     (let relseqNum = (case RelSeq a of None \<Rightarrow> 0 | Some n \<Rightarrow> n);
          inSequence = (RelSeq a \<noteq> None \<and> FECNextExpectedPacketNum s = relseqNum);
          s = emit AuthenticatedDatagram s
      in if IsOnlyFEC (FlagsByte a) then
           Option.bind (onRecovery D (take (PayloadBytes a) (Datagram a)) s)
             (\<lambda>r. case r of
                (Some e, s) \<Rightarrow> Some (Some e, s)
              | (None, s) \<Rightarrow> finish_datagram_receive D receiveUsec a 0 0 s)
         else
           (let l = \<lparr>Session = s\<lparr>FirstReliable := None\<rparr>, checkedFSOOS = False, firstSeenOutOfSequence = False,
                     reliableStartOffset = 0, reliableEndOffset = 0\<rparr>
            in case for_frames (datagram_frame D (Datagram a) relseqNum inSequence) (Datagram a) (PayloadBytes a) 0 l of
                 (Some e, l) \<Rightarrow> Some (Some e, Session l)
               | (None, l) \<Rightarrow> finish_datagram_receive D receiveUsec a (reliableStartOffset l) (reliableEndOffset l)
                   (insertUncompressed D (Datagram a) (PayloadBytes a) (Session l))))"

definition ProcessDatagram :: "('d, 'z) incoming_deps \<Rightarrow> (bytes \<Rightarrow> u64 \<Rightarrow> u64) \<Rightarrow> bool \<Rightarrow> bool \<Rightarrow> u64 \<Rightarrow> bytes
    \<Rightarrow> ('d, 'z) SessionIncoming \<Rightarrow> ('d, 'z) SessionIncoming outcome option" where
  "ProcessDatagram D t1ha isShutdown dropHandshake receiveUsec data s =
     (case ReceiveHeader t1ha isShutdown dropHandshake data s of
        None \<Rightarrow> Some (Some MemoryFault, s)
      | Some (Ignored, s) \<Rightarrow> Some (None, s)
      | Some (IgnoredDupe, s) \<Rightarrow> Some (Some BogonData, s)
      | Some (BadChecksum, s) \<Rightarrow> Some (Some BogonData, s)
      | Some (IgnoredReordered, s) \<Rightarrow> Some (Some BogonData, s)
      | Some (Accepted a, s) \<Rightarrow> handle_accepted D receiveUsec a s)"


section \<open>Stepping through frames\<close>

text \<open>A frame that fits the header: five bits of type, eleven bits of length.\<close>

definition frame_ok :: "u32 \<times> bytes \<Rightarrow> bool" where
  "frame_ok = (\<lambda>(t, d). t < 32 \<and> length d < 2048)"

abbreviation frames_wire :: "(u32 \<times> bytes) list \<Rightarrow> bytes" where
  "frames_wire fs \<equiv> concat (map frame_wire fs)"

lemma frame_header_fields:
  assumes "t < 32" and "n < 2048"
  defines "w \<equiv> (ucast (push_bit 11 t OR word_of_nat n :: u32) :: u16)"
  shows "unat ((ucast w :: u32) AND kMessageLengthMask) = n" "drop_bit 11 (ucast w :: u32) = t"
proof -
  have un: "unat (word_of_nat n :: u32) = n" using assms(2) by (simp add: unat_of_nat)
  have tb: "bit t k \<Longrightarrow> k < 5" for k
    using word_bit_bound [of t 5 k] assms(1) by (simp add: word_less_nat_alt)
  have nb: "bit (word_of_nat n :: u32) k \<Longrightarrow> k < 11" for k
    using word_bit_bound [of "word_of_nat n :: u32" 11 k] assms(2) un by simp
  have mk: "kMessageLengthMask = mask 11" by (simp add: kMessageLengthMask_def mask_numeral)
  have "(ucast w :: u32) AND kMessageLengthMask = word_of_nat n"
    unfolding mk w_def
    by (intro bit_word_eqI) (auto simp: bit_and_iff bit_mask_iff bit_ucast_iff bit_or_iff bit_push_bit_iff dest: nb)
  then show "unat ((ucast w :: u32) AND kMessageLengthMask) = n" by (simp add: un)
  show "drop_bit 11 (ucast w :: u32) = t"
    unfolding w_def
    by (intro bit_word_eqI) (auto simp: bit_drop_bit_eq bit_ucast_iff bit_or_iff bit_push_bit_iff dest: nb tb)
qed

fun run_frames :: "(nat \<Rightarrow> u32 \<Rightarrow> nat \<Rightarrow> 's \<Rightarrow> 's outcome) \<Rightarrow> nat \<Rightarrow> (u32 \<times> bytes) list \<Rightarrow> 's \<Rightarrow> 's outcome" where
  "run_frames h pos [] s = (None, s)"
| "run_frames h pos ((t, d) # fs) s =
     andThen (h (pos + 2) t (length d) s) (run_frames h (pos + 2 + length d) fs)"

lemma for_frames_wire:
  assumes "list_all frame_ok fs" and "data = pre @ frames_wire fs @ post"
  shows "for_frames h data (length pre + length (frames_wire fs)) (length pre) s = run_frames h (length pre) fs s"
  using assms
proof (induction fs arbitrary: pre s)
  case Nil
  then show ?case by (subst for_frames.simps) (simp add: kMessageFrameBytes_def)
next
  case (Cons f fs)
  obtain t d where f: "f = (t, d)" by (cases f)
  have ok: "t < 32" "length d < 2048" using Cons.prems(1) by (simp_all add: f frame_ok_def)
  define w where "w = (ucast (push_bit 11 t OR word_of_nat (length d) :: u32) :: u16)"
  have fw: "frame_wire f = le_bytes 2 w @ d" by (simp add: f frame_wire_def w_def)
  have r: "ReadU16_LE data (length pre) = Some w"
    by (rule ReadU16_LE_eq) (simp_all add: Cons.prems(2) fw slice_def)
  have data: "data = (pre @ frame_wire f) @ frames_wire fs @ post" by (simp add: Cons.prems(2))
  note IH = Cons.IH [OF _ data]
  have len: "length (frame_wire f) = 2 + length d" by (simp add: fw)
  show ?case
    using IH Cons.prems(1) frame_header_fields [OF ok, folded w_def] r
    by (subst for_frames.simps)
      (simp add: f len [unfolded f] kMessageFrameBytes_def kMessageLengthBits_def Let_def andThen_def add.assoc
        split: prod.split option.split)
qed


section \<open>Reassembly\<close>

text \<open>A reliable message type stands for a channel (low priority or not, and its index) and says whether the
  fragment is the last one of its message.\<close>

type_synonym channel = "bool \<times> nat"

definition frame_channel :: "u32 \<Rightarrow> channel" where
  "frame_channel t = (let c = unat t - 6 in (12 \<le> c, c mod 6))"

definition frame_final :: "u32 \<Rightarrow> bool" where
  "frame_final t \<longleftrightarrow> 6 \<le> (unat t - 6) mod 12"

definition channel_number :: "channel \<Rightarrow> nat" where
  "channel_number = (\<lambda>(lowPri, ch). (if lowPri then TonkChannel_LowPri0 else TonkChannel_Reliable0) + ch)"

text \<open>The specification: the messages completed on a channel by a sequence of frames, and the fragment left.\<close>

fun channel_messages :: "channel \<Rightarrow> bytes \<Rightarrow> (u32 \<times> bytes) list \<Rightarrow> bytes list \<times> bytes" where
  "channel_messages ch acc [] = ([], acc)"
| "channel_messages ch acc ((t, d) # fs) =
     (if frame_channel t \<noteq> ch then channel_messages ch acc fs
      else if frame_final t then apfst ((#) (acc @ d)) (channel_messages ch [] fs)
      else channel_messages ch (acc @ d) fs)"

text \<open>No message grows beyond the limit.\<close>

fun assembly_fits :: "channel \<Rightarrow> bytes \<Rightarrow> (u32 \<times> bytes) list \<Rightarrow> bool" where
  "assembly_fits ch acc [] \<longleftrightarrow> True"
| "assembly_fits ch acc ((t, d) # fs) \<longleftrightarrow>
     (if frame_channel t \<noteq> ch then assembly_fits ch acc fs
      else length (acc @ d) \<le> TONK_MAX_RELIABLE_BYTES \<and> assembly_fits ch (if frame_final t then [] else acc @ d) fs)"

definition received_on :: "channel \<Rightarrow> event list \<Rightarrow> bytes list" where
  "received_on ch es = concat (map (\<lambda>e. case e of OnData n d \<Rightarrow> (if n = channel_number ch then [d] else []) | _ \<Rightarrow> []) es)"

definition channels_wf :: "('d, 'z) SessionIncoming \<Rightarrow> bool" where
  "channels_wf s \<longleftrightarrow> length (ReliableIncoming s) = 6 \<and> length (LowPriIncoming s) = 6"

definition partial_on :: "channel \<Rightarrow> ('d, 'z) SessionIncoming \<Rightarrow> bytes" where
  "partial_on = (\<lambda>(lowPri, ch) s. irc_get lowPri ch s)"

fun deliver_frames :: "('d, 'z) incoming_deps \<Rightarrow> (u32 \<times> bytes) list \<Rightarrow> ('d, 'z) SessionIncoming
    \<Rightarrow> ('d, 'z) SessionIncoming outcome" where
  "deliver_frames D [] s = (None, s)"
| "deliver_frames D ((t, d) # fs) s = andThen (deliverMessage D t d s) (deliver_frames D fs)"

definition reliable_type :: "u32 \<Rightarrow> bool" where
  "reliable_type t \<longleftrightarrow> MessageType_Reliable \<le> t \<and> t < MessageType_Control"

lemma irc_get_set:
  "channels_wf s \<Longrightarrow> ch < 6 \<Longrightarrow>
     irc_get lp' ch' (irc_set lp ch d s) = (if lp' = lp \<and> ch' = ch then d else irc_get lp' ch' s)"
  by (auto simp: irc_get_def irc_set_def channels_wf_def nth_list_update)

lemma irc_set_simps [simp]:
  "Events (irc_set lp ch d s) = Events s" "channels_wf (irc_set lp ch d s) = channels_wf s"
  "channels_wf (emit e s) = channels_wf s" "Events (emit e s) = Events s @ [e]"
  "irc_get lp ch (emit e s) = irc_get lp ch s" "irc_set lp ch d (emit e s) = emit e (irc_set lp ch d s)"
  by (simp_all add: irc_set_def channels_wf_def emit_def irc_get_def)

lemma irc_set_set [simp]: "irc_set lp ch d (irc_set lp ch d' s) = irc_set lp ch d s"
  by (simp add: irc_set_def)

lemma frame_channel_bound: "reliable_type t \<Longrightarrow> snd (frame_channel t) < 6"
  by (simp add: frame_channel_def Let_def)

lemma deliver_channel_eq:
  assumes wf: "channels_wf s" and c: "channel < 12" and ch_def: "ch = unat channel mod 6"
    and new_def: "new = irc_get lp ch s @ d"
  shows "deliver_channel lp off channel d s =
    (if 6 \<le> unat channel then
       (if irc_get lp ch s \<noteq> [] \<and> TONK_MAX_RELIABLE_BYTES < length new then (Some ReliableTooLong, irc_set lp ch new s)
        else (None, irc_set lp ch [] (emit (OnData (off + ch) new) s)))
     else (if TONK_MAX_RELIABLE_BYTES < length new then Some ReliableTooLong else None, irc_set lp ch new s))"
proof (cases "6 \<le> unat channel")
  case True
  have "6 \<le> channel" using True by (simp add: word_le_nat_alt)
  then have u: "unat (channel - 6) = unat channel - 6" by (simp add: unat_sub)
  have "unat channel < 12" using c by (simp add: word_less_nat_alt)
  then have ch: "unat channel - 6 = ch" "ch < 6" using True by (auto simp: ch_def mod_if)
  have "\<not> channel < 6" using True by (simp add: word_less_nat_alt)
  then show ?thesis
    using True u wf ch by (simp add: deliver_channel_def TonkChannel_Count_def Let_def irc_get_set new_def)
next
  case False
  then have "channel < 6" "unat channel = ch" "ch < 6" by (auto simp: word_less_nat_alt ch_def)
  then show ?thesis
    using False wf by (simp add: deliver_channel_def TonkChannel_Count_def Let_def irc_get_set new_def)
qed

lemma low_priority_index:
  assumes "12 \<le> k - 6" and "k < (30::nat)"
  shows "(k - 6) mod 6 = (k - 18) mod 6" "6 \<le> (k - 6) mod 12 \<longleftrightarrow> 6 \<le> k - 18"
proof -
  obtain j where j: "k = 18 + j" using assms(1) le_Suc_ex [of 18 k] by fastforce
  have "(j + 12) mod 6 = j mod 6" by (metis mod_mult_self2 mult_2_right numeral_Bit0)
  then show "(k - 6) mod 6 = (k - 18) mod 6" by (simp add: j add.commute)
  show "6 \<le> (k - 6) mod 12 \<longleftrightarrow> 6 \<le> k - 18" using assms(2) by (simp add: j)
qed

lemma deliver_reliable:
  assumes wf: "channels_wf s" and t: "reliable_type t" and fit: "length (partial_on (frame_channel t) s @ d) \<le> TONK_MAX_RELIABLE_BYTES"
  shows "deliverMessage D t d s =
    (None, let (lp, ch) = frame_channel t; new = partial_on (lp, ch) s @ d in
       if frame_final t then irc_set lp ch [] (emit (OnData (channel_number (lp, ch)) new) s)
       else irc_set lp ch new s)"
proof -
  have tn: "6 \<le> unat t" "unat t < 30"
    using t by (simp_all add: reliable_type_def message_type_defs word_le_nat_alt word_less_nat_alt)
  have "6 \<le> t" using tn by (simp add: word_le_nat_alt)
  then have c: "unat (t - 6) = unat t - 6" by (simp add: unat_sub)
  have ne: "t \<noteq> 30" "t \<noteq> 31" "t \<noteq> 3" using tn by auto
  have lt: "\<not> 24 \<le> t - 6" using tn by (simp add: word_le_nat_alt c)
  have dm: "deliverMessage D t d s =
      (if t - 6 < 12 then deliver_channel False TonkChannel_Reliable0 (t - 6) d s
       else deliver_channel True TonkChannel_LowPri0 (t - 6 - 12) d s)"
    using ne lt by (simp add: deliverMessage_def message_type_defs Let_def)
  have fits: "\<not> TONK_MAX_RELIABLE_BYTES < length (partial_on (frame_channel t) s @ d)" using fit by simp
  show ?thesis
  proof (cases "12 \<le> unat t - 6")
    case True
    have "12 \<le> t - 6" using True by (simp add: word_le_nat_alt c)
    then have c2: "unat (t - 6 - 12) = unat t - 18" using unat_sub [of 12 "t - 6"] c by simp
    have lt12: "t - 6 - 12 < 12" unfolding word_less_nat_alt c2 using tn by simp
    note m = low_priority_index [OF True tn(2)]
    have ch: "frame_channel t = (True, (unat t - 18) mod 6)" "frame_final t \<longleftrightarrow> 6 \<le> unat t - 18"
      using True m by (simp_all add: frame_channel_def frame_final_def Let_def)
    have "\<not> t - 6 < 12" using True by (simp add: word_less_nat_alt c)
    then show ?thesis
      using fits unfolding dm deliver_channel_eq [OF wf lt12 refl refl] c2 ch
      by (cases "6 \<le> unat t - 18") (simp_all add: partial_on_def channel_number_def)
  next
    case False
    then have lt12: "t - 6 < 12" by (simp add: word_less_nat_alt c)
    have ch: "frame_channel t = (False, (unat t - 6) mod 6)" "frame_final t \<longleftrightarrow> 6 \<le> unat t - 6"
      using False by (simp_all add: frame_channel_def frame_final_def Let_def)
    show ?thesis
      using lt12 fits unfolding dm deliver_channel_eq [OF wf lt12 refl refl] c ch
      by (cases "6 \<le> unat t - 6") (simp_all add: partial_on_def channel_number_def)
  qed
qed


lemma channel_number_inject:
  "snd a < 6 \<Longrightarrow> snd b < 6 \<Longrightarrow> channel_number a = channel_number b \<longleftrightarrow> a = b"
  by (cases a; cases b) (auto simp: channel_number_def message_type_defs)

lemma received_on_append [simp]: "received_on ch (xs @ ys) = received_on ch xs @ received_on ch ys"
  by (simp add: received_on_def)

lemma received_on_data [simp]:
  "received_on ch [OnData n d] = (if n = channel_number ch then [d] else [])" "received_on ch [] = []"
  by (simp_all add: received_on_def)

lemma partial_on_set:
  "channels_wf s \<Longrightarrow> snd ch < 6 \<Longrightarrow>
     partial_on ch' (irc_set (fst ch) (snd ch) d s) = (if ch' = ch then d else partial_on ch' s)"
  by (cases ch; cases ch') (simp add: partial_on_def irc_get_set)

lemma partial_on_emit [simp]: "partial_on ch (emit e s) = partial_on ch s"
  by (cases ch) (simp add: partial_on_def)

lemma deliver_frames_reassemble:
  assumes "channels_wf s" and "list_all (\<lambda>f. reliable_type (fst f)) fs"
    and "\<And>ch. snd ch < 6 \<Longrightarrow> assembly_fits ch (partial_on ch s) fs"
  shows "\<exists>s'. deliver_frames D fs s = (None, s') \<and> channels_wf s'
    \<and> (\<forall>ch. snd ch < 6 \<longrightarrow> received_on ch (Events s') = received_on ch (Events s) @ fst (channel_messages ch (partial_on ch s) fs)
         \<and> partial_on ch s' = snd (channel_messages ch (partial_on ch s) fs))"
  using assms
proof (induction fs arbitrary: s)
  case Nil
  then show ?case by simp
next
  case (Cons f fs)
  obtain t d where f: "f = (t, d)" by (cases f)
  obtain lp c where fc: "frame_channel t = (lp, c)" by fastforce
  have t: "reliable_type t" using Cons.prems(2) by (simp add: f)
  have c: "c < 6" using frame_channel_bound [OF t] by (simp add: fc)
  have fit: "length (partial_on (frame_channel t) s @ d) \<le> TONK_MAX_RELIABLE_BYTES"
    using Cons.prems(3) [of "(lp, c)"] c by (simp add: f fc)
  define s1 where "s1 = (if frame_final t
      then irc_set lp c [] (emit (OnData (channel_number (lp, c)) (partial_on (lp, c) s @ d)) s)
      else irc_set lp c (partial_on (lp, c) s @ d) s)"
  have step: "deliverMessage D t d s = (None, s1)"
    unfolding deliver_reliable [OF Cons.prems(1) t fit] fc s1_def by simp
  have wf1: "channels_wf s1" using Cons.prems(1) by (simp add: s1_def)
  have p1: "partial_on ch s1 = (if ch = (lp, c) then (if frame_final t then [] else partial_on (lp, c) s @ d) else partial_on ch s)" for ch
    using partial_on_set [OF Cons.prems(1), of "(lp, c)" ch] c by (auto simp: s1_def)
  have e1: "received_on ch (Events s1) = received_on ch (Events s)
      @ (if ch = (lp, c) \<and> frame_final t then [partial_on (lp, c) s @ d] else [])" if "snd ch < 6" for ch
    using channel_number_inject [of "(lp, c)" ch] c that by (auto simp: s1_def)
  have "assembly_fits ch (partial_on ch s1) fs" if "snd ch < 6" for ch
    using Cons.prems(3) [OF that] by (auto simp: f fc p1 split: if_splits)
  from Cons.IH [OF wf1 _ this] Cons.prems(2) obtain s' where
    "deliver_frames D fs s1 = (None, s')" "channels_wf s'"
    "\<And>ch. snd ch < 6 \<Longrightarrow> received_on ch (Events s') = received_on ch (Events s1) @ fst (channel_messages ch (partial_on ch s1) fs)
         \<and> partial_on ch s' = snd (channel_messages ch (partial_on ch s1) fs)"
    by auto
  then show ?case
    using e1 by (intro exI [of _ s']) (auto simp: f step andThen_def p1 fc)
qed


section \<open>Processing packets in sequence\<close>

lemma deliverMessage_FirstReliable:
  "deliverMessage D t d (s\<lparr>FirstReliable := x\<rparr>) = apsnd (\<lambda>s. s\<lparr>FirstReliable := x\<rparr>) (deliverMessage D t d s)"
  by (simp add: deliverMessage_def deliver_channel_def call_handler_def Let_def irc_get_def irc_set_def emit_def)

lemma FirstReliable_twice [simp]:
  "apsnd (FirstReliable_update (\<lambda>_. x)) (apsnd (FirstReliable_update (\<lambda>_. y)) p) = apsnd (FirstReliable_update (\<lambda>_. x)) p"
  by (cases p) simp

lemma deliver_frames_FirstReliable:
  "deliver_frames D fs (s\<lparr>FirstReliable := x\<rparr>) = apsnd (\<lambda>s. s\<lparr>FirstReliable := x\<rparr>) (deliver_frames D fs s)"
proof (induction fs arbitrary: s)
  case (Cons f fs)
  then show ?case
    by (cases f) (simp add: andThen_def deliverMessage_FirstReliable apsnd_def map_prod_def split: prod.split option.split)
qed simp

text \<open>The message types that \<open>resumeProcessing\<close> skips: they were delivered before.\<close>

definition resume_skips :: "u32 \<Rightarrow> bool" where
  "resume_skips t \<longleftrightarrow> t < MessageType_StartOfReliables \<or> t = MessageType_Unordered"

abbreviation resume_body :: "('d, 'z) incoming_deps \<Rightarrow> bytes \<Rightarrow> nat \<Rightarrow> u32 \<Rightarrow> nat \<Rightarrow> ('d, 'z) SessionIncoming
    \<Rightarrow> ('d, 'z) SessionIncoming outcome" where
  "resume_body D data off messageType messageBytes s \<equiv>
     if messageType < MessageType_StartOfReliables \<or> messageType = MessageType_Unordered then (None, s)
     else handleReliableMessage D data off messageType messageBytes s"

lemma run_resume_frames:
  assumes "data = pre @ frames_wire fs @ post"
    and "list_all (\<lambda>f. resume_skips (fst f) \<or> reliable_type (fst f)) fs"
  shows "\<exists>x. run_frames (resume_body D data) (length pre) fs s
    = apsnd (\<lambda>s. s\<lparr>FirstReliable := x\<rparr>) (deliver_frames D (filter (\<lambda>f. reliable_type (fst f)) fs) s)"
  using assms
proof (induction fs arbitrary: pre s)
  case Nil
  show ?case by (intro exI [of _ "FirstReliable s"]) simp
next
  case (Cons f fs)
  obtain t d where f: "f = (t, d)" by (cases f)
  have data: "data = (pre @ frame_wire f) @ frames_wire fs @ post" using Cons.prems(1) by simp
  have sl: "slice data (length pre + 2) (length d) = d"
    using Cons.prems(1) by (simp add: f frame_wire_def slice_def)
  have IH: "\<exists>x. run_frames (resume_body D data) (length pre + 2 + length d) fs s
    = apsnd (\<lambda>s. s\<lparr>FirstReliable := x\<rparr>) (deliver_frames D (filter (\<lambda>f. reliable_type (fst f)) fs) s)" for s
    using Cons.IH [OF data, of s] Cons.prems(2) by (simp add: f)
  show ?case
  proof (cases "reliable_type t")
    case False
    then have "resume_skips t" using Cons.prems(2) by (simp add: f)
    then show ?thesis using IH [of s] False by (simp add: f resume_skips_def andThen_def)
  next
    case True
    have ne: "\<not> (t < MessageType_StartOfReliables \<or> t = MessageType_Unordered)" "t \<noteq> MessageType_Compressed"
      using True by (auto simp: reliable_type_def message_type_defs word_less_nat_alt word_le_nat_alt)
    obtain y where h: "handleReliableMessage D data (length pre + 2) t (length d) s
        = apsnd (\<lambda>s. s\<lparr>FirstReliable := y\<rparr>) (deliverMessage D t d s)"
    proof (cases "FirstReliable s = None \<and> t < MessageType_Control")
      case True
      then show thesis using that ne sl
        by (simp add: handleReliableMessage_def deliverMessage_FirstReliable)
    next
      case False
      have "s = s\<lparr>FirstReliable := FirstReliable s\<rparr>" by simp
      then show thesis
        using that [of "FirstReliable s"] False ne sl deliverMessage_FirstReliable [of D t d "FirstReliable s" s]
        by (auto simp: handleReliableMessage_def)
    qed
    obtain e s1 where d1: "deliverMessage D t d s = (e, s1)" by fastforce
    show ?thesis
    proof (cases e)
      case (Some err)
      then show ?thesis using ne True h d1 by (intro exI [of _ y]) (simp add: f andThen_def)
    next
      case None
      then show ?thesis
        using IH [of "s1\<lparr>FirstReliable := y\<rparr>"] ne True h d1
        by (auto simp: f andThen_def deliver_frames_FirstReliable)
    qed
  qed
qed


lemma bookkeeping_simps [simp]:
  "partial_on ch (s\<lparr>FirstReliable := x\<rparr>) = partial_on ch s" "channels_wf (s\<lparr>FirstReliable := x\<rparr>) = channels_wf s"
  "partial_on ch (s\<lparr>FECNextExpectedPacketNum := n\<rparr>) = partial_on ch s"
  "channels_wf (s\<lparr>FECNextExpectedPacketNum := n\<rparr>) = channels_wf s"
  by (cases ch, simp_all add: partial_on_def irc_get_def channels_wf_def)+

lemma insertUncompressed_simps [simp]:
  "partial_on ch (insertUncompressed D data e s) = partial_on ch s"
  "channels_wf (insertUncompressed D data e s) = channels_wf s" "Events (insertUncompressed D data e s) = Events s"
  "FECDecoder (insertUncompressed D data e s) = FECDecoder s"
  "FECNextExpectedPacketNum (insertUncompressed D data e s) = FECNextExpectedPacketNum s"
  by (cases ch, simp_all add: insertUncompressed_def partial_on_def irc_get_def channels_wf_def split: option.split)+

lemma irc_set_other [simp]:
  "FECDecoder (irc_set lp ch d s) = FECDecoder s" "FECNextExpectedPacketNum (irc_set lp ch d s) = FECNextExpectedPacketNum s"
  "FECDecoder (emit e s) = FECDecoder s" "FECNextExpectedPacketNum (emit e s) = FECNextExpectedPacketNum s"
  by (simp_all add: irc_set_def emit_def)

lemma deliver_frames_decoder:
  "FECDecoder (snd (deliver_frames D fs s)) = FECDecoder s
   \<and> FECNextExpectedPacketNum (snd (deliver_frames D fs s)) = FECNextExpectedPacketNum s"
proof (induction fs arbitrary: s)
  case (Cons f fs)
  have "FECDecoder (snd (deliverMessage D t d s)) = FECDecoder s
      \<and> FECNextExpectedPacketNum (snd (deliverMessage D t d s)) = FECNextExpectedPacketNum s" for t d
    by (simp add: deliverMessage_def deliver_channel_def call_handler_def Let_def)
  then show ?case using Cons.IH
    by (cases f) (auto simp: andThen_def split: prod.split option.split, (metis snd_conv)+)
qed simp

lemma resume_packet_frames:
  assumes ok: "list_all frame_ok fs" "list_all (\<lambda>f. resume_skips (fst f) \<or> reliable_type (fst f)) fs"
    and wf: "channels_wf s"
    and fit: "\<And>ch. snd ch < 6 \<Longrightarrow> assembly_fits ch (partial_on ch s) (filter (\<lambda>f. reliable_type (fst f)) fs)"
  shows "\<exists>s'. resume_packet D (frames_wire fs) s = (None, s') \<and> channels_wf s' \<and> FECDecoder s' = FECDecoder s
    \<and> FECNextExpectedPacketNum s' = SIAMESE_PACKET_NUM_INC (FECNextExpectedPacketNum s)
    \<and> (\<forall>ch. snd ch < 6 \<longrightarrow>
         received_on ch (Events s') = received_on ch (Events s)
           @ fst (channel_messages ch (partial_on ch s) (filter (\<lambda>f. reliable_type (fst f)) fs))
         \<and> partial_on ch s' = snd (channel_messages ch (partial_on ch s) (filter (\<lambda>f. reliable_type (fst f)) fs)))"
proof -
  let ?data = "frames_wire fs" and ?fs = "filter (\<lambda>f. reliable_type (fst f)) fs"
  let ?s = "s\<lparr>FirstReliable := None, FECNextExpectedPacketNum := SIAMESE_PACKET_NUM_INC (FECNextExpectedPacketNum s)\<rparr>"
  have "for_frames (resume_body D ?data) ?data (length ?data) 0 ?s = run_frames (resume_body D ?data) 0 fs ?s"
    using for_frames_wire [OF ok(1), of ?data "[]" "[]" "resume_body D ?data" ?s] by simp
  then obtain x where *: "for_frames (resume_body D ?data) ?data (length ?data) 0 ?s
      = apsnd (\<lambda>s. s\<lparr>FirstReliable := x\<rparr>) (deliver_frames D ?fs ?s)"
    using run_resume_frames [of ?data "[]" fs "[]" D ?s] ok(2) by auto
  have "list_all (\<lambda>f. reliable_type (fst f)) ?fs" by (simp add: list_all_iff)
  then obtain s1 where s1: "deliver_frames D ?fs ?s = (None, s1)" "channels_wf s1"
    "\<And>ch. snd ch < 6 \<Longrightarrow> received_on ch (Events s1) = received_on ch (Events s) @ fst (channel_messages ch (partial_on ch s) ?fs)
         \<and> partial_on ch s1 = snd (channel_messages ch (partial_on ch s) ?fs)"
    using deliver_frames_reassemble [of ?s ?fs D] wf fit by auto
  moreover have "FECDecoder s1 = FECDecoder s"
    "FECNextExpectedPacketNum s1 = SIAMESE_PACKET_NUM_INC (FECNextExpectedPacketNum s)"
    using deliver_frames_decoder [of D ?fs ?s] s1(1) by simp_all
  ultimately show ?thesis
    using * by (simp add: resume_packet_def andThen_def)
qed


lemma channel_messages_append:
  "channel_messages ch acc (xs @ ys)
     = apfst ((@) (fst (channel_messages ch acc xs))) (channel_messages ch (snd (channel_messages ch acc xs)) ys)"
  by (induction ch acc xs rule: channel_messages.induct) (auto simp: apfst_def map_prod_def split: prod.split)

lemma assembly_fits_append:
  "assembly_fits ch acc (xs @ ys) \<longleftrightarrow> assembly_fits ch acc xs \<and> assembly_fits ch (snd (channel_messages ch acc xs)) ys"
  by (induction ch acc xs rule: channel_messages.induct) auto

text \<open>The frames that \<open>resumeProcessing\<close> hands to the channels.\<close>

abbreviation in_order :: "(u32 \<times> bytes) list \<Rightarrow> (u32 \<times> bytes) list" where
  "in_order fs \<equiv> filter (\<lambda>f. reliable_type (fst f)) fs"

text \<open>The decoder holds the packets \<open>ps\<close> from number \<open>n\<close> on, and not the one after them.\<close>

fun decoder_holds :: "('d, 'z) incoming_deps \<Rightarrow> 'd \<Rightarrow> u32 \<Rightarrow> (u32 \<times> bytes) list list \<Rightarrow> bool" where
  "decoder_holds D dec n [] \<longleftrightarrow> fst (decoder_get D dec n) = Siamese_NeedMoreData"
| "decoder_holds D dec n (fs # ps) \<longleftrightarrow> decoder_get D dec n = (Siamese_Success, frames_wire fs)
     \<and> decoder_holds D dec (SIAMESE_PACKET_NUM_INC n) ps"

lemma resumeProcessing_drains:
  assumes "decoder_holds D (FECDecoder s) (FECNextExpectedPacketNum s) ps"
    and "list_all (\<lambda>fs. list_all frame_ok fs \<and> list_all (\<lambda>f. resume_skips (fst f) \<or> reliable_type (fst f)) fs) ps"
    and "channels_wf s"
    and "\<And>ch. snd ch < 6 \<Longrightarrow> assembly_fits ch (partial_on ch s) (in_order (concat ps))"
  shows "\<exists>s'. resumeProcessing D s = Some (None, s') \<and> channels_wf s'
    \<and> FECNextExpectedPacketNum s' = (SIAMESE_PACKET_NUM_INC ^^ length ps) (FECNextExpectedPacketNum s)
    \<and> (\<forall>ch. snd ch < 6 \<longrightarrow>
         received_on ch (Events s') = received_on ch (Events s) @ fst (channel_messages ch (partial_on ch s) (in_order (concat ps)))
         \<and> partial_on ch s' = snd (channel_messages ch (partial_on ch s) (in_order (concat ps))))"
  using assms
proof (induction ps arbitrary: s)
  case Nil
  then show ?case
    by (cases "decoder_get D (FECDecoder s) (FECNextExpectedPacketNum s)")
      (intro exI [of _ s], subst resumeProcessing.simps, simp)
next
  case (Cons fs ps)
  have get: "decoder_get D (FECDecoder s) (FECNextExpectedPacketNum s) = (Siamese_Success, frames_wire fs)"
    using Cons.prems(1) by simp
  have fit: "assembly_fits ch (partial_on ch s) (in_order fs)"
    "assembly_fits ch (snd (channel_messages ch (partial_on ch s) (in_order fs))) (in_order (concat ps))"
    if "snd ch < 6" for ch
    using Cons.prems(4) [OF that] by (simp_all add: assembly_fits_append)
  obtain s1 where s1: "resume_packet D (frames_wire fs) s = (None, s1)" "channels_wf s1" "FECDecoder s1 = FECDecoder s"
    "FECNextExpectedPacketNum s1 = SIAMESE_PACKET_NUM_INC (FECNextExpectedPacketNum s)"
    "\<And>ch. snd ch < 6 \<Longrightarrow> received_on ch (Events s1) = received_on ch (Events s) @ fst (channel_messages ch (partial_on ch s) (in_order fs))
      \<and> partial_on ch s1 = snd (channel_messages ch (partial_on ch s) (in_order fs))"
    using resume_packet_frames [of fs s D] Cons.prems(2,3) fit(1) by auto
  have "\<exists>s'. resumeProcessing D s1 = Some (None, s') \<and> channels_wf s'
    \<and> FECNextExpectedPacketNum s' = (SIAMESE_PACKET_NUM_INC ^^ length ps) (FECNextExpectedPacketNum s1)
    \<and> (\<forall>ch. snd ch < 6 \<longrightarrow>
         received_on ch (Events s') = received_on ch (Events s1) @ fst (channel_messages ch (partial_on ch s1) (in_order (concat ps)))
         \<and> partial_on ch s' = snd (channel_messages ch (partial_on ch s1) (in_order (concat ps))))"
    using Cons.prems(1,2) s1 fit(2) by (intro Cons.IH) simp_all
  then obtain s' where s': "resumeProcessing D s1 = Some (None, s')" "channels_wf s'"
    "FECNextExpectedPacketNum s' = (SIAMESE_PACKET_NUM_INC ^^ length ps) (FECNextExpectedPacketNum s1)"
    "\<And>ch. snd ch < 6 \<Longrightarrow>
       received_on ch (Events s') = received_on ch (Events s1) @ fst (channel_messages ch (partial_on ch s1) (in_order (concat ps)))
       \<and> partial_on ch s' = snd (channel_messages ch (partial_on ch s1) (in_order (concat ps)))"
    by blast
  have "resumeProcessing D s = Some (None, s')"
    using get s1(1) s'(1) by (subst resumeProcessing.simps) simp
  then show ?case
    using s' s1 by (intro exI [of _ s']) (simp add: channel_messages_append funpow_Suc_right del: funpow.simps)
qed


section \<open>Memory safety\<close>

definition no_fault :: "'s outcome \<Rightarrow> bool" where
  "no_fault o' \<longleftrightarrow> fst o' \<noteq> Some MemoryFault"

lemma no_fault_andThen [intro]: "no_fault o' \<Longrightarrow> (\<And>s. no_fault (k s)) \<Longrightarrow> no_fault (andThen o' k)"
  by (auto simp: no_fault_def andThen_def split: prod.split option.split)

lemma no_fault_simps [simp]: "no_fault (None, s)" "no_fault (lift_session o' l) = no_fault o'"
  by (simp_all add: no_fault_def lift_session_def)

lemma no_fault_andThen_None [simp]: "no_fault (andThen o' (\<lambda>s. (None, f s))) = no_fault o'"
  by (simp add: no_fault_def andThen_def split: prod.split option.split)

lemma for_frames_no_fault:
  assumes "limit \<le> length data" and "\<And>off t n s. off + n \<le> limit \<Longrightarrow> no_fault (h off t n s)"
  shows "no_fault (for_frames h data limit pos s)"
  using assms
proof (induction h data limit pos s rule: for_frames.induct)
  case (1 h data limit pos s)
  show ?case
  proof (cases "pos + kMessageFrameBytes \<le> limit")
    case False
    then show ?thesis by (subst for_frames.simps) (simp add: no_fault_def)
  next
    case True
    obtain w where w: "ReadU16_LE data pos = Some w"
      using ReadU16_LE_bytes [of pos data] True "1.prems"(1) by (auto simp: kMessageFrameBytes_def)
    show ?thesis
    proof (cases "limit - (pos + kMessageFrameBytes) < unat ((ucast w :: u32) AND kMessageLengthMask)")
      case lt: True
      then show ?thesis using True w by (subst for_frames.simps) (simp add: no_fault_def Let_def)
    next
      case ge: False
      let ?n = "unat ((ucast w :: u32) AND kMessageLengthMask)" and ?t = "drop_bit kMessageLengthBits (ucast w :: u32)"
      have nf: "no_fault (h (pos + kMessageFrameBytes) ?t ?n s)" using "1.prems"(2) True ge by simp
      obtain e s1 where h: "h (pos + kMessageFrameBytes) ?t ?n s = (e, s1)" by fastforce
      show ?thesis
        using True w ge h nf "1.IH" [OF True w refl refl refl ge h [symmetric]] "1.prems"
        by (subst for_frames.simps) (cases e; simp add: Let_def no_fault_def)
    qed
  qed
qed

lemma deliverMessage_no_fault: "no_fault (deliverMessage D t d s)"
  by (simp add: no_fault_def deliverMessage_def deliver_channel_def call_handler_def Let_def)

lemma onCompressed_no_fault: "no_fault (onCompressed D d s)"
proof -
  have "no_fault (for_frames (\<lambda>off t n. deliverMessage D t (slice x off n)) x (length x) 0 s')" for x s'
    by (intro for_frames_no_fault deliverMessage_no_fault order_refl)
  then show ?thesis
    by (simp add: onCompressed_def split: prod.split option.split) (simp add: no_fault_def)
qed

lemma handleReliableMessage_no_fault: "no_fault (handleReliableMessage D data off t n s)"
  by (simp add: handleReliableMessage_def Let_def deliverMessage_no_fault onCompressed_no_fault)

lemma resume_packet_no_fault: "no_fault (resume_packet D data s)"
  unfolding resume_packet_def Let_def
  by (intro no_fault_andThen for_frames_no_fault) (simp_all add: handleReliableMessage_no_fault)


lemma resumeProcessing_no_fault:
  assumes "resumeProcessing D s = Some r"
  shows "no_fault r"
proof (rule resumeProcessing.raw_induct [of "\<lambda>D s r. no_fault r", OF _ assms])
  fix rp D s r
  assume IH: "\<And>D s r. rp D s = Some r \<Longrightarrow> no_fault r"
    and eq: "(case decoder_get D (FECDecoder s) (FECNextExpectedPacketNum s) of (getResult, data) \<Rightarrow>
        if getResult = Siamese_NeedMoreData then Some (None, s)
        else if getResult \<noteq> Siamese_Success then Some (Some (SiameseFailed getResult), s)
        else (case resume_packet D data s of (None, s) \<Rightarrow> rp D s | (Some e, s) \<Rightarrow> Some (Some e, s))) = Some r"
  from eq show "no_fault r"
    using IH resume_packet_no_fault [of D _ s]
    by (auto simp: no_fault_def split: prod.splits if_splits option.splits; metis fst_conv)
qed


definition safe_result :: "'s outcome option \<Rightarrow> bool" where
  "safe_result r \<longleftrightarrow> (\<forall>o'. r = Some o' \<longrightarrow> no_fault o')"

lemma safe_result_Some [simp]: "safe_result (Some o') = no_fault o'"
  by (simp add: safe_result_def)

lemma safe_result_bind:
  assumes "safe_result m" and "\<And>s. safe_result (k s)"
  shows "safe_result (Option.bind m (\<lambda>r. case r of (Some e, s) \<Rightarrow> Some (Some e, s) | (None, s) \<Rightarrow> k s))"
proof (cases m)
  case (Some r)
  then show ?thesis using assms by (cases r; cases "fst r") (auto simp: no_fault_def)
qed (simp add: safe_result_def)

lemma no_fault_error [simp]: "e \<noteq> MemoryFault \<Longrightarrow> no_fault (Some e, s)"
  by (simp add: no_fault_def)

lemma resumeProcessing_safe: "safe_result (resumeProcessing D s)"
  using resumeProcessing_no_fault by (auto simp: safe_result_def)

lemma attemptDecode_safe: "safe_result (attemptDecode D s)"
  unfolding safe_result_def
proof (intro allI impI)
  fix r assume r: "attemptDecode D s = Some r"
  show "no_fault r"
  proof (rule attemptDecode.raw_induct [of "\<lambda>D s r. no_fault r", OF _ r])
    fix ad D s r
    assume IH: "\<And>D s r. ad D s = Some r \<Longrightarrow> no_fault r"
      and eq: "(let readyResult = decoder_is_ready D (FECDecoder s) in
        if readyResult = Siamese_NeedMoreData then Some (None, s)
        else if readyResult \<noteq> Siamese_Success then Some (Some (SiameseFailed readyResult), s)
        else (case siamese_decode D (FECDecoder s) of (decodeResult, recovered, d) \<Rightarrow>
          let s = deliver_solved D recovered (s\<lparr>FECDecoder := d\<rparr>) in
          if decodeResult = Siamese_NeedMoreData then Some (None, s)
          else if decodeResult \<noteq> Siamese_Success then Some (Some (SiameseFailed decodeResult), s)
          else Option.bind (resumeProcessing D s) (\<lambda>r. case r of
              (Some e, s) \<Rightarrow> Some (Some e, s)
            | (None, s) \<Rightarrow> ad D s))) = Some r"
    have "safe_result (ad D s)" for s using IH by (auto simp: safe_result_def)
    note safe_result_bind [OF resumeProcessing_safe this]
    then have "safe_result (Some r)"
      unfolding eq [symmetric] by (simp add: Let_def split: prod.split)
    then show "no_fault r" by simp
  qed
qed

lemma decoderAddOriginal_safe: "safe_result (decoderAddOriginal D n d s)"
proof -
  have "safe_result (Option.bind (resumeProcessing D s') (\<lambda>r. case r of
      (Some e, s) \<Rightarrow> Some (Some e, s) | (None, s) \<Rightarrow> attemptDecode D s))" for s'
    by (intro safe_result_bind resumeProcessing_safe attemptDecode_safe)
  then show ?thesis
    by (auto simp: decoderAddOriginal_def Let_def attemptDecode_safe split: prod.split)
qed

lemma onRecovery_safe: "safe_result (onRecovery D d s)"
  by (simp add: onRecovery_def Let_def attemptDecode_safe split: prod.split)

lemma finish_datagram_receive_safe: "safe_result (finish_datagram_receive D u a b e s)"
  by (simp add: finish_datagram_receive_def Let_def decoderAddOriginal_safe split: option.split)

lemma datagram_frame_no_fault:
  assumes "off + n \<le> limit" and "limit < length data"
  shows "no_fault (datagram_frame D data q inSeq off t n l)"
proof -
  have hs: "no_fault (unordered_frame D q d l)" "no_fault (call_handler D e s)" for d e s
    by (simp_all add: unordered_frame_def call_handler_def no_fault_def Let_def)
  show ?thesis
  proof (cases "n = 3")
    case True
    then obtain v where "ReadU24_LE_Min4Bytes data off = Some v"
      using assms by (simp add: ReadU24_LE_Min4Bytes_def ReadU24_LE_def rd8_in)
    then show ?thesis
      using True by (simp add: datagram_frame_def Let_def handleReliableMessage_no_fault hs)
  next
    case False
    then show ?thesis
      by (simp add: datagram_frame_def Let_def handleReliableMessage_no_fault hs kAckAckBytes_def)
  qed
qed

lemma handle_accepted_safe:
  assumes "PayloadBytes a < length (Datagram a)"
  shows "safe_result (handle_accepted D u a s)"
proof (cases "IsOnlyFEC (FlagsByte a)")
  case True
  have "safe_result (Option.bind (onRecovery D d s') (\<lambda>r. case r of
      (Some e, s) \<Rightarrow> Some (Some e, s) | (None, s) \<Rightarrow> finish_datagram_receive D u a 0 0 s))" for d s'
    by (intro safe_result_bind onRecovery_safe finish_datagram_receive_safe)
  then show ?thesis using True by (simp add: handle_accepted_def Let_def)
next
  case False
  have nf: "no_fault (for_frames (datagram_frame D (Datagram a) q inSeq) (Datagram a) (PayloadBytes a) 0 l)" for q inSeq l
    using assms by (intro for_frames_no_fault datagram_frame_no_fault [where limit = "PayloadBytes a"]) simp_all
  have "safe_result (case for_frames (datagram_frame D (Datagram a) q inSeq) (Datagram a) (PayloadBytes a) 0 l of
      (Some e, l) \<Rightarrow> Some (Some e, Session l)
    | (None, l) \<Rightarrow> finish_datagram_receive D u a (reliableStartOffset l) (reliableEndOffset l)
         (insertUncompressed D (Datagram a) (PayloadBytes a) (Session l)))" for q inSeq l
    using nf [of q inSeq l] finish_datagram_receive_safe
    by (cases "for_frames (datagram_frame D (Datagram a) q inSeq) (Datagram a) (PayloadBytes a) 0 l";
        cases "fst (for_frames (datagram_frame D (Datagram a) q inSeq) (Datagram a) (PayloadBytes a) 0 l)")
      (simp_all add: no_fault_def)
  then show ?thesis using False by (simp add: handle_accepted_def Let_def)
qed


lemma ReceiveHeader_accepted_room:
  assumes "ReceiveHeader t1ha sd dh data s = Some (Accepted a, s')" and "length (ExpandedKey (Decryptor s)) = 4"
  shows "PayloadBytes a < length (Datagram a)"
  using assms
  by (auto simp: ReceiveHeader_def Let_def emit_def Cipher_eq ConnectedFooterBytes_def byte_count_defs step_back_def
      split: if_splits Option.bind_splits)

lemma ProcessDatagram_safe:
  assumes "length (ExpandedKey (Decryptor s)) = 4"
    and "ReceiveHeader t1ha isShutdown dropHandshake data s \<noteq> None"
  shows "safe_result (ProcessDatagram D t1ha isShutdown dropHandshake u data s)"
proof -
  obtain r s' where r: "ReceiveHeader t1ha isShutdown dropHandshake data s = Some (r, s')" using assms(2) by auto
  show ?thesis
  proof (cases r)
    case (Accepted a)
    then show ?thesis
      using r ReceiveHeader_accepted_room [of t1ha isShutdown dropHandshake data s a s'] assms(1)
      by (simp add: ProcessDatagram_def handle_accepted_safe)
  qed (simp_all add: ProcessDatagram_def r)
qed


section \<open>Properties\<close>


text \<open>A decoder that keeps packets in an association list and never recovers anything, and a decompressor
  without state: concrete dependencies for the examples.\<close>

definition list_deps :: "((u32 \<times> bytes) list, unit) incoming_deps" where
  "list_deps = \<lparr>
     decoder_get = (\<lambda>d n. case map_of d n of None \<Rightarrow> (Siamese_NeedMoreData, []) | Some p \<Rightarrow> (Siamese_Success, p)),
     decoder_add_original = (\<lambda>n p d. if map_of d n = None then (Siamese_Success, (n, p) # d) else (Siamese_DuplicateData, d)),
     decoder_add_recovery = (\<lambda>_ d. (Siamese_Success, d)),
     decoder_is_ready = (\<lambda>_. Siamese_NeedMoreData),
     siamese_decode = (\<lambda>d. (Siamese_NeedMoreData, [], d)),
     Decompress = (\<lambda>b z. (Some b, z)),
     InsertUncompressed = (\<lambda>_ z. z),
     HandlerOk = (\<lambda>_ _. True)\<rparr>"

definition delivery_example :: "(u32 \<times> bytes) list \<Rightarrow> ((u32 \<times> bytes) list, unit) SessionIncoming" where
  "delivery_example d = \<lparr>AntiReplay = Reset 0, Decryptor = Initialize 0x1234, FECDecoder = d,
     FECNextExpectedPacketNum = 0x3fffff, LastAckAckSeq = 0x800000, ReliableIncoming = replicate 6 [],
     LowPriIncoming = replicate 6 [], Decompressor = (), FirstReliable = None, LargestSendTS24 = 0, Events = []\<rparr>"


text \<open>Property C5: in-order processing terminates and delivers everything that is ready.  If the FEC decoder
  holds a run of packets from the next expected number on, and not the one after, \<open>resumeProcessing\<close>
  returns without an error, advances the expected number past the run (across the roll-over of the
  22-bit packet numbers), and on every reliable and low priority channel the application receives
  exactly the messages whose fragments the packets hold, in order, each reassembled; what is left
  is the fragment of an unfinished message.  Messages of the other types are not delivered again.\<close>

theorem resumeProcessing_delivers_in_order:
  assumes "decoder_holds D (FECDecoder s) (FECNextExpectedPacketNum s) ps"
    and "list_all (\<lambda>fs. list_all frame_ok fs \<and> list_all (\<lambda>f. resume_skips (fst f) \<or> reliable_type (fst f)) fs) ps"
    and "channels_wf s"
    and "\<And>ch. snd ch < 6 \<Longrightarrow> assembly_fits ch (partial_on ch s) (in_order (concat ps))"
  shows "\<exists>s'. resumeProcessing D s = Some (None, s') \<and> channels_wf s'
    \<and> FECNextExpectedPacketNum s' = (SIAMESE_PACKET_NUM_INC ^^ length ps) (FECNextExpectedPacketNum s)
    \<and> (\<forall>ch. snd ch < 6 \<longrightarrow>
         received_on ch (Events s') = received_on ch (Events s) @ fst (channel_messages ch (partial_on ch s) (in_order (concat ps)))
         \<and> partial_on ch s' = snd (channel_messages ch (partial_on ch s) (in_order (concat ps))))"
  using assms by (rule resumeProcessing_drains)

theorem resumeProcessing_delivers_in_order_witness:
  "\<exists>s'. resumeProcessing list_deps (delivery_example [(0x3fffff, frames_wire [(6, [1, 2]), (31, [9])]), (0, frames_wire [(12, [3])])])
       = Some (None, s')
     \<and> FECNextExpectedPacketNum s' = 1 \<and> received_on (False, 0) (Events s') = [[1, 2, 3]] \<and> partial_on (False, 0) s' = []"
proof -
  let ?ps = "[[(6, [1, 2]), (31, [9])], [(12, [3])]] :: (u32 \<times> bytes) list list"
  let ?s = "delivery_example [(0x3fffff, frames_wire [(6, [1, 2]), (31, [9])]), (0, frames_wire [(12, [3])])]"
  have eval: "decoder_holds list_deps (FECDecoder ?s) (FECNextExpectedPacketNum ?s) ?ps"
    by (simp add: delivery_example_def list_deps_def SIAMESE_PACKET_NUM_INC_def)
  have frames: "list_all (\<lambda>fs. list_all frame_ok fs \<and> list_all (\<lambda>f. resume_skips (fst f) \<or> reliable_type (fst f)) fs) ?ps"
    by (simp add: frame_ok_def resume_skips_def reliable_type_def message_type_defs)
  have wf: "channels_wf ?s" by (simp add: delivery_example_def channels_wf_def)
  have part: "partial_on ch (delivery_example d) = []" if "snd ch < 6" for ch d
    using that by (cases ch) (simp add: delivery_example_def partial_on_def irc_get_def)
  have fit: "assembly_fits ch (partial_on ch ?s) (in_order (concat ?ps))" if "snd ch < 6" for ch
    using that by (simp add: part reliable_type_def message_type_defs TONK_MAX_RELIABLE_BYTES_def)
  from resumeProcessing_delivers_in_order [OF eval frames wf fit] obtain s' where
    "resumeProcessing list_deps ?s = Some (None, s')"
    "FECNextExpectedPacketNum s' = (SIAMESE_PACKET_NUM_INC ^^ length ?ps) (FECNextExpectedPacketNum ?s)"
    "received_on (False, 0) (Events s') = received_on (False, 0) (Events ?s)
       @ fst (channel_messages (False, 0) (partial_on (False, 0) ?s) (in_order (concat ?ps)))"
    "partial_on (False, 0) s' = snd (channel_messages (False, 0) (partial_on (False, 0) ?s) (in_order (concat ?ps)))"
    by force
  moreover have "in_order (concat ?ps) = [(6, [1, 2]), (12, [3])]"
    by (simp add: reliable_type_def message_type_defs)
  moreover have "Events (delivery_example d) = []" "FECNextExpectedPacketNum (delivery_example d) = 0x3fffff" for d
    by (simp_all add: delivery_example_def)
  moreover have "(SIAMESE_PACKET_NUM_INC ^^ length ?ps) 0x3fffff = 1"
    by (simp add: SIAMESE_PACKET_NUM_INC_def)
  ultimately show ?thesis
    by (intro exI [of _ s']) (simp add: part frame_channel_def frame_final_def)
qed

end
