(* ===== verification/Ref_Counter.thy ===== *)
theory Ref_Counter
  imports Tonk_Prelude
begin

text \<open>
  Object lifetime: the class \<open>RefCounter\<close> of \<open>TonkineseTools.h\<close> and \<open>TonkineseTools.cpp\<close>, which connections,
  sessions and sockets embed.  The object holds one reference on itself until \<open>StartShutdown\<close>, the
  application holds another one, and asynchronous work holds references that it counts with
  \<open>IncrementReferences\<close> and \<open>DecrementReferences\<close>.

  The members are atomics and \<open>StartShutdown\<close> runs under a lock, so that a concurrent execution is an
  interleaving of these operations.  \<open>AppRelease\<close> is not atomic: it is two steps.  The relation
  \<open>lifetime\<close> has all interleavings in which a thread only counts up while it may use the object and
  only counts down what it counted up.
\<close>

section \<open>The class\<close>

record RefCounter =
  RefCount :: u32
  Shutdown :: bool
  AppHoldsReference :: bool
  ShutdownReason :: u32
  ShutdownJson :: string

definition RefCounter_init :: RefCounter where
  "RefCounter_init = \<lparr>RefCount = 1, Shutdown = False, AppHoldsReference = True, ShutdownReason = 0, ShutdownJson = []\<rparr>"

definition ObjectInUse :: "RefCounter \<Rightarrow> bool" where
  "ObjectInUse r \<longleftrightarrow> AppHoldsReference r \<or> RefCount r \<noteq> 0"

definition IncrementReferences :: "RefCounter \<Rightarrow> RefCounter" where
  "IncrementReferences r = r\<lparr>RefCount := RefCount r + 1\<rparr>"

definition DecrementReferences :: "RefCounter \<Rightarrow> RefCounter" where
  "DecrementReferences r = r\<lparr>RefCount := RefCount r - 1\<rparr>"

definition StartShutdown :: "u32 \<Rightarrow> string \<Rightarrow> RefCounter \<Rightarrow> RefCounter" where
  "StartShutdown reason json r =
     (if Shutdown r then r
      else DecrementReferences (r\<lparr>ShutdownReason := reason, ShutdownJson := json, Shutdown := True\<rparr>))"

definition Tonk_AppRequest :: u32 where "Tonk_AppRequest = 12"

definition AppRelease :: "string \<Rightarrow> RefCounter \<Rightarrow> RefCounter" where
  "AppRelease json r = (StartShutdown Tonk_AppRequest json r)\<lparr>AppHoldsReference := False\<rparr>"

section \<open>Concurrent use\<close>

text \<open>\<open>Held\<close> counts the references that threads hold, \<open>Releasing\<close> says that the application's call to
  \<open>AppRelease\<close> has started the shutdown and not yet dropped its reference, and \<open>First\<close> is the reason of the
  first shutdown request.\<close>

record lifetime_state =
  Object :: RefCounter
  Held :: nat
  Releasing :: bool
  First :: "(u32 \<times> string) option"

definition lifetime_init :: lifetime_state where
  "lifetime_init = \<lparr>Object = RefCounter_init, Held = 0, Releasing = False, First = None\<rparr>"

definition request :: "u32 \<Rightarrow> string \<Rightarrow> lifetime_state \<Rightarrow> lifetime_state" where
  "request reason json l =
     l\<lparr>Object := StartShutdown reason json (Object l),
       First := (case First l of None \<Rightarrow> Some (reason, json) | Some f \<Rightarrow> Some f)\<rparr>"

text \<open>The number of references is below the capacity of the 32-bit counter in every execution: each one belongs
  to a pending call of the program.\<close>

inductive lifetime :: "lifetime_state \<Rightarrow> lifetime_state \<Rightarrow> bool" where
  acquire: "ObjectInUse (Object l) \<Longrightarrow> Held l < 2 ^ 31 - 2
    \<Longrightarrow> lifetime l (l\<lparr>Object := IncrementReferences (Object l), Held := Held l + 1\<rparr>)"
| release: "0 < Held l \<Longrightarrow> lifetime l (l\<lparr>Object := DecrementReferences (Object l), Held := Held l - 1\<rparr>)"
| shutdown: "ObjectInUse (Object l) \<Longrightarrow> lifetime l (request reason json l)"
| app_release: "AppHoldsReference (Object l) \<Longrightarrow> \<not> Releasing l
    \<Longrightarrow> lifetime l ((request Tonk_AppRequest json l)\<lparr>Releasing := True\<rparr>)"
| app_drop: "Releasing l \<Longrightarrow> AppHoldsReference (Object l)
    \<Longrightarrow> lifetime l (l\<lparr>Object := (Object l)\<lparr>AppHoldsReference := False\<rparr>\<rparr>)"

inductive_cases lifetimeE: "lifetime l l'"

definition lifetime_inv :: "lifetime_state \<Rightarrow> bool" where
  "lifetime_inv l \<longleftrightarrow>
     RefCount (Object l) = word_of_nat (Held l + (if Shutdown (Object l) then 0 else 1)) \<and> Held l < 2 ^ 31 - 1
     \<and> (Releasing l \<longrightarrow> Shutdown (Object l)) \<and> (\<not> AppHoldsReference (Object l) \<longrightarrow> Releasing l)
     \<and> (case First l of None \<Rightarrow> \<not> Shutdown (Object l)
        | Some (reason, json) \<Rightarrow> Shutdown (Object l) \<and> ShutdownReason (Object l) = reason \<and> ShutdownJson (Object l) = json)"

lemmas lifetime_defs = lifetime_inv_def request_def StartShutdown_def IncrementReferences_def DecrementReferences_def

lemma lifetime_inv_init: "lifetime_inv lifetime_init"
  by (simp add: lifetime_inv_def lifetime_init_def RefCounter_init_def)

lemma lifetime_inv_step:
  assumes "lifetime l l'" and "lifetime_inv l"
  shows "lifetime_inv l'"
  using assms
proof cases
  case release
  then obtain n where "Held l = Suc n" by (cases "Held l") auto
  then show ?thesis using release assms(2) by (auto simp: lifetime_defs split: option.splits)
qed (auto simp: lifetime_defs split: option.splits if_splits)

lemma lifetime_inv_reachable: "lifetime\<^sup>*\<^sup>* lifetime_init l \<Longrightarrow> lifetime_inv l"
  by (induction rule: rtranclp_induct) (auto intro: lifetime_inv_init lifetime_inv_step)

lemma in_use_iff:
  assumes "lifetime_inv l"
  shows "ObjectInUse (Object l) \<longleftrightarrow> AppHoldsReference (Object l) \<or> \<not> Shutdown (Object l) \<or> 0 < Held l"
proof -
  define n where "n = Held l + (if Shutdown (Object l) then 0 else 1)"
  have r: "RefCount (Object l) = word_of_nat n" using assms by (simp add: lifetime_inv_def n_def)
  have "Held l < 2 ^ 31 - 1" using assms by (simp add: lifetime_inv_def)
  then have "n < 2 ^ 31" by (simp add: n_def)
  then have "unat (word_of_nat n :: u32) = n" by (simp add: unat_of_nat)
  then have "RefCount (Object l) = 0 \<longleftrightarrow> n = 0" unfolding r unat_eq_0 [symmetric] by simp
  then show ?thesis by (simp add: ObjectInUse_def n_def)
qed

section \<open>Properties\<close>


lemma lifetime_example:
  "lifetime\<^sup>*\<^sup>* lifetime_init
     \<lparr>Object = \<lparr>RefCount = 0, Shutdown = True, AppHoldsReference = False, ShutdownReason = 5, ShutdownJson = ''x''\<rparr>,
      Held = 0, Releasing = True, First = Some (5, ''x'')\<rparr>" (is "lifetime\<^sup>*\<^sup>* _ ?l")
proof -
  note defs = lifetime_init_def RefCounter_init_def request_def StartShutdown_def DecrementReferences_def
  define a where "a = request 5 ''x'' lifetime_init"
  define b where "b = (request Tonk_AppRequest [] a)\<lparr>Releasing := True\<rparr>"
  have "lifetime lifetime_init a" unfolding a_def
    by (rule lifetime.shutdown) (simp add: lifetime_init_def RefCounter_init_def ObjectInUse_def)
  moreover have "lifetime a b" unfolding b_def by (rule lifetime.app_release) (simp_all add: a_def defs)
  moreover have "lifetime b (b\<lparr>Object := (Object b)\<lparr>AppHoldsReference := False\<rparr>\<rparr>)"
    by (rule lifetime.app_drop) (simp_all add: a_def b_def defs)
  moreover have "b\<lparr>Object := (Object b)\<lparr>AppHoldsReference := False\<rparr>\<rparr> = ?l" by (simp add: a_def b_def defs)
  ultimately show ?thesis by (metis rtranclp.rtrancl_refl rtranclp.rtrancl_into_rtrancl)
qed


end
