(* ===== verification/Session_Queue.thy ===== *)
theory Session_Queue
  imports Session_Send Ref_Counter
begin

text \<open>
  The interface of the sending half that the connection calls (\<open>TonkineseOutgoing.cpp\<close> and
  \<open>Connection::tonk_send\<close>): queueing messages of all kinds, splitting reliable messages over
  datagrams, attaching handshakes, and reacting to acknowledgements.

  An operation that may run out of memory takes the results of the allocations as a function of the
  attempt.  A result \<open>None\<close> is a write outside of the allocation, as in \<open>Session_Send\<close>; the loop of
  \<open>QueueReliable\<close> is a partial function, where \<open>None\<close> also stands for a loop that does not end.
\<close>

unbundle bit_operations_syntax

section \<open>Queueing\<close>

definition TONK_MAX_UNRELIABLE_BYTES :: nat where "TONK_MAX_UNRELIABLE_BYTES = 1280"

datatype queue_error = Tonk_MessageTooLarge | OutOfMemory | Tonk_Error | Tonk_InvalidChannel

fun queueMessage_tries :: "nat \<Rightarrow> (nat \<Rightarrow> bytes option) \<Rightarrow> nat \<Rightarrow> u32 \<Rightarrow> bytes \<Rightarrow> OutgoingQueue
    \<Rightarrow> (queue_error option \<times> OutgoingQueue) option" where
  "queueMessage_tries 0 alloc m messageType data q = Some (Some Tonk_Error, q)"
| "queueMessage_tries (Suc tries) alloc m messageType data q = do {
     (appended, q) \<leftarrow> Append m messageType data q;
     (if appended then Some (None, q)
      else case PushAndGetFreshBuffer (alloc tries) q of (ok, q) \<Rightarrow>
        if ok then queueMessage_tries tries alloc m messageType data q
        else Some (Some OutOfMemory, q)) }"

definition queueMessage :: "(nat \<Rightarrow> bytes option) \<Rightarrow> nat \<Rightarrow> u32 \<Rightarrow> bytes \<Rightarrow> OutgoingQueue
    \<Rightarrow> (queue_error option \<times> OutgoingQueue) option" where
  "queueMessage alloc m messageType data q =
     (if length data \<ge> TONK_MAX_UNRELIABLE_BYTES then Some (Some Tonk_MessageTooLarge, q)
      else queueMessage_tries 2 alloc m messageType data q)"

partial_function (option) QueueReliable_loop :: "(nat \<Rightarrow> bytes option) \<Rightarrow> nat \<Rightarrow> nat \<Rightarrow> u32 \<Rightarrow> bytes \<Rightarrow> OutgoingQueue
    \<Rightarrow> (queue_error option \<times> OutgoingQueue) option" where
  "QueueReliable_loop alloc i m messageType data q = do {
     (written, q) \<leftarrow> AppendSplitReliable m messageType data q;
     (if written \<ge> length data then Some (None, q)
      else case PushAndGetFreshBuffer (alloc i) q of (ok, q) \<Rightarrow>
        if ok then QueueReliable_loop alloc (i + 1) m messageType (drop written data) q
        else Some (Some OutOfMemory, q)) }"

definition QueueReliable :: "(nat \<Rightarrow> bytes option) \<Rightarrow> nat \<Rightarrow> u32 \<Rightarrow> bytes \<Rightarrow> OutgoingQueue
    \<Rightarrow> (queue_error option \<times> OutgoingQueue) option" where
  "QueueReliable alloc m messageType data q =
     (if length data > TONK_MAX_RELIABLE_BYTES then Some (Some Tonk_MessageTooLarge, q)
      else QueueReliable_loop alloc 0 m messageType data q)"


section \<open>The send function of a connection\<close>

definition Queue_Unreliable :: nat where "Queue_Unreliable = 0"
definition Queue_Unmetered :: nat where "Queue_Unmetered = 1"
definition Queue_Reliable :: nat where "Queue_Reliable = 2"
definition Queue_LowPri :: nat where "Queue_LowPri = 3"


definition on_queue :: "nat \<Rightarrow> (OutgoingQueue \<Rightarrow> (queue_error option \<times> OutgoingQueue) option) \<Rightarrow> OutgoingQueue list
    \<Rightarrow> (queue_error option \<times> OutgoingQueue list) option" where
  "on_queue i f qs = do { (e, q) \<leftarrow> f (qs ! i); Some (e, qs[i := q]) }"

definition QueueUnreliable :: "(nat \<Rightarrow> bytes option) \<Rightarrow> nat \<Rightarrow> u32 \<Rightarrow> bytes \<Rightarrow> OutgoingQueue list
    \<Rightarrow> (queue_error option \<times> OutgoingQueue list) option" where
  "QueueUnreliable alloc m messageType data = on_queue Queue_Unreliable (queueMessage alloc m messageType data)"

definition QueueUnordered :: "(nat \<Rightarrow> bytes option) \<Rightarrow> nat \<Rightarrow> bytes \<Rightarrow> OutgoingQueue list
    \<Rightarrow> (queue_error option \<times> OutgoingQueue list) option" where
  "QueueUnordered alloc m data = on_queue Queue_Unmetered (queueMessage alloc m MessageType_Unordered data)"

definition QueueControl :: "(nat \<Rightarrow> bytes option) \<Rightarrow> nat \<Rightarrow> bytes \<Rightarrow> OutgoingQueue list
    \<Rightarrow> (queue_error option \<times> OutgoingQueue list) option" where
  "QueueControl alloc m data = on_queue Queue_Unmetered (queueMessage alloc m MessageType_Control data)"

definition QueueReliable_on :: "(nat \<Rightarrow> bytes option) \<Rightarrow> nat \<Rightarrow> u32 \<Rightarrow> bytes \<Rightarrow> OutgoingQueue list
    \<Rightarrow> (queue_error option \<times> OutgoingQueue list) option" where
  "QueueReliable_on alloc m messageType data =
     on_queue (if messageType \<ge> MessageType_LowPri then Queue_LowPri else Queue_Reliable)
       (QueueReliable alloc m messageType data)"

text \<open>The members of \<open>Connection\<close> that sending touches.  \<open>json\<close> is the text of a result.\<close>

record connection_sender =
  SendQueues :: "OutgoingQueue list"
  SelfRefCount :: RefCounter

fun GetErrorCode :: "queue_error \<Rightarrow> u32" where
  "GetErrorCode Tonk_Error = 2"
| "GetErrorCode Tonk_InvalidChannel = 4"
| "GetErrorCode Tonk_MessageTooLarge = 5"
| "GetErrorCode OutOfMemory = 16"

definition queue_for_channel :: "(nat \<Rightarrow> bytes option) \<Rightarrow> nat \<Rightarrow> nat \<Rightarrow> bytes \<Rightarrow> OutgoingQueue list
    \<Rightarrow> (queue_error option \<times> OutgoingQueue list) option" where
  "queue_for_channel alloc m channel data qs =
     (if channel = TonkChannel_Unreliable then QueueUnreliable alloc m MessageType_Unreliable data qs
      else if TonkChannel_Reliable0 \<le> channel \<and> channel \<le> TonkChannel_Reliable0 + 5 then
        QueueReliable_on alloc m (MessageType_Reliable + word_of_nat channel - word_of_nat TonkChannel_Reliable0) data qs
      else if TonkChannel_LowPri0 \<le> channel \<and> channel \<le> TonkChannel_LowPri0 + 5 then
        QueueReliable_on alloc m (MessageType_LowPri + word_of_nat channel - word_of_nat TonkChannel_LowPri0) data qs
      else if channel = TonkChannel_Unordered then QueueUnordered alloc m data qs
      else Some (Some Tonk_InvalidChannel, qs))"

definition tonk_send :: "(queue_error \<Rightarrow> string) \<Rightarrow> (nat \<Rightarrow> bytes option) \<Rightarrow> nat \<Rightarrow> nat \<Rightarrow> bytes \<Rightarrow> connection_sender
    \<Rightarrow> (queue_error option \<times> connection_sender) option" where
  "tonk_send json alloc m channel data c = do {
     (result, qs) \<leftarrow> queue_for_channel alloc m channel data (SendQueues c);
     let c = c\<lparr>SendQueues := qs\<rparr>;
     Some (result, case result of
         None \<Rightarrow> c
       | Some e \<Rightarrow> c\<lparr>SelfRefCount := StartShutdown (GetErrorCode e) (json e) (SelfRefCount c)\<rparr>) }"

section \<open>What is queued\<close>

text \<open>The bytes that wait in a queue, oldest first.\<close>

definition queued_bytes :: "OutgoingQueue \<Rightarrow> bytes" where
  "queued_bytes q = concat (queue_payloads q) @ out_payload q"

definition alloc_ok :: "nat \<Rightarrow> (nat \<Rightarrow> bytes option) \<Rightarrow> bool" where
  "alloc_ok m alloc \<longleftrightarrow> (\<forall>i. \<exists>d. alloc i = Some d \<and> m + kMaxOverheadBytes \<le> length d)"

lemma Push_ok:
  assumes "queue_inv m q" and "alloc_ok m alloc"
  obtains q' where "PushAndGetFreshBuffer (alloc i) q = (True, q')" "queue_inv m q'" "queued_bytes q' = queued_bytes q"
    "out_payload q' = []" "OutBuffer q' \<noteq> None"
proof -
  obtain d where d: "alloc i = Some d" "m + kMaxOverheadBytes \<le> length d"
    using assms(2) by (auto simp: alloc_ok_def)
  let ?r = "PushAndGetFreshBuffer (alloc i) q"
  have "queue_inv m (snd ?r)" "queued_bytes (snd ?r) = queued_bytes q"
    using PushAndGetFreshBuffer_ok [OF assms(1), of "alloc i"] d by (simp_all add: queued_bytes_def)
  moreover have "fst ?r" "out_payload (snd ?r) = []" "OutBuffer (snd ?r) \<noteq> None"
    using d by (auto simp: PushAndGetFreshBuffer_def out_payload_def payload_of_def Let_def split: option.split)
  ultimately show thesis using that [of "snd ?r"] by (cases ?r) auto
qed

text \<open>A fresh buffer takes at least twenty bytes of a message.\<close>

lemma AppendSplitReliable_progress:
  assumes "queue_inv m q" and "x \<noteq> []" and "out_payload q = []" and "OutBuffer q \<noteq> None" and "22 \<le> m"
  obtains n q' where "AppendSplitReliable m t x q = Some (n, q')" "0 < n"
proof -
  obtain d where d: "OutBuffer q = Some d" using assms(4) by auto
  then have "NextWriteOffset d = 0"
    using assms(1,3) by (auto simp: queue_inv_def out_payload_def payload_of_def)
  moreover obtain n q' where a: "AppendSplitReliable m t x q = Some (n, q')"
    using AppendSplitReliable_ok [OF assms(1,2), of t] by blast
  ultimately have "0 < n"
    using d assms(2,5)
    by (auto simp: AppendSplitReliable_def kMessageFrameBytes_def kMessageSplitMinimumBytes_def Let_def
        split: if_splits Option.bind_splits)
  with a show thesis by (rule that)
qed


text \<open>The fragments of a reliable message: all but the last one have the type of the channel.\<close>

definition fragments :: "u32 \<Rightarrow> bytes list \<Rightarrow> (u32 \<times> bytes) list" where
  "fragments t ds = map (Pair t) (butlast ds) @ [(t + TonkChannel_Count, last ds)]"

lemma fragments_Cons [simp]: "ds \<noteq> [] \<Longrightarrow> fragments t (d # ds) = (t, d) # fragments t ds"
  by (simp add: fragments_def)

lemma fragments_single [simp]: "fragments t [d] = [(t + TonkChannel_Count, d)]"
  by (simp add: fragments_def)

definition fresh_buffer :: "OutgoingQueue \<Rightarrow> bool" where
  "fresh_buffer q \<longleftrightarrow> out_payload q = [] \<and> OutBuffer q \<noteq> None"

lemma written_fits:
  assumes "queue_inv m q'" and "out_payload q' = p @ frame_wire (t, x)"
  shows "length x + 2 \<le> m"
proof -
  have "length (out_payload q') \<le> m"
    using assms(1) by (auto simp: queue_inv_def out_payload_def payload_of_def split: option.splits)
  with assms(2) show ?thesis by simp
qed

lemma QueueReliable_loop_ok:
  assumes "queue_inv m q" and "alloc_ok m alloc" and "22 \<le> m" and "x \<noteq> []"
  shows "\<exists>q' ds. QueueReliable_loop alloc i m t x q = Some (None, q') \<and> queue_inv m q'
    \<and> ds \<noteq> [] \<and> concat ds = x \<and> (\<forall>d \<in> set ds. d \<noteq> [] \<and> length d + 2 \<le> m)
    \<and> queued_bytes q' = queued_bytes q @ concat (map frame_wire (fragments t ds))"
  using assms
proof (induction "2 * length x + (if fresh_buffer q then 0 else 1)" arbitrary: x q i rule: less_induct)
  case less
  note inv = less.prems(1) and alloc = less.prems(2) and m = less.prems(3) and x = less.prems(4)
  obtain n q1 where a: "AppendSplitReliable m t x q = Some (n, q1)" "queue_inv m q1" "n \<le> length x"
    "queue_payloads q1 = queue_payloads q"
    "out_payload q1 = (if n = 0 then out_payload q
       else out_payload q @ frame_wire (if n = length x then t + TonkChannel_Count else t, take n x))"
    using AppendSplitReliable_ok [OF inv x, of t] by blast
  show ?case
  proof (cases "length x \<le> n")
    case True
    then have "n = length x" "n \<noteq> 0" using a(3) x by auto
    then have out: "out_payload q1 = out_payload q @ frame_wire (t + TonkChannel_Count, x)" using a(5) by simp
    have "QueueReliable_loop alloc i m t x q = Some (None, q1)"
      using a(1) True by (subst QueueReliable_loop.simps) simp
    moreover have "queued_bytes q1 = queued_bytes q @ concat (map frame_wire (fragments t [x]))"
      using out a(4) by (simp add: queued_bytes_def)
    ultimately show ?thesis
      using a(2) x written_fits [OF a(2) out] by (intro exI [of _ q1] exI [of _ "[x]"]) simp
  next
    case False
    obtain q2 where q2: "PushAndGetFreshBuffer (alloc i) q1 = (True, q2)" "queue_inv m q2"
      "queued_bytes q2 = queued_bytes q1" "out_payload q2 = []" "OutBuffer q2 \<noteq> None"
      using Push_ok [OF a(2) alloc, of i] by blast
    have fresh: "fresh_buffer q2" using q2 by (simp add: fresh_buffer_def)
    have "n \<noteq> 0 \<or> \<not> fresh_buffer q"
      using AppendSplitReliable_progress [OF inv x _ _ m, of t] a(1) by (auto simp: fresh_buffer_def)
    then have dec: "2 * length (drop n x) + (if fresh_buffer q2 then 0 else 1) < 2 * length x + (if fresh_buffer q then 0 else 1)"
      using False fresh by auto
    obtain q' ds where r: "QueueReliable_loop alloc (i + 1) m t (drop n x) q2 = Some (None, q')" "queue_inv m q'"
      "ds \<noteq> []" "concat ds = drop n x" "\<forall>d \<in> set ds. d \<noteq> [] \<and> length d + 2 \<le> m"
      "queued_bytes q' = queued_bytes q2 @ concat (map frame_wire (fragments t ds))"
      using less.hyps [OF dec q2(2) alloc m, of "i + 1"] False by auto
    have loop: "QueueReliable_loop alloc i m t x q = Some (None, q')"
      using a(1) False q2(1) r(1) by (subst QueueReliable_loop.simps) simp
    show ?thesis
    proof (cases "n = 0")
      case True
      then show ?thesis
        using loop r q2 a(4,5) by (intro exI [of _ q'] exI [of _ ds]) (simp add: queued_bytes_def)
    next
      case n: False
      then have out: "out_payload q1 = out_payload q @ frame_wire (t, take n x)" using a(5) False by simp
      have "length (take n x) + 2 \<le> m" by (rule written_fits [OF a(2) out])
      then show ?thesis
        using loop r q2 a(4) out n x
        by (intro exI [of _ q'] exI [of _ "take n x # ds"]) (simp add: queued_bytes_def)
    qed
  qed
qed

lemma queueMessage_ok:
  assumes inv: "queue_inv m q" and alloc: "alloc_ok m alloc" and x: "length x < TONK_MAX_UNRELIABLE_BYTES"
    and m: "TONK_MAX_UNRELIABLE_BYTES < m"
  shows "\<exists>q'. queueMessage alloc m t x q = Some (None, q') \<and> queue_inv m q'
    \<and> queued_bytes q' = queued_bytes q @ frame_wire (t, x)"
proof -
  obtain ok q1 where a: "Append m t x q = Some (ok, q1)" "queue_inv m q1" "queue_payloads q1 = queue_payloads q"
    "out_payload q1 = (if ok then out_payload q @ frame_wire (t, x) else out_payload q)"
    using Append_ok [OF inv, of t x] by blast
  show ?thesis
  proof (cases ok)
    case True
    then show ?thesis using a x by (simp add: queueMessage_def numeral_2_eq_2 queued_bytes_def)
  next
    case False
    obtain q2 where q2: "PushAndGetFreshBuffer (alloc 1) q1 = (True, q2)" "queue_inv m q2"
      "queued_bytes q2 = queued_bytes q1" "out_payload q2 = []" "OutBuffer q2 \<noteq> None"
      using Push_ok [OF a(2) alloc, of 1] by blast
    obtain d where d: "OutBuffer q2 = Some d" using q2(5) by auto
    then have "NextWriteOffset d = 0"
      using q2(2,4) by (auto simp: queue_inv_def out_payload_def payload_of_def)
    then have fits: "NextWriteOffset d + 2 + length x \<le> m" using x m by (simp add: TONK_MAX_UNRELIABLE_BYTES_def)
    obtain ok' q3 where b: "Append m t x q2 = Some (ok', q3)" "queue_inv m q3" "queue_payloads q3 = queue_payloads q2"
      "out_payload q3 = (if ok' then out_payload q2 @ frame_wire (t, x) else out_payload q2)"
      using Append_ok [OF q2(2), of t x] by blast
    have "ok'" using b(1) d fits
      by (auto simp: Append_def kMessageFrameBytes_def Let_def split: if_splits Option.bind_splits)
    then show ?thesis
      using a b q2 x False by (simp add: queueMessage_def numeral_2_eq_2 queued_bytes_def)
  qed
qed


section \<open>Acknowledgements and handshakes\<close>

text \<open>The \<open>LastAck\<close> members that are not part of \<open>SessionOutgoing\<close>, the FEC encoder and the queues.\<close>

record 'e outgoing_state =
  Out :: SessionOutgoing
  NextAcceptableNonce :: u64
  AckReceiveUsec :: u64
  FECEncoder :: 'e
  Queues :: "OutgoingQueue list"

datatype ack_error = TruncatedAck | AckOutOfOrder | EncoderAckFailed | QueueFailed queue_error

definition kAckOverheadBytes :: nat where "kAckOverheadBytes = 3 + 3"

definition PeerCaughtUp :: "SessionOutgoing \<Rightarrow> bool" where
  "PeerCaughtUp s \<longleftrightarrow> PeerNextExpectedSeqNum s = NextSequenceNumber s"

text \<open>\<open>encoder_ack\<close> stands for \<open>siamese_encoder_ack\<close>: it returns the next expected sequence number, or
  \<open>None\<close> on an error.  The bandwidth shape in the message is handed on unread; \<open>None\<close> as the overall
  result is an access outside of the message.\<close>

definition OnAcknowledgements :: "(bytes \<Rightarrow> 'e \<Rightarrow> u32 option \<times> 'e) \<Rightarrow> (nat \<Rightarrow> bytes option) \<Rightarrow> bytes \<Rightarrow> u64 \<Rightarrow> u64
    \<Rightarrow> 'e outgoing_state \<Rightarrow> (ack_error option \<times> 'e outgoing_state) option" where
  "OnAcknowledgements encoder_ack alloc data ackNonce receiveUsec s =
     (if length data < kAckOverheadBytes then Some (Some TruncatedAck, s)
      else if counter_lt 64 ackNonce (NextAcceptableNonce s) then Some (None, s)
      else do {
        let s = s\<lparr>NextAcceptableNonce := ackNonce + 1\<rparr>;
        partial \<leftarrow> ReadU24_LE data 0;
        let partialNonce = Counter 24 partial;
        let recovered = ExpandFromTruncated 64 24 (PeerNextExpectedNonce (Out s)) partialNonce;
        if counter_lt 64 recovered (PeerNextExpectedNonce (Out s)) then Some (Some AckOutOfOrder, s)
        else let (result, s) =
            (if length data > kAckOverheadBytes
             then (case encoder_ack (drop kAckOverheadBytes data) (FECEncoder s) of
                     (None, e) \<Rightarrow> (Some EncoderAckFailed, s\<lparr>FECEncoder := e\<rparr>)
                   | (Some n, e) \<Rightarrow> (None, s\<lparr>FECEncoder := e, Out := (Out s)\<lparr>PeerNextExpectedSeqNum := n\<rparr>\<rparr>))
             else (None, s))
          in if result \<noteq> None then Some (result, s)
             else let s = s\<lparr>Out := (Out s)\<lparr>PeerNextExpectedNonce := recovered\<rparr>, AckReceiveUsec := receiveUsec\<rparr>
               in if PeerCaughtUp (Out s) then do {
                    ackack \<leftarrow> WriteU24_LE_Min4Bytes (replicate 4 0) 0 (PeerNextExpectedSeqNum (Out s));
                    (e, qs) \<leftarrow> QueueUnreliable alloc (MaxMessageSectionBytes (Out s)) MessageType_AckAck (take 3 ackack) (Queues s);
                    Some (map_option QueueFailed e, s\<lparr>Queues := qs\<rparr>) }
                  else Some (None, s) })"

definition StartHandshakeC2SConnect :: "u64 \<Rightarrow> SessionOutgoing \<Rightarrow> SessionOutgoing option" where
  "StartHandshakeC2SConnect key s = do {
     h \<leftarrow> WriteC2SConnectionRequest (Handshake s) 0 key; Some (s\<lparr>Handshake := h, AttachHandshake := True\<rparr>) }"

definition StartHandshakePeer2PeerConnect :: "u64 \<Rightarrow> SessionOutgoing \<Rightarrow> SessionOutgoing option" where
  "StartHandshakePeer2PeerConnect key s = do {
     h \<leftarrow> WriteP2PConnectionRequest (Handshake s) 0 key; Some (s\<lparr>Handshake := h, AttachHandshake := True\<rparr>) }"

definition StartHandshakeC2SUpdateSourceAddress :: "u64 \<Rightarrow> u32 \<Rightarrow> SessionOutgoing \<Rightarrow> SessionOutgoing option" where
  "StartHandshakeC2SUpdateSourceAddress key ident s = do {
     h \<leftarrow> WriteC2SUpdateSourceAddress (Handshake s) 0 key ident; Some (s\<lparr>Handshake := h, AttachHandshake := True\<rparr>) }"

definition StopHandshake :: "SessionOutgoing \<Rightarrow> SessionOutgoing" where
  "StopHandshake s = s\<lparr>AttachHandshake := False\<rparr>"


lemma OnAcknowledgements_nonces:
  assumes "OnAcknowledgements encoder_ack alloc data ackNonce u s = Some (e, s')" and "kAckOverheadBytes \<le> length data"
  shows "(counter_lt 64 ackNonce (NextAcceptableNonce s) \<and> s' = s \<or> NextAcceptableNonce s' = ackNonce + 1)
    \<and> \<not> counter_lt 64 (PeerNextExpectedNonce (Out s')) (PeerNextExpectedNonce (Out s))"
proof -
  have refl: "\<not> counter_lt 64 x (x :: u64)" for x by (simp add: counter_lt64_iff_sint)
  show ?thesis
    using assms refl
    by (auto simp: OnAcknowledgements_def Let_def split: if_splits Option.bind_splits prod.splits option.splits)
qed

section \<open>Properties\<close>

text \<open>Property C8: a reliable message is split without loss.  On every well-formed queue, with room for at least
  22 bytes in a datagram and allocations that succeed, \<open>QueueReliable\<close> returns, and appends to the
  queued bytes exactly the frames of non-empty fragments whose concatenation is the message; every
  fragment fits a datagram, and only the last one has the type that marks the end of a message.\<close>

theorem QueueReliable_splits:
  assumes "queue_inv m q" and "alloc_ok m alloc" and "22 \<le> m" and "x \<noteq> []" and "length x \<le> TONK_MAX_RELIABLE_BYTES"
  shows "\<exists>q' ds. QueueReliable alloc m t x q = Some (None, q') \<and> queue_inv m q'
    \<and> ds \<noteq> [] \<and> concat ds = x \<and> (\<forall>d \<in> set ds. d \<noteq> [] \<and> length d + 2 \<le> m)
    \<and> queued_bytes q' = queued_bytes q @ concat (map frame_wire (fragments t ds))"
  using QueueReliable_loop_ok [OF assms(1-4), of 0 t] assms(5) by (simp add: QueueReliable_def)

definition empty_queue :: OutgoingQueue where
  "empty_queue = \<lparr>OutBuffer = None, Queued = [], QueuedBytes = 0\<rparr>"

lemma empty_queue_inv [simp]: "queue_inv m empty_queue" "queued_bytes empty_queue = []"
  by (simp_all add: empty_queue_def queue_inv_def queue_payloads_def out_payload_def queued_bytes_def)

theorem QueueReliable_splits_witness:
  "\<exists>q' ds. QueueReliable (\<lambda>_. Some (replicate 64 0)) 40 6 (replicate 100 7) empty_queue = Some (None, q') \<and> queue_inv 40 q'
    \<and> ds \<noteq> [] \<and> concat ds = replicate 100 7 \<and> queued_bytes q' = concat (map frame_wire (fragments 6 ds))"
proof -
  have a: "alloc_ok 40 (\<lambda>_. Some (replicate 64 0))" by (simp add: alloc_ok_def kMaxOverheadBytes_def byte_count_defs)
  have x: "replicate 100 (7 :: u8) \<noteq> []" "length (replicate 100 (7 :: u8)) \<le> TONK_MAX_RELIABLE_BYTES"
    by (simp_all add: TONK_MAX_RELIABLE_BYTES_def flip: length_greater_0_conv)
  obtain q' ds where *: "QueueReliable (\<lambda>_. Some (replicate 64 0)) 40 6 (replicate 100 7) empty_queue = Some (None, q')"
    "queue_inv 40 q'" "ds \<noteq> []" "concat ds = replicate 100 7"
    "queued_bytes q' = queued_bytes empty_queue @ concat (map frame_wire (fragments 6 ds))"
    using QueueReliable_splits [OF empty_queue_inv(1) a _ x, of 6] by auto
  show ?thesis
    by (rule exI [of _ q'], rule exI [of _ ds]) (intro conjI *(1-4), simp only: *(5) empty_queue_inv append_Nil)
qed


text \<open>Property C34: acknowledgements never take back what the peer acknowledged.  Whatever the message says, the
  peer's next expected nonce never moves back, and a second acknowledgement from a datagram with the
  same nonce is ignored and changes nothing.\<close>

theorem acknowledgements_monotone:
  assumes "OnAcknowledgements encoder_ack alloc data ackNonce u s = Some (e, s')"
    and "kAckOverheadBytes \<le> length data" and "kAckOverheadBytes \<le> length data'"
  shows "\<not> counter_lt 64 (PeerNextExpectedNonce (Out s')) (PeerNextExpectedNonce (Out s))
    \<and> OnAcknowledgements encoder_ack alloc data' ackNonce u' s' = Some (None, s')"
proof -
  have "counter_lt 64 n (n + 1)" for n :: u64 by (simp add: counter_lt64_iff_sint)
  then show ?thesis
    using OnAcknowledgements_nonces [OF assms(1,2)] assms(3) by (auto simp: OnAcknowledgements_def)
qed

definition ack_example :: "unit outgoing_state" where
  "ack_example = \<lparr>Out = send_example, NextAcceptableNonce = 4, AckReceiveUsec = 0, FECEncoder = (),
     Queues = replicate 4 empty_queue\<rparr>"

theorem acknowledgements_monotone_witness:
  "\<exists>s'. OnAcknowledgements (\<lambda>d e. (None, e)) (\<lambda>_. None) [6, 0, 0, 1, 2, 3] 5 99 ack_example = Some (None, s')
    \<and> PeerNextExpectedNonce (Out s') = 6
    \<and> \<not> counter_lt 64 (PeerNextExpectedNonce (Out s')) (PeerNextExpectedNonce (Out ack_example))
    \<and> OnAcknowledgements (\<lambda>d e. (None, e)) (\<lambda>_. None) [9, 0, 0, 1, 2, 3] 5 100 s' = Some (None, s')"
proof -
  let ?s' = "ack_example\<lparr>NextAcceptableNonce := 6, Out := send_example\<lparr>PeerNextExpectedNonce := 6\<rparr>, AckReceiveUsec := 99\<rparr>"
  have "ExpandFromTruncated 64 24 (3 :: u64) (6 :: u32) = 6"
    using ExpandFromTruncated_eq [of 24 "3 :: u64" "6 :: u64", where 's = 32] by (simp add: Counter_eq_take_bit)
  then have "OnAcknowledgements (\<lambda>d e. (None, e)) (\<lambda>_. None) [6, 0, 0, 1, 2, 3] 5 99 ack_example = Some (None, ?s')"
    by (simp add: OnAcknowledgements_def kAckOverheadBytes_def ack_example_def send_example_def counter_lt64_iff_sint
        ReadU24_LE_def rd8_def Counter_eq_take_bit PeerCaughtUp_def Let_def)
  from this acknowledgements_monotone [OF this, of "[9, 0, 0, 1, 2, 3]" 100] show ?thesis
    by (intro exI [of _ ?s']) (simp add: kAckOverheadBytes_def)
qed

end
