(* ===== verification/Time_Sync.thy ===== *)
theory Time_Sync
  imports Siamese_Common Counter_Math
begin

text \<open>
  Clock synchronisation, \<open>TimeSync.h\<close> and \<open>TimeSync.cpp\<close>.  Each side timestamps its datagrams with its own
  clock in units of 8 microseconds, reduced to 24 bits.  The receiver keeps the smallest difference of
  receive and send time over a window of ten seconds and tells it to the peer; from the two minima each side
  computes the difference of the clocks and the one-way delay.

  The class \<open>WindowedMinTS24\<close> is the filter of \<open>Siamese_Common\<close> with the comparison of 24-bit rolling
  counters.  That comparison is not an order; it is total on counters that lie within half of the
  number circle, which instantiates the locale \<open>windowed_filter\<close>.
\<close>

unbundle bit_operations_syntax

section \<open>Constants\<close>

definition kDefaultOWDUsec :: u32 where "kDefaultOWDUsec = 200 * 1000"
definition kTime23Bias :: u64 where "kTime23Bias = 0x200000"
definition kTime23ErrorBound :: nat where "kTime23ErrorBound = 2 ^ kTime23LostBits * 2 - 1"
definition kTime16LostBits :: nat where "kTime16LostBits = 9"
definition kTime16Bias :: u64 where "kTime16Bias = 0x4000"
definition kTime16ErrorBound :: nat where "kTime16ErrorBound = 2 ^ kTime16LostBits * 2 - 1"
definition kDriftWindowUsec :: u64 where "kDriftWindowUsec = 10 * 1000 * 1000"

section \<open>Operations\<close>

definition WindowedMinTS24_Update :: "u32 \<Rightarrow> u64 \<Rightarrow> u64 \<Rightarrow> u32 WindowedMinMax \<Rightarrow> u32 WindowedMinMax" where
  "WindowedMinTS24_Update = Update (counter_le 24)"

record TimeSynchronizer =
  Synchronized :: bool
  RemoteTimeDeltaUsec :: u32
  MinimumOneWayDelayUsec :: u32
  WindowedMinTS24Deltas :: "u32 WindowedMinMax"
  LastFC_MinDeltaTS24 :: u32
  GotPeerUpdate :: bool

definition TimeSynchronizer_init :: TimeSynchronizer where
  "TimeSynchronizer_init =
     \<lparr>Synchronized = False, RemoteTimeDeltaUsec = 0, MinimumOneWayDelayUsec = kDefaultOWDUsec,
      WindowedMinTS24Deltas = Reset \<lparr>Value = 0, Timestamp = 0\<rparr>, LastFC_MinDeltaTS24 = 0, GotPeerUpdate = False\<rparr>"

definition kSignRolloverThreshold :: u32 where
  "kSignRolloverThreshold = push_bit kTime23LostBits (push_bit 22 1)"

definition Recalculate :: "TimeSynchronizer \<Rightarrow> TimeSynchronizer" where
  "Recalculate s =
     (if \<not> IsValid (WindowedMinTS24Deltas s) \<or> \<not> GotPeerUpdate s then s
      else let minRecvDeltaTS24 = GetBest (WindowedMinTS24Deltas s);
               minSendDeltaTS24 = LastFC_MinDeltaTS24 s;
               minOWD_TS23 = Counter 23 (drop_bit 1 (counter_add 24 minSendDeltaTS24 minRecvDeltaTS24));
               clockDelta_TS23 = Counter 23 (drop_bit 1 (counter_sub 24 minSendDeltaTS24 minRecvDeltaTS24));
               min_owd_usec = push_bit kTime23LostBits minOWD_TS23;
               min_owd_usec = (if min_owd_usec \<ge> kSignRolloverThreshold then 0 else min_owd_usec)
           in s\<lparr>RemoteTimeDeltaUsec := push_bit kTime23LostBits clockDelta_TS23,
                MinimumOneWayDelayUsec := min_owd_usec, Synchronized := True\<rparr>)"

definition OnPeerMinDeltaTS24 :: "u32 \<Rightarrow> TimeSynchronizer \<Rightarrow> TimeSynchronizer" where
  "OnPeerMinDeltaTS24 minDeltaTS24 s = Recalculate (s\<lparr>LastFC_MinDeltaTS24 := minDeltaTS24, GotPeerUpdate := True\<rparr>)"

definition LocalTimeToDatagramTS24 :: "u64 \<Rightarrow> u32" where
  "LocalTimeToDatagramTS24 localUsec = ucast (drop_bit kTime23LostBits localUsec) AND 0x00ffffff"

definition GetMinDeltaTS24 :: "TimeSynchronizer \<Rightarrow> u32" where
  "GetMinDeltaTS24 s = GetBest (WindowedMinTS24Deltas s)"

definition OnAuthenticatedDatagramTimestamp :: "u32 \<Rightarrow> u64 \<Rightarrow> TimeSynchronizer \<Rightarrow> u32 \<times> TimeSynchronizer" where
  "OnAuthenticatedDatagramTimestamp remoteSendTS24 localRecvUsec s =
     (let localTS24 = Counter 24 (ucast (drop_bit kTime23LostBits localRecvUsec));
          deltaTS24 = counter_sub 24 localTS24 remoteSendTS24;
          s = Recalculate (s\<lparr>WindowedMinTS24Deltas :=
                WindowedMinTS24_Update deltaTS24 localRecvUsec kDriftWindowUsec (WindowedMinTS24Deltas s)\<rparr>);
          networkTripUsec =
            (if Synchronized s then
               MinimumOneWayDelayUsec s +
               (if counter_gt 24 deltaTS24 (GetMinDeltaTS24 s)
                then push_bit kTime23LostBits (counter_sub 24 deltaTS24 (GetMinDeltaTS24 s)) else 0)
             else 0)
      in (networkTripUsec, s))"

definition ToRemoteTime16 :: "u64 \<Rightarrow> TimeSynchronizer \<Rightarrow> u16" where
  "ToRemoteTime16 localUsec s =
     (if \<not> Synchronized s then 0
      else ucast (drop_bit kTime16LostBits localUsec) + ucast (drop_bit kTime16LostBits (RemoteTimeDeltaUsec s)))"

definition FromLocalTime16 :: "u64 \<Rightarrow> u16 \<Rightarrow> u64" where
  "FromLocalTime16 localUsec timestamp16 =
     push_bit kTime16LostBits
       (ExpandFromTruncatedWithBias 64 16 (drop_bit kTime16LostBits localUsec) timestamp16 kTime16Bias)"

definition ToRemoteTime23 :: "u64 \<Rightarrow> TimeSynchronizer \<Rightarrow> u32" where
  "ToRemoteTime23 localUsec s =
     (if \<not> Synchronized s then 0
      else counter_add 23 (Counter 23 (ucast (drop_bit kTime23LostBits localUsec)))
             (Counter 23 (drop_bit kTime23LostBits (RemoteTimeDeltaUsec s))))"

definition FromLocalTime23 :: "u64 \<Rightarrow> u32 \<Rightarrow> u64" where
  "FromLocalTime23 localUsec timestamp23 =
     push_bit kTime23LostBits
       (ExpandFromTruncatedWithBias 64 23 (drop_bit kTime23LostBits localUsec) timestamp23 kTime23Bias)"

section \<open>Rolling counters as integers\<close>

definition ts24 :: "int \<Rightarrow> u32" where
  "ts24 n = Counter 24 (word_of_int n)"

lemma uint_Counter: "k \<le> LENGTH('w) \<Longrightarrow> uint (Counter k (x :: 'w::len word)) = uint x mod 2 ^ k"
  by (simp add: Counter_eq_take_bit uint_take_bit_mod)

lemma uint_Counter_of_int: "k \<le> LENGTH('w) \<Longrightarrow> uint (Counter k (word_of_int n :: 'w::len word)) = n mod 2 ^ k"
  by (simp add: uint_Counter uint_word_of_int mod_mod_cancel le_imp_power_dvd)

lemma Counter_of_int_eq_iff:
  "k \<le> LENGTH('w) \<Longrightarrow> Counter k (word_of_int a :: 'w::len word) = Counter k (word_of_int b) \<longleftrightarrow> a mod 2 ^ k = b mod 2 ^ k"
  by (simp add: word_uint_eq_iff uint_Counter_of_int)

lemma Counter_add_of_int:
  assumes "k \<le> LENGTH('w)"
  shows "counter_add k (Counter k (word_of_int a :: 'w::len word)) (Counter k (word_of_int b)) = Counter k (word_of_int (a + b))"
    "counter_sub k (Counter k (word_of_int a :: 'w::len word)) (Counter k (word_of_int b)) = Counter k (word_of_int (a - b))"
  using assms take_bit_add_cong [of k "take_bit k (word_of_int a :: 'w word)" "word_of_int a" "take_bit k (word_of_int b)" "word_of_int b"]
    take_bit_sub_cong [of k "take_bit k (word_of_int a :: 'w word)" "word_of_int a" "take_bit k (word_of_int b)" "word_of_int b"]
  by (simp_all add: counter_add_def counter_sub_def Counter_eq_take_bit)

lemma uint_ts24: "uint (ts24 n) = n mod 2 ^ 24"
  unfolding ts24_def by (rule uint_Counter_of_int) simp

lemma ts24_eq_iff: "ts24 a = ts24 b \<longleftrightarrow> a mod 2 ^ 24 = b mod 2 ^ 24"
  unfolding ts24_def by (rule Counter_of_int_eq_iff) simp

lemma ts24_add_sub: "counter_add 24 (ts24 a) (ts24 b) = ts24 (a + b)" "counter_sub 24 (ts24 a) (ts24 b) = ts24 (a - b)"
  unfolding ts24_def by (rule Counter_add_of_int; simp)+

lemma uint_drop_bit: "uint (drop_bit n (x :: 'w::len word)) = uint x div 2 ^ n"
  by (simp add: unsigned_drop_bit_eq take_bit_int_eq_self flip: drop_bit_eq_div)

lemma mod_div_two: "(n mod 2 ^ Suc k) div 2 = (n div 2) mod (2 ^ k :: int)"
proof -
  have "n mod (2 * 2 ^ k) = 2 * (n div 2 mod 2 ^ k) + n mod 2" using zmod_zmult2_eq [of "2 ^ k" n 2] by simp
  then show ?thesis by simp
qed

text \<open>The comparison of counters within half of the circle is the comparison of the numbers.\<close>

lemma counter_le_ts24:
  assumes "\<bar>a - b\<bar> < 2 ^ 23"
  shows "counter_le 24 (ts24 a) (ts24 b) \<longleftrightarrow> a \<le> b" "counter_gt 24 (ts24 a) (ts24 b) \<longleftrightarrow> a > b"
proof -
  have "(ts24 b - ts24 a) AND kMask 24 = ts24 (b - a)"
    using ts24_add_sub(2) [of b a] by (simp add: counter_sub_def Counter_def)
  moreover have "ts24 (b - a) < kMSB 24 \<longleftrightarrow> (b - a) mod 2 ^ 24 < 2 ^ 23"
    unfolding word_less_def kMSB_eq uint_ts24 by simp
  moreover have "(b - a) mod 2 ^ 24 < 2 ^ 23 \<longleftrightarrow> a \<le> b"
  proof (cases "a \<le> b")
    case True
    then have "(b - a) mod 2 ^ 24 = b - a" using assms by (intro mod_pos_pos_trivial) auto
    then show ?thesis using True assms by auto
  next
    case False
    have "(b - a) mod 2 ^ 24 = (b - a + 2 ^ 24) mod 2 ^ 24" by simp
    also have "\<dots> = b - a + 2 ^ 24" using False assms by (intro mod_pos_pos_trivial) auto
    finally show ?thesis using False assms by auto
  qed
  ultimately show "counter_le 24 (ts24 a) (ts24 b) \<longleftrightarrow> a \<le> b" "counter_gt 24 (ts24 a) (ts24 b) \<longleftrightarrow> a > b"
    by (auto simp: counter_le_def counter_gt_def not_less [symmetric])
qed

section \<open>What is computed\<close>

text \<open>In units of 8 microseconds: \<open>D\<close> is the remote clock minus the local one, \<open>i\<close> the smallest delay towards
  this host and \<open>j\<close> the smallest delay towards the peer.\<close>

lemma IsValid_iff: "IsValid w \<longleftrightarrow> GetBest w \<noteq> 0"
  by (simp add: IsValid_def GetBest_def)

lemma half_counter: "uint (Counter 23 (drop_bit 1 (ts24 n))) = (n div 2) mod 2 ^ 23"
proof -
  have "uint (drop_bit 1 (ts24 n)) = (n div 2) mod 2 ^ 23"
    using mod_div_two [of n 23] by (simp add: uint_drop_bit uint_ts24)
  then show ?thesis using uint_Counter [of 23 "drop_bit 1 (ts24 n)"] by simp
qed

lemma uint_shift3:
  assumes "uint (x :: u32) < 2 ^ 29"
  shows "uint (push_bit 3 x) = 8 * uint x"
proof -
  have "uint (push_bit 3 x) = (8 * uint x) mod 2 ^ 32" by (simp add: push_bit_eq_mult uint_word_ariths mult.commute)
  then show ?thesis using assms by simp
qed

lemma Recalculate_fields:
  assumes "GetBest (WindowedMinTS24Deltas s) = ts24 (i - D)" and "ts24 (i - D) \<noteq> 0"
    and "LastFC_MinDeltaTS24 s = ts24 (j + D)" and "GotPeerUpdate s"
    and "0 \<le> i" "0 \<le> j" "i + j < 2 ^ 23"
  shows "Synchronized (Recalculate s)"
    "uint (RemoteTimeDeltaUsec (Recalculate s)) = 8 * ((D + (j - i) div 2) mod 2 ^ 23)"
    "uint (MinimumOneWayDelayUsec (Recalculate s)) = 8 * ((i + j) div 2)"
    "WindowedMinTS24Deltas (Recalculate s) = WindowedMinTS24Deltas s"
proof -
  have sum: "counter_add 24 (ts24 (j + D)) (ts24 (i - D)) = ts24 (i + j)"
    "counter_sub 24 (ts24 (j + D)) (ts24 (i - D)) = ts24 (2 * D + (j - i))"
    using ts24_add_sub [of "j + D" "i - D"] by (simp_all add: algebra_simps)
  have v: "IsValid (WindowedMinTS24Deltas s)" using assms(1,2) by (simp add: IsValid_iff)
  define o' d where "o' = Counter 23 (drop_bit 1 (ts24 (i + j)))" and "d = Counter 23 (drop_bit 1 (ts24 (2 * D + (j - i))))"
  have o': "uint o' = (i + j) div 2" unfolding o'_def half_counter using assms by (intro mod_pos_pos_trivial) auto
  have d: "uint d = (D + (j - i) div 2) mod 2 ^ 23" unfolding d_def half_counter by simp
  have small: "uint o' < 2 ^ 22" "uint d < 2 ^ 23" using o' d assms by auto
  have so: "uint (push_bit 3 o') = 8 * ((i + j) div 2)" using uint_shift3 [of o'] small o' by simp
  have "\<not> kSignRolloverThreshold \<le> push_bit 3 o'"
    unfolding word_le_def so using small(1) o' by (simp add: kSignRolloverThreshold_def kTime23LostBits_def push_bit_eq_mult)
  then have R: "Recalculate s = s\<lparr>RemoteTimeDeltaUsec := push_bit 3 d, MinimumOneWayDelayUsec := push_bit 3 o', Synchronized := True\<rparr>"
    using v assms(1,3,4) by (simp add: Recalculate_def Let_def sum kTime23LostBits_def o'_def d_def)
  show "Synchronized (Recalculate s)" "uint (MinimumOneWayDelayUsec (Recalculate s)) = 8 * ((i + j) div 2)"
    "WindowedMinTS24Deltas (Recalculate s) = WindowedMinTS24Deltas s"
    unfolding R using so by simp_all
  show "uint (RemoteTimeDeltaUsec (Recalculate s)) = 8 * ((D + (j - i) div 2) mod 2 ^ 23)"
    unfolding R using uint_shift3 [of d] small(2) d by simp
qed

section \<open>Runs of datagrams\<close>

definition near :: "int \<Rightarrow> u32 \<Rightarrow> bool" where
  "near base c \<longleftrightarrow> (\<exists>n. base \<le> n \<and> n < base + 2 ^ 23 \<and> c = ts24 n)"

interpretation ts24_filter: windowed_filter "counter_le 24" "near base" for base
proof
  fix x y assume "near base x" "near base y"
  then obtain m n where "x = ts24 m" "y = ts24 n" "\<bar>m - n\<bar> < 2 ^ 23" unfolding near_def by fastforce
  then show "counter_le 24 x y \<or> counter_le 24 y x"
    using counter_le_ts24(1) [of m n] counter_le_ts24(1) [of n m] by (auto simp: abs_minus_commute)
qed

definition delta_of :: "u32 \<Rightarrow> u64 \<Rightarrow> u32" where
  "delta_of send recv = counter_sub 24 (Counter 24 (ucast (drop_bit kTime23LostBits recv))) send"

definition receive_timestamps :: "(int \<times> u32 \<times> u64) list \<Rightarrow> TimeSynchronizer \<Rightarrow> TimeSynchronizer" where
  "receive_timestamps ms = fold (\<lambda>(delay, send, recv) s. snd (OnAuthenticatedDatagramTimestamp send recv s)) ms"

definition window_update :: "int \<times> u32 \<times> u64 \<Rightarrow> u32 \<times> u64 \<times> u64" where
  "window_update = (\<lambda>(delay, send, recv). (delta_of send recv, recv, kDriftWindowUsec))"

lemma Recalculate_keeps [simp]:
  "WindowedMinTS24Deltas (Recalculate s) = WindowedMinTS24Deltas s" "GotPeerUpdate (Recalculate s) = GotPeerUpdate s"
  "LastFC_MinDeltaTS24 (Recalculate s) = LastFC_MinDeltaTS24 s"
  by (simp_all add: Recalculate_def Let_def)

lemma snd_OnAuthenticated:
  "snd (OnAuthenticatedDatagramTimestamp send recv s) =
     Recalculate (s\<lparr>WindowedMinTS24Deltas := Update (counter_le 24) (delta_of send recv) recv kDriftWindowUsec (WindowedMinTS24Deltas s)\<rparr>)"
  by (simp add: OnAuthenticatedDatagramTimestamp_def Let_def delta_of_def WindowedMinTS24_Update_def)

lemma receive_timestamps_keeps:
  "WindowedMinTS24Deltas (receive_timestamps ms s) = updates (counter_le 24) (map window_update ms) (WindowedMinTS24Deltas s)"
  "GotPeerUpdate (receive_timestamps ms s) = GotPeerUpdate s"
  "LastFC_MinDeltaTS24 (receive_timestamps ms s) = LastFC_MinDeltaTS24 s"
  by (induction ms arbitrary: s)
    (auto simp: receive_timestamps_def snd_OnAuthenticated window_update_def split: prod.splits)

text \<open>Every datagram of a run took a delay \<open>d\<close> that its timestamp and receive time show up to the clock
  difference.\<close>

abbreviation measured :: "int \<Rightarrow> int \<Rightarrow> int \<times> u32 \<times> u64 \<Rightarrow> bool" where
  "measured D j m \<equiv> 0 \<le> fst m \<and> fst m + j < 2 ^ 23 \<and> delta_of (fst (snd m)) (snd (snd m)) = ts24 (fst m - D)"

lemma best_delay:
  assumes "\<not> IsValid w" and "\<forall>m \<in> set (ms @ [(d, send, recv)]). measured D j m" and "0 \<le> j"
  shows "\<exists>old recent. ms @ [(d, send, recv)] = old @ recent \<and> recent \<noteq> []
    \<and> recv - snd (snd (hd recent)) \<le> kDriftWindowUsec
    \<and> GetBest (updates (counter_le 24) (map window_update (ms @ [(d, send, recv)])) w) = ts24 (Min (fst ` set recent) - D)"
proof -
  let ?us = "map window_update (ms @ [(d, send, recv)])"
  have us: "?us = map window_update ms @ [(delta_of send recv, recv, kDriftWindowUsec)]" by (simp add: window_update_def)
  have ok: "near (- D) (fst u)" if "u \<in> set ?us" for u
  proof -
    from that obtain m where m: "m \<in> set (ms @ [(d, send, recv)])" "u = window_update m" by auto
    with assms(2,3) have "measured D j m" by blast
    with m(2) assms(3) show ?thesis
      by (auto simp: near_def window_update_def split: prod.splits intro!: exI [of _ "fst m - D"])
  qed
  then have "\<forall>u \<in> set (map window_update ms @ [(delta_of send recv, recv, kDriftWindowUsec)]). near (- D) (fst u)"
    unfolding us by blast
  from ts24_filter.best_of_recent [OF assms(1) this] obtain old recent
    where r: "?us = old @ recent" "recent \<noteq> []" "GetBest (updates (counter_le 24) ?us w) = fst (hd recent)"
      "\<forall>x \<in> set recent. counter_le 24 (fst (hd recent)) (fst x)" "recv - fst (snd (hd recent)) \<le> kDriftWindowUsec"
    unfolding us by blast
  obtain o' r' where m: "ms @ [(d, send, recv)] = o' @ r'" "recent = map window_update r'"
    using r(1) unfolding map_eq_append_conv by blast
  have ne: "r' \<noteq> []" using r(2) m(2) by simp
  have meas: "measured D j x" if "x \<in> set r'" for x using assms(2) that unfolding m(1) by auto
  have val: "fst (window_update x) = ts24 (fst x - D)" if "x \<in> set r'" for x
    using meas [OF that] by (auto simp: window_update_def split: prod.splits)
  have hd: "hd recent = window_update (hd r')" using ne m(2) by (simp add: hd_map)
  have "fst (hd r') \<le> fst x" if x: "x \<in> set r'" for x
  proof -
    have "counter_le 24 (ts24 (fst (hd r') - D)) (ts24 (fst x - D))"
      using r(4) x ne m(2) hd val [OF x] val [of "hd r'"] by auto
    moreover have "\<bar>fst (hd r') - D - (fst x - D)\<bar> < 2 ^ 23"
      using meas [OF x] meas [of "hd r'"] ne assms(3) by auto
    ultimately show ?thesis using counter_le_ts24(1) by fastforce
  qed
  then have min: "Min (fst ` set r') = fst (hd r')" using ne by (intro Min_eqI) auto
  show ?thesis
    using m(1) ne r(3,5) hd val [of "hd r'"] min
    by (intro exI [of _ o'] exI [of _ r']) (auto simp: window_update_def split: prod.splits)
qed

lemma trip_exact:
  assumes best: "GetBest (Update (counter_le 24) (delta_of send recv) recv kDriftWindowUsec (WindowedMinTS24Deltas s)) = ts24 (i - D)"
    and fc: "LastFC_MinDeltaTS24 s = ts24 (j + D)" "GotPeerUpdate s" and "ts24 (i - D) \<noteq> 0"
    and d: "delta_of send recv = ts24 (d - D)" and "0 \<le> i" "i \<le> d" "0 \<le> j" "d + j < 2 ^ 23"
  shows "uint (fst (OnAuthenticatedDatagramTimestamp send recv s)) = 8 * ((i + j) div 2 + (d - i))"
proof -
  define s' where "s' = snd (OnAuthenticatedDatagramTimestamp send recv s)"
  have R: "Synchronized s'" "uint (MinimumOneWayDelayUsec s') = 8 * ((i + j) div 2)" "GetMinDeltaTS24 s' = ts24 (i - D)"
    using Recalculate_fields [of "s\<lparr>WindowedMinTS24Deltas := Update (counter_le 24) (delta_of send recv) recv kDriftWindowUsec (WindowedMinTS24Deltas s)\<rparr>" i D j]
      assms by (simp_all add: s'_def snd_OnAuthenticated GetMinDeltaTS24_def)
  have f: "fst (OnAuthenticatedDatagramTimestamp send recv s) = MinimumOneWayDelayUsec s' +
      (if counter_gt 24 (ts24 (d - D)) (ts24 (i - D)) then push_bit 3 (ts24 (d - i)) else 0)"
    using R(1,3) d [unfolded delta_of_def kTime23LostBits_def] ts24_add_sub(2) [of "d - D" "i - D"]
    by (simp add: OnAuthenticatedDatagramTimestamp_def Let_def s'_def kTime23LostBits_def)
  have "uint (push_bit 3 (ts24 (d - i))) = 8 * (d - i)"
    using uint_shift3 [of "ts24 (d - i)"] assms by (simp add: uint_ts24)
  moreover have "counter_gt 24 (ts24 (d - D)) (ts24 (i - D)) \<longleftrightarrow> i < d"
    using counter_le_ts24(2) [of "d - D" "i - D"] assms by simp
  ultimately have "uint (fst (OnAuthenticatedDatagramTimestamp send recv s)) = (8 * ((i + j) div 2) + 8 * (d - i)) mod 2 ^ 32"
    unfolding f using R(2) assms by (cases "i < d") (simp_all add: uint_word_ariths)
  also have "\<dots> = 8 * ((i + j) div 2 + (d - i))" using assms by (subst mod_pos_pos_trivial) auto
  finally show ?thesis .
qed

section \<open>Timestamps inside of messages\<close>

lemma expand_near:
  fixes x :: int
  assumes m: "0 < m" "m \<le> LENGTH('s::len)" "m < 64" and b: "0 \<le> b" "b < 2 ^ (m - 1)"
    and x: "- (2 ^ (m - 1) + b) \<le> x - uint (recent :: u64)" "x - uint recent < 2 ^ (m - 1) - b"
  shows "ExpandFromTruncatedWithBias 64 m recent (Counter m (ucast (word_of_int x :: u64) :: 's word)) (word_of_int b) = word_of_int x"
proof -
  have h: "(2 :: int) ^ (m - 1) \<le> 2 ^ 62" using m by (intro power_increasing) auto
  have r: "(word_of_int x :: u64) - recent = word_of_int (x - uint recent)" by simp
  have g: "sint ((word_of_int x :: u64) - recent) = x - uint recent"
    unfolding r sint_sbintrunc' using h b x by (intro signed_take_bit_int_eq_self) auto
  have "ExpandFromTruncatedWithBias LENGTH(64) m recent (Counter m (ucast (word_of_int x :: u64) :: 's word)) (word_of_int b) = word_of_int x"
    using m b x unfolding g [symmetric] by (intro ExpandFromTruncatedWithBias_range) auto
  then show ?thesis by simp
qed

lemma uint_push_bit_small:
  assumes "0 \<le> x" and "2 ^ n * x < 2 ^ 64"
  shows "uint (push_bit n (word_of_int x :: u64)) = 2 ^ n * x"
proof -
  have "push_bit n (word_of_int x :: u64) = word_of_int (2 ^ n * x)" by (simp add: push_bit_eq_mult)
  then show ?thesis using assms by (simp only: uint_word_of_int) simp
qed

lemma truncated_of_int:
  assumes "m \<le> LENGTH('s::len)" and "m \<le> 64"
  shows "uint (Counter m (ucast (word_of_int x :: u64) :: 's word)) = x mod 2 ^ m"
proof -
  have d: "(2 :: int) ^ m dvd 2 ^ LENGTH('s)" "(2 :: int) ^ m dvd 2 ^ LENGTH(64)" by (rule le_imp_power_dvd; use assms in simp)+
  show ?thesis
    unfolding uint_Counter [OF assms(1)] unsigned_ucast_eq uint_word_of_int take_bit_eq_mod mod_mod_cancel [OF d(1)] mod_mod_cancel [OF d(2)] ..
qed

lemma ToRemoteTime23_eq:
  assumes "Synchronized s" and "uint (RemoteTimeDeltaUsec s) = 8 * (D mod 2 ^ 23)"
  shows "ToRemoteTime23 localUsec s = Counter 23 (ucast (word_of_int (uint localUsec div 8 + D) :: u64))"
proof -
  have "uint (ToRemoteTime23 localUsec s) = (uint localUsec div 8 + D) mod 2 ^ 23"
  proof -
    have l: "uint (Counter 23 (ucast (drop_bit 3 localUsec)) :: u32) = (uint localUsec div 8) mod 2 ^ 23"
      by (simp add: uint_Counter unsigned_ucast_eq uint_drop_bit take_bit_eq_mod mod_mod_cancel)
    have d: "uint (Counter 23 (drop_bit 3 (RemoteTimeDeltaUsec s))) = D mod 2 ^ 23"
      by (simp add: uint_Counter uint_drop_bit assms(2))
    have "ToRemoteTime23 localUsec s = counter_add 23 (Counter 23 (ucast (drop_bit 3 localUsec))) (Counter 23 (drop_bit 3 (RemoteTimeDeltaUsec s)))"
      using assms(1) by (simp add: ToRemoteTime23_def kTime23LostBits_def)
    then show ?thesis
      unfolding counter_add_def by (simp add: uint_Counter uint_word_ariths l [simplified] d [simplified] mod_mod_cancel mod_add_eq)
  qed
  then show ?thesis by (simp add: word_uint_eq_iff truncated_of_int del: of_int_add)
qed

lemma ToRemoteTime16_eq:
  assumes "Synchronized s" and "uint (RemoteTimeDeltaUsec s) = 8 * (D mod 2 ^ 23)"
  shows "ToRemoteTime16 localUsec s = Counter 16 (ucast (word_of_int (uint localUsec div 512 + D div 64) :: u64))"
proof -
  have "8 * (D mod 2 ^ 23) div 512 = (D mod 2 ^ 23) div 64" by (simp add: div_mult2_eq [of _ 8 64, simplified])
  also have "\<dots> = (D div 64) mod 2 ^ 17"
  proof -
    have "D mod (64 * 2 ^ 17) = 64 * (D div 64 mod 2 ^ 17) + D mod 64" by (rule zmod_zmult2_eq) simp
    then show ?thesis by simp
  qed
  finally have d: "uint (drop_bit 9 (RemoteTimeDeltaUsec s)) = (D div 64) mod 2 ^ 17"
    by (simp add: uint_drop_bit assms(2))
  have "uint (ToRemoteTime16 localUsec s) = (uint localUsec div 512 + D div 64) mod 2 ^ 16"
    using assms(1) d
    by (simp add: ToRemoteTime16_def kTime16LostBits_def uint_word_ariths unsigned_ucast_eq take_bit_eq_mod uint_drop_bit
        mod_mod_cancel mod_add_eq)
  then show ?thesis by (simp add: word_uint_eq_iff truncated_of_int del: of_int_add)
qed

lemma div_rounds: "(0 :: int) < m \<Longrightarrow> m * (n div m) \<le> n" "(0 :: int) < m \<Longrightarrow> n \<le> m * (n div m) + (m - 1)"
  using mult_div_mod_eq [of m n] pos_mod_bound [of m n] pos_mod_sign [of m n] by linarith+

lemmas div_rounds_8 = div_rounds [of 8, simplified] and div_rounds_64 = div_rounds [of 64, simplified]
  and div_rounds_512 = div_rounds [of 512, simplified]

lemma FromLocalTime_near:
  fixes x :: int
  assumes "0 \<le> x"
  shows "8 * x < 2 ^ 64 \<Longrightarrow> - (2 ^ 22 + 2 ^ 21) \<le> x - uint now div 8 \<Longrightarrow> x - uint now div 8 < 2 ^ 22 - 2 ^ 21
      \<Longrightarrow> uint (FromLocalTime23 now (Counter 23 (ucast (word_of_int x :: u64)))) = 8 * x"
    and "512 * x < 2 ^ 64 \<Longrightarrow> - (2 ^ 15 + 2 ^ 14) \<le> x - uint now div 512 \<Longrightarrow> x - uint now div 512 < 2 ^ 15 - 2 ^ 14
      \<Longrightarrow> uint (FromLocalTime16 now (Counter 16 (ucast (word_of_int x :: u64)))) = 512 * x"
proof -
  assume a: "8 * x < 2 ^ 64" "- (2 ^ 22 + 2 ^ 21) \<le> x - uint now div 8" "x - uint now div 8 < 2 ^ 22 - 2 ^ 21"
  have "ExpandFromTruncatedWithBias 64 23 (drop_bit 3 now) (Counter 23 (ucast (word_of_int x :: u64)) :: u32) (word_of_int (2 ^ 21)) = word_of_int x"
    using a(2,3) by (intro expand_near) (simp_all add: uint_drop_bit)
  then show "uint (FromLocalTime23 now (Counter 23 (ucast (word_of_int x :: u64)))) = 8 * x"
    using uint_push_bit_small [OF assms, of 3] a(1) by (simp add: FromLocalTime23_def kTime23LostBits_def kTime23Bias_def)
next
  assume a: "512 * x < 2 ^ 64" "- (2 ^ 15 + 2 ^ 14) \<le> x - uint now div 512" "x - uint now div 512 < 2 ^ 15 - 2 ^ 14"
  have "ExpandFromTruncatedWithBias 64 16 (drop_bit 9 now) (Counter 16 (ucast (word_of_int x :: u64)) :: u16) (word_of_int (2 ^ 14)) = word_of_int x"
    using a(2,3) by (intro expand_near) (simp_all add: uint_drop_bit)
  then show "uint (FromLocalTime16 now (Counter 16 (ucast (word_of_int x :: u64)))) = 512 * x"
    using uint_push_bit_small [OF assms, of 9] a(1) by (simp add: FromLocalTime16_def kTime16LostBits_def kTime16Bias_def)
qed

section \<open>Properties\<close>

text \<open>Property C20: clock synchronisation measures clocks and delays.  Take any run of authenticated datagrams, each
  with its true delay, clocks that differ by any amount (also across the rollover of the 24-bit timestamps),
  and the smallest delay \<open>j\<close> of the other direction reported by the peer.  With \<open>i\<close> the exact minimum of the
  delays of a recent stretch of the run, which lies within the ten second window, the minimum kept is that of
  \<open>i\<close>; and unless this difference happens to be zero, the synchronizer is then synchronized, reports half of the
  smallest round trip as the one-way delay, holds the clock difference up to half of the asymmetry of the
  path, and returns for the last datagram the reported minimum plus its exact extra delay.\<close>

theorem time_sync_measures:
  assumes "\<not> IsValid (WindowedMinTS24Deltas s)" and "GotPeerUpdate s" and "LastFC_MinDeltaTS24 s = ts24 (j + D)"
    and "0 \<le> j" and "\<forall>m \<in> set (ms @ [(d, send, recv)]). measured D j m"
  shows "\<exists>old recent i. ms @ [(d, send, recv)] = old @ recent \<and> recent \<noteq> [] \<and> i = Min (fst ` set recent)
    \<and> recv - snd (snd (hd recent)) \<le> kDriftWindowUsec
    \<and> (let s1 = receive_timestamps ms s; s2 = receive_timestamps (ms @ [(d, send, recv)]) s in
         GetMinDeltaTS24 s2 = ts24 (i - D)
         \<and> (ts24 (i - D) \<noteq> 0 \<longrightarrow> Synchronized s2
              \<and> uint (MinimumOneWayDelayUsec s2) = 8 * ((i + j) div 2)
              \<and> uint (RemoteTimeDeltaUsec s2) = 8 * ((D + (j - i) div 2) mod 2 ^ 23)
              \<and> uint (fst (OnAuthenticatedDatagramTimestamp send recv s1)) = 8 * ((i + j) div 2 + (d - i))))"
proof -
  let ?ms = "ms @ [(d, send, recv)]"
  obtain old recent where r: "?ms = old @ recent" "recent \<noteq> []" "recv - snd (snd (hd recent)) \<le> kDriftWindowUsec"
    "GetBest (updates (counter_le 24) (map window_update ?ms) (WindowedMinTS24Deltas s)) = ts24 (Min (fst ` set recent) - D)"
    using best_delay [OF assms(1,5,4)] by blast
  define i where "i = Min (fst ` set recent)"
  have "i \<in> fst ` set recent" unfolding i_def using r(2) by (intro Min_in) auto
  then have i: "0 \<le> i" "i + j < 2 ^ 23" using assms(5) unfolding r(1) by auto
  have "last recent = (d, send, recv)" using r(1,2) by (metis last_appendR last_snoc)
  then have "d \<in> fst ` set recent" using r(2) by (metis fst_conv image_eqI last_in_set)
  then have id: "i \<le> d" unfolding i_def by simp
  have d: "0 \<le> d" "d + j < 2 ^ 23" "delta_of send recv = ts24 (d - D)" using assms(5) by auto
  define s1 where "s1 = receive_timestamps ms s"
  have s2: "receive_timestamps ?ms s = snd (OnAuthenticatedDatagramTimestamp send recv s1)"
    by (simp add: receive_timestamps_def s1_def)
  have keep: "GotPeerUpdate s1" "LastFC_MinDeltaTS24 s1 = ts24 (j + D)"
    unfolding s1_def using receive_timestamps_keeps(2,3) [of ms s] assms(2,3) by auto
  have u: "updates (counter_le 24) (map window_update ?ms) (WindowedMinTS24Deltas s) =
      Update (counter_le 24) (delta_of send recv) recv kDriftWindowUsec (WindowedMinTS24Deltas s1)"
    unfolding s1_def receive_timestamps_keeps(1)
    using ts24_filter.updates_snoc [of "map window_update ms" "delta_of send recv" recv kDriftWindowUsec]
    by (simp add: window_update_def)
  note best = r(4) [unfolded u, folded i_def]
  let ?s = "s1\<lparr>WindowedMinTS24Deltas := Update (counter_le 24) (delta_of send recv) recv kDriftWindowUsec (WindowedMinTS24Deltas s1)\<rparr>"
  have "GetMinDeltaTS24 (receive_timestamps ?ms s) = ts24 (i - D)"
    unfolding s2 snd_OnAuthenticated GetMinDeltaTS24_def using best by simp
  moreover have "uint (fst (OnAuthenticatedDatagramTimestamp send recv s1)) = 8 * ((i + j) div 2 + (d - i))"
    if "ts24 (i - D) \<noteq> 0"
    using trip_exact [OF best keep(2,1) that d(3) i(1) id assms(4) d(2)] .
  moreover have "Synchronized (Recalculate ?s) \<and> uint (MinimumOneWayDelayUsec (Recalculate ?s)) = 8 * ((i + j) div 2)
      \<and> uint (RemoteTimeDeltaUsec (Recalculate ?s)) = 8 * ((D + (j - i) div 2) mod 2 ^ 23)" if "ts24 (i - D) \<noteq> 0"
    using Recalculate_fields [of ?s i D j] best keep that i assms(4) by simp
  ultimately show ?thesis
    using r(1-3) unfolding s2 snd_OnAuthenticated Let_def s1_def [symmetric]
    by (intro exI [of _ old] exI [of _ recent] exI [of _ i]) (simp add: i_def)
qed

theorem time_sync_measures_witness:
  "let s = OnPeerMinDeltaTS24 (ts24 (10 + 1000)) TimeSynchronizer_init; s2 = receive_timestamps [(12, 5000, 32096)] s in
     Synchronized s2 \<and> uint (MinimumOneWayDelayUsec s2) = 88 \<and> uint (RemoteTimeDeltaUsec s2) = 8 * 999
     \<and> uint (fst (OnAuthenticatedDatagramTimestamp 5000 32096 s)) = 88"
proof -
  let ?s = "OnPeerMinDeltaTS24 (ts24 (10 + 1000)) TimeSynchronizer_init"
  have s: "\<not> IsValid (WindowedMinTS24Deltas ?s)" "GotPeerUpdate ?s" "LastFC_MinDeltaTS24 ?s = ts24 (10 + 1000)" "(0 :: int) \<le> 10"
    by (simp_all add: OnPeerMinDeltaTS24_def TimeSynchronizer_init_def IsValid_def Reset_def)
  have d: "\<forall>m \<in> set ([] @ [(12, 5000, 32096)]). measured 1000 10 m"
    by (simp add: delta_of_def kTime23LostBits_def drop_bit_eq_div counter_sub_def ts24_def Counter_eq_take_bit take_bit_eq_mod)
  have ne: "ts24 (12 - 1000) \<noteq> 0" by (simp add: ts24_def Counter_eq_take_bit)
  obtain old recent i where r: "[] @ [(12 :: int, 5000 :: u32, 32096 :: u64)] = old @ recent" "recent \<noteq> []" "i = Min (fst ` set recent)"
    "let s1 = receive_timestamps [] ?s; s2 = receive_timestamps ([] @ [(12, 5000, 32096)]) ?s in
         GetMinDeltaTS24 s2 = ts24 (i - 1000)
         \<and> (ts24 (i - 1000) \<noteq> 0 \<longrightarrow> Synchronized s2
              \<and> uint (MinimumOneWayDelayUsec s2) = 8 * ((i + 10) div 2)
              \<and> uint (RemoteTimeDeltaUsec s2) = 8 * ((1000 + (10 - i) div 2) mod 2 ^ 23)
              \<and> uint (fst (OnAuthenticatedDatagramTimestamp 5000 32096 s1)) = 8 * ((i + 10) div 2 + (12 - i)))"
    using time_sync_measures [OF s d] by blast
  from r(1,2) have "recent = [(12, 5000, 32096)]" by (cases old) auto
  with r(3) have i: "i = 12" by simp
  have s1: "receive_timestamps [] ?s = ?s" by (simp add: receive_timestamps_def)
  show ?thesis using r(4) ne unfolding Let_def i s1 append_Nil by simp
qed

text \<open>Property C21: times in messages.  When the synchronizer of the sender holds the clock difference up to \<open>e\<close> units
  of 8 microseconds, a local time that it converts with \<open>ToRemoteTime23\<close> (or \<open>ToRemoteTime16\<close>) and the receiver expands
  with its own clock comes out as the receiver's time for that moment, shifted by that error and rounded down
  by less than the bound that the code documents, 15 microseconds (1023 for the 16-bit field).  The time
  may be up to 50 (25) seconds in the past of the receiver and up to 16 (8) seconds in its future.\<close>

theorem remote_time_roundtrip:
  assumes "Synchronized s" and "uint (RemoteTimeDeltaUsec s) = 8 * ((delta div 8 + e) mod 2 ^ 23)"
    and T: "T = uint localUsec + delta + 8 * e" "1024 \<le> T" "T < 2 ^ 64"
  shows "(- (2 ^ 25 + 2 ^ 24) + 14 \<le> T - uint now \<and> T - uint now < 2 ^ 24 - 8
      \<longrightarrow> uint (FromLocalTime23 now (ToRemoteTime23 localUsec s)) \<le> T
         \<and> T - uint (FromLocalTime23 now (ToRemoteTime23 localUsec s)) < int kTime23ErrorBound)
    \<and> (- (2 ^ 24 + 2 ^ 23) + 1022 \<le> T - uint now \<and> T - uint now < 2 ^ 23 - 512
      \<longrightarrow> uint (FromLocalTime16 now (ToRemoteTime16 localUsec s)) \<le> T
         \<and> T - uint (FromLocalTime16 now (ToRemoteTime16 localUsec s)) < int kTime16ErrorBound)"
proof (intro conjI impI)
  define x where "x = uint localUsec div 8 + (delta div 8 + e)"
  have x: "8 * x \<le> T" "T \<le> 8 * x + 14" using div_rounds_8 [of "uint localUsec"] div_rounds_8 [of delta] unfolding x_def T(1) by auto
  assume "- (2 ^ 25 + 2 ^ 24) + 14 \<le> T - uint now \<and> T - uint now < 2 ^ 24 - 8"
  then have "- (2 ^ 22 + 2 ^ 21) \<le> x - uint now div 8" "x - uint now div 8 < 2 ^ 22 - 2 ^ 21"
    using x by auto
  moreover have "0 \<le> x" "8 * x < 2 ^ 64" using x T by auto
  ultimately have "uint (FromLocalTime23 now (ToRemoteTime23 localUsec s)) = 8 * x"
    unfolding ToRemoteTime23_eq [OF assms(1,2)] x_def [symmetric] by (intro FromLocalTime_near(1))
  then show "uint (FromLocalTime23 now (ToRemoteTime23 localUsec s)) \<le> T"
    "T - uint (FromLocalTime23 now (ToRemoteTime23 localUsec s)) < int kTime23ErrorBound"
    using x by (simp_all add: kTime23ErrorBound_def kTime23LostBits_def)
next
  define x where "x = uint localUsec div 512 + (delta div 8 + e) div 64"
  have x: "512 * x \<le> T" "T \<le> 512 * x + 1022"
    using div_rounds_512 [of "uint localUsec"] div_rounds_64 [of "delta div 8 + e"] div_rounds_8 [of delta] unfolding x_def T(1) by auto
  assume "- (2 ^ 24 + 2 ^ 23) + 1022 \<le> T - uint now \<and> T - uint now < 2 ^ 23 - 512"
  then have "- (2 ^ 15 + 2 ^ 14) \<le> x - uint now div 512" "x - uint now div 512 < 2 ^ 15 - 2 ^ 14"
    using x by auto
  moreover have "0 \<le> x" "512 * x < 2 ^ 64" using x T by auto
  ultimately have "uint (FromLocalTime16 now (ToRemoteTime16 localUsec s)) = 512 * x"
    unfolding ToRemoteTime16_eq [OF assms(1,2)] x_def [symmetric] by (intro FromLocalTime_near(2))
  then show "uint (FromLocalTime16 now (ToRemoteTime16 localUsec s)) \<le> T"
    "T - uint (FromLocalTime16 now (ToRemoteTime16 localUsec s)) < int kTime16ErrorBound"
    using x by (simp_all add: kTime16ErrorBound_def kTime16LostBits_def)
qed

theorem remote_time_roundtrip_witness:
  "uint (FromLocalTime23 2000000 (ToRemoteTime23 1000000 (TimeSynchronizer_init\<lparr>Synchronized := True, RemoteTimeDeltaUsec := 800000\<rparr>))) \<le> 1800003
   \<and> 1800003 - uint (FromLocalTime23 2000000 (ToRemoteTime23 1000000 (TimeSynchronizer_init\<lparr>Synchronized := True, RemoteTimeDeltaUsec := 800000\<rparr>))) < int kTime23ErrorBound"
  using remote_time_roundtrip [of "TimeSynchronizer_init\<lparr>Synchronized := True, RemoteTimeDeltaUsec := 800000\<rparr>" 800003 0 1800003 1000000 2000000]
  by simp

end
