(* ===== verification/Light_Hash_Map.thy ===== *)
theory Light_Hash_Map
  imports Tonk_Prelude "HOL-Library.Monad_Syntax"
begin

text \<open>
  The hash map of \<open>TonkineseMaps.h\<close>: an open-addressing table whose size is a power of two.  A key is looked for
  from its hash position downwards, wrapping at zero, until its node, a free node or the hash position is
  met; erasing a node moves later nodes of the run into the gap.  Nodes that are not valid are \<open>None\<close>: the
  code never reads their key or value.

  The loops are partial functions in the option monad, so that \<open>None\<close> means that a loop does not
  end.  The abstraction of a table is the map from its keys to its values.
\<close>

unbundle bit_operations_syntax

section \<open>The class\<close>

record ('k, 'v) LightHashMap =
  m_hash_shift :: nat
  m_num_valid :: nat
  m_grow_threshold :: nat
  m_values :: "('k \<times> 'v) option list"

definition LightHashMap_init :: "('k, 'v) LightHashMap" where
  "LightHashMap_init = \<lparr>m_hash_shift = 32, m_num_valid = 0, m_grow_threshold = 0, m_values = []\<rparr>"

definition cMinHashSize :: nat where "cMinHashSize = 4"

definition hash_key :: "('k \<Rightarrow> u32) \<Rightarrow> nat \<Rightarrow> 'k \<Rightarrow> nat" where
  "hash_key m_hasher shift k = unat (drop_bit shift (2654435769 * m_hasher k))"

text \<open>\<open>NonzeroLowestBitIndex\<close> is \<open>31 - clz\<close>: the index of the highest bit.\<close>

fun NonzeroLowestBitIndex :: "nat \<Rightarrow> nat" where
  "NonzeroLowestBitIndex x = (if x < 2 then 0 else Suc (NonzeroLowestBitIndex (x div 2)))"

declare NonzeroLowestBitIndex.simps [simp del]

text \<open>One step down the table.\<close>

definition step_down :: "nat \<Rightarrow> nat \<Rightarrow> nat" where
  "step_down count index = (if index = 0 then count - 1 else index - 1)"

text \<open>The loop that \<open>find_index\<close>, \<open>insert_no_grow\<close> and \<open>move_into\<close> share: from \<open>index\<close> on downwards, until \<open>stop\<close> holds or
  the start is met again.\<close>

partial_function (option) probe_down :: "nat \<Rightarrow> nat \<Rightarrow> (nat \<Rightarrow> bool) \<Rightarrow> nat \<Rightarrow> nat option option" where
  "probe_down count orig_index stop index =
     (let index = step_down count index in
      if index = orig_index then Some None
      else if stop index then Some (Some index)
      else probe_down count orig_index stop index)"

abbreviation holds_key :: "('k \<times> 'v) option list \<Rightarrow> 'k \<Rightarrow> nat \<Rightarrow> bool" where
  "holds_key values k i \<equiv> \<exists>v. values ! i = Some (k, v)"

definition find_index :: "('k \<Rightarrow> u32) \<Rightarrow> 'k \<Rightarrow> ('k, 'v) LightHashMap \<Rightarrow> nat option option" where
  "find_index h k m =
     (if m_num_valid m = 0 then Some None
      else let index = hash_key h (m_hash_shift m) k in
        case m_values m ! index of
          None \<Rightarrow> Some None
        | Some (k', v) \<Rightarrow>
            if k' = k then Some (Some index)
            else do {
              r \<leftarrow> probe_down (length (m_values m)) index
                     (\<lambda>i. case m_values m ! i of None \<Rightarrow> True | Some (k', v) \<Rightarrow> k' = k) index;
              Some (case r of None \<Rightarrow> None | Some i \<Rightarrow> if m_values m ! i = None then None else Some i) })"

text \<open>The result of an insertion is the position of the node and whether it is new; \<open>None\<close> means that the
  table has to grow.\<close>

definition store_node :: "nat \<Rightarrow> 'k \<Rightarrow> 'v \<Rightarrow> ('k, 'v) LightHashMap \<Rightarrow> (nat \<times> bool) option \<times> ('k, 'v) LightHashMap" where
  "store_node index k v m =
     (if m_num_valid m \<ge> m_grow_threshold m then (None, m)
      else (Some (index, True), m\<lparr>m_values := (m_values m)[index := Some (k, v)], m_num_valid := m_num_valid m + 1\<rparr>))"

definition insert_no_grow :: "('k \<Rightarrow> u32) \<Rightarrow> 'k \<Rightarrow> 'v \<Rightarrow> ('k, 'v) LightHashMap
    \<Rightarrow> ((nat \<times> bool) option \<times> ('k, 'v) LightHashMap) option" where
  "insert_no_grow h k v m =
     (if m_values m = [] then Some (None, m)
      else let index = hash_key h (m_hash_shift m) k in
        case m_values m ! index of
          None \<Rightarrow> Some (store_node index k v m)
        | Some (k', _) \<Rightarrow>
            if k' = k then Some (Some (index, False), m)
            else do {
              r \<leftarrow> probe_down (length (m_values m)) index
                     (\<lambda>i. case m_values m ! i of None \<Rightarrow> True | Some (k', v) \<Rightarrow> k' = k) index;
              Some (case r of
                  None \<Rightarrow> (None, m)
                | Some i \<Rightarrow> if m_values m ! i = None then store_node i k v m else (Some (i, False), m)) })"

text \<open>\<open>move_into\<close> is given the node's key and value; the old table is thrown away.\<close>

definition move_into :: "('k \<Rightarrow> u32) \<Rightarrow> 'k \<Rightarrow> 'v \<Rightarrow> ('k, 'v) LightHashMap \<Rightarrow> ('k, 'v) LightHashMap option" where
  "move_into h k v m =
     (let index = hash_key h (m_hash_shift m) k;
          put = (\<lambda>i. m\<lparr>m_values := (m_values m)[i := Some (k, v)], m_num_valid := m_num_valid m + 1\<rparr>)
      in if m_values m ! index = None then Some (put index)
         else do {
           r \<leftarrow> probe_down (length (m_values m)) index (\<lambda>i. m_values m ! i = None) index;
           Some (case r of None \<Rightarrow> m | Some i \<Rightarrow> put i) })"

fun rehash_loop :: "('k \<Rightarrow> u32) \<Rightarrow> nat \<Rightarrow> ('k \<times> 'v) option list \<Rightarrow> ('k, 'v) LightHashMap \<Rightarrow> ('k, 'v) LightHashMap option" where
  "rehash_loop h old_num_valid [] m = Some m"
| "rehash_loop h old_num_valid (None # old) m = rehash_loop h old_num_valid old m"
| "rehash_loop h old_num_valid (Some (k, v) # old) m = do {
     m \<leftarrow> move_into h k v m;
     (if old_num_valid = m_num_valid m then Some m else rehash_loop h old_num_valid old m) }"

definition rehash :: "('k \<Rightarrow> u32) \<Rightarrow> nat \<Rightarrow> ('k, 'v) LightHashMap \<Rightarrow> ('k, 'v) LightHashMap option" where
  "rehash h new_hash_size m =
     (if new_hash_size < m_num_valid m \<or> new_hash_size = length (m_values m) then Some m
      else do {
        m' \<leftarrow> rehash_loop h (m_num_valid m) (m_values m)
               \<lparr>m_hash_shift = 32 - NonzeroLowestBitIndex new_hash_size, m_num_valid = 0,
                m_grow_threshold = m_grow_threshold m, m_values = replicate new_hash_size None\<rparr>;
        Some (m'\<lparr>m_grow_threshold := (new_hash_size + 1) div 2\<rparr>) })"

text \<open>When the second attempt fails the code returns an uninitialised result; here that is \<open>None\<close>.\<close>

definition hash_insert :: "('k \<Rightarrow> u32) \<Rightarrow> 'k \<Rightarrow> 'v \<Rightarrow> ('k, 'v) LightHashMap \<Rightarrow> ((nat \<times> bool) \<times> ('k, 'v) LightHashMap) option" where
  "hash_insert h k v m = do {
     (r, m) \<leftarrow> insert_no_grow h k v m;
     (case r of
        Some result \<Rightarrow> Some (result, m)
      | None \<Rightarrow> do {
          let newSize = (length (m_values m) * 2) mod 2 ^ 32;
          m \<leftarrow> rehash h (if newSize < cMinHashSize then cMinHashSize else newSize) m;
          (r, m) \<leftarrow> insert_no_grow h k v m;
          (case r of Some result \<Rightarrow> Some (result, m) | None \<Rightarrow> None) }) }"

text \<open>The two nested loops of \<open>erase_index\<close>: \<open>j\<close> is the free node, \<open>i\<close> runs downwards.\<close>

partial_function (option) erase_loop :: "('k \<Rightarrow> nat) \<Rightarrow> nat \<Rightarrow> nat \<Rightarrow> ('k \<times> 'v) option list \<Rightarrow> ('k \<times> 'v) option list option" where
  "erase_loop hash i j values =
     (let i = step_down (length values) i in
      case values ! i of
        None \<Rightarrow> Some values
      | Some (k, v) \<Rightarrow>
          let r = hash k in
          if (i \<le> r \<and> r < j) \<or> (r < j \<and> j < i) \<or> (j < i \<and> i \<le> r) then erase_loop hash i j values
          else erase_loop hash i i (values[j := Some (k, v), i := None]))"

definition erase_index :: "('k \<Rightarrow> u32) \<Rightarrow> nat \<Rightarrow> ('k, 'v) LightHashMap \<Rightarrow> ('k, 'v) LightHashMap option" where
  "erase_index h i m = do {
     values \<leftarrow> erase_loop (hash_key h (m_hash_shift m)) i i ((m_values m)[i := None]);
     Some (m\<lparr>m_num_valid := m_num_valid m - 1, m_values := values\<rparr>) }"

section \<open>Distances around the table\<close>

definition dist :: "nat \<Rightarrow> nat \<Rightarrow> nat \<Rightarrow> nat" where
  "dist n r i = (if i \<le> r then r - i else r + n - i)"

lemma step_down_less: "0 < n \<Longrightarrow> i < n \<Longrightarrow> step_down n i < n"
  by (auto simp: step_down_def)

lemma dist_less: "r < n \<Longrightarrow> i < n \<Longrightarrow> dist n r i < n"
  by (auto simp: dist_def)

lemma dist_0_iff: "r < n \<Longrightarrow> i < n \<Longrightarrow> dist n r i = 0 \<longleftrightarrow> i = r"
  by (auto simp: dist_def)

lemma dist_self [simp]: "dist n r r = 0"
  by (simp add: dist_def)

lemma dist_inj: "r < n \<Longrightarrow> i < n \<Longrightarrow> j < n \<Longrightarrow> dist n r i = dist n r j \<longleftrightarrow> i = j"
  by (auto simp: dist_def)

lemma dist_step_down: "r < n \<Longrightarrow> i < n \<Longrightarrow> step_down n i \<noteq> r \<Longrightarrow> dist n r (step_down n i) = dist n r i + 1"
  by (auto simp: dist_def step_down_def)

lemma dist_step_down_wrap: "r < n \<Longrightarrow> i < n \<Longrightarrow> step_down n i = r \<Longrightarrow> dist n r i = n - 1"
  by (auto simp: dist_def step_down_def split: if_splits)

lemma dist_trans: "r < n \<Longrightarrow> j < n \<Longrightarrow> x < n \<Longrightarrow> dist n r j \<le> dist n r x \<Longrightarrow> dist n r x = dist n r j + dist n j x"
  by (auto simp: dist_def split: if_splits)

lemma passes_iff:
  "r < n \<Longrightarrow> j < n \<Longrightarrow> i < n \<Longrightarrow> i \<noteq> j \<Longrightarrow>
     (i \<le> r \<and> r < j) \<or> (r < j \<and> j < i) \<or> (j < i \<and> i \<le> r) \<longleftrightarrow> \<not> dist n r j < dist n r i"
  by (auto simp: dist_def split: if_splits)

section \<open>The table invariant\<close>

text \<open>\<open>gaps\<close>: only the nodes of a set \<open>G\<close> may be free between the hash position of a key and its node.\<close>

definition probes_ok :: "('k \<Rightarrow> nat) \<Rightarrow> nat set \<Rightarrow> ('k \<times> 'v) option list \<Rightarrow> bool" where
  "probes_ok hash G T \<longleftrightarrow> (\<forall>x k v p. x < length T \<and> T ! x = Some (k, v) \<and> p < length T
      \<and> dist (length T) (hash k) p < dist (length T) (hash k) x \<longrightarrow> T ! p \<noteq> None \<or> p \<in> G)"

definition keys_unique :: "('k \<times> 'v) option list \<Rightarrow> bool" where
  "keys_unique T \<longleftrightarrow> (\<forall>x y k v w. x < length T \<and> y < length T \<and> T ! x = Some (k, v) \<and> T ! y = Some (k, w) \<longrightarrow> x = y)"

definition occupied :: "('k \<times> 'v) option list \<Rightarrow> nat set" where
  "occupied T = {x. x < length T \<and> T ! x \<noteq> None}"

definition table_map :: "('k \<times> 'v) option list \<Rightarrow> 'k \<rightharpoonup> 'v" where
  "table_map T = map_of (concat (map (\<lambda>o'. case o' of None \<Rightarrow> [] | Some p \<Rightarrow> [p]) T))"

lemma table_map_eq:
  assumes "keys_unique T"
  shows "table_map T k = Some v \<longleftrightarrow> (\<exists>x < length T. T ! x = Some (k, v))"
proof -
  let ?l = "concat (map (\<lambda>o'. case o' of None \<Rightarrow> [] | Some p \<Rightarrow> [p]) T)"
  have s: "(k, v) \<in> set ?l \<longleftrightarrow> (\<exists>x < length T. T ! x = Some (k, v))" for k v
    by (auto simp: in_set_conv_nth split: option.splits)
  show ?thesis
  proof
    assume "table_map T k = Some v"
    then show "\<exists>x < length T. T ! x = Some (k, v)" using s map_of_SomeD unfolding table_map_def by metis
  next
    assume a: "\<exists>x < length T. T ! x = Some (k, v)"
    then obtain w where w: "map_of ?l k = Some w" using s weak_map_of_SomeI by metis
    then have "\<exists>x < length T. T ! x = Some (k, w)" using s map_of_SomeD by metis
    with a assms have "w = v" unfolding keys_unique_def by fastforce
    with w show "table_map T k = Some v" by (simp add: table_map_def)
  qed
qed

lemma table_map_None:
  assumes "keys_unique T"
  shows "table_map T k = None \<longleftrightarrow> (\<forall>x < length T. \<not> holds_key T k x)"
  using table_map_eq [OF assms, of k] by (metis option.distinct(1) option.exhaust)

lemma occupied_finite [simp]: "finite (occupied T)"
  by (simp add: occupied_def)

lemma occupied_update:
  assumes "x < length T"
  shows "occupied (T[x := Some p]) = insert x (occupied T)" "occupied (T[x := None]) = occupied T - {x}"
  using assms by (auto simp: occupied_def nth_list_update)

lemma free_node:
  assumes "card (occupied T) < length T"
  shows "\<exists>f < length T. T ! f = None"
proof (rule ccontr)
  assume "\<not> ?thesis"
  then have "occupied T = {..<length T}" by (auto simp: occupied_def)
  with assms show False by simp
qed

text \<open>Putting a new key on the first free node of its run.\<close>

lemma put_ok:
  assumes T: "probes_ok hash {} T" "keys_unique T" and x: "x < length T" "T ! x = None"
    and k: "\<forall>y < length T. \<not> holds_key T k y"
    and run: "\<forall>p < length T. dist (length T) (hash k) p < dist (length T) (hash k) x \<longrightarrow> T ! p \<noteq> None"
  shows "probes_ok hash {} (T[x := Some (k, v)])" "keys_unique (T[x := Some (k, v)])"
    "table_map (T[x := Some (k, v)]) = (table_map T)(k \<mapsto> v)"
proof -
  show p: "probes_ok hash {} (T[x := Some (k, v)])"
    using T(1) x run by (auto simp: probes_ok_def nth_list_update)
  show u: "keys_unique (T[x := Some (k, v)])"
    using T(2) x k unfolding keys_unique_def by (auto simp: nth_list_update split: if_splits)
  show "table_map (T[x := Some (k, v)]) = (table_map T)(k \<mapsto> v)"
  proof
    fix k'
    have "table_map (T[x := Some (k, v)]) k' = Some v' \<longleftrightarrow> ((table_map T)(k \<mapsto> v)) k' = Some v'" for v'
      using x k unfolding table_map_eq [OF u] fun_upd_def
      by (auto simp: table_map_eq [OF T(2)] nth_list_update split: if_splits) (metis option.distinct(1))
    then show "table_map (T[x := Some (k, v)]) k' = ((table_map T)(k \<mapsto> v)) k'" by (metis option.exhaust)
  qed
qed

section \<open>Probing\<close>

text \<open>The loop finds the first node at which it stops, or none.\<close>

lemma probe_down_eq:
  assumes "r < n" and "i < n"
  shows "(\<exists>y < n. probe_down n r stop i = Some (Some y) \<and> stop y \<and> dist n r i < dist n r y
        \<and> (\<forall>p < n. dist n r i < dist n r p \<and> dist n r p < dist n r y \<longrightarrow> \<not> stop p))
     \<or> (probe_down n r stop i = Some None \<and> (\<forall>p < n. dist n r i < dist n r p \<longrightarrow> \<not> stop p))"
  using assms(2)
proof (induction "n - dist n r i" arbitrary: i rule: less_induct)
  case less
  let ?i = "step_down n i"
  have i': "?i < n" using less.prems by (intro step_down_less) auto
  show ?case
  proof (cases "?i = r")
    case True
    then have "probe_down n r stop i = Some None" by (subst probe_down.simps) (simp add: Let_def)
    moreover have "\<not> dist n r i < dist n r p" if "p < n" for p
      using dist_step_down_wrap [OF assms(1) less.prems True] dist_less [OF assms(1) that] by simp
    ultimately show ?thesis by blast
  next
    case False
    have d: "dist n r ?i = dist n r i + 1" using dist_step_down [OF assms(1) less.prems False] .
    have only: "p = ?i" if "p < n" "dist n r i < dist n r p" "dist n r p < dist n r ?i + 1" for p
      using that d dist_inj [OF assms(1) that(1) i'] by simp
    show ?thesis
    proof (cases "stop ?i")
      case True
      have "probe_down n r stop i = Some (Some ?i)" using True False by (subst probe_down.simps) (simp add: Let_def)
      with True i' d show ?thesis by auto
    next
      case ns: False
      have eq: "probe_down n r stop i = probe_down n r stop ?i" using ns False by (subst probe_down.simps) (simp add: Let_def)
      have "n - dist n r ?i < n - dist n r i" using d dist_less [OF assms(1) i'] by simp
      note IH = less.hyps [OF this i']
      have ns': "\<not> stop p" if "p < n" "dist n r i < dist n r p" "\<not> dist n r ?i < dist n r p" for p
        using only [OF that(1,2)] that(3) ns by fastforce
      from IH show ?thesis
      proof
        assume "\<exists>y < n. probe_down n r stop ?i = Some (Some y) \<and> stop y \<and> dist n r ?i < dist n r y
          \<and> (\<forall>p < n. dist n r ?i < dist n r p \<and> dist n r p < dist n r y \<longrightarrow> \<not> stop p)"
        then show ?thesis unfolding eq using d ns' by (metis add_lessD1)
      next
        assume "probe_down n r stop ?i = Some None \<and> (\<forall>p < n. dist n r ?i < dist n r p \<longrightarrow> \<not> stop p)"
        then show ?thesis unfolding eq using ns' by metis
      qed
    qed
  qed
qed

text \<open>The whole search, the hash position included: it ends at the first node where \<open>stop\<close> holds.\<close>

lemma first_stop:
  assumes "r < n" and "\<not> stop r"
  obtains y where "y < n" "probe_down n r stop r = Some (Some y)" "stop y"
      "\<forall>p < n. dist n r p < dist n r y \<longrightarrow> \<not> stop p"
    | "probe_down n r stop r = Some None" "\<forall>p < n. \<not> stop p"
proof -
  have z: "0 < dist n r p" if "p < n" "stop p" for p
    using that assms dist_0_iff [of r n p] by (cases "dist n r p") auto
  from probe_down_eq [OF assms(1) assms(1), of stop] show thesis
  proof
    assume "\<exists>y < n. probe_down n r stop r = Some (Some y) \<and> stop y \<and> dist n r r < dist n r y
        \<and> (\<forall>p < n. dist n r r < dist n r p \<and> dist n r p < dist n r y \<longrightarrow> \<not> stop p)"
    then show thesis using that(1) z by (metis dist_self)
  next
    assume "probe_down n r stop r = Some None \<and> (\<forall>p < n. dist n r r < dist n r p \<longrightarrow> \<not> stop p)"
    then show thesis using that(2) z by (metis dist_self)
  qed
qed

section \<open>Lookup\<close>

definition hm_inv :: "('k \<Rightarrow> u32) \<Rightarrow> ('k, 'v) LightHashMap \<Rightarrow> bool" where
  "hm_inv h m \<longleftrightarrow>
     (m_values m = [] \<and> m_grow_threshold m = 0
      \<or> (\<exists>b. 2 \<le> b \<and> b \<le> 31 \<and> length (m_values m) = 2 ^ b \<and> m_hash_shift m = 32 - b
             \<and> m_grow_threshold m = (2 ^ b + 1) div 2))
     \<and> m_num_valid m = card (occupied (m_values m)) \<and> m_num_valid m \<le> m_grow_threshold m
     \<and> probes_ok (hash_key h (m_hash_shift m)) {} (m_values m) \<and> keys_unique (m_values m)"

definition abs_map :: "('k, 'v) LightHashMap \<Rightarrow> 'k \<rightharpoonup> 'v" where
  "abs_map m = table_map (m_values m)"

lemma hash_key_less: "b \<le> 32 \<Longrightarrow> hash_key h (32 - b) k < 2 ^ b"
proof -
  assume b: "b \<le> 32"
  have "unat (drop_bit (32 - b) x) < 2 ^ b" for x :: u32
  proof -
    have "unat (drop_bit (32 - b) x) = unat x div 2 ^ (32 - b)" by (simp add: unat_drop_bit_eq flip: drop_bit_eq_div)
    moreover have "unat x < 2 ^ (32 - b) * 2 ^ b" using b unsigned_less [of x] by (simp flip: power_add)
    ultimately show ?thesis by (simp add: less_mult_imp_div_less mult.commute)
  qed
  then show ?thesis by (simp add: hash_key_def)
qed

lemma hm_inv_table:
  assumes "hm_inv h m" and "m_values m \<noteq> []"
  shows "hash_key h (m_hash_shift m) k < length (m_values m)" "m_num_valid m < length (m_values m)"
    "m_grow_threshold m < length (m_values m)" "m_num_valid m = card (occupied (m_values m))"
proof -
  obtain b where b: "2 \<le> b" "b \<le> 31" "length (m_values m) = 2 ^ b" "m_hash_shift m = 32 - b" "m_grow_threshold m = (2 ^ b + 1) div 2"
    using assms by (auto simp: hm_inv_def)
  show "hash_key h (m_hash_shift m) k < length (m_values m)" using b hash_key_less [of b h k] by simp
  have "(2 :: nat) ^ 2 \<le> 2 ^ b" using b(1) by (intro power_increasing) auto
  then show g: "m_grow_threshold m < length (m_values m)" using b by simp
  show "m_num_valid m < length (m_values m)" "m_num_valid m = card (occupied (m_values m))"
    using assms(1) g by (auto simp: hm_inv_def)
qed

abbreviation search_stop :: "('k \<times> 'v) option list \<Rightarrow> 'k \<Rightarrow> nat \<Rightarrow> bool" where
  "search_stop T k i \<equiv> (case T ! i of None \<Rightarrow> True | Some (k', v) \<Rightarrow> k' = k)"

text \<open>A search for \<open>k\<close> arrives at a node \<open>y\<close>: either the node of the key, or the free node where its run ends.\<close>

definition search_ends :: "('k \<times> 'v) option list \<Rightarrow> nat \<Rightarrow> 'k \<Rightarrow> nat \<Rightarrow> bool" where
  "search_ends T r k y \<longleftrightarrow> y < length T
     \<and> (y = r \<and> search_stop T k y \<or> \<not> search_stop T k r \<and> probe_down (length T) r (search_stop T k) r = Some (Some y))
     \<and> (holds_key T k y \<or> T ! y = None \<and> (\<forall>x < length T. \<not> holds_key T k x)
         \<and> (\<forall>p < length T. dist (length T) r p < dist (length T) r y \<longrightarrow> T ! p \<noteq> None))"

lemma search:
  assumes inv: "hm_inv h m" and ne: "m_values m \<noteq> []"
  shows "\<exists>y. search_ends (m_values m) (hash_key h (m_hash_shift m) k) k y"
proof -
  define T n r where "T = m_values m" and "n = length (m_values m)" and "r = hash_key h (m_hash_shift m) k"
  note tab = hm_inv_table(1) [OF inv ne, of k, folded T_def n_def r_def] hm_inv_table(2-4) [OF inv ne, folded T_def n_def]
  have po: "probes_ok (hash_key h (m_hash_shift m)) {} T" using inv by (simp add: hm_inv_def T_def)
  obtain f where f: "f < n" "T ! f = None" using free_node [of T] tab(2,4) by (auto simp: T_def n_def)
  have "\<exists>y < n. (y = r \<and> search_stop T k y \<or> \<not> search_stop T k r \<and> probe_down n r (search_stop T k) r = Some (Some y))
      \<and> search_stop T k y \<and> (\<forall>p < n. dist n r p < dist n r y \<longrightarrow> \<not> search_stop T k p)"
  proof (cases "search_stop T k r")
    case True
    then show ?thesis using tab(1) by auto
  next
    case False
    from tab(1) False show ?thesis
    proof (rule first_stop)
      fix y assume "y < n" "probe_down n r (search_stop T k) r = Some (Some y)" "search_stop T k y"
        "\<forall>p < n. dist n r p < dist n r y \<longrightarrow> \<not> search_stop T k p"
      with False show ?thesis by blast
    next
      assume "\<forall>p < n. \<not> search_stop T k p"
      with f show ?thesis by auto
    qed
  qed
  then obtain y where y: "y < n" "y = r \<and> search_stop T k y \<or> \<not> search_stop T k r \<and> probe_down n r (search_stop T k) r = Some (Some y)"
    "search_stop T k y" "\<forall>p < n. dist n r p < dist n r y \<longrightarrow> \<not> search_stop T k p" by blast
  have "holds_key T k y \<or> T ! y = None \<and> (\<forall>x < n. \<not> holds_key T k x)
      \<and> (\<forall>p < n. dist n r p < dist n r y \<longrightarrow> T ! p \<noteq> None)"
  proof (cases "T ! y")
    case None
    have "\<not> holds_key T k x" if "x < n" for x
    proof
      assume a: "holds_key T k x"
      then have "\<not> dist n r x < dist n r y" using y(4) that by auto
      moreover have "x \<noteq> y" using a None by auto
      ultimately have "dist n r y < dist n r x" using dist_inj [OF tab(1) that y(1)] by linarith
      with po a that y(1) None show False unfolding probes_ok_def n_def T_def r_def by blast
    qed
    moreover have "T ! p \<noteq> None" if "p < n" "dist n r p < dist n r y" for p
      using y(4) that by (metis option.simps(4))
    ultimately show ?thesis using None by blast
  next
    case (Some p)
    then show ?thesis using y(3) by (cases p) auto
  qed
  with y(1,2) show ?thesis unfolding search_ends_def T_def n_def r_def by blast
qed

lemma find_index_eq:
  assumes inv: "hm_inv h m"
  shows "\<exists>r. find_index h k m = Some r
    \<and> (case r of None \<Rightarrow> abs_map m k = None
       | Some i \<Rightarrow> i < length (m_values m) \<and> (\<exists>v. m_values m ! i = Some (k, v) \<and> abs_map m k = Some v))"
proof (cases "m_num_valid m = 0")
  case True
  then have "occupied (m_values m) = {}" using inv by (simp add: hm_inv_def)
  then have "abs_map m k = None"
    using inv table_map_None [of "m_values m" k] by (auto simp: hm_inv_def abs_map_def occupied_def)
  with True show ?thesis by (simp add: find_index_def)
next
  case False
  have u: "keys_unique (m_values m)" using inv by (simp add: hm_inv_def)
  have ne: "m_values m \<noteq> []" using False inv by (auto simp: hm_inv_def occupied_def)
  define T r where "T = m_values m" and "r = hash_key h (m_hash_shift m) k"
  obtain y where y: "search_ends T r k y" using search [OF inv ne] unfolding T_def r_def by blast
  have f: "find_index h k m = (case T ! r of None \<Rightarrow> Some None
        | Some (k', v) \<Rightarrow> if k' = k then Some (Some r)
            else do { x \<leftarrow> probe_down (length T) r (search_stop T k) r;
              Some (case x of None \<Rightarrow> None | Some i \<Rightarrow> if T ! i = None then None else Some i) })"
    unfolding T_def r_def using False by (simp add: find_index_def Let_def)
  have "find_index h k m = Some (if T ! y = None then None else Some y)"
    using y unfolding f search_ends_def by (cases "T ! r") auto
  moreover have "abs_map m k = None" if "T ! y = None"
    using y that unfolding abs_map_def table_map_None [OF u] T_def search_ends_def by auto
  moreover have "\<exists>v. T ! y = Some (k, v) \<and> abs_map m k = Some v" if "T ! y \<noteq> None"
    using y that unfolding abs_map_def table_map_eq [OF u] T_def search_ends_def by blast
  ultimately show ?thesis using y unfolding T_def search_ends_def by (cases "m_values m ! y = None") simp_all
qed

section \<open>Insertion\<close>

lemma insert_no_grow_eq:
  assumes inv: "hm_inv h m" and ne: "m_values m \<noteq> []"
  shows "(\<exists>i. abs_map m k \<noteq> None \<and> i < length (m_values m) \<and> m_values m ! i = Some (k, the (abs_map m k))
        \<and> insert_no_grow h k v m = Some (Some (i, False), m))
    \<or> (abs_map m k = None \<and> m_grow_threshold m \<le> m_num_valid m \<and> insert_no_grow h k v m = Some (None, m))
    \<or> (\<exists>i m'. abs_map m k = None \<and> m_num_valid m < m_grow_threshold m
        \<and> insert_no_grow h k v m = Some (Some (i, True), m') \<and> hm_inv h m'
        \<and> i < length (m_values m') \<and> m_values m' ! i = Some (k, v) \<and> abs_map m' = (abs_map m)(k \<mapsto> v))"
proof -
  define T r where "T = m_values m" and "r = hash_key h (m_hash_shift m) k"
  have u: "keys_unique T" and po: "probes_ok (hash_key h (m_hash_shift m)) {} T"
    using inv by (simp_all add: hm_inv_def T_def)
  obtain y where y: "search_ends T r k y" using search [OF inv ne] unfolding T_def r_def by blast
  have f: "insert_no_grow h k v m = (case T ! r of None \<Rightarrow> Some (store_node r k v m)
        | Some (k', _) \<Rightarrow> if k' = k then Some (Some (r, False), m)
            else do { x \<leftarrow> probe_down (length T) r (search_stop T k) r;
              Some (case x of None \<Rightarrow> (None, m)
                | Some i \<Rightarrow> if T ! i = None then store_node i k v m else (Some (i, False), m)) })"
    unfolding T_def r_def using ne by (simp add: insert_no_grow_def Let_def)
  have g: "insert_no_grow h k v m = Some (if T ! y = None then store_node y k v m else (Some (y, False), m))"
    using y unfolding f search_ends_def by (cases "T ! r") auto
  have yl: "y < length T" using y by (simp add: search_ends_def)
  show ?thesis
  proof (cases "T ! y")
    case None
    then have nk: "\<forall>x < length T. \<not> holds_key T k x"
      and run: "\<forall>p < length T. dist (length T) r p < dist (length T) r y \<longrightarrow> T ! p \<noteq> None"
      using y by (auto simp: search_ends_def)
    have a: "abs_map m k = None" unfolding abs_map_def table_map_None [OF u [unfolded T_def]] using nk by (simp add: T_def)
    show ?thesis
    proof (cases "m_grow_threshold m \<le> m_num_valid m")
      case True
      then show ?thesis using a g None by (simp add: store_node_def)
    next
      case False
      let ?m = "m\<lparr>m_values := T[y := Some (k, v)], m_num_valid := m_num_valid m + 1\<rparr>"
      have st: "store_node y k v m = (Some (y, True), ?m)" using False by (simp add: store_node_def T_def)
      note put = put_ok [OF po u yl None nk run [unfolded r_def]]
      have "card (occupied (T[y := Some (k, v)])) = card (occupied T) + 1"
        using None yl by (simp add: occupied_update) (simp add: occupied_def)
      then have "hm_inv h ?m" using inv put(1,2) False ne by (auto simp: hm_inv_def T_def)
      moreover have "abs_map ?m = (abs_map m)(k \<mapsto> v)" using put(3) by (simp add: abs_map_def T_def)
      ultimately show ?thesis using a g None st yl False by auto
    qed
  next
    case (Some p)
    then have "holds_key T k y" using y by (auto simp: search_ends_def)
    then obtain w where w: "T ! y = Some (k, w)" by blast
    then have "abs_map m k = Some w" unfolding abs_map_def using table_map_eq [OF u] yl by (auto simp: T_def)
    with g w yl show ?thesis by (simp add: T_def)
  qed
qed

subsection \<open>Growing\<close>

text \<open>The part of the invariant that holds while a table is being filled.\<close>

definition filling :: "('k \<Rightarrow> u32) \<Rightarrow> ('k, 'v) LightHashMap \<Rightarrow> bool" where
  "filling h m \<longleftrightarrow> probes_ok (hash_key h (m_hash_shift m)) {} (m_values m) \<and> keys_unique (m_values m)
     \<and> m_num_valid m = card (occupied (m_values m)) \<and> (\<forall>k. hash_key h (m_hash_shift m) k < length (m_values m))"

lemma move_into_eq:
  assumes inv: "filling h m" and room: "m_num_valid m < length (m_values m)"
    and nk: "\<forall>x < length (m_values m). \<not> holds_key (m_values m) k x"
  shows "\<exists>T. move_into h k v m = Some (m\<lparr>m_values := T, m_num_valid := m_num_valid m + 1\<rparr>)
    \<and> filling h (m\<lparr>m_values := T, m_num_valid := m_num_valid m + 1\<rparr>) \<and> length T = length (m_values m)
    \<and> table_map T = (table_map (m_values m))(k \<mapsto> v)"
proof -
  define T r n where "T = m_values m" and "r = hash_key h (m_hash_shift m) k" and "n = length T"
  have r: "r < n" using inv by (simp add: filling_def r_def n_def T_def)
  have u: "keys_unique T" and po: "probes_ok (hash_key h (m_hash_shift m)) {} T"
    using inv by (simp_all add: filling_def T_def)
  obtain f where f: "f < n" "T ! f = None"
    using free_node [of T] room inv by (auto simp: filling_def T_def n_def)
  let ?put = "\<lambda>i. m\<lparr>m_values := T[i := Some (k, v)], m_num_valid := m_num_valid m + 1\<rparr>"
  have "\<exists>y < n. T ! y = None \<and> move_into h k v m = Some (?put y) \<and> (\<forall>p < n. dist n r p < dist n r y \<longrightarrow> T ! p \<noteq> None)"
  proof (cases "T ! r = None")
    case True
    then have "move_into h k v m = Some (?put r)" by (simp add: move_into_def Let_def T_def r_def)
    with True r show ?thesis by auto
  next
    case False
    from r False show ?thesis
    proof (rule first_stop)
      fix y assume y: "y < n" "probe_down n r (\<lambda>i. T ! i = None) r = Some (Some y)" "T ! y = None"
        "\<forall>p < n. dist n r p < dist n r y \<longrightarrow> T ! p \<noteq> None"
      have "move_into h k v m = Some (?put y)"
        using False y(2) unfolding T_def r_def n_def by (auto simp: move_into_def Let_def)
      with y show ?thesis by blast
    next
      assume "\<forall>p < n. T ! p \<noteq> None"
      with f show ?thesis by auto
    qed
  qed
  then obtain y where y: "y < n" "T ! y = None" "move_into h k v m = Some (?put y)"
    "\<forall>p < n. dist n r p < dist n r y \<longrightarrow> T ! p \<noteq> None" by blast
  note put = put_ok [OF po u y(1) [unfolded n_def] y(2) nk [folded T_def] y(4) [unfolded n_def r_def]]
  have "card (occupied (T[y := Some (k, v)])) = card (occupied T) + 1"
    using y(1,2) by (simp add: occupied_update n_def) (simp add: occupied_def)
  then have "filling h (?put y)" using inv put(1,2) by (simp add: filling_def T_def)
  with y(3) put(3) show ?thesis by (intro exI [of _ "T[y := Some (k, v)]"]) (simp add: T_def)
qed

lemma keys_unique_Cons:
  assumes "keys_unique (o' # old)"
  shows "keys_unique old" "o' = Some (k, v) \<Longrightarrow> Some (k, w) \<notin> set old"
proof -
  show "keys_unique old" unfolding keys_unique_def
  proof (intro allI impI)
    fix x y k v w assume "x < length old \<and> y < length old \<and> old ! x = Some (k, v) \<and> old ! y = Some (k, w)"
    then show "x = y" using assms [unfolded keys_unique_def, rule_format, of "Suc x" "Suc y" k v w] by simp
  qed
  show "Some (k, w) \<notin> set old" if o': "o' = Some (k, v)"
  proof
    assume "Some (k, w) \<in> set old"
    then obtain x where "x < length old" "old ! x = Some (k, w)" by (auto simp: in_set_conv_nth)
    then show False using assms [unfolded keys_unique_def, rule_format, of 0 "Suc x" k v w] o' by simp
  qed
qed

lemma rehash_loop_eq:
  assumes "filling h m" and "cnt < length (m_values m)" and "keys_unique old"
    and "m_num_valid m + length (filter (\<lambda>o'. o' \<noteq> None) old) = cnt"
    and "\<forall>k v. Some (k, v) \<in> set old \<longrightarrow> table_map (m_values m) k = None"
  shows "\<exists>m'. rehash_loop h cnt old m = Some m' \<and> filling h m' \<and> length (m_values m') = length (m_values m)
    \<and> m_hash_shift m' = m_hash_shift m \<and> m_num_valid m' = cnt
    \<and> (\<forall>k v. table_map (m_values m') k = Some v \<longleftrightarrow> table_map (m_values m) k = Some v \<or> Some (k, v) \<in> set old)"
  using assms
proof (induction h cnt old m rule: rehash_loop.induct)
  case (1 h cnt m)
  then show ?case by simp
next
  case (2 h cnt old m)
  have "keys_unique old" using 2(4) by (rule keys_unique_Cons(1))
  with 2 show ?case by simp
next
  case (3 h cnt k v old m)
  have u: "keys_unique (m_values m)" using 3(2) by (simp add: filling_def)
  have nk: "\<forall>x < length (m_values m). \<not> holds_key (m_values m) k x"
    using 3(6) unfolding table_map_None [OF u, symmetric] by simp
  have room: "m_num_valid m < length (m_values m)" using 3(3,5) by simp
  obtain T where T: "move_into h k v m = Some (m\<lparr>m_values := T, m_num_valid := m_num_valid m + 1\<rparr>)"
    "filling h (m\<lparr>m_values := T, m_num_valid := m_num_valid m + 1\<rparr>)" "length T = length (m_values m)"
    "table_map T = (table_map (m_values m))(k \<mapsto> v)"
    using move_into_eq [OF 3(2) room nk] by blast
  let ?m = "m\<lparr>m_values := T, m_num_valid := m_num_valid m + 1\<rparr>"
  have kold: "Some (k, w) \<notin> set old" for w using keys_unique_Cons(2) [OF 3(4)] by blast
  have mk: "table_map (m_values m) k = None" using 3(6) by auto
  show ?case
  proof (cases "cnt = m_num_valid ?m")
    case True
    then have "filter (\<lambda>o'. o' \<noteq> None) old = []" using 3(5) by simp
    then have "Some p \<notin> set old" for p by (metis (mono_tags, lifting) filter_empty_conv option.distinct(1))
    with T True mk show ?thesis by (auto simp: fun_upd_def)
  next
    case False
    have "\<forall>k' v'. Some (k', v') \<in> set old \<longrightarrow> table_map (m_values ?m) k' = None"
      using 3(6) kold T(4) by auto
    moreover have "keys_unique old" using 3(4) by (rule keys_unique_Cons(1))
    ultimately obtain m' where m': "rehash_loop h cnt old ?m = Some m'" "filling h m'"
      "length (m_values m') = length T" "m_hash_shift m' = m_hash_shift m" "m_num_valid m' = cnt"
      "\<forall>k v. table_map (m_values m') k = Some v \<longleftrightarrow> table_map T k = Some v \<or> Some (k, v) \<in> set old"
      using 3(1) [OF T(1) False T(2)] T(3) 3(3,5) by auto
    then show ?thesis using T False mk kold by (auto simp: fun_upd_def)
  qed
qed

lemma NonzeroLowestBitIndex_power: "NonzeroLowestBitIndex (2 ^ b) = b"
proof (induction b)
  case 0
  then show ?case by (subst NonzeroLowestBitIndex.simps) simp
next
  case (Suc b)
  have "\<not> (2 :: nat) ^ Suc b < 2" using one_le_power [of "2 :: nat" b] by simp
  with Suc show ?case by (subst NonzeroLowestBitIndex.simps) simp
qed

lemma occupied_filter: "card (occupied T) = length (filter (\<lambda>o'. o' \<noteq> None) T)"
  by (simp add: occupied_def length_filter_conv_card)

lemma rehash_eq:
  assumes inv: "hm_inv h m" and b: "2 \<le> b" "b \<le> 31" and big: "m_num_valid m \<le> (2 ^ b + 1) div 2" "length (m_values m) \<noteq> 2 ^ b"
  shows "\<exists>m'. rehash h (2 ^ b) m = Some m' \<and> hm_inv h m' \<and> abs_map m' = abs_map m \<and> length (m_values m') = 2 ^ b
    \<and> m_num_valid m' = m_num_valid m \<and> m_grow_threshold m' = (2 ^ b + 1) div 2"
proof -
  have four: "(2 :: nat) ^ 2 \<le> 2 ^ b" using b(1) by (intro power_increasing) auto
  have u: "keys_unique (m_values m)" using inv by (simp add: hm_inv_def)
  let ?m = "\<lparr>m_hash_shift = 32 - b, m_num_valid = 0, m_grow_threshold = m_grow_threshold m, m_values = replicate (2 ^ b) None :: ('a \<times> 'b) option list\<rparr>"
  have occ: "occupied (replicate (2 ^ b) None :: ('a \<times> 'b) option list) = {}" by (auto simp: occupied_def)
  have fill: "filling h ?m"
    unfolding filling_def using occ hash_key_less [of b h] b by (auto simp: probes_ok_def keys_unique_def)
  have u': "keys_unique (replicate (2 ^ b) None :: ('a \<times> 'b) option list)" by (auto simp: keys_unique_def)
  have empty: "table_map (replicate (2 ^ b) None :: ('a \<times> 'b) option list) k = None" for k
    unfolding table_map_None [OF u'] by simp
  have cnt: "m_num_valid ?m + length (filter (\<lambda>o'. o' \<noteq> None) (m_values m)) = m_num_valid m"
    using inv by (simp add: hm_inv_def occupied_filter)
  have room: "m_num_valid m < length (m_values ?m)" using big(1) four by simp
  obtain m' where m': "rehash_loop h (m_num_valid m) (m_values m) ?m = Some m'" "filling h m'" "length (m_values m') = 2 ^ b"
    "m_hash_shift m' = 32 - b" "m_num_valid m' = m_num_valid m"
    "\<forall>k v. table_map (m_values m') k = Some v \<longleftrightarrow> Some (k, v) \<in> set (m_values m)"
    using rehash_loop_eq [OF fill room u cnt] empty by auto
  let ?r = "m'\<lparr>m_grow_threshold := (2 ^ b + 1) div 2\<rparr>"
  have "rehash h (2 ^ b) m = Some ?r"
    using m'(1) room big(2) by (simp add: rehash_def NonzeroLowestBitIndex_power)
  moreover have "hm_inv h ?r" using m' b big(1) by (auto simp: hm_inv_def filling_def)
  moreover have "abs_map ?r = abs_map m"
  proof
    fix k
    have "abs_map ?r k = Some v \<longleftrightarrow> abs_map m k = Some v" for v
      using m'(6) table_map_eq [OF u, of k v] by (auto simp: abs_map_def in_set_conv_nth)
    then show "abs_map ?r k = abs_map m k" by (metis option.exhaust)
  qed
  ultimately show ?thesis using m'(3,5) by auto
qed

text \<open>The size chosen when the table is full.\<close>

lemma new_size:
  assumes inv: "hm_inv h m" and "m_num_valid m < 2 ^ 30" and full: "m_values m \<noteq> [] \<Longrightarrow> m_grow_threshold m \<le> m_num_valid m"
  shows "\<exists>b. 2 \<le> b \<and> b \<le> 31 \<and> m_num_valid m < (2 ^ b + 1) div 2 \<and> length (m_values m) \<noteq> 2 ^ b
    \<and> (let newSize = (length (m_values m) * 2) mod 2 ^ 32 in if newSize < cMinHashSize then cMinHashSize else newSize) = 2 ^ b"
proof (cases "m_values m = []")
  case True
  then have "m_num_valid m = 0" using inv by (auto simp: hm_inv_def)
  with True show ?thesis by (intro exI [of _ 2]) (simp add: cMinHashSize_def)
next
  case False
  then obtain c where c: "2 \<le> c" "c \<le> 31" "length (m_values m) = 2 ^ c" "m_grow_threshold m = (2 ^ c + 1) div 2"
    using inv by (auto simp: hm_inv_def)
  then obtain a where a: "c = Suc a" "1 \<le> a" by (cases c) auto
  have half: "(2 ^ Suc a + 1) div 2 = (2 :: nat) ^ a" by simp
  have "(2 :: nat) ^ a < 2 ^ 30" using full [OF False] c(4) assms(2) a(1) half by simp
  then have "a < 30" by (simp only: power_strict_increasing_iff)
  have n: "m_num_valid m \<le> 2 ^ a" using inv c(4) a(1) half by (simp add: hm_inv_def)
  have four: "(2 :: nat) ^ 2 \<le> 2 ^ c" using c(1) by (intro power_increasing) auto
  have "(2 :: nat) ^ Suc c < 2 ^ 32" using \<open>a < 30\<close> a(1) by (intro power_strict_increasing) auto
  then have "(length (m_values m) * 2) mod 2 ^ 32 = 2 ^ Suc c" using c(3) by simp
  then show ?thesis using c(1) a n four \<open>a < 30\<close> by (intro exI [of _ "Suc c"]) (simp add: cMinHashSize_def c(3) Let_def)
qed

lemma hash_insert_eq:
  assumes inv: "hm_inv h m" and "m_num_valid m < 2 ^ 30"
  shows "\<exists>i new m'. hash_insert h k v m = Some ((i, new), m') \<and> hm_inv h m' \<and> i < length (m_values m')
    \<and> (case abs_map m k of
         Some w \<Rightarrow> \<not> new \<and> m' = m \<and> m_values m ! i = Some (k, w)
       | None \<Rightarrow> new \<and> abs_map m' = (abs_map m)(k \<mapsto> v) \<and> m_values m' ! i = Some (k, v))"
proof (cases "m_values m \<noteq> [] \<and> (abs_map m k = None \<longrightarrow> m_num_valid m < m_grow_threshold m)")
  case True
  then have ne: "m_values m \<noteq> []" by simp
  show ?thesis
    using insert_no_grow_eq [OF inv ne, of k v] True by (auto simp: hash_insert_def inv)
next
  case False
  have "m_values m = [] \<Longrightarrow> abs_map m k = None" by (simp add: abs_map_def table_map_def)
  then have a: "abs_map m k = None" using False by auto
  have full: "m_values m \<noteq> [] \<Longrightarrow> m_grow_threshold m \<le> m_num_valid m" using False a by auto
  have first: "insert_no_grow h k v m = Some (None, m)"
  proof (cases "m_values m = []")
    case False
    with insert_no_grow_eq [OF inv this, of k v] a full show ?thesis by auto
  qed (simp add: insert_no_grow_def)
  obtain b where b: "2 \<le> b" "b \<le> 31" "m_num_valid m < (2 ^ b + 1) div 2" "length (m_values m) \<noteq> 2 ^ b"
    "(let newSize = (length (m_values m) * 2) mod 2 ^ 32 in if newSize < cMinHashSize then cMinHashSize else newSize) = 2 ^ b"
    using new_size [OF inv assms(2) full] by blast
  obtain m1 where m1: "rehash h (2 ^ b) m = Some m1" "hm_inv h m1" "abs_map m1 = abs_map m" "length (m_values m1) = 2 ^ b"
    "m_num_valid m1 = m_num_valid m" "m_grow_threshold m1 = (2 ^ b + 1) div 2"
    using rehash_eq [OF inv b(1,2) _ b(4)] b(3) by auto
  have ne: "m_values m1 \<noteq> []" using m1(4) by auto
  from insert_no_grow_eq [OF m1(2) ne, of k v] a m1(3,5,6) b(3)
  obtain i m' where "insert_no_grow h k v m1 = Some (Some (i, True), m')" "hm_inv h m'" "i < length (m_values m')"
      "m_values m' ! i = Some (k, v)" "abs_map m' = (abs_map m)(k \<mapsto> v)" by auto
  then show ?thesis using first m1(1) a b(5) by (auto simp: hash_insert_def Let_def)
qed

section \<open>Erasing\<close>

text \<open>While \<open>erase_loop\<close> runs there is one gap, at \<open>j\<close>, and every key whose search passes it lies beyond \<open>i\<close>.\<close>

definition erasing :: "('k \<Rightarrow> nat) \<Rightarrow> nat \<Rightarrow> nat \<Rightarrow> ('k \<times> 'v) option list \<Rightarrow> bool" where
  "erasing hash i j T \<longleftrightarrow> i < length T \<and> j < length T \<and> T ! j = None \<and> (\<forall>k. hash k < length T)
     \<and> probes_ok hash {j} T \<and> keys_unique T
     \<and> (\<forall>x k v. x < length T \<and> T ! x = Some (k, v)
          \<and> dist (length T) (hash k) j < dist (length T) (hash k) x \<longrightarrow> dist (length T) j i < dist (length T) j x)"

lemma erasing_stop:
  assumes e: "erasing hash i j T" and free: "T ! step_down (length T) i = None"
  shows "probes_ok hash {} T"
proof -
  let ?n = "length T" let ?i = "step_down (length T) i"
  have ij: "i < ?n" "j < ?n" and h: "\<And>k. hash k < ?n" and po: "probes_ok hash {j} T" using e by (auto simp: erasing_def)
  have i': "?i < ?n" using ij by (intro step_down_less) auto
  have "\<not> dist ?n (hash k) j < dist ?n (hash k) x" if x: "x < ?n" "T ! x = Some (k, v)" for x k v
  proof
    assume p: "dist ?n (hash k) j < dist ?n (hash k) x"
    then have far: "dist ?n j i < dist ?n j x" using e x unfolding erasing_def by blast
    then have ne: "?i \<noteq> j" using dist_step_down_wrap [OF ij(2,1)] dist_less [OF ij(2) x(1)] by fastforce
    have "dist ?n j ?i = dist ?n j i + 1" using dist_step_down [OF ij(2,1) ne] .
    moreover have "x \<noteq> ?i" using x(2) free by auto
    ultimately have "dist ?n j ?i < dist ?n j x" using far dist_inj [OF ij(2) i' x(1)] by linarith
    moreover have "dist ?n (hash k) x = dist ?n (hash k) j + dist ?n j x"
      using dist_trans [OF h ij(2) x(1)] p by simp
    moreover have "dist ?n (hash k) ?i \<le> dist ?n (hash k) j + dist ?n j ?i"
      using h [of k] ij i' by (auto simp: dist_def)
    ultimately have "dist ?n (hash k) ?i < dist ?n (hash k) x" by linarith
    then show False using po x i' free ne unfolding probes_ok_def by blast
  qed
  with po show ?thesis unfolding probes_ok_def by (metis empty_iff singletonD)
qed

lemma erasing_skip:
  assumes e: "erasing hash i j T" and node: "T ! step_down (length T) i = Some (k, v)"
    and keep: "\<not> dist (length T) (hash k) j < dist (length T) (hash k) (step_down (length T) i)"
  shows "erasing hash (step_down (length T) i) j T"
proof -
  let ?n = "length T" let ?i = "step_down (length T) i"
  have ij: "i < ?n" "j < ?n" and free: "T ! j = None" using e by (auto simp: erasing_def)
  have i': "?i < ?n" using ij by (intro step_down_less) auto
  have "?i \<noteq> j" using node free by auto
  then have d: "dist ?n j ?i = dist ?n j i + 1" using dist_step_down [OF ij(2,1)] by simp
  have "dist ?n j ?i < dist ?n j x"
    if x: "x < ?n" "T ! x = Some (k', v')" "dist ?n (hash k') j < dist ?n (hash k') x" for x k' v'
  proof -
    have "dist ?n j i < dist ?n j x" using e x unfolding erasing_def by blast
    moreover have "x \<noteq> ?i" using x keep node by auto
    ultimately show ?thesis using d dist_inj [OF ij(2) i' x(1)] by linarith
  qed
  with e i' show ?thesis unfolding erasing_def by blast
qed

lemma erasing_move:
  assumes e: "erasing hash i j T" and node: "T ! step_down (length T) i = Some (k, v)"
    and pass: "dist (length T) (hash k) j < dist (length T) (hash k) (step_down (length T) i)"
  defines "i' \<equiv> step_down (length T) i"
  defines "T' \<equiv> T[j := Some (k, v), i' := None]"
  shows "erasing hash i' i' T'" "table_map T' = table_map T" "occupied T' = insert j (occupied T - {i'})"
proof -
  let ?n = "length T"
  have ij: "i < ?n" "j < ?n" and free: "T ! j = None" and h: "\<And>k. hash k < ?n"
    and po: "probes_ok hash {j} T" and u: "keys_unique T" using e by (auto simp: erasing_def)
  have i': "i' < ?n" unfolding i'_def using ij by (intro step_down_less) auto
  have ne: "i' \<noteq> j" using node free by (auto simp: i'_def)
  have nth: "T' ! x = (if x = i' then None else if x = j then Some (k, v) else T ! x)" if "x < ?n" for x
    using that ij i' by (simp add: T'_def nth_list_update)
  have len: "length T' = ?n" by (simp add: T'_def)
  have old: "\<exists>y < ?n. T ! y = Some (k', v') \<and> dist ?n (hash k') x \<le> dist ?n (hash k') y"
    if "x < ?n" "T' ! x = Some (k', v')" for x k' v'
    using that pass node i' unfolding nth [OF that(1)] i'_def by (auto split: if_splits intro: less_imp_le)
  have u': "keys_unique T'"
    using u node ne i' ij free unfolding keys_unique_def len
    by (auto simp: nth i'_def split: if_splits)
  have "probes_ok hash {i'} T'"
    unfolding probes_ok_def len
  proof (intro allI impI)
    fix x k' v' p
    assume a: "x < ?n \<and> T' ! x = Some (k', v') \<and> p < ?n \<and> dist ?n (hash k') p < dist ?n (hash k') x"
    then obtain y where "y < ?n" "T ! y = Some (k', v')" "dist ?n (hash k') p < dist ?n (hash k') y"
      using old [of x k' v'] by (metis order.strict_trans2)
    then have "T ! p \<noteq> None \<or> p = j" using po a unfolding probes_ok_def by blast
    then show "T' ! p \<noteq> None \<or> p \<in> {i'}" using a by (auto simp: nth)
  qed
  moreover have "dist ?n i' i' < dist ?n i' x" if "x < ?n" "T' ! x = Some (k', v')" for x k' v'
    using that nth [OF that(1)] dist_0_iff [OF i' that(1)] by (cases "dist ?n i' x") auto
  ultimately show "erasing hash i' i' T'"
    unfolding erasing_def len using i' h u' nth [OF i'] by auto
  show "table_map T' = table_map T"
  proof
    fix k'
    have "table_map T' k' = Some v' \<longleftrightarrow> table_map T k' = Some v'" for v'
      unfolding table_map_eq [OF u'] table_map_eq [OF u] len
    proof
      assume "\<exists>x < ?n. T' ! x = Some (k', v')"
      then show "\<exists>x < ?n. T ! x = Some (k', v')" using old by blast
    next
      assume "\<exists>x < ?n. T ! x = Some (k', v')"
      then obtain x where x: "x < ?n" "T ! x = Some (k', v')" by blast
      show "\<exists>x < ?n. T' ! x = Some (k', v')"
      proof (cases "x = i'")
        case True
        then show ?thesis using x node ij(2) ne nth [OF ij(2)] by (auto simp: i'_def)
      next
        case False
        then show ?thesis using x free nth [OF x(1)] by (metis option.distinct(1))
      qed
    qed
    then show "table_map T' k' = table_map T k'" by (metis option.exhaust)
  qed
  show "occupied T' = insert j (occupied T - {i'})"
    using ij i' ne by (auto simp: occupied_def len nth split: if_splits)
qed

lemma dist_from_step_down: "i < n \<Longrightarrow> f < n \<Longrightarrow> f \<noteq> i \<Longrightarrow> dist n i f = dist n (step_down n i) f + 1"
  by (auto simp: dist_def step_down_def)

lemma erase_loop_ok:
  assumes "erasing hash i j T" and "f < length T" "T ! f = None" "f \<noteq> j" "f \<noteq> i"
  shows "\<exists>T'. erase_loop hash i j T = Some T' \<and> length T' = length T \<and> probes_ok hash {} T' \<and> keys_unique T'
    \<and> table_map T' = table_map T \<and> card (occupied T') = card (occupied T)"
  using assms
proof (induction "dist (length T) i f" arbitrary: i j T rule: less_induct)
  case less
  let ?i = "step_down (length T) i"
  have ij: "i < length T" "j < length T" and free: "T ! j = None" and h: "\<And>k. hash k < length T" and u: "keys_unique T"
    using less.prems(1) by (auto simp: erasing_def)
  have i': "?i < length T" using ij by (intro step_down_less) auto
  have d: "dist (length T) ?i f < dist (length T) i f" using dist_from_step_down [OF ij(1) less.prems(2,5)] by simp
  show ?case
  proof (cases "T ! ?i")
    case None
    then have "erase_loop hash i j T = Some T" by (subst erase_loop.simps) (simp add: Let_def)
    then show ?thesis using erasing_stop [OF less.prems(1) None] u by auto
  next
    case (Some p)
    obtain k v where p: "p = (k, v)" by (cases p)
    note node = Some [unfolded p]
    have ne: "?i \<noteq> j" "?i \<noteq> f" using node free less.prems(3) by auto
    note pass = passes_iff [OF h [of k] ij(2) i' ne(1)]
    show ?thesis
    proof (cases "dist (length T) (hash k) j < dist (length T) (hash k) ?i")
      case False
      then have "erase_loop hash i j T = erase_loop hash ?i j T"
        using node pass by (subst erase_loop.simps) (simp add: Let_def)
      moreover note less.hyps [OF d erasing_skip [OF less.prems(1) node False] less.prems(2-4) ne(2) [symmetric]]
      ultimately show ?thesis by simp
    next
      case True
      let ?T = "T[j := Some (k, v), ?i := None]"
      have np: "((?i \<le> hash k \<and> hash k < j) \<or> (hash k < j \<and> j < ?i) \<or> (j < ?i \<and> ?i \<le> hash k)) = False"
        using True pass by blast
      have eq: "erase_loop hash i j T = erase_loop hash ?i ?i ?T"
        by (subst erase_loop.simps) (simp only: Let_def node option.case prod.case np if_False)
      note m = erasing_move [OF less.prems(1) node True]
      have "card (occupied ?T) = card (occupied T)"
      proof -
        have "?i \<in> occupied T" "j \<notin> occupied T" using node free i' by (simp_all add: occupied_def)
        then show ?thesis unfolding m(3) using card.remove [of "occupied T" ?i] by (simp only: occupied_finite card_insert_disjoint finite_Diff Diff_iff) simp
      qed
      moreover have f: "f < length ?T" "?T ! f = None" using less.prems(2-4) ne(2) by (simp_all add: nth_list_update)
      have d': "dist (length ?T) ?i f < dist (length T) i f" using d by simp
      obtain T' where "erase_loop hash ?i ?i ?T = Some T'" "length T' = length ?T" "probes_ok hash {} T'" "keys_unique T'"
        "table_map T' = table_map ?T" "card (occupied T') = card (occupied ?T)"
        using less.hyps [OF d' m(1) f ne(2) [symmetric] ne(2) [symmetric]] by blast
      ultimately show ?thesis unfolding eq m(2) by (intro exI [of _ T']) simp
    qed
  qed
qed

lemma erase_index_eq:
  assumes inv: "hm_inv h m" and i: "i < length (m_values m)" "m_values m ! i = Some (k, v)"
  shows "\<exists>m'. erase_index h i m = Some m' \<and> hm_inv h m' \<and> abs_map m' = (abs_map m)(k := None)"
proof -
  let ?T = "m_values m" let ?R = "?T[i := None]" let ?hash = "hash_key h (m_hash_shift m)"
  have ne: "?T \<noteq> []" using i by auto
  note tab = hm_inv_table(1) [OF inv ne] hm_inv_table(2-4) [OF inv ne]
  have u: "keys_unique ?T" and po: "probes_ok ?hash {} ?T" using inv by (simp_all add: hm_inv_def)
  obtain f where f: "f < length ?T" "?T ! f = None" using free_node [of ?T] tab(2,4) by auto
  then have fi: "f \<noteq> i" using i by auto
  have uR: "keys_unique ?R"
    using u i(1) unfolding keys_unique_def length_list_update by (metis nth_list_update option.distinct(1))
  have "erasing ?hash i i ?R"
  proof -
    have "probes_ok ?hash {i} ?R" using po i(1) by (auto simp: probes_ok_def nth_list_update split: if_splits)
    moreover have "0 < dist (length ?T) i x" if "x < length ?T" "?R ! x = Some (k', v')" for x k' v'
      using that i(1) dist_0_iff [OF i(1) that(1)] by (cases "dist (length ?T) i x") (auto simp: nth_list_update)
    ultimately show ?thesis using i(1) tab(1) uR by (auto simp: erasing_def)
  qed
  moreover have "f < length ?R" "?R ! f = None" using f fi by (simp_all add: nth_list_update)
  ultimately obtain T' where T': "erase_loop ?hash i i ?R = Some T'" "length T' = length ?R" "probes_ok ?hash {} T'" "keys_unique T'"
    "table_map T' = table_map ?R" "card (occupied T') = card (occupied ?R)"
    using erase_loop_ok [of ?hash i i ?R f] fi by auto
  let ?m = "m\<lparr>m_num_valid := m_num_valid m - 1, m_values := T'\<rparr>"
  have "erase_index h i m = Some ?m" using T'(1) by (simp add: erase_index_def)
  moreover have "hm_inv h ?m"
  proof -
    have "card (occupied ?R) = card (occupied ?T) - 1"
      using i by (simp add: occupied_update) (simp add: occupied_def)
    then show ?thesis using inv T' ne by (auto simp: hm_inv_def)
  qed
  moreover have "table_map ?R = (table_map ?T)(k := None)"
  proof
    fix k'
    have "table_map ?R k' = Some v' \<longleftrightarrow> ((table_map ?T)(k := None)) k' = Some v'" for v'
    proof (cases "k' = k")
      case True
      then have "\<not> (\<exists>x < length ?R. ?R ! x = Some (k', v'))"
        using u i unfolding keys_unique_def length_list_update by (metis nth_list_update option.distinct(1))
      with True show ?thesis unfolding table_map_eq [OF uR] by simp
    next
      case False
      then have "(\<exists>x < length ?R. ?R ! x = Some (k', v')) \<longleftrightarrow> (\<exists>x < length ?T. ?T ! x = Some (k', v'))"
        using i unfolding length_list_update by (metis nth_list_update option.distinct(1) option.inject prod.inject)
      with False show ?thesis unfolding table_map_eq [OF uR] by (simp add: table_map_eq [OF u])
    qed
    then show "table_map ?R k' = ((table_map ?T)(k := None)) k'" by (metis option.exhaust)
  qed
  ultimately show ?thesis using T'(5) by (auto simp: abs_map_def)
qed

section \<open>Maps of connections\<close>

text \<open>\<open>ConnectionMap\<close>, the interface that the rest of the program uses.  A found connection is an option, \<open>None\<close> the
  null pointer.\<close>

definition Insert :: "('k \<Rightarrow> u32) \<Rightarrow> 'k \<Rightarrow> 'v \<Rightarrow> ('k, 'v) LightHashMap \<Rightarrow> (bool \<times> ('k, 'v) LightHashMap) option" where
  "Insert h key conn m = do { ((i, new), m) \<leftarrow> hash_insert h key conn m; Some (new, m) }"

definition Remove :: "('k \<Rightarrow> u32) \<Rightarrow> 'k \<Rightarrow> 'v \<Rightarrow> ('k, 'v) LightHashMap \<Rightarrow> (bool \<times> ('k, 'v) LightHashMap) option" where
  "Remove h key conn m = do {
     index \<leftarrow> find_index h key m;
     (case index of
        None \<Rightarrow> Some (False, m)
      | Some i \<Rightarrow> if map_option snd (m_values m ! i) \<noteq> Some conn then Some (False, m)
                  else do { m \<leftarrow> erase_index h i m; Some (True, m) }) }"

definition Find :: "('k \<Rightarrow> u32) \<Rightarrow> 'k \<Rightarrow> ('k, 'v) LightHashMap \<Rightarrow> 'v option option" where
  "Find h key m = do {
     index \<leftarrow> find_index h key m;
     Some (case index of None \<Rightarrow> None | Some i \<Rightarrow> map_option snd (m_values m ! i)) }"

definition GetCount :: "('k, 'v) LightHashMap \<Rightarrow> nat" where
  "GetCount m = m_num_valid m"

text \<open>The contract: a finite map.  An insertion does not replace, and a removal has to name the value.  The operations
  return as long as there are fewer than \<open>limit\<close> keys.\<close>

datatype ('k, 'v) map_op = Op_Insert 'k 'v | Op_Remove 'k 'v | Op_Find 'k

datatype 'v map_result = Done bool | Found "'v option"

text \<open>A sequence of operations on an implementation, and on a finite map.\<close>

fun exec_ops :: "('k \<Rightarrow> 'v \<Rightarrow> 'm \<Rightarrow> (bool \<times> 'm) option) \<Rightarrow> ('k \<Rightarrow> 'v \<Rightarrow> 'm \<Rightarrow> (bool \<times> 'm) option) \<Rightarrow> ('k \<Rightarrow> 'm \<Rightarrow> 'v option option)
    \<Rightarrow> ('k, 'v) map_op list \<Rightarrow> 'm \<Rightarrow> ('v map_result list \<times> 'm) option" where
  "exec_ops ins del look [] m = Some ([], m)"
| "exec_ops ins del look (Op_Insert k v # ops) m = do {
     (b, m) \<leftarrow> ins k v m; (rs, m) \<leftarrow> exec_ops ins del look ops m; Some (Done b # rs, m) }"
| "exec_ops ins del look (Op_Remove k v # ops) m = do {
     (b, m) \<leftarrow> del k v m; (rs, m) \<leftarrow> exec_ops ins del look ops m; Some (Done b # rs, m) }"
| "exec_ops ins del look (Op_Find k # ops) m = do {
     r \<leftarrow> look k m; (rs, m) \<leftarrow> exec_ops ins del look ops m; Some (Found r # rs, m) }"

fun spec_ops :: "('k, 'v) map_op list \<Rightarrow> ('k \<rightharpoonup> 'v) \<Rightarrow> 'v map_result list \<times> ('k \<rightharpoonup> 'v)" where
  "spec_ops [] m = ([], m)"
| "spec_ops (Op_Insert k v # ops) m =
     apfst ((#) (Done (m k = None))) (spec_ops ops (if m k = None then m(k \<mapsto> v) else m))"
| "spec_ops (Op_Remove k v # ops) m =
     apfst ((#) (Done (m k = Some v))) (spec_ops ops (if m k = Some v then m(k := None) else m))"
| "spec_ops (Op_Find k # ops) m = apfst ((#) (Found (m k))) (spec_ops ops m)"

locale key_map =
  fixes inv :: "'m \<Rightarrow> bool" and abs :: "'m \<Rightarrow> 'k \<rightharpoonup> 'v" and count :: "'m \<Rightarrow> nat" and limit :: nat
    and ins :: "'k \<Rightarrow> 'v \<Rightarrow> 'm \<Rightarrow> (bool \<times> 'm) option" and del :: "'k \<Rightarrow> 'v \<Rightarrow> 'm \<Rightarrow> (bool \<times> 'm) option"
    and look :: "'k \<Rightarrow> 'm \<Rightarrow> 'v option option"
  assumes look_eq: "inv m \<Longrightarrow> look k m = Some (abs m k)"
    and count_eq: "inv m \<Longrightarrow> finite (dom (abs m)) \<and> count m = card (dom (abs m))"
    and ins_eq: "inv m \<Longrightarrow> count m < limit \<Longrightarrow>
      \<exists>m'. ins k v m = Some (abs m k = None, m') \<and> inv m' \<and> abs m' = (if abs m k = None then (abs m)(k \<mapsto> v) else abs m)"
    and del_eq: "inv m \<Longrightarrow>
      \<exists>m'. del k v m = Some (abs m k = Some v, m') \<and> inv m' \<and> abs m' = (if abs m k = Some v then (abs m)(k := None) else abs m)"
begin

lemma count_ins:
  assumes "inv m" and "ins k v m = Some (b, m')" and "count m < limit"
  shows "count m' \<le> count m + 1"
proof -
  have m': "inv m'" "abs m' = (if abs m k = None then (abs m)(k \<mapsto> v) else abs m)" using ins_eq [OF assms(1,3), of k v] assms(2) by auto
  then have "dom (abs m') \<subseteq> insert k (dom (abs m))" by auto
  then have "card (dom (abs m')) \<le> card (insert k (dom (abs m)))" using count_eq [OF assms(1)] by (intro card_mono) auto
  also have "\<dots> \<le> card (dom (abs m)) + 1" using count_eq [OF assms(1)] by (simp add: card_insert_if)
  finally show ?thesis using count_eq [OF assms(1)] count_eq [OF m'(1)] by simp
qed

lemma count_del:
  assumes "inv m" and "del k v m = Some (b, m')"
  shows "count m' \<le> count m"
proof -
  have m': "inv m'" "abs m' = (if abs m k = Some v then (abs m)(k := None) else abs m)" using del_eq [OF assms(1), of k v] assms(2) by auto
  then have "dom (abs m') \<subseteq> dom (abs m)" by auto
  then show ?thesis using count_eq [OF assms(1)] count_eq [OF m'(1)] by (auto intro: card_mono)
qed

lemma exec_ops_refines:
  assumes "inv m" and "count m + length ops \<le> limit"
  shows "\<exists>m'. exec_ops ins del look ops m = Some (fst (spec_ops ops (abs m)), m') \<and> inv m' \<and> abs m' = snd (spec_ops ops (abs m))"
  using assms
proof (induction ops arbitrary: m)
  case (Cons op ops)
  show ?case
  proof (cases op)
    case (Op_Insert k v)
    have lim: "count m < limit" using Cons.prems(2) by simp
    obtain m1 where m1: "ins k v m = Some (abs m k = None, m1)" "inv m1" "abs m1 = (if abs m k = None then (abs m)(k \<mapsto> v) else abs m)"
      using ins_eq [OF Cons.prems(1) lim, of k v] by blast
    have "count m1 + length ops \<le> limit" using count_ins [OF Cons.prems(1) m1(1) lim] Cons.prems(2) by simp
    from Cons.IH [OF m1(2) this] show ?thesis
      unfolding Op_Insert exec_ops.simps spec_ops.simps m1(3) [symmetric] using m1(1) by auto
  next
    case (Op_Remove k v)
    obtain m1 where m1: "del k v m = Some (abs m k = Some v, m1)" "inv m1" "abs m1 = (if abs m k = Some v then (abs m)(k := None) else abs m)"
      using del_eq [OF Cons.prems(1), of k v] by blast
    have "count m1 + length ops \<le> limit" using count_del [OF Cons.prems(1) m1(1)] Cons.prems(2) by simp
    from Cons.IH [OF m1(2) this] show ?thesis
      unfolding Op_Remove exec_ops.simps spec_ops.simps m1(3) [symmetric] using m1(1) by auto
  next
    case (Op_Find k)
    have "count m + length ops \<le> limit" using Cons.prems(2) by simp
    from Cons.IH [OF Cons.prems(1) this] show ?thesis using look_eq [OF Cons.prems(1)] Op_Find by (auto simp: apfst_def)
  qed
qed simp

end

lemma card_dom_occupied:
  assumes "keys_unique T"
  shows "finite (dom (table_map T))" "card (occupied T) = card (dom (table_map T))"
proof -
  have dom: "dom (table_map T) = (\<lambda>x. fst (the (T ! x))) ` occupied T"
    by (auto simp: dom_def table_map_eq [OF assms] occupied_def image_def) force
  show "finite (dom (table_map T))" unfolding dom by simp
  have "inj_on (\<lambda>x. fst (the (T ! x))) (occupied T)"
    using assms unfolding keys_unique_def occupied_def inj_on_def by fastforce
  then show "card (occupied T) = card (dom (table_map T))" unfolding dom by (simp add: card_image)
qed

interpretation hash_map: key_map "hm_inv h" abs_map GetCount "2 ^ 30" "Insert h" "Remove h" "Find h" for h
proof
  fix m :: "('a, 'b) LightHashMap" and k v
  assume inv: "hm_inv h m"
  obtain r where r: "find_index h k m = Some r"
    "case r of None \<Rightarrow> abs_map m k = None
     | Some i \<Rightarrow> i < length (m_values m) \<and> (\<exists>v. m_values m ! i = Some (k, v) \<and> abs_map m k = Some v)"
    using find_index_eq [OF inv] by blast
  then show "Find h k m = Some (abs_map m k)" by (auto simp: Find_def split: option.splits)
  have "keys_unique (m_values m)" using inv by (simp add: hm_inv_def)
  from card_dom_occupied [OF this] show "finite (dom (abs_map m)) \<and> GetCount m = card (dom (abs_map m))"
    using inv by (simp add: hm_inv_def abs_map_def GetCount_def)
  show "\<exists>m'. Insert h k v m = Some (abs_map m k = None, m') \<and> hm_inv h m'
      \<and> abs_map m' = (if abs_map m k = None then (abs_map m)(k \<mapsto> v) else abs_map m)" if "GetCount m < 2 ^ 30"
    using hash_insert_eq [OF inv, of k v] that by (auto simp: Insert_def GetCount_def split: option.splits)
  show "\<exists>m'. Remove h k v m = Some (abs_map m k = Some v, m') \<and> hm_inv h m'
      \<and> abs_map m' = (if abs_map m k = Some v then (abs_map m)(k := None) else abs_map m)"
  proof (cases r)
    case None
    then show ?thesis using r inv by (auto simp: Remove_def)
  next
    case (Some i)
    then obtain w where w: "i < length (m_values m)" "m_values m ! i = Some (k, w)" "abs_map m k = Some w" using r(2) by auto
    show ?thesis
    proof (cases "w = v")
      case True
      then show ?thesis using erase_index_eq [OF inv w(1,2)] r(1) Some w by (auto simp: Remove_def)
    next
      case False
      then show ?thesis using r(1) Some w inv by (auto simp: Remove_def)
    qed
  qed
qed

lemma LightHashMap_init_inv [simp]: "hm_inv h LightHashMap_init" "abs_map LightHashMap_init = Map.empty" "GetCount LightHashMap_init = 0"
  by (auto simp: hm_inv_def LightHashMap_init_def abs_map_def table_map_def occupied_def probes_ok_def keys_unique_def GetCount_def)

section \<open>Properties\<close>

text \<open>Property C4: the hash map is a finite map.  Whatever the hash function, every sequence of up to \<open>2^30\<close>
  insertions, removals and lookups on a new map returns (no probing, growing or erasing loop runs for ever),
  gives the answers of a finite map, and leaves a table in which every key is found.\<close>

theorem hash_map_refines_map:
  fixes h :: "'k \<Rightarrow> u32" and ops :: "('k, 'v) map_op list"
  assumes "length ops \<le> 2 ^ 30"
  shows "\<exists>m'. exec_ops (Insert h) (Remove h) (Find h) ops LightHashMap_init = Some (fst (spec_ops ops Map.empty), m')
    \<and> hm_inv h m' \<and> abs_map m' = snd (spec_ops ops Map.empty) \<and> GetCount m' = card (dom (abs_map m'))"
proof -
  obtain m' where "exec_ops (Insert h) (Remove h) (Find h) ops LightHashMap_init = Some (fst (spec_ops ops Map.empty), m')"
    "hm_inv h m'" "abs_map m' = snd (spec_ops ops Map.empty)"
    using hash_map.exec_ops_refines [of h LightHashMap_init ops] assms by auto
  then show ?thesis using hash_map.count_eq [of h m'] by auto
qed

theorem hash_map_refines_map_witness:
  "\<exists>m'. exec_ops (Insert id) (Remove id) (Find id)
      [Op_Insert 1 (10 :: nat), Op_Insert 1 11, Op_Find 1, Op_Remove 1 11, Op_Remove 1 10, Op_Find 1] LightHashMap_init
    = Some ([Done True, Done False, Found (Some 10), Done False, Done True, Found None], m') \<and> GetCount m' = 0"
  using hash_map_refines_map [of "[Op_Insert 1 (10 :: nat), Op_Insert 1 11, Op_Find 1, Op_Remove 1 11, Op_Remove 1 10, Op_Find (1 :: u32)]" id]
  by (auto simp: apfst_def)

end
