(* ===== verification/Connection_Maps.thy ===== *)
theory Connection_Maps
  imports Light_Hash_Map Ref_Counter
begin

text \<open>
  The maps from identifiers, addresses and keys to connections, \<open>TonkineseMaps.h\<close> and \<open>TonkineseMaps.cpp\<close>.
  A connection is a number, and the reference counters of all connections are a function.  Each class takes
  its lock for a whole operation, so that the operations are atomic.

  Addresses are a type of their own, with a predicate for the unspecified ones and a default address,
  which is unspecified; their hash function is a parameter.  \<open>None\<close> as a result means that a loop does not end.
\<close>

section \<open>Identifiers\<close>

definition TONK_INVALID_ID :: u32 where "TONK_INVALID_ID = 0x7fffffff"
definition kConnectionIdCount :: u32 where "kConnectionIdCount = 0x1000000"

definition UInt32Hasher :: "u32 \<Rightarrow> u32" where "UInt32Hasher ident = ident"

record ConnectionIdMap =
  IdMap :: "(u32, nat) LightHashMap"
  BestUnusedIds :: "u8 list"
  BestUnusedCount :: nat
  NextId :: u32

definition ConnectionIdMap_init :: "u64 \<Rightarrow> ConnectionIdMap" where
  "ConnectionIdMap_init timeUsec =
     (let randomOffset = ucast (timeUsec mod 256) :: u8 in
      \<lparr>IdMap = LightHashMap_init, BestUnusedIds = map (\<lambda>i. ucast (255 - word_of_nat i + ucast randomOffset :: u32)) [0..<256],
       BestUnusedCount = 256, NextId = 0\<rparr>)"

definition next_id :: "u32 \<Rightarrow> u32" where
  "next_id n = (let n = n + 1 in if n < 256 \<or> n \<ge> kConnectionIdCount then 256 else n)"

partial_function (option) find_unused_id :: "nat \<Rightarrow> u32 \<Rightarrow> (u32, nat) LightHashMap \<Rightarrow> (u32 \<times> (u32, nat) LightHashMap) option" where
  "find_unused_id connection n m =
     (let n = next_id n in
      do { (new, m) \<leftarrow> Insert UInt32Hasher n connection m;
           (if new then Some (n, m) else find_unused_id connection n m) })"

definition InsertAndAssignId :: "nat \<Rightarrow> ConnectionIdMap \<Rightarrow> (u32 option \<times> ConnectionIdMap) option" where
  "InsertAndAssignId connection c =
     (if BestUnusedCount c > 0 then do {
        let ident = ucast (BestUnusedIds c ! (BestUnusedCount c - 1));
        (success, m) \<leftarrow> Insert UInt32Hasher ident connection (IdMap c);
        Some (if success then (Some ident, c\<lparr>BestUnusedCount := BestUnusedCount c - 1, IdMap := m\<rparr>)
              else (None, c\<lparr>IdMap := m\<rparr>)) }
      else if GetCount (IdMap c) \<ge> unat kConnectionIdCount then Some (None, c)
      else do {
        (ident, m) \<leftarrow> find_unused_id connection (NextId c) (IdMap c);
        Some (Some ident, c\<lparr>IdMap := m, NextId := ident\<rparr>) })"

definition RemoveAndUnassignId :: "u32 \<Rightarrow> nat \<Rightarrow> ConnectionIdMap \<Rightarrow> (bool \<times> ConnectionIdMap) option" where
  "RemoveAndUnassignId ident connection c =
     (if ident = TONK_INVALID_ID then Some (False, c)
      else do {
        let c = (if ident < 256 \<and> BestUnusedCount c < 256
                 then c\<lparr>BestUnusedIds := (BestUnusedIds c)[BestUnusedCount c := ucast ident],
                        BestUnusedCount := BestUnusedCount c + 1\<rparr>
                 else c);
        (success, m) \<leftarrow> Remove UInt32Hasher ident connection (IdMap c);
        Some (success, c\<lparr>IdMap := m\<rparr>) })"

text \<open>The connection that is found gets a reference.\<close>

definition add_reference :: "nat option \<Rightarrow> (nat \<Rightarrow> RefCounter) \<Rightarrow> nat \<Rightarrow> RefCounter" where
  "add_reference connection refs =
     (case connection of None \<Rightarrow> refs | Some c \<Rightarrow> refs(c := IncrementReferences (refs c)))"

definition FindById :: "u32 \<Rightarrow> ConnectionIdMap \<Rightarrow> (nat \<Rightarrow> RefCounter) \<Rightarrow> (nat option \<times> (nat \<Rightarrow> RefCounter)) option" where
  "FindById ident c refs = do {
     connection \<leftarrow> Find UInt32Hasher ident (IdMap c);
     Some (connection, add_reference connection refs) }"

definition GetConnectionCount :: "ConnectionIdMap \<Rightarrow> nat" where
  "GetConnectionCount c = GetCount (IdMap c)"

section \<open>Keys of peer to peer connections\<close>

definition FindByKey :: "u32 \<Rightarrow> (u32, nat) LightHashMap \<Rightarrow> (nat \<Rightarrow> RefCounter) \<Rightarrow> (nat option \<times> (nat \<Rightarrow> RefCounter)) option" where
  "FindByKey key m refs = do { connection \<leftarrow> Find UInt32Hasher key m; Some (connection, add_reference connection refs) }"

definition InsertByKey :: "u32 \<Rightarrow> nat \<Rightarrow> (u32, nat) LightHashMap \<Rightarrow> (bool \<times> (u32, nat) LightHashMap) option" where
  "InsertByKey = Insert UInt32Hasher"

definition RemoveByKey :: "u32 \<Rightarrow> nat \<Rightarrow> (u32, nat) LightHashMap \<Rightarrow> (bool \<times> (u32, nat) LightHashMap) option" where
  "RemoveByKey = Remove UInt32Hasher"

section \<open>Addresses\<close>

text \<open>\<open>RecentConnection\<close> is not initialised in the code; here it starts as an arbitrary value, \<open>None\<close> being
  the null pointer.\<close>

record 'a ConnectionAddrMap =
  AddressMap :: "('a, nat) LightHashMap"
  RecentAddress :: 'a
  RecentConnection :: "nat option"

record 'a address_ops =
  HashUDPAddress :: "'a \<Rightarrow> u32"
  is_unspecified :: "'a \<Rightarrow> bool"
  no_address :: 'a

definition FindByAddr :: "'a address_ops \<Rightarrow> 'a \<Rightarrow> 'a ConnectionAddrMap \<Rightarrow> (nat \<Rightarrow> RefCounter)
    \<Rightarrow> (nat option \<times> 'a ConnectionAddrMap \<times> (nat \<Rightarrow> RefCounter)) option" where
  "FindByAddr A addr c refs = do {
     (connection, c) \<leftarrow>
       (if addr = RecentAddress c then Some (RecentConnection c, c)
        else do {
          connection \<leftarrow> Find (HashUDPAddress A) addr (AddressMap c);
          Some (connection, case connection of None \<Rightarrow> c
                            | Some _ \<Rightarrow> c\<lparr>RecentAddress := addr, RecentConnection := connection\<rparr>) });
     Some (connection, c, add_reference connection refs) }"

definition InsertAddress :: "'a address_ops \<Rightarrow> 'a \<Rightarrow> nat \<Rightarrow> 'a ConnectionAddrMap \<Rightarrow> (bool \<times> 'a ConnectionAddrMap) option" where
  "InsertAddress A addr connection c =
     (if is_unspecified A addr then Some (False, c)
      else do { (new, m) \<leftarrow> Insert (HashUDPAddress A) addr connection (AddressMap c); Some (new, c\<lparr>AddressMap := m\<rparr>) })"

definition forget_recent :: "'a address_ops \<Rightarrow> nat \<Rightarrow> 'a ConnectionAddrMap \<Rightarrow> 'a ConnectionAddrMap" where
  "forget_recent A connection c =
     (if RecentConnection c = Some connection then c\<lparr>RecentAddress := no_address A, RecentConnection := None\<rparr> else c)"

definition RemoveAddress :: "'a address_ops \<Rightarrow> 'a \<Rightarrow> nat \<Rightarrow> 'a ConnectionAddrMap \<Rightarrow> (bool \<times> 'a ConnectionAddrMap) option" where
  "RemoveAddress A addr connection c =
     (if is_unspecified A addr then Some (False, c)
      else do {
        let c = forget_recent A connection c;
        (found, m) \<leftarrow> Remove (HashUDPAddress A) addr connection (AddressMap c);
        Some (found, c\<lparr>AddressMap := m\<rparr>) })"

definition ChangeAddress :: "'a address_ops \<Rightarrow> 'a \<Rightarrow> 'a \<Rightarrow> nat \<Rightarrow> 'a ConnectionAddrMap \<Rightarrow> (bool \<times> 'a ConnectionAddrMap) option" where
  "ChangeAddress A oldAddress newAddress connection c = do {
     let c = forget_recent A connection c;
     m \<leftarrow> (if is_unspecified A oldAddress then Some (AddressMap c)
          else do { (_, m) \<leftarrow> Remove (HashUDPAddress A) oldAddress connection (AddressMap c); Some m });
     (if is_unspecified A newAddress then Some (True, c\<lparr>AddressMap := m\<rparr>)
      else do { (new, m) \<leftarrow> Insert (HashUDPAddress A) newAddress connection m; Some (new, c\<lparr>AddressMap := m\<rparr>) }) }"

section \<open>The identifiers in use\<close>

abbreviation ids :: "ConnectionIdMap \<Rightarrow> u32 \<rightharpoonup> nat" where
  "ids c \<equiv> abs_map (IdMap c)"

abbreviation unused :: "ConnectionIdMap \<Rightarrow> u8 list" where
  "unused c \<equiv> take (BestUnusedCount c) (BestUnusedIds c)"

text \<open>The list of unused one byte identifiers is exactly the complement of those in the map.\<close>

definition id_inv :: "ConnectionIdMap \<Rightarrow> bool" where
  "id_inv c \<longleftrightarrow> hm_inv UInt32Hasher (IdMap c) \<and> length (BestUnusedIds c) = 256 \<and> BestUnusedCount c \<le> 256
     \<and> distinct (unused c) \<and> (\<forall>b. b \<in> set (unused c) \<longleftrightarrow> ids c (ucast b) = None)
     \<and> (\<forall>ident \<in> dom (ids c). ident < kConnectionIdCount) \<and> NextId c < kConnectionIdCount"

lemma ucast_u8_less: "(ucast (b :: u8) :: u32) < 256"
proof -
  have "unat b < 2 ^ LENGTH(8)" by (rule unsigned_less)
  then show ?thesis by (simp add: word_less_nat_alt unsigned_ucast_eq take_bit_nat_eq_self)
qed

lemma ucast_u8_inject: "(ucast (a :: u8) :: u32) = ucast b \<longleftrightarrow> a = b"
proof -
  have u: "unat (ucast x :: u32) = unat x" for x :: u8
  proof -
    have "unat x < 2 ^ LENGTH(8)" by (rule unsigned_less)
    then show ?thesis by (simp only: unsigned_ucast_eq) (simp add: take_bit_nat_eq_self)
  qed
  show ?thesis unfolding word_unat_eq_iff u ..
qed

lemma ucast_u8_inverse: "i < 256 \<Longrightarrow> ucast (ucast i :: u8) = (i :: u32)"
proof -
  assume "i < 256"
  then have "unat i < 2 ^ 8" by (simp add: word_less_nat_alt)
  then have "unat (ucast i :: u8) = unat i" by (simp only: unsigned_ucast_eq) (simp add: take_bit_nat_eq_self)
  then have "unat (ucast (ucast i :: u8) :: u32) = unat i"
    using \<open>unat i < 2 ^ 8\<close> by (simp only: unsigned_ucast_eq [of "ucast i :: u8"]) (simp add: take_bit_nat_eq_self)
  then show ?thesis by (rule word_unat_eq_iff [THEN iffD2])
qed

lemma ids_below:
  assumes "id_inv c"
  shows "finite (dom (ids c))" "GetCount (IdMap c) = card (dom (ids c))" "card (dom (ids c)) \<le> 2 ^ 24" "GetCount (IdMap c) < 2 ^ 30"
proof -
  have inv: "hm_inv UInt32Hasher (IdMap c)" using assms by (simp add: id_inv_def)
  show fin: "finite (dom (ids c))" and cnt: "GetCount (IdMap c) = card (dom (ids c))"
    using hash_map.count_eq [OF inv] by auto
  have "dom (ids c) \<subseteq> {ident. ident < kConnectionIdCount}" using assms by (auto simp: id_inv_def)
  moreover have "{ident. ident < kConnectionIdCount} = word_of_nat ` {..<2 ^ 24}"
  proof -
    have "ident \<in> word_of_nat ` {..<2 ^ 24}" if "ident < kConnectionIdCount" for ident
      using that by (intro image_eqI [of _ _ "unat ident"]) (simp_all add: word_less_nat_alt kConnectionIdCount_def)
    moreover have "word_of_nat n < kConnectionIdCount" if "n < 2 ^ 24" for n
      using that by (simp add: word_less_nat_alt kConnectionIdCount_def unat_of_nat)
    ultimately show ?thesis by auto
  qed
  ultimately have "card (dom (ids c)) \<le> card ((word_of_nat :: nat \<Rightarrow> u32) ` {..<2 ^ 24})" by (metis card_mono finite_imageI finite_lessThan)
  also have "\<dots> \<le> 2 ^ 24" using card_image_le [of "{..<2 ^ 24}" "word_of_nat :: nat \<Rightarrow> u32"] by simp
  finally show "card (dom (ids c)) \<le> 2 ^ 24" .
  then show "GetCount (IdMap c) < 2 ^ 30" using cnt by simp
qed

lemma all_bytes:
  assumes "distinct l" and "length l = 256"
  shows "set (l :: u8 list) = UNIV"
proof (rule card_subset_eq)
  have "card (UNIV :: u8 set) = 2 ^ 8" by (simp add: card_word)
  then show "card (set l) = card (UNIV :: u8 set)" using distinct_card [OF assms(1)] assms(2) by simp
qed simp_all

lemma init_inv: "id_inv (ConnectionIdMap_init t)" "ids (ConnectionIdMap_init t) = Map.empty"
proof -
  let ?l = "BestUnusedIds (ConnectionIdMap_init t)"
  let ?f = "\<lambda>i. ucast (255 - word_of_nat i + ucast (ucast (t mod 256) :: u8) :: u32) :: u8"
  have uc: "ucast (word_of_int n :: u32) = (word_of_int n :: u8)" for n
    by (intro bit_word_eqI) (auto simp: bit_simps)
  define r where "r = (ucast (t mod 256) :: u8)"
  have f: "?f i = 255 - word_of_nat i + r" for i
  proof -
    have "(255 - word_of_nat i + ucast r :: u32) = word_of_int (255 - int i + uint r)" unfolding ucast_eq [of r] by simp
    then have "?f i = word_of_int (255 - int i + uint r)" unfolding r_def [symmetric] by (simp only: uc)
    then show ?thesis by simp
  qed
  have "distinct (map ?f [0..<256])"
  proof -
    have "inj_on ?f {0..<256}"
    proof (rule inj_onI)
      fix i j assume ij: "i \<in> {0..<256}" "j \<in> {0..<256}" "?f i = ?f j"
      then have "(word_of_nat i :: u8) = word_of_nat j" unfolding f by simp
      then have "unat (word_of_nat i :: u8) = unat (word_of_nat j :: u8)" by (rule arg_cong)
      then show "i = j" using ij(1,2) by (simp add: unat_of_nat)
    qed
    then show ?thesis by (simp add: distinct_map)
  qed
  moreover have "?l = map ?f [0..<256]" by (simp add: ConnectionIdMap_init_def Let_def)
  ultimately have d: "distinct ?l" "length ?l = 256" by (simp only:) (simp add: ConnectionIdMap_init_def Let_def)
  show ids: "ids (ConnectionIdMap_init t) = Map.empty" by (simp add: ConnectionIdMap_init_def Let_def)
  show "id_inv (ConnectionIdMap_init t)"
    unfolding id_inv_def using d all_bytes [OF d] ids by (simp add: ConnectionIdMap_init_def Let_def kConnectionIdCount_def)
qed

text \<open>The search for a larger identifier goes around the range until it meets an unused one.\<close>

definition id_distance :: "u32 \<Rightarrow> u32 \<Rightarrow> nat" where
  "id_distance f n = (if n < f then unat f - unat n else unat f + 2 ^ 24 - unat n)"

lemma next_id_range: "256 \<le> next_id n" "next_id n < kConnectionIdCount"
  by (auto simp: next_id_def Let_def kConnectionIdCount_def not_le)

lemma id_distance_next:
  assumes "n < kConnectionIdCount" and "256 \<le> f" "f < kConnectionIdCount" and "next_id n \<noteq> f"
  shows "id_distance f (next_id n) < id_distance f n"
proof -
  have n: "unat n < 2 ^ 24" and f: "256 \<le> unat f" "unat f < 2 ^ 24"
    using assms(1-3) by (simp_all add: word_less_nat_alt word_le_nat_alt kConnectionIdCount_def)
  have s: "unat (n + 1) = unat n + 1" using n by (simp add: unat_word_ariths)
  have ne: "unat (next_id n) \<noteq> unat f" using assms(4) by (simp add: word_unat_eq_iff)
  have nx: "unat (next_id n) = (if unat n + 1 < 256 \<or> unat n + 1 \<ge> 2 ^ 24 then 256 else unat n + 1)"
    by (simp add: next_id_def Let_def word_less_nat_alt word_le_nat_alt s kConnectionIdCount_def)
  show ?thesis
    unfolding id_distance_def word_less_nat_alt using n f ne
    by (cases "unat n + 1 < 256 \<or> unat n + 1 \<ge> 2 ^ 24") (auto simp: nx)
qed

lemma find_unused_id_ok:
  assumes "hm_inv UInt32Hasher m" and "n < kConnectionIdCount" and "GetCount m < 2 ^ 30"
    and f: "256 \<le> f" "f < kConnectionIdCount" "abs_map m f = None"
  shows "\<exists>i m'. find_unused_id c n m = Some (i, m') \<and> hm_inv UInt32Hasher m' \<and> abs_map m i = None
    \<and> abs_map m' = (abs_map m)(i \<mapsto> c) \<and> 256 \<le> i \<and> i < kConnectionIdCount"
  using assms(1-3,6)
proof (induction "id_distance f n" arbitrary: n m rule: less_induct)
  case less
  obtain m1 where m1: "Insert UInt32Hasher (next_id n) c m = Some (abs_map m (next_id n) = None, m1)" "hm_inv UInt32Hasher m1"
    "abs_map m1 = (if abs_map m (next_id n) = None then (abs_map m)(next_id n \<mapsto> c) else abs_map m)"
    using hash_map.ins_eq [OF less.prems(1,3), of "next_id n" c] by blast
  show ?case
  proof (cases "abs_map m (next_id n) = None")
    case True
    then have "find_unused_id c n m = Some (next_id n, m1)"
      using m1(1) by (subst find_unused_id.simps) (simp add: Let_def)
    then show ?thesis using m1 True next_id_range by auto
  next
    case False
    then have "Insert UInt32Hasher (next_id n) c m = Some (False, m1)" using m1(1) by simp
    then have eq: "find_unused_id c n m = find_unused_id c (next_id n) m1"
      by (subst find_unused_id.simps) (simp add: Let_def)
    have ne: "next_id n \<noteq> f" using False less.prems(4) by auto
    have abs: "abs_map m1 = abs_map m" using m1(3) False by simp
    then have "GetCount m1 < 2 ^ 30"
      using hash_map.count_eq [OF m1(2)] hash_map.count_eq [OF less.prems(1)] less.prems(3) by simp
    then show ?thesis
      using less.hyps [OF id_distance_next [OF less.prems(2) f(1,2) ne] m1(2) next_id_range(2)] abs less.prems(4) unfolding eq by simp
  qed
qed

lemma unused_large_id:
  assumes inv: "id_inv c" and "BestUnusedCount c = 0" and "GetCount (IdMap c) < 2 ^ 24"
  shows "\<exists>f. 256 \<le> f \<and> f < kConnectionIdCount \<and> ids c f = None"
proof (rule ccontr)
  assume no: "\<not> ?thesis"
  have "ids c f \<noteq> None" if "f < kConnectionIdCount" for f
  proof (cases "f < 256")
    case True
    then have "ucast (ucast f :: u8) = f" by (rule ucast_u8_inverse)
    moreover have "ids c (ucast (ucast f :: u8)) \<noteq> None" using inv assms(2) by (auto simp: id_inv_def)
    ultimately show ?thesis by simp
  next
    case False
    then show ?thesis using no that by (auto simp: not_less)
  qed
  then have "(word_of_nat :: nat \<Rightarrow> u32) ` {..<2 ^ 24} \<subseteq> dom (ids c)"
    by (auto simp: word_less_nat_alt kConnectionIdCount_def unat_of_nat dom_def)
  moreover have "inj_on (word_of_nat :: nat \<Rightarrow> u32) {..<2 ^ 24}"
  proof (rule inj_onI)
    fix x y :: nat assume "x \<in> {..<2 ^ 24}" "y \<in> {..<2 ^ 24}" "(word_of_nat x :: u32) = word_of_nat y"
    moreover from this(3) have "unat (word_of_nat x :: u32) = unat (word_of_nat y :: u32)" by (rule arg_cong)
    ultimately show "x = y" unfolding unat_of_nat by simp
  qed
  ultimately have "card {..<(2 :: nat) ^ 24} \<le> card (dom (ids c))"
    using ids_below(1) [OF inv] by (metis card_image card_mono)
  then show False using assms(3) ids_below(2) [OF inv] by simp
qed

lemma take_unused:
  assumes "BestUnusedCount c = Suc n" and "length (BestUnusedIds c) = 256" and "BestUnusedCount c \<le> 256"
  shows "unused c = take n (BestUnusedIds c) @ [BestUnusedIds c ! n]"
  using assms by (simp add: take_Suc_conv_app_nth)

text \<open>An identifier is assigned exactly when there is one; it is new, it is entered in the map, and it is a one
  byte identifier if one of these is unused.\<close>

lemma InsertAndAssignId_ok:
  assumes inv: "id_inv c"
  shows "\<exists>r c'. InsertAndAssignId connection c = Some (r, c') \<and> id_inv c'
    \<and> (case r of
         None \<Rightarrow> ids c' = ids c \<and> card (dom (ids c)) = 2 ^ 24
       | Some i \<Rightarrow> ids c i = None \<and> ids c' = (ids c)(i \<mapsto> connection) \<and> i < kConnectionIdCount
           \<and> ((\<exists>b < 256. ids c b = None) \<longrightarrow> i < 256))"
proof (cases "BestUnusedCount c")
  case (Suc n)
  have hm: "hm_inv UInt32Hasher (IdMap c)" and len: "length (BestUnusedIds c) = 256" "BestUnusedCount c \<le> 256"
    and dist: "distinct (unused c)" and free: "\<And>b. b \<in> set (unused c) \<longleftrightarrow> ids c (ucast b) = None"
    using inv by (auto simp: id_inv_def)
  note tk = take_unused [OF Suc len]
  let ?b = "BestUnusedIds c ! n" let ?i = "ucast (BestUnusedIds c ! n) :: u32"
  have new: "ids c ?i = None" using free [of ?b] tk by simp
  obtain m1 where m1: "Insert UInt32Hasher ?i connection (IdMap c) = Some (True, m1)" "hm_inv UInt32Hasher m1"
    "abs_map m1 = (ids c)(?i \<mapsto> connection)"
    using hash_map.ins_eq [OF hm ids_below(4) [OF inv], of ?i connection] new by auto
  let ?c = "c\<lparr>BestUnusedCount := n, IdMap := m1\<rparr>"
  have r: "InsertAndAssignId connection c = Some (Some ?i, ?c)"
    using Suc m1(1) by (simp add: InsertAndAssignId_def Let_def)
  have small: "?i < 256" by (rule ucast_u8_less)
  then have lim: "?i < kConnectionIdCount" by (simp add: word_less_nat_alt kConnectionIdCount_def)
  have eq: "ucast b = ?i \<longleftrightarrow> b = ?b" for b :: u8
    by (rule ucast_u8_inject)
  have "id_inv ?c"
    unfolding id_inv_def using m1(2) len dist free tk lim inv Suc
    by (auto simp: m1(3) id_inv_def eq)
  with r new m1(3) small lim show ?thesis by auto
next
  case 0
  have hm: "hm_inv UInt32Hasher (IdMap c)" and len: "length (BestUnusedIds c) = 256"
    and free: "\<And>b :: u8. ids c (ucast b) \<noteq> None" and nx: "NextId c < kConnectionIdCount"
    using inv 0 by (auto simp: id_inv_def)
  have nosmall: "\<not> (\<exists>b < 256. ids c b = None)" using free ucast_u8_inverse by metis
  show ?thesis
  proof (cases "GetCount (IdMap c) \<ge> unat kConnectionIdCount")
    case True
    then have "card (dom (ids c)) = 2 ^ 24"
      using ids_below(2,3) [OF inv] by (simp add: kConnectionIdCount_def)
    with True 0 inv show ?thesis by (simp add: InsertAndAssignId_def)
  next
    case False
    then obtain f where f: "256 \<le> f" "f < kConnectionIdCount" "ids c f = None"
      using unused_large_id [OF inv 0] by (auto simp: kConnectionIdCount_def)
    obtain i m' where i: "find_unused_id connection (NextId c) (IdMap c) = Some (i, m')" "hm_inv UInt32Hasher m'" "ids c i = None"
      "abs_map m' = (ids c)(i \<mapsto> connection)" "256 \<le> i" "i < kConnectionIdCount"
      using find_unused_id_ok [OF hm nx ids_below(4) [OF inv] f] by blast
    let ?c = "c\<lparr>IdMap := m', NextId := i\<rparr>"
    have "InsertAndAssignId connection c = Some (Some i, ?c)" using 0 False i(1) by (simp add: InsertAndAssignId_def)
    moreover have "id_inv ?c"
      unfolding id_inv_def using i(2,4,6) len 0 free inv by (auto simp: id_inv_def)
    ultimately show ?thesis using i(3,4,6) nosmall by auto
  qed
qed

lemma RemoveAndUnassignId_ok:
  assumes inv: "id_inv c" and own: "ids c i = Some connection"
  shows "\<exists>c'. RemoveAndUnassignId i connection c = Some (True, c') \<and> id_inv c' \<and> ids c' = (ids c)(i := None)"
proof -
  have hm: "hm_inv UInt32Hasher (IdMap c)" and len: "length (BestUnusedIds c) = 256" "BestUnusedCount c \<le> 256"
    and dist: "distinct (unused c)" and free: "\<And>b. b \<in> set (unused c) \<longleftrightarrow> ids c (ucast b) = None"
    and lim: "i < kConnectionIdCount"
    using inv own by (auto simp: id_inv_def)
  have valid: "i \<noteq> TONK_INVALID_ID" using lim by (auto simp: TONK_INVALID_ID_def kConnectionIdCount_def)
  obtain m1 where m1: "Remove UInt32Hasher i connection (IdMap c) = Some (True, m1)" "hm_inv UInt32Hasher m1" "abs_map m1 = (ids c)(i := None)"
    using hash_map.del_eq [OF hm, of i connection] own by auto
  show ?thesis
  proof (cases "i < 256")
    case True
    define b where "b = (ucast i :: u8)"
    have b: "ucast b = i" unfolding b_def using True by (rule ucast_u8_inverse)
    have used: "b \<notin> set (unused c)" using free [of b] b own by simp
    have cnt: "BestUnusedCount c < 256"
    proof (rule ccontr)
      assume "\<not> ?thesis"
      then have "set (unused c) = UNIV" using all_bytes [OF dist] len by simp
      with used show False by auto
    qed
    let ?c = "c\<lparr>BestUnusedIds := (BestUnusedIds c)[BestUnusedCount c := b], BestUnusedCount := BestUnusedCount c + 1, IdMap := m1\<rparr>"
    have r: "RemoveAndUnassignId i connection c = Some (True, ?c)"
      using valid True cnt m1(1) by (simp add: RemoveAndUnassignId_def Let_def b_def)
    have un: "unused ?c = unused c @ [b]" using cnt len(1) by (simp add: take_Suc_conv_app_nth)
    have eq: "ucast b' = i \<longleftrightarrow> b' = b" for b' :: u8
      unfolding b [symmetric] by (rule ucast_u8_inject)
    have "id_inv ?c"
      unfolding id_inv_def un using m1(2) len cnt dist used free inv by (auto simp: m1(3) id_inv_def eq)
    with r m1(3) show ?thesis by auto
  next
    case False
    let ?c = "c\<lparr>IdMap := m1\<rparr>"
    have r: "RemoveAndUnassignId i connection c = Some (True, ?c)"
      using valid False m1(1) by (simp add: RemoveAndUnassignId_def Let_def)
    have "ucast b \<noteq> i" for b :: u8 using False ucast_u8_less [of b] by auto
    then have "id_inv ?c" using m1(2) inv by (auto simp: id_inv_def m1(3))
    with r m1(3) show ?thesis by auto
  qed
qed

text \<open>A removal by a connection that does not own the identifier fails, but puts the identifier on the list of
  unused ones all the same; assigning identifiers then fails although others are unused.\<close>

lemma foreign_removal_blocks_ids:
  assumes inv: "id_inv c" and own: "ids c i = Some owner" "connection \<noteq> owner" "i < 256" "BestUnusedCount c < 256"
  shows "\<exists>c' c''. RemoveAndUnassignId i connection c = Some (False, c') \<and> InsertAndAssignId k c' = Some (None, c'')
    \<and> ids c'' = ids c"
proof -
  have hm: "hm_inv UInt32Hasher (IdMap c)" and len: "length (BestUnusedIds c) = 256" using inv by (auto simp: id_inv_def)
  obtain m1 where m1: "Remove UInt32Hasher i connection (IdMap c) = Some (False, m1)" "hm_inv UInt32Hasher m1" "abs_map m1 = ids c"
    using hash_map.del_eq [OF hm, of i connection] own by auto
  let ?c = "c\<lparr>BestUnusedIds := (BestUnusedIds c)[BestUnusedCount c := ucast i], BestUnusedCount := BestUnusedCount c + 1, IdMap := m1\<rparr>"
  have valid: "i \<noteq> TONK_INVALID_ID" using own(3) by (auto simp: TONK_INVALID_ID_def word_less_nat_alt)
  have r: "RemoveAndUnassignId i connection c = Some (False, ?c)"
    using valid own m1(1) by (simp add: RemoveAndUnassignId_def Let_def)
  have "GetCount m1 < 2 ^ 30" using hash_map.count_eq [OF m1(2)] m1(3) ids_below(2,4) [OF inv] by simp
  then obtain m2 where m2: "Insert UInt32Hasher i k m1 = Some (False, m2)" "abs_map m2 = ids c"
    using hash_map.ins_eq [OF m1(2), of i k] m1(3) own(1) by auto
  have "InsertAndAssignId k ?c = Some (None, ?c\<lparr>IdMap := m2\<rparr>)"
    using m2(1) own(3,4) len by (simp add: InsertAndAssignId_def Let_def ucast_u8_inverse)
  with r m2(2) show ?thesis by auto
qed

section \<open>The address map\<close>

abbreviation addrs :: "'a ConnectionAddrMap \<Rightarrow> 'a \<rightharpoonup> nat" where
  "addrs c \<equiv> abs_map (AddressMap c)"

text \<open>The cache of the most recent address agrees with the map.\<close>

definition addr_inv :: "'a address_ops \<Rightarrow> 'a ConnectionAddrMap \<Rightarrow> bool" where
  "addr_inv A c \<longleftrightarrow> hm_inv (HashUDPAddress A) (AddressMap c)
     \<and> (is_unspecified A (RecentAddress c) \<or> RecentConnection c \<noteq> None \<and> addrs c (RecentAddress c) = RecentConnection c)"

lemma forget_recent_inv:
  assumes "addr_inv A c" and "is_unspecified A (no_address A)"
  shows "addr_inv A (forget_recent A k c)" "AddressMap (forget_recent A k c) = AddressMap c"
    "\<And>m. hm_inv (HashUDPAddress A) m \<Longrightarrow> (\<And>a k'. k' \<noteq> k \<Longrightarrow> addrs c a = Some k' \<Longrightarrow> abs_map m a = Some k')
       \<Longrightarrow> addr_inv A ((forget_recent A k c)\<lparr>AddressMap := m\<rparr>)"
  using assms by (auto simp: addr_inv_def forget_recent_def)

lemma FindByAddr_ok:
  assumes "addr_inv A c" and "\<not> is_unspecified A addr"
  shows "\<exists>c'. FindByAddr A addr c refs = Some (addrs c addr, c', add_reference (addrs c addr) refs)
    \<and> addr_inv A c' \<and> addrs c' = addrs c"
proof (cases "addr = RecentAddress c")
  case True
  then show ?thesis using assms by (auto simp: FindByAddr_def addr_inv_def)
next
  case False
  have "Find (HashUDPAddress A) addr (AddressMap c) = Some (addrs c addr)"
    using hash_map.look_eq assms(1) by (auto simp: addr_inv_def)
  then show ?thesis using False assms by (cases "addrs c addr") (auto simp: FindByAddr_def addr_inv_def)
qed

lemma InsertAddress_ok:
  assumes "addr_inv A c" and "GetCount (AddressMap c) < 2 ^ 30"
  shows "\<exists>c'. InsertAddress A addr k c = Some (\<not> is_unspecified A addr \<and> addrs c addr = None, c') \<and> addr_inv A c'
    \<and> addrs c' = (if \<not> is_unspecified A addr \<and> addrs c addr = None then (addrs c)(addr \<mapsto> k) else addrs c)"
proof (cases "is_unspecified A addr")
  case False
  have hm: "hm_inv (HashUDPAddress A) (AddressMap c)" using assms(1) by (simp add: addr_inv_def)
  obtain m where m: "Insert (HashUDPAddress A) addr k (AddressMap c) = Some (addrs c addr = None, m)" "hm_inv (HashUDPAddress A) m"
    "abs_map m = (if addrs c addr = None then (addrs c)(addr \<mapsto> k) else addrs c)"
    using hash_map.ins_eq [OF hm assms(2), of addr k] by blast
  let ?c = "c\<lparr>AddressMap := m\<rparr>"
  have "InsertAddress A addr k c = Some (addrs c addr = None, ?c)" using m(1) False by (simp add: InsertAddress_def)
  moreover have "addr_inv A ?c" using assms(1) m(2,3) by (auto simp: addr_inv_def)
  ultimately show ?thesis using m(3) False by auto
qed (use assms in \<open>simp add: InsertAddress_def\<close>)

lemma RemoveAddress_ok:
  assumes "addr_inv A c" and "is_unspecified A (no_address A)"
  shows "\<exists>c'. RemoveAddress A addr k c = Some (\<not> is_unspecified A addr \<and> addrs c addr = Some k, c') \<and> addr_inv A c'
    \<and> addrs c' = (if \<not> is_unspecified A addr \<and> addrs c addr = Some k then (addrs c)(addr := None) else addrs c)"
proof (cases "is_unspecified A addr")
  case False
  have hm: "hm_inv (HashUDPAddress A) (AddressMap c)" using assms(1) by (simp add: addr_inv_def)
  obtain m where m: "Remove (HashUDPAddress A) addr k (AddressMap c) = Some (addrs c addr = Some k, m)" "hm_inv (HashUDPAddress A) m"
    "abs_map m = (if addrs c addr = Some k then (addrs c)(addr := None) else addrs c)"
    using hash_map.del_eq [OF hm, of addr k] by blast
  let ?c = "(forget_recent A k c)\<lparr>AddressMap := m\<rparr>"
  have "RemoveAddress A addr k c = Some (addrs c addr = Some k, ?c)"
    using m(1) False forget_recent_inv(2) [OF assms] by (simp add: RemoveAddress_def Let_def)
  moreover have "addr_inv A ?c" using m(2,3) by (intro forget_recent_inv(3) [OF assms]) auto
  ultimately show ?thesis using m(3) False by auto
qed (use assms in \<open>simp add: RemoveAddress_def\<close>)

definition move_address :: "'a address_ops \<Rightarrow> 'a \<Rightarrow> nat \<Rightarrow> ('a \<rightharpoonup> nat) \<Rightarrow> ('a \<rightharpoonup> nat)" where
  "move_address A old k m = (if \<not> is_unspecified A old \<and> m old = Some k then m(old := None) else m)"

lemma ChangeAddress_ok:
  fixes old :: 'a and k :: nat
  assumes "addr_inv A c" and "is_unspecified A (no_address A)" and "GetCount (AddressMap c) < 2 ^ 30"
  defines "free \<equiv> move_address A old k (addrs c)"
  shows "\<exists>c'. ChangeAddress A old new k c = Some (is_unspecified A new \<or> free new = None, c') \<and> addr_inv A c'
    \<and> addrs c' = (if \<not> is_unspecified A new \<and> free new = None then free(new \<mapsto> k) else free)"
proof -
  have hm: "hm_inv (HashUDPAddress A) (AddressMap c)" using assms(1) by (simp add: addr_inv_def)
  obtain m where m: "(if is_unspecified A old then Some (AddressMap c)
      else do { (_, m) \<leftarrow> Remove (HashUDPAddress A) old k (AddressMap c); Some m }) = Some m"
    "hm_inv (HashUDPAddress A) m" "abs_map m = free" "GetCount m < 2 ^ 30"
  proof (cases "is_unspecified A old")
    case True
    then show thesis using that [of "AddressMap c"] hm assms(3) by (simp add: free_def move_address_def)
  next
    case False
    then show thesis
      using that hash_map.del_eq [OF hm, of old k] hash_map.count_del [OF hm, of old k] assms(3)
      by (fastforce simp: free_def move_address_def)
  qed
  have keep: "free a = Some k'" if "k' \<noteq> k" "addrs c a = Some k'" for a k'
    using that by (auto simp: free_def move_address_def)
  let ?f = "forget_recent A k c"
  show ?thesis
  proof (cases "is_unspecified A new")
    case True
    then have "ChangeAddress A old new k c = Some (True, ?f\<lparr>AddressMap := m\<rparr>)"
      unfolding ChangeAddress_def Let_def forget_recent_inv(2) [OF assms(1,2)] m(1) by simp
    moreover have "addr_inv A (?f\<lparr>AddressMap := m\<rparr>)" using m(2,3) keep by (intro forget_recent_inv(3) [OF assms(1,2)]) auto
    ultimately show ?thesis using True m(3) by auto
  next
    case False
    obtain m' where m': "Insert (HashUDPAddress A) new k m = Some (free new = None, m')" "hm_inv (HashUDPAddress A) m'"
      "abs_map m' = (if free new = None then free(new \<mapsto> k) else free)"
      using hash_map.ins_eq [OF m(2,4), of new k] m(3) by auto
    have "ChangeAddress A old new k c = Some (free new = None, ?f\<lparr>AddressMap := m'\<rparr>)"
      unfolding ChangeAddress_def Let_def forget_recent_inv(2) [OF assms(1,2)] m(1) using m'(1) False by simp
    moreover have "addr_inv A (?f\<lparr>AddressMap := m'\<rparr>)" 
    proof (rule forget_recent_inv(3) [OF assms(1,2) m'(2)])
      fix a k' assume "k' \<noteq> k" "addrs c a = Some k'"
      then have "free a = Some k'" by (rule keep)
      then show "abs_map m' a = Some k'" using m'(3) by auto
    qed
    ultimately show ?thesis using False m'(3) by auto
  qed
qed

section \<open>Properties\<close>

text \<open>The states that the program reaches: identifiers are removed by the connection that holds them.\<close>

inductive id_reachable :: "ConnectionIdMap \<Rightarrow> bool" where
  start: "id_reachable (ConnectionIdMap_init timeUsec)"
| insert: "id_reachable c \<Longrightarrow> InsertAndAssignId connection c = Some (r, c') \<Longrightarrow> id_reachable c'"
| remove: "id_reachable c \<Longrightarrow> ids c ident = Some connection \<Longrightarrow> RemoveAndUnassignId ident connection c = Some (r, c')
    \<Longrightarrow> id_reachable c'"

lemma id_reachable_inv: "id_reachable c \<Longrightarrow> id_inv c"
proof (induction rule: id_reachable.induct)
  case (insert c connection r c')
  then show ?case using InsertAndAssignId_ok [of c connection] by auto
next
  case (remove c ident connection r c')
  then show ?case using RemoveAndUnassignId_ok [of c ident connection] by auto
qed (rule init_inv)

text \<open>Property C22: connection identifiers.  In every state that sequences of assignments and removals reach,
  assigning an identifier returns; it fails only when all \<open>2^24\<close> identifiers are in use; the identifier it gives
  belonged to no connection, is a one byte identifier whenever one is unused, and leads to the new connection
  afterwards while all others keep theirs; removing it again restores the map.\<close>

theorem connection_ids_unique:
  assumes "id_reachable c"
  shows "\<exists>r c'. InsertAndAssignId connection c = Some (r, c')
    \<and> (case r of
         None \<Rightarrow> ids c' = ids c \<and> card (dom (ids c)) = 2 ^ 24
       | Some ident \<Rightarrow> ids c ident = None \<and> ident < kConnectionIdCount \<and> ((\<exists>b < 256. ids c b = None) \<longrightarrow> ident < 256)
           \<and> FindById ident c' refs = Some (Some connection, add_reference (Some connection) refs)
           \<and> ids c' = (ids c)(ident \<mapsto> connection)
           \<and> (\<exists>c''. RemoveAndUnassignId ident connection c' = Some (True, c'') \<and> ids c'' = ids c))"
proof -
  obtain r c' where r: "InsertAndAssignId connection c = Some (r, c')" "id_inv c'"
    "case r of None \<Rightarrow> ids c' = ids c \<and> card (dom (ids c)) = 2 ^ 24
     | Some i \<Rightarrow> ids c i = None \<and> ids c' = (ids c)(i \<mapsto> connection) \<and> i < kConnectionIdCount \<and> ((\<exists>b < 256. ids c b = None) \<longrightarrow> i < 256)"
    using InsertAndAssignId_ok [OF id_reachable_inv [OF assms], of connection] by blast
  show ?thesis
  proof (cases r)
    case None
    then show ?thesis using r by auto
  next
    case (Some i)
    then have i: "ids c i = None" "ids c' = (ids c)(i \<mapsto> connection)" using r(3) by auto
    have "Find UInt32Hasher i (IdMap c') = Some (ids c' i)"
      using r(2) by (intro hash_map.look_eq) (simp add: id_inv_def)
    then have "FindById i c' refs = Some (Some connection, add_reference (Some connection) refs)"
      using i(2) by (simp add: FindById_def)
    moreover obtain c'' where "RemoveAndUnassignId i connection c' = Some (True, c'')" "ids c'' = (ids c')(i := None)"
      using RemoveAndUnassignId_ok [OF r(2), of i connection] i(2) by auto
    moreover have "(ids c')(i := None) = ids c" using i by (auto simp: fun_eq_iff)
    ultimately show ?thesis using r(1,3) Some by auto
  qed
qed

theorem connection_ids_unique_witness:
  "\<exists>r c'. InsertAndAssignId 7 (ConnectionIdMap_init 5) = Some (r, c') \<and> r \<noteq> None"
proof -
  have e: "ids (ConnectionIdMap_init 5) = Map.empty" by (rule init_inv)
  then have "card (dom (ids (ConnectionIdMap_init 5))) \<noteq> 2 ^ 24" by simp
  then show ?thesis
    using connection_ids_unique [OF id_reachable.start [of 5], of 7 undefined] by (auto split: option.splits)
qed

inductive addr_reachable :: "'a address_ops \<Rightarrow> 'a ConnectionAddrMap \<Rightarrow> bool" for A where
  start: "addr_reachable A \<lparr>AddressMap = LightHashMap_init, RecentAddress = no_address A, RecentConnection = garbage\<rparr>"
| find: "addr_reachable A c \<Longrightarrow> \<not> is_unspecified A addr \<Longrightarrow> FindByAddr A addr c refs = Some (r, c', refs') \<Longrightarrow> addr_reachable A c'"
| insert: "addr_reachable A c \<Longrightarrow> GetCount (AddressMap c) < 2 ^ 30 \<Longrightarrow> InsertAddress A addr k c = Some (r, c') \<Longrightarrow> addr_reachable A c'"
| remove: "addr_reachable A c \<Longrightarrow> RemoveAddress A addr k c = Some (r, c') \<Longrightarrow> addr_reachable A c'"
| change: "addr_reachable A c \<Longrightarrow> GetCount (AddressMap c) < 2 ^ 30 \<Longrightarrow> ChangeAddress A old new k c = Some (r, c')
    \<Longrightarrow> addr_reachable A c'"

lemma addr_reachable_inv:
  assumes "is_unspecified A (no_address A)"
  shows "addr_reachable A c \<Longrightarrow> addr_inv A c"
proof (induction rule: addr_reachable.induct)
  case (start garbage)
  then show ?case using assms by (simp add: addr_inv_def)
next
  case (find c addr refs r c' refs')
  then show ?case using FindByAddr_ok [of A c addr refs] by auto
next
  case (insert c addr k r c')
  then show ?case using InsertAddress_ok [of A c addr k] by auto
next
  case (remove c addr k r c')
  then show ?case using RemoveAddress_ok [OF _ assms, of c addr k] by auto
next
  case (change c old new k r c')
  then show ?case using ChangeAddress_ok [OF _ assms, where c = c and old = old and k = k and new = new] by auto
qed

text \<open>Property C23: the address map and its cache.  In every state that lookups, insertions, removals and
  address changes reach (from an uninitialised \<open>RecentConnection\<close>), a lookup gives what the map holds, whether or not
  it is answered by the cache of the most recent address, and takes a reference for the connection it
  finds; a change of address frees the old address if it belongs to the connection and enters the new one
  if that is unused.\<close>

theorem address_cache_transparent:
  assumes "is_unspecified A (no_address A)" and "addr_reachable A c" and "GetCount (AddressMap c) < 2 ^ 30"
    and "\<not> is_unspecified A addr"
  shows "(\<exists>c'. FindByAddr A addr c refs = Some (addrs c addr, c', add_reference (addrs c addr) refs) \<and> addrs c' = addrs c)
    \<and> (\<exists>c'. ChangeAddress A old addr k c = Some (move_address A old k (addrs c) addr = None, c')
         \<and> addrs c' = (let m = move_address A old k (addrs c) in if m addr = None then m(addr \<mapsto> k) else m))"
  using FindByAddr_ok [OF addr_reachable_inv [OF assms(1,2)] assms(4), of refs]
    ChangeAddress_ok [OF addr_reachable_inv [OF assms(1,2)] assms(1,3), where old = old and k = k and new = addr] assms(4)
  by (auto simp: Let_def)

definition number_addresses :: "nat address_ops" where
  "number_addresses = \<lparr>HashUDPAddress = word_of_nat, is_unspecified = (\<lambda>a. a = 0), no_address = 0\<rparr>"

theorem address_cache_transparent_witness:
  "\<exists>c'. ChangeAddress number_addresses 0 9 3 \<lparr>AddressMap = LightHashMap_init, RecentAddress = 0, RecentConnection = Some 12\<rparr> = Some (True, c')
     \<and> addrs c' = [9 \<mapsto> 3]"
  using address_cache_transparent [OF _ addr_reachable.start, of number_addresses "Some 12" 9 undefined 0 3]
  by (auto simp: number_addresses_def move_address_def Let_def)

end
