(* ===== verification/Flood_Detector.thy ===== *)
theory Flood_Detector
  imports Light_Hash_Map Siamese_Common
begin

text \<open>
  The protection against connection floods, \<open>TonkineseFlood.h\<close> and \<open>TonkineseFlood.cpp\<close>: a limit on the connections
  of each address, and cookies that a client has to return while connections arrive too fast.

  Addresses are a type parameter.  The record \<open>flood_deps\<close> holds the functions of other code: the hash of
  an address, the address without its port, and the keyed hash \<open>t1ha_local\<close> over the words of a key.
  The time of a request is an argument.
\<close>

unbundle bit_operations_syntax

section \<open>The class\<close>

datatype FloodReaction = Allow | Cookie u64 | Deny

definition kBinCount :: nat where "kBinCount = 2"
definition kBinDurationUsec :: nat where "kBinDurationUsec = 60 * 1000 * 1000"
definition kKeyCount :: nat where "kKeyCount = 2"
definition kKeyBytes :: nat where "kKeyBytes = 16"
definition kKeyWords :: nat where "kKeyWords = kKeyBytes div 4"
definition kKeyRotationIntervalUsec :: nat where "kKeyRotationIntervalUsec = 5 * 1000 * 1000"

record 'a FloodDetector =
  MaximumConnectionsPerAddress :: u32
  FloodConnectionsPerMinute :: u32
  CountMap :: "('a, u32) LightHashMap"
  ConnectionCountA :: u32
  ConnectionCountB :: u32
  BinStartUsec :: u64
  Keys :: "u32 list list"
  KeyGen :: PCGRandom
  LastKeyUpdateUsec :: u64
  LastUpdatedKeyIndex :: nat

record 'a flood_deps =
  HashUDPAddress :: "'a \<Rightarrow> u64"
  without_port :: "'a \<Rightarrow> 'a"
  t1ha_local :: "u32 list \<Rightarrow> u64 \<Rightarrow> u64"

definition UDPAddressHasher :: "'a flood_deps \<Rightarrow> 'a \<Rightarrow> u32" where
  "UDPAddressHasher E a = ucast (HashUDPAddress E a)"

text \<open>A new key: \<open>n\<close> words from the generator.\<close>

fun generate_key :: "nat \<Rightarrow> PCGRandom \<Rightarrow> u32 list \<times> PCGRandom" where
  "generate_key 0 g = ([], g)"
| "generate_key (Suc n) g = (case Next g of (w, g) \<Rightarrow> case generate_key n g of (ws, g) \<Rightarrow> (w # ws, g))"

fun generate_keys :: "nat \<Rightarrow> PCGRandom \<Rightarrow> u32 list list \<times> PCGRandom" where
  "generate_keys 0 g = ([], g)"
| "generate_keys (Suc n) g = (case generate_key kKeyWords g of (k, g) \<Rightarrow> case generate_keys n g of (ks, g) \<Rightarrow> (k # ks, g))"

text \<open>\<open>master_keys\<close> is the result of the system's random generator, \<open>None\<close> on failure.\<close>

definition flood_init :: "u32 \<Rightarrow> u32 \<Rightarrow> (u64 \<times> u64) option \<Rightarrow> 'a FloodDetector option" where
  "flood_init maxPerAddr minuteFloodThresh master_keys =
     (case master_keys of
        None \<Rightarrow> None
      | Some (k0, k1) \<Rightarrow>
          case generate_keys kKeyCount (Seed k0 k1) of (keys, g) \<Rightarrow>
          Some \<lparr>MaximumConnectionsPerAddress = maxPerAddr, FloodConnectionsPerMinute = minuteFloodThresh,
                CountMap = LightHashMap_init, ConnectionCountA = 0, ConnectionCountB = 0, BinStartUsec = 0,
                Keys = keys, KeyGen = g, LastKeyUpdateUsec = 0, LastUpdatedKeyIndex = 0\<rparr>)"

definition set_node_value :: "nat \<Rightarrow> 'v \<Rightarrow> ('k, 'v) LightHashMap \<Rightarrow> ('k, 'v) LightHashMap" where
  "set_node_value i v m =
     m\<lparr>m_values := (m_values m)[i := map_option (\<lambda>(k, _). (k, v)) (m_values m ! i)]\<rparr>"

definition count_connection :: "'a flood_deps \<Rightarrow> 'a \<Rightarrow> nat option \<Rightarrow> u32 \<Rightarrow> 'a FloodDetector \<Rightarrow> 'a FloodDetector option" where
  "count_connection E ipaddr mapIndex ipConnectionCount s =
     (case mapIndex of
        None \<Rightarrow> do { (_, m) \<leftarrow> hash_insert (UDPAddressHasher E) ipaddr 1 (CountMap s); Some (s\<lparr>CountMap := m\<rparr>) }
      | Some i \<Rightarrow> Some (s\<lparr>CountMap := set_node_value i (ipConnectionCount + 1) (CountMap s)\<rparr>))"

definition update_rate :: "u64 \<Rightarrow> 'a FloodDetector \<Rightarrow> 'a FloodDetector" where
  "update_rate nowUsec s =
     (let s = (if nowUsec - BinStartUsec s \<ge> word_of_nat (kBinCount * kBinDurationUsec)
               then s\<lparr>BinStartUsec := nowUsec - word_of_nat kBinDurationUsec, ConnectionCountA := ConnectionCountB s, ConnectionCountB := 0\<rparr>
               else s)
      in s\<lparr>ConnectionCountB := ConnectionCountB s + 1\<rparr>)"

definition rotate_keys :: "u64 \<Rightarrow> 'a FloodDetector \<Rightarrow> 'a FloodDetector" where
  "rotate_keys nowUsec s =
     (if nowUsec - LastKeyUpdateUsec s \<ge> word_of_nat kKeyRotationIntervalUsec then
        (let i = LastUpdatedKeyIndex s XOR 1 in
         case generate_key kKeyWords (KeyGen s) of (k, g) \<Rightarrow>
           s\<lparr>LastKeyUpdateUsec := nowUsec, LastUpdatedKeyIndex := i, Keys := (Keys s)[i := k], KeyGen := g\<rparr>)
      else s)"

definition OnConnectionRequest :: "'a flood_deps \<Rightarrow> u64 \<Rightarrow> 'a \<Rightarrow> u64 \<Rightarrow> 'a FloodDetector \<Rightarrow> (FloodReaction \<times> 'a FloodDetector) option" where
  "OnConnectionRequest E nowUsec source key s = do {
     let ipaddr = without_port E source;
     mapIndex \<leftarrow> find_index (UDPAddressHasher E) ipaddr (CountMap s);
     let ipConnectionCount = (case mapIndex of None \<Rightarrow> 0 | Some i \<Rightarrow> (case m_values (CountMap s) ! i of None \<Rightarrow> 0 | Some (_, n) \<Rightarrow> n));
     (if mapIndex \<noteq> None \<and> ipConnectionCount \<ge> MaximumConnectionsPerAddress s then Some (Deny, s)
      else do {
        let s = update_rate nowUsec s;
        (if ConnectionCountA s \<le> FloodConnectionsPerMinute s \<and> ConnectionCountB s \<le> FloodConnectionsPerMinute s then do {
           s \<leftarrow> count_connection E ipaddr mapIndex ipConnectionCount s;
           Some (Allow, s) }
         else do {
           let s = rotate_keys nowUsec s;
           let key_index = unat (key AND 1);
           let source_hash = HashUDPAddress E source;
           let expected_cookie = t1ha_local E (Keys s ! key_index) source_hash;
           (if drop_bit 1 (expected_cookie XOR key) = 0 then do {
              s \<leftarrow> count_connection E ipaddr mapIndex ipConnectionCount s;
              Some (Allow, s) }
            else
              let expected_cookie = (if key_index \<noteq> LastUpdatedKeyIndex s
                    then t1ha_local E (Keys s ! LastUpdatedKeyIndex s) source_hash else expected_cookie)
              in Some (Cookie ((expected_cookie AND NOT 1) OR word_of_nat (LastUpdatedKeyIndex s)), s)) }) }) }"

definition OnDisconnect :: "'a flood_deps \<Rightarrow> 'a \<Rightarrow> 'a FloodDetector \<Rightarrow> 'a FloodDetector option" where
  "OnDisconnect E source s = do {
     let ipaddr = without_port E source;
     mapIndex \<leftarrow> find_index (UDPAddressHasher E) ipaddr (CountMap s);
     (case mapIndex of
        None \<Rightarrow> Some s
      | Some i \<Rightarrow>
          let ipConnectionCount = (case m_values (CountMap s) ! i of None \<Rightarrow> 0 | Some (_, n) \<Rightarrow> n) in
          if ipConnectionCount \<le> 1 then do {
            m \<leftarrow> erase_index (UDPAddressHasher E) i (CountMap s);
            Some (s\<lparr>CountMap := m\<rparr>) }
          else Some (s\<lparr>CountMap := set_node_value i (ipConnectionCount - 1) (CountMap s)\<rparr>)) }"

section \<open>The connection counts\<close>

definition flood_inv :: "'a flood_deps \<Rightarrow> 'a FloodDetector \<Rightarrow> bool" where
  "flood_inv E s \<longleftrightarrow> hm_inv (UDPAddressHasher E) (CountMap s) \<and> length (Keys s) = 2 \<and> LastUpdatedKeyIndex s < 2
     \<and> 0 < MaximumConnectionsPerAddress s
     \<and> (\<forall>a n. abs_map (CountMap s) a = Some n \<longrightarrow> 0 < n \<and> n \<le> MaximumConnectionsPerAddress s)"

text \<open>Changing the value of a node keeps the table in order.\<close>

lemma set_node_value_ok:
  assumes inv: "hm_inv h m" and i: "i < length (m_values m)" "m_values m ! i = Some (k, w)"
  shows "hm_inv h (set_node_value i v m)" "abs_map (set_node_value i v m) = (abs_map m)(k \<mapsto> v)"
proof -
  let ?T = "m_values m" let ?R = "(m_values m)[i := Some (k, v)]"
  have R: "set_node_value i v m = m\<lparr>m_values := ?R\<rparr>" by (simp add: set_node_value_def i)
  have nth: "?R ! x = (if x = i then Some (k, v) else ?T ! x)" if "x < length ?T" for x using that by simp
  have occ: "occupied ?R = occupied ?T" using i by (auto simp: occupied_def nth split: if_splits)
  have u: "keys_unique ?T" and po: "probes_ok (hash_key h (m_hash_shift m)) {} ?T" using inv by (simp_all add: hm_inv_def)
  have uR: "keys_unique ?R"
    using u i unfolding keys_unique_def length_list_update by (auto simp: nth split: if_splits)
  have poR: "probes_ok (hash_key h (m_hash_shift m)) {} ?R"
    using po i unfolding probes_ok_def length_list_update by (auto simp: nth split: if_splits)
  show "hm_inv h (set_node_value i v m)" unfolding R using inv uR poR occ by (auto simp: hm_inv_def)
  show "abs_map (set_node_value i v m) = (abs_map m)(k \<mapsto> v)"
  proof
    fix k'
    have "table_map ?R k' = Some v' \<longleftrightarrow> ((table_map ?T)(k \<mapsto> v)) k' = Some v'" for v'
    proof (cases "k' = k")
      case True
      have "(\<exists>x < length ?R. ?R ! x = Some (k, v')) \<longleftrightarrow> v' = v"
        using u i unfolding keys_unique_def length_list_update by (metis nth option.inject prod.inject)
      with True show ?thesis unfolding table_map_eq [OF uR] by auto
    next
      case False
      then have "(\<exists>x < length ?R. ?R ! x = Some (k', v')) \<longleftrightarrow> (\<exists>x < length ?T. ?T ! x = Some (k', v'))"
        using i unfolding length_list_update by (metis nth option.inject prod.inject)
      with False show ?thesis unfolding table_map_eq [OF uR] by (simp add: table_map_eq [OF u])
    qed
    then have "table_map ?R k' = ((table_map ?T)(k \<mapsto> v)) k'" by (metis option.exhaust)
    then show "abs_map (set_node_value i v m) k' = ((abs_map m)(k \<mapsto> v)) k'" by (simp add: R abs_map_def)
  qed
qed

definition connections :: "'a FloodDetector \<Rightarrow> 'a \<Rightarrow> nat" where
  "connections s a = (case abs_map (CountMap s) a of None \<Rightarrow> 0 | Some n \<Rightarrow> unat n)"

lemma count_connection_ok:
  assumes inv: "hm_inv (UDPAddressHasher E) (CountMap s)" and "GetCount (CountMap s) < 2 ^ 30"
    and f: "find_index (UDPAddressHasher E) a (CountMap s) = Some j"
    and n: "n = (case abs_map (CountMap s) a of None \<Rightarrow> 0 | Some n \<Rightarrow> n)"
  shows "\<exists>m. count_connection E a j n s = Some (s\<lparr>CountMap := m\<rparr>) \<and> hm_inv (UDPAddressHasher E) m
    \<and> abs_map m = (abs_map (CountMap s))(a \<mapsto> n + 1)"
proof (cases j)
  case None
  then have a: "abs_map (CountMap s) a = None" using find_index_eq [OF inv, of a] f by auto
  then obtain i new m where "hash_insert (UDPAddressHasher E) a 1 (CountMap s) = Some ((i, new), m)" "hm_inv (UDPAddressHasher E) m"
    "abs_map m = (abs_map (CountMap s))(a \<mapsto> 1)"
    using hash_insert_eq [OF inv, of a 1] assms(2) by (auto simp: GetCount_def)
  then show ?thesis using None n a by (intro exI [of _ m]) (simp add: count_connection_def)
next
  case (Some i)
  then obtain w where "i < length (m_values (CountMap s))" "m_values (CountMap s) ! i = Some (a, w)"
    using find_index_eq [OF inv, of a] f by auto
  from set_node_value_ok [OF inv this, of "n + 1"] Some show ?thesis
    by (intro exI [of _ "set_node_value i (n + 1) (CountMap s)"]) (simp add: count_connection_def)
qed

lemma update_rate_keeps [simp]:
  "CountMap (update_rate t s) = CountMap s" "Keys (update_rate t s) = Keys s" "KeyGen (update_rate t s) = KeyGen s"
  "LastKeyUpdateUsec (update_rate t s) = LastKeyUpdateUsec s" "LastUpdatedKeyIndex (update_rate t s) = LastUpdatedKeyIndex s"
  "MaximumConnectionsPerAddress (update_rate t s) = MaximumConnectionsPerAddress s"
  by (simp_all add: update_rate_def Let_def)

lemma rotate_keys_keeps [simp]:
  "CountMap (rotate_keys t s) = CountMap s" "length (Keys (rotate_keys t s)) = length (Keys s)"
  "MaximumConnectionsPerAddress (rotate_keys t s) = MaximumConnectionsPerAddress s"
  by (simp_all add: rotate_keys_def Let_def split: prod.split)

lemma rotate_keys_index: "LastUpdatedKeyIndex s < 2 \<Longrightarrow> LastUpdatedKeyIndex (rotate_keys t s) < 2"
proof -
  assume "LastUpdatedKeyIndex s < 2"
  then have "LastUpdatedKeyIndex s = 0 \<or> LastUpdatedKeyIndex s = 1" by auto
  then show ?thesis by (auto simp: rotate_keys_def Let_def split: prod.split)
qed

lemma counted:
  assumes inv: "flood_inv E s" and "GetCount (CountMap s) < 2 ^ 30"
    and f: "find_index (UDPAddressHasher E) a (CountMap s) = Some j"
    and n: "n = (case abs_map (CountMap s) a of None \<Rightarrow> 0 | Some n \<Rightarrow> n)" "n < MaximumConnectionsPerAddress s"
  shows "\<exists>s'. count_connection E a j n s = Some s' \<and> flood_inv E s' \<and> MaximumConnectionsPerAddress s' = MaximumConnectionsPerAddress s
    \<and> Keys s' = Keys s \<and> LastUpdatedKeyIndex s' = LastUpdatedKeyIndex s \<and> LastKeyUpdateUsec s' = LastKeyUpdateUsec s
    \<and> connections s' = (connections s)(a := connections s a + 1)"
proof -
  obtain m where m: "count_connection E a j n s = Some (s\<lparr>CountMap := m\<rparr>)" "hm_inv (UDPAddressHasher E) m"
    "abs_map m = (abs_map (CountMap s))(a \<mapsto> n + 1)"
    using count_connection_ok [OF _ assms(2) f n(1)] inv by (auto simp: flood_inv_def)
  have "unat n < unat (MaximumConnectionsPerAddress s)" using n(2) by (simp add: word_less_nat_alt)
  moreover have "unat (MaximumConnectionsPerAddress s) < 2 ^ LENGTH(32)" by (rule unsigned_less)
  ultimately have n1: "unat (n + 1) = unat n + 1" by (simp add: unat_word_ariths)
  then have "0 < n + 1" "n + 1 \<le> MaximumConnectionsPerAddress s"
    using n(2) by (simp_all add: word_less_nat_alt word_le_nat_alt)
  then have "flood_inv E (s\<lparr>CountMap := m\<rparr>)" using inv m(2,3) by (auto simp: flood_inv_def)
  moreover have "connections (s\<lparr>CountMap := m\<rparr>) = (connections s)(a := connections s a + 1)"
    using n1 n(1) by (auto simp: fun_eq_iff connections_def m(3) split: option.splits)
  ultimately show ?thesis using m(1) by auto
qed

text \<open>A request, with the lookup done.\<close>

definition decide :: "'a flood_deps \<Rightarrow> u64 \<Rightarrow> 'a \<Rightarrow> u64 \<Rightarrow> nat option \<Rightarrow> u32 \<Rightarrow> 'a FloodDetector \<Rightarrow> (FloodReaction \<times> 'a FloodDetector) option" where
  "decide E t source key j n s =
     (let s = update_rate t s in
      if ConnectionCountA s \<le> FloodConnectionsPerMinute s \<and> ConnectionCountB s \<le> FloodConnectionsPerMinute s
      then map_option (Pair Allow) (count_connection E (without_port E source) j n s)
      else let s = rotate_keys t s in
        if drop_bit 1 (t1ha_local E (Keys s ! unat (key AND 1)) (HashUDPAddress E source) XOR key) = 0
        then map_option (Pair Allow) (count_connection E (without_port E source) j n s)
        else Some (Cookie ((t1ha_local E (Keys s ! LastUpdatedKeyIndex s) (HashUDPAddress E source) AND NOT 1)
                      OR word_of_nat (LastUpdatedKeyIndex s)), s))"

lemma OnConnectionRequest_eq:
  fixes source :: 'a
  assumes inv: "flood_inv E s"
  defines "a \<equiv> without_port E source"
  shows "\<exists>j n. find_index (UDPAddressHasher E) a (CountMap s) = Some j
    \<and> n = (case abs_map (CountMap s) a of None \<Rightarrow> 0 | Some n \<Rightarrow> n) \<and> connections s a = unat n
    \<and> OnConnectionRequest E t source key s =
        (if n = MaximumConnectionsPerAddress s then Some (Deny, s) else decide E t source key j n s)
    \<and> n \<le> MaximumConnectionsPerAddress s"
proof -
  have hm: "hm_inv (UDPAddressHasher E) (CountMap s)" using inv by (simp add: flood_inv_def)
  obtain j where j: "find_index (UDPAddressHasher E) a (CountMap s) = Some j"
    "case j of None \<Rightarrow> abs_map (CountMap s) a = None
     | Some i \<Rightarrow> i < length (m_values (CountMap s)) \<and> (\<exists>v. m_values (CountMap s) ! i = Some (a, v) \<and> abs_map (CountMap s) a = Some v)"
    using find_index_eq [OF hm, of a] by blast
  define n where "n = (case abs_map (CountMap s) a of None \<Rightarrow> 0 | Some n \<Rightarrow> n)"
  have n: "(case j of None \<Rightarrow> 0 | Some i \<Rightarrow> (case m_values (CountMap s) ! i of None \<Rightarrow> 0 | Some (_, n) \<Rightarrow> n)) = n"
    using j(2) by (auto simp: n_def split: option.splits)
  have max: "n \<le> MaximumConnectionsPerAddress s" using inv by (auto simp: n_def flood_inv_def split: option.splits)
  have deny: "j \<noteq> None \<and> MaximumConnectionsPerAddress s \<le> n \<longleftrightarrow> n = MaximumConnectionsPerAddress s"
    using max inv j(2) by (auto simp: n_def flood_inv_def split: option.splits)
  have "OnConnectionRequest E t source key s =
      (if n = MaximumConnectionsPerAddress s then Some (Deny, s) else decide E t source key j n s)"
    unfolding OnConnectionRequest_def Let_def decide_def a_def [symmetric] j(1) Option.bind.bind_lunit n deny
    by (auto simp: map_option_case split: option.split)
  moreover have "connections s a = unat n" by (auto simp: connections_def n_def split: option.splits)
  ultimately show ?thesis using j(1) max n_def by blast
qed

lemma flood_inv_keeps:
  assumes "flood_inv E s"
  shows "flood_inv E (update_rate t s)" "flood_inv E (rotate_keys t (update_rate t s))"
    "connections (update_rate t s) = connections s" "connections (rotate_keys t (update_rate t s)) = connections s"
  using assms rotate_keys_index [of "update_rate t s" t] by (auto simp: flood_inv_def connections_def)

definition key_state :: "'a FloodDetector \<Rightarrow> u32 list list \<times> nat \<times> u64" where
  "key_state s = (Keys s, LastUpdatedKeyIndex s, LastKeyUpdateUsec s)"

lemma key_state_keeps: "key_state (update_rate t s) = key_state s" "key_state (rotate_keys t (update_rate t s)) = key_state (rotate_keys t s)"
  by (simp_all add: key_state_def rotate_keys_def Let_def split: prod.split)

lemma decide_ok:
  assumes inv: "flood_inv E s" and room: "GetCount (CountMap s) < 2 ^ 30"
    and f: "find_index (UDPAddressHasher E) (without_port E source) (CountMap s) = Some j"
    and n: "n = (case abs_map (CountMap s) (without_port E source) of None \<Rightarrow> 0 | Some n \<Rightarrow> n)" "n < MaximumConnectionsPerAddress s"
  shows "\<exists>r s'. decide E t source key j n s = Some (r, s') \<and> r \<noteq> Deny \<and> flood_inv E s'
    \<and> MaximumConnectionsPerAddress s' = MaximumConnectionsPerAddress s
    \<and> connections s' = (if r = Allow then (connections s)(without_port E source := connections s (without_port E source) + 1)
                        else connections s)
    \<and> (key_state s' = key_state s \<or> key_state s' = key_state (rotate_keys t s))"
proof -
  let ?a = "without_port E source"
  define s1 s2 where "s1 = update_rate t s" and "s2 = rotate_keys t s1"
  note keeps = flood_inv_keeps [OF inv, of t, folded s1_def s2_def]
  have allow: "\<exists>s'. map_option (Pair Allow) (count_connection E ?a j n z) = Some (Allow, s') \<and> flood_inv E s'
      \<and> MaximumConnectionsPerAddress s' = MaximumConnectionsPerAddress s
      \<and> connections s' = (connections s)(?a := connections s ?a + 1) \<and> key_state s' = key_state z"
    if z: "flood_inv E z" "CountMap z = CountMap s" "connections z = connections s"
      "MaximumConnectionsPerAddress z = MaximumConnectionsPerAddress s" for z
    using counted [OF z(1), of ?a j n] room f n z by (auto simp: key_state_def)
  have c: "CountMap s1 = CountMap s" "CountMap s2 = CountMap s" "MaximumConnectionsPerAddress s1 = MaximumConnectionsPerAddress s"
    "MaximumConnectionsPerAddress s2 = MaximumConnectionsPerAddress s" by (simp_all add: s1_def s2_def)
  obtain a1 where a1: "map_option (Pair Allow) (count_connection E ?a j n s1) = Some (Allow, a1)" "flood_inv E a1"
      "MaximumConnectionsPerAddress a1 = MaximumConnectionsPerAddress s"
      "connections a1 = (connections s)(?a := connections s ?a + 1)" "key_state a1 = key_state s1"
    using allow [OF keeps(1) c(1) keeps(3) c(3)] by blast
  obtain a2 where a2: "map_option (Pair Allow) (count_connection E ?a j n s2) = Some (Allow, a2)" "flood_inv E a2"
      "MaximumConnectionsPerAddress a2 = MaximumConnectionsPerAddress s"
      "connections a2 = (connections s)(?a := connections s ?a + 1)" "key_state a2 = key_state s2"
    using allow [OF keeps(2) c(2) keeps(4) c(4)] by blast
  have ks: "key_state s1 = key_state s" "key_state s2 = key_state (rotate_keys t s)"
    by (simp_all add: s1_def s2_def key_state_keeps)
  let ?low = "ConnectionCountA s1 \<le> FloodConnectionsPerMinute s1 \<and> ConnectionCountB s1 \<le> FloodConnectionsPerMinute s1"
  let ?match = "drop_bit 1 (t1ha_local E (Keys s2 ! unat (key AND 1)) (HashUDPAddress E source) XOR key) = 0"
  let ?cookie = "Cookie ((t1ha_local E (Keys s2 ! LastUpdatedKeyIndex s2) (HashUDPAddress E source) AND NOT 1) OR word_of_nat (LastUpdatedKeyIndex s2))"
  have d: "decide E t source key j n s = (if ?low then Some (Allow, a1) else if ?match then Some (Allow, a2) else Some (?cookie, s2))"
    unfolding decide_def Let_def s1_def [symmetric] s2_def [symmetric] a1(1) a2(1) ..
  consider (1) "?low" | (2) "\<not> ?low" "?match" | (3) "\<not> ?low" "\<not> ?match" by blast
  then show ?thesis
  proof cases
    case 1
    then show ?thesis using d a1 ks by auto
  next
    case 2
    then show ?thesis using d a2 ks by auto
  next
    case 3
    then have "decide E t source key j n s = Some (?cookie, s2)" using d by simp
    then show ?thesis using keeps c ks by auto
  qed
qed

lemma OnConnectionRequest_ok:
  assumes inv: "flood_inv E s" and "GetCount (CountMap s) < 2 ^ 30"
  shows "\<exists>r s'. OnConnectionRequest E t source key s = Some (r, s') \<and> flood_inv E s'
    \<and> MaximumConnectionsPerAddress s' = MaximumConnectionsPerAddress s
    \<and> (r = Deny \<longleftrightarrow> connections s (without_port E source) = unat (MaximumConnectionsPerAddress s))
    \<and> connections s' = (if r = Allow then (connections s)(without_port E source := connections s (without_port E source) + 1)
                        else connections s)
    \<and> (key_state s' = key_state s \<or> key_state s' = key_state (rotate_keys t s))"
proof -
  obtain j n where *: "find_index (UDPAddressHasher E) (without_port E source) (CountMap s) = Some j"
    "n = (case abs_map (CountMap s) (without_port E source) of None \<Rightarrow> 0 | Some n \<Rightarrow> n)" "connections s (without_port E source) = unat n"
    "OnConnectionRequest E t source key s =
        (if n = MaximumConnectionsPerAddress s then Some (Deny, s) else decide E t source key j n s)"
    "n \<le> MaximumConnectionsPerAddress s"
    using OnConnectionRequest_eq [OF inv, of source t key] by blast
  show ?thesis
  proof (cases "n = MaximumConnectionsPerAddress s")
    case True
    then show ?thesis using * inv by simp
  next
    case False
    then have lt: "n < MaximumConnectionsPerAddress s" using *(5) by simp
    then have "connections s (without_port E source) \<noteq> unat (MaximumConnectionsPerAddress s)"
      unfolding *(3) by (simp add: word_less_nat_alt)
    with decide_ok [OF assms *(1,2) lt, of t key] show ?thesis unfolding *(4) using False by auto
  qed
qed

lemma OnDisconnect_ok:
  assumes inv: "flood_inv E s" and pos: "0 < connections s (without_port E source)"
  shows "\<exists>s'. OnDisconnect E source s = Some s' \<and> flood_inv E s'
    \<and> MaximumConnectionsPerAddress s' = MaximumConnectionsPerAddress s
    \<and> connections s' = (connections s)(without_port E source := connections s (without_port E source) - 1) \<and> key_state s' = key_state s"
proof -
  let ?a = "without_port E source"
  have hm: "hm_inv (UDPAddressHasher E) (CountMap s)" using inv by (simp add: flood_inv_def)
  obtain n where n: "abs_map (CountMap s) ?a = Some n" "connections s ?a = unat n"
    using pos by (auto simp: connections_def split: option.splits)
  then obtain i where i: "find_index (UDPAddressHasher E) ?a (CountMap s) = Some (Some i)" "i < length (m_values (CountMap s))"
    "m_values (CountMap s) ! i = Some (?a, n)"
    using find_index_eq [OF hm, of ?a] by (auto split: option.splits)
  have np: "0 < n" "n \<le> MaximumConnectionsPerAddress s" using inv n(1) by (auto simp: flood_inv_def)
  show ?thesis
  proof (cases "n \<le> 1")
    case True
    then have "unat n = 1" using np(1) by (simp add: word_le_nat_alt word_less_nat_alt)
    obtain m where m: "erase_index (UDPAddressHasher E) i (CountMap s) = Some m" "hm_inv (UDPAddressHasher E) m"
      "abs_map m = (abs_map (CountMap s))(?a := None)"
      using erase_index_eq [OF hm i(2,3)] by blast
    have "OnDisconnect E source s = Some (s\<lparr>CountMap := m\<rparr>)" using i True m(1) by (simp add: OnDisconnect_def Let_def)
    moreover have "flood_inv E (s\<lparr>CountMap := m\<rparr>)" using inv m(2,3) by (auto simp: flood_inv_def split: if_splits)
    moreover have "connections (s\<lparr>CountMap := m\<rparr>) = (connections s)(?a := connections s ?a - 1)"
      using \<open>unat n = 1\<close> n(2) by (auto simp: fun_eq_iff connections_def m(3))
    ultimately show ?thesis by (auto simp: key_state_def)
  next
    case False
    let ?m = "set_node_value i (n - 1) (CountMap s)"
    note m = set_node_value_ok [OF hm i(2,3), of "n - 1"]
    have one: "1 < unat n" using False by (simp add: word_le_nat_alt)
    then have u: "unat (n - 1) = unat n - 1" by (simp add: unat_sub word_le_nat_alt)
    have "OnDisconnect E source s = Some (s\<lparr>CountMap := ?m\<rparr>)" using i False by (simp add: OnDisconnect_def Let_def)
    moreover have "0 < n - 1" "n - 1 \<le> MaximumConnectionsPerAddress s"
      using u one np(2) by (simp_all add: word_less_nat_alt word_le_nat_alt)
    then have "flood_inv E (s\<lparr>CountMap := ?m\<rparr>)" using inv m by (auto simp: flood_inv_def)
    moreover have "connections (s\<lparr>CountMap := ?m\<rparr>) = (connections s)(?a := connections s ?a - 1)"
      using u n(2) by (auto simp: fun_eq_iff connections_def m(2))
    ultimately show ?thesis by (auto simp: key_state_def)
  qed
qed

section \<open>Cookies\<close>

text \<open>The key with index \<open>L\<close> is still \<open>K\<close>, and either it is the newest one or the other one is newer than time \<open>t\<close>.\<close>

definition key_fresh :: "u64 \<Rightarrow> nat \<Rightarrow> u32 list \<Rightarrow> u64 \<Rightarrow> u32 list list \<times> nat \<times> u64 \<Rightarrow> bool" where
  "key_fresh t L K now = (\<lambda>(keys, last, upd). length keys = 2 \<and> keys ! L = K \<and> L < 2
     \<and> (last = L \<or> last = 1 - L \<and> t \<le> upd \<and> upd \<le> now))"

lemma rotate_fresh:
  assumes f: "key_fresh t L K u (key_state s)" and time: "t \<le> now" "u \<le> now" "unat now < unat t + kKeyRotationIntervalUsec"
  shows "key_fresh t L K now (key_state (rotate_keys now s))" "key_fresh t L K now (key_state s)"
proof -
  show old: "key_fresh t L K now (key_state s)"
    using f time(2) by (auto simp: key_fresh_def key_state_def)
  show "key_fresh t L K now (key_state (rotate_keys now s))"
  proof (cases "LastUpdatedKeyIndex s = L")
    case True
    have "L = 0 \<or> L = 1" using f by (auto simp: key_fresh_def key_state_def)
    then have x: "L XOR 1 = 1 - L" "1 - L \<noteq> L" by auto
    show ?thesis
      using old True time(1) x by (auto simp: key_fresh_def key_state_def rotate_keys_def Let_def nth_list_update split: prod.split)
  next
    case False
    then have "t \<le> LastKeyUpdateUsec s" "LastKeyUpdateUsec s \<le> now" using old by (auto simp: key_fresh_def key_state_def)
    then have "unat (now - LastKeyUpdateUsec s) = unat now - unat (LastKeyUpdateUsec s)" "unat t \<le> unat (LastKeyUpdateUsec s)"
      by (simp_all add: unat_sub word_le_nat_alt)
    then have "\<not> word_of_nat kKeyRotationIntervalUsec \<le> now - LastKeyUpdateUsec s"
      using time(3) by (simp add: word_le_nat_alt kKeyRotationIntervalUsec_def)
    then show ?thesis using old by (simp add: rotate_keys_def)
  qed
qed

text \<open>A part of an execution: requests at times that do not decrease, and disconnects of connected clients.\<close>

inductive flood_steps :: "'a flood_deps \<Rightarrow> 'a FloodDetector \<Rightarrow> u64 \<Rightarrow> 'a FloodDetector \<Rightarrow> u64 \<Rightarrow> bool" for E s t where
  none: "flood_steps E s t s t"
| request: "flood_steps E s t s1 u \<Longrightarrow> u \<le> u' \<Longrightarrow> GetCount (CountMap s1) < 2 ^ 30
    \<Longrightarrow> OnConnectionRequest E u' source key s1 = Some (r, s2) \<Longrightarrow> flood_steps E s t s2 u'"
| disconnect: "flood_steps E s t s1 u \<Longrightarrow> 0 < connections s1 (without_port E source)
    \<Longrightarrow> OnDisconnect E source s1 = Some s2 \<Longrightarrow> flood_steps E s t s2 u"

lemma flood_steps_inv: "flood_steps E s t s' u \<Longrightarrow> flood_inv E s \<Longrightarrow> flood_inv E s'"
proof (induction rule: flood_steps.induct)
  case (request s1 u u' source key r s2)
  then show ?case using OnConnectionRequest_ok [of E s1 u' source key] by auto
next
  case (disconnect s1 u source s2)
  then show ?case using OnDisconnect_ok [of E s1 source] by auto
qed

lemma flood_steps_fresh:
  assumes "flood_steps E s t s' u" and "flood_inv E s" and "key_fresh t L K t (key_state s)" and "unat u < unat t + kKeyRotationIntervalUsec"
  shows "key_fresh t L K u (key_state s') \<and> t \<le> u"
  using assms
proof (induction rule: flood_steps.induct)
  case (request s1 u u' source key r s2)
  have lt: "unat u < unat t + kKeyRotationIntervalUsec" using request.hyps(2) request.prems(3) by (simp add: word_le_nat_alt)
  note IH = request.IH [OF request.prems(1,2) lt]
  have inv: "flood_inv E s1" using flood_steps_inv [OF request.hyps(1) request.prems(1)] .
  have "key_state s2 = key_state s1 \<or> key_state s2 = key_state (rotate_keys u' s1)"
    using OnConnectionRequest_ok [OF inv request.hyps(3), of u' source key] request.hyps(4) by auto
  moreover have "t \<le> u'" using IH request.hyps(2) by auto
  ultimately show ?case
    using rotate_fresh [of t L K u s1 u'] IH request.hyps(2) request.prems(3) by auto
next
  case (disconnect s1 u source s2)
  have inv: "flood_inv E s1" using flood_steps_inv [OF disconnect.hyps(1) disconnect.prems(1)] .
  have "key_state s2 = key_state s1"
    using OnDisconnect_ok [OF inv disconnect.hyps(2)] disconnect.hyps(3) by auto
  then show ?case using disconnect.IH [OF disconnect.prems] by simp
qed simp

lemma cookie_bits:
  fixes e :: u64
  assumes "L < 2"
  shows "unat (((e AND NOT 1) OR word_of_nat L) AND 1) = L" "drop_bit 1 (e XOR ((e AND NOT 1) OR word_of_nat L)) = 0"
proof -
  have "L = 0 \<or> L = 1" using assms by auto
  then show "unat (((e AND NOT 1) OR word_of_nat L) AND 1) = L"
    by (auto simp: bit.conj_disj_distrib2 and.assoc)
  define one :: u64 where "one = 1"
  have b: "bit one k \<longleftrightarrow> k = 0" "\<not> bit L (Suc k)" for k
    using \<open>L = 0 \<or> L = 1\<close> by (auto simp: one_def bit_1_iff)
  have "drop_bit 1 (e XOR ((e AND NOT one) OR word_of_nat L)) = 0"
    by (intro bit_word_eqI) (auto simp: bit_simps b dest: bit_imp_le_length)
  then show "drop_bit 1 (e XOR ((e AND NOT 1) OR word_of_nat L)) = 0" by (simp only: one_def)
qed

section \<open>Properties\<close>

definition flood_start :: "'a flood_deps \<Rightarrow> 'a FloodDetector \<Rightarrow> bool" where
  "flood_start E s \<longleftrightarrow> (\<exists>maxPerAddr thresh k. 1 \<le> maxPerAddr \<and> flood_init maxPerAddr thresh (Some k) = Some s)"

lemma generate_keys_length: "length (fst (generate_keys n g)) = n"
  by (induction n arbitrary: g) (auto split: prod.split simp: prod_eq_iff)

lemma flood_start_inv: "flood_start E s \<Longrightarrow> flood_inv E s \<and> connections s = (\<lambda>_. 0)"
proof -
  assume "flood_start E s"
  then obtain m th k where k: "1 \<le> m" "flood_init m th (Some k) = Some s" by (auto simp: flood_start_def)
  obtain keys g where g: "generate_keys kKeyCount (Seed (fst k) (snd k)) = (keys, g)" by (cases "generate_keys kKeyCount (Seed (fst k) (snd k))")
  have "length keys = 2" using generate_keys_length [of kKeyCount "Seed (fst k) (snd k)"] g by (simp add: kKeyCount_def)
  moreover have "0 < m" using k(1) by (simp add: word_less_nat_alt word_le_nat_alt)
  ultimately show ?thesis
    using k(2) g by (cases k) (auto simp: flood_init_def flood_inv_def connections_def)
qed

text \<open>Property C18: connections per address.  In every execution from a new detector, with clients disconnecting only
  when they are connected, each address (without its port) has at most the configured number of
  connections; a request always returns, is denied exactly when the address has that many, and the
  connections of an address are counted exactly: one more for each request that is allowed, one fewer for each
  disconnect.\<close>

theorem connections_per_address_limited:
  assumes "flood_start E s0" and "flood_steps E s0 t0 s u" and "GetCount (CountMap s) < 2 ^ 30"
  shows "connections s a \<le> unat (MaximumConnectionsPerAddress s)
    \<and> (\<exists>r s'. OnConnectionRequest E t source key s = Some (r, s')
         \<and> (r = Deny \<longleftrightarrow> connections s (without_port E source) = unat (MaximumConnectionsPerAddress s))
         \<and> connections s' = (if r = Allow then (connections s)(without_port E source := connections s (without_port E source) + 1)
                             else connections s))
    \<and> (0 < connections s (without_port E source) \<longrightarrow>
         (\<exists>s'. OnDisconnect E source s = Some s'
            \<and> connections s' = (connections s)(without_port E source := connections s (without_port E source) - 1)))"
proof -
  have inv: "flood_inv E s" using flood_steps_inv [OF assms(2)] flood_start_inv [OF assms(1)] by blast
  have "connections s a \<le> unat (MaximumConnectionsPerAddress s)"
    using inv by (auto simp: connections_def flood_inv_def word_le_nat_alt split: option.split)
  then show ?thesis
    using OnConnectionRequest_ok [OF inv assms(3), of t source key] OnDisconnect_ok [OF inv, of source] by blast
qed

definition flood_example :: "nat flood_deps" where
  "flood_example = \<lparr>HashUDPAddress = word_of_nat, without_port = (\<lambda>a. a), t1ha_local = (\<lambda>k h. h)\<rparr>"

theorem connections_per_address_limited_witness:
  "\<exists>s r s'. flood_init 1 5 (Some (1, 2)) = Some s \<and> OnConnectionRequest flood_example 7 3 9 s = Some (r, s') \<and> r \<noteq> Deny"
proof -
  obtain s where s: "flood_init 1 5 (Some (1, 2)) = Some (s :: nat FloodDetector)"
    by (cases "generate_keys kKeyCount (Seed 1 2)") (simp add: flood_init_def)
  then have st: "flood_start flood_example s" unfolding flood_start_def by (intro exI conjI) auto
  have m: "MaximumConnectionsPerAddress s = 1" "GetCount (CountMap s) < 2 ^ 30"
    using s by (auto simp: flood_init_def split: prod.splits)
  have "connections s a = 0" for a using flood_start_inv [OF st] by simp
  then show ?thesis
    using connections_per_address_limited [OF st flood_steps.none m(2), where t = 7 and source = 3 and key = 9] s m(1) by auto
qed


definition flooded :: "nat FloodDetector" where
  "flooded = \<lparr>MaximumConnectionsPerAddress = 1, FloodConnectionsPerMinute = 0, CountMap = LightHashMap_init, ConnectionCountA = 0,
     ConnectionCountB = 0, BinStartUsec = 0, Keys = [[1], [2]], KeyGen = Seed 1 2, LastKeyUpdateUsec = 0, LastUpdatedKeyIndex = 0\<rparr>"


end
