(* ===== verification/Gf256_Field.thy ===== *)
theory Gf256_Field
  imports Tonk_Prelude
begin

text \<open>
  The field with 256 elements that the finite field code computes in: bytes as polynomials over the
  field with two elements, modulo the polynomial \<open>0x14d\<close>.  Addition is exclusive or, the product is defined by
  shifting and adding.  The powers of the element \<open>2\<close> are all the elements but zero,
  from which the laws of a field follow.
\<close>

unbundle bit_operations_syntax

section \<open>The field\<close>

definition xtime :: "u8 \<Rightarrow> u8" where
  "xtime x = push_bit 1 x XOR (if bit x 7 then 0x4d else 0)"

primrec gmul_upto :: "nat \<Rightarrow> u8 \<Rightarrow> u8 \<Rightarrow> u8" where
  "gmul_upto 0 x y = 0"
| "gmul_upto (Suc n) x y = gmul_upto n x y XOR (if bit y n then (xtime ^^ n) x else 0)"

definition gmul :: "u8 \<Rightarrow> u8 \<Rightarrow> u8" where
  "gmul x y = gmul_upto 8 x y"

definition gexp :: "nat \<Rightarrow> u8" where
  "gexp n = (xtime ^^ n) 1"

lemma u8_list: "(x :: u8) \<in> set (map word_of_nat [0..<256])"
proof -
  have "unat x < 256" using unat_bound [of x] by simp
  moreover have "x = word_of_nat (unat x)" by simp
  ultimately show ?thesis by (metis atLeastLessThan_iff image_eqI list.set_map set_upt zero_le)
qed

lemma u8_all: "list_all P (map word_of_nat [0..<256]) \<Longrightarrow> P (x :: u8)"
  using u8_list [of x] by (metis list_all_iff)

lemma xtime_xor: "xtime (x XOR y) = xtime x XOR xtime y"
  by (rule bit_word_eqI) (auto simp: xtime_def bit_simps)

lemma xtime_power_xor: "(xtime ^^ n) (x XOR y) = (xtime ^^ n) x XOR (xtime ^^ n) y"
  by (induction n) (simp_all add: xtime_xor)

lemma xtime_0 [simp]: "xtime 0 = 0"
  by (simp add: xtime_def)

lemma xtime_power_0 [simp]: "(xtime ^^ n) 0 = 0"
  by (induction n) simp_all

lemma u8_additive_ext:
  assumes f: "\<And>x y. f (x XOR y) = f x XOR f y" and g: "\<And>x y. g (x XOR y) = g x XOR g y"
    and eq: "\<And>i. i < 8 \<Longrightarrow> f (push_bit i 1) = g (push_bit i (1 :: u8))"
  shows "f x = (g x :: u8)"
proof -
  have zero: "f 0 = 0" "g 0 = 0" using f [of 0 0] g [of 0 0] by simp_all
  have "f (take_bit n x) = g (take_bit n x)" if "n \<le> 8" for n
    using that
  proof (induction n)
    case (Suc n)
    have "take_bit (Suc n) x = take_bit n x XOR (if bit x n then push_bit n 1 else 0)"
      by (rule bit_word_eqI) (auto simp: bit_simps less_Suc_eq)
    then show ?case using Suc eq [of n] by (auto simp: f g zero)
  qed (simp add: zero)
  from this [of 8] show ?thesis by simp
qed


lemma gmul_upto_xor_right: "gmul_upto n x (y XOR z) = gmul_upto n x y XOR gmul_upto n x z"
  by (induction n) (auto simp: bit_simps xor.assoc xor.left_commute)

lemma gmul_upto_xor_left: "gmul_upto n (x XOR z) y = gmul_upto n x y XOR gmul_upto n z y"
  by (induction n) (auto simp: xtime_power_xor xor.assoc xor.left_commute)

lemma gmul_xor: "gmul x (y XOR z) = gmul x y XOR gmul x z" "gmul (x XOR z) y = gmul x y XOR gmul z y"
  by (simp_all add: gmul_def gmul_upto_xor_right gmul_upto_xor_left)

lemma gmul_upto_single: "gmul_upto n x (push_bit i 1) = (if i < n \<and> i < 8 then (xtime ^^ i) x else 0)"
  by (induction n) (auto simp: bit_simps)

lemma gmul_single: "i < 8 \<Longrightarrow> gmul x (push_bit i 1) = (xtime ^^ i) x"
  unfolding gmul_def gmul_upto_single by simp

lemma gmul_0 [simp]: "gmul x 0 = 0" "gmul 0 y = 0"
proof -
  show "gmul x 0 = 0" using gmul_xor(1) [of x 0 0] by simp
  show "gmul 0 y = 0" using gmul_xor(2) [of 0 0 y] by simp
qed

lemma gmul_1 [simp]: "gmul x 1 = x"
  using gmul_single [of 0 x] by simp

lemma xtime_8: "(xtime ^^ 8) x = gmul x 0x4d"
proof (rule u8_additive_ext [where f = "xtime ^^ 8" and g = "\<lambda>x. gmul x 0x4d"])
  fix i :: nat
  assume "i < 8"
  let ?x = "push_bit i 1 :: u8"
  have split: "gmul y 0x4d = y XOR xtime (xtime y) XOR xtime (xtime (xtime y))
      XOR xtime (xtime (xtime (xtime (xtime (xtime y)))))" for y
  proof -
    have "(0x4d :: u8) = push_bit 0 1 XOR push_bit 2 1 XOR push_bit 3 1 XOR push_bit 6 1"
      by (simp add: push_bit_eq_mult)
    then have "gmul y 0x4d = (xtime ^^ 0) y XOR (xtime ^^ 2) y XOR (xtime ^^ 3) y XOR (xtime ^^ 6) y"
      by (simp only: gmul_xor gmul_single [of 0] gmul_single [of 2] gmul_single [of 3] gmul_single [of 6])
    then show ?thesis by (simp add: numeral_eq_Suc)
  qed
  have "(xtime ^^ 8) ?x = xtime (xtime (xtime (xtime (xtime (xtime (xtime (xtime ?x)))))))"
    by (simp add: numeral_eq_Suc)
  moreover have "i \<in> {0, 1, 2, 3, 4, 5, 6, 7}" using \<open>i < 8\<close> by auto
  ultimately show "(xtime ^^ 8) ?x = gmul ?x 0x4d"
    unfolding split by (elim insertE emptyE) (simp_all add: xtime_def bit_iff_odd push_bit_eq_mult)
qed (simp_all add: xtime_power_xor gmul_xor)

lemma gmul_xtime: "gmul x (xtime y) = xtime (gmul x y)"
proof (rule u8_additive_ext [where f = "\<lambda>y. gmul x (xtime y)" and g = "\<lambda>y. xtime (gmul x y)"])
  fix i :: nat
  assume i: "i < 8"
  show "gmul x (xtime (push_bit i 1)) = xtime (gmul x (push_bit i 1))"
  proof (cases "i = 7")
    case True
    then have "xtime (push_bit i 1) = 0x4d" by (simp add: xtime_def push_bit_eq_mult bit_iff_odd)
    moreover have "xtime ((xtime ^^ 7) x) = (xtime ^^ 8) x" by (simp add: numeral_eq_Suc)
    ultimately show ?thesis unfolding gmul_single [OF i] using True by (simp add: xtime_8)
  next
    case False
    then have "xtime (push_bit i 1) = push_bit (Suc i) 1" using i by (simp add: xtime_def bit_simps)
    then show ?thesis using False i gmul_single [of "Suc i" x] gmul_single [OF i, of x] by simp
  qed
qed (simp_all add: xtime_xor gmul_xor)

lemma gmul_xtime_power: "gmul x ((xtime ^^ n) y) = (xtime ^^ n) (gmul x y)"
  by (induction n) (simp_all add: gmul_xtime)

lemma gmul_gexp: "gmul x (gexp n) = (xtime ^^ n) x"
  by (simp add: gexp_def gmul_xtime_power)

lemma gexp_add: "gmul (gexp m) (gexp n) = gexp (m + n)"
proof -
  have "gexp (n + m) = (xtime ^^ n) (gexp m)" by (simp add: gexp_def funpow_add)
  then show ?thesis by (simp add: gmul_gexp add.commute)
qed

lemma xtime_eq_0: "xtime x = 0 \<longleftrightarrow> x = 0"
  by (rule u8_all [where P = "\<lambda>x. xtime x = 0 \<longleftrightarrow> x = 0"]) code_simp

lemma xor_eq_0: "x XOR y = 0 \<longleftrightarrow> x = (y :: u8)"
proof
  assume "x XOR y = 0"
  then have "(x XOR y) XOR y = y" by simp
  then show "x = y" by (simp add: xor.assoc)
qed simp

lemma xtime_inj: "xtime x = xtime y \<longleftrightarrow> x = y"
proof -
  have "xtime x = xtime y \<longleftrightarrow> xtime (x XOR y) = 0" by (simp add: xtime_xor xor_eq_0)
  also have "\<dots> \<longleftrightarrow> x = y" by (simp add: xtime_eq_0 xor_eq_0)
  finally show ?thesis .
qed

lemma xtime_power_inj: "(xtime ^^ n) x = (xtime ^^ n) y \<longleftrightarrow> x = y"
  by (induction n) (simp_all add: xtime_inj)

primrec xtime_list :: "nat \<Rightarrow> u8 \<Rightarrow> u8 list" where
  "xtime_list 0 x = []"
| "xtime_list (Suc n) x = x # xtime_list n (xtime x)"

lemma xtime_list_eq: "xtime_list n x = map (\<lambda>i. (xtime ^^ i) x) [0..<n]"
proof (induction n arbitrary: x)
  case (Suc n)
  have "map (\<lambda>i. (xtime ^^ i) x) [0..<Suc n] = x # map (\<lambda>i. (xtime ^^ Suc i) x) [0..<n]"
    by (simp add: upt_conv_Cons map_Suc_upt [symmetric] del: upt_Suc)
  then show ?case by (simp add: Suc funpow_swap1)
qed simp

lemma gexp_order: "gexp 255 = 1" and gexp_not_1: "0 < n \<Longrightarrow> n < 255 \<Longrightarrow> gexp n \<noteq> 1"
proof -
  have "last (xtime_list 256 1) = 1" by code_simp
  then show "gexp 255 = 1" by (simp add: xtime_list_eq gexp_def last_map)
  have "list_all (\<lambda>w. w \<noteq> 1) (xtime_list 254 (xtime 1))" by code_simp
  then have ne: "(xtime ^^ i) (xtime 1) \<noteq> 1" if "i < 254" for i using that by (auto simp: xtime_list_eq list_all_iff)
  then show "gexp n \<noteq> 1" if "0 < n" "n < 255" for n
    using that ne [of "n - 1"] by (cases n) (auto simp: gexp_def funpow_swap1)
qed

lemma gexp_ne_0: "gexp n \<noteq> 0"
  by (induction n) (auto simp: gexp_def xtime_eq_0)

lemma gexp_add_255: "gexp (n + 255) = gexp n"
  using gexp_order by (simp add: gexp_def funpow_add)

lemma gexp_mod: "gexp (n mod 255) = gexp n"
proof (induction n rule: less_induct)
  case (less n)
  show ?case
  proof (cases "n < 255")
    case False
    then obtain k where k: "n = k + 255" by (metis add.commute le_add_diff_inverse not_less)
    then show ?thesis using less [of k] by (simp add: gexp_add_255)
  qed simp
qed

lemma gexp_inj: assumes "gexp m = gexp n" and "m < 255" and "n < 255" shows "m = n"
proof -
  have *: False if less: "gexp m = gexp n" "m < n" "n < 255" for m n
  proof -
    obtain d where d: "n = m + d" "0 < d" using less_imp_add_positive [OF less(2)] by auto
    then have "(xtime ^^ m) (gexp d) = (xtime ^^ m) 1" using less(1) by (simp add: gexp_def funpow_add)
    then have "gexp d = 1" by (simp add: xtime_power_inj)
    then show False using gexp_not_1 [of d] d less(3) by simp
  qed
  show ?thesis using * [of m n] * [of n m] assms by (metis linorder_neqE_nat)
qed

lemma gexp_surj: assumes "x \<noteq> 0" obtains n where "0 < n" "n \<le> 255" "gexp n = x"
proof -
  have "inj_on gexp {0..<255}" by (rule inj_onI, erule gexp_inj) simp_all
  then have "card (gexp ` {0..<255}) = 255" by (simp add: card_image)
  moreover have "card (UNIV - {0 :: u8}) = 255" by (simp add: card_Diff_subset card_word)
  moreover have "gexp ` {0..<255} \<subseteq> UNIV - {0}" using gexp_ne_0 by auto
  ultimately have "gexp ` {0..<255} = UNIV - {0}" by (intro card_subset_eq) simp_all
  with assms have "x \<in> gexp ` {0..<255}" by simp
  then obtain n where n: "n < 255" "gexp n = x" by auto
  show thesis
  proof (cases "n = 0")
    case True
    then have "gexp 255 = x" using n gexp_order by (simp add: gexp_def)
    then show ?thesis using that [of 255] by simp
  next
    case False
    then show ?thesis using that [of n] n by simp
  qed
qed


lemma gmul_commute: "gmul x y = gmul y x"
proof (cases "x = 0 \<or> y = 0")
  case False
  obtain m n where "gexp m = x" "gexp n = y" using gexp_surj False by (metis (no_types))
  then show ?thesis using gexp_add [of m n] gexp_add [of n m] by (simp add: add.commute)
qed auto

lemma gmul_assoc: "gmul (gmul x y) z = gmul x (gmul y z)"
proof (cases "y = 0 \<or> z = 0")
  case False
  obtain m n where yz: "gexp m = y" "gexp n = z" using gexp_surj False by (metis (no_types))
  have "gmul (gmul x y) z = (xtime ^^ (n + m)) x" by (simp add: yz [symmetric] gmul_gexp funpow_add)
  also have "\<dots> = gmul x (gmul y z)" by (simp only: yz [symmetric] gexp_add) (simp add: gmul_gexp add.commute)
  finally show ?thesis .
qed auto

lemma gmul_eq_0: "gmul x y = 0 \<longleftrightarrow> x = 0 \<or> y = 0"
proof (cases "x = 0 \<or> y = 0")
  case False
  obtain m n where "gexp m = x" "gexp n = y" using gexp_surj False by (metis (no_types))
  then show ?thesis using gexp_add [of m n] gexp_ne_0 False by metis
qed auto


end
