(* ===== verification/Gf256.thy ===== *)
theory Gf256
  imports Serializers Gf256_Field
begin

text \<open>
  Arithmetic in the field with 256 elements, as \<open>gf256.h\<close> and \<open>gf256.cpp\<close> tabulate it: the choice
  of the polynomial, the exponential and logarithm tables, the product, quotient, inverse, square
  and partial product tables, and the scalar operations that read them.

  The reference is the product of polynomials modulo the chosen polynomial, by shifting and adding
  (\<open>gmul\<close>).  The tables are shown to hold exactly this product, and the product to be the
  multiplication of a field in which addition is exclusive or.
\<close>

unbundle bit_operations_syntax

section \<open>Tables\<close>

record gf256_ctx =
  MM128_TABLE_LO_Y :: "bytes list"
  MM128_TABLE_HI_Y :: "bytes list"
  MM256_TABLE_LO_Y :: "bytes list"
  MM256_TABLE_HI_Y :: "bytes list"
  GF256_MUL_TABLE :: bytes
  GF256_DIV_TABLE :: bytes
  GF256_INV_TABLE :: bytes
  GF256_SQR_TABLE :: bytes
  GF256_LOG_TABLE :: "u16 list"
  GF256_EXP_TABLE :: bytes
  Polynomial :: u32

text \<open>The context before initialisation: static storage, all zero.\<close>

definition GF256Ctx :: gf256_ctx where
  "GF256Ctx = \<lparr> MM128_TABLE_LO_Y = replicate 256 (replicate 16 0), MM128_TABLE_HI_Y = replicate 256 (replicate 16 0),
     MM256_TABLE_LO_Y = replicate 256 (replicate 32 0), MM256_TABLE_HI_Y = replicate 256 (replicate 32 0),
     GF256_MUL_TABLE = replicate (256 * 256) 0, GF256_DIV_TABLE = replicate (256 * 256) 0,
     GF256_INV_TABLE = replicate 256 0, GF256_SQR_TABLE = replicate 256 0,
     GF256_LOG_TABLE = replicate 256 0, GF256_EXP_TABLE = replicate (512 * 2 + 1) 0, Polynomial = 0 \<rparr>"

definition GF256_GEN_POLY :: bytes where
  "GF256_GEN_POLY = [0x8e, 0x95, 0x96, 0xa6, 0xaf, 0xb1, 0xb2, 0xb4,
     0xb8, 0xc3, 0xc6, 0xd4, 0xe1, 0xe7, 0xf3, 0xfa]"

definition GF256_GEN_POLY_COUNT :: int where "GF256_GEN_POLY_COUNT = 16"

definition kDefaultPolynomialIndex :: int where "kDefaultPolynomialIndex = 3"

definition gf256_poly_init :: "int \<Rightarrow> gf256_ctx \<Rightarrow> gf256_ctx" where
  "gf256_poly_init polynomialIndex ctx =
     (let polynomialIndex = (if polynomialIndex < 0 \<or> polynomialIndex \<ge> GF256_GEN_POLY_COUNT
                             then kDefaultPolynomialIndex else polynomialIndex)
      in ctx\<lparr>Polynomial := push_bit 1 (ucast (GF256_GEN_POLY ! nat polynomialIndex)) OR 1\<rparr>)"

definition gf256_explog_step :: "u32 \<Rightarrow> nat \<Rightarrow> bytes \<times> u16 list \<Rightarrow> (bytes \<times> u16 list) option" where
  "gf256_explog_step poly jj = (\<lambda>(exptab, logtab). do {
     prev \<leftarrow> tab_get exptab (jj - 1);
     let next = (ucast prev :: u32) * 2;
     let next = (if next \<ge> 256 then next XOR poly else next);
     exptab \<leftarrow> tab_set exptab jj (ucast next);
     e \<leftarrow> tab_get exptab jj;
     logtab \<leftarrow> tab_set logtab (unat e) (word_of_nat jj);
     Some (exptab, logtab) })"

definition gf256_explog_init :: "gf256_ctx \<Rightarrow> gf256_ctx option" where
  "gf256_explog_init ctx = do {
     let poly = Polynomial ctx;
     logtab \<leftarrow> tab_set (GF256_LOG_TABLE ctx) 0 512;
     exptab \<leftarrow> tab_set (GF256_EXP_TABLE ctx) 0 1;
     (exptab, logtab) \<leftarrow> for_range 1 255 (gf256_explog_step poly) (exptab, logtab);
     e0 \<leftarrow> tab_get exptab 0;
     exptab \<leftarrow> tab_set exptab 255 e0;
     e \<leftarrow> tab_get exptab 255;
     logtab \<leftarrow> tab_set logtab (unat e) 255;
     exptab \<leftarrow> for_range 256 (2 * 255) (\<lambda>jj exptab. do {
         e \<leftarrow> tab_get exptab (jj mod 255);
         tab_set exptab jj e }) exptab;
     exptab \<leftarrow> tab_set exptab (2 * 255) 1;
     exptab \<leftarrow> for_range (2 * 255 + 1) (4 * 255) (\<lambda>jj exptab. tab_set exptab jj 0) exptab;
     Some (ctx\<lparr>GF256_EXP_TABLE := exptab, GF256_LOG_TABLE := logtab\<rparr>) }"

definition gf256_muldiv_row :: "gf256_ctx \<Rightarrow> nat \<Rightarrow> bytes \<times> bytes \<Rightarrow> (bytes \<times> bytes) option" where
  "gf256_muldiv_row ctx y = (\<lambda>(m, d). do {
     l \<leftarrow> tab_get (GF256_LOG_TABLE ctx) y;
     let log_y = (ucast l :: u8);
     let log_yn = 255 - log_y;
     let o' = 256 * y;
     m \<leftarrow> tab_set m o' 0;
     d \<leftarrow> tab_set d o' 0;
     for_range 1 256 (\<lambda>x (m, d). do {
       log_x \<leftarrow> tab_get (GF256_LOG_TABLE ctx) x;
       p \<leftarrow> tab_get (GF256_EXP_TABLE ctx) (unat log_x + unat log_y);
       m \<leftarrow> tab_set m (o' + x) p;
       q \<leftarrow> tab_get (GF256_EXP_TABLE ctx) (unat log_x + unat log_yn);
       d \<leftarrow> tab_set d (o' + x) q;
       Some (m, d) }) (m, d) })"

definition gf256_muldiv_init :: "gf256_ctx \<Rightarrow> gf256_ctx option" where
  "gf256_muldiv_init ctx = do {
     (m, d) \<leftarrow> for_range 0 256 (\<lambda>x (m, d). do {
         d \<leftarrow> tab_set d x 0;
         m \<leftarrow> tab_set m x 0;
         Some (m, d) }) (GF256_MUL_TABLE ctx, GF256_DIV_TABLE ctx);
     (m, d) \<leftarrow> for_range 1 256 (gf256_muldiv_row ctx) (m, d);
     Some (ctx\<lparr>GF256_MUL_TABLE := m, GF256_DIV_TABLE := d\<rparr>) }"

section \<open>Scalar operations\<close>

definition gf256_add :: "u8 \<Rightarrow> u8 \<Rightarrow> u8" where
  "gf256_add x y = x XOR y"

definition gf256_mul :: "gf256_ctx \<Rightarrow> u8 \<Rightarrow> u8 \<Rightarrow> u8 option" where
  "gf256_mul ctx x y = tab_get (GF256_MUL_TABLE ctx) (unat (push_bit 8 (ucast y :: u32)) + unat x)"

definition gf256_div :: "gf256_ctx \<Rightarrow> u8 \<Rightarrow> u8 \<Rightarrow> u8 option" where
  "gf256_div ctx x y = tab_get (GF256_DIV_TABLE ctx) (unat (push_bit 8 (ucast y :: u32)) + unat x)"

definition gf256_inv :: "gf256_ctx \<Rightarrow> u8 \<Rightarrow> u8 option" where
  "gf256_inv ctx x = tab_get (GF256_INV_TABLE ctx) (unat x)"

definition gf256_sqr :: "gf256_ctx \<Rightarrow> u8 \<Rightarrow> u8 option" where
  "gf256_sqr ctx x = tab_get (GF256_SQR_TABLE ctx) (unat x)"

definition gf256_inv_init :: "gf256_ctx \<Rightarrow> gf256_ctx option" where
  "gf256_inv_init ctx = do {
     t \<leftarrow> for_range 0 256 (\<lambda>x t. do { v \<leftarrow> gf256_div ctx 1 (word_of_nat x); tab_set t x v }) (GF256_INV_TABLE ctx);
     Some (ctx\<lparr>GF256_INV_TABLE := t\<rparr>) }"

definition gf256_sqr_init :: "gf256_ctx \<Rightarrow> gf256_ctx option" where
  "gf256_sqr_init ctx = do {
     t \<leftarrow> for_range 0 256 (\<lambda>x t. do { v \<leftarrow> gf256_mul ctx (word_of_nat x) (word_of_nat x); tab_set t x v }) (GF256_SQR_TABLE ctx);
     Some (ctx\<lparr>GF256_SQR_TABLE := t\<rparr>) }"

section \<open>Tables hold the field operations\<close>

lemma length_GF256Ctx [simp]:
  "length (GF256_MUL_TABLE GF256Ctx) = 65536" "length (GF256_DIV_TABLE GF256Ctx) = 65536"
  "length (GF256_INV_TABLE GF256Ctx) = 256" "length (GF256_SQR_TABLE GF256Ctx) = 256"
  "length (GF256_LOG_TABLE GF256Ctx) = 256" "length (GF256_EXP_TABLE GF256Ctx) = 1025"
  "length (MM128_TABLE_LO_Y GF256Ctx) = 256" "length (MM128_TABLE_HI_Y GF256Ctx) = 256"
  "length (MM256_TABLE_LO_Y GF256Ctx) = 256" "length (MM256_TABLE_HI_Y GF256Ctx) = 256"
  by (simp_all add: GF256Ctx_def)

definition ctx_sized :: "gf256_ctx \<Rightarrow> bool" where
  "ctx_sized ctx \<longleftrightarrow> length (GF256_MUL_TABLE ctx) = 65536 \<and> length (GF256_DIV_TABLE ctx) = 65536
     \<and> length (GF256_INV_TABLE ctx) = 256 \<and> length (GF256_SQR_TABLE ctx) = 256
     \<and> length (GF256_LOG_TABLE ctx) = 256 \<and> length (GF256_EXP_TABLE ctx) = 1025
     \<and> length (MM128_TABLE_LO_Y ctx) = 256 \<and> length (MM128_TABLE_HI_Y ctx) = 256
     \<and> length (MM256_TABLE_LO_Y ctx) = 256 \<and> length (MM256_TABLE_HI_Y ctx) = 256"

lemma poly_init_default:
  "gf256_poly_init kDefaultPolynomialIndex ctx = ctx\<lparr>Polynomial := 0x14d\<rparr>"
  by (simp add: gf256_poly_init_def kDefaultPolynomialIndex_def GF256_GEN_POLY_def GF256_GEN_POLY_COUNT_def)

lemma next_xtime:
  "ucast (let next = (ucast (x :: u8) :: u32) * 2 in if 256 \<le> next then next XOR 0x14d else next) = xtime x"
  by (rule u8_all [where P = "\<lambda>x. ucast (let next = (ucast (x :: u8) :: u32) * 2 in
        if 256 \<le> next then next XOR 0x14d else next) = xtime x"]) code_simp

definition explog_inv :: "nat \<Rightarrow> bytes \<times> u16 list \<Rightarrow> bool" where
  "explog_inv j = (\<lambda>(e, l). length e = 1025 \<and> length l = 256 \<and> (\<forall>i<j. e ! i = gexp i)
     \<and> (\<forall>i. 0 < i \<and> i < j \<longrightarrow> l ! unat (gexp i) = word_of_nat i))"

lemma gf256_explog_step_ok:
  assumes "explog_inv j s" and "0 < j" and "j < 255"
  shows "\<exists>s'. gf256_explog_step 0x14d j s = Some s' \<and> explog_inv (Suc j) s'"
proof -
  obtain e l where s: "s = (e, l)" by force
  from assms have inv: "length e = 1025" "length l = 256" "\<And>i. i < j \<Longrightarrow> e ! i = gexp i"
    "\<And>i. 0 < i \<Longrightarrow> i < j \<Longrightarrow> l ! unat (gexp i) = word_of_nat i" by (auto simp: explog_inv_def s)
  have x: "xtime (gexp (j - 1)) = gexp j" using assms(2) by (cases j) (simp_all add: gexp_def)
  have ne: "unat (gexp i) \<noteq> unat (gexp j)" if "i < j" for i
    using that gexp_inj [of i j] assms(3) unsigned_word_eqI [of "gexp i" "gexp j"] by auto
  have lt: "unat (gexp i) < 256" for i using unat_bound [of "gexp i"] by simp
  have "gf256_explog_step 0x14d j s = Some (e[j := gexp j], l[unat (gexp j) := word_of_nat j])"
    using inv(1,2) assms(2,3) next_xtime [of "gexp (j - 1)"] lt inv(3) [of "j - 1"] x
    by (simp add: gf256_explog_step_def s Let_def)
  moreover have "explog_inv (Suc j) (e[j := gexp j], l[unat (gexp j) := word_of_nat j])"
    using inv assms(2,3) ne [symmetric] lt by (auto simp: explog_inv_def nth_list_update less_Suc_eq)
  ultimately show ?thesis by blast
qed


text \<open>What the logarithm and exponential tables hold.\<close>

definition explog_ok :: "gf256_ctx \<Rightarrow> bool" where
  "explog_ok ctx \<longleftrightarrow> (\<forall>i \<le> 510. GF256_EXP_TABLE ctx ! i = gexp i)
     \<and> (\<forall>x. x \<noteq> 0 \<longrightarrow> (let n = unat (GF256_LOG_TABLE ctx ! unat x) in 0 < n \<and> n \<le> 255 \<and> gexp n = x))"

lemma gf256_explog_init_ok:
  assumes "ctx_sized ctx" and "Polynomial ctx = 0x14d"
  shows "\<exists>e l. gf256_explog_init ctx = Some (ctx\<lparr>GF256_EXP_TABLE := e, GF256_LOG_TABLE := l\<rparr>)
    \<and> ctx_sized (ctx\<lparr>GF256_EXP_TABLE := e, GF256_LOG_TABLE := l\<rparr>)
    \<and> explog_ok (ctx\<lparr>GF256_EXP_TABLE := e, GF256_LOG_TABLE := l\<rparr>)"
proof -
  note sized = assms(1) [unfolded ctx_sized_def]
  let ?e0 = "(GF256_EXP_TABLE ctx)[0 := 1]" and ?l0 = "(GF256_LOG_TABLE ctx)[0 := 512]"
  have "explog_inv 1 (?e0, ?l0)" using sized by (simp add: explog_inv_def gexp_def)
  then have "\<exists>s'. for_range 1 255 (gf256_explog_step 0x14d) (?e0, ?l0) = Some s' \<and> explog_inv 255 s'"
    by (intro for_range_rule [where P = explog_inv] gf256_explog_step_ok) simp_all
  then obtain e l where el: "for_range 1 255 (gf256_explog_step 0x14d) (?e0, ?l0) = Some (e, l)"
    "explog_inv 255 (e, l)" by force
  from el(2) have inv: "length e = 1025" "length l = 256" "\<And>i. i < 255 \<Longrightarrow> e ! i = gexp i"
    "\<And>i. 0 < i \<Longrightarrow> i < 255 \<Longrightarrow> l ! unat (gexp i) = word_of_nat i" by (auto simp: explog_inv_def)
  have one: "e ! 0 = 1" using inv(3) [of 0] by (simp add: gexp_def)
  define l' where "l' = l[1 := 255]"
  let ?copy = "\<lambda>jj exptab. do { e \<leftarrow> tab_get exptab (jj mod 255); tab_set exptab jj e }"
  let ?P = "\<lambda>j e :: bytes. length e = 1025 \<and> (\<forall>i<j. e ! i = gexp i)"
  have "\<exists>e'. for_range 256 510 ?copy (e[255 := 1]) = Some e' \<and> ?P 510 e'"
  proof (rule for_range_rule)
    show "?P 256 (e[255 := 1])" using inv gexp_order by (auto simp: nth_list_update)
    fix i and e :: bytes
    assume "256 \<le> i" "i < 510" "?P i e"
    then show "\<exists>e'. ?copy i e = Some e' \<and> ?P (Suc i) e'"
      by (auto simp: nth_list_update gexp_mod less_Suc_eq)
  qed simp
  then obtain e' where e': "for_range 256 510 ?copy (e[255 := 1]) = Some e'" "?P 510 e'" by blast
  let ?Q = "\<lambda>j e :: bytes. length e = 1025 \<and> (\<forall>i\<le>510. e ! i = gexp i)"
  have "\<exists>e''. for_range 511 1020 (\<lambda>jj exptab. tab_set exptab jj 0) (e'[510 := 1]) = Some e'' \<and> ?Q 1020 e''"
  proof (rule for_range_rule)
    have "gexp 510 = 1" using gexp_mod [of 510] by (simp add: gexp_def)
    then show "?Q 511 (e'[510 := 1])" using e' by (auto simp: nth_list_update)
  qed (auto simp: nth_list_update)
  then obtain e'' where e'': "for_range 511 1020 (\<lambda>jj exptab. tab_set exptab jj 0) (e'[510 := 1]) = Some e''"
    "?Q 1020 e''" by blast
  have run: "gf256_explog_init ctx = Some (ctx\<lparr>GF256_EXP_TABLE := e'', GF256_LOG_TABLE := l'\<rparr>)"
    using el e'(1) e''(1) sized one inv(1,2) e'(2) assms(2) by (simp add: gf256_explog_init_def l'_def)
  have log: "let n = unat (l' ! unat x) in 0 < n \<and> n \<le> 255 \<and> gexp n = x" if nz: "x \<noteq> 0" for x
  proof -
    obtain n where n: "0 < n" "n \<le> 255" "gexp n = x" by (rule gexp_surj [OF nz])
    show ?thesis
    proof (cases "n = 255")
      case True
      then have "x = 1" using n gexp_order by simp
      then show ?thesis using True n inv(2) by (simp add: l'_def)
    next
      case False
      then have "x \<noteq> 1" using n gexp_not_1 [of n] by auto
      then have "unat x \<noteq> 1" by (metis unat_1 unsigned_word_eqI)
      then show ?thesis using n False inv(4) [of n] by (simp add: l'_def unat_of_nat Let_def)
    qed
  qed
  have "length l' = 256" using inv(2) by (simp add: l'_def)
  then have "ctx_sized (ctx\<lparr>GF256_EXP_TABLE := e'', GF256_LOG_TABLE := l'\<rparr>)"
    "explog_ok (ctx\<lparr>GF256_EXP_TABLE := e'', GF256_LOG_TABLE := l'\<rparr>)"
    using e''(2) sized log by (simp_all add: ctx_sized_def explog_ok_def)
  then show ?thesis using run by blast
qed


text \<open>What the product and quotient tables hold: the product of \<open>x\<close> and \<open>y\<close> in row \<open>y\<close>.\<close>

definition muldiv_ok :: "gf256_ctx \<Rightarrow> bool" where
  "muldiv_ok ctx \<longleftrightarrow> (\<forall>x y. gf256_mul ctx x y = Some (gmul x y))
     \<and> (\<forall>x y. y \<noteq> 0 \<longrightarrow> gf256_div ctx (gmul x y) y = Some x) \<and> (\<forall>x. gf256_div ctx x 0 = Some 0)"

definition rows_ok :: "nat \<Rightarrow> bytes \<times> bytes \<Rightarrow> bool" where
  "rows_ok k = (\<lambda>(m, d). length m = 65536 \<and> length d = 65536
     \<and> (\<forall>x y. 256 * unat y + unat x < k \<longrightarrow> m ! (256 * unat y + unat x) = gmul x y
          \<and> gmul (d ! (256 * unat y + unat x)) y = (if y = 0 then 0 else x)
          \<and> (y = 0 \<longrightarrow> d ! (256 * unat y + unat x) = 0)))"

lemma row_index_inj:
  fixes x y x' y' :: u8
  assumes "256 * unat y + unat x = 256 * unat y' + unat x'"
  shows "x = x' \<and> y = y'"
proof -
  have "unat x < 256" "unat x' < 256" using unat_bound [of x] unat_bound [of x'] by simp_all
  then have "unat x = (256 * unat y + unat x) mod 256" "unat x' = (256 * unat y' + unat x') mod 256" by simp_all
  then have "unat x = unat x'" using assms by simp
  moreover from this have "unat y = unat y'" using assms by simp
  ultimately
  show ?thesis by (simp add: unsigned_word_eqI)
qed

lemma rows_ok_extend:
  assumes "rows_ok (256 * unat y + unat x) (m, d)" and "gmul q y = (if y = 0 then 0 else x)" and "y = 0 \<Longrightarrow> q = 0"
  shows "rows_ok (Suc (256 * unat y + unat x)) (m[256 * unat y + unat x := gmul x y], d[256 * unat y + unat x := q])"
proof -
  let ?i = "256 * unat y + unat x"
  have lt: "?i < 65536" using unat_bound [of x] unat_bound [of y] by simp
  note inv = assms(1) [unfolded rows_ok_def prod.case]
  have "m[?i := gmul x y] ! (256 * unat y' + unat x') = gmul x' y'
      \<and> gmul (d[?i := q] ! (256 * unat y' + unat x')) y' = (if y' = 0 then 0 else x')
      \<and> (y' = 0 \<longrightarrow> d[?i := q] ! (256 * unat y' + unat x') = 0)"
    if "256 * unat y' + unat x' < Suc ?i" for x' y'
  proof (cases "256 * unat y' + unat x' = ?i")
    case True
    then have "x' = x \<and> y' = y" by (rule row_index_inj)
    then show ?thesis using assms(2,3) inv lt by simp
  next
    case False
    then have "256 * unat y' + unat x' < ?i" using that by simp
    then show ?thesis using inv False by simp
  qed
  then show ?thesis unfolding rows_ok_def using inv by simp
qed

lemma muldiv_cell:
  assumes "explog_ok ctx" and "x \<noteq> 0" and "y \<noteq> 0"
  defines "lx \<equiv> unat (GF256_LOG_TABLE ctx ! unat x)" and "ly \<equiv> (ucast (GF256_LOG_TABLE ctx ! unat y) :: u8)"
  shows "lx + unat ly < 511" "lx + unat (255 - ly) < 511"
    "GF256_EXP_TABLE ctx ! (lx + unat ly) = gmul x y"
    "gmul (GF256_EXP_TABLE ctx ! (lx + unat (255 - ly))) y = x"
proof -
  from assms have x: "0 < lx" "lx \<le> 255" "gexp lx = x" by (auto simp: explog_ok_def Let_def)
  let ?n = "unat (GF256_LOG_TABLE ctx ! unat y)"
  from assms have y: "0 < ?n" "?n \<le> 255" "gexp ?n = y" by (auto simp: explog_ok_def Let_def)
  have ly: "unat ly = ?n" using y(2) by (simp add: ly_def unat_ucast_mod)
  then have lyn: "unat (255 - ly) = 255 - ?n" using y(2) by (subst unat_sub) (simp_all add: word_le_nat_alt)
  show b: "lx + unat ly < 511" "lx + unat (255 - ly) < 511" using x y ly lyn by auto
  show "GF256_EXP_TABLE ctx ! (lx + unat ly) = gmul x y"
    using assms(1) b(1) gexp_add [of lx ?n] x y ly by (simp add: explog_ok_def)
  have "gmul (gexp (lx + (255 - ?n))) (gexp ?n) = gexp (lx + 255)" using y(2) gexp_add [of "lx + (255 - ?n)" ?n] by simp
  also have "\<dots> = x" using x(3) by (simp add: gexp_add_255)
  finally show "gmul (GF256_EXP_TABLE ctx ! (lx + unat (255 - ly))) y = x"
    using assms(1) b(2) y lyn by (simp add: explog_ok_def)
qed

lemma gf256_muldiv_row_ok:
  assumes "ctx_sized ctx" and "explog_ok ctx" and "rows_ok (256 * y) s" and "0 < y" and "y < 256"
  shows "\<exists>s'. gf256_muldiv_row ctx y s = Some s' \<and> rows_ok (256 * Suc y) s'"
proof -
  note sized = assms(1) [unfolded ctx_sized_def]
  obtain m d where s: "s = (m, d)" by force
  define w where "w = (word_of_nat y :: u8)"
  have w: "unat w = y" "w \<noteq> 0" using assms(4,5) by (auto simp: w_def unat_of_nat word_of_nat_eq_0_iff dvd_imp_le)
  have len: "length m = 65536" "length d = 65536" using assms(3) by (simp_all add: rows_ok_def s)
  have first: "rows_ok (Suc (256 * y)) (m[256 * y := 0], d[256 * y := 0])"
    using rows_ok_extend [of w 0 m d 0] assms(3) w by (simp add: s)
  let ?P = "\<lambda>x s. rows_ok (256 * y + x) s"
  let ?body = "\<lambda>x (m, d). do {
       log_x \<leftarrow> tab_get (GF256_LOG_TABLE ctx) x;
       p \<leftarrow> tab_get (GF256_EXP_TABLE ctx) (unat log_x + unat (ucast (GF256_LOG_TABLE ctx ! y) :: u8));
       m \<leftarrow> tab_set m (256 * y + x) p;
       q \<leftarrow> tab_get (GF256_EXP_TABLE ctx) (unat log_x + unat (255 - (ucast (GF256_LOG_TABLE ctx ! y) :: u8)));
       d \<leftarrow> tab_set d (256 * y + x) q;
       Some (m, d) }"
  have "\<exists>s'. for_range 1 256 ?body (m[256 * y := 0], d[256 * y := 0]) = Some s' \<and> ?P 256 s'"
  proof (rule for_range_rule [where P = "\<lambda>x s. rows_ok (256 * y + x) s"])
    show "?P 1 (m[256 * y := 0], d[256 * y := 0])" using first by simp
    fix x s'
    assume x: "1 \<le> x" "x < 256" and P: "?P x s'"
    obtain m' d' where s': "s' = (m', d')" by force
    define v where "v = (word_of_nat x :: u8)"
    have v: "unat v = x" "v \<noteq> 0" using x by (auto simp: v_def unat_of_nat word_of_nat_eq_0_iff dvd_imp_le)
    have len': "length m' = 65536" "length d' = 65536" using P by (simp_all add: rows_ok_def s')
    note cell = muldiv_cell [OF assms(2) v(2) w(2), unfolded v(1) w(1)]
    let ?q = "GF256_EXP_TABLE ctx ! (unat (GF256_LOG_TABLE ctx ! x) + unat (255 - (ucast (GF256_LOG_TABLE ctx ! y) :: u8)))"
    have "?body x s' = Some (m'[256 * y + x := gmul v w], d'[256 * y + x := ?q])"
      using cell sized x assms(5) len' by (simp add: s')
    moreover have "?P (Suc x) (m'[256 * y + x := gmul v w], d'[256 * y + x := ?q])"
      using rows_ok_extend [of w v m' d' ?q] P cell(4) v w by (simp add: s')
    ultimately show "\<exists>s''. ?body x s' = Some s'' \<and> ?P (Suc x) s''" by blast
  qed simp
  then show ?thesis using sized assms(5) len by (simp add: gf256_muldiv_row_def s Let_def add.commute [of 256])
qed


lemma row_index: "unat (push_bit 8 (ucast (y :: u8) :: u32)) + unat (x :: u8) = 256 * unat y + unat x"
proof -
  have "unat y < 256" using unat_bound [of y] by simp
  then have "unat (push_bit 8 (ucast y :: u32)) = 256 * unat y"
    by (simp add: push_bit_eq_mult unat_word_ariths unat_ucast_up)
  then show ?thesis by simp
qed

lemma gf256_muldiv_init_ok:
  assumes "ctx_sized ctx" and "explog_ok ctx"
  shows "\<exists>m d. gf256_muldiv_init ctx = Some (ctx\<lparr>GF256_MUL_TABLE := m, GF256_DIV_TABLE := d\<rparr>)
    \<and> ctx_sized (ctx\<lparr>GF256_MUL_TABLE := m, GF256_DIV_TABLE := d\<rparr>)
    \<and> muldiv_ok (ctx\<lparr>GF256_MUL_TABLE := m, GF256_DIV_TABLE := d\<rparr>)"
proof -
  note sized = assms(1) [unfolded ctx_sized_def]
  let ?zero = "\<lambda>x (m, d). do { d \<leftarrow> tab_set d x 0; m \<leftarrow> tab_set m x 0; Some (m, d) } :: (bytes \<times> bytes) option"
  have "\<exists>s. for_range 0 256 ?zero (GF256_MUL_TABLE ctx, GF256_DIV_TABLE ctx) = Some s \<and> rows_ok 256 s"
  proof (rule for_range_rule [where P = rows_ok])
    show "rows_ok 0 (GF256_MUL_TABLE ctx, GF256_DIV_TABLE ctx)" using sized by (simp add: rows_ok_def)
    fix x s
    assume x: "x < 256" and inv: "rows_ok x s"
    obtain m d where s: "s = (m, d)" by force
    define v where "v = (word_of_nat x :: u8)"
    have v: "unat v = x" using x by (simp add: v_def unat_of_nat)
    have "rows_ok (Suc x) (m[x := 0], d[x := 0])"
      using rows_ok_extend [of 0 v m d 0] inv v by (simp add: s)
    moreover have "?zero x s = Some (m[x := 0], d[x := 0])" using inv x by (simp add: s rows_ok_def)
    ultimately show "\<exists>s'. ?zero x s = Some s' \<and> rows_ok (Suc x) s'" by blast
  qed simp
  then obtain s where s: "for_range 0 256 ?zero (GF256_MUL_TABLE ctx, GF256_DIV_TABLE ctx) = Some s" "rows_ok 256 s"
    by blast
  have "\<exists>s'. for_range 1 256 (gf256_muldiv_row ctx) s = Some s' \<and> rows_ok (256 * 256) s'"
    by (rule for_range_rule [where P = "\<lambda>y s. rows_ok (256 * y) s"])
      (use s(2) gf256_muldiv_row_ok [OF assms] in auto)
  then obtain m d where md: "for_range 1 256 (gf256_muldiv_row ctx) s = Some (m, d)" "rows_ok (256 * 256) (m, d)" by force
  let ?c = "ctx\<lparr>GF256_MUL_TABLE := m, GF256_DIV_TABLE := d\<rparr>"
  have run: "gf256_muldiv_init ctx = Some ?c"
    using s(1) md(1) by (cases s) (simp add: gf256_muldiv_init_def)
  have len: "length m = 65536" "length d = 65536" using md(2) by (simp_all add: rows_ok_def)
  have lt: "256 * unat y + unat x < 65536" for x y :: u8 using unat_bound [of x] unat_bound [of y] by simp
  have cells: "m ! (256 * unat y + unat x) = gmul x y"
    "gmul (d ! (256 * unat y + unat x)) y = (if y = 0 then 0 else x)"
    "y = 0 \<Longrightarrow> d ! (256 * unat y + unat x) = 0" for x y
    using md(2) [unfolded rows_ok_def prod.case, THEN conjunct2, THEN conjunct2, rule_format, of y x] lt [of y x]
    by simp_all
  have div: "gf256_div ?c (gmul x y) y = Some x" if "y \<noteq> 0" for x y
  proof -
    let ?q = "d ! (256 * unat y + unat (gmul x y))"
    have "gmul ?q y = gmul x y" using cells(2) [of y "gmul x y"] that by simp
    then have "gmul (?q XOR x) y = 0" by (simp add: gmul_xor xor_eq_0)
    then have "?q = x" using that by (simp add: gmul_eq_0 xor_eq_0)
    then show ?thesis using lt len by (simp add: gf256_div_def row_index)
  qed
  have "muldiv_ok ?c"
    using div cells(1) cells(3) [of 0] lt lt [of 0] len by (auto simp: muldiv_ok_def gf256_mul_def gf256_div_def row_index)
  moreover have "ctx_sized ?c" using sized len by (simp add: ctx_sized_def)
  ultimately show ?thesis using run by blast
qed

text \<open>The inverse and square tables are filled from the quotient and the product table.\<close>

lemma fill_table:
  assumes "\<And>x. g x = Some (h x)" and "length t = 256"
  shows "\<exists>t'. for_range 0 256 (\<lambda>x t. do { v \<leftarrow> g (word_of_nat x :: u8); tab_set t x v }) t = Some t'
    \<and> length t' = 256 \<and> (\<forall>x. t' ! unat x = h x)"
proof -
  let ?P = "\<lambda>k t'. length t' = 256 \<and> (\<forall>x. unat x < k \<longrightarrow> t' ! unat x = h x)"
  have "\<exists>t'. for_range 0 256 (\<lambda>x t. do { v \<leftarrow> g (word_of_nat x); tab_set t x v }) t = Some t' \<and> ?P 256 t'"
  proof (rule for_range_rule [where P = ?P])
    fix k t
    assume "k < 256" and "?P k t"
    then show "\<exists>t'. do { v \<leftarrow> g (word_of_nat k); tab_set t k v } = Some t' \<and> ?P (Suc k) t'"
      by (auto simp: assms(1) nth_list_update less_Suc_eq)
  qed (simp_all add: assms(2))
  moreover have "unat (x :: u8) < 256" for x using unat_bound [of x] by simp
  ultimately show ?thesis by auto
qed

definition scalar_ok :: "gf256_ctx \<Rightarrow> bool" where
  "scalar_ok ctx \<longleftrightarrow> (\<forall>x y. gf256_mul ctx x y = Some (gmul x y))
     \<and> (\<forall>x y. y \<noteq> 0 \<longrightarrow> gf256_div ctx (gmul x y) y = Some x)
     \<and> (\<forall>x. x \<noteq> 0 \<longrightarrow> (\<exists>i. gf256_inv ctx x = Some i \<and> gmul x i = 1))
     \<and> (\<forall>x. gf256_sqr ctx x = Some (gmul x x))"


lemma gmul_inverse: assumes "x \<noteq> 0" shows "\<exists>i. gmul i x = 1"
proof -
  obtain n where n: "0 < n" "n \<le> 255" "gexp n = x" by (rule gexp_surj [OF assms])
  then have "gmul (gexp (255 - n)) x = 1" using gexp_add [of "255 - n" n] gexp_order by simp
  then show ?thesis ..
qed

lemma muldiv_ok_div:
  assumes "muldiv_ok ctx"
  shows "\<exists>q. gf256_div ctx x y = Some q \<and> (y \<noteq> 0 \<longrightarrow> gmul q y = x)"
proof (cases "y = 0")
  case True
  then show ?thesis using assms by (auto simp: muldiv_ok_def)
next
  case False
  then obtain i where i: "gmul i y = 1" using gmul_inverse by blast
  then have "gmul (gmul x i) y = x" by (simp add: gmul_assoc)
  then show ?thesis using assms False by (metis muldiv_ok_def)
qed

lemma gf256_inv_sqr_init_ok:
  assumes "ctx_sized ctx" and "muldiv_ok ctx"
  shows "\<exists>i s. gf256_inv_init ctx = Some (ctx\<lparr>GF256_INV_TABLE := i\<rparr>)
    \<and> gf256_sqr_init (ctx\<lparr>GF256_INV_TABLE := i\<rparr>) = Some (ctx\<lparr>GF256_INV_TABLE := i, GF256_SQR_TABLE := s\<rparr>)
    \<and> ctx_sized (ctx\<lparr>GF256_INV_TABLE := i, GF256_SQR_TABLE := s\<rparr>)
    \<and> scalar_ok (ctx\<lparr>GF256_INV_TABLE := i, GF256_SQR_TABLE := s\<rparr>)"
proof -
  note sized = assms(1) [unfolded ctx_sized_def]
  have "\<exists>h. \<forall>x. gf256_div ctx 1 x = Some (h x) \<and> (x \<noteq> 0 \<longrightarrow> gmul (h x) x = 1)"
    using muldiv_ok_div [OF assms(2), of 1] by metis
  then obtain h where h: "\<And>x. gf256_div ctx 1 x = Some (h x)" "\<And>x. x \<noteq> 0 \<Longrightarrow> gmul x (h x) = 1"
    using gmul_commute by metis
  obtain i where i: "gf256_inv_init ctx = Some (ctx\<lparr>GF256_INV_TABLE := i\<rparr>)" "length i = 256" "\<And>x. i ! unat x = h x"
    using fill_table [of "gf256_div ctx 1" h "GF256_INV_TABLE ctx", OF h(1)] sized
    by (auto simp: gf256_inv_init_def)
  let ?c = "ctx\<lparr>GF256_INV_TABLE := i\<rparr>"
  have mul: "gf256_mul ctx x y = Some (gmul x y)" for x y using assms(2) by (simp add: muldiv_ok_def)
  then have "gf256_mul ?c x x = Some (gmul x x)" for x by (simp add: gf256_mul_def)
  from fill_table [of "\<lambda>x. gf256_mul ?c x x" "\<lambda>x. gmul x x" "GF256_SQR_TABLE ctx", OF this] sized
  obtain s where s: "gf256_sqr_init ?c = Some (?c\<lparr>GF256_SQR_TABLE := s\<rparr>)" "length s = 256" "\<And>x. s ! unat x = gmul x x"
    by (auto simp: gf256_sqr_init_def)
  have lt: "unat (x :: u8) < 256" for x using unat_bound [of x] by simp
  have "scalar_ok (?c\<lparr>GF256_SQR_TABLE := s\<rparr>)"
    using assms(2) i s h(2) lt
    by (auto simp: scalar_ok_def muldiv_ok_def gf256_mul_def gf256_div_def gf256_inv_def gf256_sqr_def)
  moreover have "ctx_sized (?c\<lparr>GF256_SQR_TABLE := s\<rparr>)" using i(2) s(2) sized by (simp add: ctx_sized_def)
  ultimately show ?thesis using i(1) s(1) by (metis (no_types))
qed

end
