(* ===== verification/Gf256_Mem.thy ===== *)
theory Gf256_Mem
  imports Gf256
begin

text \<open>
  The bulk operations of \<open>gf256.cpp\<close>: a range of bytes is processed in vector registers of 32 and 16
  bytes, then in words of 8 and 4 bytes, then byte by byte.  Modelled are the desktop variant,
  with the vector extensions found at run time, and the portable variant of mobile targets without
  vector extensions.  A vector register is a list of 16 or 32 bytes, and the intrinsics
  are functions on such lists.

  Every operation is shown to be the plain byte-by-byte operation, for every length and
  every combination of extensions, without an access outside of its buffers; and the initialisation with its
  self-test is shown to succeed.
\<close>

unbundle bit_operations_syntax

section \<open>Vector registers\<close>

definition loadu :: "nat \<Rightarrow> bytes \<Rightarrow> nat \<Rightarrow> bytes option" where
  "loadu n b o' = (if o' + n \<le> length b then Some (slice b o' n) else None)"

definition storeu :: "bytes \<Rightarrow> nat \<Rightarrow> bytes \<Rightarrow> bytes option" where
  "storeu b o' v = (if o' + length v \<le> length b then Some (overwrite b o' v) else None)"

definition reg_xor :: "bytes \<Rightarrow> bytes \<Rightarrow> bytes" where
  "reg_xor = map2 (XOR)"

definition reg_and :: "bytes \<Rightarrow> bytes \<Rightarrow> bytes" where
  "reg_and = map2 (AND)"

text \<open>The value of little-endian bytes; a 64-bit lane of a register; the shift of all lanes; the byte
  shuffle within each group of 16 bytes.\<close>

definition le_word :: "bytes \<Rightarrow> 'a::len word" where
  "le_word bs = foldr (\<lambda>b v. ucast b OR push_bit 8 v) bs 0"

definition srli_epi64 :: "nat \<Rightarrow> bytes \<Rightarrow> bytes" where
  "srli_epi64 k x = map (\<lambda>i. byte_at (8 * (i mod 8)) (drop_bit k (le_word (slice x (8 * (i div 8)) 8) :: u64))) [0..<length x]"

definition shuffle_epi8 :: "bytes \<Rightarrow> bytes \<Rightarrow> bytes" where
  "shuffle_epi8 t m = map (\<lambda>i. if bit (m ! i) 7 then 0 else t ! (16 * (i div 16) + unat (m ! i AND 0x0f))) [0..<length m]"

section \<open>Loops over blocks\<close>

function while_blocks :: "nat \<Rightarrow> (nat \<Rightarrow> 's \<Rightarrow> 's option) \<Rightarrow> 's \<Rightarrow> nat \<Rightarrow> nat \<Rightarrow> ('s \<times> nat \<times> nat) option" where
  "while_blocks n body s o' bytes =
     (if 0 < n \<and> n \<le> bytes then do {
        s \<leftarrow> body o' s;
        while_blocks n body s (o' + n) (bytes - n) }
      else Some (s, o', bytes))"
  by pat_completeness auto
termination by (relation "measure (\<lambda>(n, body, s, o', bytes). bytes)") auto

declare while_blocks.simps [simp del]

definition for_blocks :: "nat \<Rightarrow> (nat \<Rightarrow> 's \<Rightarrow> 's option) \<Rightarrow> 's \<Rightarrow> nat \<Rightarrow> nat \<Rightarrow> ('s \<times> nat \<times> nat) option" where
  "for_blocks n body s o' bytes = do {
     let count = bytes div n;
     s \<leftarrow> for_range 0 count (\<lambda>i. body (o' + i * n)) s;
     Some (s, o' + count * n, bytes - count * n) }"

section \<open>Architecture\<close>

record gf256_arch =
  TARGET_MOBILE :: bool
  CpuHasAVX2 :: bool
  CpuHasSSSE3 :: bool

definition CPUID_EBX_AVX2 :: u32 where "CPUID_EBX_AVX2 = 0x20"
definition CPUID_ECX_SSSE3 :: u32 where "CPUID_ECX_SSSE3 = 0x200"

text \<open>The instruction \<open>cpuid\<close> is a parameter that gives the four registers.\<close>

definition gf256_architecture_init :: "bool \<Rightarrow> (nat \<Rightarrow> u32 list) \<Rightarrow> gf256_arch" where
  "gf256_architecture_init mobile cpuid =
     (if mobile then \<lparr> TARGET_MOBILE = True, CpuHasAVX2 = False, CpuHasSSSE3 = False \<rparr>
      else \<lparr> TARGET_MOBILE = False, CpuHasAVX2 = (cpuid 7 ! 1 AND CPUID_EBX_AVX2 \<noteq> 0),
             CpuHasSSSE3 = (cpuid 1 ! 2 AND CPUID_ECX_SSSE3 \<noteq> 0) \<rparr>)"

section \<open>Addition\<close>

definition add_block :: "nat \<Rightarrow> bytes \<Rightarrow> nat \<Rightarrow> bytes \<Rightarrow> bytes option" where
  "add_block n y o' x = do {
     x0 \<leftarrow> loadu n x o';
     y0 \<leftarrow> loadu n y o';
     storeu x o' (reg_xor x0 y0) }"

definition add_block4 :: "nat \<Rightarrow> bytes \<Rightarrow> nat \<Rightarrow> bytes \<Rightarrow> bytes option" where
  "add_block4 n y o' x = do {
     x0 \<leftarrow> loadu n x o';
     y0 \<leftarrow> loadu n y o';
     let x0 = reg_xor x0 y0;
     x1 \<leftarrow> loadu n x (o' + n);
     y1 \<leftarrow> loadu n y (o' + n);
     let x1 = reg_xor x1 y1;
     x2 \<leftarrow> loadu n x (o' + 2 * n);
     y2 \<leftarrow> loadu n y (o' + 2 * n);
     let x2 = reg_xor x2 y2;
     x3 \<leftarrow> loadu n x (o' + 3 * n);
     y3 \<leftarrow> loadu n y (o' + 3 * n);
     let x3 = reg_xor x3 y3;
     x \<leftarrow> storeu x o' x0;
     x \<leftarrow> storeu x (o' + n) x1;
     x \<leftarrow> storeu x (o' + 2 * n) x2;
     storeu x (o' + 3 * n) x3 }"

definition add_word8 :: "bytes \<Rightarrow> nat \<Rightarrow> bytes \<Rightarrow> bytes option" where
  "add_word8 y o' x = do { a \<leftarrow> ReadU64_LE x o'; b \<leftarrow> ReadU64_LE y o'; WriteU64_LE x o' (a XOR b) }"

definition add_word4 :: "bytes \<Rightarrow> nat \<Rightarrow> bytes \<Rightarrow> bytes option" where
  "add_word4 y o' x = do { a \<leftarrow> ReadU32_LE x o'; b \<leftarrow> ReadU32_LE y o'; WriteU32_LE x o' (a XOR b) }"

definition add_byte :: "bytes \<Rightarrow> nat \<Rightarrow> bytes \<Rightarrow> bytes option" where
  "add_byte y o' x = do { a \<leftarrow> rd8 x o'; b \<leftarrow> rd8 y o'; wr8 x o' (a XOR b) }"

text \<open>The switch over the last bytes falls through from the highest one to the lowest.\<close>

definition final_bytes :: "(nat \<Rightarrow> 's \<Rightarrow> 's option) \<Rightarrow> nat \<Rightarrow> nat \<Rightarrow> 's \<Rightarrow> 's option" where
  "final_bytes body o' n s = do {
     s \<leftarrow> (if n = 3 then body (o' + 2) s else Some s);
     s \<leftarrow> (if n = 3 \<or> n = 2 then body (o' + 1) s else Some s);
     (if n = 3 \<or> n = 2 \<or> n = 1 then body o' s else Some s) }"

text \<open>At most one block of 8 bytes, one of 4 bytes, and the last bytes.\<close>

definition small_blocks :: "(nat \<Rightarrow> 's \<Rightarrow> 's option) \<Rightarrow> (nat \<Rightarrow> 's \<Rightarrow> 's option) \<Rightarrow> (nat \<Rightarrow> 's \<Rightarrow> 's option) \<Rightarrow> nat \<Rightarrow> nat \<Rightarrow> 's \<Rightarrow> 's option" where
  "small_blocks body8 body4 body1 o' bytes s = do {
     let eight = bytes AND 8;
     s \<leftarrow> (if eight \<noteq> 0 then body8 o' s else Some s);
     let four = bytes AND 4;
     s \<leftarrow> (if four \<noteq> 0 then body4 (o' + eight) s else Some s);
     final_bytes body1 (o' + (eight + four)) (bytes AND 3) s }"

definition gf256_add_mem :: "gf256_arch \<Rightarrow> bytes \<Rightarrow> bytes \<Rightarrow> nat \<Rightarrow> bytes option" where
  "gf256_add_mem arch x y bytes = do {
     (x, o', bytes) \<leftarrow>
       (if TARGET_MOBILE arch then for_blocks 8 (add_word8 y) x 0 bytes
        else do {
          (x, o', bytes) \<leftarrow>
            (if CpuHasAVX2 arch then do {
               (x, o', bytes) \<leftarrow> while_blocks 128 (add_block4 32 y) x 0 bytes;
               while_blocks 32 (add_block 32 y) x o' bytes }
             else while_blocks 64 (add_block4 16 y) x 0 bytes);
          while_blocks 16 (add_block 16 y) x o' bytes });
     small_blocks (add_word8 y) (add_word4 y) (add_byte y) o' bytes x }"

definition add2_block :: "nat \<Rightarrow> bytes \<Rightarrow> bytes \<Rightarrow> nat \<Rightarrow> bytes \<Rightarrow> bytes option" where
  "add2_block n x y o' z = do {
     z0 \<leftarrow> loadu n z o';
     x0 \<leftarrow> loadu n x o';
     y0 \<leftarrow> loadu n y o';
     storeu z o' (reg_xor z0 (reg_xor x0 y0)) }"

definition add2_word8 :: "bytes \<Rightarrow> bytes \<Rightarrow> nat \<Rightarrow> bytes \<Rightarrow> bytes option" where
  "add2_word8 x y o' z = do { c \<leftarrow> ReadU64_LE z o'; a \<leftarrow> ReadU64_LE x o'; b \<leftarrow> ReadU64_LE y o'; WriteU64_LE z o' (c XOR (a XOR b)) }"

definition add2_word4 :: "bytes \<Rightarrow> bytes \<Rightarrow> nat \<Rightarrow> bytes \<Rightarrow> bytes option" where
  "add2_word4 x y o' z = do { c \<leftarrow> ReadU32_LE z o'; a \<leftarrow> ReadU32_LE x o'; b \<leftarrow> ReadU32_LE y o'; WriteU32_LE z o' (c XOR (a XOR b)) }"

definition add2_byte :: "bytes \<Rightarrow> bytes \<Rightarrow> nat \<Rightarrow> bytes \<Rightarrow> bytes option" where
  "add2_byte x y o' z = do { c \<leftarrow> rd8 z o'; a \<leftarrow> rd8 x o'; b \<leftarrow> rd8 y o'; wr8 z o' (c XOR (a XOR b)) }"

definition gf256_add2_mem :: "gf256_arch \<Rightarrow> bytes \<Rightarrow> bytes \<Rightarrow> bytes \<Rightarrow> nat \<Rightarrow> bytes option" where
  "gf256_add2_mem arch z x y bytes = do {
     (z, o', bytes) \<leftarrow>
       (if TARGET_MOBILE arch then for_blocks 8 (add2_word8 x y) z 0 bytes
        else do {
          (z, o', bytes) \<leftarrow>
            (if CpuHasAVX2 arch then for_blocks 32 (add2_block 32 x y) z 0 bytes else Some (z, 0, bytes));
          while_blocks 16 (add2_block 16 x y) z o' bytes });
     small_blocks (add2_word8 x y) (add2_word4 x y) (add2_byte x y) o' bytes z }"

definition addset_block :: "nat \<Rightarrow> bytes \<Rightarrow> bytes \<Rightarrow> nat \<Rightarrow> bytes \<Rightarrow> bytes option" where
  "addset_block n x y o' z = do {
     x0 \<leftarrow> loadu n x o';
     y0 \<leftarrow> loadu n y o';
     storeu z o' (reg_xor x0 y0) }"

definition addset_block4 :: "nat \<Rightarrow> bytes \<Rightarrow> bytes \<Rightarrow> nat \<Rightarrow> bytes \<Rightarrow> bytes option" where
  "addset_block4 n x y o' z = do {
     x0 \<leftarrow> loadu n x o';
     x1 \<leftarrow> loadu n x (o' + n);
     x2 \<leftarrow> loadu n x (o' + 2 * n);
     x3 \<leftarrow> loadu n x (o' + 3 * n);
     y0 \<leftarrow> loadu n y o';
     y1 \<leftarrow> loadu n y (o' + n);
     y2 \<leftarrow> loadu n y (o' + 2 * n);
     y3 \<leftarrow> loadu n y (o' + 3 * n);
     z \<leftarrow> storeu z o' (reg_xor x0 y0);
     z \<leftarrow> storeu z (o' + n) (reg_xor x1 y1);
     z \<leftarrow> storeu z (o' + 2 * n) (reg_xor x2 y2);
     storeu z (o' + 3 * n) (reg_xor x3 y3) }"

definition addset_word8 :: "bytes \<Rightarrow> bytes \<Rightarrow> nat \<Rightarrow> bytes \<Rightarrow> bytes option" where
  "addset_word8 x y o' z = do { a \<leftarrow> ReadU64_LE x o'; b \<leftarrow> ReadU64_LE y o'; WriteU64_LE z o' (a XOR b) }"

definition addset_word4 :: "bytes \<Rightarrow> bytes \<Rightarrow> nat \<Rightarrow> bytes \<Rightarrow> bytes option" where
  "addset_word4 x y o' z = do { a \<leftarrow> ReadU32_LE x o'; b \<leftarrow> ReadU32_LE y o'; WriteU32_LE z o' (a XOR b) }"

definition addset_byte :: "bytes \<Rightarrow> bytes \<Rightarrow> nat \<Rightarrow> bytes \<Rightarrow> bytes option" where
  "addset_byte x y o' z = do { a \<leftarrow> rd8 x o'; b \<leftarrow> rd8 y o'; wr8 z o' (a XOR b) }"

definition gf256_addset_mem :: "gf256_arch \<Rightarrow> bytes \<Rightarrow> bytes \<Rightarrow> bytes \<Rightarrow> nat \<Rightarrow> bytes option" where
  "gf256_addset_mem arch z x y bytes = do {
     (z, o', bytes) \<leftarrow>
       (if TARGET_MOBILE arch then for_blocks 8 (addset_word8 x y) z 0 bytes
        else do {
          (z, o', bytes) \<leftarrow>
            (if CpuHasAVX2 arch then for_blocks 32 (addset_block 32 x y) z 0 bytes
             else while_blocks 64 (addset_block4 16 x y) z 0 bytes);
          while_blocks 16 (addset_block 16 x y) z o' bytes });
     small_blocks (addset_word8 x y) (addset_word4 x y) (addset_byte x y) o' bytes z }"

section \<open>Multiplication\<close>

definition mul_reg :: "bytes \<Rightarrow> bytes \<Rightarrow> bytes \<Rightarrow> bytes" where
  "mul_reg table_lo_y table_hi_y x0 =
     (let clr_mask = replicate (length x0) 0x0f;
          l0 = reg_and x0 clr_mask;
          x0 = srli_epi64 4 x0;
          h0 = reg_and x0 clr_mask;
          l0 = shuffle_epi8 table_lo_y l0;
          h0 = shuffle_epi8 table_hi_y h0
      in reg_xor l0 h0)"

text \<open>An entry of the row \<open>table = GF256_MUL_TABLE + (y << 8)\<close>.\<close>

definition table_at :: "gf256_ctx \<Rightarrow> u8 \<Rightarrow> u8 \<Rightarrow> u8 option" where
  "table_at ctx y v = tab_get (GF256_MUL_TABLE ctx) (unat (push_bit 8 (ucast y :: u32)) + unat v)"

definition mul_lookup :: "gf256_ctx \<Rightarrow> u8 \<Rightarrow> bytes \<Rightarrow> nat \<Rightarrow> u8 option" where
  "mul_lookup ctx y x o' = do { v \<leftarrow> rd8 x o'; table_at ctx y v }"

definition mul_word8 :: "gf256_ctx \<Rightarrow> u8 \<Rightarrow> bytes \<Rightarrow> nat \<Rightarrow> u64 option" where
  "mul_word8 ctx y x o' = do {
     t0 \<leftarrow> mul_lookup ctx y x o'; t1 \<leftarrow> mul_lookup ctx y x (o' + 1);
     t2 \<leftarrow> mul_lookup ctx y x (o' + 2); t3 \<leftarrow> mul_lookup ctx y x (o' + 3);
     t4 \<leftarrow> mul_lookup ctx y x (o' + 4); t5 \<leftarrow> mul_lookup ctx y x (o' + 5);
     t6 \<leftarrow> mul_lookup ctx y x (o' + 6); t7 \<leftarrow> mul_lookup ctx y x (o' + 7);
     Some (ucast t0 OR push_bit 8 (ucast t1) OR push_bit 16 (ucast t2) OR push_bit 24 (ucast t3)
       OR push_bit 32 (ucast t4) OR push_bit 40 (ucast t5) OR push_bit 48 (ucast t6) OR push_bit 56 (ucast t7)) }"

definition mul_word4 :: "gf256_ctx \<Rightarrow> u8 \<Rightarrow> bytes \<Rightarrow> nat \<Rightarrow> u32 option" where
  "mul_word4 ctx y x o' = do {
     t0 \<leftarrow> mul_lookup ctx y x o'; t1 \<leftarrow> mul_lookup ctx y x (o' + 1);
     t2 \<leftarrow> mul_lookup ctx y x (o' + 2); t3 \<leftarrow> mul_lookup ctx y x (o' + 3);
     Some (ucast t0 OR push_bit 8 (ucast t1) OR push_bit 16 (ucast t2) OR push_bit 24 (ucast t3)) }"

text \<open>The end of a product: words of 8 bytes, one of 4 bytes, and the last bytes.\<close>

definition mul_tail :: "(nat \<Rightarrow> 's \<Rightarrow> 's option) \<Rightarrow> (nat \<Rightarrow> 's \<Rightarrow> 's option) \<Rightarrow> (nat \<Rightarrow> 's \<Rightarrow> 's option) \<Rightarrow> nat \<Rightarrow> nat \<Rightarrow> 's \<Rightarrow> 's option" where
  "mul_tail body8 body4 body1 o' bytes z = do {
     (z, o', bytes) \<leftarrow> while_blocks 8 body8 z o' bytes;
     let four = bytes AND 4;
     z \<leftarrow> (if four \<noteq> 0 then body4 o' z else Some z);
     final_bytes body1 (o' + four) (bytes AND 3) z }"

definition mul_block :: "nat \<Rightarrow> bytes \<Rightarrow> bytes \<Rightarrow> bytes \<Rightarrow> nat \<Rightarrow> bytes \<Rightarrow> bytes option" where
  "mul_block n lo hi x o' z = do { x0 \<leftarrow> loadu n x o'; storeu z o' (mul_reg lo hi x0) }"

definition gf256_mul_mem :: "gf256_arch \<Rightarrow> gf256_ctx \<Rightarrow> bytes \<Rightarrow> bytes \<Rightarrow> u8 \<Rightarrow> nat \<Rightarrow> bytes option" where
  "gf256_mul_mem arch ctx z x y bytes =
     (if y \<le> 1 then
        (if y = 0 then storeu z 0 (replicate bytes 0)
         else do { x0 \<leftarrow> loadu bytes x 0; storeu z 0 x0 })
      else do {
        (z, o', bytes) \<leftarrow>
          (if \<not> TARGET_MOBILE arch \<and> 32 \<le> bytes \<and> CpuHasAVX2 arch then do {
             table_lo_y \<leftarrow> tab_get (MM256_TABLE_LO_Y ctx) (unat y);
             table_hi_y \<leftarrow> tab_get (MM256_TABLE_HI_Y ctx) (unat y);
             while_blocks 32 (mul_block 32 table_lo_y table_hi_y x) z 0 bytes }
           else Some (z, 0, bytes));
        (z, o', bytes) \<leftarrow>
          (if \<not> TARGET_MOBILE arch \<and> 16 \<le> bytes \<and> CpuHasSSSE3 arch then do {
             table_lo_y \<leftarrow> tab_get (MM128_TABLE_LO_Y ctx) (unat y);
             table_hi_y \<leftarrow> tab_get (MM128_TABLE_HI_Y ctx) (unat y);
             while_blocks 16 (mul_block 16 table_lo_y table_hi_y x) z o' bytes }
           else Some (z, o', bytes));
        mul_tail (\<lambda>o' z. do { w \<leftarrow> mul_word8 ctx y x o'; WriteU64_LE z o' w })
          (\<lambda>o' z. do { w \<leftarrow> mul_word4 ctx y x o'; WriteU32_LE z o' w })
          (\<lambda>o' z. do { v \<leftarrow> mul_lookup ctx y x o'; wr8 z o' v }) o' bytes z })"

definition muladd_block :: "nat \<Rightarrow> bytes \<Rightarrow> bytes \<Rightarrow> bytes \<Rightarrow> nat \<Rightarrow> bytes \<Rightarrow> bytes option" where
  "muladd_block n lo hi x o' z = do {
     x0 \<leftarrow> loadu n x o';
     let p0 = mul_reg lo hi x0;
     z0 \<leftarrow> loadu n z o';
     storeu z o' (reg_xor p0 z0) }"

text \<open>The two unrolled loops: 64 bytes with 32-byte registers, one register after the other, and 32 bytes
  with 16-byte registers, where both registers are loaded before the upper one is stored first.\<close>

definition muladd_block2_avx2 :: "bytes \<Rightarrow> bytes \<Rightarrow> bytes \<Rightarrow> nat \<Rightarrow> bytes \<Rightarrow> bytes option" where
  "muladd_block2_avx2 lo hi x o' z = do {
     x0 \<leftarrow> loadu 32 x o';
     z0 \<leftarrow> loadu 32 z o';
     z \<leftarrow> storeu z o' (reg_xor (mul_reg lo hi x0) z0);
     x1 \<leftarrow> loadu 32 x (o' + 32);
     z1 \<leftarrow> loadu 32 z (o' + 32);
     storeu z (o' + 32) (reg_xor (mul_reg lo hi x1) z1) }"

definition muladd_block2_ssse3 :: "bytes \<Rightarrow> bytes \<Rightarrow> bytes \<Rightarrow> nat \<Rightarrow> bytes \<Rightarrow> bytes option" where
  "muladd_block2_ssse3 lo hi x o' z = do {
     x1 \<leftarrow> loadu 16 x (o' + 16);
     z1 \<leftarrow> loadu 16 z (o' + 16);
     x0 \<leftarrow> loadu 16 x o';
     z0 \<leftarrow> loadu 16 z o';
     z \<leftarrow> storeu z (o' + 16) (reg_xor (mul_reg lo hi x1) z1);
     storeu z o' (reg_xor (mul_reg lo hi x0) z0) }"

definition gf256_muladd_mem :: "gf256_arch \<Rightarrow> gf256_ctx \<Rightarrow> bytes \<Rightarrow> u8 \<Rightarrow> bytes \<Rightarrow> nat \<Rightarrow> bytes option" where
  "gf256_muladd_mem arch ctx z y x bytes =
     (if y \<le> 1 then (if y = 1 then gf256_add_mem arch z x bytes else Some z)
      else do {
        (z, o', bytes) \<leftarrow>
          (if \<not> TARGET_MOBILE arch \<and> 32 \<le> bytes \<and> CpuHasAVX2 arch then do {
             table_lo_y \<leftarrow> tab_get (MM256_TABLE_LO_Y ctx) (unat y);
             table_hi_y \<leftarrow> tab_get (MM256_TABLE_HI_Y ctx) (unat y);
             (z, o', bytes) \<leftarrow> for_blocks 64 (muladd_block2_avx2 table_lo_y table_hi_y x) z 0 bytes;
             (if 32 \<le> bytes then do {
                z \<leftarrow> muladd_block 32 table_lo_y table_hi_y x o' z;
                Some (z, o' + 32, bytes - 32) }
              else Some (z, o', bytes)) }
           else Some (z, 0, bytes));
        (z, o', bytes) \<leftarrow>
          (if \<not> TARGET_MOBILE arch \<and> 16 \<le> bytes \<and> CpuHasSSSE3 arch then do {
             table_lo_y \<leftarrow> tab_get (MM128_TABLE_LO_Y ctx) (unat y);
             table_hi_y \<leftarrow> tab_get (MM128_TABLE_HI_Y ctx) (unat y);
             (z, o', bytes) \<leftarrow> while_blocks 32 (muladd_block2_ssse3 table_lo_y table_hi_y x) z o' bytes;
             while_blocks 16 (muladd_block 16 table_lo_y table_hi_y x) z o' bytes }
           else Some (z, o', bytes));
        mul_tail (\<lambda>o' z. do { w \<leftarrow> mul_word8 ctx y x o'; a \<leftarrow> ReadU64_LE z o'; WriteU64_LE z o' (a XOR w) })
          (\<lambda>o' z. do { w \<leftarrow> mul_word4 ctx y x o'; a \<leftarrow> ReadU32_LE z o'; WriteU32_LE z o' (a XOR w) })
          (\<lambda>o' z. do { v \<leftarrow> mul_lookup ctx y x o'; a \<leftarrow> rd8 z o'; wr8 z o' (a XOR v) }) o' bytes z })"

definition gf256_div_mem :: "gf256_arch \<Rightarrow> gf256_ctx \<Rightarrow> bytes \<Rightarrow> bytes \<Rightarrow> u8 \<Rightarrow> nat \<Rightarrow> bytes option" where
  "gf256_div_mem arch ctx z x y bytes = do {
     i \<leftarrow> (if y = 1 then Some 1 else tab_get (GF256_INV_TABLE ctx) (unat y));
     gf256_mul_mem arch ctx z x i bytes }"

section \<open>Exchange of buffers\<close>

definition swap_block :: "nat \<Rightarrow> nat \<Rightarrow> bytes \<times> bytes \<Rightarrow> (bytes \<times> bytes) option" where
  "swap_block n o' = (\<lambda>(x, y). do {
     x0 \<leftarrow> loadu n x o';
     y0 \<leftarrow> loadu n y o';
     x \<leftarrow> storeu x o' y0;
     y \<leftarrow> storeu y o' x0;
     Some (x, y) })"

definition gf256_memswap :: "gf256_arch \<Rightarrow> bytes \<Rightarrow> bytes \<Rightarrow> nat \<Rightarrow> (bytes \<times> bytes) option" where
  "gf256_memswap arch x y bytes = do {
     (s, o', bytes) \<leftarrow>
       (if TARGET_MOBILE arch then for_blocks 8 (swap_block 8) (x, y) 0 bytes
        else while_blocks 16 (swap_block 16) (x, y) 0 bytes);
     small_blocks (swap_block 8) (swap_block 4) (swap_block 1) o' bytes s }"

section \<open>Initialisation\<close>

definition kTestBufferBytes :: nat where "kTestBufferBytes = 32 + 16 + 8 + 4 + 2 + 1"
definition kTestBufferAllocated :: nat where "kTestBufferAllocated = 64"

record SelfTestBuffersT =
  bufA :: bytes
  bufB :: bytes
  bufC :: bytes

definition m_SelfTestBuffers :: SelfTestBuffersT where
  "m_SelfTestBuffers = \<lparr> bufA = replicate kTestBufferAllocated 0, bufB = replicate kTestBufferAllocated 0,
     bufC = replicate kTestBufferAllocated 0 \<rparr>"

definition gf256_mul_mem_row :: "gf256_arch \<Rightarrow> nat \<Rightarrow> gf256_ctx \<times> SelfTestBuffersT \<Rightarrow> (gf256_ctx \<times> SelfTestBuffersT) option" where
  "gf256_mul_mem_row arch y = (\<lambda>(ctx, t). do {
     (lo, hi) \<leftarrow> for_range 0 16 (\<lambda>x (lo, hi). do {
         p \<leftarrow> gf256_mul ctx (word_of_nat x) (word_of_nat y);
         lo \<leftarrow> tab_set lo x p;
         q \<leftarrow> gf256_mul ctx (push_bit 4 (word_of_nat x)) (word_of_nat y);
         hi \<leftarrow> tab_set hi x q;
         Some (lo, hi) }) (bufA t, bufB t);
     let t = t\<lparr>bufA := lo, bufB := hi\<rparr>;
     ctx \<leftarrow> (if TARGET_MOBILE arch then Some ctx
       else do {
         table_lo \<leftarrow> loadu 16 lo 0;
         table_hi \<leftarrow> loadu 16 hi 0;
         l \<leftarrow> tab_set (MM128_TABLE_LO_Y ctx) y table_lo;
         h \<leftarrow> tab_set (MM128_TABLE_HI_Y ctx) y table_hi;
         let ctx = ctx\<lparr>MM128_TABLE_LO_Y := l, MM128_TABLE_HI_Y := h\<rparr>;
         (if CpuHasAVX2 arch then do {
            l2 \<leftarrow> tab_set (MM256_TABLE_LO_Y ctx) y (table_lo @ table_lo);
            h2 \<leftarrow> tab_set (MM256_TABLE_HI_Y ctx) y (table_hi @ table_hi);
            Some (ctx\<lparr>MM256_TABLE_LO_Y := l2, MM256_TABLE_HI_Y := h2\<rparr>) }
          else Some ctx) });
     Some (ctx, t) })"

definition gf256_mul_mem_init :: "gf256_arch \<Rightarrow> gf256_ctx \<times> SelfTestBuffersT \<Rightarrow> (gf256_ctx \<times> SelfTestBuffersT) option" where
  "gf256_mul_mem_init arch = for_range 0 256 (gf256_mul_mem_row arch)"

definition kEndianTestData :: bytes where "kEndianTestData = [4, 3, 2, 1]"

definition IsExpectedEndian :: "bool option" where
  "IsExpectedEndian = do { v \<leftarrow> ReadU32_LE kEndianTestData 0; Some (0x01020304 = v) }"

definition gf256_check_product :: "gf256_ctx \<Rightarrow> nat \<Rightarrow> nat \<Rightarrow> bool option" where
  "gf256_check_product ctx i j = do {
     prod \<leftarrow> gf256_mul ctx (word_of_nat i) (word_of_nat j);
     ok \<leftarrow> (if i \<noteq> 0 \<and> j \<noteq> 0 then do {
         div1 \<leftarrow> gf256_div ctx prod (word_of_nat i);
         (if unat div1 \<noteq> j then Some False
          else do {
            div2 \<leftarrow> gf256_div ctx prod (word_of_nat j);
            Some (unat div2 = i) }) }
       else Some (prod = 0));
     Some (ok \<and> \<not> (j = 1 \<and> unat prod \<noteq> i)) }"

definition check_filled :: "bytes \<Rightarrow> u8 \<Rightarrow> bool option" where
  "check_filled b v = check_all (\<lambda>i. do { a \<leftarrow> rd8 b i; Some (a = v) }) [0..<kTestBufferBytes]"

definition fill :: "bytes \<Rightarrow> u8 \<Rightarrow> bytes option" where
  "fill b v = for_range 0 kTestBufferBytes (\<lambda>i b. wr8 b i v) b"

definition gf256_self_test :: "gf256_arch \<Rightarrow> gf256_ctx \<Rightarrow> nat \<times> nat \<times> nat \<Rightarrow> nat \<Rightarrow> SelfTestBuffersT \<Rightarrow> (bool \<times> SelfTestBuffersT) option" where
  "gf256_self_test arch ctx = (\<lambda>(addrA, addrB, addrC) align t.
     (if addrA mod align \<noteq> 0 \<or> addrB mod align \<noteq> 0 \<or> addrC mod align \<noteq> 0 then Some (False, t)
      else do {
        ok \<leftarrow> check_all (\<lambda>i. check_all (gf256_check_product ctx i) [0..<256]) [0..<256];
        if \<not> ok then Some (False, t) else do {
        a \<leftarrow> wr8 (bufA t) kTestBufferBytes 0x5a;
        b \<leftarrow> wr8 (bufB t) kTestBufferBytes 0x5a;
        c \<leftarrow> wr8 (bufC t) kTestBufferBytes 0x5a;
        a \<leftarrow> fill a 0x1f;
        b \<leftarrow> fill b 0xf7;
        a \<leftarrow> gf256_add_mem arch a b kTestBufferBytes;
        ok \<leftarrow> check_filled a (0x1f XOR 0xf7);
        if \<not> ok then Some (False, \<lparr> bufA = a, bufB = b, bufC = c \<rparr>) else do {
        a \<leftarrow> fill a 0x1f;
        b \<leftarrow> fill b 0xf7;
        c \<leftarrow> fill c 0x71;
        a \<leftarrow> gf256_add2_mem arch a b c kTestBufferBytes;
        ok \<leftarrow> check_filled a (0x1f XOR 0xf7 XOR 0x71);
        if \<not> ok then Some (False, \<lparr> bufA = a, bufB = b, bufC = c \<rparr>) else do {
        a \<leftarrow> fill a 0x55;
        b \<leftarrow> fill b 0xaa;
        c \<leftarrow> fill c 0x6c;
        a \<leftarrow> gf256_addset_mem arch a b c kTestBufferBytes;
        ok \<leftarrow> check_filled a (0xaa XOR 0x6c);
        if \<not> ok then Some (False, \<lparr> bufA = a, bufB = b, bufC = c \<rparr>) else do {
        a \<leftarrow> fill a 0xff;
        b \<leftarrow> fill b 0xaa;
        expectedMulAdd \<leftarrow> gf256_mul ctx 0xaa 0x6c;
        a \<leftarrow> gf256_muladd_mem arch ctx a 0x6c b kTestBufferBytes;
        ok \<leftarrow> check_filled a (expectedMulAdd XOR 0xff);
        if \<not> ok then Some (False, \<lparr> bufA = a, bufB = b, bufC = c \<rparr>) else do {
        a \<leftarrow> fill a 0xff;
        b \<leftarrow> fill b 0x55;
        expectedMul \<leftarrow> gf256_mul ctx 0xa2 0x55;
        a \<leftarrow> gf256_mul_mem arch ctx a b 0xa2 kTestBufferBytes;
        ok \<leftarrow> check_filled a expectedMul;
        if \<not> ok then Some (False, \<lparr> bufA = a, bufB = b, bufC = c \<rparr>) else do {
        va \<leftarrow> rd8 a kTestBufferBytes;
        vb \<leftarrow> rd8 b kTestBufferBytes;
        vc \<leftarrow> rd8 c kTestBufferBytes;
        Some (va = 0x5a \<and> vb = 0x5a \<and> vc = 0x5a, \<lparr> bufA = a, bufB = b, bufC = c \<rparr>) }}}}}}}))"

definition GF256_VERSION :: int where "GF256_VERSION = 2"

text \<open>The static state of the library: the context, the flag and the buffers of the self-test.\<close>

record gf256_state =
  lib_ctx :: gf256_ctx
  Initialized :: bool
  lib_buffers :: SelfTestBuffersT
  lib_arch :: gf256_arch

definition gf256_init :: "bool \<Rightarrow> (nat \<Rightarrow> u32 list) \<Rightarrow> nat \<times> nat \<times> nat \<Rightarrow> nat \<Rightarrow> int \<Rightarrow> gf256_state \<Rightarrow> (int \<times> gf256_state) option" where
  "gf256_init mobile cpuid addrs align version st =
     (if version \<noteq> GF256_VERSION then Some (-1, st)
      else if Initialized st then Some (0, st)
      else do {
        let st = st\<lparr>Initialized := True\<rparr>;
        e \<leftarrow> IsExpectedEndian;
        if \<not> e then Some (-2, st) else do {
        let a = gf256_architecture_init mobile cpuid;
        let c = gf256_poly_init kDefaultPolynomialIndex (lib_ctx st);
        c \<leftarrow> gf256_explog_init c;
        c \<leftarrow> gf256_muldiv_init c;
        c \<leftarrow> gf256_inv_init c;
        c \<leftarrow> gf256_sqr_init c;
        (c, t) \<leftarrow> gf256_mul_mem_init a (c, lib_buffers st);
        (ok, t) \<leftarrow> gf256_self_test a c addrs align t;
        let st = st\<lparr>lib_ctx := c, lib_buffers := t, lib_arch := a\<rparr>;
        Some (if ok then 0 else -3, st) }})"

section \<open>Block-wise processing\<close>

text \<open>The buffer \<open>z\<close> after its first \<open>k\<close> bytes were replaced by the values of \<open>F\<close>.\<close>

definition filled :: "(nat \<Rightarrow> u8) \<Rightarrow> bytes \<Rightarrow> nat \<Rightarrow> bytes" where
  "filled F z k = map F [0..<k] @ drop k z"

text \<open>A body that replaces the \<open>n\<close> bytes at its offset by the values of \<open>F\<close>, as long as these bytes are
  the original ones.\<close>

definition block_step :: "(nat \<Rightarrow> u8) \<Rightarrow> bytes \<Rightarrow> nat \<Rightarrow> nat \<Rightarrow> (nat \<Rightarrow> bytes \<Rightarrow> bytes option) \<Rightarrow> bool" where
  "block_step F z N n body \<longleftrightarrow> (\<forall>b k. k + n \<le> N \<longrightarrow> length b = length z \<longrightarrow> slice b k n = slice z k n
     \<longrightarrow> body k b = Some (overwrite b k (map F [k..<k + n])))"

lemma length_filled [simp]: "k \<le> length z \<Longrightarrow> length (filled F z k) = length z"
  by (simp add: filled_def)

lemma nth_filled: "k \<le> length z \<Longrightarrow> i < length z \<Longrightarrow> filled F z k ! i = (if i < k then F i else z ! i)"
  by (simp add: filled_def nth_append)

lemma filled_0 [simp]: "filled F z 0 = z"
  by (simp add: filled_def)

lemma overwrite_filled:
  assumes "k + n \<le> length z"
  shows "overwrite (filled F z k) k (map F [k..<k + n]) = filled F z (k + n)"
  using assms by (intro nth_equalityI) (auto simp: nth_overwrite nth_filled)

lemma block_stepD:
  assumes "block_step F z N n body" and "k + n \<le> N" and "N \<le> length z"
  shows "body k (filled F z k) = Some (filled F z (k + n))"
proof -
  have "slice (filled F z k) k n = slice z k n" using assms by (intro nth_equalityI) (auto simp: nth_slice nth_filled)
  then have "body k (filled F z k) = Some (overwrite (filled F z k) k (map F [k..<k + n]))"
    using assms by (simp add: block_step_def)
  then show ?thesis using assms overwrite_filled by simp
qed

text \<open>A sequence of states that the bodies follow, one block at a time.\<close>

definition follows :: "(nat \<Rightarrow> 's) \<Rightarrow> nat \<Rightarrow> nat \<Rightarrow> (nat \<Rightarrow> 's \<Rightarrow> 's option) \<Rightarrow> bool" where
  "follows S N n body \<longleftrightarrow> (\<forall>k. k + n \<le> N \<longrightarrow> body k (S k) = Some (S (k + n)))"

lemma follows_filled: "block_step F z N n body \<Longrightarrow> N \<le> length z \<Longrightarrow> follows (filled F z) N n body"
  by (simp add: follows_def block_stepD)

lemma while_blocks_follows:
  assumes "follows S N n body" and "0 < n" and "k + m \<le> N"
  shows "while_blocks n body (S k) k m = Some (S (k + m - m mod n), k + m - m mod n, m mod n)"
  using assms(3)
proof (induction m arbitrary: k rule: less_induct)
  case (less m)
  show ?case
  proof (cases "n \<le> m")
    case True
    have "while_blocks n body (S k) k m = while_blocks n body (S (k + n)) (k + n) (m - n)"
      using assms(1,2) True less.prems by (subst while_blocks.simps) (simp add: follows_def)
    also have "\<dots> = Some (S (k + m - m mod n), k + m - m mod n, m mod n)"
      using less.IH [of "m - n" "k + n"] True assms(2) less.prems by (simp add: le_mod_geq)
    finally show ?thesis .
  next
    case False
    then show ?thesis by (subst while_blocks.simps) simp
  qed
qed

lemma for_blocks_follows:
  assumes "follows S N n body" and "0 < n" and "k + m \<le> N"
  shows "for_blocks n body (S k) k m = Some (S (k + m - m mod n), k + m - m mod n, m mod n)"
proof -
  have le: "i * n + n \<le> m" if "i < m div n" for i
    using that mult_le_mono1 [of "Suc i" "m div n" n] by (metis Suc_leI add.commute div_times_less_eq_dividend le_trans mult_Suc)
  have "\<exists>s. for_range 0 (m div n) (\<lambda>i. body (k + i * n)) (S k) = Some s \<and> s = S (k + m div n * n)"
  proof (rule for_range_rule [where P = "\<lambda>i s. s = S (k + i * n)"])
    fix i s
    assume i: "i < m div n" and s: "s = S (k + i * n)"
    have "body (k + i * n) s = Some (S (k + i * n + n))"
      unfolding s using le [OF i] assms(1,3) by (simp add: follows_def)
    then show "\<exists>s'. body (k + i * n) s = Some s' \<and> s' = S (k + Suc i * n)" by (simp add: ac_simps)
  qed simp_all
  moreover have "k + m div n * n = k + m - m mod n" "m - m div n * n = m mod n"
    by (simp_all add: minus_mod_eq_div_mult [symmetric] minus_div_mult_eq_mod)
  ultimately show ?thesis by (simp add: for_blocks_def Let_def)
qed

lemmas while_blocks_filled = while_blocks_follows [OF follows_filled]
lemmas for_blocks_filled = for_blocks_follows [OF follows_filled]

lemma small_masks:
  assumes "n < 16"
  shows "(n AND 8) + (n AND 4) + (n AND 3) = n" "n AND 8 = 0 \<or> n AND 8 = 8" "n AND 4 = 0 \<or> n AND 4 = 4"
    "n AND 3 < (4 :: nat)"
proof -
  have "n \<in> {0, 1, 2, 3, 4, 5, 6, 7, 8, 9, 10, 11, 12, 13, 14, 15}" using assms by (simp, arith)
  then show "(n AND 8) + (n AND 4) + (n AND 3) = n" "n AND 8 = 0 \<or> n AND 8 = 8" "n AND 4 = 0 \<or> n AND 4 = 4"
    "n AND 3 < (4 :: nat)" by (elim insertE emptyE; simp)+
qed

lemma final_bytes_filled:
  assumes "block_step F z N 1 body" and "k + m \<le> N" and "m < 4" and "N \<le> length z"
  shows "final_bytes body k m (filled F z k) = Some (filled F z (k + m))"
proof -
  have step: "body i b = Some (b[i := F i])" if "i < N" "length b = length z" "b ! i = z ! i" for i b
  proof -
    have "slice b i 1 = slice z i 1" using that assms(4) by (intro nth_equalityI) (auto simp: nth_slice)
    then have "body i b = Some (overwrite b i (map F [i..<i + 1]))"
      using assms(1)[unfolded block_step_def, rule_format, of i b] that by simp
    then show ?thesis using that assms(4) by (simp add: overwrite_upd_front)
  qed
  have "m \<in> {0, 1, 2, 3}" using assms(3) by auto
  then show ?thesis
    using assms(2,4) by (elim insertE emptyE)
      (auto simp: final_bytes_def step nth_filled nth_list_update less_Suc_eq intro!: nth_equalityI)
qed

lemma small_blocks_follows:
  assumes "follows S N 8 body8" and "follows S N 4 body4"
    and "\<And>k m. k + m \<le> N \<Longrightarrow> m < 4 \<Longrightarrow> final_bytes body1 k m (S k) = Some (S (k + m))"
    and "k + m \<le> N" and "m < 16"
  shows "small_blocks body8 body4 body1 k m (S k) = Some (S (k + m))"
proof -
  note masks = small_masks [OF assms(5)]
  let ?e = "m AND 8" and ?f = "m AND 4" and ?r = "m AND 3"
  have e: "(if ?e \<noteq> 0 then body8 k (S k) else Some (S k)) = Some (S (k + ?e))"
    using assms(1,4) masks by (auto simp: follows_def)
  have f: "(if ?f \<noteq> 0 then body4 (k + ?e) (S (k + ?e)) else Some (S (k + ?e))) = Some (S (k + ?e + ?f))"
    using assms(2,4) masks by (auto simp: follows_def)
  have r: "final_bytes body1 (k + ?e + ?f) ?r (S (k + ?e + ?f)) = Some (S (k + ?e + ?f + ?r))"
    by (rule assms(3)) (use masks assms(4) in linarith)+
  have "k + ?e + ?f + ?r = k + m" using masks(1) by simp
  then show ?thesis unfolding small_blocks_def Let_def e f using r f by (simp add: add.assoc)
qed

lemma small_blocks_filled:
  assumes "block_step F z N 8 body8" and "block_step F z N 4 body4" and "block_step F z N 1 body1"
    and "k + m \<le> N" and "m < 16" and "N \<le> length z"
  shows "small_blocks body8 body4 body1 k m (filled F z k) = Some (filled F z (k + m))"
  using assms by (intro small_blocks_follows follows_filled final_bytes_filled)

section \<open>Words and registers are blocks of bytes\<close>

lemma bit_le_word:
  "bit (le_word bs :: 'a::len word) n \<longleftrightarrow> n < LENGTH('a) \<and> n div 8 < length bs \<and> bit (bs ! (n div 8)) (n mod 8)"
proof (induction bs arbitrary: n)
  case (Cons b bs)
  show ?case
  proof (cases "n < 8")
    case True
    then show ?thesis by (simp add: le_word_def bit_simps)
  next
    case False
    then have "n div 8 = Suc ((n - 8) div 8)" "n mod 8 = (n - 8) mod 8" by (simp_all add: le_div_geq le_mod_geq)
    moreover have "\<not> bit b n" using False bit_imp_le_length [of b n] by auto
    moreover have "bit (le_word (b # bs) :: 'a word) n \<longleftrightarrow> n < LENGTH('a) \<and> bit (le_word bs :: 'a word) (n - 8)"
      using False \<open>\<not> bit b n\<close> by (auto simp: le_word_def bit_simps)
    ultimately show ?thesis using False Cons.IH [of "n - 8"] by auto
  qed
qed (simp add: le_word_def)

lemma le_bytes_le_word:
  assumes "8 * length bs \<le> LENGTH('a)"
  shows "le_bytes (length bs) (le_word bs :: 'a::len word) = bs"
proof (rule nth_equalityI)
  fix i
  assume "i < length (le_bytes (length bs) (le_word bs :: 'a word))"
  then have i: "i < length bs" by simp
  have "bit (byte_at (8 * i) (le_word bs :: 'a word)) n = bit (bs ! i) n" if "n < 8" for n
    using that i assms by (simp add: bit_byte_at bit_le_word)
  then show "le_bytes (length bs) (le_word bs :: 'a word) ! i = bs ! i" using i by (intro bit_word_eqI) simp
qed simp

lemma ReadU64_LE_word: "k + 8 \<le> length b \<Longrightarrow> ReadU64_LE b k = Some (le_word (slice b k 8))"
  using le_bytes_le_word [of "slice b k 8", where 'a = 64] by (intro ReadU64_LE_eq) simp_all

lemma ReadU32_LE_word: "k + 4 \<le> length b \<Longrightarrow> ReadU32_LE b k = Some (le_word (slice b k 4))"
  using le_bytes_le_word [of "slice b k 4", where 'a = 32] by (intro ReadU32_LE_eq) simp_all

lemma le_word_xor:
  assumes "length xs = length ys"
  shows "(le_word xs XOR le_word ys :: 'a::len word) = le_word (map2 (XOR) xs ys)"
  using assms by (intro bit_word_eqI) (auto simp: bit_le_word bit_simps)

lemma le_bytes_8 [simp]: "length xs = 8 \<Longrightarrow> le_bytes 8 (le_word xs :: u64) = xs"
  using le_bytes_le_word [of xs, where 'a = 64] by simp

lemma le_bytes_4 [simp]: "length xs = 4 \<Longrightarrow> le_bytes 4 (le_word xs :: u32) = xs"
  using le_bytes_le_word [of xs, where 'a = 32] by simp

lemma le_word_4: "(ucast t0 OR push_bit 8 (ucast t1) OR push_bit 16 (ucast t2) OR push_bit 24 (ucast t3) :: u32)
    = le_word [t0, t1, t2, t3]"
  by (simp add: le_word_def push_bit_or)

lemma le_word_8: "(ucast t0 OR push_bit 8 (ucast t1) OR push_bit 16 (ucast t2) OR push_bit 24 (ucast t3)
       OR push_bit 32 (ucast t4) OR push_bit 40 (ucast t5) OR push_bit 48 (ucast t6) OR push_bit 56 (ucast t7) :: u64)
    = le_word [t0, t1, t2, t3, t4, t5, t6, t7]"
  by (simp add: le_word_def push_bit_or)

lemma slice_map: "k + n \<le> length b \<Longrightarrow> slice b k n = map ((!) b) [k..<k + n]"
  by (intro nth_equalityI) (simp_all add: nth_slice)

lemma map2_map_map: "map2 f (map g xs) (map h xs) = map (\<lambda>x. f (g x) (h x)) xs"
  by (induction xs) simp_all

named_theorems blocks \<open>block-wise bodies as values of bytes\<close>

lemmas [blocks] = loadu_def storeu_def reg_xor_def slice_map map2_map_map ReadU64_LE_word ReadU32_LE_word le_word_xor
  WriteU64_LE_eq WriteU32_LE_eq rd8_in wr8_overwrite

text \<open>Two adjacent steps make one of the double size.\<close>

lemma block_step_append:
  assumes "block_step F z N m f" and "block_step F z N n g"
    and "\<And>b k. k + (m + n) \<le> N \<Longrightarrow> length b = length z \<Longrightarrow> h k b = do { b \<leftarrow> f k b; g (k + m) b }" and "N \<le> length z"
  shows "block_step F z N (m + n) h"
  unfolding block_step_def
proof (intro allI impI)
  fix b k
  assume a: "k + (m + n) \<le> N" "length b = length z" "slice b k (m + n) = slice z k (m + n)"
  have nth: "b ! (k + i) = z ! (k + i)" if "i < m + n" for i
    using arg_cong [OF a(3), of "\<lambda>l. l ! i"] that a(1,2) assms(4) by (simp add: nth_slice)
  have "slice b k m = slice z k m" using nth a(1,2) assms(4) by (intro nth_equalityI) (auto simp: nth_slice)
  then have f: "f k b = Some (overwrite b k (map F [k..<k + m]))" using assms(1) a by (simp add: block_step_def)
  let ?b = "overwrite b k (map F [k..<k + m])"
  have "slice ?b (k + m) n = slice z (k + m) n"
    using nth [of "m + _"] a(1,2) assms(4) by (intro nth_equalityI) (auto simp: nth_slice nth_overwrite add.assoc)
  then have "g (k + m) ?b = Some (overwrite ?b (k + m) (map F [k + m..<k + m + n]))"
    using assms(2) a assms(4) by (simp add: block_step_def)
  also have "overwrite ?b (k + m) (map F [k + m..<k + m + n]) = overwrite b k (map F [k..<k + m + n])"
    using a(1,2) assms(4) overwrite_append [of k "map F [k..<k + m]" "map F [k + m..<k + m + n]" b]
    by (simp add: upt_add_eq_append [of k "k + m" n] map_append [symmetric] del: map_append)
  finally show "h k b = Some (overwrite b k (map F [k..<k + (m + n)]))" using assms(3) [OF a(1,2)] f by (simp add: add.assoc)
qed


lemma block_stepI:
  assumes "\<And>b k. k + n \<le> N \<Longrightarrow> length b = length z \<Longrightarrow> (\<And>i. k \<le> i \<Longrightarrow> i < k + n \<Longrightarrow> b ! i = z ! i)
    \<Longrightarrow> body k b = Some (overwrite b k (map F [k..<k + n]))" and "N \<le> length z"
  shows "block_step F z N n body"
  unfolding block_step_def
proof (intro allI impI)
  fix b k
  assume a: "k + n \<le> N" "length b = length z" "slice b k n = slice z k n"
  have "b ! i = z ! i" if "k \<le> i" "i < k + n" for i
    using arg_cong [OF a(3), of "\<lambda>l. l ! (i - k)"] that a(1,2) assms(2) by (simp add: nth_slice)
  then show "body k b = Some (overwrite b k (map F [k..<k + n]))" using assms(1) a by blast
qed

text \<open>A reading of a buffer, and its combination with another buffer.\<close>

lemma add_block_step:
  assumes "N \<le> length x" and "N \<le> length y"
  shows "block_step (\<lambda>i. x ! i XOR y ! i) x N n (add_block n y)"
  using assms by (intro block_stepI) (auto simp: add_block_def blocks intro!: arg_cong [of _ _ "overwrite _ _"])

lemma add_words_step:
  assumes "N \<le> length x" and "N \<le> length y"
  shows "block_step (\<lambda>i. x ! i XOR y ! i) x N 8 (add_word8 y)"
    "block_step (\<lambda>i. x ! i XOR y ! i) x N 4 (add_word4 y)"
    "block_step (\<lambda>i. x ! i XOR y ! i) x N 1 (add_byte y)"
  using assms by (auto intro!: block_stepI arg_cong [of _ _ "overwrite _ _"]
    simp: add_word8_def add_word4_def add_byte_def blocks)

lemma map_upt_join: "a \<le> b \<Longrightarrow> b \<le> c \<Longrightarrow> map f [a..<b] @ map f [b..<c] = map f [a..<c]"
  using upt_add_eq_append [of a b "c - b"] by (simp add: map_append [symmetric] del: map_append)

lemma map_upt_4: "map f [k..<k + n] @ map f [k + n..<k + 2 * n] @ map f [k + 2 * n..<k + 3 * n] @ map f [k + 3 * n..<k + 4 * n]
    = map f [k..<k + 4 * n]"
  by (simp add: map_upt_join)

lemma store4:
  assumes "k + 4 * n \<le> length b"
  shows "do { b \<leftarrow> storeu b k (map f [k..<k + n]);
      b \<leftarrow> storeu b (k + n) (map f [k + n..<k + n + n]);
      b \<leftarrow> storeu b (k + 2 * n) (map f [k + 2 * n..<k + 2 * n + n]);
      storeu b (k + 3 * n) (map f [k + 3 * n..<k + 3 * n + n]) } = Some (overwrite b k (map f [k..<k + 4 * n]))"
proof -
  have "k + n + n = k + 2 * n" "k + 2 * n + n = k + 3 * n" "k + 3 * n + n = k + 4 * n" by simp_all
  then show ?thesis using assms by (simp only:) (simp add: storeu_def overwrite_join map_upt_4)
qed

lemma add_block4_step:
  assumes "N \<le> length x" and "N \<le> length y"
  shows "block_step (\<lambda>i. x ! i XOR y ! i) x N (4 * n) (add_block4 n y)"
proof (rule block_stepI [OF _ assms(1)])
  fix b k
  assume a: "k + 4 * n \<le> N" "length b = length x" and nth: "\<And>i. k \<le> i \<Longrightarrow> i < k + 4 * n \<Longrightarrow> b ! i = x ! i"
  have "add_block4 n y k b = Some (overwrite b k (map (\<lambda>i. b ! i XOR y ! i) [k..<k + 4 * n]))"
    using a assms store4 [of k n b "\<lambda>i. b ! i XOR y ! i"]
    by (simp add: add_block4_def loadu_def slice_map reg_xor_def map2_map_map Let_def)
  also have "map (\<lambda>i. b ! i XOR y ! i) [k..<k + 4 * n] = map (\<lambda>i. x ! i XOR y ! i) [k..<k + 4 * n]"
    using nth by simp
  finally show "add_block4 n y k b = Some (overwrite b k (map (\<lambda>i. x ! i XOR y ! i) [k..<k + 4 * n]))" .
qed

text \<open>Any sequence of loops over ever smaller blocks processes the whole range.\<close>

theorem gf256_add_mem_eq:
  assumes "n \<le> length x" and "n \<le> length y"
  shows "gf256_add_mem arch x y n = Some (filled (\<lambda>i. x ! i XOR y ! i) x n)"
proof -
  let ?F = "\<lambda>i. x ! i XOR y ! i"
  note while = while_blocks_filled [where F = ?F and z = x and N = n, OF _ assms(1)]
  note for0 = for_blocks_filled [where F = ?F and z = x and N = n and k = 0, OF _ assms(1), unfolded filled_0]
  note while0 = while_blocks_filled [where F = ?F and z = x and N = n and k = 0, OF _ assms(1), unfolded filled_0]
  note steps = add_block_step [OF assms] add_words_step [OF assms] add_block4_step [OF assms]
  note small = small_blocks_filled [OF steps(2,3,4) _ _ assms(1)]
  note while64 = while0 [OF steps(5) [of 16, simplified]] while0 [OF steps(5) [of 32, simplified]]
  show ?thesis
    by (simp add: gf256_add_mem_def for0 [OF steps(2)] while64 while [OF steps(1)] small)
qed


lemma add2_steps:
  assumes "N \<le> length z" and "N \<le> length x" and "N \<le> length y"
  shows "block_step (\<lambda>i. z ! i XOR (x ! i XOR y ! i)) z N n (add2_block n x y)"
    "block_step (\<lambda>i. z ! i XOR (x ! i XOR y ! i)) z N 8 (add2_word8 x y)"
    "block_step (\<lambda>i. z ! i XOR (x ! i XOR y ! i)) z N 4 (add2_word4 x y)"
    "block_step (\<lambda>i. z ! i XOR (x ! i XOR y ! i)) z N 1 (add2_byte x y)"
  using assms by (auto intro!: block_stepI arg_cong [of _ _ "overwrite _ _"]
    simp: add2_block_def add2_word8_def add2_word4_def add2_byte_def blocks)

theorem gf256_add2_mem_eq:
  assumes "n \<le> length z" and "n \<le> length x" and "n \<le> length y"
  shows "gf256_add2_mem arch z x y n = Some (filled (\<lambda>i. z ! i XOR (x ! i XOR y ! i)) z n)"
proof -
  let ?F = "\<lambda>i. z ! i XOR (x ! i XOR y ! i)"
  note steps = add2_steps [OF assms]
  note while = while_blocks_filled [where F = ?F and z = z and N = n, OF _ assms(1)]
  note for0 = for_blocks_filled [where F = ?F and z = z and N = n and k = 0, OF _ assms(1), unfolded filled_0]
  note while0 = while_blocks_filled [where F = ?F and z = z and N = n and k = 0, OF _ assms(1), unfolded filled_0]
  note small = small_blocks_filled [OF steps(2,3,4) _ _ assms(1)]
  show ?thesis
    by (simp add: gf256_add2_mem_def for0 [OF steps(2)] for0 [OF steps(1)] while0 [OF steps(1)] while [OF steps(1)] small)
qed

lemma addset_steps:
  assumes "N \<le> length z" and "N \<le> length x" and "N \<le> length y"
  shows "block_step (\<lambda>i. x ! i XOR y ! i) z N n (addset_block n x y)"
    "block_step (\<lambda>i. x ! i XOR y ! i) z N 8 (addset_word8 x y)"
    "block_step (\<lambda>i. x ! i XOR y ! i) z N 4 (addset_word4 x y)"
    "block_step (\<lambda>i. x ! i XOR y ! i) z N 1 (addset_byte x y)"
  using assms by (auto intro!: block_stepI arg_cong [of _ _ "overwrite _ _"]
    simp: addset_block_def addset_word8_def addset_word4_def addset_byte_def blocks)

lemma addset_block4_step:
  assumes "N \<le> length z" and "N \<le> length x" and "N \<le> length y"
  shows "block_step (\<lambda>i. x ! i XOR y ! i) z N (4 * n) (addset_block4 n x y)"
proof (rule block_stepI [OF _ assms(1)])
  fix b :: bytes and k
  assume a: "k + 4 * n \<le> N" "length b = length z"
  show "addset_block4 n x y k b = Some (overwrite b k (map (\<lambda>i. x ! i XOR y ! i) [k..<k + 4 * n]))"
    using a assms store4 [of k n b "\<lambda>i. x ! i XOR y ! i"]
    by (simp add: addset_block4_def loadu_def slice_map reg_xor_def map2_map_map Let_def)
qed

theorem gf256_addset_mem_eq:
  assumes "n \<le> length z" and "n \<le> length x" and "n \<le> length y"
  shows "gf256_addset_mem arch z x y n = Some (filled (\<lambda>i. x ! i XOR y ! i) z n)"
proof -
  let ?F = "\<lambda>i. x ! i XOR y ! i"
  note steps = addset_steps [OF assms]
  note while = while_blocks_filled [where F = ?F and z = z and N = n, OF _ assms(1)]
  note for0 = for_blocks_filled [where F = ?F and z = z and N = n and k = 0, OF _ assms(1), unfolded filled_0]
  note while0 = while_blocks_filled [where F = ?F and z = z and N = n and k = 0, OF _ assms(1), unfolded filled_0]
  note while64 = while0 [OF addset_block4_step [OF assms, of 16, simplified]]
  note small = small_blocks_filled [OF steps(2,3,4) _ _ assms(1)]
  show ?thesis
    by (simp add: gf256_addset_mem_def for0 [OF steps(2)] for0 [OF steps(1)] while64 while [OF steps(1)] small)
qed

section \<open>Products of registers\<close>

text \<open>The partial product tables of one factor, for registers of 16 and of 32 bytes.\<close>

definition lo_table :: "u8 \<Rightarrow> bytes" where
  "lo_table y = map (\<lambda>i. gmul (word_of_nat i) y) [0..<16]"

definition hi_table :: "u8 \<Rightarrow> bytes" where
  "hi_table y = map (\<lambda>i. gmul (push_bit 4 (word_of_nat i)) y) [0..<16]"

definition mem_tables_ok :: "gf256_arch \<Rightarrow> gf256_ctx \<Rightarrow> bool" where
  "mem_tables_ok arch ctx \<longleftrightarrow> length (MM128_TABLE_LO_Y ctx) = 256 \<and> length (MM128_TABLE_HI_Y ctx) = 256
     \<and> length (MM256_TABLE_LO_Y ctx) = 256 \<and> length (MM256_TABLE_HI_Y ctx) = 256
     \<and> (\<not> TARGET_MOBILE arch \<longrightarrow> (\<forall>y. MM128_TABLE_LO_Y ctx ! unat y = lo_table y \<and> MM128_TABLE_HI_Y ctx ! unat y = hi_table y))
     \<and> (\<not> TARGET_MOBILE arch \<and> CpuHasAVX2 arch \<longrightarrow> (\<forall>y. MM256_TABLE_LO_Y ctx ! unat y = lo_table y @ lo_table y
          \<and> MM256_TABLE_HI_Y ctx ! unat y = hi_table y @ hi_table y))"

lemma bit_15: "bit (0x0f :: u8) n \<longleftrightarrow> n < 4"
proof -
  have "(0x0f :: u8) = mask 4" by (simp add: mask_numeral)
  then show ?thesis by (simp only: bit_mask_iff) auto
qed

lemma bit_15_int: "bit (0x0f :: int) n \<longleftrightarrow> n < 4"
  by (rule bit_int_mask_iff) (simp add: mask_numeral)

lemma gmul_nibbles: "gmul (x AND 0x0f) y XOR gmul (push_bit 4 (drop_bit 4 x)) y = gmul x y"
proof -
  have "(x AND 0x0f) XOR push_bit 4 (drop_bit 4 x) = x"
  proof (rule bit_word_eqI)
    fix n
    show "bit ((x AND 0x0f) XOR push_bit 4 (drop_bit 4 x)) n = bit x n" if "n < LENGTH(8)"
      using that by (auto simp: bit_xor_iff bit_and_iff bit_15_int bit_push_bit_iff bit_drop_bit_eq)
  qed
  then show ?thesis by (metis gmul_xor(2))
qed

lemma srli_and:
  assumes "i < length x" and "length x mod 8 = 0"
  shows "srli_epi64 4 x ! i AND 0x0f = drop_bit 4 (x ! i)"
proof (rule bit_word_eqI)
  fix n
  assume n: "n < LENGTH(8)"
  have blk: "8 * (i div 8) + 8 \<le> length x" using assms by presburger
  have "bit (srli_epi64 4 x ! i) n \<longleftrightarrow> bit (x ! i) (n + 4)" if "n < 4"
  proof -
    have "(n + (8 * j + 4)) div 8 = j" "(n + (8 * j + 4)) mod 8 = n + 4" for j
      using that div_mult_self2 [of 8 "n + 4" j] mod_mult_self2 [of "n + 4" 8 j] by (simp_all add: ac_simps)
    moreover have "i mod 8 < 8" by simp
    then have "4 + (n + 8 * (i mod 8)) < 64" using that by linarith
    moreover have "8 * (i div 8) + i mod 8 = i" by simp
    ultimately show ?thesis using assms(1) blk n
      by (simp add: srli_epi64_def bit_byte_at bit_drop_bit_eq bit_le_word nth_slice)
  qed
  then show "bit (srli_epi64 4 x ! i AND 0x0f) n \<longleftrightarrow> bit (drop_bit 4 (x ! i)) n"
    using bit_imp_le_length [of "x ! i" "4 + n"] by (auto simp: bit_and_iff bit_15_int bit_drop_bit_eq add.commute)
qed


lemma unat_and_15: "unat (x AND 0x0f :: u8) < 16" "bit (x AND 0x0f :: u8) 7 = False" "(x AND 0x0f) AND 0x0f = (x AND 0x0f :: u8)"
proof -
  have "x AND 0x0f = take_bit 4 x" by (simp add: take_bit_eq_mask mask_numeral)
  then show "unat (x AND 0x0f :: u8) < 16" using take_bit_nat_less_exp [of 4 "unat x"] by (simp add: unsigned_take_bit_eq)
qed (simp_all add: bit_and_iff bit_15_int and.assoc)

lemma drop_bit_4: "unat (drop_bit 4 x :: u8) < 16" "bit (drop_bit 4 x :: u8) 7 = False" "drop_bit 4 x AND 0x0f = (drop_bit 4 x :: u8)"
proof -
  have "unat x < 256" using unat_bound [of x] by simp
  then show "unat (drop_bit 4 x :: u8) < 16" by (simp add: drop_bit_eq_div unat_div)
  show "bit (drop_bit 4 x :: u8) 7 = False" using bit_imp_le_length [of x 11] by (auto simp: bit_drop_bit_eq)
  show "drop_bit 4 x AND 0x0f = (drop_bit 4 x :: u8)"
  proof (rule bit_word_eqI)
    show "bit (drop_bit 4 x AND 0x0f) n = bit (drop_bit 4 x) n" for n
      using bit_imp_le_length [of x "4 + n"] by (auto simp: bit_and_iff bit_15_int bit_drop_bit_eq)
  qed
qed

lemma shuffle_lookup:
  assumes "length m = 16 \<or> length m = 32" and "i < length m" and "t = (if length m = 16 then t0 else t0 @ t0)" and "length t0 = 16"
    and "m ! i AND 0x0f = m ! i" "\<not> bit (m ! i) 7" "unat (m ! i) < 16"
  shows "shuffle_epi8 t m ! i = t0 ! unat (m ! i)"
proof -
  have "i div 16 = 0 \<or> i div 16 = 1" using assms(1,2) by auto
  then show ?thesis
  proof
    assume "i div 16 = 0"
    then show ?thesis using assms by (auto simp: shuffle_epi8_def nth_append)
  next
    assume "i div 16 = 1"
    then show ?thesis using assms by (auto simp: shuffle_epi8_def nth_append)
  qed
qed

lemma mul_reg_eq:
  assumes "length x = 16 \<or> length x = 32" and "lo = (if length x = 16 then lo_table y else lo_table y @ lo_table y)"
    and "hi = (if length x = 16 then hi_table y else hi_table y @ hi_table y)"
  shows "mul_reg lo hi x = map (\<lambda>v. gmul v y) x"
proof (rule nth_equalityI)
  show len: "length (mul_reg lo hi x) = length (map (\<lambda>v. gmul v y) x)"
    by (simp add: mul_reg_def reg_xor_def reg_and_def shuffle_epi8_def srli_epi64_def Let_def)
  fix i
  assume "i < length (mul_reg lo hi x)"
  then have i: "i < length x" using len by simp
  let ?m = "replicate (length x) (0x0f :: u8)"
  have l: "reg_and x ?m ! i = x ! i AND 0x0f" "length (reg_and x ?m) = length x" using i by (simp_all add: reg_and_def)
  have h: "reg_and (srli_epi64 4 x) ?m ! i = drop_bit 4 (x ! i)" "length (reg_and (srli_epi64 4 x) ?m) = length x"
    using i srli_and [of i x] assms(1) by (auto simp: reg_and_def srli_epi64_def)
  have "shuffle_epi8 lo (reg_and x ?m) ! i = gmul (x ! i AND 0x0f) y"
    using shuffle_lookup [of "reg_and x ?m" i lo "lo_table y"] l i assms unat_and_15 [of "x ! i"] by (auto simp: lo_table_def)
  moreover have "shuffle_epi8 hi (reg_and (srli_epi64 4 x) ?m) ! i = gmul (push_bit 4 (drop_bit 4 (x ! i))) y"
    using shuffle_lookup [of "reg_and (srli_epi64 4 x) ?m" i hi "hi_table y"] h i assms drop_bit_4 [of "x ! i"] by (auto simp: hi_table_def)
  ultimately show "mul_reg lo hi x ! i = map (\<lambda>v. gmul v y) x ! i"
    using i l(2) h(2) gmul_nibbles [of "x ! i" y] by (simp add: mul_reg_def reg_xor_def shuffle_epi8_def Let_def)
qed


section \<open>Multiplication of ranges\<close>

lemma table_at_eq: "scalar_ok ctx \<Longrightarrow> table_at ctx y v = Some (gmul v y)"
  by (simp add: table_at_def scalar_ok_def gf256_mul_def)

lemma mul_words_eq:
  assumes "scalar_ok ctx"
  shows "k < length x \<Longrightarrow> mul_lookup ctx y x k = Some (gmul (x ! k) y)"
    "k + 8 \<le> length x \<Longrightarrow> mul_word8 ctx y x k = Some (le_word (map (\<lambda>i. gmul (x ! i) y) [k..<k + 8]))"
    "k + 4 \<le> length x \<Longrightarrow> mul_word4 ctx y x k = Some (le_word (map (\<lambda>i. gmul (x ! i) y) [k..<k + 4]))"
proof -
  show l: "mul_lookup ctx y x k = Some (gmul (x ! k) y)" if "k < length x" for k
    using that assms by (simp add: mul_lookup_def table_at_eq rd8_in)
  show "mul_word8 ctx y x k = Some (le_word (map (\<lambda>i. gmul (x ! i) y) [k..<k + 8]))" if "k + 8 \<le> length x"
    using that unfolding mul_word8_def by (simp only: le_word_8) (simp add: l upt_rec numeral_eq_Suc)
  show "mul_word4 ctx y x k = Some (le_word (map (\<lambda>i. gmul (x ! i) y) [k..<k + 4]))" if "k + 4 \<le> length x"
    using that unfolding mul_word4_def by (simp only: le_word_4) (simp add: l upt_rec numeral_eq_Suc)
qed

definition tables_of :: "nat \<Rightarrow> u8 \<Rightarrow> bytes \<Rightarrow> bytes \<Rightarrow> bool" where
  "tables_of n y lo hi \<longleftrightarrow> (n = 16 \<or> n = 32) \<and> lo = (if n = 16 then lo_table y else lo_table y @ lo_table y)
     \<and> hi = (if n = 16 then hi_table y else hi_table y @ hi_table y)"

lemma mul_reg_slice:
  assumes "tables_of n y lo hi" and "k + n \<le> length x"
  shows "mul_reg lo hi (slice x k n) = map (\<lambda>i. gmul (x ! i) y) [k..<k + n]"
  using assms mul_reg_eq [of "slice x k n" lo y hi] by (simp add: tables_of_def slice_map)

lemma mul_reg_map: "tables_of n y lo hi \<Longrightarrow> length xs = n \<Longrightarrow> mul_reg lo hi xs = map (\<lambda>v. gmul v y) xs"
  by (rule mul_reg_eq) (auto simp: tables_of_def)

lemma mul_steps:
  assumes "N \<le> length z" and "N \<le> length x" and "scalar_ok ctx"
  shows "tables_of n y lo hi \<Longrightarrow> block_step (\<lambda>i. gmul (x ! i) y) z N n (mul_block n lo hi x)"
    "block_step (\<lambda>i. gmul (x ! i) y) z N 8 (\<lambda>o' z. do { w \<leftarrow> mul_word8 ctx y x o'; WriteU64_LE z o' w })"
    "block_step (\<lambda>i. gmul (x ! i) y) z N 4 (\<lambda>o' z. do { w \<leftarrow> mul_word4 ctx y x o'; WriteU32_LE z o' w })"
    "block_step (\<lambda>i. gmul (x ! i) y) z N 1 (\<lambda>o' z. do { v \<leftarrow> mul_lookup ctx y x o'; wr8 z o' v })"
  using assms by (auto intro!: block_stepI arg_cong [of _ _ "overwrite _ _"]
    simp: mul_block_def mul_reg_slice mul_words_eq [OF assms(3)] loadu_def storeu_def WriteU64_LE_eq WriteU32_LE_eq wr8_overwrite)

lemma mul_tail_filled:
  assumes "block_step F z N 8 body8" and "block_step F z N 4 body4" and "block_step F z N 1 body1"
    and "k + m \<le> N" and "N \<le> length z"
  shows "mul_tail body8 body4 body1 k m (filled F z k) = Some (filled F z (k + m))"
proof -
  let ?n = "m mod 8" and ?k = "k + m - m mod 8"
  have while: "while_blocks 8 body8 (filled F z k) k m = Some (filled F z ?k, ?k, ?n)"
    using while_blocks_filled [OF assms(1,5) _ assms(4)] by simp
  have masks: "(?n AND 4) + (?n AND 3) = ?n" "?n AND 4 = 0 \<or> ?n AND 4 = 4" "?n AND 3 < (4 :: nat)"
  proof -
    have "?n \<in> {0, 1, 2, 3, 4, 5, 6, 7}" by auto
    then show "(?n AND 4) + (?n AND 3) = ?n" "?n AND 4 = 0 \<or> ?n AND 4 = 4" "?n AND 3 < (4 :: nat)"
      by (elim insertE emptyE; simp)+
  qed
  have le: "?k + ?n = k + m" by (simp add: le_add2 le_trans [OF mod_less_eq_dividend])
  have f: "(if ?n AND 4 \<noteq> 0 then body4 ?k (filled F z ?k) else Some (filled F z ?k)) = Some (filled F z (?k + (?n AND 4)))"
    using block_stepD [OF assms(2), of ?k] masks le assms(4,5) by auto
  have r: "final_bytes body1 (?k + (?n AND 4)) (?n AND 3) (filled F z (?k + (?n AND 4))) = Some (filled F z (k + m))"
    using final_bytes_filled [OF assms(3), of "?k + (?n AND 4)" "?n AND 3"] masks le assms(4,5) by (simp add: add.assoc)
  show ?thesis using while f r by (simp add: mul_tail_def Let_def)
qed


lemma mem_tables:
  assumes "mem_tables_ok arch ctx" and "\<not> TARGET_MOBILE arch"
  shows "tab_get (MM128_TABLE_LO_Y ctx) (unat y) = Some (lo_table y)" "tab_get (MM128_TABLE_HI_Y ctx) (unat y) = Some (hi_table y)"
    "CpuHasAVX2 arch \<Longrightarrow> tab_get (MM256_TABLE_LO_Y ctx) (unat y) = Some (lo_table y @ lo_table y)"
    "CpuHasAVX2 arch \<Longrightarrow> tab_get (MM256_TABLE_HI_Y ctx) (unat y) = Some (hi_table y @ hi_table y)"
  using assms unat_bound [of y] by (simp_all add: mem_tables_ok_def)

lemma tables_of: "tables_of 16 y (lo_table y) (hi_table y)" "tables_of 32 y (lo_table y @ lo_table y) (hi_table y @ hi_table y)"
  by (simp_all add: tables_of_def)

text \<open>What remains after a loop over whole blocks is the rest of the range.\<close>

lemma mod_rest: "n - n mod (m :: nat) + n mod m = n" by (simp add: le_add_diff_inverse2)

lemma u8_le_1: assumes "(y :: u8) \<le> 1" shows "y = 0 \<or> y = 1"
proof -
  have "unat y = unat (0 :: u8) \<or> unat y = unat (1 :: u8)" using assms by (auto simp: word_le_nat_alt)
  then show ?thesis using unsigned_word_eqI [of y 0] unsigned_word_eqI [of y 1] by blast
qed

theorem gf256_mul_mem_eq:
  assumes "n \<le> length z" and "n \<le> length x" and "scalar_ok ctx" and "mem_tables_ok arch ctx"
  shows "gf256_mul_mem arch ctx z x y n = Some (filled (\<lambda>i. gmul (x ! i) y) z n)"
proof (cases "y \<le> 1")
  case True
  then have y: "y = 0 \<or> y = 1" by (rule u8_le_1)
  have "overwrite z 0 (replicate n 0) = filled (\<lambda>i. gmul (x ! i) 0) z n" "overwrite z 0 (slice x 0 n) = filled (\<lambda>i. gmul (x ! i) 1) z n"
    using assms(1,2) by (auto intro!: nth_equalityI simp: nth_overwrite nth_filled nth_slice)
  then show ?thesis using y assms(1,2) by (auto simp: gf256_mul_mem_def storeu_def loadu_def)
next
  case False
  let ?F = "\<lambda>i. gmul (x ! i) y"
  note steps = mul_steps [OF assms(1,2,3), where y = y]
  note while = while_blocks_filled [where F = ?F and z = z and N = n, OF _ assms(1)]
  note while0 = while_blocks_filled [where F = ?F and z = z and N = n and k = 0, OF _ assms(1), unfolded filled_0]
  note tail = mul_tail_filled [OF steps(2,3,4) _ assms(1)] mul_tail_filled [OF steps(2,3,4) _ assms(1), where k = 0, unfolded filled_0]
  note tabs = mem_tables [OF assms(4), where y = y]
  show ?thesis
    using False
    by (simp add: gf256_mul_mem_def tabs while0 [OF steps(1) [OF tables_of(2)]] while0 [OF steps(1) [OF tables_of(1)]]
        while [OF steps(1) [OF tables_of(1)]] tail)
qed

lemma muladd_steps:
  assumes "N \<le> length z" and "N \<le> length x" and "scalar_ok ctx"
  shows "tables_of n y lo hi \<Longrightarrow> block_step (\<lambda>i. z ! i XOR gmul (x ! i) y) z N n (muladd_block n lo hi x)"
    "block_step (\<lambda>i. z ! i XOR gmul (x ! i) y) z N 8
      (\<lambda>o' z. do { w \<leftarrow> mul_word8 ctx y x o'; a \<leftarrow> ReadU64_LE z o'; WriteU64_LE z o' (a XOR w) })"
    "block_step (\<lambda>i. z ! i XOR gmul (x ! i) y) z N 4
      (\<lambda>o' z. do { w \<leftarrow> mul_word4 ctx y x o'; a \<leftarrow> ReadU32_LE z o'; WriteU32_LE z o' (a XOR w) })"
    "block_step (\<lambda>i. z ! i XOR gmul (x ! i) y) z N 1
      (\<lambda>o' z. do { v \<leftarrow> mul_lookup ctx y x o'; a \<leftarrow> rd8 z o'; wr8 z o' (a XOR v) })"
  using assms by (auto intro!: block_stepI arg_cong [of _ _ "overwrite _ _"]
    simp: muladd_block_def loadu_def storeu_def mul_reg_map Let_def mul_words_eq [OF assms(3)] slice_map reg_xor_def map2_map_map
      ReadU64_LE_word ReadU32_LE_word le_word_xor WriteU64_LE_eq WriteU32_LE_eq rd8_in wr8_overwrite xor.commute)

lemma muladd_block2_steps:
  assumes "N \<le> length z" and "N \<le> length x"
  shows "tables_of 32 y lo hi \<Longrightarrow> block_step (\<lambda>i. z ! i XOR gmul (x ! i) y) z N 64 (muladd_block2_avx2 lo hi x)"
    "tables_of 16 y lo hi \<Longrightarrow> block_step (\<lambda>i. z ! i XOR gmul (x ! i) y) z N 32 (muladd_block2_ssse3 lo hi x)"
proof -
  assume t: "tables_of 32 y lo hi"
  show "block_step (\<lambda>i. z ! i XOR gmul (x ! i) y) z N 64 (muladd_block2_avx2 lo hi x)"
  proof (rule block_stepI [OF _ assms(1)])
    fix b :: bytes and k
    assume a: "k + 64 \<le> N" "length b = length z" "\<And>i. k \<le> i \<Longrightarrow> i < k + 64 \<Longrightarrow> b ! i = z ! i"
    let ?f = "\<lambda>i. gmul (x ! i) y XOR b ! i"
    have "muladd_block2_avx2 lo hi x k b = Some (overwrite b k (map ?f [k..<k + 32] @ map ?f [k + 32..<k + 32 + 32]))"
      using a assms t
      by (simp add: muladd_block2_avx2_def loadu_def storeu_def mul_reg_map [OF t] reg_xor_def slice_map map2_map_map comp_def overwrite_join)
        (auto intro!: arg_cong [of _ _ "overwrite _ _"] simp: nth_overwrite)
    also have "map ?f [k..<k + 32] @ map ?f [k + 32..<k + 32 + 32] = map (\<lambda>i. z ! i XOR gmul (x ! i) y) [k..<k + 64]"
      using a(3) by (subst map_upt_join) (auto simp: xor.commute add.commute)
    finally show "muladd_block2_avx2 lo hi x k b = Some (overwrite b k (map (\<lambda>i. z ! i XOR gmul (x ! i) y) [k..<k + 64]))" .
  qed
next
  assume t: "tables_of 16 y lo hi"
  show "block_step (\<lambda>i. z ! i XOR gmul (x ! i) y) z N 32 (muladd_block2_ssse3 lo hi x)"
  proof (rule block_stepI [OF _ assms(1)])
    fix b :: bytes and k
    assume a: "k + 32 \<le> N" "length b = length z" "\<And>i. k \<le> i \<Longrightarrow> i < k + 32 \<Longrightarrow> b ! i = z ! i"
    let ?f = "\<lambda>i. gmul (x ! i) y XOR b ! i"
    have "muladd_block2_ssse3 lo hi x k b = Some (overwrite b k (map ?f [k..<k + 16] @ map ?f [k + 16..<k + 16 + 16]))"
      using a assms t
      by (simp add: muladd_block2_ssse3_def loadu_def storeu_def mul_reg_map [OF t] reg_xor_def slice_map map2_map_map comp_def overwrite_join_left)
    also have "map ?f [k..<k + 16] @ map ?f [k + 16..<k + 16 + 16] = map (\<lambda>i. z ! i XOR gmul (x ! i) y) [k..<k + 32]"
      using a(3) by (subst map_upt_join) (auto simp: xor.commute add.commute)
    finally show "muladd_block2_ssse3 lo hi x k b = Some (overwrite b k (map (\<lambda>i. z ! i XOR gmul (x ! i) y) [k..<k + 32]))" .
  qed
qed

theorem gf256_muladd_mem_eq:
  assumes "n \<le> length z" and "n \<le> length x" and "scalar_ok ctx" and "mem_tables_ok arch ctx"
  shows "gf256_muladd_mem arch ctx z y x n = Some (filled (\<lambda>i. z ! i XOR gmul (x ! i) y) z n)"
proof (cases "y \<le> 1")
  case True
  have "filled (\<lambda>i. z ! i XOR gmul (x ! i) 0) z n = z"
    using assms(1) by (auto intro!: nth_equalityI simp: nth_filled)
  moreover from True have "y = 0 \<or> y = 1" by (rule u8_le_1)
  ultimately show ?thesis using assms(1,2) by (auto simp: gf256_muladd_mem_def gf256_add_mem_eq)
next
  case False
  let ?F = "\<lambda>i. z ! i XOR gmul (x ! i) y"
  note steps = muladd_steps [OF assms(1,2,3), where y = y]
  note steps2 = muladd_block2_steps [OF assms(1,2), where y = y]
  note while = while_blocks_filled [where F = ?F and z = z and N = n, OF _ assms(1)]
  note while0 = while_blocks_filled [where F = ?F and z = z and N = n and k = 0, OF _ assms(1), unfolded filled_0]
  note for0 = for_blocks_filled [where F = ?F and z = z and N = n and k = 0, OF _ assms(1), unfolded filled_0]
  note tail = mul_tail_filled [OF steps(2,3,4) _ assms(1)] mul_tail_filled [OF steps(2,3,4) _ assms(1), where k = 0, unfolded filled_0]
  note tabs = mem_tables [OF assms(4), where y = y]
  have one: "muladd_block 32 (lo_table y @ lo_table y) (hi_table y @ hi_table y) x k (filled ?F z k) = Some (filled ?F z (k + 32))"
    if "k + 32 \<le> n" for k
    using that by (intro block_stepD [OF steps(1) [OF tables_of(2)] _ assms(1)])
  show ?thesis
    using False
    by (simp add: gf256_muladd_mem_def tabs while0 [OF steps2(2) [OF tables_of(1)]] while [OF steps2(2) [OF tables_of(1)]]
        for0 [OF steps2(1) [OF tables_of(2)]] one
        while [OF steps(1) [OF tables_of(1)]] tail)
qed


theorem gf256_div_mem_eq:
  assumes "n \<le> length z" and "n \<le> length x" and "scalar_ok ctx" and "mem_tables_ok arch ctx" and "y \<noteq> 0"
  shows "\<exists>r. gf256_div_mem arch ctx z x y n = Some (filled r z n) \<and> (\<forall>i<n. gmul (r i) y = x ! i)"
proof -
  obtain v where v: "gf256_inv ctx y = Some v" "gmul y v = 1" using assms(3,5) by (auto simp: scalar_ok_def)
  have inv: "gmul (gmul a v) y = a" for a by (metis v(2) gmul_1 gmul_assoc gmul_commute)
  show ?thesis
  proof (cases "y = 1")
    case True
    then show ?thesis using gf256_mul_mem_eq [OF assms(1-4)] by (auto simp: gf256_div_mem_def)
  next
    case False
    then have "gf256_div_mem arch ctx z x y n = Some (filled (\<lambda>i. gmul (x ! i) v) z n)"
      using v(1) gf256_mul_mem_eq [OF assms(1-4)] by (simp add: gf256_div_mem_def gf256_inv_def)
    then show ?thesis using inv by blast
  qed
qed

section \<open>Exchange of buffers\<close>

lemma swap_block_filled:
  assumes "k + n \<le> N" and "N \<le> length x" and "N \<le> length y"
  shows "swap_block n k (filled ((!) y) x k, filled ((!) x) y k) = Some (filled ((!) y) x (k + n), filled ((!) x) y (k + n))"
proof -
  have s: "slice (filled ((!) y) x k) k n = map ((!) x) [k..<k + n]" "slice (filled ((!) x) y k) k n = map ((!) y) [k..<k + n]"
    using assms by (auto intro!: nth_equalityI simp: nth_slice nth_filled)
  show ?thesis using assms overwrite_filled [of k n] by (simp add: swap_block_def loadu_def storeu_def s)
qed


lemma swap_final_bytes:
  assumes "k + m \<le> N" and "m < 4" and "N \<le> length x" and "N \<le> length y"
  shows "final_bytes (swap_block 1) k m (filled ((!) y) x k, filled ((!) x) y k) = Some (filled ((!) y) x (k + m), filled ((!) x) y (k + m))"
proof -
  have step: "swap_block 1 i (a, b) = Some (a[i := b ! i], b[i := a ! i])" if "i < length a" "i < length b" for i a b
  proof -
    have "slice c i 1 = [c ! i]" if "i < length c" for c :: bytes using that by (simp add: slice_def take_Suc_conv_app_nth hd_drop_conv_nth)
    then show ?thesis using that by (simp add: swap_block_def loadu_def storeu_def overwrite_upd_front)
  qed
  have "m \<in> {0, 1, 2, 3}" using assms(2) by auto
  then show ?thesis
    using assms by (elim insertE emptyE)
      (auto simp: final_bytes_def step [unfolded One_nat_def] nth_filled nth_list_update less_Suc_eq intro!: nth_equalityI)
qed

theorem gf256_memswap_eq:
  assumes "n \<le> length x" and "n \<le> length y"
  shows "gf256_memswap arch x y n = Some (filled ((!) y) x n, filled ((!) x) y n)"
proof -
  let ?S = "\<lambda>k. (filled ((!) y) x k, filled ((!) x) y k)"
  have follows: "follows ?S n m (swap_block m)" for m using assms by (simp add: follows_def swap_block_filled)
  note while = while_blocks_follows [OF follows, where k = 0 and m = n, simplified]
  note for0 = for_blocks_follows [OF follows, where k = 0 and m = n, simplified]
  have small: "small_blocks (swap_block 8) (swap_block 4) (swap_block 1) k m (?S k) = Some (?S (k + m))"
    if "k + m \<le> n" "m < 16" for k m
    using that assms by (intro small_blocks_follows [where S = ?S and N = n] follows swap_final_bytes)
  show ?thesis by (simp add: gf256_memswap_def while for0 small [unfolded One_nat_def])
qed


section \<open>The initialisation succeeds\<close>

lemma fill_eq:
  assumes "kTestBufferBytes \<le> length b"
  shows "fill b v = Some (filled (\<lambda>_. v) b kTestBufferBytes)"
proof -
  have "\<exists>b'. for_range 0 kTestBufferBytes (\<lambda>i b. wr8 b i v) b = Some b' \<and> b' = filled (\<lambda>_. v) b kTestBufferBytes"
  proof (rule for_range_rule [where P = "\<lambda>i b'. b' = filled (\<lambda>_. v) b i"])
    fix i b'
    assume "i < kTestBufferBytes" "b' = filled (\<lambda>_. v) b i"
    then show "\<exists>b''. wr8 b' i v = Some b'' \<and> b'' = filled (\<lambda>_. v) b (Suc i)"
      using assms by (auto simp: wr8_in nth_list_update nth_filled intro!: nth_equalityI)
  qed simp_all
  then show ?thesis by (simp add: fill_def)
qed

lemma check_filled_eq:
  assumes "kTestBufferBytes \<le> length z" and "\<And>i. i < kTestBufferBytes \<Longrightarrow> F i = v"
  shows "check_filled (filled F z kTestBufferBytes) v = Some True"
  unfolding check_filled_def using assms by (intro check_all_True) (simp add: rd8_in nth_filled)

lemma gf256_check_product_ok:
  assumes "scalar_ok ctx" and "i < 256" and "j < 256"
  shows "gf256_check_product ctx i j = Some True"
proof -
  let ?i = "word_of_nat i :: u8" and ?j = "word_of_nat j :: u8"
  have u: "unat ?i = i" "unat ?j = j" using assms(2,3) by (simp_all add: unat_of_nat)
  then have nz: "?i \<noteq> 0 \<longleftrightarrow> i \<noteq> 0" "?j \<noteq> 0 \<longleftrightarrow> j \<noteq> 0" by (metis unat_0 unsigned_word_eqI)+
  have "gf256_mul ctx ?i ?j = Some (gmul ?i ?j)" "?j \<noteq> 0 \<Longrightarrow> gf256_div ctx (gmul ?i ?j) ?j = Some ?i"
    "?i \<noteq> 0 \<Longrightarrow> gf256_div ctx (gmul ?j ?i) ?i = Some ?j" using assms(1) by (simp_all add: scalar_ok_def)
  moreover have "gmul ?i ?j = gmul ?j ?i" by (rule gmul_commute)
  ultimately show ?thesis using u nz by (auto simp: gf256_check_product_def)
qed

lemma gf256_self_test_ok:
  assumes "scalar_ok ctx" and "mem_tables_ok arch ctx"
    and "length (bufA t) = 64" and "length (bufB t) = 64" and "length (bufC t) = 64"
    and "addrA mod align = 0" "addrB mod align = 0" "addrC mod align = 0"
  shows "\<exists>t'. gf256_self_test arch ctx (addrA, addrB, addrC) align t = Some (True, t')"
proof -
  have products: "check_all (\<lambda>i. check_all (gf256_check_product ctx i) [0..<256]) [0..<256] = Some True"
    by (intro check_all_True gf256_check_product_ok [OF assms(1)]) simp_all
  have n: "kTestBufferBytes = 63" by (simp add: kTestBufferBytes_def)
  have mul: "gf256_mul ctx x y = Some (gmul x y)" for x y using assms(1) by (simp add: scalar_ok_def)
  show ?thesis using assms(3-8)
    by (simp add: gf256_self_test_def products n wr8_in fill_eq [unfolded n] check_filled_eq [unfolded n] nth_filled rd8_in mul
        gmul_commute [of "0xa2" "0x55"] gf256_add_mem_eq gf256_add2_mem_eq gf256_addset_mem_eq gf256_muladd_mem_eq gf256_mul_mem_eq assms(1,2)
        xor.commute xor.left_commute)
qed


text \<open>The partial product tables.\<close>

lemma fill_nibbles:
  assumes "scalar_ok ctx" and "length a = 64" and "length b = 64"
  shows "\<exists>lo hi. for_range 0 16 (\<lambda>x (lo, hi). do {
         p \<leftarrow> gf256_mul ctx (word_of_nat x) y;
         lo \<leftarrow> tab_set lo x p;
         q \<leftarrow> gf256_mul ctx (push_bit 4 (word_of_nat x)) y;
         hi \<leftarrow> tab_set hi x q;
         Some (lo, hi) }) (a, b) = Some (lo, hi)
    \<and> length lo = 64 \<and> length hi = 64 \<and> slice lo 0 16 = lo_table y \<and> slice hi 0 16 = hi_table y"
proof -
  let ?lo = "\<lambda>i. gmul (word_of_nat i) y" and ?hi = "\<lambda>i. gmul (push_bit 4 (word_of_nat i)) y"
  let ?f = "\<lambda>x (lo, hi). do {
         p \<leftarrow> gf256_mul ctx (word_of_nat x) y;
         lo \<leftarrow> tab_set lo x p;
         q \<leftarrow> gf256_mul ctx (push_bit 4 (word_of_nat x)) y;
         hi \<leftarrow> tab_set hi x q;
         Some (lo, hi) }"
  have mul: "gf256_mul ctx x y = Some (gmul x y)" for x y using assms(1) by (simp add: scalar_ok_def)
  have "\<exists>s. for_range 0 16 ?f (a, b) = Some s \<and> s = (filled ?lo a 16, filled ?hi b 16)"
  proof (rule for_range_rule [where P = "\<lambda>i s. s = (filled ?lo a i, filled ?hi b i)"])
    fix i s
    assume "i < 16" "s = (filled ?lo a i, filled ?hi b i)"
    then show "\<exists>s'. ?f i s = Some s' \<and> s' = (filled ?lo a (Suc i), filled ?hi b (Suc i))"
      using assms(2,3) by (auto simp: mul nth_list_update nth_filled intro!: nth_equalityI)
  qed simp_all
  moreover have "slice (filled ?lo a 16) 0 16 = lo_table y" "slice (filled ?hi b 16) 0 16 = hi_table y"
    using assms(2,3) by (auto intro!: nth_equalityI simp: nth_slice nth_filled lo_table_def hi_table_def)
  ultimately show ?thesis using assms(2,3) by simp
qed

definition mem_rows_ok :: "gf256_arch \<Rightarrow> nat \<Rightarrow> gf256_ctx \<times> SelfTestBuffersT \<Rightarrow> bool" where
  "mem_rows_ok arch k = (\<lambda>(ctx, t). length (bufA t) = 64 \<and> length (bufB t) = 64 \<and> length (bufC t) = 64
     \<and> ctx_sized ctx \<and> scalar_ok ctx
     \<and> (\<forall>y. unat y < k \<longrightarrow> (\<not> TARGET_MOBILE arch \<longrightarrow> MM128_TABLE_LO_Y ctx ! unat y = lo_table y \<and> MM128_TABLE_HI_Y ctx ! unat y = hi_table y)
         \<and> (\<not> TARGET_MOBILE arch \<and> CpuHasAVX2 arch \<longrightarrow> MM256_TABLE_LO_Y ctx ! unat y = lo_table y @ lo_table y
              \<and> MM256_TABLE_HI_Y ctx ! unat y = hi_table y @ hi_table y)))"

lemma scalar_ok_mem_tables:
  "scalar_ok (ctx\<lparr>MM128_TABLE_LO_Y := l, MM128_TABLE_HI_Y := h\<rparr>) = scalar_ok ctx"
  "scalar_ok (ctx\<lparr>MM128_TABLE_LO_Y := l, MM128_TABLE_HI_Y := h, MM256_TABLE_LO_Y := l2, MM256_TABLE_HI_Y := h2\<rparr>) = scalar_ok ctx"
  by (simp_all add: scalar_ok_def gf256_mul_def gf256_div_def gf256_inv_def gf256_sqr_def)

lemma gf256_mul_mem_row_ok:
  assumes "mem_rows_ok arch k s" and "k < 256"
  shows "\<exists>s'. gf256_mul_mem_row arch k s = Some s' \<and> mem_rows_ok arch (Suc k) s'"
proof -
  obtain ctx t where s: "s = (ctx, t)" by force
  define w where "w = (word_of_nat k :: u8)"
  have w: "unat w = k" using assms(2) by (simp add: w_def unat_of_nat)
  note inv = assms(1) [unfolded mem_rows_ok_def s prod.case]
  obtain lo hi where lh: "for_range 0 16 (\<lambda>x (lo, hi). do {
         p \<leftarrow> gf256_mul ctx (word_of_nat x) w;
         lo \<leftarrow> tab_set lo x p;
         q \<leftarrow> gf256_mul ctx (push_bit 4 (word_of_nat x)) w;
         hi \<leftarrow> tab_set hi x q;
         Some (lo, hi) }) (bufA t, bufB t) = Some (lo, hi)" "length lo = 64" "length hi = 64"
    "slice lo 0 16 = lo_table w" "slice hi 0 16 = hi_table w"
    using fill_nibbles [of ctx "bufA t" "bufB t" w] inv by blast
  have lt: "unat y < Suc k \<longleftrightarrow> unat y < k \<or> y = w" for y :: u8
    using w by (metis less_Suc_eq unsigned_word_eqI)
  show ?thesis
    using inv lh assms(2)
    by (auto simp: gf256_mul_mem_row_def s w_def [symmetric] loadu_def mem_rows_ok_def ctx_sized_def scalar_ok_mem_tables lt w Let_def)
qed


text \<open>The states of the library before and after initialisation.\<close>

definition gf256_fresh :: "gf256_state \<Rightarrow> bool" where
  "gf256_fresh st \<longleftrightarrow> lib_ctx st = GF256Ctx \<and> \<not> Initialized st \<and> lib_buffers st = m_SelfTestBuffers"

definition gf256_ready :: "gf256_state \<Rightarrow> bool" where
  "gf256_ready st \<longleftrightarrow> Initialized st \<and> scalar_ok (lib_ctx st) \<and> mem_tables_ok (lib_arch st) (lib_ctx st)"

lemma gf256_mul_mem_init_ok:
  assumes "ctx_sized ctx" and "scalar_ok ctx"
  shows "\<exists>ctx' t'. gf256_mul_mem_init arch (ctx, m_SelfTestBuffers) = Some (ctx', t')
    \<and> scalar_ok ctx' \<and> mem_tables_ok arch ctx' \<and> length (bufA t') = 64 \<and> length (bufB t') = 64 \<and> length (bufC t') = 64"
proof -
  have "mem_rows_ok arch 0 (ctx, m_SelfTestBuffers)"
    using assms by (simp add: mem_rows_ok_def m_SelfTestBuffers_def kTestBufferAllocated_def)
  then have "\<exists>s. for_range 0 256 (gf256_mul_mem_row arch) (ctx, m_SelfTestBuffers) = Some s \<and> mem_rows_ok arch 256 s"
    by (intro for_range_rule [where P = "mem_rows_ok arch"] gf256_mul_mem_row_ok) simp_all
  then obtain ctx' t' where run: "for_range 0 256 (gf256_mul_mem_row arch) (ctx, m_SelfTestBuffers) = Some (ctx', t')"
    and rows: "mem_rows_ok arch 256 (ctx', t')" by force
  have "unat (y :: u8) < 256" for y using unat_bound [of y] by simp
  then have "mem_tables_ok arch ctx'" using rows by (simp add: mem_rows_ok_def mem_tables_ok_def ctx_sized_def)
  then show ?thesis using run rows by (simp add: gf256_mul_mem_init_def mem_rows_ok_def)
qed

lemma ctx_sized_init: "ctx_sized (GF256Ctx\<lparr>Polynomial := p\<rparr>)"
  by (simp add: ctx_sized_def)

lemma gf256_init_ready:
  assumes "gf256_fresh st" and "addrA mod align = 0" "addrB mod align = 0" "addrC mod align = 0"
  shows "\<exists>st'. gf256_init mobile cpuid (addrA, addrB, addrC) align GF256_VERSION st = Some (0, st') \<and> gf256_ready st'"
proof -
  let ?a = "gf256_architecture_init mobile cpuid"
  have endian: "IsExpectedEndian = Some True"
    by (simp add: IsExpectedEndian_def kEndianTestData_def ReadU32_LE_def rd8_def)
  obtain e l where c1: "gf256_explog_init (GF256Ctx\<lparr>Polynomial := 0x14d\<rparr>) = Some (GF256Ctx\<lparr>Polynomial := 0x14d, GF256_EXP_TABLE := e, GF256_LOG_TABLE := l\<rparr>)"
    "ctx_sized (GF256Ctx\<lparr>Polynomial := 0x14d, GF256_EXP_TABLE := e, GF256_LOG_TABLE := l\<rparr>)"
    "explog_ok (GF256Ctx\<lparr>Polynomial := 0x14d, GF256_EXP_TABLE := e, GF256_LOG_TABLE := l\<rparr>)"
    using gf256_explog_init_ok [OF ctx_sized_init, of "0x14d"] by auto
  obtain c2 where c2: "gf256_muldiv_init (GF256Ctx\<lparr>Polynomial := 0x14d, GF256_EXP_TABLE := e, GF256_LOG_TABLE := l\<rparr>) = Some c2"
    "ctx_sized c2" "muldiv_ok c2" using gf256_muldiv_init_ok [OF c1(2,3)] by blast
  obtain c3 c4 where c4: "gf256_inv_init c2 = Some c3" "gf256_sqr_init c3 = Some c4" "ctx_sized c4" "scalar_ok c4"
    using gf256_inv_sqr_init_ok [OF c2(2,3)] by blast
  obtain c5 t where c5: "gf256_mul_mem_init ?a (c4, m_SelfTestBuffers) = Some (c5, t)" "scalar_ok c5" "mem_tables_ok ?a c5"
    "length (bufA t) = 64" "length (bufB t) = 64" "length (bufC t) = 64"
    using gf256_mul_mem_init_ok [OF c4(3,4)] by blast
  obtain t' where t': "gf256_self_test ?a c5 (addrA, addrB, addrC) align t = Some (True, t')"
    using gf256_self_test_ok [OF c5(2-6) assms(2-4)] by blast
  have "gf256_init mobile cpuid (addrA, addrB, addrC) align GF256_VERSION st
      = Some (0, st\<lparr>Initialized := True, lib_ctx := c5, lib_buffers := t', lib_arch := ?a\<rparr>)"
    using assms(1) unfolding gf256_init_def gf256_fresh_def endian
    by (simp add: poly_init_default c1(1) c2(1) c4(1,2) c5(1) t' Let_def)
  then show ?thesis using c5(2,3) by (simp add: gf256_ready_def)
qed

text \<open>Property C16: initialising the finite field library succeeds, its self-test included, for every set of
  processor features, provided that the test buffers are aligned.  Afterwards the tables give the
  product of polynomials modulo \<open>0x14d\<close>, quotients undo products, and inverses and squares are right;
  with exclusive or as addition these are the operations of a field.\<close>

theorem gf256_tables_are_field:
  assumes "gf256_fresh st" and "addrA mod align = 0" "addrB mod align = 0" "addrC mod align = 0"
  shows "\<exists>st'. gf256_init mobile cpuid (addrA, addrB, addrC) align GF256_VERSION st = Some (0, st')
    \<and> (\<forall>x y. gf256_mul (lib_ctx st') x y = Some (gmul x y))
    \<and> (\<forall>x y. y \<noteq> 0 \<longrightarrow> gf256_div (lib_ctx st') (gmul x y) y = Some x)
    \<and> (\<forall>x. x \<noteq> 0 \<longrightarrow> (\<exists>i. gf256_inv (lib_ctx st') x = Some i \<and> gmul x i = 1))
    \<and> (\<forall>x. gf256_sqr (lib_ctx st') x = Some (gmul x x))
    \<and> (\<forall>x y z. gmul x y = gmul y x \<and> gmul (gmul x y) z = gmul x (gmul y z) \<and> gmul x 1 = x
         \<and> gmul (gf256_add x y) z = gf256_add (gmul x z) (gmul y z))"
proof -
  obtain st' where st': "gf256_init mobile cpuid (addrA, addrB, addrC) align GF256_VERSION st = Some (0, st')" "gf256_ready st'"
    using gf256_init_ready [OF assms] by blast
  then show ?thesis
    by (intro exI [of _ st']) (auto simp: gf256_ready_def scalar_ok_def gf256_add_def gmul_assoc gmul_xor intro: gmul_commute)
qed

theorem gf256_tables_are_field_witness:
  "\<exists>st'. gf256_init False (\<lambda>_. [0, 0x20, 0x200, 0]) (64, 128, 192) 32 GF256_VERSION
       \<lparr> lib_ctx = GF256Ctx, Initialized = False, lib_buffers = m_SelfTestBuffers, lib_arch = \<lparr> TARGET_MOBILE = False, CpuHasAVX2 = False, CpuHasSSSE3 = False \<rparr> \<rparr>
       = Some (0, st')
    \<and> gf256_mul (lib_ctx st') 0xaa 0x6c = Some (gmul 0xaa 0x6c) \<and> gf256_div (lib_ctx st') (gmul 0xaa 0x6c) 0x6c = Some 0xaa"
proof -
  let ?st = "\<lparr> lib_ctx = GF256Ctx, Initialized = False, lib_buffers = m_SelfTestBuffers,
    lib_arch = \<lparr> TARGET_MOBILE = False, CpuHasAVX2 = False, CpuHasSSSE3 = False \<rparr> \<rparr>"
  have fresh: "gf256_fresh ?st" by (simp add: gf256_fresh_def)
  have align: "64 mod 32 = (0 :: nat)" "128 mod 32 = (0 :: nat)" "192 mod 32 = (0 :: nat)" by simp_all
  obtain st' where st': "gf256_init False (\<lambda>_. [0, 0x20, 0x200, 0]) (64, 128, 192) 32 GF256_VERSION ?st = Some (0, st')"
    "\<forall>x y. gf256_mul (lib_ctx st') x y = Some (gmul x y)"
    "\<forall>x y. y \<noteq> 0 \<longrightarrow> gf256_div (lib_ctx st') (gmul x y) y = Some x"
    using gf256_tables_are_field [OF fresh align, of False "\<lambda>_. [0, 0x20, 0x200, 0]"] by (elim exE conjE)
  show ?thesis by (intro exI [of _ st'] conjI st'(1) st'(2)[rule_format] st'(3)[rule_format]) simp
qed

text \<open>Property C15: once the library is initialised, every bulk operation is the byte-by-byte operation on the
  first \<open>n\<close> bytes and leaves the rest of the target alone, for every length and every set of processor features:
  the loops over registers of 32 and 16 bytes, words of 8 and 4 bytes and single bytes
  neither skip nor repeat a byte nor leave the buffers, and the table look-ups on half bytes give the product.\<close>

theorem gf256_bulk_operations:
  assumes "gf256_ready st" and "n \<le> length z" and "n \<le> length x" and "n \<le> length y"
  shows "gf256_add_mem (lib_arch st) z x n = Some (filled (\<lambda>i. z ! i XOR x ! i) z n)
    \<and> gf256_add2_mem (lib_arch st) z x y n = Some (filled (\<lambda>i. z ! i XOR (x ! i XOR y ! i)) z n)
    \<and> gf256_addset_mem (lib_arch st) z x y n = Some (filled (\<lambda>i. x ! i XOR y ! i) z n)
    \<and> gf256_mul_mem (lib_arch st) (lib_ctx st) z x v n = Some (filled (\<lambda>i. gmul (x ! i) v) z n)
    \<and> gf256_muladd_mem (lib_arch st) (lib_ctx st) z v x n = Some (filled (\<lambda>i. z ! i XOR gmul (x ! i) v) z n)
    \<and> (v \<noteq> 0 \<longrightarrow> (\<exists>q. gf256_div_mem (lib_arch st) (lib_ctx st) z x v n = Some (filled q z n) \<and> (\<forall>i<n. gmul (q i) v = x ! i)))
    \<and> gf256_memswap (lib_arch st) z x n = Some (filled ((!) x) z n, filled ((!) z) x n)"
  using assms by (intro conjI impI) (simp_all add: gf256_ready_def gf256_add_mem_eq gf256_add2_mem_eq gf256_addset_mem_eq gf256_mul_mem_eq
      gf256_muladd_mem_eq gf256_div_mem_eq gf256_memswap_eq)

theorem gf256_bulk_operations_witness:
  "\<exists>st. gf256_ready st \<and> gf256_add_mem (lib_arch st) (replicate 77 1) (replicate 80 2) 75
       = Some (filled (\<lambda>i. replicate 77 1 ! i XOR replicate 80 2 ! i) (replicate 77 1) 75)
     \<and> gf256_muladd_mem (lib_arch st) (lib_ctx st) (replicate 77 1) 0x6c (replicate 80 2) 75
       = Some (filled (\<lambda>i. replicate 77 1 ! i XOR gmul (replicate 80 2 ! i) 0x6c) (replicate 77 1) 75)"
proof -
  let ?st = "\<lparr> lib_ctx = GF256Ctx, Initialized = False, lib_buffers = m_SelfTestBuffers,
    lib_arch = \<lparr> TARGET_MOBILE = False, CpuHasAVX2 = False, CpuHasSSSE3 = False \<rparr> \<rparr>"
  have "gf256_fresh ?st" by (simp add: gf256_fresh_def)
  then obtain st where "gf256_ready st"
    using gf256_init_ready [of ?st 64 32 128 192 False "\<lambda>_. [0, 0x20, 0x200, 0]"] by auto
  then show ?thesis
    using gf256_bulk_operations [of st 75 "replicate 77 1" "replicate 80 2" "replicate 80 0" "0x6c"] by auto
qed

end
