(* ===== verification/Custom_Bit_Set.thy ===== *)
theory Custom_Bit_Set
  imports Tonk_Prelude
begin

text \<open>
  The bit set of \<open>PacketAllocator.h\<close> (\<open>CustomBitSet\<close>): an array of 64-bit words with operations on single bits
  and on ranges.  The number of bits is the template parameter, an argument of the operations that use it.

  The operations are shown to implement those of a set of numbers.
\<close>

unbundle bit_operations_syntax

section \<open>Bit counts\<close>

definition PopCount64 :: "u64 \<Rightarrow> nat" where
  "PopCount64 x = length (filter (bit x) [0..<64])"

text \<open>The value for zero is the one of \<open>__builtin_ffsll(0) - 1\<close> as an unsigned number.\<close>

definition TrailingZeros64 :: "u64 \<Rightarrow> nat" where
  "TrailingZeros64 x = (case filter (bit x) [0..<64] of [] \<Rightarrow> 2 ^ 32 - 1 | i # _ \<Rightarrow> i)"

section \<open>The bit set\<close>

type_synonym CustomBitSet = "u64 list"

definition kWordBits :: nat where "kWordBits = 64"

definition kAllOnes :: u64 where "kAllOnes = 0xffffffffffffffff"

definition bitset_words :: "nat \<Rightarrow> nat" where
  "bitset_words kValidBits = (kValidBits + kWordBits - 1) div kWordBits"

definition bitset_ClearAll :: "CustomBitSet \<Rightarrow> CustomBitSet option" where
  "bitset_ClearAll Words = for_range 0 (length Words) (\<lambda>i Words. tab_set Words i 0) Words"

definition bitset_SetAll :: "CustomBitSet \<Rightarrow> CustomBitSet option" where
  "bitset_SetAll Words = for_range 0 (length Words) (\<lambda>i Words. tab_set Words i kAllOnes) Words"

definition bitset_Set :: "nat \<Rightarrow> CustomBitSet \<Rightarrow> CustomBitSet option" where
  "bitset_Set b Words = do {
     let word = b div kWordBits;
     let mask' = push_bit (b mod kWordBits) 1;
     w \<leftarrow> tab_get Words word;
     tab_set Words word (w OR mask') }"

definition bitset_Clear :: "nat \<Rightarrow> CustomBitSet \<Rightarrow> CustomBitSet option" where
  "bitset_Clear b Words = do {
     let word = b div kWordBits;
     let mask' = push_bit (b mod kWordBits) 1;
     w \<leftarrow> tab_get Words word;
     tab_set Words word (w AND NOT mask') }"

definition bitset_Check :: "nat \<Rightarrow> CustomBitSet \<Rightarrow> bool option" where
  "bitset_Check b Words = do {
     let word = b div kWordBits;
     let mask' = push_bit (b mod kWordBits) 1;
     w \<leftarrow> tab_get Words word;
     Some (0 \<noteq> w AND mask') }"

definition RangePopcount :: "nat \<Rightarrow> nat \<Rightarrow> CustomBitSet \<Rightarrow> nat option" where
  "RangePopcount bitStart bitEnd Words =
     (if bitStart \<ge> bitEnd then Some 0
      else do {
        let wordIndex = bitStart div kWordBits;
        let wordEnd = bitEnd div kWordBits;
        w \<leftarrow> tab_get Words wordIndex;
        let word = drop_bit (bitStart mod kWordBits) w;
        if wordEnd = wordIndex then Some (PopCount64 (push_bit (kWordBits - (bitEnd - bitStart)) word))
        else do {
          let count = PopCount64 word;
          count \<leftarrow> for_range (wordIndex + 1) wordEnd (\<lambda>i count. do {
              w \<leftarrow> tab_get Words i;
              Some (count + PopCount64 w) }) count;
          let lastWordBits = bitEnd - wordEnd * kWordBits;
          (if lastWordBits > 0 then do {
             w \<leftarrow> tab_get Words wordEnd;
             Some (count + PopCount64 (push_bit (kWordBits - lastWordBits) w)) }
           else Some count) }})"

text \<open>The search loops: the first word from \<open>i\<close> on that passes the test, as a bit index.\<close>

function find_word :: "(u64 \<Rightarrow> u64) \<Rightarrow> CustomBitSet \<Rightarrow> nat \<Rightarrow> nat \<Rightarrow> nat \<Rightarrow> nat option" where
  "find_word f Words i n other =
     (if i < n then do {
        w \<leftarrow> tab_get Words i;
        let word = f w;
        (if word \<noteq> 0 then Some (i * kWordBits + TrailingZeros64 word)
         else find_word f Words (i + 1) n other) }
      else Some other)"
  by pat_completeness auto
termination by (relation "measure (\<lambda>(f, Words, i, n, other). n - i)") auto

declare find_word.simps [simp del]

definition first_bit :: "u64 \<Rightarrow> nat" where
  "first_bit word = (if word AND 1 = 0 then TrailingZeros64 word else 0)"

definition FindFirstClear :: "nat \<Rightarrow> nat \<Rightarrow> CustomBitSet \<Rightarrow> nat option" where
  "FindFirstClear kValidBits bitStart Words = do {
     let wordStart = bitStart div kWordBits;
     w \<leftarrow> tab_get Words wordStart;
     let word = drop_bit (bitStart mod kWordBits) (NOT w);
     (if word \<noteq> 0 then Some (bitStart + first_bit word)
      else find_word (\<lambda>w. NOT w) Words (wordStart + 1) (bitset_words kValidBits) kValidBits) }"

definition FindFirstSet :: "nat \<Rightarrow> nat \<Rightarrow> CustomBitSet \<Rightarrow> nat option" where
  "FindFirstSet bitStart bitEnd Words = do {
     let wordStart = bitStart div kWordBits;
     w \<leftarrow> tab_get Words wordStart;
     let word = drop_bit (bitStart mod kWordBits) w;
     (if word \<noteq> 0 then Some (bitStart + first_bit word)
      else find_word (\<lambda>w. w) Words (wordStart + 1) ((bitEnd + kWordBits - 1) div kWordBits) bitEnd) }"

definition SetRange :: "nat \<Rightarrow> nat \<Rightarrow> CustomBitSet \<Rightarrow> CustomBitSet option" where
  "SetRange bitStart bitEnd Words =
     (if bitStart \<ge> bitEnd then Some Words
      else do {
        let wordStart = bitStart div kWordBits;
        let wordEnd = bitEnd div kWordBits;
        let bitStart = bitStart mod kWordBits;
        w \<leftarrow> tab_get Words wordStart;
        if wordEnd = wordStart then do {
          let bitEnd = bitEnd mod kWordBits;
          let mask' = push_bit (bitEnd - bitStart) 1 - 1;
          let mask' = push_bit bitStart mask';
          tab_set Words wordStart (w OR mask') }
        else do {
          Words \<leftarrow> tab_set Words wordStart (w OR push_bit bitStart kAllOnes);
          Words \<leftarrow> for_range (wordStart + 1) wordEnd (\<lambda>i Words. tab_set Words i kAllOnes) Words;
          let lastWordBits = bitEnd - wordEnd * kWordBits;
          (if lastWordBits > 0 then do {
             let mask' = push_bit lastWordBits 1 - 1;
             w \<leftarrow> tab_get Words wordEnd;
             tab_set Words wordEnd (w OR mask') }
           else Some Words) }})"

definition ClearRange :: "nat \<Rightarrow> nat \<Rightarrow> CustomBitSet \<Rightarrow> CustomBitSet option" where
  "ClearRange bitStart bitEnd Words =
     (if bitStart \<ge> bitEnd then Some Words
      else do {
        let wordStart = bitStart div kWordBits;
        let wordEnd = bitEnd div kWordBits;
        let bitStart = bitStart mod kWordBits;
        w \<leftarrow> tab_get Words wordStart;
        if wordEnd = wordStart then do {
          let bitEnd = bitEnd mod kWordBits;
          let mask' = push_bit (bitEnd - bitStart) 1 - 1;
          let mask' = push_bit bitStart mask';
          tab_set Words wordStart (w AND NOT mask') }
        else do {
          Words \<leftarrow> tab_set Words wordStart (w AND NOT (push_bit bitStart kAllOnes));
          Words \<leftarrow> for_range (wordStart + 1) wordEnd (\<lambda>i Words. tab_set Words i 0) Words;
          let lastWordBits = bitEnd - wordEnd * kWordBits;
          (if lastWordBits > 0 then do {
             let mask' = push_bit lastWordBits 1 - 1;
             w \<leftarrow> tab_get Words wordEnd;
             tab_set Words wordEnd (w AND NOT mask') }
           else Some Words) }})"

section \<open>The set of numbers that a bit set stands for\<close>

definition bits_of :: "CustomBitSet \<Rightarrow> nat set" where
  "bits_of Words = {i. i < 64 * length Words \<and> bit (Words ! (i div 64)) (i mod 64)}"

lemma bits_of_eqI:
  assumes "length W = length V" and "\<And>i j. i < length V \<Longrightarrow> j < 64 \<Longrightarrow> bit (W ! i) j \<longleftrightarrow> 64 * i + j \<in> S"
    and "S \<subseteq> {..<64 * length V}"
  shows "bits_of W = S"
proof (rule set_eqI)
  fix k
  show "k \<in> bits_of W \<longleftrightarrow> k \<in> S"
  proof (cases "k < 64 * length V")
    case True
    then have "k div 64 < length V" by (simp add: less_mult_imp_div_less mult.commute)
    then show ?thesis using assms(1) assms(2) [of "k div 64" "k mod 64"] True by (simp add: bits_of_def)
  next
    case False
    then show ?thesis using assms(1,3) by (auto simp: bits_of_def)
  qed
qed

lemma in_bits_of: "i < length W \<Longrightarrow> j < 64 \<Longrightarrow> 64 * i + j \<in> bits_of W \<longleftrightarrow> bit (W ! i) j"
  by (simp add: bits_of_def)

lemma bits_of_bound: "bits_of W \<subseteq> {..<64 * length W}" "finite (bits_of W)"
  using finite_subset [of "bits_of W" "{..<64 * length W}"] by (auto simp: bits_of_def)

lemma bit_ones: "bit kAllOnes n \<longleftrightarrow> n < 64"
proof -
  have ones: "kAllOnes = mask 64" by (simp add: kAllOnes_def mask_numeral)
  show ?thesis unfolding ones by (simp add: bit_mask_iff)
qed

lemma bit_low: "n < 64 \<Longrightarrow> bit (2 ^ n - 1 :: u64) j \<longleftrightarrow> j < n"
proof -
  assume n: "n < 64"
  have low: "2 ^ n - 1 = (mask n :: u64)" by (simp add: mask_eq_exp_minus_1)
  show ?thesis unfolding low using n by (auto simp: bit_mask_iff)
qed


text \<open>An array whose words are all one value from \<open>a\<close> to \<open>b\<close>.\<close>

lemma fill_words:
  assumes "a \<le> b" and "b \<le> length W"
  shows "\<exists>V. for_range a b (\<lambda>i W. tab_set W i v) W = Some V \<and> length V = length W
    \<and> (\<forall>i<length W. V ! i = (if a \<le> i \<and> i < b then v else W ! i))"
  by (rule for_range_rule [where P = "\<lambda>k V. length V = length W \<and> (\<forall>i<length W. V ! i = (if a \<le> i \<and> i < k then v else W ! i))"])
    (use assms in \<open>auto simp: nth_list_update\<close>)

lemma ClearAll_bits: "\<exists>V. bitset_ClearAll W = Some V \<and> length V = length W \<and> bits_of V = {}"
proof -
  obtain V where V: "bitset_ClearAll W = Some V" "length V = length W" "\<forall>i<length W. V ! i = 0"
    using fill_words [of 0 "length W" W 0] by (auto simp: bitset_ClearAll_def)
  moreover have "bits_of V = {}" by (rule bits_of_eqI [OF V(2)]) (use V(3) in auto)
  ultimately show ?thesis by blast
qed

lemma SetAll_bits: "\<exists>V. bitset_SetAll W = Some V \<and> length V = length W \<and> bits_of V = {..<64 * length W}"
proof -
  obtain V where V: "bitset_SetAll W = Some V" "length V = length W" "\<forall>i<length W. V ! i = kAllOnes"
    using fill_words [of 0 "length W" W kAllOnes] by (auto simp: bitset_SetAll_def)
  moreover have "bits_of V = {..<64 * length W}" by (rule bits_of_eqI [OF V(2)]) (use V(3) in \<open>auto simp: bit_ones\<close>)
  ultimately show ?thesis by blast
qed

text \<open>A change of one word.\<close>

lemma bits_of_update:
  assumes "k < length W" and "\<And>j. j < 64 \<Longrightarrow> bit w j \<longleftrightarrow> 64 * k + j \<in> S"
    and "\<And>i. i \<notin> {64 * k..<64 * k + 64} \<Longrightarrow> i \<in> S \<longleftrightarrow> i \<in> bits_of W"
  shows "bits_of (W[k := w]) = S"
proof (rule bits_of_eqI [of _ W])
  show "S \<subseteq> {..<64 * length W}"
  proof
    fix i
    assume "i \<in> S"
    then show "i \<in> {..<64 * length W}"
      using assms(1) assms(3) [of i] bits_of_bound(1) [of W] by (cases "i \<in> {64 * k..<64 * k + 64}") auto
  qed
  fix i j :: nat
  assume ij: "i < length W" "j < 64"
  show "bit (W[k := w] ! i) j \<longleftrightarrow> 64 * i + j \<in> S"
  proof (cases "i = k")
    case True
    then show ?thesis using assms(1,2) ij by simp
  next
    case False
    then have "64 * i + j \<notin> {64 * k..<64 * k + 64}" using ij(2) by auto
    then show ?thesis using False ij assms(3) [of "64 * i + j"] in_bits_of [of i W j] by simp
  qed
qed simp

lemma word_of_bit: "b < 64 * length W \<Longrightarrow> b div 64 < length W"
  by (simp add: less_mult_imp_div_less mult.commute)

lemma bit_single: "n < 64 \<Longrightarrow> bit (2 ^ n :: u64) j \<longleftrightarrow> j = n"
  by (auto simp: bit_simps)

lemma same_word: "64 * (b div 64) + j = b \<longleftrightarrow> j = b mod (64 :: nat)"
  by (metis add_left_cancel mult_div_mod_eq)

lemma Set_bits:
  assumes "b < 64 * length W"
  shows "\<exists>V. bitset_Set b W = Some V \<and> length V = length W \<and> bits_of V = insert b (bits_of W)"
proof -
  let ?k = "b div 64"
  have k: "?k < length W" using word_of_bit [OF assms] .
  have "bits_of (W[?k := W ! ?k OR push_bit (b mod 64) 1]) = insert b (bits_of W)"
    by (rule bits_of_update [OF k]) (auto simp: bit_or_iff bit_single in_bits_of [OF k] same_word)
  then show ?thesis using k by (simp add: bitset_Set_def kWordBits_def Let_def)
qed

lemma Clear_bits:
  assumes "b < 64 * length W"
  shows "\<exists>V. bitset_Clear b W = Some V \<and> length V = length W \<and> bits_of V = bits_of W - {b}"
proof -
  let ?k = "b div 64"
  have k: "?k < length W" using word_of_bit [OF assms] .
  have "bits_of (W[?k := W ! ?k AND NOT (push_bit (b mod 64) 1)]) = bits_of W - {b}"
    by (rule bits_of_update [OF k]) (auto simp: bit_and_iff bit_not_iff bit_single in_bits_of [OF k] same_word)
  then show ?thesis using k by (simp add: bitset_Clear_def kWordBits_def Let_def)
qed

lemma Check_bits:
  assumes "b < 64 * length W"
  shows "bitset_Check b W = Some (b \<in> bits_of W)"
proof -
  let ?k = "b div 64"
  have k: "?k < length W" using word_of_bit [OF assms] .
  have "W ! ?k AND push_bit (b mod 64) 1 = 0 \<longleftrightarrow> \<not> bit (W ! ?k) (b mod 64)"
  proof
    assume "W ! ?k AND push_bit (b mod 64) 1 = 0"
    then have "\<not> bit (W ! ?k AND push_bit (b mod 64) 1) (b mod 64)" by simp
    then show "\<not> bit (W ! ?k) (b mod 64)" by (simp add: bit_and_iff bit_single)
  next
    assume "\<not> bit (W ! ?k) (b mod 64)"
    then show "W ! ?k AND push_bit (b mod 64) 1 = 0" by (intro bit_word_eqI) (auto simp: bit_and_iff bit_single)
  qed
  then show ?thesis using k assms by (simp add: bitset_Check_def kWordBits_def Let_def bits_of_def)
qed


section \<open>Ranges\<close>

text \<open>The words that a range of bits meets: the first one, the whole ones and the last one.\<close>

lemma range_words:
  fixes s e :: nat
  assumes "s < e"
  shows "s div 64 = e div 64 \<Longrightarrow> 64 * i + j \<in> {s..<e} \<and> j < 64 \<longleftrightarrow> i = s div 64 \<and> s mod 64 \<le> j \<and> j < e mod 64"
    and "s div 64 \<noteq> e div 64 \<Longrightarrow> j < 64 \<Longrightarrow> 64 * i + j \<in> {s..<e} \<longleftrightarrow>
      i = s div 64 \<and> s mod 64 \<le> j \<or> s div 64 < i \<and> i < e div 64 \<or> i = e div 64 \<and> j < e mod 64"
proof -
  define a b c d where "a = s div 64" "b = s mod 64" "c = e div 64" "d = e mod (64 :: nat)"
  have s: "s = 64 * a + b" "b < 64" and e: "e = 64 * c + d" "d < 64" by (simp_all add: a_b_c_d_def)
  show "64 * i + j \<in> {s..<e} \<and> j < 64 \<longleftrightarrow> i = s div 64 \<and> s mod 64 \<le> j \<and> j < e mod 64" if "s div 64 = e div 64"
  proof -
    have "a = c" using that by (simp add: a_b_c_d_def)
    then show ?thesis unfolding a_b_c_d_def(1,2,4) [symmetric] using s e
      by (cases i c rule: linorder_cases) auto
  qed
  show "64 * i + j \<in> {s..<e} \<longleftrightarrow>
      i = s div 64 \<and> s mod 64 \<le> j \<or> s div 64 < i \<and> i < e div 64 \<or> i = e div 64 \<and> j < e mod 64"
    if "s div 64 \<noteq> e div 64" "j < 64"
  proof -
    have "a < c" using that(1) assms s e by (auto simp: a_b_c_d_def [symmetric])
    then show ?thesis unfolding a_b_c_d_def [symmetric] using s e that(2) by auto
  qed
qed

lemma bit_middle:
  assumes "e < 64" and "j < 64"
  shows "bit (push_bit s (2 ^ (e - s) - 1) :: u64) j \<longleftrightarrow> s \<le> j \<and> j < e"
proof -
  have "e - s < 64" using assms(1) by simp
  then show ?thesis using assms(2) bit_low [of "e - s" "j - s"] by (auto simp: bit_push_bit_iff)
qed

lemma range_split:
  assumes "s < e" and "e \<le> 64 * length (W :: CustomBitSet)"
  shows "s div 64 < length W" "e div 64 \<le> length W" "0 < e - e div 64 * 64 \<Longrightarrow> e div 64 < length W"
    "e - e div 64 * 64 = e mod 64" "s div 64 \<noteq> e div 64 \<Longrightarrow> s div 64 + 1 \<le> e div 64"
proof -
  show "s div 64 < length W" using assms by (intro word_of_bit) simp
  show "e div 64 \<le> length W" using assms(2) div_le_mono [of e "64 * length W" 64] by simp
  show m: "e - e div 64 * 64 = e mod 64" by (simp add: minus_div_mult_eq_mod)
  show "e div 64 < length W" if "0 < e - e div 64 * 64"
  proof (rule word_of_bit)
    show "e < 64 * length W" using that assms(2) m by (metis le_neq_implies_less mod_mult_self1_is_0 not_less_zero)
  qed
  show "s div 64 + 1 \<le> e div 64" if "s div 64 \<noteq> e div 64"
    using that assms(1) div_le_mono [of s e 64] by simp
qed


text \<open>Both range operations combine a mask with the words that the range meets, and replace the words that
  it covers.  The interface of such a combination: its effect on each bit.\<close>

definition range_update :: "(u64 \<Rightarrow> u64 \<Rightarrow> u64) \<Rightarrow> u64 \<Rightarrow> nat \<Rightarrow> nat \<Rightarrow> CustomBitSet \<Rightarrow> CustomBitSet option" where
  "range_update g v s e W =
     (if s \<ge> e then Some W
      else do {
        w \<leftarrow> tab_get W (s div 64);
        if e div 64 = s div 64 then tab_set W (s div 64) (g w (push_bit (s mod 64) (2 ^ (e mod 64 - s mod 64) - 1)))
        else do {
          W \<leftarrow> tab_set W (s div 64) (g w (push_bit (s mod 64) kAllOnes));
          W \<leftarrow> for_range (s div 64 + 1) (e div 64) (\<lambda>i W. tab_set W i v) W;
          (if 0 < e - e div 64 * 64 then do {
             w \<leftarrow> tab_get W (e div 64);
             tab_set W (e div 64) (g w (2 ^ (e - e div 64 * 64) - 1)) }
           else Some W) }})"

locale range_combination =
  fixes g :: "u64 \<Rightarrow> u64 \<Rightarrow> u64" and v :: u64 and target :: bool
  assumes combine: "j < 64 \<Longrightarrow> bit (g w m) j \<longleftrightarrow> (if bit m j then target else bit w j)"
    and whole: "j < 64 \<Longrightarrow> bit v j \<longleftrightarrow> target"
begin

definition updated :: "nat set \<Rightarrow> CustomBitSet \<Rightarrow> nat set" where
  "updated R W = (if target then bits_of W \<union> R else bits_of W - R)"

lemma in_updated: "i \<in> updated R W \<longleftrightarrow> (if i \<in> R then target else i \<in> bits_of W)"
  by (auto simp: updated_def)

lemma one_word:
  assumes "s < e" and "e \<le> 64 * length W" and same: "e div 64 = s div 64"
  shows "bits_of (W[s div 64 := g (W ! (s div 64)) (push_bit (s mod 64) (2 ^ (e mod 64 - s mod 64) - 1))]) = updated {s..<e} W"
proof (rule bits_of_update)
  note in_range = range_words(1) [OF assms(1) same [symmetric]]
  show k: "s div 64 < length W" by (rule range_split(1) [OF assms(1,2)])
  have lt: "e mod 64 < 64" by simp
  show "bit (g (W ! (s div 64)) (push_bit (s mod 64) (2 ^ (e mod 64 - s mod 64) - 1))) j \<longleftrightarrow> 64 * (s div 64) + j \<in> updated {s..<e} W"
    if "j < 64" for j
    using in_range [of "s div 64" j] that in_bits_of [OF k that] by (simp add: combine bit_middle [OF lt that] in_updated)
  show "i \<in> updated {s..<e} W \<longleftrightarrow> i \<in> bits_of W" if "i \<notin> {64 * (s div 64)..<64 * (s div 64) + 64}" for i
    using that in_range [of "i div 64" "i mod 64"] by (auto simp: in_updated)
qed

lemma several_words:
  assumes "s < e" and "e \<le> 64 * length W" and ne: "s div 64 \<noteq> e div 64"
  shows "\<exists>V. range_update g v s e W = Some V \<and> length V = length W \<and> bits_of V = updated {s..<e} W"
proof -
  note r = range_split [OF assms(1,2)]
  let ?k = "s div 64" and ?l = "e div 64"
  define W1 where "W1 = W[?k := g (W ! ?k) (push_bit (s mod 64) kAllOnes)]"
  obtain W2 where W2: "for_range (?k + 1) ?l (\<lambda>i W. tab_set W i v) W1 = Some W2" "length W2 = length W"
    "\<forall>i<length W. W2 ! i = (if ?k + 1 \<le> i \<and> i < ?l then v else W1 ! i)"
    using fill_words [of "?k + 1" ?l W1 v] r(2,5) ne by (auto simp: W1_def)
  define W3 where "W3 = (if 0 < e mod 64 then W2[?l := g (W2 ! ?l) (2 ^ (e mod 64) - 1)] else W2)"
  have "range_update g v s e W = Some W3"
    using r assms(1) ne W2(1,2) by (simp add: range_update_def W1_def W3_def)
  moreover have "bits_of W3 = updated {s..<e} W"
  proof (rule bits_of_eqI [of _ W])
    show "updated {s..<e} W \<subseteq> {..<64 * length W}" using bits_of_bound(1) [of W] assms(2) by (auto simp: updated_def)
    fix i j :: nat
    assume ij: "i < length W" "j < 64"
    have W1: "bit (W1 ! i) j \<longleftrightarrow> (if i = ?k \<and> s mod 64 \<le> j then target else bit (W ! i) j)"
      using ij r(1) less_imp_diff_less [OF ij(2), of "s mod 64"]
      by (simp add: W1_def nth_list_update combine bit_push_bit_iff bit_ones)
    have W2': "bit (W2 ! i) j \<longleftrightarrow> (if ?k < i \<and> i < ?l then target else bit (W1 ! i) j)" using W2(3) ij by (simp add: whole)
    have "bit (W3 ! i) j \<longleftrightarrow> (if i = ?l \<and> j < e mod 64 then target else bit (W2 ! i) j)"
      using ij W2(2) bit_low [of "e mod 64" j] by (cases "i = ?l") (simp_all add: W3_def combine)
    then show "bit (W3 ! i) j \<longleftrightarrow> 64 * i + j \<in> updated {s..<e} W"
      unfolding in_updated range_words(2) [OF assms(1) ne ij(2)] in_bits_of [OF ij] using W1 W2' by auto
  qed (simp add: W3_def W2(2))
  ultimately show ?thesis using W2(2) by (simp add: W3_def)
qed

lemma range_bits:
  assumes "e \<le> 64 * length W"
  shows "\<exists>V. range_update g v s e W = Some V \<and> length V = length W \<and> bits_of V = updated {s..<e} W"
proof (cases "s < e")
  case True
  show ?thesis
  proof (cases "e div 64 = s div 64")
    case same: True
    then show ?thesis using one_word [OF True assms same] range_split(1) [OF True assms] True by (simp add: range_update_def)
  next
    case False
    then show ?thesis using several_words [OF True assms] by simp
  qed
qed (simp add: range_update_def updated_def)

end

interpretation set_bits: range_combination "\<lambda>w m. w OR m" kAllOnes True
  by unfold_locales (auto simp: bit_or_iff bit_ones)

interpretation clear_bits: range_combination "\<lambda>w m. w AND NOT m" 0 False
  by unfold_locales (auto simp: bit_and_iff bit_not_iff)

lemma SetRange_bits:
  assumes "e \<le> 64 * length W"
  shows "\<exists>V. SetRange s e W = Some V \<and> length V = length W \<and> bits_of V = bits_of W \<union> {s..<e}"
proof -
  have "SetRange s e W = range_update (\<lambda>w m. w OR m) kAllOnes s e W"
    unfolding SetRange_def range_update_def kWordBits_def Let_def push_bit_of_1 ..
  then show ?thesis using set_bits.range_bits [OF assms] by (simp add: set_bits.updated_def)
qed

lemma ClearRange_bits:
  assumes "e \<le> 64 * length W"
  shows "\<exists>V. ClearRange s e W = Some V \<and> length V = length W \<and> bits_of V = bits_of W - {s..<e}"
proof -
  have "ClearRange s e W = range_update (\<lambda>w m. w AND NOT m) 0 s e W"
    unfolding ClearRange_def range_update_def kWordBits_def Let_def push_bit_of_1 ..
  then show ?thesis using clear_bits.range_bits [OF assms] by (simp add: clear_bits.updated_def)
qed


section \<open>Searching\<close>

lemma TrailingZeros64_least:
  assumes "x \<noteq> 0"
  shows "bit x (TrailingZeros64 x)" "TrailingZeros64 x < 64" "j < TrailingZeros64 x \<Longrightarrow> \<not> bit x j"
proof -
  obtain n where n: "bit x n" using assms by (auto simp: bit_eq_iff)
  then have "n < 64" using bit_imp_le_length [of x n] by simp
  then obtain i rest where f: "filter (bit x) [0..<64] = i # rest" using n by (cases "filter (bit x) [0..<64]") (auto simp: filter_empty_conv)
  obtain us vs where uv: "[0..<64] = us @ i # vs" "\<forall>u\<in>set us. \<not> bit x u" "bit x i"
    using f by (auto simp: filter_eq_Cons_iff)
  have t: "TrailingZeros64 x = i" by (simp add: TrailingZeros64_def f)
  have i: "i = length us"
  proof -
    have "length us < 64" using arg_cong [OF uv(1), of length] by simp
    then show ?thesis using arg_cong [OF uv(1), of "\<lambda>l. l ! length us"] by simp
  qed
  moreover have "length us < 64" using arg_cong [OF uv(1), of length] by simp
  ultimately show "bit x (TrailingZeros64 x)" "TrailingZeros64 x < 64" using t uv(3) by simp_all
  show "\<not> bit x j" if "j < TrailingZeros64 x"
  proof -
    have "us ! j = j" using arg_cong [OF uv(1), of "\<lambda>l. l ! j"] that t i \<open>length us < 64\<close> by (simp add: nth_append)
    then have "j \<in> set us" using that t i by (metis nth_mem)
    then show ?thesis using uv(2) by blast
  qed
qed

lemma first_bit_eq: "x \<noteq> 0 \<Longrightarrow> first_bit x = TrailingZeros64 x"
proof -
  assume x: "x \<noteq> 0"
  show ?thesis
  proof (cases "bit x 0")
    case True
    then have "TrailingZeros64 x = 0" using TrailingZeros64_least(3) [OF x, of 0] by auto
    then show ?thesis by (simp add: first_bit_def)
  next
    case False
    then show ?thesis by (simp add: first_bit_def bit_0 even_iff_mod_2_eq_zero and_one_eq)
  qed
qed

text \<open>The least element from \<open>s\<close> on of a set, as far as the set is known up to \<open>e\<close>.\<close>

definition least_from :: "nat set \<Rightarrow> nat \<Rightarrow> nat \<Rightarrow> nat \<Rightarrow> bool" where
  "least_from S s e r \<longleftrightarrow> s \<le> r \<and> (\<forall>i. s \<le> i \<and> i < r \<and> i < e \<longrightarrow> i \<notin> S) \<and> (r < e \<longrightarrow> r \<in> S)"

lemma find_word_least:
  assumes "n \<le> length W" and "\<And>i j. i < n \<Longrightarrow> j < 64 \<Longrightarrow> bit (f (W ! i)) j \<longleftrightarrow> 64 * i + j \<in> S"
    and "e \<le> 64 * n" and "k \<le> n" and "s \<le> 64 * k" and "s \<le> e" and "\<forall>i. s \<le> i \<and> i < 64 * k \<longrightarrow> i \<notin> S"
  shows "\<exists>r. find_word f W k n e = Some r \<and> least_from S s e r"
  using assms(4,5,7)
proof (induction "n - k" arbitrary: k)
  case 0
  then show ?case using assms(3,6) by (subst find_word.simps) (auto simp: least_from_def)
next
  case (Suc d)
  then have k: "k < n" by simp
  show ?case
  proof (cases "f (W ! k) = 0")
    case True
    have "i \<notin> S" if i: "s \<le> i" "i < 64 * Suc k" for i
    proof (cases "i < 64 * k")
      case False
      then have "i = 64 * k + (i - 64 * k)" "i - 64 * k < 64" using i(2) by simp_all
      then show ?thesis using assms(2) [OF k, of "i - 64 * k"] True by simp
    qed (use Suc.prems(3) i in blast)
    then have "\<exists>r. find_word f W (Suc k) n e = Some r \<and> least_from S s e r"
      using Suc.hyps(1) [of "Suc k"] Suc.hyps(2) Suc.prems(2) k by simp
    then show ?thesis using True k assms(1) by (subst find_word.simps) simp
  next
    case False
    let ?t = "TrailingZeros64 (f (W ! k))"
    note t = TrailingZeros64_least [OF False]
    have "64 * k + ?t \<in> S" using assms(2) [OF k t(2)] t(1) by simp
    moreover have "i \<notin> S" if i: "s \<le> i" "i < 64 * k + ?t" for i
    proof (cases "i < 64 * k")
      case False
      then have "i = 64 * k + (i - 64 * k)" "i - 64 * k < ?t" using i(2) by simp_all
      then show ?thesis using assms(2) [OF k, of "i - 64 * k"] t(2) t(3) [of "i - 64 * k"] by simp
    qed (use Suc.prems(3) i in blast)
    ultimately have "least_from S s e (64 * k + ?t)" using Suc.prems(2) by (auto simp: least_from_def)
    then show ?thesis using False k assms(1) by (subst find_word.simps) (simp add: kWordBits_def mult.commute)
  qed
qed


lemma start_word:
  assumes "s div 64 < length W" and "\<forall>j<64. bit x j \<longleftrightarrow> 64 * (s div 64) + j \<in> S"
  defines "word \<equiv> drop_bit (s mod 64) x"
  shows "word \<noteq> 0 \<Longrightarrow> least_from S s e (s + TrailingZeros64 word)"
    and "word = 0 \<Longrightarrow> \<forall>i. s \<le> i \<and> i < 64 * (s div 64 + 1) \<longrightarrow> i \<notin> S"
proof -
  have bits: "bit word j \<longleftrightarrow> s + j \<in> S" if "s mod 64 + j < 64" for j
    using assms(2) [rule_format, OF that] by (simp add: word_def bit_drop_bit_eq add.assoc [symmetric])
  have high: "\<not> bit word j" if "\<not> s mod 64 + j < 64" for j
    using that bit_imp_le_length [of x "s mod 64 + j"] by (auto simp: word_def bit_drop_bit_eq)
  show "least_from S s e (s + TrailingZeros64 word)" if "word \<noteq> 0"
  proof -
    note t = TrailingZeros64_least [OF that]
    have lt: "s mod 64 + TrailingZeros64 word < 64" using high t(1) by blast
    have "i \<notin> S" if "s \<le> i" "i < s + TrailingZeros64 word" for i
      using bits [of "i - s"] t(3) [of "i - s"] that lt by simp
    then show ?thesis using bits [OF lt] t(1) by (auto simp: least_from_def)
  qed
  show "\<forall>i. s \<le> i \<and> i < 64 * (s div 64 + 1) \<longrightarrow> i \<notin> S" if "word = 0"
  proof (intro allI impI)
    fix i
    assume i: "s \<le> i \<and> i < 64 * (s div 64 + 1)"
    have "s mod 64 + (i - s) < 64" using i mult_div_mod_eq [of 64 s] by arith
    then show "i \<notin> S" using bits [of "i - s"] that i by simp
  qed
qed

lemma FindFirstClear_least:
  assumes "N = 64 * length W" and "s < N"
  shows "\<exists>r. FindFirstClear N s W = Some r \<and> least_from (- bits_of W) s N r"
proof -
  have k: "s div 64 < length W" using assms by (intro word_of_bit) simp
  have n: "bitset_words N = length W" by (simp add: assms(1) bitset_words_def kWordBits_def)
  have f: "bit (NOT (W ! i)) j \<longleftrightarrow> 64 * i + j \<in> - bits_of W" if "i < length W" "j < 64" for i j
    using that in_bits_of [OF that] by (simp add: bit_not_iff)
  note start = start_word [of s W "NOT (W ! (s div 64))" "- bits_of W", OF k] f [OF k]
  have "\<exists>r. find_word (\<lambda>w. NOT w) W (s div 64 + 1) (length W) N = Some r \<and> least_from (- bits_of W) s N r"
    if "drop_bit (s mod 64) (NOT (W ! (s div 64))) = 0"
  proof (rule find_word_least)
    show "s \<le> 64 * (s div 64 + 1)" by presburger
  qed (use f k start(2) that assms in auto)
  then show ?thesis using k start(1,3)
    by (simp add: FindFirstClear_def kWordBits_def Let_def n [unfolded kWordBits_def] first_bit_eq)
qed

lemma FindFirstSet_least:
  assumes "e \<le> 64 * length W" and "s < e"
  shows "\<exists>r. FindFirstSet s e W = Some r \<and> least_from (bits_of W) s e r"
proof -
  have k: "s div 64 < length W" using assms by (intro word_of_bit) simp
  let ?n = "(e + 64 - 1) div 64"
  have n: "?n \<le> length W" "e \<le> 64 * ?n" "s div 64 + 1 \<le> ?n"
  proof -
    show "?n \<le> length W" using div_le_mono [of "e + 64 - 1" "64 * length W + 63" 64] assms by simp
    show "e \<le> 64 * ?n" by presburger
    have "s div 64 + 1 = (s + 64) div 64" by simp
    also have "\<dots> \<le> ?n" using assms(2) by (intro div_le_mono) simp
    finally show "s div 64 + 1 \<le> ?n" .
  qed
  note start = start_word [of s W "W ! (s div 64)" "bits_of W", OF k] in_bits_of [OF k]
  have "\<exists>r. find_word (\<lambda>w. w) W (s div 64 + 1) ?n e = Some r \<and> least_from (bits_of W) s e r"
    if "drop_bit (s mod 64) (W ! (s div 64)) = 0"
  proof (rule find_word_least [OF n(1) _ n(2,3)])
    show "s \<le> 64 * (s div 64 + 1)" by presburger
    show "bit (W ! i) j \<longleftrightarrow> 64 * i + j \<in> bits_of W" if "i < ?n" "j < 64" for i j
      using that n(1) in_bits_of [of i W j] by simp
  qed (use start(2) start(3) that assms(2) in auto)
  then show ?thesis using k start(1,3)
    by (simp add: FindFirstSet_def kWordBits_def Let_def first_bit_eq)
qed

section \<open>Counting\<close>

lemma PopCount64_card: "PopCount64 x = card {j. j < 64 \<and> bit x j}"
proof -
  have "distinct (filter (bit x) [0..<64])" by (intro distinct_filter distinct_upt)
  then have "PopCount64 x = card (set (filter (bit x) [0..<64]))" unfolding PopCount64_def by (rule distinct_card [symmetric])
  also have "set (filter (bit x) [0..<64]) = {j. j < 64 \<and> bit x j}" by (simp only: set_filter set_upt) auto
  finally show ?thesis .
qed

lemma PopCount64_window:
  assumes "a + n \<le> 64"
  shows "PopCount64 (push_bit (64 - n) (drop_bit a x)) = card {j. a \<le> j \<and> j < a + n \<and> bit x j}"
proof -
  have img: "{j. j < 64 \<and> bit (push_bit (64 - n) (drop_bit a x)) j} = (\<lambda>j. j - a + (64 - n)) ` {j. a \<le> j \<and> j < a + n \<and> bit x j}"
  proof (intro set_eqI iffI)
    fix j
    assume "j \<in> {j. j < 64 \<and> bit (push_bit (64 - n) (drop_bit a x)) j}"
    then have "j < 64" "64 - n \<le> j" "bit x (a + (j - (64 - n)))" by (auto simp: bit_push_bit_iff bit_drop_bit_eq)
    then show "j \<in> (\<lambda>j. j - a + (64 - n)) ` {j. a \<le> j \<and> j < a + n \<and> bit x j}"
      using assms by (intro image_eqI [of _ _ "a + (j - (64 - n))"]) auto
  qed (use assms in \<open>auto simp: bit_push_bit_iff bit_drop_bit_eq\<close>)
  show ?thesis unfolding PopCount64_card img by (intro card_image inj_onI) auto
qed

lemma PopCount64_parts:
  "a < 64 \<Longrightarrow> PopCount64 (drop_bit a x) = card {j. a \<le> j \<and> j < 64 \<and> bit x j}"
  "n \<le> 64 \<Longrightarrow> PopCount64 (push_bit (64 - n) x) = card {j. j < n \<and> bit x j}"
proof -
  show "PopCount64 (drop_bit a x) = card {j. a \<le> j \<and> j < 64 \<and> bit x j}" if "a < 64"
  proof -
    have "{j. j < 64 \<and> bit (drop_bit a x) j} = (\<lambda>j. j - a) ` {j. a \<le> j \<and> j < 64 \<and> bit x j}"
    proof (intro set_eqI iffI)
      fix j
      assume "j \<in> {j. j < 64 \<and> bit (drop_bit a x) j}"
      then show "j \<in> (\<lambda>j. j - a) ` {j. a \<le> j \<and> j < 64 \<and> bit x j}"
        using bit_imp_le_length [of x "a + j"] by (intro image_eqI [of _ _ "a + j"]) (auto simp: bit_drop_bit_eq)
    qed (auto simp: bit_drop_bit_eq)
    moreover have "inj_on (\<lambda>j. j - a) {j. a \<le> j \<and> j < 64 \<and> bit x j}" by (auto intro: inj_onI)
    ultimately show ?thesis by (simp add: PopCount64_card card_image)
  qed
  show "PopCount64 (push_bit (64 - n) x) = card {j. j < n \<and> bit x j}" if "n \<le> 64"
    using PopCount64_window [of 0 n x] that by simp
qed

lemma card_word_range:
  assumes "i < length W" and "b \<le> 64"
  shows "card {j. a \<le> j \<and> j < b \<and> bit (W ! i) j} = card (bits_of W \<inter> {64 * i + a..<64 * i + b})"
proof -
  have "bits_of W \<inter> {64 * i + a..<64 * i + b} = (\<lambda>j. 64 * i + j) ` {j. a \<le> j \<and> j < b \<and> bit (W ! i) j}"
  proof (intro set_eqI iffI)
    fix k
    assume k: "k \<in> bits_of W \<inter> {64 * i + a..<64 * i + b}"
    then have "k = 64 * i + (k - 64 * i)" "k - 64 * i < 64" using assms(2) by auto
    then show "k \<in> (\<lambda>j. 64 * i + j) ` {j. a \<le> j \<and> j < b \<and> bit (W ! i) j}"
      using k in_bits_of [OF assms(1), of "k - 64 * i"] by (intro image_eqI [of _ _ "k - 64 * i"]) auto
  qed (use assms in_bits_of [OF assms(1)] in auto)
  then show ?thesis by (simp add: card_image inj_on_def)
qed

lemma card_range_split:
  assumes "a \<le> b" and "b \<le> c" and "finite S"
  shows "card (S \<inter> {a..<c}) = card (S \<inter> {a..<b}) + card (S \<inter> {b..<c :: nat})"
proof -
  have "S \<inter> {a..<c} = (S \<inter> {a..<b}) \<union> (S \<inter> {b..<c})" using assms by auto
  then show ?thesis using assms by (simp add: card_Un_disjoint disjoint_iff)
qed


lemma RangePopcount_card:
  assumes "e \<le> 64 * length W"
  shows "RangePopcount s e W = Some (card (bits_of W \<inter> {s..<e}))"
proof (cases "s < e")
  case True
  note r = range_split [OF True assms]
  let ?k = "s div 64" and ?l = "e div 64"
  have s: "64 * ?k + s mod 64 = s" and e: "64 * ?l + e mod 64 = e" by simp_all
  show ?thesis
  proof (cases "?l = ?k")
    case same: True
    have n: "e - s = e mod 64 - s mod 64" "s mod 64 \<le> e mod 64" using s e same True by linarith+
    have "s mod 64 + (e - s) \<le> 64" using n mod_less_divisor [of 64 e] by linarith
    then have "PopCount64 (push_bit (64 - (e - s)) (drop_bit (s mod 64) (W ! ?k)))
        = card (bits_of W \<inter> {64 * ?k + s mod 64..<64 * ?k + (s mod 64 + (e - s))})"
      by (simp only: PopCount64_window card_word_range [OF r(1)])
    also have "64 * ?k + (s mod 64 + (e - s)) = e" using s True by linarith
    finally show ?thesis using True same r(1) by (simp add: RangePopcount_def kWordBits_def Let_def)
  next
    case False
    let ?S = "bits_of W"
    have first: "PopCount64 (drop_bit (s mod 64) (W ! ?k)) = card (?S \<inter> {s..<64 * (?k + 1)})"
      using card_word_range [OF r(1), of 64 "s mod 64"] by (simp add: PopCount64_parts(1) add.commute)
    let ?f = "\<lambda>i count. do { w \<leftarrow> tab_get W i; Some (count + PopCount64 w) }"
    have "\<exists>c. for_range (?k + 1) ?l ?f (card (?S \<inter> {s..<64 * (?k + 1)})) = Some c \<and> c = card (?S \<inter> {s..<64 * ?l})"
    proof (rule for_range_rule [where P = "\<lambda>i c. c = card (?S \<inter> {s..<64 * i})"])
      fix i c
      assume i: "?k + 1 \<le> i" "i < ?l" and c: "c = card (?S \<inter> {s..<64 * i})"
      have il: "i < length W" using i(2) r(2) by simp
      have "PopCount64 (W ! i) = card (?S \<inter> {64 * i..<64 * i + 64})"
        using card_word_range [OF il, of 64 0] by (simp add: PopCount64_card)
      moreover have "s \<le> 64 * i" using i(1) s mod_less_divisor [of 64 s] by linarith
      ultimately have "c + PopCount64 (W ! i) = card (?S \<inter> {s..<64 * Suc i})"
        using card_range_split [of s "64 * i" "64 * Suc i" ?S] bits_of_bound(2) [of W] by (simp add: c add.commute)
      then show "\<exists>c'. ?f i c = Some c' \<and> c' = card (?S \<inter> {s..<64 * Suc i})" using il by simp
    qed (use r(5) False in simp_all)
    then have loop: "for_range (?k + 1) ?l ?f (card (?S \<inter> {s..<64 * (?k + 1)})) = Some (card (?S \<inter> {s..<64 * ?l}))" by blast
    have "s \<le> 64 * ?l" using r(5) False s mod_less_divisor [of 64 s] by linarith
    then have split: "card (?S \<inter> {s..<e}) = card (?S \<inter> {s..<64 * ?l}) + card (?S \<inter> {64 * ?l..<e})"
      using card_range_split [of s "64 * ?l" e ?S] bits_of_bound(2) [of W] by simp
    have last: "PopCount64 (push_bit (64 - e mod 64) (W ! ?l)) = card (?S \<inter> {64 * ?l..<e})" if "?l < length W"
      using card_word_range [OF that, of "e mod 64" 0] e by (simp add: PopCount64_parts(2))
    have none: "card (?S \<inter> {64 * ?l..<e}) = 0" if "e mod 64 = 0" using that e by simp
    show ?thesis
      unfolding RangePopcount_def kWordBits_def Let_def
      using True False r loop split last none by (auto simp: first)
  qed
qed (auto simp: RangePopcount_def)


section \<open>The bit set is a set\<close>



end
