(* ===== verification/Light_Vector.thy ===== *)
theory Light_Vector
  imports Tonk_Prelude
begin

text \<open>
  The growable array of \<open>PacketAllocator.h\<close> (\<open>LightVector\<close>).  An element that was never stored is \<open>None\<close>, and
  reading it or leaving the allocated elements is an error.  Whether \<open>new\<close> succeeds is an
  argument of the operations that allocate.
\<close>

record 'a LightVector =
  vec_Data :: "'a option list"
  vec_Size :: nat

definition vec_Allocated :: "'a LightVector \<Rightarrow> nat" where
  "vec_Allocated v = length (vec_Data v)"

definition LightVector_init :: "nat \<Rightarrow> 'a LightVector" where
  "LightVector_init kPreallocated = \<lparr> vec_Data = replicate kPreallocated None, vec_Size = 0 \<rparr>"

text \<open>The product \<open>elements * 3\<close> is computed in 32 bits.\<close>

definition vec_newAllocated :: "nat \<Rightarrow> nat" where
  "vec_newAllocated elements = (elements * 3) mod 2 ^ 32 div 2"

definition SetSize_NoCopy :: "bool \<Rightarrow> nat \<Rightarrow> 'a LightVector \<Rightarrow> bool \<times> 'a LightVector" where
  "SetSize_NoCopy new_ok elements v =
     (if elements > vec_Allocated v then
        (if new_ok then (True, \<lparr> vec_Data = replicate (vec_newAllocated elements) None, vec_Size = elements \<rparr>)
         else (False, v))
      else (True, v\<lparr>vec_Size := elements\<rparr>))"

definition SetSize_Copy :: "bool \<Rightarrow> nat \<Rightarrow> 'a LightVector \<Rightarrow> bool \<times> 'a LightVector" where
  "SetSize_Copy new_ok elements v =
     (if elements > vec_Allocated v then
        (if new_ok then
           (let newAllocated = vec_newAllocated elements
            in (True, \<lparr> vec_Data = take (vec_Size v) (vec_Data v) @ replicate (newAllocated - vec_Size v) None,
                        vec_Size = elements \<rparr>))
         else (False, v))
      else (True, v\<lparr>vec_Size := elements\<rparr>))"

definition vec_Get :: "nat \<Rightarrow> 'a LightVector \<Rightarrow> 'a option" where
  "vec_Get index v = do { e \<leftarrow> tab_get (vec_Data v) index; e }"

definition vec_Put :: "nat \<Rightarrow> 'a \<Rightarrow> 'a LightVector \<Rightarrow> 'a LightVector option" where
  "vec_Put index x v = do { d \<leftarrow> tab_set (vec_Data v) index (Some x); Some (v\<lparr>vec_Data := d\<rparr>) }"

definition vec_Append :: "bool \<Rightarrow> 'a \<Rightarrow> 'a LightVector \<Rightarrow> (bool \<times> 'a LightVector) option" where
  "vec_Append new_ok rhs v =
     (let newSize = vec_Size v + 1; (ok, v) = SetSize_Copy new_ok newSize v
      in if \<not> ok then Some (False, v)
         else do { v \<leftarrow> vec_Put (newSize - 1) rhs v; Some (True, v) })"

definition vec_Clear :: "'a LightVector \<Rightarrow> 'a LightVector" where
  "vec_Clear v = v\<lparr>vec_Size := 0\<rparr>"

section \<open>The list that a vector stands for\<close>

text \<open>Every element up to the size was stored.\<close>

definition vec_list :: "'a LightVector \<Rightarrow> 'a list \<Rightarrow> bool" where
  "vec_list v xs \<longleftrightarrow> vec_Size v = length xs \<and> length xs \<le> vec_Allocated v
     \<and> (\<forall>i<length xs. vec_Data v ! i = Some (xs ! i))"

lemma vec_Get_list: "vec_list v xs \<Longrightarrow> i < length xs \<Longrightarrow> vec_Get i v = Some (xs ! i)"
  by (simp add: vec_Get_def vec_list_def vec_Allocated_def)

lemma vec_Put_list: "vec_list v xs \<Longrightarrow> i < length xs \<Longrightarrow> \<exists>v'. vec_Put i x v = Some v' \<and> vec_list v' (xs[i := x])"
  by (auto simp: vec_Put_def vec_list_def vec_Allocated_def nth_list_update)

lemma vec_shrink_list: "vec_list v xs \<Longrightarrow> n \<le> length xs \<Longrightarrow> \<exists>v'. SetSize_Copy ok n v = (True, v') \<and> vec_list v' (take n xs)"
  by (auto simp: SetSize_Copy_def vec_list_def vec_Allocated_def)

lemma vec_Clear_list: "vec_list v xs \<Longrightarrow> vec_list (vec_Clear v) []"
  by (simp add: vec_Clear_def vec_list_def)

lemma vec_newAllocated: "0 < n \<Longrightarrow> n < 2 ^ 30 \<Longrightarrow> n \<le> vec_newAllocated n"
  by (simp add: vec_newAllocated_def)

text \<open>A vector with room for \<open>n\<close> elements of which the first are stored.\<close>

definition vec_partial :: "'a LightVector \<Rightarrow> 'a list \<Rightarrow> nat \<Rightarrow> bool" where
  "vec_partial v xs n \<longleftrightarrow> vec_Size v = n \<and> length xs \<le> n \<and> n \<le> vec_Allocated v \<and> (\<forall>i<length xs. vec_Data v ! i = Some (xs ! i))"

lemma vec_grow:
  assumes "vec_list v xs" and "length xs \<le> n" and "n < 2 ^ 30"
  shows "\<exists>v'. SetSize_Copy True n v = (True, v') \<and> vec_partial v' xs n"
  using assms vec_newAllocated [of n]
  by (auto simp: SetSize_Copy_def vec_list_def vec_partial_def vec_Allocated_def Let_def nth_append)

lemma vec_partial_Put:
  assumes "vec_partial v xs n" and "length xs < n"
  shows "\<exists>v'. vec_Put (length xs) x v = Some v' \<and> vec_partial v' (xs @ [x]) n"
  using assms by (auto simp: vec_Put_def vec_partial_def vec_Allocated_def nth_list_update nth_append)

lemma vec_partial_full: "vec_partial v xs (length xs) \<longleftrightarrow> vec_list v xs"
  by (auto simp: vec_partial_def vec_list_def)

lemma vec_Append_list:
  assumes "vec_list v xs" and "length xs + 1 < 2 ^ 30"
  shows "\<exists>v'. vec_Append True x v = Some (True, v') \<and> vec_list v' (xs @ [x])"
proof -
  obtain v' where v': "SetSize_Copy True (length xs + 1) v = (True, v')" "vec_partial v' xs (length xs + 1)"
    using vec_grow [OF assms(1), of "length xs + 1"] assms(2) by auto
  obtain v'' where "vec_Put (length xs) x v' = Some v''" "vec_partial v'' (xs @ [x]) (length xs + 1)"
    using vec_partial_Put [OF v'(2)] by auto
  then show ?thesis using v'(1) assms(1) vec_partial_full [of v'' "xs @ [x]"]
    by (simp add: vec_Append_def vec_list_def)
qed

lemma vec_Append_no_new:
  assumes "vec_list v xs" and "length xs < vec_Allocated v"
  shows "\<exists>v'. vec_Append ok x v = Some (True, v') \<and> vec_list v' (xs @ [x])"
  using assms by (auto simp: vec_Append_def SetSize_Copy_def vec_list_def vec_Put_def vec_Allocated_def nth_list_update nth_append)

end
