(* ===== verification/Packet_Allocator.thy ===== *)
theory Packet_Allocator
  imports Custom_Bit_Set Light_Vector
begin

text \<open>
  The packet allocator of \<open>PacketAllocator.cpp\<close>, in the configuration of the repository (no shrinking, no
  scrubbing, no debug checks, 32-byte units).  Memory is a store: windows are found by the number of their block, the
  header of an allocation by its block and unit, and the contents of a unit by the same.  A
  pointer to data is the block and the first unit after the header.

  The result of \<open>calloc\<close> (the number of a new block, or nothing) and of \<open>new\<close> are arguments of the operations.
\<close>

section \<open>Units\<close>

definition kAlignmentBytes :: nat where "kAlignmentBytes = 32"
definition kUnitSize :: nat where "kUnitSize = kAlignmentBytes"
definition kWindowMaxUnits :: nat where "kWindowMaxUnits = 2048"
definition kPreallocatedWindows :: nat where "kPreallocatedWindows = 2"
definition kFallbackThresholdUnits :: nat where "kFallbackThresholdUnits = kWindowMaxUnits div 4"
definition kNotInFullList :: int where "kNotInFullList = -1"
definition kPreferredThresholdUnits :: nat where "kPreferredThresholdUnits = 3 * kWindowMaxUnits div 4"

definition NextAlignedOffset :: "nat \<Rightarrow> nat" where
  "NextAlignedOffset offset = unat ((of_nat (offset + kAlignmentBytes - 1) :: u32) AND NOT (of_nat (kAlignmentBytes - 1)))"

text \<open>The number of units of an allocation, with one for its header; the sum wraps at 32 bits.\<close>

definition units_for :: "nat \<Rightarrow> nat" where
  "units_for bytes = (bytes + kUnitSize - 1) mod 2 ^ 32 div kUnitSize + 1"

section \<open>Memory\<close>

record WindowHeader =
  Used :: CustomBitSet
  FreeUnitCount :: nat
  ResumeScanOffset :: nat
  FullListIndex :: int
  Preallocated :: bool

record AllocationHeader =
  Header :: "nat option"
  UsedUnits :: nat

definition IsFreed :: "AllocationHeader \<Rightarrow> bool" where
  "IsFreed h \<longleftrightarrow> UsedUnits h = 0"

type_synonym address = "nat \<times> nat"

record Allocator =
  windows :: "nat \<Rightarrow> WindowHeader option"
  headers :: "address \<Rightarrow> AllocationHeader option"
  contents :: "address \<Rightarrow> bytes"
  HugeChunkStart :: bool
  PreferredWindows :: "nat LightVector"
  FullWindows :: "nat LightVector"

datatype Realloc = Uninitialized | CopyExisting

section \<open>Aligned blocks\<close>

text \<open>\<open>SIMDSafeAllocate\<close> moves the start of a block to the next multiple of the alignment and keeps the
  remainder in the byte before it; \<open>SIMDSafeFree\<close> goes back by it.\<close>

definition SIMDSafeAllocate :: "nat \<Rightarrow> nat \<times> u8" where
  "SIMDSafeAllocate addr = (let offset = addr mod kAlignmentBytes in (addr + (kAlignmentBytes - offset), of_nat offset))"

definition SIMDSafeFree :: "nat \<Rightarrow> u8 \<Rightarrow> nat option" where
  "SIMDSafeFree ptr stored = (let offset = unat stored in
     if offset \<ge> kAlignmentBytes then None else Some (ptr - (kAlignmentBytes - offset)))"

section \<open>Construction and statistics\<close>

definition empty_window :: WindowHeader where
  "empty_window = \<lparr> Used = replicate (bitset_words kWindowMaxUnits) 0, FreeUnitCount = kWindowMaxUnits,
     ResumeScanOffset = 0, FullListIndex = kNotInFullList, Preallocated = True \<rparr>"

text \<open>The windows of the preallocated chunk are the blocks \<open>0\<close> and \<open>1\<close>.\<close>

definition Allocator_init :: "bool \<Rightarrow> Allocator option" where
  "Allocator_init calloc_ok = do {
     let (_, pref) = SetSize_NoCopy True kPreallocatedWindows (LightVector_init 25);
     let a = \<lparr> windows = (\<lambda>_. None), headers = (\<lambda>_. None), contents = (\<lambda>_. []), HugeChunkStart = calloc_ok,
               PreferredWindows = pref, FullWindows = LightVector_init 25 \<rparr>;
     (if calloc_ok then
        for_range 0 kPreallocatedWindows (\<lambda>i a. do {
          used \<leftarrow> bitset_ClearAll (Used empty_window);
          pref \<leftarrow> vec_Put i i (PreferredWindows a);
          Some (a\<lparr>windows := (windows a)(i \<mapsto> empty_window\<lparr>Used := used\<rparr>), PreferredWindows := pref\<rparr>) }) a
      else Some a) }"

definition sum_used :: "Allocator \<Rightarrow> nat LightVector \<Rightarrow> nat \<Rightarrow> nat option" where
  "sum_used a v acc = for_range 0 (vec_Size v) (\<lambda>i acc. do {
     w \<leftarrow> vec_Get i v;
     h \<leftarrow> windows a w;
     Some ((acc + (kWindowMaxUnits - FreeUnitCount h)) mod 2 ^ 32) }) acc"

definition GetMemoryUsedBytes :: "Allocator \<Rightarrow> nat option" where
  "GetMemoryUsedBytes a = do {
     acc \<leftarrow> sum_used a (PreferredWindows a) 0;
     acc \<leftarrow> sum_used a (FullWindows a) acc;
     Some (acc * kUnitSize mod 2 ^ 32) }"

definition GetMemoryAllocatedBytes :: "Allocator \<Rightarrow> nat" where
  "GetMemoryAllocatedBytes a = (vec_Size (PreferredWindows a) + vec_Size (FullWindows a)) * kWindowMaxUnits * kUnitSize mod 2 ^ 32"

text \<open>The blocks that the destructor gives back, beside the preallocated chunk.\<close>

definition free_windows :: "Allocator \<Rightarrow> nat LightVector \<Rightarrow> nat list \<Rightarrow> nat list option" where
  "free_windows a v acc = for_range 0 (vec_Size v) (\<lambda>i acc. do {
     w \<leftarrow> vec_Get i v;
     h \<leftarrow> windows a w;
     Some (if Preallocated h then acc else acc @ [w]) }) acc"

definition Allocator_destroy :: "Allocator \<Rightarrow> nat list option" where
  "Allocator_destroy a = do {
     acc \<leftarrow> free_windows a (PreferredWindows a) [];
     free_windows a (FullWindows a) acc }"

section \<open>The integrity check\<close>

definition no_other :: "nat \<Rightarrow> nat option \<Rightarrow> nat LightVector \<Rightarrow> bool option" where
  "no_other window i v = check_all (\<lambda>j. do { other \<leftarrow> vec_Get j v; Some (\<not> (window = other \<and> i \<noteq> Some j)) }) [0..<vec_Size v]"

definition check_counts :: "WindowHeader \<Rightarrow> bool option" where
  "check_counts h =
     (if ResumeScanOffset h > kWindowMaxUnits then Some False
      else do {
        setCount \<leftarrow> RangePopcount 0 kWindowMaxUnits (Used h);
        Some (int setCount = (int kWindowMaxUnits - int (FreeUnitCount h)) mod 2 ^ 32) })"

definition check_preferred :: "Allocator \<Rightarrow> nat \<Rightarrow> bool option" where
  "check_preferred a i = do {
     window \<leftarrow> vec_Get i (PreferredWindows a);
     h \<leftarrow> windows a window;
     (if FullListIndex h \<noteq> kNotInFullList then Some False
      else do {
        ok \<leftarrow> no_other window (Some i) (PreferredWindows a);
        (if \<not> ok then Some False
         else if FreeUnitCount h \<le> 0 \<or> FreeUnitCount h > kWindowMaxUnits then Some False
         else check_counts h) }) }"

definition check_full :: "Allocator \<Rightarrow> nat \<Rightarrow> bool option" where
  "check_full a i = do {
     window \<leftarrow> vec_Get i (FullWindows a);
     h \<leftarrow> windows a window;
     (if FullListIndex h \<noteq> int i then Some False
      else do {
        ok \<leftarrow> no_other window None (PreferredWindows a);
        (if \<not> ok then Some False
         else do {
           ok \<leftarrow> no_other window (Some i) (FullWindows a);
           (if \<not> ok then Some False else check_counts h) }) }) }"

definition count_preallocated :: "Allocator \<Rightarrow> nat LightVector \<Rightarrow> nat \<Rightarrow> nat option" where
  "count_preallocated a v acc = for_range 0 (vec_Size v) (\<lambda>i acc. do {
     w \<leftarrow> vec_Get i v;
     h \<leftarrow> windows a w;
     Some (if Preallocated h then acc + 1 else acc) }) acc"

definition IntegrityCheck :: "Allocator \<Rightarrow> bool option" where
  "IntegrityCheck a = do {
     ok \<leftarrow> check_all (check_preferred a) [0..<vec_Size (PreferredWindows a)];
     (if \<not> ok then Some False
      else do {
        ok \<leftarrow> check_all (check_full a) [0..<vec_Size (FullWindows a)];
        (if \<not> ok then Some False
         else do {
           n \<leftarrow> count_preallocated a (PreferredWindows a) 0;
           n \<leftarrow> count_preallocated a (FullWindows a) n;
           Some (n = kPreallocatedWindows) }) }) }"

section \<open>Allocation\<close>

text \<open>The walk over the holes of a window: the first unit of a hole that is large enough.\<close>

partial_function (option) find_region :: "nat \<Rightarrow> CustomBitSet \<Rightarrow> nat \<Rightarrow> nat option option" where
  "find_region units used regionStart =
     (if regionStart < kWindowMaxUnits then do {
        regionStart \<leftarrow> FindFirstClear kWindowMaxUnits regionStart used;
        let regionEnd = regionStart + units;
        if regionEnd > kWindowMaxUnits then Some None
        else do {
          regionEnd \<leftarrow> FindFirstSet (regionStart + 1) regionEnd used;
          if regionEnd - regionStart < units then find_region units used (regionEnd + 1)
          else Some (Some regionStart) } }
      else Some None)"

text \<open>\<open>moveLastFewWindowsToFull\<close> ignores whether the growing of the list succeeded.\<close>

definition move_window :: "nat \<Rightarrow> nat \<Rightarrow> nat \<Rightarrow> Allocator \<Rightarrow> Allocator option" where
  "move_window existingFullCount existingPreferredCount i a = do {
     let windowIndex = existingPreferredCount - 1 - i;
     window \<leftarrow> vec_Get windowIndex (PreferredWindows a);
     full \<leftarrow> vec_Put (existingFullCount + i) window (FullWindows a);
     h \<leftarrow> windows a window;
     Some (a\<lparr>FullWindows := full, windows := (windows a)(window \<mapsto> h\<lparr>FullListIndex := int (existingFullCount + i)\<rparr>)\<rparr>) }"

definition moveLastFewWindowsToFull :: "bool \<Rightarrow> nat \<Rightarrow> Allocator \<Rightarrow> Allocator option" where
  "moveLastFewWindowsToFull new_ok count a = do {
     let existingFullCount = vec_Size (FullWindows a);
     let (_, full) = SetSize_Copy new_ok (existingFullCount + count) (FullWindows a);
     let a = a\<lparr>FullWindows := full\<rparr>;
     let existingPreferredCount = vec_Size (PreferredWindows a);
     a \<leftarrow> for_range 0 count (move_window existingFullCount existingPreferredCount) a;
     let (_, pref) = SetSize_Copy new_ok (existingPreferredCount - count) (PreferredWindows a);
     Some (a\<lparr>PreferredWindows := pref\<rparr>) }"

text \<open>Carving a region out of the window at position \<open>i\<close> of the preferred list.\<close>

definition carve :: "bool \<Rightarrow> nat \<Rightarrow> nat \<Rightarrow> nat \<Rightarrow> nat \<Rightarrow> nat \<Rightarrow> Allocator \<Rightarrow> (address \<times> Allocator) option" where
  "carve new_ok units preferredCount i window regionStart a = do {
     h \<leftarrow> windows a window;
     used \<leftarrow> SetRange regionStart (regionStart + units) (Used h);
     let h = h\<lparr>FreeUnitCount := FreeUnitCount h - units, Used := used, ResumeScanOffset := regionStart + units\<rparr>;
     let a = a\<lparr>headers := (headers a)((window, regionStart) \<mapsto> \<lparr> Header = Some window, UsedUnits = units \<rparr>),
               windows := (windows a)(window \<mapsto> h)\<rparr>;
     let fullCount = preferredCount - 1 - i;
     let fullCount = (if regionStart + units * 2 > kWindowMaxUnits then fullCount + 1 else fullCount);
     a \<leftarrow> moveLastFewWindowsToFull new_ok fullCount a;
     Some ((window, regionStart + 1), a) }"

definition allocateFromNewWindow :: "nat option \<Rightarrow> bool \<Rightarrow> nat \<Rightarrow> Allocator \<Rightarrow> (address option \<times> Allocator) option" where
  "allocateFromNewWindow calloc new_ok units a =
     (case calloc of None \<Rightarrow> Some (None, a)
      | Some window \<Rightarrow> do {
          used \<leftarrow> bitset_ClearAll (replicate (bitset_words kWindowMaxUnits) 0);
          used \<leftarrow> SetRange 0 units used;
          let h = \<lparr> Used = used, FreeUnitCount = kWindowMaxUnits - units, ResumeScanOffset = units,
                    FullListIndex = kNotInFullList, Preallocated = False \<rparr>;
          (_, pref) \<leftarrow> vec_Append new_ok window (PreferredWindows a);
          Some (Some (window, 1),
            a\<lparr>windows := (windows a)(window \<mapsto> h), PreferredWindows := pref,
              headers := (headers a)((window, 0) \<mapsto> \<lparr> Header = Some window, UsedUnits = units \<rparr>)\<rparr>) })"

definition fallbackAllocate :: "nat option \<Rightarrow> nat \<Rightarrow> Allocator \<Rightarrow> address option \<times> Allocator" where
  "fallbackAllocate calloc bytes a =
     (case calloc of None \<Rightarrow> (None, a)
      | Some b \<Rightarrow> (Some (b, 1), a\<lparr>headers := (headers a)((b, 0) \<mapsto> \<lparr> Header = None, UsedUnits = units_for bytes \<rparr>)\<rparr>))"

text \<open>The loop over the preferred windows, from the last one to the first.\<close>

primrec try_windows :: "nat option \<Rightarrow> bool \<Rightarrow> nat \<Rightarrow> nat \<Rightarrow> nat \<Rightarrow> Allocator \<Rightarrow> (address option \<times> Allocator) option" where
  "try_windows calloc new_ok units preferredCount 0 a = do {
     a \<leftarrow> moveLastFewWindowsToFull new_ok preferredCount a;
     allocateFromNewWindow calloc new_ok units a }"
| "try_windows calloc new_ok units preferredCount (Suc i) a = do {
     window \<leftarrow> vec_Get i (PreferredWindows a);
     h \<leftarrow> windows a window;
     (if FreeUnitCount h < units then try_windows calloc new_ok units preferredCount i a
      else do {
        r \<leftarrow> find_region units (Used h) (ResumeScanOffset h);
        (case r of None \<Rightarrow> try_windows calloc new_ok units preferredCount i a
         | Some regionStart \<Rightarrow> do {
             (p, a) \<leftarrow> carve new_ok units preferredCount i window regionStart a;
             Some (Some p, a) }) }) }"

definition Allocate :: "nat option \<Rightarrow> bool \<Rightarrow> nat \<Rightarrow> Allocator \<Rightarrow> (address option \<times> Allocator) option" where
  "Allocate calloc new_ok bytes a =
     (if bytes \<le> 0 then Some (None, a)
      else let units = units_for bytes
           in if units > kFallbackThresholdUnits then Some (fallbackAllocate calloc bytes a)
              else let preferredCount = vec_Size (PreferredWindows a)
                   in try_windows calloc new_ok units preferredCount preferredCount a)"

section \<open>Release\<close>

definition header_of :: "address \<Rightarrow> address" where
  "header_of p = (fst p, snd p - 1)"

definition Shrink :: "address option \<Rightarrow> nat \<Rightarrow> Allocator \<Rightarrow> Allocator option" where
  "Shrink ptr bytes a =
     (case ptr of None \<Rightarrow> Some a
      | Some p \<Rightarrow> do {
          r \<leftarrow> headers a (header_of p);
          (if IsFreed r then Some a
           else let unitsNeeded = units_for bytes; unitsCurrent = UsedUnits r
                in if unitsNeeded < unitsCurrent then
                     (case Header r of None \<Rightarrow> Some a
                      | Some window \<Rightarrow> do {
                          h \<leftarrow> windows a window;
                          let regionStart = snd (header_of p);
                          let regionEndNew = regionStart + unitsNeeded;
                          let h = (if ResumeScanOffset h > regionEndNew then h\<lparr>ResumeScanOffset := regionEndNew\<rparr> else h);
                          used \<leftarrow> ClearRange regionEndNew (regionStart + unitsCurrent) (Used h);
                          let h = h\<lparr>Used := used, FreeUnitCount := FreeUnitCount h + (unitsCurrent - unitsNeeded)\<rparr>;
                          Some (a\<lparr>windows := (windows a)(window \<mapsto> h),
                                 headers := (headers a)(header_of p \<mapsto> r\<lparr>UsedUnits := unitsNeeded\<rparr>)\<rparr>) })
                   else Some a) })"

text \<open>A window with enough free units goes back to the preferred list; the last full window takes its place.\<close>

definition promote :: "bool \<Rightarrow> nat \<Rightarrow> Allocator \<Rightarrow> Allocator option" where
  "promote new_ok window a = do {
     h \<leftarrow> windows a window;
     let a = a\<lparr>windows := (windows a)(window \<mapsto> h\<lparr>ResumeScanOffset := 0\<rparr>)\<rparr>;
     let fullCount = vec_Size (FullWindows a);
     let fullIndex = nat (FullListIndex h);
     a \<leftarrow> (if fullIndex < fullCount - 1 then do {
         replacement \<leftarrow> vec_Get (fullCount - 1) (FullWindows a);
         full \<leftarrow> vec_Put fullIndex replacement (FullWindows a);
         rh \<leftarrow> windows a replacement;
         Some (a\<lparr>FullWindows := full, windows := (windows a)(replacement \<mapsto> rh\<lparr>FullListIndex := int fullIndex\<rparr>)\<rparr>) }
       else Some a);
     let (_, full) = SetSize_Copy new_ok (fullCount - 1) (FullWindows a);
     h \<leftarrow> windows a window;
     let a = a\<lparr>FullWindows := full, windows := (windows a)(window \<mapsto> h\<lparr>FullListIndex := kNotInFullList\<rparr>)\<rparr>;
     (_, pref) \<leftarrow> vec_Append new_ok window (PreferredWindows a);
     Some (a\<lparr>PreferredWindows := pref\<rparr>) }"

text \<open>\<open>fallbackFree\<close> gives the block back to the system.\<close>

definition Free :: "bool \<Rightarrow> address option \<Rightarrow> Allocator \<Rightarrow> Allocator option" where
  "Free new_ok ptr a =
     (case ptr of None \<Rightarrow> Some a
      | Some p \<Rightarrow> do {
          r \<leftarrow> headers a (header_of p);
          (if IsFreed r then Some a
           else case Header r of
             None \<Rightarrow> Some (a\<lparr>headers := (headers a)(header_of p := None)\<rparr>)
           | Some window \<Rightarrow> do {
               let units = UsedUnits r;
               let a = a\<lparr>headers := (headers a)(header_of p \<mapsto> r\<lparr>UsedUnits := 0\<rparr>)\<rparr>;
               let regionStart = snd (header_of p);
               let regionEnd = regionStart + units;
               h \<leftarrow> windows a window;
               let h = (if ResumeScanOffset h > regionStart then h\<lparr>ResumeScanOffset := regionStart\<rparr> else h);
               used \<leftarrow> ClearRange regionStart regionEnd (Used h);
               let h = h\<lparr>Used := used, FreeUnitCount := FreeUnitCount h + units\<rparr>;
               let a = a\<lparr>windows := (windows a)(window \<mapsto> h)\<rparr>;
               (if FreeUnitCount h \<ge> kPreferredThresholdUnits \<and> FullListIndex h \<noteq> kNotInFullList then promote new_ok window a
                else Some a) }) })"

definition copy_units :: "address \<Rightarrow> address \<Rightarrow> nat \<Rightarrow> Allocator \<Rightarrow> Allocator" where
  "copy_units dst src n a = a\<lparr>contents := (\<lambda>(b, u).
     if b = fst dst \<and> snd dst \<le> u \<and> u < snd dst + n then contents a (fst src, snd src + (u - snd dst)) else contents a (b, u))\<rparr>"

definition Reallocate :: "nat option \<Rightarrow> bool \<Rightarrow> bool \<Rightarrow> address option \<Rightarrow> nat \<Rightarrow> Realloc \<Rightarrow> Allocator \<Rightarrow> (address option \<times> Allocator) option" where
  "Reallocate calloc new_ok new_ok' ptr bytes behavior a =
     (case ptr of None \<Rightarrow> Allocate calloc new_ok bytes a
      | Some p \<Rightarrow>
          if bytes \<le> 0 then do { a \<leftarrow> Free new_ok ptr a; Some (None, a) }
          else do {
            r \<leftarrow> headers a (header_of p);
            let existingUnits = UsedUnits r;
            let requestedUnits = units_for bytes;
            (if requestedUnits \<le> existingUnits then Some (ptr, a)
             else do {
               (newPtr, a) \<leftarrow> Allocate calloc new_ok bytes a;
               (case newPtr of None \<Rightarrow> Some (None, a)
                | Some q \<Rightarrow> do {
                    let a = (if behavior = CopyExisting then copy_units q p (existingUnits - 1) a else a);
                    a \<leftarrow> Free new_ok' ptr a;
                    Some (newPtr, a) }) }) })"

section \<open>Regions of the windows\<close>

text \<open>What the regions depend on: the used units, the free count and the scan offset of each window, and
  the headers.\<close>

type_synonym core = "CustomBitSet \<times> nat \<times> nat"

definition core :: "WindowHeader \<Rightarrow> core" where
  "core h = (Used h, FreeUnitCount h, ResumeScanOffset h)"

definition cores :: "Allocator \<Rightarrow> nat \<Rightarrow> core option" where
  "cores a w = map_option core (windows a w)"

text \<open>A live region of a window: its first unit (the header) and its number of units.\<close>

definition region :: "(address \<Rightarrow> AllocationHeader option) \<Rightarrow> nat \<Rightarrow> nat \<Rightarrow> nat \<Rightarrow> bool" where
  "region hs w u n \<longleftrightarrow> hs (w, u) = Some \<lparr> Header = Some w, UsedUnits = n \<rparr> \<and> 0 < n"

definition region_units :: "(address \<Rightarrow> AllocationHeader option) \<Rightarrow> nat \<Rightarrow> nat set" where
  "region_units hs w = {k. \<exists>u n. region hs w u n \<and> u \<le> k \<and> k < u + n}"

definition window_ok :: "(address \<Rightarrow> AllocationHeader option) \<Rightarrow> nat \<Rightarrow> core \<Rightarrow> bool" where
  "window_ok hs w = (\<lambda>(used, free, resume). length used = 32 \<and> resume \<le> 2048
     \<and> free + card (region_units hs w) = 2048 \<and> bits_of used = region_units hs w)"

definition headers_ok :: "(nat \<Rightarrow> bool) \<Rightarrow> (address \<Rightarrow> AllocationHeader option) \<Rightarrow> bool" where
  "headers_ok isw hs \<longleftrightarrow> (\<forall>b u r. hs (b, u) = Some r \<longrightarrow>
     (case Header r of None \<Rightarrow> u = 0 \<and> 0 < UsedUnits r \<and> \<not> isw b | Some w \<Rightarrow> w = b \<and> isw b))"

definition regions_ok :: "(nat \<Rightarrow> core option) \<Rightarrow> (address \<Rightarrow> AllocationHeader option) \<Rightarrow> bool" where
  "regions_ok c hs \<longleftrightarrow> headers_ok (\<lambda>w. c w \<noteq> None) hs \<and> (\<forall>w k. c w = Some k \<longrightarrow> window_ok hs w k)
     \<and> (\<forall>w u n. region hs w u n \<longrightarrow> u + n \<le> 2048)
     \<and> (\<forall>w u n u' n'. region hs w u n \<and> region hs w u' n' \<and> u < u' \<longrightarrow> u + n \<le> u')"

lemma region_upd:
  "region (hs((w, u) \<mapsto> r)) w' u' n \<longleftrightarrow> (if w' = w \<and> u' = u then r = \<lparr> Header = Some w, UsedUnits = n \<rparr> \<and> 0 < n else region hs w' u' n)"
  by (auto simp: region_def)

lemma region_units_other: "w' \<noteq> w \<Longrightarrow> region_units (hs((w, u) \<mapsto> r)) w' = region_units hs w'"
  by (simp add: region_units_def region_upd)

lemma headers_ok_window:
  assumes "headers_ok isw hs" and "isw w"
  shows "headers_ok isw (hs((w, u) \<mapsto> \<lparr> Header = Some w, UsedUnits = m \<rparr>))"
  using assms by (simp add: headers_ok_def)

lemma upd_dom: "c w \<noteq> None \<Longrightarrow> (\<lambda>w'. (c(w \<mapsto> k)) w' \<noteq> None) = (\<lambda>w'. c w' \<noteq> None)"
  by auto

lemma region_units_upd:
  "k \<in> region_units (hs((w, u) \<mapsto> \<lparr> Header = Some w, UsedUnits = m \<rparr>)) w
    \<longleftrightarrow> (u \<le> k \<and> k < u + m) \<or> (\<exists>u' n'. u' \<noteq> u \<and> region hs w u' n' \<and> u' \<le> k \<and> k < u' + n')" (is "?l \<longleftrightarrow> ?r")
proof
  assume ?r
  then show ?l
  proof
    assume "u \<le> k \<and> k < u + m"
    then show ?l unfolding region_units_def region_upd by (intro CollectI exI [of _ u] exI [of _ m]) auto
  next
    assume "\<exists>u' n'. u' \<noteq> u \<and> region hs w u' n' \<and> u' \<le> k \<and> k < u' + n'"
    then obtain u' n' where "u' \<noteq> u" "region hs w u' n'" "u' \<le> k" "k < u' + n'" by blast
    then show ?l unfolding region_units_def region_upd by (intro CollectI exI [of _ u'] exI [of _ n']) auto
  qed
qed (auto simp: region_units_def region_upd split: if_splits)

lemma regions_ok_used:
  assumes "regions_ok c hs" and "region hs w u n"
  shows "\<exists>used free resume. c w = Some (used, free, resume) \<and> {u..<u + n} \<subseteq> bits_of used \<and> u + n \<le> 2048
    \<and> window_ok hs w (used, free, resume)"
proof -
  have "c w \<noteq> None" using assms by (fastforce simp: regions_ok_def headers_ok_def region_def)
  then obtain used free resume where k: "c w = Some (used, free, resume)" by (metis not_None_eq prod_cases3)
  then have ok: "window_ok hs w (used, free, resume)" using assms(1) by (simp add: regions_ok_def)
  then have "bits_of used = region_units hs w" by (simp add: window_ok_def)
  moreover have "{u..<u + n} \<subseteq> region_units hs w" using assms(2) by (fastforce simp: region_units_def)
  ultimately have "{u..<u + n} \<subseteq> bits_of used" by simp
  then show ?thesis using k ok assms by (auto simp: regions_ok_def)
qed

text \<open>Carving a region out of unused units.\<close>

lemma regions_ok_carve:
  assumes "regions_ok c hs" and "c w = Some (used, free, resume)" and "{u..<u + n} \<inter> bits_of used = {}" and "u + n \<le> 2048" and "0 < n"
    and "length used' = 32" and "bits_of used' = bits_of used \<union> {u..<u + n}"
  shows "n \<le> free" "regions_ok (c(w \<mapsto> (used', free - n, u + n))) (hs((w, u) \<mapsto> \<lparr> Header = Some w, UsedUnits = n \<rparr>))"
proof -
  let ?hs = "hs((w, u) \<mapsto> \<lparr> Header = Some w, UsedUnits = n \<rparr>)" and ?c = "c(w \<mapsto> (used', free - n, u + n))"
  note ok = assms(1) [unfolded regions_ok_def]
  have w: "length used = 32" "free + card (bits_of used) = 2048" "bits_of used = region_units hs w"
    using ok [THEN conjunct2, THEN conjunct1, rule_format, OF assms(2)] by (simp_all add: window_ok_def)
  have old: "\<not> region hs w u n'" for n'
    using regions_ok_used [OF assms(1), of w u n'] assms(2,3,5) by (force simp: region_def)
  have units: "region_units ?hs w = bits_of used'"
  proof (rule set_eqI)
    fix k
    have "(\<exists>u' n'. u' \<noteq> u \<and> region hs w u' n' \<and> u' \<le> k \<and> k < u' + n') \<longleftrightarrow> k \<in> region_units hs w"
      unfolding region_units_def mem_Collect_eq using old by metis
    then show "k \<in> region_units ?hs w \<longleftrightarrow> k \<in> bits_of used'"
      unfolding region_units_upd assms(7) w(3) by auto
  qed
  have card: "card (bits_of used') = card (bits_of used) + n"
    unfolding assms(7) using assms(3) bits_of_bound(2) [of used] by (subst card_Un_disjoint) auto
  moreover have "bits_of used' \<subseteq> {..<2048}" using bits_of_bound(1) [of used'] assms(6) by simp
  then have "card (bits_of used') \<le> 2048" using card_mono [of "{..<2048 :: nat}" "bits_of used'"] by simp
  ultimately show free: "n \<le> free" using w(2) by simp
  have "headers_ok (\<lambda>w. ?c w \<noteq> None) ?hs"
    using ok assms(2) by (subst upd_dom) (simp_all add: headers_ok_window)
  moreover have "window_ok ?hs w' k" if "?c w' = Some k" for w' k
  proof (cases "w' = w")
    case True
    then show ?thesis using that units card free w(2) assms(4,6) by (auto simp: window_ok_def)
  next
    case False
    then show ?thesis using that ok region_units_other [OF False, of hs u] by (auto simp: window_ok_def)
  qed
  moreover have "u' + n' \<le> 2048" if "region ?hs w' u' n'" for w' u' n'
    using that ok assms(4) by (auto simp: region_upd split: if_splits)
  moreover have "u1 + n1 \<le> u2" if r: "region ?hs w' u1 n1" "region ?hs w' u2 n2" "u1 < u2" for w' u1 n1 u2 n2
  proof -
    have hit: "{u'..<u' + n'} \<subseteq> bits_of used" if "region hs w u' n'" for u' n'
      using that regions_ok_used [OF assms(1) that] assms(2) by auto
    consider "w' = w" "u1 = u" "u2 \<noteq> u" | "w' = w" "u2 = u" "u1 \<noteq> u" | "region hs w' u1 n1" "region hs w' u2 n2"
      using r by (auto simp: region_upd split: if_splits)
    then show ?thesis
    proof cases
      case 1
      then have "u2 \<in> bits_of used" "n1 = n" using r hit [of u2 n2] by (auto simp: region_upd region_def)
      then show ?thesis using 1 r(3) assms(3) by (metis Int_iff atLeastLessThan_iff empty_iff less_imp_le not_less)
    next
      case 2
      then have reg: "region hs w u1 n1" using r by (simp add: region_upd)
      show ?thesis
      proof (rule ccontr)
        assume "\<not> ?thesis"
        then have "u \<in> {u1..<u1 + n1}" using 2 r(3) by simp
        then have "u \<in> bits_of used" using hit [OF reg] by blast
        moreover have "u \<in> {u..<u + n}" using assms(5) by simp
        ultimately show False using assms(3) by blast
      qed
    next
      case 3
      then show ?thesis using ok r(3) by blast
    qed
  qed
  ultimately show "regions_ok ?c ?hs" unfolding regions_ok_def by blast
qed


text \<open>Giving back the end of a region; with \<open>m = 0\<close> the whole region.\<close>

lemma regions_ok_release:
  assumes "regions_ok c hs" and "c w = Some (used, free, resume)" and "region hs w u n" and "m < n" and "resume' \<le> 2048"
    and "length used' = 32" and "bits_of used' = bits_of used - {u + m..<u + n}"
  shows "regions_ok (c(w \<mapsto> (used', free + (n - m), resume'))) (hs((w, u) \<mapsto> \<lparr> Header = Some w, UsedUnits = m \<rparr>))"
proof -
  let ?hs = "hs((w, u) \<mapsto> \<lparr> Header = Some w, UsedUnits = m \<rparr>)" and ?c = "c(w \<mapsto> (used', free + (n - m), resume'))"
  note ok = assms(1) [unfolded regions_ok_def]
  have w: "length used = 32" "free + card (bits_of used) = 2048" "bits_of used = region_units hs w"
    using ok [THEN conjunct2, THEN conjunct1, rule_format, OF assms(2)] by (simp_all add: window_ok_def)
  have sub: "{u..<u + n} \<subseteq> bits_of used" using regions_ok_used [OF assms(1,3)] assms(2) by auto
  have uniq: "n' = n" if "region hs w u n'" for n' using that assms(3) by (simp add: region_def)
  have apart: "k < u \<or> u + n \<le> k" if "region hs w u' n'" "u' \<noteq> u" "u' \<le> k" "k < u' + n'" for u' n' k
  proof (cases "u' < u")
    case True
    then have "u' + n' \<le> u" using ok that assms(3) by blast
    then show ?thesis using that by simp
  next
    case False
    then have "u + n \<le> u'" using ok that assms(3) by (metis linorder_neqE_nat)
    then show ?thesis using that by simp
  qed
  have units: "region_units ?hs w = bits_of used'"
  proof (rule set_eqI)
    fix k
    define E where "E \<longleftrightarrow> (\<exists>u' n'. u' \<noteq> u \<and> region hs w u' n' \<and> u' \<le> k \<and> k < u' + n')"
    have "k \<in> region_units hs w \<longleftrightarrow> (u \<le> k \<and> k < u + n) \<or> E"
      unfolding region_units_def mem_Collect_eq E_def using assms(3) uniq by metis
    moreover have "E \<Longrightarrow> k < u \<or> u + n \<le> k" using apart unfolding E_def by blast
    ultimately show "k \<in> region_units ?hs w \<longleftrightarrow> k \<in> bits_of used'"
      unfolding region_units_upd assms(7) Diff_iff w(3) E_def [symmetric] using assms(4) by auto
  qed
  have "card (bits_of used') = card (bits_of used) - card {u + m..<u + n}"
    unfolding assms(7) using sub bits_of_bound(2) [of used] by (intro card_Diff_subset) auto
  moreover have "card {u + m..<u + n} \<le> card (bits_of used)"
    using sub bits_of_bound(2) [of used] by (intro card_mono) auto
  ultimately have card: "free + (n - m) + card (bits_of used') = 2048" using w(2) assms(4) by simp
  have "headers_ok (\<lambda>w. ?c w \<noteq> None) ?hs"
    using ok assms(2) by (subst upd_dom) (simp_all add: headers_ok_window)
  moreover have "window_ok ?hs w' k" if "?c w' = Some k" for w' k
  proof (cases "w' = w")
    case True
    then show ?thesis using that units card assms(5,6) by (auto simp: window_ok_def)
  next
    case False
    then show ?thesis using that ok region_units_other [OF False, of hs u] by (auto simp: window_ok_def)
  qed
  moreover have "u' + n' \<le> 2048" if "region ?hs w' u' n'" for w' u' n'
  proof (cases "w' = w \<and> u' = u")
    case True
    then show ?thesis using that regions_ok_used [OF assms(1,3)] assms(4) by (auto simp: region_upd)
  next
    case False
    then show ?thesis using that ok by (auto simp: region_upd split: if_splits)
  qed
  moreover have "u1 + n1 \<le> u2" if r: "region ?hs w' u1 n1" "region ?hs w' u2 n2" "u1 < u2" for w' u1 n1 u2 n2
  proof -
    have "\<exists>k. region hs w' u' k \<and> n' \<le> k" if "region ?hs w' u' n'" for u' n'
      using that assms(3,4) by (auto simp: region_upd split: if_splits)
    then obtain k1 k2 where "region hs w' u1 k1" "n1 \<le> k1" "region hs w' u2 k2" using r by meson
    then have "u1 + k1 \<le> u2" using ok r(3) by blast
    then show ?thesis using \<open>n1 \<le> k1\<close> by simp
  qed
  ultimately show ?thesis unfolding regions_ok_def by blast
qed

text \<open>New blocks: an empty window, and a block outside of the windows.\<close>

lemma regions_ok_new_window:
  assumes "regions_ok c hs" and "\<And>u. hs (w, u) = None" and "0 < n" and "n \<le> 2048"
    and "length used = 32" and "bits_of used = {0..<n}"
  shows "regions_ok (c(w \<mapsto> (used, 2048 - n, n))) (hs((w, 0) \<mapsto> \<lparr> Header = Some w, UsedUnits = n \<rparr>))"
proof -
  let ?hs = "hs((w, 0) \<mapsto> \<lparr> Header = Some w, UsedUnits = n \<rparr>)" and ?c = "c(w \<mapsto> (used, 2048 - n, n))"
  note ok = assms(1) [unfolded regions_ok_def]
  have reg: "region ?hs w u n' \<longleftrightarrow> u = 0 \<and> n' = n" for u n' using assms(2,3) by (auto simp: region_def)
  have "headers_ok (\<lambda>w. ?c w \<noteq> None) ?hs"
    using ok assms(2) by (auto simp: headers_ok_def split: option.splits)
  moreover have "window_ok ?hs w' k" if "?c w' = Some k" for w' k
  proof (cases "w' = w")
    case True
    have "region_units ?hs w = {0..<n}" by (auto simp: region_units_def reg)
    then show ?thesis using that True assms by (auto simp: window_ok_def)
  next
    case False
    then show ?thesis using that ok region_units_other [OF False, of hs 0] by (auto simp: window_ok_def)
  qed
  moreover have "u' + n' \<le> 2048" if "region ?hs w' u' n'" for w' u' n'
    using that ok assms(4) by (auto simp: region_upd split: if_splits)
  moreover have "u1 + n1 \<le> u2" if r: "region ?hs w' u1 n1" "region ?hs w' u2 n2" "u1 < u2" for w' u1 n1 u2 n2
  proof (cases "w' = w")
    case True
    then show ?thesis using r reg by auto
  next
    case False
    then have "region hs w' u1 n1" "region hs w' u2 n2" using r by (simp_all add: region_upd)
    then show ?thesis using ok r(3) by blast
  qed
  ultimately show ?thesis unfolding regions_ok_def by blast
qed

lemma regions_ok_fallback:
  assumes "regions_ok c hs" and "c b = None" and "0 < n"
  shows "regions_ok c (hs((b, 0) \<mapsto> \<lparr> Header = None, UsedUnits = n \<rparr>))"
proof -
  have "\<not> region hs b 0 n'" for n' using regions_ok_used [OF assms(1), of b 0 n'] assms(2) by auto
  then have r: "region (hs((b, 0) \<mapsto> \<lparr> Header = None, UsedUnits = n \<rparr>)) = region hs"
    by (intro ext) (auto simp: region_upd)
  have "headers_ok (\<lambda>w. c w \<noteq> None) (hs((b, 0) \<mapsto> \<lparr> Header = None, UsedUnits = n \<rparr>))"
    using assms by (auto simp: regions_ok_def headers_ok_def)
  then show ?thesis using assms(1) unfolding regions_ok_def window_ok_def region_units_def r by blast
qed

lemma regions_ok_fallback_free:
  assumes "regions_ok c hs" and "hs (b, 0) = Some r" and "Header r = None"
  shows "regions_ok c (hs((b, 0) := None))"
proof -
  have "\<not> region hs b 0 n'" for n' using assms(2,3) by (auto simp: region_def)
  then have r: "region (hs((b, 0) := None)) = region hs"
    by (intro ext) (auto simp: region_def)
  have "headers_ok (\<lambda>w. c w \<noteq> None) (hs((b, 0) := None))"
    using assms by (auto simp: regions_ok_def headers_ok_def)
  then show ?thesis using assms(1) unfolding regions_ok_def window_ok_def region_units_def r by blast
qed


section \<open>Lists of windows\<close>

definition lists_ok :: "Allocator \<Rightarrow> nat list \<Rightarrow> nat list \<Rightarrow> bool" where
  "lists_ok a pref full \<longleftrightarrow> vec_list (PreferredWindows a) pref \<and> vec_list (FullWindows a) full
     \<and> 25 \<le> vec_Allocated (PreferredWindows a) \<and> distinct (pref @ full) \<and> dom (windows a) = set pref \<union> set full
     \<and> (\<forall>w h. windows a w = Some h \<longrightarrow> (w \<in> set pref \<longrightarrow> FullListIndex h = kNotInFullList)
          \<and> (\<forall>i<length full. full ! i = w \<longrightarrow> FullListIndex h = int i))"

definition allocator_ok :: "Allocator \<Rightarrow> nat list \<Rightarrow> nat list \<Rightarrow> bool" where
  "allocator_ok a pref full \<longleftrightarrow> lists_ok a pref full \<and> regions_ok (cores a) (headers a)"

text \<open>The state while \<open>moveLastFewWindowsToFull\<close> runs: the last \<open>i\<close> windows are in both lists.\<close>

definition moving :: "Allocator \<Rightarrow> nat list \<Rightarrow> nat list \<Rightarrow> nat \<Rightarrow> nat \<Rightarrow> Allocator \<Rightarrow> bool" where
  "moving a0 pref full n i a \<longleftrightarrow> headers a = headers a0 \<and> contents a = contents a0 \<and> HugeChunkStart a = HugeChunkStart a0
     \<and> PreferredWindows a = PreferredWindows a0 \<and> vec_partial (FullWindows a) (full @ rev (drop (length pref - i) pref)) (length full + n)
     \<and> cores a = cores a0
     \<and> (\<forall>w h. windows a w = Some h \<longrightarrow> (w \<in> set (take (length pref - i) pref) \<longrightarrow> FullListIndex h = kNotInFullList)
          \<and> (\<forall>j<length full + i. (full @ rev (drop (length pref - i) pref)) ! j = w \<longrightarrow> FullListIndex h = int j))"

lemma cores_index [simp]: "windows a w = Some h \<Longrightarrow> cores (a\<lparr>FullWindows := f, windows := (windows a)(w \<mapsto> h\<lparr>FullListIndex := i\<rparr>)\<rparr>) = cores a"
  by (rule ext) (simp add: cores_def core_def)

lemma cores_fields [simp]: "cores (a\<lparr>FullWindows := f\<rparr>) = cores a" "cores (a\<lparr>PreferredWindows := f\<rparr>) = cores a"
  "cores (a\<lparr>headers := hs\<rparr>) = cores a" "cores (a\<lparr>contents := m\<rparr>) = cores a"
  by (simp_all add: cores_def fun_eq_iff)

lemma cores_dom: "dom (cores a) = dom (windows a)"
  by (simp add: cores_def dom_def)

lemma move_window_ok:
  assumes "lists_ok a0 pref full" and "moving a0 pref full n i a" and "i < n" and "n \<le> length pref"
  shows "\<exists>a'. move_window (length full) (length pref) i a = Some a' \<and> moving a0 pref full n (Suc i) a'"
proof -
  let ?k = "length pref - 1 - i" and ?w = "pref ! (length pref - 1 - i)"
  note m = assms(2) [unfolded moving_def]
  have k: "?k < length pref" "length pref - i = Suc ?k" "length pref - Suc i = ?k" using assms(3,4) by auto
  have get: "vec_Get ?k (PreferredWindows a) = Some ?w"
    using m assms(1) k(1) by (simp add: lists_ok_def vec_Get_list)
  have drop: "drop ?k pref = ?w # drop (Suc ?k) pref" using k(1) by (simp add: Cons_nth_drop_Suc)
  let ?xs = "full @ rev (drop (Suc ?k) pref)"
  have len: "length ?xs = length full + i" using assms(3,4) by simp
  have "vec_partial (FullWindows a) ?xs (length full + n)" unfolding k(2) [symmetric] using m by simp
  then obtain f where f: "vec_Put (length full + i) ?w (FullWindows a) = Some f" "vec_partial f (?xs @ [?w]) (length full + n)"
    using vec_partial_Put [of "FullWindows a" ?xs "length full + n" ?w] len assms(3) by auto
  have dom: "dom (windows a) = dom (windows a0)"
    using m cores_dom [of a] cores_dom [of a0] by simp
  obtain h where h: "windows a ?w = Some h"
  proof -
    have "?w \<in> dom (windows a)" using assms(1) k(1) dom by (simp add: lists_ok_def)
    then show thesis using that by blast
  qed
  let ?a = "a\<lparr>FullWindows := f, windows := (windows a)(?w \<mapsto> h\<lparr>FullListIndex := int (length full + i)\<rparr>)\<rparr>"
  have run: "move_window (length full) (length pref) i a = Some ?a"
    using get f(1) h by (simp add: move_window_def)
  have dist: "distinct (pref @ full)" using assms(1) by (simp add: lists_ok_def)
  have not_earlier: "j < length full + i \<Longrightarrow> ?xs ! j \<noteq> ?w" for j
  proof -
    assume "j < length full + i"
    then have "?xs ! j \<in> set full \<union> set (drop (Suc ?k) pref)" using len nth_mem [of j ?xs] by simp
    moreover have "?w \<notin> set full" using dist k(1) by (metis disjoint_iff distinct_append nth_mem)
    moreover have "?w \<notin> set (drop (Suc ?k) pref)"
    proof -
      have "distinct (drop ?k pref)" using dist by simp
      then show ?thesis unfolding drop by simp
    qed
    ultimately show ?thesis by auto
  qed
  have not_taken: "?w \<notin> set (take ?k pref)"
  proof -
    have "distinct (take ?k pref @ drop ?k pref)" using dist by simp
    then show ?thesis unfolding drop by auto
  qed
  have "moving a0 pref full n (Suc i) ?a"
    unfolding moving_def k(3) drop
  proof (intro conjI allI impI)
    show "vec_partial (FullWindows ?a) (full @ rev (?w # drop (Suc ?k) pref)) (length full + n)" using f(2) by simp
    show "cores ?a = cores a0" using m h by simp
    fix v g
    assume g: "windows ?a v = Some g"
    show "FullListIndex g = kNotInFullList" if "v \<in> set (take ?k pref)"
    proof -
      have "v \<noteq> ?w" using that not_taken by auto
      moreover have "v \<in> set (take (length pref - i) pref)"
        unfolding k(2) using that set_take_subset_set_take [of ?k "Suc ?k" pref] by auto
      ultimately show ?thesis using g m by simp
    qed
    show "FullListIndex g = int j" if "j < length full + Suc i" "(full @ rev (?w # drop (Suc ?k) pref)) ! j = v" for j
    proof (cases "j = length full + i")
      case True
      then have "v = ?w" using that(2) len by (simp add: nth_append)
      then show ?thesis using g True by auto
    next
      case False
      then have j: "j < length full + i" using that(1) by simp
      have "full @ rev (?w # drop (Suc ?k) pref) = ?xs @ [?w]" by simp
      then have "?xs ! j = v" using that(2) len j nth_append [of ?xs "[?w]" j] by simp
      moreover from this have "v \<noteq> ?w" using not_earlier [OF j] by auto
      ultimately show ?thesis using g m j unfolding k(2) by simp
    qed
  qed (use m in simp_all)
  then show ?thesis using run by blast
qed


lemma moveLastFewWindowsToFull_ok:
  assumes ok: "allocator_ok a pref full" and n: "n \<le> length pref" and small: "length pref + length full < 2 ^ 30"
  shows "\<exists>a'. moveLastFewWindowsToFull True n a = Some a'
    \<and> allocator_ok a' (take (length pref - n) pref) (full @ rev (drop (length pref - n) pref))
    \<and> headers a' = headers a \<and> contents a' = contents a \<and> cores a' = cores a"
proof -
  note lists = ok [unfolded allocator_ok_def lists_ok_def]
  have sizes: "vec_Size (FullWindows a) = length full" "vec_Size (PreferredWindows a) = length pref"
    using lists by (simp_all add: vec_list_def)
  obtain f where f: "SetSize_Copy True (length full + n) (FullWindows a) = (True, f)" "vec_partial f full (length full + n)"
    using vec_grow [of "FullWindows a" full "length full + n"] lists n small by auto
  let ?a = "a\<lparr>FullWindows := f\<rparr>"
  have lo: "lists_ok a pref full" using ok by (simp add: allocator_ok_def)
  have "moving a pref full n 0 ?a" using lists f(2) by (simp add: moving_def)
  then have "\<exists>a'. for_range 0 n (move_window (length full) (length pref)) ?a = Some a' \<and> moving a pref full n n a'"
    by (intro for_range_rule [where P = "moving a pref full n"] move_window_ok [OF lo]) (use n in simp_all)
  then obtain b where b: "for_range 0 n (move_window (length full) (length pref)) ?a = Some b" "moving a pref full n n b" by blast
  note m = b(2) [unfolded moving_def]
  let ?pref = "take (length pref - n) pref" and ?full = "full @ rev (drop (length pref - n) pref)"
  obtain p where p: "SetSize_Copy True (length pref - n) (PreferredWindows b) = (True, p)" "vec_list p ?pref"
    using vec_shrink_list [of "PreferredWindows b" pref "length pref - n" True] m lists by auto
  have p_alloc: "vec_Allocated p = vec_Allocated (PreferredWindows a)"
    using p(1) m lists by (auto simp: SetSize_Copy_def vec_list_def vec_Allocated_def split: if_splits)
  let ?b = "b\<lparr>PreferredWindows := p\<rparr>"
  have run: "moveLastFewWindowsToFull True n a = Some ?b"
    using f(1) b(1) p(1) m sizes by (simp add: moveLastFewWindowsToFull_def Let_def)
  have full_len: "length ?full = length full + n" using n by simp
  have "lists_ok ?b ?pref ?full"
    unfolding lists_ok_def
  proof (intro conjI)
    show "vec_list (FullWindows ?b) ?full" using m full_len vec_partial_full [of "FullWindows b" ?full] by simp
    show "distinct (?pref @ ?full)"
      using lists set_drop_subset [of "length pref - n" pref] set_take_subset [of "length pref - n" pref]
        set_take_disj_set_drop_if_distinct [of pref "length pref - n" "length pref - n"] by auto
    have "set ?pref \<union> set ?full = set pref \<union> set full" using set_append [of ?pref "drop (length pref - n) pref"] by auto
    then show "dom (windows ?b) = set ?pref \<union> set ?full" using lists m cores_dom [of b] cores_dom [of a] by simp
  qed (use p(2) p_alloc lists m full_len in simp_all)
  then show ?thesis using run m ok by (simp add: allocator_ok_def)
qed


section \<open>Finding and carving a region\<close>

lemma units_for_bounds:
  assumes "0 < bytes" and "bytes \<le> 2 ^ 32 - 32"
  shows "2 \<le> units_for bytes" "bytes \<le> (units_for bytes - 1) * kUnitSize"
proof -
  have "units_for bytes = (bytes + 31) div 32 + 1" using assms(2) by (simp add: units_for_def kUnitSize_def kAlignmentBytes_def)
  moreover have "bytes \<le> (bytes + 31) div 32 * 32" "1 \<le> (bytes + 31) div 32" using assms(1) by presburger+
  ultimately show "2 \<le> units_for bytes" "bytes \<le> (units_for bytes - 1) * kUnitSize" by (simp_all add: kUnitSize_def kAlignmentBytes_def)
qed

lemma find_region_ok:
  assumes "length used = 32" and "2 \<le> units"
  shows "\<exists>r. find_region units used s = Some r
    \<and> (\<forall>u. r = Some u \<longrightarrow> u + units \<le> 2048 \<and> {u..<u + units} \<inter> bits_of used = {})"
proof (induction "2048 - s" arbitrary: s rule: less_induct)
  case less
  show ?case
  proof (cases "s < 2048")
    case True
    obtain c where c: "FindFirstClear 2048 s used = Some c" "least_from (- bits_of used) s 2048 c"
      using FindFirstClear_least [of 2048 used s] assms(1) True by auto
    show ?thesis
    proof (cases "c + units > 2048")
      case True
      then show ?thesis using c(1) \<open>s < 2048\<close> by (subst find_region.simps) (simp add: kWindowMaxUnits_def Let_def)
    next
      case False
      then have lt: "c < 2048" using assms(2) by simp
      obtain e where e: "FindFirstSet (c + 1) (c + units) used = Some e" "least_from (bits_of used) (c + 1) (c + units) e"
        using FindFirstSet_least [of "c + units" used "c + 1"] assms False by auto
      have ge: "c < e" using e(2) by (simp add: least_from_def)
      show ?thesis
      proof (cases "e - c < units")
        case True
        have "find_region units used s = find_region units used (e + 1)"
          using c(1) e(1) False True \<open>s < 2048\<close>
          by (subst find_region.simps) (simp add: kWindowMaxUnits_def Let_def)
        moreover have "2048 - (e + 1) < 2048 - s" using ge c(2) \<open>s < 2048\<close> by (auto simp: least_from_def)
        ultimately show ?thesis using less by simp
      next
        case large: False
        have "c \<notin> bits_of used" using c(2) lt by (simp add: least_from_def)
        moreover have "i \<notin> bits_of used" if "c < i" "i < c + units" for i
          using that e(2) large by (auto simp: least_from_def)
        ultimately have "{c..<c + units} \<inter> bits_of used = {}" by (auto simp: le_less)
        moreover have "find_region units used s = Some (Some c)"
          using c(1) e(1) False large \<open>s < 2048\<close>
          by (subst find_region.simps) (simp add: kWindowMaxUnits_def Let_def)
        ultimately show ?thesis using False by simp
      qed
    qed
  next
    case False
    then show ?thesis by (subst find_region.simps) (simp add: kWindowMaxUnits_def)
  qed
qed


lemma lists_ok_upd:
  assumes "lists_ok a pref full" and "windows a w = Some h" and "FullListIndex h' = FullListIndex h"
  shows "lists_ok (a\<lparr>headers := hs, windows := (windows a)(w \<mapsto> h')\<rparr>) pref full"
  using assms unfolding lists_ok_def by (auto simp: dom_def)

lemma cores_upd: "cores (a\<lparr>headers := hs, windows := (windows a)(w \<mapsto> h)\<rparr>) = (cores a)(w \<mapsto> core h)"
  by (rule ext) (simp add: cores_def)

lemma allocator_window:
  assumes "allocator_ok a pref full" and "windows a w = Some h"
  shows "cores a w = Some (Used h, FreeUnitCount h, ResumeScanOffset h)" "length (Used h) = 32" "ResumeScanOffset h \<le> 2048"
    "FreeUnitCount h + card (bits_of (Used h)) = 2048"
proof -
  show c: "cores a w = Some (Used h, FreeUnitCount h, ResumeScanOffset h)" using assms(2) by (simp add: cores_def core_def)
  then have "window_ok (headers a) w (Used h, FreeUnitCount h, ResumeScanOffset h)"
    using assms(1) by (simp add: allocator_ok_def regions_ok_def)
  then show "length (Used h) = 32" "ResumeScanOffset h \<le> 2048" "FreeUnitCount h + card (bits_of (Used h)) = 2048"
    by (simp_all add: window_ok_def)
qed

lemma carve_ok:
  assumes ok: "allocator_ok a pref full" and i: "i < length pref" and w: "windows a w = Some h"
    and free: "u + n \<le> 2048" "{u..<u + n} \<inter> bits_of (Used h) = {}" "0 < n" and small: "length pref + length full < 2 ^ 30"
  shows "\<exists>a' pref' full'. carve True n (length pref) i w u a = Some ((w, u + 1), a') \<and> allocator_ok a' pref' full'
    \<and> length pref' + length full' = length pref + length full
    \<and> headers a' = (headers a)((w, u) \<mapsto> \<lparr> Header = Some w, UsedUnits = n \<rparr>) \<and> contents a' = contents a"
proof -
  note win = allocator_window [OF ok w]
  obtain used where used: "SetRange u (u + n) (Used h) = Some used" "length used = 32" "bits_of used = bits_of (Used h) \<union> {u..<u + n}"
    using SetRange_bits [of "u + n" "Used h" u] win(2) free(1) by auto
  let ?h = "h\<lparr>FreeUnitCount := FreeUnitCount h - n, Used := used, ResumeScanOffset := u + n\<rparr>"
    and ?hs = "(headers a)((w, u) \<mapsto> \<lparr> Header = Some w, UsedUnits = n \<rparr>)"
  let ?a = "a\<lparr>headers := ?hs, windows := (windows a)(w \<mapsto> ?h)\<rparr>"
  have "regions_ok ((cores a)(w \<mapsto> (used, FreeUnitCount h - n, u + n))) ?hs"
    by (rule regions_ok_carve(2)) (use ok win(1) free used(2,3) in \<open>simp_all add: allocator_ok_def\<close>)
  moreover have "lists_ok ?a pref full" using lists_ok_upd [OF _ w, of pref full ?h ?hs] ok by (simp add: allocator_ok_def)
  ultimately have ok': "allocator_ok ?a pref full" by (simp add: allocator_ok_def cores_upd core_def)
  define m where "m = (if u + n * 2 > kWindowMaxUnits then length pref - 1 - i + 1 else length pref - 1 - i)"
  have m: "m \<le> length pref" using i by (auto simp: m_def)
  obtain a' where a': "moveLastFewWindowsToFull True m ?a = Some a'"
    "allocator_ok a' (take (length pref - m) pref) (full @ rev (drop (length pref - m) pref))"
    "headers a' = headers ?a" "contents a' = contents ?a"
    using moveLastFewWindowsToFull_ok [OF ok' m small] by auto
  have "carve True n (length pref) i w u a = Some ((w, u + 1), a')"
    using w used(1) a'(1) unfolding carve_def m_def Let_def by (cases "u + n * 2 > kWindowMaxUnits") simp_all
  then show ?thesis using a'(2-4) m
    by (intro exI [of _ a'] exI [of _ "take (length pref - m) pref"] exI [of _ "full @ rev (drop (length pref - m) pref)"]) simp
qed

text \<open>A block that no window and no header uses: what \<open>calloc\<close> returns.\<close>

definition fresh_block :: "nat \<Rightarrow> Allocator \<Rightarrow> bool" where
  "fresh_block b a \<longleftrightarrow> windows a b = None \<and> (\<forall>u. headers a (b, u) = None)"

lemma allocateFromNewWindow_ok:
  assumes ok: "allocator_ok a [] full" and fresh: "fresh_block b a" and n: "0 < n" "n \<le> 2048"
  shows "\<exists>a'. allocateFromNewWindow (Some b) new_ok n a = Some (Some (b, 1), a') \<and> allocator_ok a' [b] full
    \<and> headers a' = (headers a)((b, 0) \<mapsto> \<lparr> Header = Some b, UsedUnits = n \<rparr>) \<and> contents a' = contents a"
proof -
  obtain clear where clear: "bitset_ClearAll (replicate (bitset_words kWindowMaxUnits) 0) = Some clear" "length clear = 32" "bits_of clear = {}"
    using ClearAll_bits [of "replicate (bitset_words kWindowMaxUnits) 0"] by (auto simp: bitset_words_def kWindowMaxUnits_def kWordBits_def)
  obtain used where used: "SetRange 0 n clear = Some used" "length used = 32" "bits_of used = {0..<n}"
    using SetRange_bits [of n clear 0] clear n(2) by auto
  note lists = ok [unfolded allocator_ok_def lists_ok_def]
  have pre: "vec_list (PreferredWindows a) []" "length ([] :: nat list) < vec_Allocated (PreferredWindows a)" using lists by auto
  obtain p where p: "vec_Append new_ok b (PreferredWindows a) = Some (True, p)" "vec_list p [b]"
    using vec_Append_no_new [OF pre, of new_ok b] by auto
  have p_alloc: "vec_Allocated p = vec_Allocated (PreferredWindows a)"
    using p(1) pre by (auto simp: vec_Append_def SetSize_Copy_def vec_list_def vec_Put_def vec_Allocated_def tab_set_def split: if_splits)
  let ?h = "\<lparr> Used = used, FreeUnitCount = kWindowMaxUnits - n, ResumeScanOffset = n, FullListIndex = kNotInFullList, Preallocated = False \<rparr>"
  let ?hs = "(headers a)((b, 0) \<mapsto> \<lparr> Header = Some b, UsedUnits = n \<rparr>)"
  let ?a = "a\<lparr>windows := (windows a)(b \<mapsto> ?h), PreferredWindows := p, headers := ?hs\<rparr>"
  have run: "allocateFromNewWindow (Some b) new_ok n a = Some (Some (b, 1), ?a)"
    using clear(1) used(1) p(1) by (simp add: allocateFromNewWindow_def Let_def)
  have nb: "b \<notin> set full" using lists fresh by (auto simp: fresh_block_def)
  have "lists_ok ?a [b] full"
    unfolding lists_ok_def using lists p(2) p_alloc nb by auto
  moreover have "cores ?a = (cores a)(b \<mapsto> (used, 2048 - n, n))" by (rule ext) (simp add: cores_def core_def kWindowMaxUnits_def)
  moreover have "regions_ok ((cores a)(b \<mapsto> (used, 2048 - n, n))) ?hs"
    by (rule regions_ok_new_window) (use ok fresh n used in \<open>simp_all add: allocator_ok_def fresh_block_def\<close>)
  ultimately show ?thesis using run by (simp add: allocator_ok_def)
qed


text \<open>What an allocation of \<open>n\<close> units promises: a pointer after a new header, everything else as it was.\<close>

definition allocation_ok :: "nat \<Rightarrow> nat \<Rightarrow> Allocator \<Rightarrow> address option \<times> Allocator \<Rightarrow> bool" where
  "allocation_ok n k a = (\<lambda>(p, a').
     (\<exists>pref full. allocator_ok a' pref full \<and> length pref + length full \<le> k)
     \<and> contents a' = contents a
     \<and> (case p of None \<Rightarrow> headers a' = headers a
        | Some q \<Rightarrow> 0 < snd q \<and> (\<exists>r. UsedUnits r = n \<and> headers a' = (headers a)(header_of q \<mapsto> r))
            \<and> (\<forall>r. headers a (header_of q) = Some r \<longrightarrow> IsFreed r)))"

lemma allocation_ok_Some:
  assumes "allocator_ok a' pref full" and "length pref + length full \<le> k" and "contents a' = contents a"
    and "headers a' = (headers a)((b, u) \<mapsto> \<lparr> Header = w, UsedUnits = n \<rparr>)"
    and "\<And>r. headers a (b, u) = Some r \<Longrightarrow> IsFreed r"
  shows "allocation_ok n k a (Some (b, u + 1), a')"
proof -
  have "\<exists>r. UsedUnits r = n \<and> headers a' = (headers a)(header_of (b, u + 1) \<mapsto> r)"
    using assms(4) by (intro exI [of _ "\<lparr> Header = w, UsedUnits = n \<rparr>"]) (simp add: header_of_def)
  then show ?thesis using assms(1-3,5) by (auto simp: allocation_ok_def header_of_def)
qed

lemma allocation_ok_None:
  assumes "allocator_ok a' pref full" and "length pref + length full \<le> k" and "contents a' = contents a" and "headers a' = headers a"
  shows "allocation_ok n k a (None, a')"
  using assms by (auto simp: allocation_ok_def)

lemma free_unit_not_live:
  assumes "allocator_ok a pref full" and "windows a w = Some h" and "u \<notin> bits_of (Used h)" and "headers a (w, u) = Some r"
  shows "IsFreed r"
proof (rule ccontr)
  assume used: "\<not> IsFreed r"
  note win = allocator_window [OF assms(1,2)]
  have ok: "regions_ok (cores a) (headers a)" using assms(1) by (simp add: allocator_ok_def)
  then have hd: "headers_ok (\<lambda>w. cores a w \<noteq> None) (headers a)" by (simp add: regions_ok_def)
  have "Header r = Some w"
    using hd [unfolded headers_ok_def, rule_format, OF assms(4)] win(1) by (auto split: option.splits)
  then have reg: "region (headers a) w u (UsedUnits r)"
    using assms(4) used by (cases r) (simp add: region_def IsFreed_def)
  then show False using regions_ok_used [OF ok reg] win(1) assms(3) by (force simp: region_def)
qed

lemma try_windows_ok:
  assumes ok: "allocator_ok a pref full" and small: "length pref + length full < 2 ^ 30" and n: "2 \<le> n" "n \<le> 2048"
    and fresh: "\<And>b. calloc = Some b \<Longrightarrow> fresh_block b a" and i: "i \<le> length pref"
  shows "\<exists>p a'. try_windows calloc True n (length pref) i a = Some (p, a')
    \<and> allocation_ok n (length pref + length full + 1) a (p, a') \<and> (p = None \<longrightarrow> calloc = None)"
  using i
proof (induction i)
  case 0
  obtain b where b: "moveLastFewWindowsToFull True (length pref) a = Some b" "allocator_ok b [] (full @ rev pref)"
    "headers b = headers a" "contents b = contents a" "cores b = cores a"
    using moveLastFewWindowsToFull_ok [OF ok le_refl small] by auto
  show ?case
  proof (cases calloc)
    case None
    then show ?thesis using b allocation_ok_None [OF b(2), of "length pref + length full + 1" a] by (simp add: allocateFromNewWindow_def)
  next
    case (Some c)
    then have fr: "fresh_block c a" by (rule fresh)
    have "windows b c = None" using fr b(5) [THEN fun_cong, of c] by (simp add: fresh_block_def cores_def)
    then have "fresh_block c b" using fr b(3) by (simp add: fresh_block_def)
    then obtain a' where a': "allocateFromNewWindow (Some c) True n b = Some (Some (c, 1), a')" "allocator_ok a' [c] (full @ rev pref)"
      "headers a' = (headers b)((c, 0) \<mapsto> \<lparr> Header = Some c, UsedUnits = n \<rparr>)" "contents a' = contents b"
      using allocateFromNewWindow_ok [OF b(2), of c n True] n by auto
    have "allocation_ok n (length pref + length full + 1) a (Some (c, 1), a')"
      using allocation_ok_Some [OF a'(2), of "length pref + length full + 1" a c 0 "Some c" n] a' b fr by (simp add: fresh_block_def)
    then show ?thesis using Some b(1) a'(1) by simp
  qed
next
  case (Suc i)
  let ?w = "pref ! i"
  have lists: "lists_ok a pref full" using ok by (simp add: allocator_ok_def)
  have get: "vec_Get i (PreferredWindows a) = Some ?w" using lists Suc.prems by (simp add: lists_ok_def vec_Get_list)
  have "?w \<in> dom (windows a)" using lists Suc.prems by (simp add: lists_ok_def)
  then obtain h where h: "windows a ?w = Some h" by blast
  note win = allocator_window [OF ok h]
  obtain r where r: "find_region n (Used h) (ResumeScanOffset h) = Some r"
    "\<And>u. r = Some u \<Longrightarrow> u + n \<le> 2048 \<and> {u..<u + n} \<inter> bits_of (Used h) = {}"
    using find_region_ok [OF win(2) n(1), of "ResumeScanOffset h"] by auto
  show ?case
  proof (cases "FreeUnitCount h < n \<or> r = None")
    case True
    then have "try_windows calloc True n (length pref) (Suc i) a = try_windows calloc True n (length pref) i a"
      using get h r(1) by auto
    then show ?thesis using Suc by simp
  next
    case False
    then obtain u where u: "r = Some u" "\<not> FreeUnitCount h < n" by auto
    note free = r(2) [OF u(1)]
    have i: "i < length pref" using Suc.prems by simp
    obtain a' pref' full' where a': "carve True n (length pref) i ?w u a = Some ((?w, u + 1), a')" "allocator_ok a' pref' full'"
      "length pref' + length full' = length pref + length full"
      "headers a' = (headers a)((?w, u) \<mapsto> \<lparr> Header = Some ?w, UsedUnits = n \<rparr>)" "contents a' = contents a"
      using carve_ok [OF ok i h _ _ _ small, of u n] free n(1) by auto
    have "u \<in> {u..<u + n}" using n(1) by simp
    then have "u \<notin> bits_of (Used h)" using free by blast
    then have "\<And>r. headers a (?w, u) = Some r \<Longrightarrow> IsFreed r" using free_unit_not_live [OF ok h] by blast
    then have "allocation_ok n (length pref + length full + 1) a (Some (?w, u + 1), a')"
      using allocation_ok_Some [OF a'(2), of "length pref + length full + 1" a ?w u] a' by simp
    then show ?thesis using get h r(1) u a'(1) by simp
  qed
qed

lemma Allocate_ok:
  assumes ok: "allocator_ok a pref full" and small: "length pref + length full < 2 ^ 30" and bytes: "0 < bytes" "bytes \<le> 2 ^ 32 - 32"
    and fresh: "\<And>b. calloc = Some b \<Longrightarrow> fresh_block b a"
  shows "\<exists>p a'. Allocate calloc True bytes a = Some (p, a')
    \<and> allocation_ok (units_for bytes) (length pref + length full + 1) a (p, a') \<and> (p = None \<longrightarrow> calloc = None)"
proof -
  note units = units_for_bounds [OF bytes]
  show ?thesis
  proof (cases "units_for bytes > kFallbackThresholdUnits")
    case True
    then have run: "Allocate calloc True bytes a = Some (fallbackAllocate calloc bytes a)" using bytes(1) by (simp add: Allocate_def Let_def)
    show ?thesis
    proof (cases calloc)
      case None
      then show ?thesis using run allocation_ok_None [OF ok, of "length pref + length full + 1" a] by (simp add: fallbackAllocate_def)
    next
      case (Some b)
      have fr: "fresh_block b a" using fresh [OF Some] .
      let ?a = "a\<lparr>headers := (headers a)((b, 0) \<mapsto> \<lparr> Header = None, UsedUnits = units_for bytes \<rparr>)\<rparr>"
      have "regions_ok (cores a) (headers ?a)"
        using regions_ok_fallback [of "cores a" "headers a" b "units_for bytes"] ok fr units(1)
        by (simp add: allocator_ok_def fresh_block_def cores_def)
      moreover have "lists_ok ?a pref full" using ok by (simp add: allocator_ok_def lists_ok_def)
      ultimately have "allocator_ok ?a pref full" by (simp add: allocator_ok_def)
      then have "allocation_ok (units_for bytes) (length pref + length full + 1) a (Some (b, 1), ?a)"
        using allocation_ok_Some [of ?a pref full "length pref + length full + 1" a b 0 None] fr by (simp add: fresh_block_def)
      then show ?thesis using run Some by (simp add: fallbackAllocate_def)
    qed
  next
    case False
    have "vec_Size (PreferredWindows a) = length pref" using ok by (simp add: allocator_ok_def lists_ok_def vec_list_def)
    then have "Allocate calloc True bytes a = try_windows calloc True (units_for bytes) (length pref) (length pref) a"
      using False bytes(1) by (simp add: Allocate_def Let_def)
    then show ?thesis using try_windows_ok [OF ok small units(1) _ fresh le_refl] False
      by (simp add: kFallbackThresholdUnits_def kWindowMaxUnits_def)
  qed
qed


section \<open>Giving back\<close>

lemma full_window_at:
  assumes "lists_ok a pref full" and "windows a w = Some h" and "FullListIndex h \<noteq> kNotInFullList"
  obtains xs ys where "full = xs @ w # ys" "FullListIndex h = int (length xs)" "w \<notin> set pref" "w \<notin> set xs" "w \<notin> set ys"
proof -
  have "w \<in> set pref \<union> set full" "w \<notin> set pref" "distinct full" using assms by (auto simp: lists_ok_def)
  then have "w \<in> set full" by simp
  then obtain xs ys where f: "full = xs @ w # ys" by (meson split_list)
  have "FullListIndex h = int (length xs)" using assms(1,2) f by (simp add: lists_ok_def)
  then show thesis using that [OF f] \<open>w \<notin> set pref\<close> \<open>distinct full\<close> f by simp
qed

lemma vec_Append_ok:
  assumes "vec_list v xs" and "length xs + 1 < 2 ^ 30" and "25 \<le> vec_Allocated v"
  shows "\<exists>v'. vec_Append True x v = Some (True, v') \<and> vec_list v' (xs @ [x]) \<and> 25 \<le> vec_Allocated v'"
proof -
  obtain v' where v': "vec_Append True x v = Some (True, v')" "vec_list v' (xs @ [x])" using vec_Append_list [OF assms(1,2)] by blast
  have "25 \<le> vec_Allocated v'"
    using v'(1) assms vec_newAllocated [of "length xs + 1"]
    by (auto simp: vec_Append_def SetSize_Copy_def vec_list_def vec_Put_def vec_Allocated_def tab_set_def Let_def split: if_splits)
  then show ?thesis using v' by blast
qed

text \<open>The list of full windows without the window at the end of \<open>xs\<close>, and the end of the promotion.\<close>

definition without :: "nat list \<Rightarrow> nat list \<Rightarrow> nat list" where
  "without xs ys = (if ys = [] then xs else xs @ last ys # butlast ys)"

lemma without_simps [simp]: "without xs [] = xs" "without xs (ys @ [r]) = xs @ r # ys"
  by (simp_all add: without_def)

lemma set_without [simp]: "set (without xs ys) = set xs \<union> set ys"
  by (cases ys rule: rev_cases) auto

lemma length_without [simp]: "length (without xs ys) = length xs + length ys"
  by (cases ys rule: rev_cases) auto

lemma promote_end:
  assumes "lists_ok a pref (xs @ w # ys)" and "length pref + 1 < 2 ^ 30" and "windows a w = Some h"
    and "PreferredWindows b = PreferredWindows a" "vec_list f (without xs ys)" "windows b w = Some g"
    and other: "\<And>v. v \<noteq> w \<Longrightarrow> windows b v = (if ys \<noteq> [] \<and> v = last ys then map_option (FullListIndex_update (\<lambda>_. int (length xs))) (windows a v) else windows a v)"
  shows "\<exists>p. vec_Append True w (PreferredWindows b) = Some (True, p)
    \<and> lists_ok (b\<lparr>FullWindows := f, windows := (windows b)(w \<mapsto> g\<lparr>FullListIndex := kNotInFullList\<rparr>), PreferredWindows := p\<rparr>) (pref @ [w]) (without xs ys)"
proof -
  note lists = assms(1) [unfolded lists_ok_def]
  obtain p where p: "vec_Append True w (PreferredWindows b) = Some (True, p)" "vec_list p (pref @ [w])" "25 \<le> vec_Allocated p"
    using vec_Append_ok [of "PreferredWindows b" pref w] lists assms(2,4) by auto
  let ?b = "b\<lparr>FullWindows := f, windows := (windows b)(w \<mapsto> g\<lparr>FullListIndex := kNotInFullList\<rparr>), PreferredWindows := p\<rparr>"
  have "windows b v = None \<longleftrightarrow> windows a v = None" for v using other [of v] assms(3,6) by (cases "v = w") auto
  then have dom: "dom (windows b) = dom (windows a)" by (auto simp: dom_def)
  have dist: "distinct (pref @ w # without xs ys)" using lists by (cases ys rule: rev_cases) auto
  have idx: "FullListIndex k = int i" if "windows b v = Some k" "v \<noteq> w" "i < length (without xs ys)" "without xs ys ! i = v" for v k i
  proof (cases "i = length xs")
    case True
    then have "ys \<noteq> []" "v = last ys" using that(3,4) by (auto simp: without_def nth_append)
    then show ?thesis using other [OF that(2)] that(1) True by auto
  next
    case False
    then have "(xs @ w # ys) ! i = v \<and> i < length (xs @ w # ys)"
      using that(3,4) by (cases ys rule: rev_cases) (auto simp: nth_append nth_Cons split: nat.splits if_splits)
    moreover have "\<not> (ys \<noteq> [] \<and> v = last ys)"
    proof
      assume "ys \<noteq> [] \<and> v = last ys"
      then have "without xs ys ! length xs = v" "length xs < length (without xs ys)" by (auto simp: without_def)
      then show False using dist that(3,4) False nth_eq_iff_index_eq [of "without xs ys" i "length xs"] by auto
    qed
    then have "windows a v = Some k" using other [OF that(2)] that(1) by auto
    ultimately show ?thesis using lists by blast
  qed
  have "lists_ok ?b (pref @ [w]) (without xs ys)"
    unfolding lists_ok_def
  proof (intro conjI allI impI)
    show "dom (windows ?b) = set (pref @ [w]) \<union> set (without xs ys)" using dom lists assms(6) by auto
    show "distinct ((pref @ [w]) @ without xs ys)" using dist by auto
    fix v k assume k: "windows ?b v = Some k"
    show "FullListIndex k = kNotInFullList" if "v \<in> set (pref @ [w])"
    proof (cases "v = w")
      case True
      then show ?thesis using k by auto
    next
      case False
      then have "\<not> (ys \<noteq> [] \<and> v = last ys)" using that lists by auto
      then have "windows a v = Some k" using False k other [of v] by (auto split: if_splits)
      then show ?thesis using lists that False by auto
    qed
    show "FullListIndex k = int i" if "i < length (without xs ys)" "without xs ys ! i = v" for i
    proof -
      have "v \<in> set (without xs ys)" using that nth_mem by blast
      then have "v \<noteq> w" using dist by auto
      then show ?thesis using k idx [of v k i] that by simp
    qed
  qed (use p assms(5) in simp_all)
  then show ?thesis using p(1) by blast
qed


lemma regions_ok_resume:
  assumes "regions_ok c hs" and "c w = Some (used, free, resume)" and "resume' \<le> 2048"
  shows "regions_ok (c(w \<mapsto> (used, free, resume'))) hs"
proof -
  let ?c = "c(w \<mapsto> (used, free, resume'))"
  note ok = assms(1) [unfolded regions_ok_def]
  have "headers_ok (\<lambda>w. ?c w \<noteq> None) hs" using ok assms(2) by (subst upd_dom) simp_all
  moreover have "window_ok hs w' k" if "?c w' = Some k" for w' k
    using that ok assms(2,3) by (auto simp: window_ok_def split: if_splits)
  ultimately show ?thesis using ok unfolding regions_ok_def by blast
qed

lemma promote_ok:
  assumes ok: "allocator_ok a pref full" and w: "windows a w = Some h" and idx: "FullListIndex h \<noteq> kNotInFullList"
    and small: "length pref + 1 < 2 ^ 30"
  shows "\<exists>a' full'. promote True w a = Some a' \<and> allocator_ok a' (pref @ [w]) full' \<and> length full' + 1 = length full
    \<and> headers a' = headers a \<and> contents a' = contents a"
proof -
  have lists: "lists_ok a pref full" using ok by (simp add: allocator_ok_def)
  obtain xs ys where f: "full = xs @ w # ys" "FullListIndex h = int (length xs)" "w \<notin> set pref" "w \<notin> set xs" "w \<notin> set ys"
    using full_window_at [OF lists w idx] .
  note l = lists [unfolded f(1)]
  have vf: "vec_list (FullWindows a) (xs @ w # ys)" using l by (simp add: lists_ok_def)
  then have size: "vec_Size (FullWindows a) = length xs + length ys + 1" by (simp add: vec_list_def)
  let ?h = "h\<lparr>ResumeScanOffset := 0\<rparr>"
  let ?a = "a\<lparr>windows := (windows a)(w \<mapsto> ?h)\<rparr>"
  have regions: "regions_ok ((cores a)(w \<mapsto> (Used h, FreeUnitCount h, 0))) (headers a)"
    by (rule regions_ok_resume [of _ _ _ _ _ "ResumeScanOffset h"]) (use ok w in \<open>simp_all add: allocator_ok_def cores_def core_def\<close>)
  show ?thesis
  proof (cases ys rule: rev_cases)
    case Nil
    obtain v where v: "SetSize_Copy True (length xs) (FullWindows a) = (True, v)" "vec_list v (without xs ys)"
      using vec_shrink_list [OF vf, of "length xs" True] Nil by auto
    obtain p where p: "vec_Append True w (PreferredWindows ?a) = Some (True, p)"
      "lists_ok (?a\<lparr>FullWindows := v, windows := (windows ?a)(w \<mapsto> ?h\<lparr>FullListIndex := kNotInFullList\<rparr>), PreferredWindows := p\<rparr>) (pref @ [w]) (without xs ys)"
      using promote_end [OF l small w, of ?a v ?h] v(2) Nil by auto
    let ?b = "?a\<lparr>FullWindows := v, windows := (windows ?a)(w \<mapsto> ?h\<lparr>FullListIndex := kNotInFullList\<rparr>), PreferredWindows := p\<rparr>"
    have "promote True w a = Some ?b" using w f(2) size Nil v(1) p(1) by (simp add: promote_def Let_def)
    moreover have "cores ?b = (cores a)(w \<mapsto> (Used h, FreeUnitCount h, 0))" by (rule ext) (simp add: cores_def core_def)
    ultimately show ?thesis using p(2) regions f(1) Nil by (auto simp: allocator_ok_def)
  next
    case (snoc zs r)
    have r: "r \<noteq> w" using f(5) snoc by simp
    have "r \<in> dom (windows a)" using l snoc by (simp add: lists_ok_def)
    then obtain rh where rh: "windows a r = Some rh" by blast
    have get: "vec_Get (length xs + length ys) (FullWindows a) = Some r" using vec_Get_list [OF vf, of "length xs + length ys"] snoc by (simp add: nth_append)
    obtain v0 where v0: "vec_Put (length xs) r (FullWindows a) = Some v0" "vec_list v0 ((xs @ w # ys)[length xs := r])"
      using vec_Put_list [OF vf, of "length xs" r] by auto
    obtain v where v: "SetSize_Copy True (length xs + length ys) v0 = (True, v)" "vec_list v (without xs ys)"
      using vec_shrink_list [OF v0(2), of "length xs + length ys" True] snoc by (auto simp: list_update_append)
    let ?b = "?a\<lparr>FullWindows := v0, windows := (windows ?a)(r \<mapsto> rh\<lparr>FullListIndex := int (length xs)\<rparr>)\<rparr>"
    have "\<exists>p. vec_Append True w (PreferredWindows ?b) = Some (True, p)
      \<and> lists_ok (?b\<lparr>FullWindows := v, windows := (windows ?b)(w \<mapsto> ?h\<lparr>FullListIndex := kNotInFullList\<rparr>), PreferredWindows := p\<rparr>) (pref @ [w]) (without xs ys)"
      by (rule promote_end [OF l small w]) (use v(2) snoc r rh in auto)
    then obtain p where p: "vec_Append True w (PreferredWindows ?b) = Some (True, p)"
      "lists_ok (?b\<lparr>FullWindows := v, windows := (windows ?b)(w \<mapsto> ?h\<lparr>FullListIndex := kNotInFullList\<rparr>), PreferredWindows := p\<rparr>) (pref @ [w]) (without xs ys)"
      by blast
    let ?c = "?b\<lparr>FullWindows := v, windows := (windows ?b)(w \<mapsto> ?h\<lparr>FullListIndex := kNotInFullList\<rparr>), PreferredWindows := p\<rparr>"
    have "promote True w a = Some ?c" using w f(2) size snoc r rh get v0(1) v(1) p(1) by (simp add: promote_def Let_def)
    moreover have "cores ?c = (cores a)(w \<mapsto> (Used h, FreeUnitCount h, 0))" using r rh by (intro ext) (simp add: cores_def core_def)
    ultimately show ?thesis using p(2) regions f(1) snoc by (auto simp: allocator_ok_def intro!: exI [of _ "without xs ys"])
  qed
qed

text \<open>The live allocations, as the client sees them: the number of units of each pointer, with the header.\<close>

definition live :: "Allocator \<Rightarrow> address \<Rightarrow> nat option" where
  "live a p = (case headers a (header_of p) of
     None \<Rightarrow> None | Some r \<Rightarrow> if IsFreed r \<or> snd p = 0 then None else Some (UsedUnits r))"

lemma header_of_inj: "header_of p = header_of q \<Longrightarrow> 0 < snd p \<Longrightarrow> 0 < snd q \<Longrightarrow> p = q"
  by (auto simp: header_of_def prod_eq_iff)

lemma live_upd:
  assumes "0 < snd p" and "headers a' = (headers a)(header_of p := r)"
  shows "live a' = (live a)(p := (case r of None \<Rightarrow> None | Some r \<Rightarrow> if IsFreed r then None else Some (UsedUnits r)))"
proof
  fix q
  show "live a' q = ((live a)(p := (case r of None \<Rightarrow> None | Some r \<Rightarrow> if IsFreed r then None else Some (UsedUnits r)))) q"
  proof (cases "q = p")
    case True
    then show ?thesis using assms by (simp add: live_def split: option.split)
  next
    case False
    then have "header_of q \<noteq> header_of p \<or> snd q = 0" using header_of_inj [of q p] assms(1) by blast
    then show ?thesis using False assms(2) by (auto simp: live_def split: option.splits)
  qed
qed

lemma live_headers: "headers a' = headers a \<Longrightarrow> live a' = live a"
  by (rule ext) (simp add: live_def)

lemma live_header:
  assumes "live a p = Some n"
  obtains r where "headers a (header_of p) = Some r" "\<not> IsFreed r" "UsedUnits r = n" "0 < n" "0 < snd p"
  using assms that by (auto simp: live_def IsFreed_def split: option.splits if_splits)

lemma live_window:
  assumes ok: "allocator_ok a pref full" and r: "headers a (header_of p) = Some r" "\<not> IsFreed r" "Header r = Some w"
  shows "w = fst p" "region (headers a) w (snd p - 1) (UsedUnits r)"
    "\<exists>h. windows a w = Some h \<and> {snd p - 1..<snd p - 1 + UsedUnits r} \<subseteq> bits_of (Used h) \<and> snd p - 1 + UsedUnits r \<le> 2048"
proof -
  have regs: "regions_ok (cores a) (headers a)" using ok by (simp add: allocator_ok_def)
  show w: "w = fst p" using regs r(1,3) by (fastforce simp: regions_ok_def headers_ok_def header_of_def)
  show reg: "region (headers a) w (snd p - 1) (UsedUnits r)" using r w by (cases r) (auto simp: region_def header_of_def IsFreed_def)
  show "\<exists>h. windows a w = Some h \<and> {snd p - 1..<snd p - 1 + UsedUnits r} \<subseteq> bits_of (Used h) \<and> snd p - 1 + UsedUnits r \<le> 2048"
    using regions_ok_used [OF regs reg] by (auto simp: cores_def core_def)
qed

lemma release_ok:
  assumes ok: "allocator_ok a pref full" and r: "headers a (header_of p) = Some r" "\<not> IsFreed r" "Header r = Some w"
    and h: "windows a w = Some h" and m: "m < UsedUnits r" and resume: "resume \<le> 2048"
    and used: "length used = 32" "bits_of used = bits_of (Used h) - {snd p - 1 + m..<snd p - 1 + UsedUnits r}"
  shows "allocator_ok (a\<lparr>headers := (headers a)(header_of p \<mapsto> r\<lparr>UsedUnits := m\<rparr>),
      windows := (windows a)(w \<mapsto> h\<lparr>ResumeScanOffset := resume, Used := used, FreeUnitCount := FreeUnitCount h + (UsedUnits r - m)\<rparr>)\<rparr>) pref full"
proof -
  note win = allocator_window [OF ok h] and lw = live_window [OF ok r]
  have hdr: "header_of p = (w, snd p - 1)" "r\<lparr>UsedUnits := m\<rparr> = \<lparr> Header = Some w, UsedUnits = m \<rparr>"
    using lw(1) r(3) by (simp_all add: header_of_def)
  have "regions_ok ((cores a)(w \<mapsto> (used, FreeUnitCount h + (UsedUnits r - m), resume)))
      ((headers a)((w, snd p - 1) \<mapsto> \<lparr> Header = Some w, UsedUnits = m \<rparr>))"
    by (rule regions_ok_release) (use ok win(1) lw(2) m resume used in \<open>simp_all add: allocator_ok_def\<close>)
  moreover have "lists_ok a pref full" using ok by (simp add: allocator_ok_def)
  ultimately show ?thesis unfolding allocator_ok_def hdr cores_upd
    by (intro conjI lists_ok_upd [OF _ h]) (simp_all add: core_def)
qed


lemma Free_ok:
  assumes ok: "allocator_ok a pref full" and p: "live a p = Some n" and small: "length pref + 1 < 2 ^ 30"
  shows "\<exists>a' pref' full'. Free True (Some p) a = Some a' \<and> allocator_ok a' pref' full' \<and> length pref' + length full' = length pref + length full
    \<and> live a' = (live a)(p := None) \<and> contents a' = contents a"
proof -
  obtain r where r: "headers a (header_of p) = Some r" "\<not> IsFreed r" "UsedUnits r = n" "0 < n" "0 < snd p" using live_header [OF p] .
  have regs: "regions_ok (cores a) (headers a)" using ok by (simp add: allocator_ok_def)
  show ?thesis
  proof (cases "Header r")
    case None
    let ?a = "a\<lparr>headers := (headers a)(header_of p := None)\<rparr>"
    have hdr: "header_of p = (fst p, 0)" using regs r(1) None by (fastforce simp: regions_ok_def headers_ok_def header_of_def)
    have "regions_ok (cores a) (headers ?a)"
      unfolding hdr using regions_ok_fallback_free [OF regs _ None, of "fst p"] r(1) hdr by simp
    then have "allocator_ok ?a pref full" using ok by (simp add: allocator_ok_def lists_ok_def)
    moreover have "Free True (Some p) a = Some ?a" using r None by (simp add: Free_def)
    moreover have "live ?a = (live a)(p := None)" using live_upd [OF r(5), of ?a a None] by simp
    ultimately show ?thesis by fastforce
  next
    case (Some w)
    obtain h where h: "windows a w = Some h" "snd p - 1 + UsedUnits r \<le> 2048" using live_window(3) [OF ok r(1,2) Some] by blast
    note win = allocator_window [OF ok h(1)]
    obtain used where used: "ClearRange (snd p - 1) (snd p - 1 + n) (Used h) = Some used" "length used = 32"
      "bits_of used = bits_of (Used h) - {snd p - 1..<snd p - 1 + n}"
      using ClearRange_bits [of "snd p - 1 + n" "Used h" "snd p - 1"] win(2) h(2) r(3) by auto
    define resume where "resume = (if ResumeScanOffset h > snd p - 1 then snd p - 1 else ResumeScanOffset h)"
    let ?h = "h\<lparr>ResumeScanOffset := resume, Used := used, FreeUnitCount := FreeUnitCount h + n\<rparr>"
    let ?a = "a\<lparr>headers := (headers a)(header_of p \<mapsto> r\<lparr>UsedUnits := 0\<rparr>), windows := (windows a)(w \<mapsto> ?h)\<rparr>"
    have ok': "allocator_ok ?a pref full"
      using release_ok [OF ok r(1,2) Some h(1), of 0 resume used] r(3,4) used(2,3) win(3) by (simp add: resume_def)
    have run: "Free True (Some p) a = (if FreeUnitCount ?h \<ge> kPreferredThresholdUnits \<and> FullListIndex ?h \<noteq> kNotInFullList then promote True w ?a else Some ?a)"
      using r Some h(1) used(1) unfolding Free_def Let_def by (simp add: resume_def header_of_def)
    have lv: "live ?a = (live a)(p := None)" using live_upd [OF r(5), of ?a a "Some (r\<lparr>UsedUnits := 0\<rparr>)"] by (simp add: IsFreed_def)
    show ?thesis
    proof (cases "FreeUnitCount ?h \<ge> kPreferredThresholdUnits \<and> FullListIndex ?h \<noteq> kNotInFullList")
      case False
      then show ?thesis using run ok' lv by auto
    next
      case True
      obtain a' full' where a': "promote True w ?a = Some a'" "allocator_ok a' (pref @ [w]) full'" "length full' + 1 = length full"
        "headers a' = headers ?a" "contents a' = contents ?a"
        using promote_ok [OF ok', of w ?h] True small by auto
      have "live a' = live ?a" using a'(4) by (rule live_headers)
      then show ?thesis using run True a' lv by (intro exI [of _ a'] exI [of _ "pref @ [w]"] exI [of _ full']) simp
    qed
  qed
qed

lemma Shrink_ok:
  assumes ok: "allocator_ok a pref full" and p: "live a p = Some n"
  shows "\<exists>a' m. Shrink (Some p) bytes a = Some a' \<and> allocator_ok a' pref full
    \<and> live a' = (live a)(p \<mapsto> m) \<and> (m = n \<or> m = units_for bytes \<and> m < n) \<and> contents a' = contents a"
proof -
  obtain r where r: "headers a (header_of p) = Some r" "\<not> IsFreed r" "UsedUnits r = n" "0 < n" "0 < snd p" using live_header [OF p] .
  show ?thesis
  proof (cases "units_for bytes < n \<and> Header r \<noteq> None")
    case False
    then have "Shrink (Some p) bytes a = Some a" using r by (auto simp: Shrink_def Let_def)
    then show ?thesis using ok p by (intro exI [of _ a] exI [of _ n]) auto
  next
    case True
    then obtain w where w: "Header r = Some w" by blast
    let ?m = "units_for bytes"
    obtain h where h: "windows a w = Some h" "snd p - 1 + UsedUnits r \<le> 2048" using live_window(3) [OF ok r(1,2) w] by blast
    note win = allocator_window [OF ok h(1)]
    obtain used where used: "ClearRange (snd p - 1 + ?m) (snd p - 1 + n) (Used h) = Some used" "length used = 32"
      "bits_of used = bits_of (Used h) - {snd p - 1 + ?m..<snd p - 1 + n}"
      using ClearRange_bits [of "snd p - 1 + n" "Used h" "snd p - 1 + ?m"] win(2) h(2) r(3) by auto
    define resume where "resume = (if ResumeScanOffset h > snd p - 1 + ?m then snd p - 1 + ?m else ResumeScanOffset h)"
    let ?h = "h\<lparr>ResumeScanOffset := resume, Used := used, FreeUnitCount := FreeUnitCount h + (n - ?m)\<rparr>"
    let ?a = "a\<lparr>headers := (headers a)(header_of p \<mapsto> r\<lparr>UsedUnits := ?m\<rparr>), windows := (windows a)(w \<mapsto> ?h)\<rparr>"
    have "allocator_ok ?a pref full"
      using release_ok [OF ok r(1,2) w h(1), of ?m resume used] r(3,4) used(2,3) win(3) True by (simp add: resume_def)
    moreover have "Shrink (Some p) bytes a = Some ?a"
      using r w h(1) used(1) True unfolding Shrink_def Let_def by (simp add: resume_def header_of_def)
    moreover have "live ?a = (live a)(p \<mapsto> ?m)"
      using live_upd [OF r(5), of ?a a "Some (r\<lparr>UsedUnits := ?m\<rparr>)"] by (simp add: IsFreed_def units_for_def)
    ultimately show ?thesis using True by (intro exI [of _ ?a] exI [of _ ?m]) simp
  qed
qed

text \<open>Two live allocations have no unit in common, headers included.\<close>

definition region_of :: "address \<Rightarrow> nat \<Rightarrow> address set" where
  "region_of p n = {(fst p, u) | u. snd p - 1 \<le> u \<and> u < snd p - 1 + n}"

lemma live_disjoint:
  assumes ok: "allocator_ok a pref full" and p: "live a p = Some n" and q: "live a q = Some m" and "p \<noteq> q"
  shows "region_of p n \<inter> region_of q m = {}"
proof (cases "fst p = fst q")
  case True
  obtain r where r: "headers a (header_of p) = Some r" "\<not> IsFreed r" "UsedUnits r = n" "0 < n" "0 < snd p" using live_header [OF p] .
  obtain s where s: "headers a (header_of q) = Some s" "\<not> IsFreed s" "UsedUnits s = m" "0 < m" "0 < snd q" using live_header [OF q] .
  have regs: "regions_ok (cores a) (headers a)" using ok by (simp add: allocator_ok_def)
  then have hd: "headers_ok (\<lambda>w. cores a w \<noteq> None) (headers a)" by (simp add: regions_ok_def)
  have ne: "snd p - 1 \<noteq> snd q - 1" using assms(4) True r(5) s(5) by (auto simp: prod_eq_iff)
  note hp = hd [unfolded headers_ok_def, rule_format, OF r(1) [unfolded header_of_def]]
    and hq = hd [unfolded headers_ok_def, rule_format, OF s(1) [unfolded header_of_def]]
  obtain w where w: "Header r = Some w" "Header s = Some w"
    using hp hq True ne by (auto split: option.splits)
  have "region (headers a) w (snd p - 1) n" "region (headers a) w (snd q - 1) m"
    using live_window(2) [OF ok r(1,2) w(1)] live_window(2) [OF ok s(1,2) w(2)] r(3) s(3) by auto
  then have "snd p - 1 + n \<le> snd q - 1 \<or> snd q - 1 + m \<le> snd p - 1"
    using regs ne unfolding regions_ok_def by (metis linorder_neqE_nat)
  then show ?thesis by (auto simp: region_of_def)
qed (auto simp: region_of_def)


section \<open>Construction\<close>

lemma regions_ok_init:
  assumes "\<And>w k. c w = Some k \<Longrightarrow> case k of (used, free, resume) \<Rightarrow> length used = 32 \<and> resume \<le> 2048 \<and> free = 2048 \<and> bits_of used = {}"
  shows "regions_ok c (\<lambda>_. None)"
proof -
  have units: "region_units (\<lambda>_. None) w = {}" for w by (simp add: region_units_def region_def)
  have "window_ok (\<lambda>_. None) w k" if "c w = Some k" for w k using assms [OF that] by (auto simp: window_ok_def units)
  then show ?thesis by (simp add: regions_ok_def headers_ok_def region_def)
qed

lemma Allocator_init_ok:
  "\<exists>a. Allocator_init True = Some a \<and> allocator_ok a [0, 1] [] \<and> live a = (\<lambda>_. None) \<and> headers a = (\<lambda>_. None)"
proof -
  obtain clear where clear: "bitset_ClearAll (Used empty_window) = Some clear" "length clear = 32" "bits_of clear = {}"
    using ClearAll_bits [of "Used empty_window"] by (auto simp: empty_window_def bitset_words_def kWindowMaxUnits_def kWordBits_def)
  let ?w = "empty_window\<lparr>Used := clear\<rparr>"
  let ?pref = "(LightVector_init 25 :: nat LightVector)\<lparr>vec_Size := 2\<rparr>"
  define pref where "pref = ?pref\<lparr>vec_Data := (replicate 25 None)[0 := Some 0, 1 := Some 1]\<rparr>"
  define a where "a = \<lparr> windows = (\<lambda>_. None)(0 \<mapsto> ?w, 1 \<mapsto> ?w), headers = (\<lambda>_. None), contents = (\<lambda>_. []), HugeChunkStart = True,
               PreferredWindows = pref, FullWindows = LightVector_init 25 \<rparr>"
  have "SetSize_NoCopy True kPreallocatedWindows (LightVector_init 25 :: nat LightVector) = (True, ?pref)"
    by (simp add: SetSize_NoCopy_def kPreallocatedWindows_def vec_Allocated_def LightVector_init_def)
  then have run: "Allocator_init True = Some a"
    using clear(1) by (simp add: Allocator_init_def for_range_def kPreallocatedWindows_def numeral_2_eq_2 vec_Put_def LightVector_init_def a_def pref_def)
  have "vec_list pref [0, 1]" by (auto simp: vec_list_def pref_def LightVector_init_def vec_Allocated_def nth_Cons split: nat.splits)
  moreover have "25 \<le> vec_Allocated pref" by (simp add: pref_def vec_Allocated_def)
  ultimately have "lists_ok a [0, 1] []"
    by (auto simp: lists_ok_def a_def vec_list_def LightVector_init_def empty_window_def split: if_splits)
  moreover have "regions_ok (cores a) (\<lambda>_. None)"
    by (rule regions_ok_init) (auto simp: cores_def core_def a_def empty_window_def kWindowMaxUnits_def clear split: if_splits)
  ultimately have "allocator_ok a [0, 1] []" by (simp add: allocator_ok_def a_def)
  moreover have "live a = (\<lambda>_. None)" "headers a = (\<lambda>_. None)" by (auto simp: live_def a_def)
  ultimately show ?thesis using run by blast
qed

section \<open>The allocator as its clients see it\<close>

datatype alloc_op =
    OpAllocate "nat option" nat
  | OpReallocate "nat option" "address option" nat Realloc
  | OpShrink "address option" nat
  | OpFree "address option"

definition alloc_exec :: "alloc_op \<Rightarrow> Allocator \<Rightarrow> (address option \<times> Allocator) option" where
  "alloc_exec oper a = (case oper of
     OpAllocate calloc bytes \<Rightarrow> Allocate calloc True bytes a
   | OpReallocate calloc ptr bytes behavior \<Rightarrow> Reallocate calloc True True ptr bytes behavior a
   | OpShrink ptr bytes \<Rightarrow> do { a \<leftarrow> Shrink ptr bytes a; Some (None, a) }
   | OpFree ptr \<Rightarrow> do { a \<leftarrow> Free True ptr a; Some (None, a) })"

text \<open>The calls a client may make: null or live pointers, sizes for which the number of units does not wrap; the system
  gives blocks that are not in use.\<close>

definition alloc_legal :: "alloc_op \<Rightarrow> Allocator \<Rightarrow> bool" where
  "alloc_legal oper a = (let
     size = (\<lambda>n. n \<le> 2 ^ 32 - 32);
     block = (\<lambda>c. case c of None \<Rightarrow> True | Some b \<Rightarrow> fresh_block b a);
     pointer = (\<lambda>q. case q of None \<Rightarrow> True | Some p \<Rightarrow> live a p \<noteq> None)
   in case oper of
     OpAllocate calloc bytes \<Rightarrow> size bytes \<and> block calloc
   | OpReallocate calloc ptr bytes behavior \<Rightarrow> size bytes \<and> block calloc \<and> pointer ptr
   | OpShrink ptr bytes \<Rightarrow> pointer ptr
   | OpFree ptr \<Rightarrow> pointer ptr)"

text \<open>What each call does to the map of live allocations.\<close>

type_synonym live_map = "address \<Rightarrow> nat option"

definition allocate_spec :: "nat option \<Rightarrow> nat \<Rightarrow> live_map \<Rightarrow> address option \<Rightarrow> live_map \<Rightarrow> bool" where
  "allocate_spec calloc bytes L p L' = (case p of
     None \<Rightarrow> (bytes = 0 \<or> calloc = None) \<and> L' = L
   | Some q \<Rightarrow> 0 < bytes \<and> 0 < snd q \<and> L q = None \<and> L' = L(q \<mapsto> units_for bytes))"

definition alloc_spec :: "alloc_op \<Rightarrow> live_map \<Rightarrow> address option \<Rightarrow> live_map \<Rightarrow> bool" where
  "alloc_spec oper L p L' = (case oper of
     OpAllocate calloc bytes \<Rightarrow> allocate_spec calloc bytes L p L'
   | OpReallocate calloc None bytes behavior \<Rightarrow> allocate_spec calloc bytes L p L'
   | OpReallocate calloc (Some q) bytes behavior \<Rightarrow>
       (if bytes = 0 then p = None \<and> L' = L(q := None)
        else if units_for bytes \<le> the (L q) then p = Some q \<and> L' = L
        else case p of None \<Rightarrow> calloc = None \<and> L' = L
             | Some q' \<Rightarrow> 0 < snd q' \<and> L q' = None \<and> L' = L(q' \<mapsto> units_for bytes, q := None))
   | OpShrink None bytes \<Rightarrow> p = None \<and> L' = L
   | OpShrink (Some q) bytes \<Rightarrow> p = None \<and> (\<exists>m. L' = L(q \<mapsto> m) \<and> (m = the (L q) \<or> m = units_for bytes \<and> m < the (L q)))
   | OpFree None \<Rightarrow> p = None \<and> L' = L
   | OpFree (Some q) \<Rightarrow> p = None \<and> L' = L(q := None))"

text \<open>What each call does to the contents: only the new region of a reallocation is written.\<close>

definition data_spec :: "alloc_op \<Rightarrow> Allocator \<Rightarrow> address option \<Rightarrow> Allocator \<Rightarrow> bool" where
  "data_spec oper a p a' = (case (oper, p) of
     (OpReallocate calloc (Some q) bytes behavior, Some q') \<Rightarrow>
        (\<forall>x. x \<notin> region_of q' (units_for bytes) \<longrightarrow> contents a' x = contents a x)
        \<and> (behavior = CopyExisting \<longrightarrow> (\<forall>i < the (live a q) - 1. contents a' (fst q', snd q' + i) = contents a (fst q, snd q + i)))
   | _ \<Rightarrow> contents a' = contents a)"


lemma Allocate_client:
  assumes ok: "allocator_ok a pref full" and small: "length pref + length full < 2 ^ 30" and bytes: "bytes \<le> 2 ^ 32 - 32"
    and fresh: "\<And>b. calloc = Some b \<Longrightarrow> fresh_block b a"
  shows "\<exists>p a' pref' full'. Allocate calloc True bytes a = Some (p, a') \<and> allocator_ok a' pref' full'
    \<and> length pref' + length full' \<le> length pref + length full + 1
    \<and> allocate_spec calloc bytes (live a) p (live a') \<and> contents a' = contents a"
proof (cases "bytes = 0")
  case True
  then show ?thesis using ok by (intro exI [of _ None] exI [of _ a] exI [of _ pref] exI [of _ full]) (simp add: Allocate_def allocate_spec_def)
next
  case False
  then obtain p a' where r: "Allocate calloc True bytes a = Some (p, a')" "allocation_ok (units_for bytes) (length pref + length full + 1) a (p, a')"
      "p = None \<longrightarrow> calloc = None"
    using Allocate_ok [of a pref full bytes calloc, OF ok small _ bytes fresh] by auto
  then obtain pref' full' where ok': "allocator_ok a' pref' full'" "length pref' + length full' \<le> length pref + length full + 1" "contents a' = contents a"
    by (auto simp: allocation_ok_def)
  have "allocate_spec calloc bytes (live a) p (live a')"
  proof (cases p)
    case None
    then have "live a' = live a" using r(2) by (intro live_headers) (simp add: allocation_ok_def)
    then show ?thesis using None r(3) by (simp add: allocate_spec_def)
  next
    case (Some q)
    then obtain h where q: "0 < snd q" "UsedUnits h = units_for bytes" "headers a' = (headers a)(header_of q := Some h)"
      "\<And>r. headers a (header_of q) = Some r \<Longrightarrow> IsFreed r"
      using r(2) by (auto simp: allocation_ok_def)
    have "live a q = None" using q(4) by (auto simp: live_def split: option.splits)
    moreover have "\<not> IsFreed h" using q(2) by (simp add: IsFreed_def units_for_def)
    ultimately show ?thesis using live_upd [OF q(1,3)] q(1,2) Some False by (simp add: allocate_spec_def)
  qed
  then show ?thesis using r(1) ok' by blast
qed

lemma allocator_ok_contents: "allocator_ok (a\<lparr>contents := m\<rparr>) pref full = allocator_ok a pref full"
  by (simp add: allocator_ok_def lists_ok_def)

lemma Reallocate_move:
  assumes ok: "allocator_ok a pref full" and small: "length pref + length full + 2 < 2 ^ 30" and bytes: "0 < bytes" "bytes \<le> 2 ^ 32 - 32"
    and fresh: "\<And>b. calloc = Some b \<Longrightarrow> fresh_block b a" and q: "live a q = Some n" "n < units_for bytes"
  shows "\<exists>p a' pref' full'. Reallocate calloc True True (Some q) bytes behavior a = Some (p, a') \<and> allocator_ok a' pref' full'
    \<and> length pref' + length full' \<le> length pref + length full + 1
    \<and> alloc_spec (OpReallocate calloc (Some q) bytes behavior) (live a) p (live a')
    \<and> data_spec (OpReallocate calloc (Some q) bytes behavior) a p a'"
proof -
  obtain r where r: "headers a (header_of q) = Some r" "UsedUnits r = n" using live_header [OF q(1)] by metis
  have less: "length pref + length full < 2 ^ 30" using small by simp
  obtain p b pref1 full1 where b: "Allocate calloc True bytes a = Some (p, b)" "allocator_ok b pref1 full1"
    "length pref1 + length full1 \<le> length pref + length full + 1" "allocate_spec calloc bytes (live a) p (live b)" "contents b = contents a"
    using Allocate_client [OF ok less bytes(2) fresh] by blast
  show ?thesis
  proof (cases p)
    case None
    then have "Reallocate calloc True True (Some q) bytes behavior a = Some (None, b)"
      using b(1) r q(2) bytes(1) by (simp add: Reallocate_def Let_def)
    then show ?thesis using b None q bytes(1) by (auto simp: allocate_spec_def alloc_spec_def data_spec_def)
  next
    case (Some q')
    then have spec: "0 < snd q'" "live a q' = None" "live b = (live a)(q' \<mapsto> units_for bytes)" using b(4) by (simp_all add: allocate_spec_def)
    have ne: "q \<noteq> q'" using spec(2) q(1) by auto
    let ?c = "if behavior = CopyExisting then copy_units q' q (n - 1) b else b"
    have ok': "allocator_ok ?c pref1 full1" "live ?c = live b"
      using b(2) by (auto simp: copy_units_def allocator_ok_contents intro!: live_headers)
    have live_q: "live ?c q = Some n" using ok'(2) spec(3) ne q(1) by simp
    obtain a' pref' full' where a': "Free True (Some q) ?c = Some a'" "allocator_ok a' pref' full'" "length pref' + length full' = length pref1 + length full1"
      "live a' = (live ?c)(q := None)" "contents a' = contents ?c"
      using Free_ok [OF ok'(1) live_q] small b(3) by auto
    have run: "Reallocate calloc True True (Some q) bytes behavior a = Some (Some q', a')"
      using b(1) r q(2) bytes(1) Some a'(1) by (cases behavior) (simp_all add: Reallocate_def Let_def)
    have "alloc_spec (OpReallocate calloc (Some q) bytes behavior) (live a) p (live a')"
      using a'(4) ok'(2) spec Some q bytes(1) by (simp add: alloc_spec_def)
    moreover have "data_spec (OpReallocate calloc (Some q) bytes behavior) a p a'"
      using a'(5) b(5) Some q spec(1) by (auto simp: data_spec_def copy_units_def region_of_def)
    ultimately show ?thesis using run a'(2,3) b(3) Some
      by (intro exI [of _ p] exI [of _ a'] exI [of _ pref'] exI [of _ full']) simp
  qed
qed

lemma allocator_ok_same:
  "allocator_ok a pref full \<Longrightarrow> \<exists>pref' full'. allocator_ok a pref' full' \<and> length pref' + length full' \<le> Suc (length pref + length full)"
  by (rule exI [of _ pref], rule exI [of _ full]) simp

lemma alloc_exec_ok:
  assumes ok: "allocator_ok a pref full" and small: "length pref + length full + 2 < 2 ^ 30" and legal: "alloc_legal oper a"
  shows "\<exists>p a' pref' full'. alloc_exec oper a = Some (p, a') \<and> allocator_ok a' pref' full'
    \<and> length pref' + length full' \<le> length pref + length full + 1
    \<and> alloc_spec oper (live a) p (live a') \<and> data_spec oper a p a'"
proof (cases oper)
  case (OpAllocate calloc bytes)
  then have sizes: "bytes \<le> 2 ^ 32 - 32" "\<And>b. calloc = Some b \<Longrightarrow> fresh_block b a" using legal by (auto simp: alloc_legal_def)
  show ?thesis using Allocate_client [OF ok _ sizes] small OpAllocate
    by (simp add: alloc_exec_def alloc_spec_def data_spec_def)
next
  case (OpReallocate calloc ptr bytes behavior)
  have sizes: "bytes \<le> 2 ^ 32 - 32" "\<And>b. calloc = Some b \<Longrightarrow> fresh_block b a" using legal OpReallocate by (auto simp: alloc_legal_def)
  show ?thesis
  proof (cases ptr)
    case None
    then show ?thesis using Allocate_client [OF ok _ sizes] small OpReallocate
      by (simp add: alloc_exec_def alloc_spec_def data_spec_def Reallocate_def)
  next
    case (Some q)
    then obtain n where n: "live a q = Some n" using legal OpReallocate by (auto simp: alloc_legal_def)
    obtain r where r: "headers a (header_of q) = Some r" "UsedUnits r = n" using live_header [OF n] by metis
    consider "bytes = 0" | "0 < bytes" "units_for bytes \<le> n" | "0 < bytes" "n < units_for bytes" by linarith
    then show ?thesis
    proof cases
      case 1
      then show ?thesis using Free_ok [OF ok n] small OpReallocate Some
        by (fastforce simp: alloc_exec_def alloc_spec_def data_spec_def Reallocate_def)
    next
      case 2
      then have "alloc_exec oper a = Some (Some q, a)" using OpReallocate Some r by (simp add: alloc_exec_def Reallocate_def)
      then show ?thesis using ok 2 n OpReallocate Some
        by (intro exI [of _ "Some q"] exI [of _ a] exI [of _ pref] exI [of _ full]) (simp add: alloc_spec_def data_spec_def)
    next
      case 3
      then show ?thesis using Reallocate_move [OF ok small 3(1) sizes n] OpReallocate Some by (simp add: alloc_exec_def)
    qed
  qed
next
  case (OpShrink ptr bytes)
  show ?thesis
  proof (cases ptr)
    case None
    then show ?thesis using allocator_ok_same [OF ok] OpShrink by (auto simp: alloc_exec_def alloc_spec_def data_spec_def Shrink_def)
  next
    case (Some q)
    then obtain n where n: "live a q = Some n" using legal OpShrink by (auto simp: alloc_legal_def)
    show ?thesis using Shrink_ok [OF ok n, of bytes] n OpShrink Some
      by (fastforce simp: alloc_exec_def alloc_spec_def data_spec_def)
  qed
next
  case (OpFree ptr)
  show ?thesis
  proof (cases ptr)
    case None
    then show ?thesis using allocator_ok_same [OF ok] OpFree by (auto simp: alloc_exec_def alloc_spec_def data_spec_def Free_def)
  next
    case (Some q)
    then obtain n where n: "live a q = Some n" using legal OpFree by (auto simp: alloc_legal_def)
    show ?thesis using Free_ok [OF ok n] small OpFree Some
      by (fastforce simp: alloc_exec_def alloc_spec_def data_spec_def)
  qed
qed

inductive alloc_reach :: "nat \<Rightarrow> Allocator \<Rightarrow> bool" where
  alloc_start: "Allocator_init True = Some a \<Longrightarrow> alloc_reach 0 a"
| alloc_step: "alloc_reach k a \<Longrightarrow> alloc_legal oper a \<Longrightarrow> alloc_exec oper a = Some (p, a') \<Longrightarrow> alloc_reach (Suc k) a'"

lemma alloc_reach_ok:
  assumes "alloc_reach k a" and "k + 4 < 2 ^ 30"
  shows "\<exists>pref full. allocator_ok a pref full \<and> length pref + length full \<le> k + 2"
  using assms
proof (induction rule: alloc_reach.induct)
  case (alloc_start a)
  then show ?case using Allocator_init_ok by force
next
  case (alloc_step k a oper p a')
  then obtain pref full where ok: "allocator_ok a pref full" "length pref + length full \<le> k + 2" by auto
  then have "length pref + length full + 2 < 2 ^ 30" using alloc_step.prems by simp
  from alloc_exec_ok [OF ok(1) this alloc_step.hyps(2)]
  obtain pref' full' where "allocator_ok a' pref' full'" "length pref' + length full' \<le> length pref + length full + 1"
    using alloc_step.hyps(3) by auto
  then show ?case using ok(2) by (intro exI [of _ pref'] exI [of _ full']) simp
qed




text \<open>\<open>SIMDSafeFree\<close> finds the start of the block, and the pointer in between is aligned.\<close>

lemma SIMDSafe_roundtrip:
  "case SIMDSafeAllocate addr of (ptr, stored) \<Rightarrow> SIMDSafeFree ptr stored = Some addr \<and> ptr mod kAlignmentBytes = 0 \<and> addr < ptr"
proof -
  define offset where "offset = addr mod 32"
  have lt: "offset < 32" by (simp add: offset_def)
  have "unat (of_nat offset :: u8) = offset" using lt by (simp add: unat_of_nat)
  moreover have "(addr + (32 - offset)) mod 32 = 0" unfolding offset_def by presburger
  ultimately show ?thesis using lt unfolding SIMDSafeAllocate_def SIMDSafeFree_def Let_def kAlignmentBytes_def offset_def [symmetric] by simp
qed

text \<open>The largest sizes wrap: the region that is returned has room for no data at all.\<close>

lemma units_for_wraps: "units_for (2 ^ 32 - 1) = 1"
  by (simp add: units_for_def kUnitSize_def kAlignmentBytes_def)


section \<open>Statistics, integrity check and destruction\<close>

text \<open>A loop over a list of windows is a fold over the list.\<close>

lemma for_windows:
  assumes "vec_list v ws" and "\<And>w. w \<in> set ws \<Longrightarrow> windows a w \<noteq> None"
  shows "for_range 0 (vec_Size v) (\<lambda>i acc. do { w \<leftarrow> vec_Get i v; h \<leftarrow> windows a w; Some (f w h acc) }) acc
    = Some (fold (\<lambda>w. f w (the (windows a w))) ws acc)"
proof -
  let ?step = "\<lambda>i acc. do { w \<leftarrow> vec_Get i v; h \<leftarrow> windows a w; Some (f w h acc) }"
  have "\<exists>r. for_range 0 (vec_Size v) ?step acc = Some r \<and> r = fold (\<lambda>w. f w (the (windows a w))) (take (vec_Size v) ws) acc"
  proof (rule for_range_rule [where P = "\<lambda>i r. r = fold (\<lambda>w. f w (the (windows a w))) (take i ws) acc"])
    fix i r
    assume i: "i < vec_Size v" and r: "r = fold (\<lambda>w. f w (the (windows a w))) (take i ws) acc"
    have less: "i < length ws" using i assms(1) by (simp add: vec_list_def)
    then obtain h where h: "windows a (ws ! i) = Some h" using assms(2) [of "ws ! i"] by auto
    then show "\<exists>r'. ?step i r = Some r' \<and> r' = fold (\<lambda>w. f w (the (windows a w))) (take (Suc i) ws) acc"
      using r less vec_Get_list [OF assms(1) less] by (simp add: take_Suc_conv_app_nth)
  qed simp_all
  then show ?thesis using assms(1) by (simp add: vec_list_def)
qed

lemma allocator_lists:
  assumes "allocator_ok a pref full"
  shows "vec_list (PreferredWindows a) pref" "vec_list (FullWindows a) full" "distinct (pref @ full)"
    "dom (windows a) = set (pref @ full)" "\<And>w. w \<in> set pref \<Longrightarrow> windows a w \<noteq> None" "\<And>w. w \<in> set full \<Longrightarrow> windows a w \<noteq> None"
  using assms by (auto simp: allocator_ok_def lists_ok_def)

lemma Allocator_destroy_frees:
  assumes ok: "allocator_ok a pref full"
  shows "\<exists>ws. Allocator_destroy a = Some ws \<and> distinct ws \<and> set ws = {w. \<exists>h. windows a w = Some h \<and> \<not> Preallocated h}"
proof -
  note l = allocator_lists [OF ok]
  have fold: "fold (\<lambda>w acc. if P w then acc else acc @ [w]) ws acc = acc @ filter (\<lambda>w. \<not> P w) ws" for P and ws acc :: "nat list"
    by (induction ws arbitrary: acc) simp_all
  have "Allocator_destroy a = Some (filter (\<lambda>w. \<not> Preallocated (the (windows a w))) (pref @ full))"
    unfolding Allocator_destroy_def free_windows_def using l by (simp add: for_windows fold)
  moreover have "set (filter (\<lambda>w. \<not> Preallocated (the (windows a w))) (pref @ full)) = {w. \<exists>h. windows a w = Some h \<and> \<not> Preallocated h}"
  proof (rule set_eqI)
    fix w
    show "w \<in> set (filter (\<lambda>w. \<not> Preallocated (the (windows a w))) (pref @ full)) \<longleftrightarrow> w \<in> {w. \<exists>h. windows a w = Some h \<and> \<not> Preallocated h}"
      unfolding set_filter l(4) [symmetric] by auto
  qed
  ultimately show ?thesis using l(3) by (intro exI [of _ "filter (\<lambda>w. \<not> Preallocated (the (windows a w))) (pref @ full)"]) auto
qed

lemma no_other_eq:
  assumes "vec_list v ws"
  shows "no_other w i v = Some (\<forall>j<length ws. \<not> (w = ws ! j \<and> i \<noteq> Some j))"
proof -
  have "no_other w i v = Some (\<forall>j\<in>set [0..<vec_Size v]. \<not> (w = ws ! j \<and> i \<noteq> Some j))"
    unfolding no_other_def using assms vec_Get_list [OF assms] by (intro check_all_eq) (auto simp: vec_list_def)
  then show ?thesis using assms by (auto simp: vec_list_def)
qed

lemma check_counts_eq:
  assumes "allocator_ok a pref full" and "windows a w = Some h"
  shows "check_counts h = Some True"
proof -
  note win = allocator_window [OF assms]
  have "bits_of (Used h) \<inter> {0..<2048} = bits_of (Used h)" using bits_of_bound(1) [of "Used h"] win(2) by auto
  then have "RangePopcount 0 2048 (Used h) = Some (card (bits_of (Used h)))" using RangePopcount_card [of 2048 "Used h" 0] win(2) by simp
  then show ?thesis using win by (simp add: check_counts_def kWindowMaxUnits_def)
qed

text \<open>On the states that the operations keep, the integrity check only looks for preferred windows without free units and
  for the preallocated windows.\<close>

lemma IntegrityCheck_eq:
  assumes ok: "allocator_ok a pref full"
  shows "IntegrityCheck a = Some ((\<forall>w\<in>set pref. 0 < FreeUnitCount (the (windows a w)))
    \<and> length (filter (\<lambda>w. Preallocated (the (windows a w))) (pref @ full)) = kPreallocatedWindows)"
proof -
  note l = allocator_lists [OF ok]
  have lo: "lists_ok a pref full" using ok by (simp add: allocator_ok_def)
  have sizes: "vec_Size (PreferredWindows a) = length pref" "vec_Size (FullWindows a) = length full" using l(1,2) by (simp_all add: vec_list_def)
  have pref: "check_preferred a i = Some (0 < FreeUnitCount (the (windows a (pref ! i))))" if i: "i < length pref" for i
  proof -
    obtain h where h: "windows a (pref ! i) = Some h" using l(5) [OF nth_mem [OF i]] by blast
    then have "FullListIndex h = kNotInFullList" using lo i by (simp add: lists_ok_def)
    moreover have "FreeUnitCount h \<le> 2048" using allocator_window(4) [OF ok h] by simp
    moreover have "\<forall>j<length pref. \<not> (pref ! i = pref ! j \<and> Some i \<noteq> Some j)"
      using l(3) i by (auto simp: nth_eq_iff_index_eq)
    ultimately show ?thesis using h vec_Get_list [OF l(1) i] no_other_eq [OF l(1)] check_counts_eq [OF ok h]
      by (simp add: check_preferred_def kWindowMaxUnits_def)
  qed
  have full: "check_full a i = Some True" if i: "i < length full" for i
  proof -
    obtain h where h: "windows a (full ! i) = Some h" using l(6) [OF nth_mem [OF i]] by blast
    then have "FullListIndex h = int i" using lo i by (simp add: lists_ok_def)
    moreover have "\<forall>j<length pref. \<not> (full ! i = pref ! j \<and> None \<noteq> Some j)" using l(3) i by (metis disjoint_iff distinct_append nth_mem)
    moreover have "\<forall>j<length full. \<not> (full ! i = full ! j \<and> Some i \<noteq> Some j)"
      using l(3) i by (auto simp: nth_eq_iff_index_eq)
    ultimately show ?thesis using h vec_Get_list [OF l(2) i] no_other_eq [OF l(1)] no_other_eq [OF l(2)] check_counts_eq [OF ok h]
      by (simp add: check_full_def)
  qed
  have "check_all (check_preferred a) [0..<length pref] = Some (\<forall>i\<in>set [0..<length pref]. 0 < FreeUnitCount (the (windows a (pref ! i))))"
    by (rule check_all_eq) (simp add: pref)
  moreover have "check_all (check_full a) [0..<length full] = Some True" by (rule check_all_True) (simp add: full)
  moreover have fold: "fold (\<lambda>w acc. if P w then acc + 1 else acc) ws acc = acc + length (filter P ws)" for P ws and acc :: nat
    by (induction ws arbitrary: acc) simp_all
  moreover have "count_preallocated a (PreferredWindows a) 0 = Some (length (filter (\<lambda>w. Preallocated (the (windows a w))) pref))"
    unfolding count_preallocated_def by (subst for_windows [OF l(1,5)]) (simp_all only: fold add_0)
  moreover have "count_preallocated a (FullWindows a) n = Some (n + length (filter (\<lambda>w. Preallocated (the (windows a w))) full))" for n
    unfolding count_preallocated_def by (subst for_windows [OF l(2,6)]) (simp_all only: fold)
  ultimately show ?thesis by (auto simp: IntegrityCheck_def sizes all_set_conv_all_nth)
qed

end
