(* ===== verification/Siamese_Encoder.thy ===== *)
theory Siamese_Encoder
  imports Siamese_Common Field_Codecs Gf256_Mem Packet_Allocator
begin

text \<open>
  The FEC encoder of \<open>SiameseEncoder.cpp\<close>: the sliding window of original packets with its running
  sums per lane, the acknowledgements and retransmissions, and the three kinds of recovery packets.

  Allocations are numbered.  The parameter \<open>mem\<close> gives, for the number of a request, nothing when
  memory has run out, or the contents of the new block before anything is written.  The initialised finite field
  library is the parameter \<open>gf\<close>.  The time is an argument of the operations that read it.  A result \<open>None\<close> is an access
  outside of a buffer or through a null pointer.
\<close>

unbundle bit_operations_syntax

section \<open>Constants\<close>

definition SIAMESE_MAX_PACKETS :: nat where "SIAMESE_MAX_PACKETS = 16000"
definition kSubwindowSize :: nat where "kSubwindowSize = unat kColumnLaneCount * 8"
definition kEncoderRemoveThreshold :: nat where "kEncoderRemoveThreshold = 2 * kSubwindowSize"
definition kPairAddRate :: nat where "kPairAddRate = 16"
definition kRowPeriod :: nat where "kRowPeriod = unat kRowValuePeriod"
definition SIAMESE_CAUCHY_THRESHOLD :: nat where "SIAMESE_CAUCHY_THRESHOLD = 64"
definition SIAMESE_SUM_RESET_THRESHOLD :: nat where "SIAMESE_SUM_RESET_THRESHOLD = 32"
definition kCauchyMaxColumns :: nat where "kCauchyMaxColumns = SIAMESE_CAUCHY_THRESHOLD"
definition kCauchyMaxRows :: nat where "kCauchyMaxRows = 256 - kCauchyMaxColumns"
definition kMaxRecoveryMetadataBytes :: nat where "kMaxRecoveryMetadataBytes = 8"
definition kMaxPacketLengthFieldBytes :: nat where "kMaxPacketLengthFieldBytes = 4"
definition kPaddingBytes :: nat where "kPaddingBytes = 8"
definition kInitialRetransmitTimeoutMsec :: u32 where "kInitialRetransmitTimeoutMsec = 500"

definition lanes :: nat where "lanes = unat kColumnLaneCount"

definition CauchyElement :: "gf256_state \<Rightarrow> nat \<Rightarrow> nat \<Rightarrow> u8 option" where
  "CauchyElement gf row column =
     (let y_j = of_nat column; x_i = of_nat (row + kCauchyMaxColumns)
      in gf256_inv (lib_ctx gf) (x_i XOR y_j))"

section \<open>Buffers\<close>

type_synonym memory = "nat \<Rightarrow> (nat \<Rightarrow> u8) option"

record GrowingAlignedDataBuffer =
  Data :: "bytes option"
  Bytes :: nat

definition null_buffer :: GrowingAlignedDataBuffer where
  "null_buffer = \<lparr> Data = None, Bytes = 0 \<rparr>"

text \<open>\<open>Reallocate\<close> of the packet allocator, in both modes: the caller may use the bytes it asked for.\<close>

definition realloc_copy :: "(nat \<Rightarrow> u8) \<Rightarrow> bytes option \<Rightarrow> nat \<Rightarrow> bytes" where
  "realloc_copy g d bytes = (let old = (case d of None \<Rightarrow> [] | Some x \<Rightarrow> x)
     in map (\<lambda>i. if i < length old then old ! i else g i) [0..<bytes])"

definition realloc_uninitialized :: "(nat \<Rightarrow> u8) \<Rightarrow> nat \<Rightarrow> bytes" where
  "realloc_uninitialized g bytes = map g [0..<bytes]"

definition memset0 :: "bytes \<Rightarrow> nat \<Rightarrow> nat \<Rightarrow> bytes option" where
  "memset0 d off n = (if off + n \<le> length d then Some (overwrite d off (replicate n 0)) else None)"

definition GrowZeroPadded :: "(nat \<Rightarrow> u8) option \<Rightarrow> nat \<Rightarrow> GrowingAlignedDataBuffer \<Rightarrow> (bool \<times> GrowingAlignedDataBuffer) option" where
  "GrowZeroPadded block bytes b =
     (if Data b = None \<or> bytes > Bytes b then
        (case block of
           None \<Rightarrow> Some (False, \<lparr> Data = None, Bytes = 0 \<rparr>)
         | Some g \<Rightarrow> do {
             d \<leftarrow> memset0 (realloc_copy g (Data b) bytes) (Bytes b) (bytes - Bytes b);
             Some (True, \<lparr> Data = Some d, Bytes = bytes \<rparr>) })
      else Some (True, b))"

definition buf_Initialize :: "(nat \<Rightarrow> u8) option \<Rightarrow> nat \<Rightarrow> bool \<times> GrowingAlignedDataBuffer" where
  "buf_Initialize block bytes =
     (case block of
        None \<Rightarrow> (False, \<lparr> Data = None, Bytes = 0 \<rparr>)
      | Some g \<Rightarrow> (True, \<lparr> Data = Some (realloc_uninitialized g bytes), Bytes = bytes \<rparr>))"

section \<open>Original packets\<close>

record OriginalPacket =
  Buffer :: GrowingAlignedDataBuffer
  Column :: u32
  HeaderBytes :: nat

record SiameseOriginalPacket =
  PacketNum :: u32
  PacketData :: bytes

definition memcpy_at :: "bytes \<Rightarrow> nat \<Rightarrow> bytes \<Rightarrow> bytes option" where
  "memcpy_at d off s = (if off + length s \<le> length d then Some (overwrite d off s) else None)"

text \<open>\<open>DataBytes\<close> is the length of the data.\<close>

definition Original_Initialize :: "(nat \<Rightarrow> u8) option \<Rightarrow> SiameseOriginalPacket \<Rightarrow> OriginalPacket \<Rightarrow> (nat \<times> OriginalPacket) option" where
  "Original_Initialize block packet orig = do {
     let bufferSize = kMaxPacketLengthFieldBytes + length (PacketData packet);
     let (ok, b) = buf_Initialize block bufferSize;
     (if \<not> ok then Some (0, orig\<lparr>Buffer := b\<rparr>)
      else do {
        d \<leftarrow> Data b;
        (d, n) \<leftarrow> SerializeHeader_PacketLength (of_nat (length (PacketData packet))) d 0;
        d \<leftarrow> memcpy_at d n (PacketData packet);
        Some (n, \<lparr> Buffer = \<lparr> Data = Some d, Bytes = n + length (PacketData packet) \<rparr>, Column = PacketNum packet, HeaderBytes = n \<rparr>) }) }"

section \<open>The window\<close>

record EncoderColumnLane =
  NextElement :: "nat list"
  Sum :: "GrowingAlignedDataBuffer list"
  laneLongestPacket :: nat

record EncoderSubwindow =
  Originals :: "OriginalPacket list"
  LastSendMsec :: "u32 list"

record EncoderPacketWindow =
  NextColumn :: u32
  Count :: nat
  winColumnStart :: u32
  LongestPacket :: nat
  FirstUnremovedElement :: nat
  SumStartElement :: nat
  SumEndElement :: nat
  SumColumnStart :: u32
  SumErasedCount :: nat
  Subwindows :: "EncoderSubwindow list"
  Lanes :: "EncoderColumnLane list"
  EmergencyDisabled :: bool
  Requests :: nat
  Stats :: "u64 list"

definition SiameseEncoderStats_OriginalCount :: nat where "SiameseEncoderStats_OriginalCount = 0"
definition SiameseEncoderStats_OriginalBytes :: nat where "SiameseEncoderStats_OriginalBytes = 1"
definition SiameseEncoderStats_RecoveryCount :: nat where "SiameseEncoderStats_RecoveryCount = 2"
definition SiameseEncoderStats_RecoveryBytes :: nat where "SiameseEncoderStats_RecoveryBytes = 3"
definition SiameseEncoderStats_RetransmitCount :: nat where "SiameseEncoderStats_RetransmitCount = 4"
definition SiameseEncoderStats_RetransmitBytes :: nat where "SiameseEncoderStats_RetransmitBytes = 5"
definition SiameseEncoderStats_AckCount :: nat where "SiameseEncoderStats_AckCount = 6"
definition SiameseEncoderStats_AckBytes :: nat where "SiameseEncoderStats_AckBytes = 7"
definition SiameseEncoderStats_MemoryUsed :: nat where "SiameseEncoderStats_MemoryUsed = 8"
definition SiameseEncoderStats_Count :: nat where "SiameseEncoderStats_Count = 9"

definition count_stat :: "nat \<Rightarrow> nat \<Rightarrow> EncoderPacketWindow \<Rightarrow> EncoderPacketWindow" where
  "count_stat i n w = w\<lparr>Stats := (Stats w)[i := Stats w ! i + of_nat n]\<rparr>"

definition empty_original :: OriginalPacket where
  "empty_original = \<lparr> Buffer = null_buffer, Column = 0, HeaderBytes = 0 \<rparr>"

definition new_subwindow :: EncoderSubwindow where
  "new_subwindow = \<lparr> Originals = replicate kSubwindowSize empty_original, LastSendMsec = replicate kSubwindowSize 0 \<rparr>"

text \<open>The constructor, with \<open>ClearWindow\<close>.\<close>

definition ClearWindow :: "EncoderPacketWindow \<Rightarrow> EncoderPacketWindow" where
  "ClearWindow w = w\<lparr>FirstUnremovedElement := 0, Count := 0, LongestPacket := 0, SumStartElement := 0, SumEndElement := 0,
     Lanes := map (\<lambda>laneIndex. (Lanes w ! laneIndex)\<lparr>
       NextElement := replicate kColumnSumCount laneIndex,
       Sum := map (\<lambda>s. s\<lparr>Bytes := 0\<rparr>) (Sum (Lanes w ! laneIndex)),
       laneLongestPacket := 0\<rparr>) [0..<lanes]\<rparr>"

definition EncoderPacketWindow_init :: EncoderPacketWindow where
  "EncoderPacketWindow_init = ClearWindow
     \<lparr> NextColumn = 0, Count = 0, winColumnStart = 0, LongestPacket = 0, FirstUnremovedElement = 0, SumStartElement = 0,
       SumEndElement = 0, SumColumnStart = 0, SumErasedCount = 0, Subwindows = [],
       Lanes = replicate lanes \<lparr> NextElement = replicate kColumnSumCount 0, Sum = replicate kColumnSumCount null_buffer, laneLongestPacket = 0 \<rparr>,
       EmergencyDisabled = False, Requests = 0, Stats = replicate SiameseEncoderStats_Count 0 \<rparr>"

definition ColumnToElement :: "EncoderPacketWindow \<Rightarrow> u32 \<Rightarrow> nat" where
  "ColumnToElement w column = unat (SubtractColumns column (winColumnStart w))"

definition InvalidElement :: "EncoderPacketWindow \<Rightarrow> nat \<Rightarrow> bool" where
  "InvalidElement w element \<longleftrightarrow> element \<ge> Count w"

definition ElementToColumn :: "EncoderPacketWindow \<Rightarrow> nat \<Rightarrow> u32" where
  "ElementToColumn w element = AddColumns (of_nat element) (winColumnStart w)"

definition GetWindowElement :: "EncoderPacketWindow \<Rightarrow> nat \<Rightarrow> OriginalPacket option" where
  "GetWindowElement w windowElement = do {
     s \<leftarrow> tab_get (Subwindows w) (windowElement div kSubwindowSize);
     tab_get (Originals s) (windowElement mod kSubwindowSize) }"

definition PutWindowElement :: "nat \<Rightarrow> OriginalPacket \<Rightarrow> EncoderPacketWindow \<Rightarrow> EncoderPacketWindow option" where
  "PutWindowElement windowElement orig w = do {
     s \<leftarrow> tab_get (Subwindows w) (windowElement div kSubwindowSize);
     os \<leftarrow> tab_set (Originals s) (windowElement mod kSubwindowSize) orig;
     ss \<leftarrow> tab_set (Subwindows w) (windowElement div kSubwindowSize) (s\<lparr>Originals := os\<rparr>);
     Some (w\<lparr>Subwindows := ss\<rparr>) }"

definition GetWindowElementTimestamp :: "EncoderPacketWindow \<Rightarrow> nat \<Rightarrow> u32 option" where
  "GetWindowElementTimestamp w windowElement = do {
     s \<leftarrow> tab_get (Subwindows w) (windowElement div kSubwindowSize);
     tab_get (LastSendMsec s) (windowElement mod kSubwindowSize) }"

definition PutWindowElementTimestamp :: "nat \<Rightarrow> u32 \<Rightarrow> EncoderPacketWindow \<Rightarrow> EncoderPacketWindow option" where
  "PutWindowElementTimestamp windowElement msec w = do {
     s \<leftarrow> tab_get (Subwindows w) (windowElement div kSubwindowSize);
     ts \<leftarrow> tab_set (LastSendMsec s) (windowElement mod kSubwindowSize) msec;
     ss \<leftarrow> tab_set (Subwindows w) (windowElement div kSubwindowSize) (s\<lparr>LastSendMsec := ts\<rparr>);
     Some (w\<lparr>Subwindows := ss\<rparr>) }"

definition GetRemainingSlots :: "EncoderPacketWindow \<Rightarrow> nat" where
  "GetRemainingSlots w = (SIAMESE_MAX_PACKETS + 2 ^ 32 - Count w) mod 2 ^ 32"

definition GetUnacknowledgedCount :: "EncoderPacketWindow \<Rightarrow> nat" where
  "GetUnacknowledgedCount w = (Count w + 2 ^ 32 - FirstUnremovedElement w) mod 2 ^ 32"

definition GetNextLaneElement :: "nat \<Rightarrow> nat \<Rightarrow> nat" where
  "GetNextLaneElement element laneIndex =
     (let nextElement = element - element mod lanes + laneIndex
      in if nextElement < element then nextElement + lanes else nextElement)"

text \<open>The next allocation.\<close>

definition next_block :: "memory \<Rightarrow> EncoderPacketWindow \<Rightarrow> (nat \<Rightarrow> u8) option \<times> EncoderPacketWindow" where
  "next_block mem w = (mem (Requests w), w\<lparr>Requests := Requests w + 1\<rparr>)"

definition StartNewWindow :: "u32 \<Rightarrow> EncoderPacketWindow \<Rightarrow> EncoderPacketWindow" where
  "StartNewWindow column w =
     (let element = unat (column mod kColumnLaneCount)
      in w\<lparr>winColumnStart := column - of_nat element, SumStartElement := element, SumEndElement := element,
           FirstUnremovedElement := element, Count := element + 1, LongestPacket := 0,
           Lanes := map (laneLongestPacket_update (\<lambda>_. 0)) (Lanes w)\<rparr>)"

text \<open>A subwindow is constructed and appended to the list; both can run out of memory.\<close>

definition grow_subwindows :: "memory \<Rightarrow> EncoderPacketWindow \<Rightarrow> bool \<times> EncoderPacketWindow" where
  "grow_subwindows mem w =
     (let (block, w) = next_block mem w
      in if block = None then (False, w\<lparr>EmergencyDisabled := True\<rparr>)
         else let (block, w) = next_block mem w
              in if block = None then (False, w\<lparr>EmergencyDisabled := True\<rparr>)
                 else (True, w\<lparr>Subwindows := Subwindows w @ [new_subwindow]\<rparr>))"

definition update_longest :: "nat \<Rightarrow> nat \<Rightarrow> EncoderPacketWindow \<Rightarrow> EncoderPacketWindow option" where
  "update_longest laneIndex originalBytes w = do {
     lane \<leftarrow> tab_get (Lanes w) laneIndex;
     let lane = (if laneLongestPacket lane < originalBytes then lane\<lparr>laneLongestPacket := originalBytes\<rparr> else lane);
     ls \<leftarrow> tab_set (Lanes w) laneIndex lane;
     Some (w\<lparr>Lanes := ls, LongestPacket := (if LongestPacket w < originalBytes then originalBytes else LongestPacket w)\<rparr>) }"

definition Window_Add :: "memory \<Rightarrow> u64 \<Rightarrow> bytes \<Rightarrow> EncoderPacketWindow \<Rightarrow> (SiameseResult \<times> u32 \<times> EncoderPacketWindow) option" where
  "Window_Add mem now data w =
     (if EmergencyDisabled w then Some (Siamese_Disabled, 0, w)
      else if GetRemainingSlots w \<le> 0 then Some (Siamese_MaxPacketsReached, 0, w)
      else do {
        let column = NextColumn w;
        let subwindowCount = length (Subwindows w);
        let element = Count w;
        let (ok, w) = (if element + lanes \<ge> subwindowCount * kSubwindowSize then grow_subwindows mem w else (True, w));
        (if \<not> ok then Some (Siamese_Disabled, column, w)
         else do {
           let (element, w) = (if Count w > 0 then (element, w\<lparr>Count := Count w + 1\<rparr>)
                               else (unat (column mod kColumnLaneCount), StartNewWindow column w));
           orig \<leftarrow> GetWindowElement w element;
           let (block, w) = next_block mem w;
           (n, orig) \<leftarrow> Original_Initialize block \<lparr> PacketNum = column, PacketData = data \<rparr> orig;
           w \<leftarrow> PutWindowElement element orig w;
           (if n = 0 then Some (Siamese_Disabled, column, w\<lparr>EmergencyDisabled := True\<rparr>)
            else do {
              w \<leftarrow> PutWindowElementTimestamp element (ucast now) w;
              let w = w\<lparr>NextColumn := IncrementColumn1 (NextColumn w)\<rparr>;
              w \<leftarrow> update_longest (unat (column mod kColumnLaneCount)) (Bytes (Buffer orig)) w;
              let w = count_stat SiameseEncoderStats_OriginalCount 1 w;
              let w = count_stat SiameseEncoderStats_OriginalBytes (length data) w;
              Some (Siamese_Success, column, w) }) }) })"

definition RemoveBefore :: "u32 \<Rightarrow> EncoderPacketWindow \<Rightarrow> EncoderPacketWindow" where
  "RemoveBefore firstKeptColumn w =
     (if EmergencyDisabled w then w
      else let firstKeptElement = ColumnToElement w firstKeptColumn
           in if InvalidElement w firstKeptElement then
                (if IsColumnDeltaNegative (of_nat firstKeptElement) then w else w\<lparr>Count := 0\<rparr>)
              else if FirstUnremovedElement w < firstKeptElement then w\<lparr>FirstUnremovedElement := firstKeptElement\<rparr>
              else w)"

definition ResetSums :: "nat \<Rightarrow> EncoderPacketWindow \<Rightarrow> EncoderPacketWindow" where
  "ResetSums elementStart w = w\<lparr>
     Lanes := map (\<lambda>laneIndex. (Lanes w ! laneIndex)\<lparr>
       NextElement := replicate kColumnSumCount (GetNextLaneElement elementStart laneIndex),
       Sum := map (\<lambda>s. s\<lparr>Bytes := 0\<rparr>) (Sum (Lanes w ! laneIndex))\<rparr>) [0..<lanes],
     SumStartElement := elementStart, SumEndElement := elementStart,
     SumColumnStart := ElementToColumn w elementStart, SumErasedCount := 0\<rparr>"

section \<open>Running sums\<close>

text \<open>The sum of the data, of the data times the column value, or times its square.\<close>

definition accumulate :: "gf256_state \<Rightarrow> nat \<Rightarrow> OriginalPacket \<Rightarrow> nat \<Rightarrow> bytes \<Rightarrow> bytes option" where
  "accumulate gf sumIndex orig addBytes d = do {
     x \<leftarrow> Data (Buffer orig);
     (if sumIndex = 0 then gf256_add_mem (lib_arch gf) d x addBytes
      else do {
        let CX = GetColumnValue (Column orig);
        CX \<leftarrow> (if sumIndex = 2 then gf256_sqr (lib_ctx gf) CX else Some CX);
        gf256_muladd_mem (lib_arch gf) (lib_ctx gf) d CX x addBytes }) }"

text \<open>The loop over the elements of a lane; the last component is the next element, or nothing when memory
  has run out.\<close>

function sum_loop :: "memory \<Rightarrow> gf256_state \<Rightarrow> nat \<Rightarrow> nat \<Rightarrow> nat \<Rightarrow> GrowingAlignedDataBuffer \<Rightarrow> EncoderPacketWindow
    \<Rightarrow> (nat option \<times> GrowingAlignedDataBuffer \<times> EncoderPacketWindow) option" where
  "sum_loop mem gf sumIndex elementEnd element sm w = do {
     orig \<leftarrow> GetWindowElement w element;
     let addBytes = Bytes (Buffer orig);
     let (block, w) = next_block mem w;
     (ok, sm) \<leftarrow> GrowZeroPadded block addBytes sm;
     (if \<not> ok then Some (None, sm, w\<lparr>EmergencyDisabled := True\<rparr>)
      else do {
        d \<leftarrow> Data sm;
        d \<leftarrow> accumulate gf sumIndex orig addBytes d;
        let sm = sm\<lparr>Data := Some d\<rparr>;
        let element' = element + lanes;
        (if element' < elementEnd then sum_loop mem gf sumIndex elementEnd element' sm w
         else Some (Some element', sm, w)) }) }"
  by pat_completeness auto
termination by (relation "measure (\<lambda>(mem, gf, sumIndex, elementEnd, element, sm, w). elementEnd - element)") (auto simp: lanes_def kColumnLaneCount_def)

declare sum_loop.simps [simp del]

definition put_sum :: "nat \<Rightarrow> nat \<Rightarrow> GrowingAlignedDataBuffer \<Rightarrow> EncoderPacketWindow \<Rightarrow> EncoderPacketWindow" where
  "put_sum laneIndex sumIndex sm w = (let lane = Lanes w ! laneIndex
     in w\<lparr>Lanes := (Lanes w)[laneIndex := lane\<lparr>Sum := (Sum lane)[sumIndex := sm]\<rparr>]\<rparr>)"

definition put_next :: "nat \<Rightarrow> nat \<Rightarrow> nat \<Rightarrow> EncoderPacketWindow \<Rightarrow> EncoderPacketWindow" where
  "put_next laneIndex sumIndex element w = (let lane = Lanes w ! laneIndex
     in w\<lparr>Lanes := (Lanes w)[laneIndex := lane\<lparr>NextElement := (NextElement lane)[sumIndex := element]\<rparr>]\<rparr>)"

definition GetSum :: "memory \<Rightarrow> gf256_state \<Rightarrow> nat \<Rightarrow> nat \<Rightarrow> nat \<Rightarrow> EncoderPacketWindow \<Rightarrow> (GrowingAlignedDataBuffer \<times> EncoderPacketWindow) option" where
  "GetSum mem gf laneIndex sumIndex elementEnd w = do {
     lane \<leftarrow> tab_get (Lanes w) laneIndex;
     element \<leftarrow> tab_get (NextElement lane) sumIndex;
     sm \<leftarrow> tab_get (Sum lane) sumIndex;
     (if element < elementEnd then do {
        (ok, sm, w) \<leftarrow> (if laneLongestPacket lane > 0 then do {
            let (block, w) = next_block mem w;
            (ok, sm) \<leftarrow> GrowZeroPadded block (laneLongestPacket lane) sm;
            Some (ok, sm, w) }
          else Some (True, sm, w));
        (if \<not> ok then Some (sm, put_sum laneIndex sumIndex sm (w\<lparr>EmergencyDisabled := True\<rparr>))
         else do {
           (next, sm, w) \<leftarrow> sum_loop mem gf sumIndex elementEnd element sm w;
           let w = put_sum laneIndex sumIndex sm w;
           Some (sm, case next of None \<Rightarrow> w | Some e \<Rightarrow> put_next laneIndex sumIndex e w) }) }
      else Some (sm, w)) }"

section \<open>Removal of acknowledged packets\<close>

text \<open>Rolling the sums past the removal point.  The subtraction wraps, which matters only after memory ran out.\<close>

definition roll_sum :: "memory \<Rightarrow> gf256_state \<Rightarrow> nat \<Rightarrow> nat \<Rightarrow> nat \<Rightarrow> EncoderPacketWindow \<Rightarrow> EncoderPacketWindow option" where
  "roll_sum mem gf removedElementCount laneIndex sumIndex w = do {
     (_, w) \<leftarrow> GetSum mem gf laneIndex sumIndex removedElementCount w;
     let element = NextElement (Lanes w ! laneIndex) ! sumIndex;
     Some (put_next laneIndex sumIndex ((element + 2 ^ 32 - removedElementCount) mod 2 ^ 32) w) }"

definition roll_sums :: "memory \<Rightarrow> gf256_state \<Rightarrow> nat \<Rightarrow> EncoderPacketWindow \<Rightarrow> EncoderPacketWindow option" where
  "roll_sums mem gf removedElementCount w = do {
     w \<leftarrow> for_range 0 lanes (\<lambda>laneIndex. for_range 0 kColumnSumCount (roll_sum mem gf removedElementCount laneIndex)) w;
     let w = (if removedElementCount > SumStartElement w then w\<lparr>SumErasedCount := SumErasedCount w + (removedElementCount - SumStartElement w)\<rparr> else w);
     let w = w\<lparr>SumEndElement := (if SumEndElement w > removedElementCount then SumEndElement w - removedElementCount else 0)\<rparr>;
     Some (w\<lparr>SumStartElement := (if SumStartElement w > removedElementCount then SumStartElement w - removedElementCount else 0)\<rparr>) }"

text \<open>The longest packets of the window and of each lane.\<close>

definition longest_step :: "EncoderPacketWindow \<Rightarrow> nat \<Rightarrow> nat \<times> nat list \<Rightarrow> (nat \<times> nat list) option" where
  "longest_step w i = (\<lambda>(longestPacket, laneLongest). do {
     orig \<leftarrow> GetWindowElement w i;
     let originalBytes = Bytes (Buffer orig);
     let laneIndex = i mod lanes;
     Some (if longestPacket < originalBytes then originalBytes else longestPacket,
           if laneLongest ! laneIndex < originalBytes then laneLongest[laneIndex := originalBytes] else laneLongest) })"

definition find_longest :: "EncoderPacketWindow \<Rightarrow> EncoderPacketWindow option" where
  "find_longest w = do {
     (longestPacket, laneLongest) \<leftarrow> for_range (FirstUnremovedElement w) (Count w) (longest_step w) (0, replicate lanes 0);
     Some (w\<lparr>LongestPacket := longestPacket,
             Lanes := map (\<lambda>laneIndex. (Lanes w ! laneIndex)\<lparr>laneLongestPacket := laneLongest ! laneIndex\<rparr>) [0..<lanes]\<rparr>) }"

definition RemoveElements :: "memory \<Rightarrow> gf256_state \<Rightarrow> EncoderPacketWindow \<Rightarrow> EncoderPacketWindow option" where
  "RemoveElements mem gf w = do {
     let firstKeptSubwindow = FirstUnremovedElement w div kSubwindowSize;
     let removedElementCount = firstKeptSubwindow * kSubwindowSize;
     w \<leftarrow> (if SumEndElement w > SumStartElement w then roll_sums mem gf removedElementCount w else Some w);
     let (block, w) = next_block mem w;
     (if block = None then Some (w\<lparr>EmergencyDisabled := True\<rparr>)
      else if length (Subwindows w) < firstKeptSubwindow then None
      else do {
        let w = w\<lparr>Subwindows := drop firstKeptSubwindow (Subwindows w) @ take firstKeptSubwindow (Subwindows w)\<rparr>;
        let w = w\<lparr>Count := Count w - removedElementCount\<rparr>;
        let w = w\<lparr>winColumnStart := ElementToColumn w removedElementCount\<rparr>;
        let w = w\<lparr>FirstUnremovedElement := FirstUnremovedElement w - removedElementCount\<rparr>;
        w \<leftarrow> find_longest w;
        Some (if SumEndElement w \<le> SumStartElement w then ResetSums (FirstUnremovedElement w) w else w) }) }"

section \<open>The encoder\<close>

record EncoderAcknowledgementState =
  ackData :: "bytes option"
  DataBytes :: nat
  Offset :: nat
  LossColumn :: u32
  LossCount :: u32
  NextColumnExpected :: u32
  NextRTOColumn :: u32
  FoundOldest :: bool
  OldestColumn :: u32
  RetransmitTimeoutMsec :: u32
  MaxWindowedRTT :: "u32 WindowedMinMax"

record Encoder =
  Window :: EncoderPacketWindow
  Ack :: EncoderAcknowledgementState
  RecoveryPacket :: GrowingAlignedDataBuffer
  NextRow :: nat
  NextParityColumn :: u32
  NextCauchyRow :: nat

definition EncoderAcknowledgementState_init :: EncoderAcknowledgementState where
  "EncoderAcknowledgementState_init = \<lparr> ackData = None, DataBytes = 0, Offset = 0, LossColumn = 0, LossCount = 0, NextColumnExpected = 0,
     NextRTOColumn = 0, FoundOldest = False, OldestColumn = 0, RetransmitTimeoutMsec = kInitialRetransmitTimeoutMsec,
     MaxWindowedRTT = Reset \<lparr> Value = 0, Timestamp = 0 \<rparr> \<rparr>"

definition Encoder_init :: Encoder where
  "Encoder_init = \<lparr> Window = EncoderPacketWindow_init, Ack = EncoderAcknowledgementState_init, RecoveryPacket = null_buffer,
     NextRow = 0, NextParityColumn = 0, NextCauchyRow = 0 \<rparr>"

definition Encoder_Add :: "memory \<Rightarrow> u64 \<Rightarrow> bytes \<Rightarrow> Encoder \<Rightarrow> (SiameseResult \<times> u32 \<times> Encoder) option" where
  "Encoder_Add mem now data e = do {
     (r, column, w) \<leftarrow> Window_Add mem now data (Window e);
     Some (r, column, e\<lparr>Window := w\<rparr>) }"

section \<open>Recovery packets\<close>

text \<open>One sum into one of the two work areas, at most the bytes of the recovery packet.\<close>

definition add_sum :: "memory \<Rightarrow> gf256_state \<Rightarrow> nat \<Rightarrow> nat \<Rightarrow> nat \<Rightarrow> bytes \<times> EncoderPacketWindow \<Rightarrow> (bytes \<times> EncoderPacketWindow) option" where
  "add_sum mem gf recoveryBytes laneIndex sumIndex = (\<lambda>(d, w). do {
     (sm, w) \<leftarrow> GetSum mem gf laneIndex sumIndex (Count w) w;
     (if Bytes sm > 0 then do {
        x \<leftarrow> Data sm;
        d \<leftarrow> gf256_add_mem (lib_arch gf) d x (if Bytes sm > recoveryBytes then recoveryBytes else Bytes sm);
        Some (d, w) }
      else Some (d, w)) })"

definition dense_lane :: "memory \<Rightarrow> gf256_state \<Rightarrow> nat \<Rightarrow> nat \<Rightarrow> nat \<Rightarrow> bytes \<times> bytes \<times> EncoderPacketWindow \<Rightarrow> (bytes \<times> bytes \<times> EncoderPacketWindow) option" where
  "dense_lane mem gf recoveryBytes row laneIndex = (\<lambda>(recovery, product, w). do {
     let opcode = GetRowOpcode (of_nat laneIndex) (of_nat row);
     (recovery, w) \<leftarrow> for_range 0 kColumnSumCount (\<lambda>sumIndex s.
        if opcode AND push_bit sumIndex 1 \<noteq> 0 then add_sum mem gf recoveryBytes laneIndex sumIndex s else Some s) (recovery, w);
     (product, w) \<leftarrow> for_range 0 kColumnSumCount (\<lambda>sumIndex s.
        if opcode AND push_bit (kColumnSumCount + sumIndex) 1 \<noteq> 0 then add_sum mem gf recoveryBytes laneIndex sumIndex s else Some s) (product, w);
     Some (recovery, product, w) })"

definition AddDenseColumns :: "memory \<Rightarrow> gf256_state \<Rightarrow> nat \<Rightarrow> bytes \<times> bytes \<times> EncoderPacketWindow \<Rightarrow> (bytes \<times> bytes \<times> EncoderPacketWindow) option" where
  "AddDenseColumns mem gf row = (\<lambda>(recovery, product, w). do {
     (recovery, product, w) \<leftarrow> for_range 0 lanes (dense_lane mem gf (LongestPacket w) row) (recovery, product, w);
     Some (recovery, product, w\<lparr>SumEndElement := Count w\<rparr>) })"

definition light_pair :: "gf256_state \<Rightarrow> EncoderPacketWindow \<Rightarrow> nat \<Rightarrow> nat \<Rightarrow> nat \<Rightarrow> bytes \<times> bytes \<times> PCGRandom \<Rightarrow> (bytes \<times> bytes \<times> PCGRandom) option" where
  "light_pair gf w startElement count i = (\<lambda>(recovery, product, prng). do {
     let (r1, prng) = Next prng;
     let element1 = startElement + unat (r1 mod of_nat count);
     original1 \<leftarrow> GetWindowElement w element1;
     let (rx, prng) = Next prng;
     let elementRX = startElement + unat (rx mod of_nat count);
     originalRX \<leftarrow> GetWindowElement w elementRX;
     d1 \<leftarrow> Data (Buffer original1);
     recovery \<leftarrow> gf256_add_mem (lib_arch gf) recovery d1 (Bytes (Buffer original1));
     dx \<leftarrow> Data (Buffer originalRX);
     product \<leftarrow> gf256_add_mem (lib_arch gf) product dx (Bytes (Buffer originalRX));
     Some (recovery, product, prng) })"

definition AddLightColumns :: "gf256_state \<Rightarrow> nat \<Rightarrow> bytes \<times> bytes \<times> EncoderPacketWindow \<Rightarrow> (bytes \<times> bytes) option" where
  "AddLightColumns gf row = (\<lambda>(recovery, product, w). do {
     let startElement = FirstUnremovedElement w;
     let count = SumEndElement w - startElement;
     let prng = Seed (of_nat row) (of_nat count);
     let pairCount = (count + kPairAddRate - 1) div kPairAddRate;
     (recovery, product, _) \<leftarrow> for_range 0 pairCount (light_pair gf w startElement count) (recovery, product, prng);
     Some (recovery, product) })"

text \<open>The results of \<open>Encode\<close>: the result code, the recovery packet with its footer, and the new state.\<close>

definition recovery_done :: "bytes \<Rightarrow> nat \<Rightarrow> Encoder \<Rightarrow> SiameseResult \<times> bytes \<times> Encoder" where
  "recovery_done d bytes e = (Siamese_Success, take bytes d,
     e\<lparr>Window := count_stat SiameseEncoderStats_RecoveryBytes bytes (count_stat SiameseEncoderStats_RecoveryCount 1 (Window e))\<rparr>)"

definition GenerateSinglePacket :: "memory \<Rightarrow> Encoder \<Rightarrow> (SiameseResult \<times> bytes \<times> Encoder) option" where
  "GenerateSinglePacket mem e = do {
     let w = Window e;
     orig \<leftarrow> GetWindowElement w (FirstUnremovedElement w);
     let originalBytes = Bytes (Buffer orig);
     let (block, w) = next_block mem w;
     (ok, b) \<leftarrow> GrowZeroPadded block (originalBytes + kMaxRecoveryMetadataBytes) (Buffer orig);
     (if \<not> ok then do {
        w \<leftarrow> PutWindowElement (FirstUnremovedElement w) (orig\<lparr>Buffer := b\<rparr>) w;
        Some (Siamese_Disabled, [], e\<lparr>Window := w\<lparr>EmergencyDisabled := True\<rparr>\<rparr>) }
      else do {
        let metadata = \<lparr> Row = 0, ColumnStart = Column orig, SumCount = 1, LDPCCount = 1 \<rparr>;
        d \<leftarrow> Data b;
        (d, footerBytes) \<leftarrow> SerializeFooter_RecoveryMetadata metadata d originalBytes;
        w \<leftarrow> PutWindowElement (FirstUnremovedElement w) (orig\<lparr>Buffer := \<lparr> Data = Some d, Bytes = originalBytes \<rparr>\<rparr>) w;
        Some (recovery_done d (originalBytes + footerBytes) (e\<lparr>Window := w\<rparr>)) }) }"

text \<open>The parity and Cauchy rows: the first column is copied, the others are added.\<close>

definition copy_first :: "gf256_state \<Rightarrow> u8 option \<Rightarrow> bytes \<Rightarrow> nat \<Rightarrow> nat \<Rightarrow> bytes \<Rightarrow> bytes option" where
  "copy_first gf y x originalBytes recoveryBytes d = do {
     d \<leftarrow> (case y of None \<Rightarrow> memcpy_at d 0 (take originalBytes x)
          | Some y \<Rightarrow> gf256_mul_mem (lib_arch gf) (lib_ctx gf) d x y originalBytes);
     memset0 d originalBytes (recoveryBytes - originalBytes) }"

definition parity_step :: "gf256_state \<Rightarrow> EncoderPacketWindow \<Rightarrow> nat \<Rightarrow> bytes \<times> nat \<Rightarrow> (bytes \<times> nat) option" where
  "parity_step gf w element = (\<lambda>(d, usedBytes). do {
     orig \<leftarrow> GetWindowElement w element;
     x \<leftarrow> Data (Buffer orig);
     d \<leftarrow> gf256_add_mem (lib_arch gf) d x (Bytes (Buffer orig));
     Some (d, if usedBytes < Bytes (Buffer orig) then Bytes (Buffer orig) else usedBytes) })"

definition cauchy_step :: "gf256_state \<Rightarrow> EncoderPacketWindow \<Rightarrow> nat \<Rightarrow> nat \<Rightarrow> bytes \<times> nat \<times> nat \<Rightarrow> (bytes \<times> nat \<times> nat) option" where
  "cauchy_step gf w cauchyRow element = (\<lambda>(d, usedBytes, cauchyColumn). do {
     let cauchyColumn = (cauchyColumn + 1) mod kCauchyMaxColumns;
     orig \<leftarrow> GetWindowElement w element;
     y \<leftarrow> CauchyElement gf cauchyRow cauchyColumn;
     x \<leftarrow> Data (Buffer orig);
     d \<leftarrow> gf256_muladd_mem (lib_arch gf) (lib_ctx gf) d y x (Bytes (Buffer orig));
     Some (d, if usedBytes < Bytes (Buffer orig) then Bytes (Buffer orig) else usedBytes, cauchyColumn) })"

definition GenerateCauchyPacket :: "memory \<Rightarrow> gf256_state \<Rightarrow> Encoder \<Rightarrow> (SiameseResult \<times> bytes \<times> Encoder) option" where
  "GenerateCauchyPacket mem gf e = do {
     let w = Window e;
     let firstElement = FirstUnremovedElement w;
     let recoveryBytes = LongestPacket w;
     let (block, w) = next_block mem w;
     let (ok, b) = buf_Initialize block (recoveryBytes + kMaxRecoveryMetadataBytes);
     let e = e\<lparr>Window := w, RecoveryPacket := b\<rparr>;
     (if \<not> ok then Some (Siamese_Disabled, [], e\<lparr>Window := w\<lparr>EmergencyDisabled := True\<rparr>\<rparr>)
      else do {
        d \<leftarrow> Data b;
        let unacknowledgedCount = GetUnacknowledgedCount w;
        let columnStart = ElementToColumn w firstElement;
        orig \<leftarrow> GetWindowElement w firstElement;
        x \<leftarrow> Data (Buffer orig);
        let originalBytes = Bytes (Buffer orig);
        let nextParityElement = ColumnToElement w (NextParityColumn e);
        (row, d, usedBytes, e) \<leftarrow>
          (if nextParityElement \<le> firstElement \<or> IsColumnDeltaNegative (of_nat nextParityElement) then do {
             let e = e\<lparr>NextParityColumn := AddColumns columnStart (of_nat unacknowledgedCount)\<rparr>;
             d \<leftarrow> copy_first gf None x originalBytes recoveryBytes d;
             (d, usedBytes) \<leftarrow> for_range (firstElement + 1) (Count w) (parity_step gf w) (d, originalBytes);
             Some (0, d, usedBytes, e) }
           else do {
             let cauchyRow = NextCauchyRow e;
             let e = e\<lparr>NextCauchyRow := (if cauchyRow + 1 \<ge> kCauchyMaxRows then 0 else cauchyRow + 1)\<rparr>;
             let cauchyColumn = unat columnStart mod kCauchyMaxColumns;
             y \<leftarrow> CauchyElement gf cauchyRow cauchyColumn;
             d \<leftarrow> copy_first gf (Some y) x originalBytes recoveryBytes d;
             (d, usedBytes, _) \<leftarrow> for_range (firstElement + 1) (Count w) (cauchy_step gf w cauchyRow) (d, originalBytes, cauchyColumn);
             Some (of_nat (cauchyRow + 1), d, usedBytes, e) });
        let metadata = \<lparr> Row = row, ColumnStart = columnStart, SumCount = of_nat unacknowledgedCount, LDPCCount = of_nat unacknowledgedCount \<rparr>;
        (d, footerBytes) \<leftarrow> SerializeFooter_RecoveryMetadata metadata d usedBytes;
        Some (recovery_done d (usedBytes + footerBytes) (e\<lparr>RecoveryPacket := b\<lparr>Data := Some d\<rparr>\<rparr>)) }) }"

definition GenerateSiamesePacket :: "memory \<Rightarrow> gf256_state \<Rightarrow> nat \<Rightarrow> Encoder \<Rightarrow> (SiameseResult \<times> bytes \<times> Encoder) option" where
  "GenerateSiamesePacket mem gf unacknowledgedCount e = do {
     let row = NextRow e;
     let e = e\<lparr>NextRow := (if row + 1 \<ge> kRowPeriod then 0 else row + 1)\<rparr>;
     let w = Window e;
     let recoveryBytes = LongestPacket w;
     let alignedBytes = NextAlignedOffset recoveryBytes;
     let (block, w) = next_block mem w;
     let (ok, b) = buf_Initialize block (2 * alignedBytes + kMaxRecoveryMetadataBytes);
     let e = e\<lparr>Window := w, RecoveryPacket := b\<rparr>;
     (if \<not> ok then Some (Siamese_Disabled, [], e\<lparr>Window := w\<lparr>EmergencyDisabled := True\<rparr>\<rparr>)
      else do {
        d \<leftarrow> Data b;
        d \<leftarrow> memset0 d 0 (alignedBytes * 2);
        (recovery, product, w) \<leftarrow> AddDenseColumns mem gf row (take alignedBytes d, slice d alignedBytes alignedBytes, w);
        (recovery, product) \<leftarrow> AddLightColumns gf row (recovery, product, w);
        let RX = GetRowValue (of_nat row);
        recovery \<leftarrow> gf256_muladd_mem (lib_arch gf) (lib_ctx gf) recovery RX product recoveryBytes;
        let metadata = \<lparr> Row = of_nat row, ColumnStart = SumColumnStart w,
             SumCount = of_nat (SumEndElement w - SumStartElement w + SumErasedCount w), LDPCCount = of_nat unacknowledgedCount \<rparr>;
        let d = recovery @ product @ drop (2 * alignedBytes) d;
        (d, footerBytes) \<leftarrow> SerializeFooter_RecoveryMetadata metadata d recoveryBytes;
        Some (recovery_done d (recoveryBytes + footerBytes) (e\<lparr>Window := w, RecoveryPacket := b\<lparr>Data := Some d\<rparr>\<rparr>)) }) }"

definition Encode :: "memory \<Rightarrow> gf256_state \<Rightarrow> Encoder \<Rightarrow> (SiameseResult \<times> bytes \<times> Encoder) option" where
  "Encode mem gf e =
     (if EmergencyDisabled (Window e) then Some (Siamese_Disabled, [], e)
      else if Count (Window e) \<le> 0 then Some (Siamese_NeedMoreData, [], e)
      else do {
        w \<leftarrow> (if FirstUnremovedElement (Window e) \<ge> kEncoderRemoveThreshold then RemoveElements mem gf (Window e) else Some (Window e));
        let e = e\<lparr>Window := w\<rparr>;
        let unacknowledgedCount = GetUnacknowledgedCount w;
        (if unacknowledgedCount = 1 then GenerateSinglePacket mem e
         else
           let newSumCountUB = (Count w + 2 ^ 32 - SumStartElement w + SumErasedCount w) mod 2 ^ 32
           in if SumEndElement w \<le> SumStartElement w \<or> newSumCountUB \<ge> SIAMESE_MAX_PACKETS then
                (if unacknowledgedCount \<le> SIAMESE_CAUCHY_THRESHOLD then GenerateCauchyPacket mem gf e
                 else GenerateSiamesePacket mem gf unacknowledgedCount (e\<lparr>Window := ResetSums (FirstUnremovedElement w) w\<rparr>))
              else if unacknowledgedCount \<le> SIAMESE_SUM_RESET_THRESHOLD \<or> newSumCountUB \<le> SIAMESE_CAUCHY_THRESHOLD then
                GenerateCauchyPacket mem gf (e\<lparr>Window := w\<lparr>SumEndElement := SumStartElement w\<rparr>\<rparr>)
              else GenerateSiamesePacket mem gf unacknowledgedCount e) })"

end
