(* ===== verification/Encoder_Algebra.thy ===== *)
theory Encoder_Algebra
  imports Siamese_Encoder
begin

text \<open>
  Sums in the field with 256 elements, and the buffers of the encoder as polynomials: a buffer stands for the function
  from byte positions to bytes that is zero behind its end.  The laws of finite sums are stated once in a locale and interpreted for
  exclusive or and the multiplication of the field.
\<close>

unbundle bit_operations_syntax

section \<open>Finite sums\<close>

locale weighted_sums =
  fixes add :: "'a \<Rightarrow> 'a \<Rightarrow> 'a" and zero :: 'a and mul :: "'a \<Rightarrow> 'a \<Rightarrow> 'a"
  assumes add_assoc: "add (add a b) c = add a (add b c)"
    and add_commute: "add a b = add b a"
    and add_zero: "add zero a = a"
    and mul_add: "mul (add a b) c = add (mul a c) (mul b c)"
    and mul_zero: "mul zero c = zero"
begin

lemma sum_append: "foldr (\<lambda>i. add (f i)) (xs @ ys) zero = add (foldr (\<lambda>i. add (f i)) xs zero) (foldr (\<lambda>i. add (f i)) ys zero)"
  by (induction xs) (simp_all add: add_zero add_assoc)

lemma sum_add: "foldr (\<lambda>i. add (add (f i) (g i))) xs zero = add (foldr (\<lambda>i. add (f i)) xs zero) (foldr (\<lambda>i. add (g i)) xs zero)"
proof (induction xs)
  case (Cons x xs)
  have "add (add a b) (add c d) = add (add a c) (add b d)" for a b c d
    by (metis add_assoc add_commute)
  then show ?case using Cons by simp
qed (simp add: add_zero)

lemma sum_mul: "mul (foldr (\<lambda>i. add (f i)) xs zero) c = foldr (\<lambda>i. add (mul (f i) c)) xs zero"
  by (induction xs) (simp_all add: mul_add mul_zero)

lemma sum_zero: "(\<And>i. i \<in> set xs \<Longrightarrow> f i = zero) \<Longrightarrow> foldr (\<lambda>i. add (f i)) xs zero = zero"
  by (induction xs) (simp_all add: add_zero)

lemma sum_cong: "(\<And>i. i \<in> set xs \<Longrightarrow> f i = g i) \<Longrightarrow> foldr (\<lambda>i. add (f i)) xs zero = foldr (\<lambda>i. add (g i)) xs zero"
  by (induction xs) simp_all

lemma sum_filter: "foldr (\<lambda>i. add (f i)) (filter P xs) zero = foldr (\<lambda>i. add (if P i then f i else zero)) xs zero"
  by (induction xs) (simp_all add: add_zero)

lemma sum_swap: "foldr (\<lambda>i. add (foldr (\<lambda>j. add (f i j)) ys zero)) xs zero = foldr (\<lambda>j. add (foldr (\<lambda>i. add (f i j)) xs zero)) ys zero"
proof (induction xs)
  case Nil
  then show ?case by (simp add: sum_zero)
next
  case (Cons x xs)
  then show ?case by (simp add: sum_add)
qed

lemma sum_single: "distinct xs \<Longrightarrow> a \<in> set xs \<Longrightarrow> foldr (\<lambda>i. add (if i = a then f i else zero)) xs zero = f a"
proof (induction xs)
  case (Cons x xs)
  show ?case
  proof (cases "x = a")
    case True
    then have "foldr (\<lambda>i. add (if i = a then f i else zero)) xs zero = zero" using Cons.prems by (intro sum_zero) auto
    then show ?thesis using True by (simp add: add_commute [of _ zero] add_zero)
  next
    case False
    then show ?thesis using Cons by (simp add: add_zero)
  qed
qed simp

text \<open>Splitting a sum into classes.\<close>

lemma sum_classes:
  assumes "distinct cs" and "\<And>i. i \<in> set xs \<Longrightarrow> c i \<in> set cs"
  shows "foldr (\<lambda>l. add (foldr (\<lambda>i. add (f i)) (filter (\<lambda>i. c i = l) xs) zero)) cs zero = foldr (\<lambda>i. add (f i)) xs zero"
proof -
  have "foldr (\<lambda>l. add (foldr (\<lambda>i. add (f i)) (filter (\<lambda>i. c i = l) xs) zero)) cs zero
      = foldr (\<lambda>l. add (foldr (\<lambda>i. add (if c i = l then f i else zero)) xs zero)) cs zero"
    by (intro sum_cong sum_filter)
  also have "\<dots> = foldr (\<lambda>i. add (foldr (\<lambda>l. add (if c i = l then f i else zero)) cs zero)) xs zero" by (rule sum_swap)
  also have "\<dots> = foldr (\<lambda>i. add (f i)) xs zero"
  proof (rule sum_cong)
    fix i assume "i \<in> set xs"
    then have "foldr (\<lambda>l. add (if l = c i then f i else zero)) cs zero = f i" using assms by (intro sum_single) auto
    then show "foldr (\<lambda>l. add (if c i = l then f i else zero)) cs zero = f i" by (simp add: eq_commute)
  qed
  finally show ?thesis .
qed

end

definition xsum :: "('i \<Rightarrow> u8) \<Rightarrow> 'i list \<Rightarrow> u8" where
  "xsum f xs = foldr (\<lambda>i. (XOR) (f i)) xs 0"

interpretation gf: weighted_sums "(XOR) :: u8 \<Rightarrow> u8 \<Rightarrow> u8" 0 gmul
  by unfold_locales (simp_all add: xor.assoc gmul_xor, simp add: xor.commute)

lemmas xsum_append = gf.sum_append [folded xsum_def]
lemmas xsum_xor = gf.sum_add [folded xsum_def]
lemmas xsum_gmul = gf.sum_mul [folded xsum_def]
lemmas xsum_zero = gf.sum_zero [folded xsum_def]
lemmas xsum_cong = gf.sum_cong [folded xsum_def]
lemmas xsum_classes = gf.sum_classes [folded xsum_def]

lemma xsum_simps [simp]: "xsum f [] = 0" "xsum f (x # xs) = f x XOR xsum f xs"
  by (simp_all add: xsum_def)

section \<open>Buffers as functions\<close>

definition byte_of :: "bytes \<Rightarrow> nat \<Rightarrow> u8" where
  "byte_of xs k = (if k < length xs then xs ! k else 0)"

text \<open>The first \<open>n\<close> bytes of \<open>d\<close> are the values of \<open>F\<close>, which is zero behind them.\<close>

definition holds :: "GrowingAlignedDataBuffer \<Rightarrow> (nat \<Rightarrow> u8) \<Rightarrow> bool" where
  "holds b F \<longleftrightarrow> (\<forall>k\<ge>Bytes b. F k = 0)
     \<and> (case Data b of None \<Rightarrow> Bytes b = 0 | Some d \<Rightarrow> Bytes b \<le> length d \<and> (\<forall>k<Bytes b. d ! k = F k))"

lemma GrowZeroPadded_ok:
  assumes "holds b F"
  shows "\<exists>b' d. GrowZeroPadded (Some g) bytes b = Some (True, b') \<and> holds b' F \<and> Bytes b' = max (Bytes b) bytes \<and> Data b' = Some d"
proof (cases "Data b = None \<or> bytes > Bytes b")
  case True
  then have "Bytes b \<le> bytes" using assms by (auto simp: holds_def)
  then obtain d where d: "memset0 (realloc_copy g (Data b) bytes) (Bytes b) (bytes - Bytes b) = Some d" "length d = bytes"
    "\<And>k. k < bytes \<Longrightarrow> d ! k = (if k < Bytes b then realloc_copy g (Data b) bytes ! k else 0)"
    by (auto simp: memset0_def realloc_copy_def Let_def nth_overwrite)
  have "holds \<lparr> Data = Some d, Bytes = bytes \<rparr> F"
    using assms d(2,3) \<open>Bytes b \<le> bytes\<close>
    by (auto simp: holds_def realloc_copy_def Let_def split: option.splits)
  then show ?thesis using True d(1) \<open>Bytes b \<le> bytes\<close> by (simp add: GrowZeroPadded_def)
next
  case False
  then show ?thesis using assms by (auto simp: GrowZeroPadded_def)
qed

lemma holds_cleared: "holds (b\<lparr>Bytes := 0\<rparr>) (\<lambda>_. 0)"
  by (auto simp: holds_def split: option.splits)

text \<open>An original packet that holds the bytes \<open>p\<close> for a column.\<close>

definition packet_bytes :: "bytes \<Rightarrow> bytes" where
  "packet_bytes data = packet_length_wire (of_nat (length data)) @ data"

definition headed :: "nat \<Rightarrow> bytes \<Rightarrow> bool" where
  "headed n p \<longleftrightarrow> (\<exists>data. p = packet_bytes data \<and> length data \<le> 0x1fffffff \<and> n = length p - length data)"

definition orig_ok :: "OriginalPacket \<Rightarrow> bytes \<Rightarrow> u32 \<Rightarrow> bool" where
  "orig_ok orig p c \<longleftrightarrow> Column orig = c \<and> Bytes (Buffer orig) = length p
     \<and> (\<exists>x. Data (Buffer orig) = Some x \<and> length p \<le> length x \<and> take (length p) x = p) \<and> headed (HeaderBytes orig) p"

definition colpow :: "u32 \<Rightarrow> nat \<Rightarrow> u8" where
  "colpow c s = (if s = 0 then 1 else if s = 2 then gmul (GetColumnValue c) (GetColumnValue c) else GetColumnValue c)"

lemma orig_ok_data:
  assumes "orig_ok orig p c"
  obtains x where "Data (Buffer orig) = Some x" "length p \<le> length x" "\<And>k. k < length p \<Longrightarrow> x ! k = p ! k" "Bytes (Buffer orig) = length p"
proof -
  obtain x where x: "Data (Buffer orig) = Some x" "length p \<le> length x" "take (length p) x = p" "Bytes (Buffer orig) = length p"
    using assms by (auto simp: orig_ok_def)
  have "x ! k = p ! k" if "k < length p" for k using that nth_take [OF that, of x] x(3) by simp
  then show thesis using that x by blast
qed

lemma accumulate_ok:
  assumes gf: "gf256_ready gf" and orig: "orig_ok orig p c" and sm: "holds b F" "Data b = Some d" "length p \<le> Bytes b"
  shows "\<exists>d'. accumulate gf s orig (length p) d = Some d' \<and> holds (b\<lparr>Data := Some d'\<rparr>) (\<lambda>k. F k XOR gmul (byte_of p k) (colpow c s))"
proof -
  obtain x where x: "Data (Buffer orig) = Some x" "length p \<le> length x" "\<And>k. k < length p \<Longrightarrow> x ! k = p ! k"
    using orig_ok_data [OF orig] by blast
  have len: "length p \<le> length d" using sm by (auto simp: holds_def)
  let ?d = "filled (\<lambda>k. d ! k XOR gmul (x ! k) (colpow c s)) d (length p)"
  have sqr: "gf256_sqr (lib_ctx gf) v = Some (gmul v v)" for v using gf by (simp add: gf256_ready_def scalar_ok_def)
  have "accumulate gf s orig (length p) d = Some ?d"
    using gf x(1,2) len orig sqr
    by (auto simp: accumulate_def gf256_ready_def gf256_add_mem_eq gf256_muladd_mem_eq colpow_def orig_ok_def Let_def)
  moreover have "holds (b\<lparr>Data := Some ?d\<rparr>) (\<lambda>k. F k XOR gmul (byte_of p k) (colpow c s))"
    using sm len x(3) by (auto simp: holds_def nth_filled byte_of_def)
  ultimately show ?thesis by blast
qed

end
