(* ===== verification/Encoder_Window.thy ===== *)
theory Encoder_Window
  imports Encoder_Algebra
begin

text \<open>
  The invariant of the encoder's window, and the running sums.  The ghost value \<open>L\<close> is the list of all packets added so
  far, with their length prefix; the packet with number \<open>i\<close> has the column \<open>col i\<close>.  Element \<open>0\<close> of the window has the
  number \<open>base\<close>, and the running sums start with the number \<open>S\<close>.
\<close>

unbundle bit_operations_syntax

section \<open>Columns\<close>

definition col :: "nat \<Rightarrow> u32" where
  "col i = word_of_nat (i mod 2 ^ 22)"

lemma unat_col [simp]: "unat (col i) = i mod 2 ^ 22"
proof -
  have "i mod 2 ^ 22 < 2 ^ 22" by simp
  then have "i mod 2 ^ 22 < 2 ^ 32" by simp
  then show ?thesis by (simp add: col_def unat_of_nat)
qed

lemma unat_AddColumns_mod: "unat (AddColumns x y) = (unat x + unat y) mod 2 ^ 22"
  by (simp add: AddColumns_def kColumnPeriod_def unat_mod unat_word_ariths mod_mod_cancel)

lemma col_eqI: "unat x = i mod 2 ^ 22 \<Longrightarrow> x = col i"
  by (simp add: word_unat_eq_iff)

lemma AddColumns_col [simp]: "AddColumns (word_of_nat e) (col b) = col (b + e)" "AddColumns (col b) (word_of_nat e) = col (b + e)"
proof -
  have "(unat (word_of_nat e :: u32) + b mod 2 ^ 22) mod 2 ^ 22 = (e + b) mod 2 ^ 22"
    by (simp add: unat_of_nat mod_add_left_eq [symmetric, of "e mod 4294967296"] mod_mod_cancel mod_add_eq)
  then show "AddColumns (word_of_nat e) (col b) = col (b + e)" by (intro col_eqI) (simp add: unat_AddColumns_mod add.commute)
  then show "AddColumns (col b) (word_of_nat e) = col (b + e)" by (simp add: AddColumns_def add.commute)
qed

lemma IncrementColumn1_col [simp]: "IncrementColumn1 (col n) = col (Suc n)"
  using AddColumns_col(2) [of n 1] by (simp add: IncrementColumn1_def)

lemma uint_SubtractColumns: "uint (SubtractColumns x y) = (uint x - uint y) mod 2 ^ 22"
  by (simp add: SubtractColumns_def kColumnPeriod_def uint_mod uint_word_ariths mod_mod_cancel)

lemma unat_SubtractColumns_col:
  assumes "b \<le> a"
  shows "unat (SubtractColumns (col a) (col b)) = (a - b) mod 2 ^ 22"
proof -
  have "int (unat (SubtractColumns (col a) (col b))) = (int (a mod 2 ^ 22) - int (b mod 2 ^ 22)) mod 2 ^ 22"
    using uint_SubtractColumns [of "col a" "col b"] unat_col [of a] unat_col [of b] by (metis uint_nat)
  also have "\<dots> = int ((a - b) mod 2 ^ 22)" using assms by (simp add: of_nat_mod of_nat_diff mod_diff_eq)
  finally show ?thesis by (simp only: of_nat_eq_iff)
qed

lemma col_lane: "unat (col i mod kColumnLaneCount) = i mod 8"
proof -
  have "unat (col i mod kColumnLaneCount) = i mod 2 ^ 22 mod 8" by (simp add: unat_mod unat_col kColumnLaneCount_def)
  then show ?thesis by (simp add: mod_mod_cancel)
qed

lemma col_window_start: "col n - word_of_nat (n mod 8) = col (n - n mod 8)"
proof (rule col_eqI)
  define q r where "q = n div 2 ^ 22" and "r = n mod 2 ^ 22"
  have n: "n = 2 ^ 22 * q + r" "r < 2 ^ 22" by (simp_all add: q_def r_def)
  have m: "n mod 8 = r mod 8" unfolding r_def by (rule mod_mod_cancel [symmetric]) simp
  have "r mod 8 \<le> r" by simp
  then have "n - r mod 8 = r - r mod 8 + 2 ^ 22 * q" using n(1) by linarith
  then have "n - n mod 8 = r - r mod 8 + 2 ^ 22 * q" by (simp only: m)
  moreover have "r - r mod 8 < 2 ^ 22" using n(2) by linarith
  ultimately have "(n - n mod 8) mod 2 ^ 22 = r - r mod 8" by (simp only: mod_mult_self2 mod_less)
  moreover have "unat (col n - word_of_nat (n mod 8)) = r - r mod 8"
  proof -
    have u: "unat (word_of_nat (r mod 8) :: u32) = r mod 8" by (simp add: unat_of_nat)
    have c: "unat (col n) = r" by (simp add: r_def)
    have "word_of_nat (r mod 8) \<le> col n" unfolding word_le_nat_alt u c by simp
    then show ?thesis unfolding m using unat_sub [of "word_of_nat (r mod 8)" "col n"] u c by simp
  qed
  ultimately show "unat (col n - word_of_nat (n mod 8)) = (n - n mod 8) mod 2 ^ 22" by simp
qed

section \<open>Sums of lanes\<close>

definition lane_sum :: "bytes list \<Rightarrow> nat \<Rightarrow> nat \<Rightarrow> nat \<Rightarrow> nat \<Rightarrow> nat \<Rightarrow> u8" where
  "lane_sum L S hi l s k = xsum (\<lambda>i. gmul (byte_of (L ! i) k) (colpow (col i) s)) (filter (\<lambda>i. i mod 8 = l) [S..<hi])"

lemma lane_apart:
  assumes "i < j" and "i mod 8 = j mod 8"
  shows "i + 8 \<le> (j :: nat)"
proof -
  have "8 dvd j - i" using assms by (simp add: mod_eq_dvd_iff_nat [symmetric])
  then have "8 \<le> j - i" using assms(1) by (simp add: dvd_imp_le)
  then show ?thesis using assms(1) by simp
qed

lemma filter_lane_gap:
  assumes "ne mod 8 = l" and "x \<le> ne" and "ne < x + 8"
  shows "filter (\<lambda>i. i mod 8 = l) [S..<ne] = filter (\<lambda>i. i mod 8 = l) [S..<x]"
proof (cases "S \<le> x")
  case True
  have none: "filter (\<lambda>i. i mod 8 = l) [x..<ne] = []"
  proof (rule filter_False, rule ballI)
    fix i assume i: "i \<in> set [x..<ne]"
    show "\<not> i mod 8 = l"
    proof
      assume "i mod 8 = l"
      then show False using lane_apart [of i ne] assms(1,3) i by simp
    qed
  qed
  have "[S..<ne] = [S..<x] @ [x..<ne]" using True assms(2) by (metis le_add_diff_inverse upt_add_eq_append)
  then show ?thesis using none by simp
next
  case False
  have "\<not> i mod 8 = l" if i: "S \<le> i" "i < ne" for i
  proof
    assume "i mod 8 = l"
    then show False using lane_apart [of i ne] assms(1,3) i False by simp
  qed
  then have "filter (\<lambda>i. i mod 8 = l) [S..<ne] = []" by (intro filter_False) auto
  then show ?thesis using False by simp
qed

lemma lane_sum_step:
  assumes "S \<le> x" and "x mod 8 = l"
  shows "lane_sum L S (x + 8) l s k = lane_sum L S x l s k XOR gmul (byte_of (L ! x) k) (colpow (col x) s)"
proof -
  have "filter (\<lambda>i. i mod 8 = l) [S..<x + 8] = filter (\<lambda>i. i mod 8 = l) [S..<Suc x]"
    by (rule filter_lane_gap) (use assms in auto)
  also have "\<dots> = filter (\<lambda>i. i mod 8 = l) [S..<x] @ [x]" using assms by simp
  finally show ?thesis by (simp add: lane_sum_def xsum_append)
qed

section \<open>The invariant\<close>

definition subs_ok :: "EncoderPacketWindow \<Rightarrow> bool" where
  "subs_ok w \<longleftrightarrow> (\<forall>s\<in>set (Subwindows w). length (Originals s) = 64 \<and> length (LastSendMsec s) = 64)"

definition elems_ok :: "EncoderPacketWindow \<Rightarrow> bytes list \<Rightarrow> nat \<Rightarrow> nat \<Rightarrow> nat \<Rightarrow> bool" where
  "elems_ok w L base lo hi \<longleftrightarrow> (\<forall>e. lo \<le> e \<and> e < hi \<longrightarrow> (\<exists>orig. GetWindowElement w e = Some orig \<and> orig_ok orig (L ! (base + e)) (col (base + e))))"

definition lanes_sized :: "EncoderPacketWindow \<Rightarrow> bool" where
  "lanes_sized w \<longleftrightarrow> length (Lanes w) = 8 \<and> (\<forall>l<8. length (NextElement (Lanes w ! l)) = 3 \<and> length (Sum (Lanes w ! l)) = 3)"

text \<open>A running sum covers the elements of its lane before its next element, from the number \<open>S\<close> on.\<close>

definition lane_ok :: "EncoderPacketWindow \<Rightarrow> bytes list \<Rightarrow> nat \<Rightarrow> nat \<Rightarrow> nat \<Rightarrow> nat \<Rightarrow> nat \<Rightarrow> nat \<Rightarrow> bool" where
  "lane_ok w L base S st hi l s \<longleftrightarrow> (let ne = NextElement (Lanes w ! l) ! s
     in ne mod 8 = l \<and> st \<le> ne \<and> ne < hi + 8 \<and> holds (Sum (Lanes w ! l) ! s) (lane_sum L S (base + ne) l s))"

text \<open>Memory never runs out.\<close>

definition mem_ok :: "memory \<Rightarrow> bool" where
  "mem_ok mem \<longleftrightarrow> (\<forall>i. mem i \<noteq> None)"

lemma mem_ok_block: "mem_ok mem \<Longrightarrow> \<exists>g. mem i = Some g"
  by (simp add: mem_ok_def)

lemma lanes_8: "lanes = 8"
  by (simp add: lanes_def kColumnLaneCount_def)

lemma sub_64: "kSubwindowSize = 64"
  by (simp add: kSubwindowSize_def kColumnLaneCount_def)

lemma GetWindowElement_irrelevant [simp]:
  "GetWindowElement (w\<lparr>Requests := r\<rparr>) e = GetWindowElement w e"
  "GetWindowElement (w\<lparr>Lanes := ls\<rparr>) e = GetWindowElement w e"
  "GetWindowElement (w\<lparr>Count := c\<rparr>) e = GetWindowElement w e"
  "GetWindowElement (w\<lparr>Stats := st\<rparr>) e = GetWindowElement w e"
  "GetWindowElement (w\<lparr>LongestPacket := c\<rparr>) e = GetWindowElement w e"
  "GetWindowElement (w\<lparr>SumEndElement := c\<rparr>) e = GetWindowElement w e"
  "GetWindowElement (w\<lparr>NextColumn := cl\<rparr>) e = GetWindowElement w e"
  by (simp_all add: GetWindowElement_def)

lemma sum_loop_ok:
  assumes gf: "gf256_ready gf" and mem: "mem_ok mem" and el: "elems_ok w L base lo hi"
    and "lo \<le> e" "e < elementEnd" "elementEnd \<le> hi" "S \<le> base + e" "base mod 8 = 0" "e mod 8 = l"
    and "holds sm (lane_sum L S (base + e) l s)"
  shows "\<exists>e' sm' r. sum_loop mem gf s elementEnd e sm w = Some (Some e', sm', w\<lparr>Requests := r\<rparr>)
    \<and> e' mod 8 = l \<and> elementEnd \<le> e' \<and> e' < elementEnd + 8 \<and> holds sm' (lane_sum L S (base + e') l s)"
  using assms(3-)
proof (induction "elementEnd - e" arbitrary: e sm w rule: less_induct)
  case less
  obtain orig where o: "GetWindowElement w e = Some orig" "orig_ok orig (L ! (base + e)) (col (base + e))"
    using less.prems(1-4) by (auto simp: elems_ok_def)
  obtain g where g: "mem (Requests w) = Some g" using mem_ok_block [OF mem] by blast
  let ?p = "L ! (base + e)"
  have bytes: "Bytes (Buffer orig) = length ?p" using o(2) by (simp add: orig_ok_def)
  obtain b d where b: "GrowZeroPadded (Some g) (length ?p) sm = Some (True, b)" "holds b (lane_sum L S (base + e) l s)"
    "Bytes b = max (Bytes sm) (length ?p)" "Data b = Some d"
    using GrowZeroPadded_ok [OF less.prems(8)] by blast
  obtain d' where d': "accumulate gf s orig (length ?p) d = Some d'"
    "holds (b\<lparr>Data := Some d'\<rparr>) (\<lambda>k. lane_sum L S (base + e) l s k XOR gmul (byte_of ?p k) (colpow (col (base + e)) s))"
    using accumulate_ok [OF gf o(2) b(2,4)] b(3) by auto
  have lane: "(base + e) mod 8 = l" using less.prems(6,7) by (simp add: mod_add_eq [symmetric])
  have "holds (b\<lparr>Data := Some d'\<rparr>) (lane_sum L S (base + e + 8) l s)"
    unfolding lane_sum_step [OF less.prems(5) lane, abs_def] using d'(2) by simp
  then have h: "holds (b\<lparr>Data := Some d'\<rparr>) (lane_sum L S (base + (e + 8)) l s)" by (simp add: add.assoc)
  let ?w = "w\<lparr>Requests := Requests w + 1\<rparr>"
  have step: "sum_loop mem gf s elementEnd e sm w =
      (if e + 8 < elementEnd then sum_loop mem gf s elementEnd (e + 8) (b\<lparr>Data := Some d'\<rparr>) ?w
       else Some (Some (e + 8), b\<lparr>Data := Some d'\<rparr>, ?w))"
    using o(1) g bytes b(1,4) d'(1) by (subst sum_loop.simps) (simp add: next_block_def lanes_8)
  show ?case
  proof (cases "e + 8 < elementEnd")
    case True
    have el': "elems_ok ?w L base lo hi" using less.prems(1) by (simp add: elems_ok_def)
    have ih: "\<exists>e' sm' r. sum_loop mem gf s elementEnd (e + 8) (b\<lparr>Data := Some d'\<rparr>) ?w = Some (Some e', sm', ?w\<lparr>Requests := r\<rparr>)
      \<and> e' mod 8 = l \<and> elementEnd \<le> e' \<and> e' < elementEnd + 8 \<and> holds sm' (lane_sum L S (base + e') l s)"
      by (rule less.hyps [OF _ el']) (use True less.prems h in auto)
    then show ?thesis using step True by auto
  next
    case False
    then show ?thesis using step h less.prems(3,7) by (auto intro!: exI [of _ "Requests w + 1"])
  qed
qed


section \<open>Reading a sum\<close>

text \<open>Only the sum itself changes, and the number of requests.\<close>

definition sum_touched :: "nat \<Rightarrow> nat \<Rightarrow> EncoderPacketWindow \<Rightarrow> EncoderPacketWindow \<Rightarrow> bool" where
  "sum_touched l s w w' \<longleftrightarrow> w' = w\<lparr>Lanes := Lanes w', Requests := Requests w'\<rparr> \<and> length (Lanes w') = length (Lanes w)
     \<and> (\<forall>l'<8. laneLongestPacket (Lanes w' ! l') = laneLongestPacket (Lanes w ! l')
          \<and> length (NextElement (Lanes w' ! l')) = length (NextElement (Lanes w ! l')) \<and> length (Sum (Lanes w' ! l')) = length (Sum (Lanes w ! l'))
          \<and> (\<forall>s'. l' \<noteq> l \<or> s' \<noteq> s \<longrightarrow> NextElement (Lanes w' ! l') ! s' = NextElement (Lanes w ! l') ! s' \<and> Sum (Lanes w' ! l') ! s' = Sum (Lanes w ! l') ! s'))"

lemma sum_touched_refl: "sum_touched l s w w"
  by (simp add: sum_touched_def)

lemma sum_touched_put:
  assumes "length (Lanes w) = 8" and "l < 8"
  shows "sum_touched l s w (put_next l s e (put_sum l s sm (w\<lparr>Requests := r\<rparr>)))"
  using assms by (simp add: sum_touched_def put_next_def put_sum_def Let_def nth_list_update)

lemma GetSum_ok:
  assumes gf: "gf256_ready gf" and mem: "mem_ok mem" and el: "elems_ok w L base lo hi" and size: "lanes_sized w"
    and ls: "l < 8" "s < 3" and lane: "lane_ok w L base S st hi l s" and range: "lo \<le> st" "S \<le> base + st" "base mod 8 = 0" "n \<le> hi"
  shows "\<exists>sm w'. GetSum mem gf l s n w = Some (sm, w') \<and> sum_touched l s w w' \<and> lane_ok w' L base S st hi l s
    \<and> n \<le> NextElement (Lanes w' ! l) ! s \<and> sm = Sum (Lanes w' ! l) ! s \<and> (NextElement (Lanes w' ! l) ! s = NextElement (Lanes w ! l) ! s \<or> NextElement (Lanes w' ! l) ! s < n + 8)"
proof -
  let ?lane = "Lanes w ! l" and ?ne = "NextElement (Lanes w ! l) ! s" and ?sm = "Sum (Lanes w ! l) ! s"
  have sizes: "length (Lanes w) = 8" "length (NextElement ?lane) = 3" "length (Sum ?lane) = 3" using size ls(1) by (simp_all add: lanes_sized_def)
  have ne: "?ne mod 8 = l" "st \<le> ?ne" "?ne < hi + 8" "holds ?sm (lane_sum L S (base + ?ne) l s)" using lane by (simp_all add: lane_ok_def Let_def)
  show ?thesis
  proof (cases "?ne < n")
    case False
    then have "GetSum mem gf l s n w = Some (?sm, w)" using sizes ls by (simp add: GetSum_def)
    then show ?thesis using False lane sum_touched_refl by auto
  next
    case True
    have "\<exists>sm1 r1. (if laneLongestPacket ?lane > 0 then do {
            let (block, w) = next_block mem w;
            (ok, sm) \<leftarrow> GrowZeroPadded block (laneLongestPacket ?lane) ?sm;
            Some (ok, sm, w) }
          else Some (True, ?sm, w)) = Some (True, sm1, w\<lparr>Requests := r1\<rparr>) \<and> holds sm1 (lane_sum L S (base + ?ne) l s)"
    proof (cases "laneLongestPacket ?lane > 0")
      case True
      obtain g where g: "mem (Requests w) = Some g" using mem_ok_block [OF mem] by blast
      obtain b where "GrowZeroPadded (Some g) (laneLongestPacket ?lane) ?sm = Some (True, b)" "holds b (lane_sum L S (base + ?ne) l s)"
        using GrowZeroPadded_ok [OF ne(4)] by blast
      then show ?thesis using True g by (auto simp: next_block_def intro!: exI [of _ "Requests w + 1"])
    next
      case False
      then show ?thesis using ne(4) by (auto intro!: exI [of _ "Requests w"])
    qed
    then obtain sm1 r1 where grow: "(if laneLongestPacket ?lane > 0 then do {
            let (block, w) = next_block mem w;
            (ok, sm) \<leftarrow> GrowZeroPadded block (laneLongestPacket ?lane) ?sm;
            Some (ok, sm, w) }
          else Some (True, ?sm, w)) = Some (True, sm1, w\<lparr>Requests := r1\<rparr>)" "holds sm1 (lane_sum L S (base + ?ne) l s)" by blast
    have el1: "elems_ok (w\<lparr>Requests := r1\<rparr>) L base lo hi" using el by (simp add: elems_ok_def)
    obtain e' sm' r where lp: "sum_loop mem gf s n ?ne sm1 (w\<lparr>Requests := r1\<rparr>) = Some (Some e', sm', w\<lparr>Requests := r1, Requests := r\<rparr>)"
      "e' mod 8 = l" "n \<le> e'" "e' < n + 8" "holds sm' (lane_sum L S (base + e') l s)"
      using sum_loop_ok [OF gf mem el1 _ True range(4) _ range(3) ne(1) grow(2)] ne(2) range(1,2) by auto
    let ?w = "put_next l s e' (put_sum l s sm' (w\<lparr>Requests := r\<rparr>))"
    have "GetSum mem gf l s n w = Some (sm', ?w)"
      using sizes ls True grow(1) lp(1) by (simp add: GetSum_def)
    moreover have "NextElement (Lanes ?w ! l) ! s = e'" "Sum (Lanes ?w ! l) ! s = sm'"
      using sizes ls by (simp_all add: put_next_def put_sum_def Let_def)
    moreover have "lane_ok ?w L base S st hi l s"
      using calculation(2,3) lp True range(4) ne(2) by (simp add: lane_ok_def)
    ultimately show ?thesis using sum_touched_put [OF sizes(1) ls(1), of s e' sm' r] lp(3,4) by auto
  qed
qed

section \<open>The invariant of the window\<close>

definition sums_inv :: "EncoderPacketWindow \<Rightarrow> bytes list \<Rightarrow> nat \<Rightarrow> nat \<Rightarrow> bool" where
  "sums_inv w L base lo \<longleftrightarrow> lo \<le> SumStartElement w \<and> SumStartElement w \<le> FirstUnremovedElement w \<and> SumEndElement w \<le> Count w \<and> SumErasedCount w \<le> base + SumStartElement w
     \<and> (let S = base + SumStartElement w - SumErasedCount w
        in SumColumnStart w = col S \<and> (\<forall>l<8. \<forall>s<3. lane_ok w L base S (SumStartElement w) (Count w) l s))"

definition maxlen :: "bytes list \<Rightarrow> nat" where
  "maxlen L = foldr (\<lambda>p. max (length p)) L 0"

lemma maxlen_append: "maxlen (L @ [p]) = max (maxlen L) (length p)"
  by (induction L) (simp_all add: maxlen_def)

lemma maxlen_nth: "i < length L \<Longrightarrow> length (L ! i) \<le> maxlen L"
proof (induction L arbitrary: i)
  case (Cons p L)
  then show ?case by (cases i) (auto simp: maxlen_def le_max_iff_disj)
qed simp

definition packets_inv :: "EncoderPacketWindow \<Rightarrow> bytes list \<Rightarrow> nat \<Rightarrow> nat \<Rightarrow> bool" where
  "packets_inv w L base lo \<longleftrightarrow> base + Count w = length L \<and> base mod 8 = 0 \<and> winColumnStart w = col base
     \<and> lo \<le> FirstUnremovedElement w \<and> FirstUnremovedElement w < Count w \<and> elems_ok w L base lo (Count w) \<and> LongestPacket w \<le> maxlen L
     \<and> (\<forall>e. FirstUnremovedElement w \<le> e \<and> e < Count w \<longrightarrow> length (L ! (base + e)) \<le> LongestPacket w)"

definition window_sized :: "EncoderPacketWindow \<Rightarrow> bool" where
  "window_sized w \<longleftrightarrow> subs_ok w \<and> lanes_sized w \<and> Count w \<le> 16000
     \<and> (Count w + 7 < 64 * length (Subwindows w) \<or> Count w = 0 \<and> Subwindows w = [])"

text \<open>A slot is unused or holds some packet that was added, perhaps one that was removed since.\<close>

definition slot_ok :: "bytes list \<Rightarrow> OriginalPacket \<Rightarrow> bool" where
  "slot_ok L orig \<longleftrightarrow> orig = empty_original \<or> (\<exists>i<length L. orig_ok orig (L ! i) (col i))"

definition slots_ok :: "EncoderSubwindow list \<Rightarrow> bytes list \<Rightarrow> bool" where
  "slots_ok ss L \<longleftrightarrow> (\<forall>s\<in>set ss. \<forall>orig\<in>set (Originals s). slot_ok L orig)"

lemma slot_ok_append: "slot_ok L orig \<Longrightarrow> slot_ok (L @ [p]) orig"
  unfolding slot_ok_def by (metis length_append_singleton less_SucI nth_append)

lemma slots_ok_get:
  assumes "slots_ok (Subwindows w) L" and "GetWindowElement w e = Some orig"
  shows "slot_ok L orig"
proof -
  let ?s = "Subwindows w ! (e div kSubwindowSize)"
  have "e div kSubwindowSize < length (Subwindows w)" "e mod kSubwindowSize < length (Originals ?s)" "orig = Originals ?s ! (e mod kSubwindowSize)"
    using assms(2) by (auto simp: GetWindowElement_def tab_get_def split: Option.bind_splits if_splits)
  then have "?s \<in> set (Subwindows w)" "orig \<in> set (Originals ?s)" by simp_all
  then show ?thesis using assms(1) unfolding slots_ok_def by blast
qed

lemma slots_okI:
  assumes "subs_ok w" and "\<And>e orig. GetWindowElement w e = Some orig \<Longrightarrow> slot_ok L orig"
  shows "slots_ok (Subwindows w) L"
  unfolding slots_ok_def
proof (intro ballI)
  fix s orig assume s: "s \<in> set (Subwindows w)" "orig \<in> set (Originals s)"
  obtain i j where i: "i < length (Subwindows w)" "Subwindows w ! i = s" "j < length (Originals s)" "Originals s ! j = orig"
    using s by (metis in_set_conv_nth)
  have "length (Originals s) = 64" using assms(1) s(1) by (simp add: subs_ok_def)
  then have "GetWindowElement w (64 * i + j) = Some orig" using i by (simp add: GetWindowElement_def sub_64)
  then show "slot_ok L orig" by (rule assms(2))
qed

definition window_inv :: "EncoderPacketWindow \<Rightarrow> bytes list \<Rightarrow> nat \<Rightarrow> nat \<Rightarrow> bool" where
  "window_inv w L base lo \<longleftrightarrow> \<not> EmergencyDisabled w \<and> NextColumn w = col (length L) \<and> window_sized w \<and> slots_ok (Subwindows w) L
     \<and> (0 < Count w \<longrightarrow> packets_inv w L base lo \<and> (SumStartElement w < SumEndElement w \<longrightarrow> sums_inv w L base lo))"

lemma subs_ok_update:
  assumes "subs_ok w" and "length (Originals x) = 64" and "length (LastSendMsec x) = 64"
  shows "subs_ok (w\<lparr>Subwindows := (Subwindows w)[i := x]\<rparr>)"
proof -
  have "s \<in> insert x (set (Subwindows w))" if "s \<in> set ((Subwindows w)[i := x])" for s
    using that set_update_subset_insert [of "Subwindows w" i x] by blast
  then show ?thesis using assms by (fastforce simp: subs_ok_def)
qed

lemma PutWindowElement_ok:
  assumes "subs_ok w" and "e < 64 * length (Subwindows w)"
  shows "\<exists>ss. PutWindowElement e orig w = Some (w\<lparr>Subwindows := ss\<rparr>) \<and> length ss = length (Subwindows w) \<and> subs_ok (w\<lparr>Subwindows := ss\<rparr>)
    \<and> (\<forall>e'. GetWindowElement (w\<lparr>Subwindows := ss\<rparr>) e' = (if e' = e then Some orig else GetWindowElement w e'))"
proof -
  have i: "e div 64 < length (Subwindows w)" using assms(2) by (simp add: less_mult_imp_div_less mult.commute)
  let ?s = "Subwindows w ! (e div 64)"
  have len: "length (Originals ?s) = 64" "length (LastSendMsec ?s) = 64" using assms(1) i by (simp_all add: subs_ok_def)
  let ?ss = "(Subwindows w)[e div 64 := ?s\<lparr>Originals := (Originals ?s)[e mod 64 := orig]\<rparr>]"
  have "PutWindowElement e orig w = Some (w\<lparr>Subwindows := ?ss\<rparr>)" using i len by (simp add: PutWindowElement_def sub_64)
  moreover have "subs_ok (w\<lparr>Subwindows := ?ss\<rparr>)"
    by (rule subs_ok_update [OF assms(1)]) (use len in simp_all)
  moreover have "GetWindowElement (w\<lparr>Subwindows := ?ss\<rparr>) e' = (if e' = e then Some orig else GetWindowElement w e')" for e'
  proof (cases "e' div 64 = e div 64")
    case True
    moreover have "e' = e \<longleftrightarrow> e' mod 64 = e mod 64" using True by (metis div_mult_mod_eq)
    ultimately show ?thesis using i len by (auto simp: GetWindowElement_def sub_64)
  next
    case False
    then have "e' \<noteq> e" by auto
    then show ?thesis using False by (simp add: GetWindowElement_def sub_64 tab_get_def)
  qed
  ultimately show ?thesis by (intro exI [of _ ?ss]) simp
qed

lemma PutWindowElementTimestamp_ok:
  assumes "subs_ok w" and "e < 64 * length (Subwindows w)"
  shows "\<exists>ss. PutWindowElementTimestamp e t w = Some (w\<lparr>Subwindows := ss\<rparr>) \<and> length ss = length (Subwindows w) \<and> subs_ok (w\<lparr>Subwindows := ss\<rparr>)
    \<and> (\<forall>e'. GetWindowElement (w\<lparr>Subwindows := ss\<rparr>) e' = GetWindowElement w e')"
proof -
  have i: "e div 64 < length (Subwindows w)" using assms(2) by (simp add: less_mult_imp_div_less mult.commute)
  let ?s = "Subwindows w ! (e div 64)"
  have len: "length (Originals ?s) = 64" "length (LastSendMsec ?s) = 64" using assms(1) i by (simp_all add: subs_ok_def)
  let ?ss = "(Subwindows w)[e div 64 := ?s\<lparr>LastSendMsec := (LastSendMsec ?s)[e mod 64 := t]\<rparr>]"
  have "PutWindowElementTimestamp e t w = Some (w\<lparr>Subwindows := ?ss\<rparr>)" using i len by (simp add: PutWindowElementTimestamp_def sub_64)
  moreover have "subs_ok (w\<lparr>Subwindows := ?ss\<rparr>)"
    by (rule subs_ok_update [OF assms(1)]) (use len in simp_all)
  moreover have "GetWindowElement (w\<lparr>Subwindows := ?ss\<rparr>) e' = GetWindowElement w e'" for e'
    using i by (cases "e' div 64 = e div 64") (simp_all add: GetWindowElement_def sub_64 tab_get_def)
  ultimately show ?thesis by (intro exI [of _ ?ss]) simp
qed

lemma packet_length_wire_bounds: "0 < length (packet_length_wire v)" "length (packet_length_wire v) \<le> 4"
  by (simp_all add: packet_length_wire_def)

lemma Original_Initialize_ok:
  assumes "length data \<le> 0x1fffffff"
  shows "\<exists>n orig'. Original_Initialize (Some g) \<lparr> PacketNum = c, PacketData = data \<rparr> orig = Some (n, orig') \<and> 0 < n
    \<and> orig_ok orig' (packet_bytes data) c \<and> HeaderBytes orig' = n \<and> n = length (packet_length_wire (of_nat (length data)))"
proof -
  let ?wire = "packet_length_wire (of_nat (length data))"
  let ?b = "map g [0..<4 + length data]"
  have ok: "packet_length_ok (of_nat (length data))"
    using assms by (simp add: packet_length_ok_def word_le_nat_alt unat_of_nat)
  have len: "length ?wire \<le> 4" "0 < length ?wire" using packet_length_wire_bounds by auto
  have ser: "SerializeHeader_PacketLength (of_nat (length data)) ?b 0 = Some (overwrite ?b 0 ?wire, length ?wire)"
    by (rule packet_length_header.enc_wire) (use ok len in auto)
  have cp: "memcpy_at (overwrite ?b 0 ?wire) (length ?wire) data = Some (overwrite ?b 0 (?wire @ data))"
    using len overwrite_append [of 0 ?wire data ?b] by (simp add: memcpy_at_def)
  let ?orig = "\<lparr> Buffer = \<lparr> Data = Some (overwrite ?b 0 (?wire @ data)), Bytes = length ?wire + length data \<rparr>, Column = c, HeaderBytes = length ?wire \<rparr>"
  have "Original_Initialize (Some g) \<lparr> PacketNum = c, PacketData = data \<rparr> orig = Some (length ?wire, ?orig)"
    using ser cp by (simp add: Original_Initialize_def buf_Initialize_def realloc_uninitialized_def kMaxPacketLengthFieldBytes_def)
  moreover have "orig_ok ?orig (packet_bytes data) c"
    using len assms by (auto simp: orig_ok_def packet_bytes_def overwrite_def headed_def intro!: exI [of _ data])
  ultimately show ?thesis using len by auto
qed

section \<open>Adding a packet\<close>

lemma grow_ok:
  assumes mem: "mem_ok mem" and size: "window_sized w" and el: "0 < Count w \<longrightarrow> elems_ok w L base lo (Count w)"
  shows "\<exists>ss r. (if Count w + lanes \<ge> length (Subwindows w) * kSubwindowSize then grow_subwindows mem w else (True, w)) = (True, w\<lparr>Subwindows := ss, Requests := r\<rparr>)
    \<and> subs_ok (w\<lparr>Subwindows := ss\<rparr>) \<and> Count w + 8 < 64 * length ss
    \<and> (0 < Count w \<longrightarrow> elems_ok (w\<lparr>Subwindows := ss\<rparr>) L base lo (Count w)) \<and> (slots_ok (Subwindows w) L \<longrightarrow> slots_ok ss L)"
proof (cases "Count w + lanes \<ge> length (Subwindows w) * kSubwindowSize")
  case True
  obtain g g' where g: "mem (Requests w) = Some g" "mem (Suc (Requests w)) = Some g'"
    using mem_ok_block [OF mem, of "Requests w"] mem_ok_block [OF mem, of "Suc (Requests w)"] by blast
  let ?ss = "Subwindows w @ [new_subwindow]"
  have "grow_subwindows mem w = (True, w\<lparr>Subwindows := ?ss, Requests := Requests w + 2\<rparr>)"
    using g by (simp add: grow_subwindows_def next_block_def)
  moreover have "subs_ok (w\<lparr>Subwindows := ?ss\<rparr>)" using size by (auto simp: window_sized_def subs_ok_def new_subwindow_def sub_64)
  moreover have "Count w + 8 < 64 * length ?ss" using size by (auto simp: window_sized_def)
  moreover have "elems_ok (w\<lparr>Subwindows := ?ss\<rparr>) L base lo (Count w)" if c: "0 < Count w"
  proof -
    have "GetWindowElement (w\<lparr>Subwindows := ?ss\<rparr>) e = GetWindowElement w e" if "e < Count w" for e
    proof -
      have "e < length (Subwindows w) * 64" using that c size by (auto simp: window_sized_def)
      then have "e div 64 < length (Subwindows w)" by (rule less_mult_imp_div_less)
      then show ?thesis by (simp add: GetWindowElement_def sub_64 tab_get_def nth_append)
    qed
    then show ?thesis using el c by (simp add: elems_ok_def)
  qed
  moreover have "slots_ok (Subwindows w) L \<longrightarrow> slots_ok ?ss L" by (auto simp: slots_ok_def slot_ok_def new_subwindow_def)
  ultimately show ?thesis using True by (intro exI [of _ ?ss] exI [of _ "Requests w + 2"]) simp
next
  case False
  then show ?thesis using size el
    by (intro exI [of _ "Subwindows w"] exI [of _ "Requests w"]) (simp add: lanes_8 sub_64 window_sized_def)
qed

text \<open>Storing the packet at the next element.\<close>

lemma store_packet:
  assumes mem: "mem_ok mem" and subs: "subs_ok w" and e: "e < 64 * length (Subwindows w)" and data: "length data \<le> 0x1fffffff"
  shows "\<exists>orig' ss r. (do {
      orig \<leftarrow> GetWindowElement w e;
      let (block, w) = next_block mem w;
      (n, orig) \<leftarrow> Original_Initialize block \<lparr> PacketNum = c, PacketData = data \<rparr> orig;
      w \<leftarrow> PutWindowElement e orig w;
      (if n = 0 then Some (Siamese_Disabled, c, w\<lparr>EmergencyDisabled := True\<rparr>) else do {
        w \<leftarrow> PutWindowElementTimestamp e t w;
        k orig w }) }) = k orig' (w\<lparr>Requests := r, Subwindows := ss\<rparr>)
    \<and> orig_ok orig' (packet_bytes data) c \<and> length ss = length (Subwindows w) \<and> subs_ok (w\<lparr>Subwindows := ss\<rparr>)
    \<and> (\<forall>e'. GetWindowElement (w\<lparr>Subwindows := ss\<rparr>) e' = (if e' = e then Some orig' else GetWindowElement w e'))"
proof -
  have i: "e div 64 < length (Subwindows w)" using e by (simp add: less_mult_imp_div_less mult.commute)
  have "length (Originals (Subwindows w ! (e div 64))) = 64" using subs i by (simp add: subs_ok_def)
  then obtain orig where o: "GetWindowElement w e = Some orig" using i by (simp add: GetWindowElement_def sub_64)
  obtain g where g: "mem (Requests w) = Some g" using mem_ok_block [OF mem] by blast
  obtain n orig' where init: "Original_Initialize (Some g) \<lparr> PacketNum = c, PacketData = data \<rparr> orig = Some (n, orig')" "0 < n"
    "orig_ok orig' (packet_bytes data) c"
    using Original_Initialize_ok [OF data, of g c orig] by blast
  let ?w = "w\<lparr>Requests := Requests w + 1\<rparr>"
  have sub1: "subs_ok ?w" "e < 64 * length (Subwindows ?w)" using subs e by (simp_all add: subs_ok_def)
  obtain ss where ss: "PutWindowElement e orig' ?w = Some (?w\<lparr>Subwindows := ss\<rparr>)" "length ss = length (Subwindows w)"
    "subs_ok (?w\<lparr>Subwindows := ss\<rparr>)" "\<And>e'. GetWindowElement (?w\<lparr>Subwindows := ss\<rparr>) e' = (if e' = e then Some orig' else GetWindowElement w e')"
    using PutWindowElement_ok [OF sub1, of orig'] by auto
  have sub2: "e < 64 * length (Subwindows (?w\<lparr>Subwindows := ss\<rparr>))" using ss(2) e by simp
  obtain ss' where ss': "PutWindowElementTimestamp e t (?w\<lparr>Subwindows := ss\<rparr>) = Some (?w\<lparr>Subwindows := ss, Subwindows := ss'\<rparr>)" "length ss' = length ss"
    "subs_ok (?w\<lparr>Subwindows := ss, Subwindows := ss'\<rparr>)" "\<And>e'. GetWindowElement (?w\<lparr>Subwindows := ss, Subwindows := ss'\<rparr>) e' = GetWindowElement (?w\<lparr>Subwindows := ss\<rparr>) e'"
    using PutWindowElementTimestamp_ok [OF ss(3) sub2, of t] by auto
  have get: "GetWindowElement (w\<lparr>Subwindows := ss'\<rparr>) e' = (if e' = e then Some orig' else GetWindowElement w e')" for e'
    using ss'(4) [of e'] ss(4) [of e'] by (simp add: GetWindowElement_def)
  have "(do {
      orig \<leftarrow> GetWindowElement w e;
      let (block, w) = next_block mem w;
      (n, orig) \<leftarrow> Original_Initialize block \<lparr> PacketNum = c, PacketData = data \<rparr> orig;
      w \<leftarrow> PutWindowElement e orig w;
      (if n = 0 then Some (Siamese_Disabled, c, w\<lparr>EmergencyDisabled := True\<rparr>) else do {
        w \<leftarrow> PutWindowElementTimestamp e t w;
        k orig w }) }) = k orig' (w\<lparr>Requests := Requests w + 1, Subwindows := ss'\<rparr>)"
    using o g init(1,2) ss(1) ss'(1) by (simp add: next_block_def)
  moreover have "subs_ok (w\<lparr>Subwindows := ss'\<rparr>)" using ss'(3) by (simp add: subs_ok_def)
  moreover have "length ss' = length (Subwindows w)" using ss(2) ss'(2) by simp
  ultimately show ?thesis using init(3) get by blast
qed

lemma update_longest_ok:
  assumes "lanes_sized w" and "l < 8"
  shows "\<exists>ls. update_longest l n w = Some (w\<lparr>Lanes := ls, LongestPacket := max (LongestPacket w) n\<rparr>)
    \<and> length ls = 8 \<and> (\<forall>l'<8. NextElement (ls ! l') = NextElement (Lanes w ! l') \<and> Sum (ls ! l') = Sum (Lanes w ! l'))"
proof -
  let ?lane = "Lanes w ! l"
  let ?ls = "(Lanes w)[l := if laneLongestPacket ?lane < n then ?lane\<lparr>laneLongestPacket := n\<rparr> else ?lane]"
  have "update_longest l n w = Some (w\<lparr>Lanes := ?ls, LongestPacket := max (LongestPacket w) n\<rparr>)"
    using assms by (simp add: update_longest_def lanes_sized_def Let_def max_def)
  moreover have "length ?ls = 8" using assms by (simp add: lanes_sized_def)
  moreover have "NextElement (?ls ! l') = NextElement (Lanes w ! l') \<and> Sum (?ls ! l') = Sum (Lanes w ! l')" if "l' < 8" for l'
    using assms that by (cases "l' = l") (simp_all add: lanes_sized_def)
  ultimately show ?thesis by blast
qed

lemma lane_sum_append:
  assumes "ne mod 8 = l" and "base mod 8 = 0" and "base + ne < length L + 8"
  shows "lane_sum (L @ [p]) S (base + ne) l s = lane_sum L S (base + ne) l s"
proof
  fix k
  have lane: "(base + ne) mod 8 = l" using assms(1,2) by (simp add: mod_add_eq [symmetric])
  have "i < length L" if "i \<in> set (filter (\<lambda>i. i mod 8 = l) [S..<base + ne])" for i
    using lane_apart [of i "base + ne"] that lane assms(3) by auto
  then show "lane_sum (L @ [p]) S (base + ne) l s k = lane_sum L S (base + ne) l s k"
    unfolding lane_sum_def by (intro xsum_cong) (simp add: nth_append)
qed

lemma sums_inv_add:
  assumes "sums_inv w L base lo" and "base mod 8 = 0" and "base + Count w = length L"
    and "SumStartElement w' = SumStartElement w" "SumEndElement w' = SumEndElement w" "SumErasedCount w' = SumErasedCount w" "SumColumnStart w' = SumColumnStart w"
    and "Count w' = Count w + 1" "FirstUnremovedElement w' = FirstUnremovedElement w" and "\<And>l. l < 8 \<Longrightarrow> NextElement (Lanes w' ! l) = NextElement (Lanes w ! l) \<and> Sum (Lanes w' ! l) = Sum (Lanes w ! l)"
  shows "sums_inv w' (L @ [p]) base lo"
proof -
  note inv = assms(1) [unfolded sums_inv_def Let_def]
  have "lane_ok w' (L @ [p]) base (base + SumStartElement w - SumErasedCount w) (SumStartElement w) (Count w + 1) l s" if "l < 8" "s < 3" for l s
  proof -
    let ?ne = "NextElement (Lanes w ! l) ! s"
    have old: "?ne mod 8 = l" "SumStartElement w \<le> ?ne" "?ne < Count w + 8"
      "holds (Sum (Lanes w ! l) ! s) (lane_sum L (base + SumStartElement w - SumErasedCount w) (base + ?ne) l s)"
      using inv that by (simp_all add: lane_ok_def Let_def)
    then have "lane_sum (L @ [p]) (base + SumStartElement w - SumErasedCount w) (base + ?ne) l s = lane_sum L (base + SumStartElement w - SumErasedCount w) (base + ?ne) l s"
      using assms(2,3) by (intro lane_sum_append) simp_all
    then show ?thesis using old that assms(10) by (simp add: lane_ok_def)
  qed
  then show ?thesis using inv assms(4-9) by (simp add: sums_inv_def)
qed

lemma elems_ok_add:
  assumes "elems_ok w L base lo hi" and "base + hi = length L"
    and "\<And>e. GetWindowElement w' e = (if e = hi then Some orig else GetWindowElement w e)" and "orig_ok orig p (col (length L))"
  shows "elems_ok w' (L @ [p]) base lo (Suc hi)"
  unfolding elems_ok_def
proof (intro allI impI)
  fix e
  assume e: "lo \<le> e \<and> e < Suc hi"
  show "\<exists>orig. GetWindowElement w' e = Some orig \<and> orig_ok orig ((L @ [p]) ! (base + e)) (col (base + e))"
  proof (cases "e = hi")
    case True
    then show ?thesis using assms(2-4) by (simp add: nth_append)
  next
    case False
    then have "e < hi" using e by simp
    moreover have "base + e < length L" using \<open>e < hi\<close> assms(2) by simp
    ultimately show ?thesis using assms(1,3) e False by (auto simp: elems_ok_def nth_append)
  qed
qed


text \<open>The end of \<open>Add\<close>, after the packet was stored.\<close>

definition finish_add :: "u32 \<Rightarrow> bytes \<Rightarrow> OriginalPacket \<Rightarrow> EncoderPacketWindow \<Rightarrow> (SiameseResult \<times> u32 \<times> EncoderPacketWindow) option" where
  "finish_add column data orig w = do {
     let w = w\<lparr>NextColumn := IncrementColumn1 (NextColumn w)\<rparr>;
     w \<leftarrow> update_longest (unat (column mod kColumnLaneCount)) (Bytes (Buffer orig)) w;
     let w = count_stat SiameseEncoderStats_OriginalCount 1 w;
     let w = count_stat SiameseEncoderStats_OriginalBytes (length data) w;
     Some (Siamese_Success, column, w) }"

lemma finish_add_ok:
  assumes sized: "lanes_sized w" and col: "NextColumn w = col n" and orig: "orig_ok orig p c" and c: "c = col n"
  shows "\<exists>w'. finish_add c data orig w = Some (Siamese_Success, c, w') \<and> NextColumn w' = col (Suc n)
    \<and> LongestPacket w' = max (LongestPacket w) (length p) \<and> lanes_sized w'
    \<and> (\<forall>l<8. NextElement (Lanes w' ! l) = NextElement (Lanes w ! l) \<and> Sum (Lanes w' ! l) = Sum (Lanes w ! l))
    \<and> Count w' = Count w \<and> winColumnStart w' = winColumnStart w \<and> FirstUnremovedElement w' = FirstUnremovedElement w
    \<and> SumStartElement w' = SumStartElement w \<and> SumEndElement w' = SumEndElement w \<and> SumColumnStart w' = SumColumnStart w
    \<and> SumErasedCount w' = SumErasedCount w \<and> Subwindows w' = Subwindows w \<and> EmergencyDisabled w' = EmergencyDisabled w"
proof -
  have bytes: "Bytes (Buffer orig) = length p" using orig by (simp add: orig_ok_def)
  have lane: "unat (c mod kColumnLaneCount) < 8" using c by (simp add: col_lane)
  have sized': "lanes_sized (w\<lparr>NextColumn := col (Suc n)\<rparr>)" using sized by (simp add: lanes_sized_def)
  obtain ls where ls: "update_longest (unat (c mod kColumnLaneCount)) (length p) (w\<lparr>NextColumn := col (Suc n)\<rparr>)
      = Some (w\<lparr>NextColumn := col (Suc n), Lanes := ls, LongestPacket := max (LongestPacket w) (length p)\<rparr>)"
    "length ls = 8" "\<forall>l<8. NextElement (ls ! l) = NextElement (Lanes w ! l) \<and> Sum (ls ! l) = Sum (Lanes w ! l)"
    using update_longest_ok [OF sized' lane, of "length p"] by auto
  show ?thesis unfolding finish_add_def Let_def bytes col IncrementColumn1_col ls(1)
    using ls(2,3) sized by (simp add: count_stat_def lanes_sized_def)
qed

lemma GetWindowElement_cong: "Subwindows w' = Subwindows w \<Longrightarrow> GetWindowElement w' e = GetWindowElement w e"
  by (simp add: GetWindowElement_def)

lemma subs_ok_cong: "Subwindows w' = Subwindows w \<Longrightarrow> subs_ok w' = subs_ok w"
  by (simp add: subs_ok_def)

lemma wrap_diff: "a \<ge> b \<Longrightarrow> a - b < 2 ^ 32 \<Longrightarrow> (a + 2 ^ 32 - b) mod 2 ^ 32 = (a :: nat) - b"
proof -
  assume "a \<ge> b" "a - b < 2 ^ 32"
  moreover from this have "a + 2 ^ 32 - b = (a - b) + 2 ^ 32" by simp
  ultimately show ?thesis by (simp only: mod_add_self2 mod_less)
qed

lemma GetRemainingSlots_eq: "Count w \<le> 16000 \<Longrightarrow> GetRemainingSlots w = 16000 - Count w"
  unfolding GetRemainingSlots_def SIAMESE_MAX_PACKETS_def by (rule wrap_diff) simp_all

lemma Window_Add_ok:
  assumes mem: "mem_ok mem" and inv: "window_inv w L base lo" and data: "length data \<le> 0x1fffffff" and room: "Count w < 16000"
  shows "\<exists>w' base' lo'. Window_Add mem now data w = Some (Siamese_Success, col (length L), w')
    \<and> window_inv w' (L @ [packet_bytes data]) base' lo' \<and> 0 < Count w'"
proof -
  note i = inv [unfolded window_inv_def]
  have size: "window_sized w" and c: "NextColumn w = col (length L)" using i by simp_all
  have el: "0 < Count w \<longrightarrow> elems_ok w L base lo (Count w)" using i by (simp add: packets_inv_def)
  obtain ss r where g: "(if Count w + lanes \<ge> length (Subwindows w) * kSubwindowSize then grow_subwindows mem w else (True, w)) = (True, w\<lparr>Subwindows := ss, Requests := r\<rparr>)"
    "subs_ok (w\<lparr>Subwindows := ss\<rparr>)" "Count w + 8 < 64 * length ss" "0 < Count w \<longrightarrow> elems_ok (w\<lparr>Subwindows := ss\<rparr>) L base lo (Count w)" "slots_ok (Subwindows w) L \<longrightarrow> slots_ok ss L"
    using grow_ok [OF mem size el] by (elim exE conjE) (rule that)
  let ?n = "length L" and ?p = "packet_bytes data"
  define e where "e = (if 0 < Count w then Count w else ?n mod 8)"
  define w1 where "w1 = (if 0 < Count w then w\<lparr>Subwindows := ss, Requests := r, Count := Count w + 1\<rparr> else StartNewWindow (col ?n) (w\<lparr>Subwindows := ss, Requests := r\<rparr>))"
  have slots: "GetRemainingSlots w > 0" using room by (simp add: GetRemainingSlots_eq)
  have run: "Window_Add mem now data w = do {
      orig \<leftarrow> GetWindowElement w1 e;
      let (block, w) = next_block mem w1;
      (n, orig) \<leftarrow> Original_Initialize block \<lparr> PacketNum = col ?n, PacketData = data \<rparr> orig;
      w \<leftarrow> PutWindowElement e orig w;
      (if n = 0 then Some (Siamese_Disabled, col ?n, w\<lparr>EmergencyDisabled := True\<rparr>) else do {
        w \<leftarrow> PutWindowElementTimestamp e (ucast now) w;
        finish_add (col ?n) data orig w }) }"
    using i slots unfolding Window_Add_def finish_add_def Let_def c g(1) w1_def e_def col_lane by (cases "0 < Count w") simp_all
  have w1: "Subwindows w1 = ss" "lanes_sized w1" "NextColumn w1 = col ?n" "Count w1 = e + 1" "\<not> EmergencyDisabled w1"
    using size i by (auto simp: w1_def e_def StartNewWindow_def Let_def window_sized_def lanes_sized_def col_lane)
  have e_room: "e < 64 * length (Subwindows w1)" "e + 8 < 64 * length ss" using g(3) w1(1) by (auto simp: e_def)
  have subs1: "subs_ok w1" using g(2) w1(1) by (simp add: subs_ok_def)
  obtain orig' ss' r' where st: "Window_Add mem now data w = finish_add (col ?n) data orig' (w1\<lparr>Requests := r', Subwindows := ss'\<rparr>)"
    "orig_ok orig' ?p (col ?n)" "length ss' = length ss" "subs_ok (w1\<lparr>Subwindows := ss'\<rparr>)"
    "\<And>e'. GetWindowElement (w1\<lparr>Subwindows := ss'\<rparr>) e' = (if e' = e then Some orig' else GetWindowElement w1 e')"
    using store_packet [OF mem subs1 e_room(1) data, of "col ?n" "ucast now" "finish_add (col ?n) data"] w1(1) unfolding run by auto
  let ?w2 = "w1\<lparr>Requests := r', Subwindows := ss'\<rparr>"
  have w2: "lanes_sized ?w2" "NextColumn ?w2 = col ?n" using w1(2,3) by (simp_all add: lanes_sized_def)
  obtain w' where w': "finish_add (col ?n) data orig' ?w2 = Some (Siamese_Success, col ?n, w')" "NextColumn w' = col (Suc ?n)"
    "LongestPacket w' = max (LongestPacket ?w2) (length ?p)" "lanes_sized w'"
    "\<And>l. l < 8 \<Longrightarrow> NextElement (Lanes w' ! l) = NextElement (Lanes ?w2 ! l) \<and> Sum (Lanes w' ! l) = Sum (Lanes ?w2 ! l)"
    "Count w' = Count ?w2" "winColumnStart w' = winColumnStart ?w2" "FirstUnremovedElement w' = FirstUnremovedElement ?w2"
    "SumStartElement w' = SumStartElement ?w2" "SumEndElement w' = SumEndElement ?w2" "SumColumnStart w' = SumColumnStart ?w2"
    "SumErasedCount w' = SumErasedCount ?w2" "Subwindows w' = Subwindows ?w2" "EmergencyDisabled w' = EmergencyDisabled ?w2"
    using finish_add_ok [OF w2 st(2) refl, of data] by blast
  have sized': "window_sized w'"
    using w'(4,6,13) w1(4) st(3,4) e_room(2) room i by (auto simp: window_sized_def subs_ok_def e_def)
  have get: "GetWindowElement w' e' = (if e' = e then Some orig' else GetWindowElement (w\<lparr>Subwindows := ss\<rparr>) e')" for e'
  proof -
    have "GetWindowElement w' e' = GetWindowElement (w1\<lparr>Subwindows := ss'\<rparr>) e'" using w'(13) by (intro GetWindowElement_cong) simp
    moreover have "GetWindowElement w1 e' = GetWindowElement (w\<lparr>Subwindows := ss\<rparr>) e'" using w1(1) by (intro GetWindowElement_cong) simp
    ultimately show ?thesis using st(5) by simp
  qed
  have "\<exists>base' lo'. packets_inv w' (L @ [?p]) base' lo' \<and> (SumStartElement w' < SumEndElement w' \<longrightarrow> sums_inv w' (L @ [?p]) base' lo')"
  proof (cases "0 < Count w")
    case True
    then have w1_def': "w1 = w\<lparr>Subwindows := ss, Requests := r, Count := Count w + 1\<rparr>" and e_def': "e = Count w" by (simp_all add: w1_def e_def)
    have pk: "packets_inv w L base lo" "SumStartElement w < SumEndElement w \<Longrightarrow> sums_inv w L base lo" using i True by simp_all
    note pi = pk(1) [unfolded packets_inv_def]
    have "elems_ok w' (L @ [?p]) base lo (Suc (Count w))"
      by (rule elems_ok_add [OF g(4) [rule_format, OF True] _ _ st(2)]) (use pi get e_def' in auto)
    moreover have "length ((L @ [?p]) ! (base + e')) \<le> LongestPacket w'" if "FirstUnremovedElement w \<le> e'" "e' < Suc (Count w)" for e'
    proof (cases "e' = Count w")
      case True
      then show ?thesis using pi w'(3) by (simp add: nth_append)
    next
      case False
      then have "length (L ! (base + e')) \<le> LongestPacket w" "base + e' < length L" using that pi by auto
      then show ?thesis using w'(3) w1_def' by (simp add: nth_append)
    qed
    ultimately have "packets_inv w' (L @ [?p]) base lo" using pi w'(3,6-8) w1_def' by (simp add: packets_inv_def maxlen_append max.coboundedI1)
    moreover have "sums_inv w' (L @ [?p]) base lo" if "SumStartElement w' < SumEndElement w'"
      by (rule sums_inv_add [of w]) (use that pi pk(2) w' w1_def' in auto)
    ultimately show ?thesis by blast
  next
    case False
    then have e': "e = ?n mod 8" and w1': "w1 = StartNewWindow (col ?n) (w\<lparr>Subwindows := ss, Requests := r\<rparr>)" by (simp_all add: w1_def e_def)
    let ?base = "?n - ?n mod 8"
    have f: "winColumnStart w1 = col ?base" "FirstUnremovedElement w1 = e" "SumStartElement w1 = e" "SumEndElement w1 = e"
      using w1' e' col_window_start by (simp_all add: StartNewWindow_def Let_def col_lane)
    have "elems_ok w' (L @ [?p]) ?base e (Suc e)"
      using get st(2) e' by (auto simp: elems_ok_def less_Suc_eq_le nth_append)
    then have "packets_inv w' (L @ [?p]) ?base e"
      using w' f w1(4) e' w1' by (auto simp: packets_inv_def nth_append less_Suc_eq_le maxlen_append StartNewWindow_def Let_def)
    then show ?thesis using w'(9,10) f by auto
  qed
  moreover have "slots_ok (Subwindows w') (L @ [?p])"
  proof (rule slots_okI)
    show "subs_ok w'" using sized' by (simp add: window_sized_def)
    fix e' orig assume get': "GetWindowElement w' e' = Some orig"
    show "slot_ok (L @ [?p]) orig"
    proof (cases "e' = e")
      case True
      then have "orig_ok orig ((L @ [?p]) ! ?n) (col ?n)" using get' st(2) by (simp add: get)
      then show ?thesis unfolding slot_ok_def by auto
    next
      case False
      have "slots_ok (Subwindows (w\<lparr>Subwindows := ss\<rparr>)) L" using g(5) i by simp
      moreover have "GetWindowElement (w\<lparr>Subwindows := ss\<rparr>) e' = Some orig" using get' False by (simp add: get)
      ultimately show ?thesis using slots_ok_get slot_ok_append by blast
    qed
  qed
  ultimately show ?thesis using st(1) w'(1,2,6,14) w1(4,5) sized' unfolding window_inv_def by auto
qed

end
