(* ===== verification/Encoder_Remove.thy ===== *)
theory Encoder_Remove
  imports Encoder_Window
begin

text \<open>
  Removal of acknowledged packets from the encoder's window: the running sums are rolled past the removal point, the
  subwindows are rotated, and the longest packets are found again.
\<close>

unbundle bit_operations_syntax

section \<open>Marking packets for removal\<close>

lemma RemoveBefore_ok:
  assumes "window_inv w L base lo"
  shows "window_inv (RemoveBefore c w) L base lo"
proof (cases "InvalidElement w (ColumnToElement w c)")
  case True
  then show ?thesis using assms by (auto simp: RemoveBefore_def Let_def window_inv_def window_sized_def subs_ok_def lanes_sized_def)
next
  case False
  let ?e = "ColumnToElement w c"
  have less: "?e < Count w" using False by (simp add: InvalidElement_def)
  show ?thesis
  proof (cases "FirstUnremovedElement w < ?e")
    case True
    have pk: "packets_inv w L base lo" using assms less by (simp add: window_inv_def)
    have "packets_inv (w\<lparr>FirstUnremovedElement := ?e\<rparr>) L base lo"
      using pk True less by (simp add: packets_inv_def elems_ok_def GetWindowElement_def)
    moreover have "sums_inv w L base lo \<Longrightarrow> sums_inv (w\<lparr>FirstUnremovedElement := ?e\<rparr>) L base lo"
      using True by (simp add: sums_inv_def lane_ok_def)
    ultimately show ?thesis using assms True False less
      by (simp add: RemoveBefore_def Let_def window_inv_def window_sized_def subs_ok_def lanes_sized_def)
  next
    case False
    then show ?thesis using assms less by (simp add: RemoveBefore_def Let_def InvalidElement_def)
  qed
qed

section \<open>Rolling the sums\<close>

text \<open>During the loop, the sums that were visited are relative to the new first element.\<close>

definition roll_done :: "nat \<Rightarrow> bytes list \<Rightarrow> nat \<Rightarrow> nat \<Rightarrow> nat \<Rightarrow> nat \<Rightarrow> EncoderPacketWindow \<Rightarrow> nat \<Rightarrow> nat \<Rightarrow> bool" where
  "roll_done R L base S st hi w l s \<longleftrightarrow> lane_ok w L (base + R) S (st - R) (hi - R) l s"

lemma lanes_update: "w' = w\<lparr>Lanes := Lanes w', Requests := Requests w'\<rparr> \<Longrightarrow> w'\<lparr>Lanes := ls\<rparr> = w\<lparr>Lanes := ls, Requests := Requests w'\<rparr>"
  by (cases w, cases w') simp

lemma sum_touched_next:
  assumes "sum_touched l s w w1" and "length (Lanes w1) = 8" and "l < 8"
  shows "sum_touched l s w (put_next l s e w1)"
proof -
  note t = assms(1) [unfolded sum_touched_def]
  let ?ls = "(Lanes w1)[l := (Lanes w1 ! l)\<lparr>NextElement := (NextElement (Lanes w1 ! l))[s := e]\<rparr>]"
  have eq: "put_next l s e w1 = w\<lparr>Lanes := ?ls, Requests := Requests w1\<rparr>"
    unfolding put_next_def Let_def by (rule lanes_update) (use t in blast)
  have "length (Lanes w1) = length (Lanes w)" using t by blast
  moreover have "laneLongestPacket (?ls ! l') = laneLongestPacket (Lanes w ! l') \<and> length (NextElement (?ls ! l')) = length (NextElement (Lanes w ! l'))
      \<and> length (Sum (?ls ! l')) = length (Sum (Lanes w ! l'))
      \<and> (\<forall>s'. l' \<noteq> l \<or> s' \<noteq> s \<longrightarrow> NextElement (?ls ! l') ! s' = NextElement (Lanes w ! l') ! s' \<and> Sum (?ls ! l') ! s' = Sum (Lanes w ! l') ! s')" if "l' < 8" for l'
    using t that assms(2,3) by (cases "l' = l") simp_all
  ultimately show ?thesis unfolding sum_touched_def eq by simp
qed

lemma roll_sum_ok:
  assumes gf: "gf256_ready gf" and mem: "mem_ok mem" and el: "elems_ok w L base lo hi" and size: "lanes_sized w"
    and ls: "l < 8" "s < 3" and lane: "lane_ok w L base S st hi l s" and range: "lo \<le> st" "S \<le> base + st" "base mod 8 = 0" "R \<le> hi" "R mod 8 = 0" "hi < 2 ^ 31"
  shows "\<exists>w'. roll_sum mem gf R l s w = Some w' \<and> sum_touched l s w w' \<and> roll_done R L base S st hi w' l s"
proof -
  obtain sm w1 where g: "GetSum mem gf l s R w = Some (sm, w1)" "sum_touched l s w w1" "lane_ok w1 L base S st hi l s" "R \<le> NextElement (Lanes w1 ! l) ! s"
    using GetSum_ok [OF gf mem el size ls lane range(1-4)] by blast
  let ?ne = "NextElement (Lanes w1 ! l) ! s"
  have sizes: "length (Lanes w1) = 8" "length (NextElement (Lanes w1 ! l)) = 3" "length (Sum (Lanes w1 ! l)) = 3"
    using g(2) size ls(1) by (simp_all add: sum_touched_def lanes_sized_def)
  have ne: "?ne mod 8 = l" "st \<le> ?ne" "?ne < hi + 8" "holds (Sum (Lanes w1 ! l) ! s) (lane_sum L S (base + ?ne) l s)"
    using g(3) by (simp_all add: lane_ok_def Let_def)
  have "(?ne + 2 ^ 32 - R) mod 2 ^ 32 = ?ne - R" by (rule wrap_diff) (use g(4) ne(3) range(6) in auto)
  then have run: "roll_sum mem gf R l s w = Some (put_next l s (?ne - R) w1)" using g(1) by (simp add: roll_sum_def)
  have touched: "sum_touched l s w (put_next l s (?ne - R) w1)" by (rule sum_touched_next [OF g(2) sizes(1) ls(1)])
  have "(?ne - R) mod 8 = l"
  proof -
    obtain q where "R = 8 * q" using range(5) by (metis mod_0_imp_dvd dvdE)
    then show ?thesis using ne(1) g(4) by (metis add.commute le_add_diff_inverse mod_mult_self2)
  qed
  moreover have "base + R + (?ne - R) = base + ?ne" using g(4) by simp
  moreover have "st - R \<le> ?ne - R" "?ne - R < hi - R + 8" using ne(2,3) g(4) range(4) by linarith+
  ultimately have "roll_done R L base S st hi (put_next l s (?ne - R) w1) l s"
    using ne sizes ls g(4) range(4) by (simp add: roll_done_def lane_ok_def put_next_def Let_def)
  then show ?thesis using run touched by blast
qed


definition rolling :: "EncoderPacketWindow \<Rightarrow> bytes list \<Rightarrow> nat \<Rightarrow> nat \<Rightarrow> nat \<Rightarrow> nat \<Rightarrow> nat \<Rightarrow> nat \<Rightarrow> EncoderPacketWindow \<Rightarrow> bool" where
  "rolling w0 L base S st hi R m w \<longleftrightarrow> w = w0\<lparr>Lanes := Lanes w, Requests := Requests w\<rparr> \<and> lanes_sized w
     \<and> (\<forall>l<8. \<forall>s<3. if 3 * l + s < m then roll_done R L base S st hi w l s else lane_ok w L base S st hi l s)"

lemma lane_ok_touched:
  assumes "sum_touched l s w w'" and "l' < 8" and "l' \<noteq> l \<or> s' \<noteq> s"
  shows "lane_ok w' L base S st hi l' s' = lane_ok w L base S st hi l' s'"
proof -
  have "NextElement (Lanes w' ! l') ! s' = NextElement (Lanes w ! l') ! s'" "Sum (Lanes w' ! l') ! s' = Sum (Lanes w ! l') ! s'"
    using assms unfolding sum_touched_def by blast+
  then show ?thesis by (simp add: lane_ok_def)
qed

lemma lanes_sized_touched: "sum_touched l s w w' \<Longrightarrow> lanes_sized w \<Longrightarrow> lanes_sized w'"
  unfolding lanes_sized_def sum_touched_def by metis

lemma lanes_update_trans:
  assumes "w = w0\<lparr>Lanes := Lanes w, Requests := Requests w\<rparr>" and "w' = w\<lparr>Lanes := Lanes w', Requests := Requests w'\<rparr>"
  shows "w' = w0\<lparr>Lanes := Lanes w', Requests := Requests w'\<rparr>"
  using assms by (cases w0, cases w, cases w') simp

lemma elems_ok_cong: "Subwindows w' = Subwindows w \<Longrightarrow> elems_ok w' L base lo hi = elems_ok w L base lo hi"
  by (simp add: elems_ok_def GetWindowElement_def)

lemma lanes_update_subwindows: "w = w0\<lparr>Lanes := Lanes w, Requests := Requests w\<rparr> \<Longrightarrow> Subwindows w = Subwindows w0"
  by (cases w0, cases w) simp

lemma rolling_step:
  assumes gf: "gf256_ready gf" and mem: "mem_ok mem" and el: "elems_ok w0 L base lo hi"
    and range: "lo \<le> st" "S \<le> base + st" "base mod 8 = 0" "R \<le> hi" "R mod 8 = 0" "hi < 2 ^ 31"
    and ls: "l < 8" "s < 3" and inv: "rolling w0 L base S st hi R (3 * l + s) w"
  shows "\<exists>w'. roll_sum mem gf R l s w = Some w' \<and> rolling w0 L base S st hi R (3 * l + Suc s) w'"
proof -
  note i = inv [unfolded rolling_def]
  have "elems_ok w L base lo hi" using el lanes_update_subwindows [OF conjunct1 [OF i]] elems_ok_cong by blast
  moreover have "lane_ok w L base S st hi l s" using i ls by auto
  ultimately obtain w' where w': "roll_sum mem gf R l s w = Some w'" "sum_touched l s w w'" "roll_done R L base S st hi w' l s"
    using roll_sum_ok [OF gf mem _ _ ls _ range] i by blast
  have "if 3 * l' + s' < 3 * l + Suc s then roll_done R L base S st hi w' l' s' else lane_ok w' L base S st hi l' s'" if "l' < 8" "s' < 3" for l' s'
  proof (cases "l' = l \<and> s' = s")
    case True
    then show ?thesis using w'(3) by simp
  next
    case False
    then have "3 * l' + s' \<noteq> 3 * l + s" using that ls by presburger
    moreover have "if 3 * l' + s' < 3 * l + s then roll_done R L base S st hi w l' s' else lane_ok w L base S st hi l' s'" using i that by blast
    moreover have "l' \<noteq> l \<or> s' \<noteq> s" using False by blast
    ultimately show ?thesis using that lane_ok_touched [OF w'(2) that(1)] by (auto simp: roll_done_def split: if_splits)
  qed
  moreover have "w' = w0\<lparr>Lanes := Lanes w', Requests := Requests w'\<rparr>"
    by (rule lanes_update_trans) (use i w'(2) in \<open>auto simp: sum_touched_def\<close>)
  ultimately show ?thesis using w'(1) lanes_sized_touched [OF w'(2)] i unfolding rolling_def by blast
qed

lemma rolling_all:
  assumes gf: "gf256_ready gf" and mem: "mem_ok mem" and el: "elems_ok w L base lo hi" and size: "lanes_sized w"
    and range: "lo \<le> st" "S \<le> base + st" "base mod 8 = 0" "R \<le> hi" "R mod 8 = 0" "hi < 2 ^ 31"
    and lane: "\<forall>l<8. \<forall>s<3. lane_ok w L base S st hi l s"
  shows "\<exists>w'. for_range 0 lanes (\<lambda>l. for_range 0 kColumnSumCount (roll_sum mem gf R l)) w = Some w' \<and> rolling w L base S st hi R 24 w'"
proof -
  have "\<exists>w'. for_range 0 8 (\<lambda>l. for_range 0 3 (roll_sum mem gf R l)) w = Some w' \<and> rolling w L base S st hi R (3 * 8) w'"
  proof (rule for_range_rule [where P = "\<lambda>l. rolling w L base S st hi R (3 * l)"])
    show "rolling w L base S st hi R (3 * 0) w" using lane size by (simp add: rolling_def)
    fix l w1 assume l: "0 \<le> l" "l < (8 :: nat)" "rolling w L base S st hi R (3 * l) w1"
    have "\<exists>w'. for_range 0 3 (roll_sum mem gf R l) w1 = Some w' \<and> rolling w L base S st hi R (3 * l + 3) w'"
      by (rule for_range_rule [where P = "\<lambda>s. rolling w L base S st hi R (3 * l + s)"])
        (use l rolling_step [OF gf mem el range] in auto)
    then show "\<exists>w'. for_range 0 3 (roll_sum mem gf R l) w1 = Some w' \<and> rolling w L base S st hi R (3 * Suc l) w'" by (simp add: add.commute)
  qed simp
  then show ?thesis by (simp add: lanes_8 kColumnSumCount_def)
qed


section \<open>The longest packets\<close>

lemma find_longest_ok:
  assumes el: "elems_ok w L base lo (Count w)" and range: "lo \<le> FirstUnremovedElement w" "FirstUnremovedElement w \<le> Count w" "base + Count w = length L" and size: "lanes_sized w"
  shows "\<exists>m ls. find_longest w = Some (w\<lparr>LongestPacket := m, Lanes := ls\<rparr>) \<and> lanes_sized (w\<lparr>Lanes := ls\<rparr>)
    \<and> (\<forall>l<8. NextElement (ls ! l) = NextElement (Lanes w ! l) \<and> Sum (ls ! l) = Sum (Lanes w ! l))
    \<and> m \<le> maxlen L \<and> (\<forall>e. FirstUnremovedElement w \<le> e \<and> e < Count w \<longrightarrow> length (L ! (base + e)) \<le> m)"
proof -
  let ?P = "\<lambda>i (m, ll :: nat list). m \<le> maxlen L \<and> (\<forall>e. FirstUnremovedElement w \<le> e \<and> e < i \<longrightarrow> length (L ! (base + e)) \<le> m)"
  have "\<exists>s. for_range (FirstUnremovedElement w) (Count w) (longest_step w) (0, replicate lanes 0) = Some s \<and> ?P (Count w) s"
  proof (rule for_range_rule)
    fix i and s :: "nat \<times> nat list"
    assume i: "FirstUnremovedElement w \<le> i" "i < Count w" "?P i s"
    obtain orig where o: "GetWindowElement w i = Some orig" "orig_ok orig (L ! (base + i)) (col (base + i))"
      using el i(1,2) range(1) unfolding elems_ok_def by (meson le_trans)
    obtain m0 ll0 where s: "s = (m0, ll0)" by (cases s)
    let ?m = "if m0 < length (L ! (base + i)) then length (L ! (base + i)) else m0"
    have step: "longest_step w i s = Some (?m, if ll0 ! (i mod lanes) < length (L ! (base + i)) then ll0[i mod lanes := length (L ! (base + i))] else ll0)"
      using o by (simp add: s longest_step_def Let_def orig_ok_def)
    have "length (L ! (base + e)) \<le> ?m" if "FirstUnremovedElement w \<le> e \<and> e < Suc i" for e
    proof (cases "e = i")
      case False
      then have "length (L ! (base + e)) \<le> m0" using i(3) that s by simp
      then show ?thesis by simp
    qed simp
    moreover have "?m \<le> maxlen L" using i(2,3) s range(3) maxlen_nth [of "base + i" L] by simp
    ultimately show "\<exists>s'. longest_step w i s = Some s' \<and> ?P (Suc i) s'" unfolding step by blast
  qed (use range in auto)
  then obtain m ll where m: "for_range (FirstUnremovedElement w) (Count w) (longest_step w) (0, replicate lanes 0) = Some (m, ll)"
    "m \<le> maxlen L \<and> (\<forall>e. FirstUnremovedElement w \<le> e \<and> e < Count w \<longrightarrow> length (L ! (base + e)) \<le> m)" by auto
  let ?ls = "map (\<lambda>laneIndex. (Lanes w ! laneIndex)\<lparr>laneLongestPacket := ll ! laneIndex\<rparr>) [0..<lanes]"
  have "find_longest w = Some (w\<lparr>LongestPacket := m, Lanes := ?ls\<rparr>)" using m(1) by (simp add: find_longest_def)
  moreover have "lanes_sized (w\<lparr>Lanes := ?ls\<rparr>)" using size by (simp add: lanes_sized_def lanes_8)
  ultimately show ?thesis using m(2) by (intro exI [of _ m] exI [of _ ?ls]) (simp add: lanes_8)
qed

section \<open>Resetting the sums\<close>

lemma GetNextLaneElement_ok:
  assumes "l < 8"
  shows "GetNextLaneElement e l mod 8 = l" "e \<le> GetNextLaneElement e l" "GetNextLaneElement e l < e + 8"
proof -
  obtain q r where e: "e = 8 * q + r" "r < 8" by (metis mod_less_divisor mult_div_mod_eq zero_less_numeral)
  then have "GetNextLaneElement e l = (if l < r then 8 * q + l + 8 else 8 * q + l)"
    by (simp add: GetNextLaneElement_def lanes_8)
  then show "GetNextLaneElement e l mod 8 = l" "e \<le> GetNextLaneElement e l" "GetNextLaneElement e l < e + 8"
    using e assms by auto
qed

lemma lane_sum_none:
  assumes "ne mod 8 = l" and "S \<le> ne" and "ne < S + 8"
  shows "lane_sum L S ne l s = (\<lambda>_. 0)"
  using filter_lane_gap [OF assms, of S] by (simp add: lane_sum_def fun_eq_iff)

lemma ResetSums_ok:
  assumes pk: "packets_inv w L base lo" and size: "lanes_sized w" and st: "lo \<le> st" "st \<le> Count w" "st \<le> FirstUnremovedElement w"
  shows "sums_inv (ResetSums st w) L base lo" "packets_inv (ResetSums st w) L base lo" "lanes_sized (ResetSums st w)"
proof -
  note p = pk [unfolded packets_inv_def]
  have "lane_ok (ResetSums st w) L base (base + st) st (Count w) l s" if "l < 8" "s < 3" for l s
  proof -
    let ?ne = "GetNextLaneElement st l"
    have ne: "NextElement (Lanes (ResetSums st w) ! l) ! s = ?ne" "Sum (Lanes (ResetSums st w) ! l) ! s = (Sum (Lanes w ! l) ! s)\<lparr>Bytes := 0\<rparr>"
      using that size by (simp_all add: ResetSums_def lanes_8 kColumnSumCount_def lanes_sized_def)
    have "(base + ?ne) mod 8 = l" using p GetNextLaneElement_ok(1) [OF that(1)] that(1) by (simp add: mod_add_eq [symmetric])
    then have "lane_sum L (base + st) (base + ?ne) l s = (\<lambda>_. 0)"
      using GetNextLaneElement_ok(2,3) [OF that(1), of st] by (intro lane_sum_none) simp_all
    then show ?thesis using ne GetNextLaneElement_ok [OF that(1), of st] st(2) holds_cleared by (simp add: lane_ok_def)
  qed
  then show "sums_inv (ResetSums st w) L base lo"
    using p st by (simp add: sums_inv_def ResetSums_def ElementToColumn_def)
  show "packets_inv (ResetSums st w) L base lo" using pk by (simp add: packets_inv_def ResetSums_def elems_ok_def GetWindowElement_def)
  show "lanes_sized (ResetSums st w)" using size by (simp add: lanes_sized_def ResetSums_def lanes_8 kColumnSumCount_def)
qed


lemma ResetSums_window:
  assumes pk: "packets_inv w L base lo" and size: "window_sized w" and "\<not> EmergencyDisabled w" and "NextColumn w = col (length L)" and "slots_ok (Subwindows w) L"
  shows "window_inv (ResetSums (FirstUnremovedElement w) w) L base lo" "sums_inv (ResetSums (FirstUnremovedElement w) w) L base lo"
proof -
  have p: "lo \<le> FirstUnremovedElement w" "FirstUnremovedElement w \<le> Count w" "lanes_sized w" using pk size by (simp_all add: packets_inv_def window_sized_def)
  note r = ResetSums_ok [OF pk p(3,1,2) order_refl]
  show "sums_inv (ResetSums (FirstUnremovedElement w) w) L base lo" by (rule r(1))
  moreover have "window_sized (ResetSums (FirstUnremovedElement w) w)" using r(3) size by (simp add: window_sized_def ResetSums_def subs_ok_def)
  ultimately show "window_inv (ResetSums (FirstUnremovedElement w) w) L base lo"
    using r(2) assms(3-5) by (simp add: window_inv_def ResetSums_def)
qed

section \<open>Removing elements\<close>

text \<open>The sums of \<open>w\<close> are those of a window that starts \<open>R\<close> elements later.\<close>

definition sums_shifted :: "EncoderPacketWindow \<Rightarrow> bytes list \<Rightarrow> nat \<Rightarrow> nat \<Rightarrow> nat \<Rightarrow> bool" where
  "sums_shifted w L base lo R \<longleftrightarrow> lanes_sized w \<and> (SumStartElement w < SumEndElement w \<longrightarrow> sums_inv (w\<lparr>Count := Count w - R, FirstUnremovedElement := FirstUnremovedElement w - R\<rparr>) L (base + R) (lo - R))"

lemma roll_sums_ok:
  assumes gf: "gf256_ready gf" and mem: "mem_ok mem" and inv: "sums_inv w L base lo" and pk: "packets_inv w L base lo" and size: "lanes_sized w"
    and R: "R \<le> Count w" "R mod 8 = 0" and count: "Count w \<le> 16000"
  shows "\<exists>ls r a b c. roll_sums mem gf R w = Some (w\<lparr>Lanes := ls, Requests := r, SumErasedCount := a, SumEndElement := b, SumStartElement := c\<rparr>)
    \<and> sums_shifted (w\<lparr>Lanes := ls, Requests := r, SumErasedCount := a, SumEndElement := b, SumStartElement := c\<rparr>) L base lo R"
proof -
  note p = pk [unfolded packets_inv_def] and i = inv [unfolded sums_inv_def Let_def]
  let ?S = "base + SumStartElement w - SumErasedCount w" and ?st = "SumStartElement w"
  obtain w1 where w1: "for_range 0 lanes (\<lambda>l. for_range 0 kColumnSumCount (roll_sum mem gf R l)) w = Some w1" "rolling w L base ?S ?st (Count w) R 24 w1"
    using rolling_all [OF gf mem _ size, of L base lo "Count w" ?st ?S R] p i R count by auto
  define ls r where "ls = Lanes w1" and "r = Requests w1"
  have eq: "w1 = w\<lparr>Lanes := ls, Requests := r\<rparr>" using w1(2) unfolding rolling_def ls_def r_def by blast
  define a b c where "a = SumErasedCount w + (R - ?st)" and "b = SumEndElement w - R" and "c = ?st - R"
  let ?w = "w\<lparr>Lanes := ls, Requests := r, SumErasedCount := a, SumEndElement := b, SumStartElement := c\<rparr>"
  have run: "roll_sums mem gf R w = Some ?w" using w1(1) unfolding roll_sums_def eq by (auto simp: a_def b_def c_def Let_def)
  have lanes: "lane_ok w1 L (base + R) ?S c (Count w - R) l s" if "l < 8" "s < 3" for l s
  proof -
    have "3 * l + s < 24" using that by simp
    then have "roll_done R L base ?S ?st (Count w) w1 l s" using w1(2) that unfolding rolling_def by (metis (full_types))
    then show ?thesis by (simp add: roll_done_def c_def)
  qed
  have "base + R + c - a = ?S" using i unfolding a_def c_def by linarith
  moreover have "a \<le> base + R + c" using i unfolding a_def c_def by linarith
  ultimately have "sums_inv (?w\<lparr>Count := Count w - R, FirstUnremovedElement := FirstUnremovedElement w - R\<rparr>) L (base + R) (lo - R)"
    using i lanes by (auto simp: sums_inv_def lane_ok_def Let_def eq b_def c_def)
  moreover have "lanes_sized ?w" using w1(2) by (simp add: rolling_def eq lanes_sized_def)
  ultimately show ?thesis using run unfolding sums_shifted_def by (intro exI [of _ ls] exI [of _ r] exI [of _ a] exI [of _ b] exI [of _ c]) simp
qed

lemma elems_ok_rotate:
  assumes el: "elems_ok w L base lo (Count w)" and k: "64 * k \<le> Count w" and room: "Count w \<le> 64 * length (Subwindows w)"
    and w': "Subwindows w' = drop k (Subwindows w) @ take k (Subwindows w)"
  shows "elems_ok w' L (base + 64 * k) (lo - 64 * k) (Count w - 64 * k)"
  unfolding elems_ok_def
proof (intro allI impI)
  fix e assume e: "lo - 64 * k \<le> e \<and> e < Count w - 64 * k"
  then have less: "lo \<le> e + 64 * k" "e + 64 * k < Count w" by linarith+
  then have "e + 64 * k < length (Subwindows w) * 64" using room by linarith
  then have "(e + 64 * k) div 64 < length (Subwindows w)" by (rule less_mult_imp_div_less)
  moreover have split: "(e + 64 * k) div 64 = k + e div 64" "(e + 64 * k) mod 64 = e mod 64" by simp_all
  ultimately have "tab_get (Subwindows w') (e div 64) = tab_get (Subwindows w) (k + e div 64)"
    by (simp add: w' tab_get_def nth_append)
  then have get: "GetWindowElement w' e = GetWindowElement w (e + 64 * k)"
    unfolding GetWindowElement_def sub_64 split by simp
  have assoc: "base + 64 * k + e = base + (e + 64 * k)" by simp
  show "\<exists>orig. GetWindowElement w' e = Some orig \<and> orig_ok orig (L ! (base + 64 * k + e)) (col (base + 64 * k + e))"
    unfolding get assoc using el less unfolding elems_ok_def by blast
qed

lemma RemoveElements_ok:
  assumes gf: "gf256_ready gf" and mem: "mem_ok mem" and inv: "window_inv w L base lo" and count: "0 < Count w"
  shows "\<exists>w' base' lo'. RemoveElements mem gf w = Some w' \<and> window_inv w' L base' lo' \<and> 0 < Count w'
    \<and> base' + FirstUnremovedElement w' = base + FirstUnremovedElement w"
proof -
  have pk: "packets_inv w L base lo" and size: "window_sized w" and sums: "SumStartElement w < SumEndElement w \<Longrightarrow> sums_inv w L base lo"
    using inv count by (simp_all add: window_inv_def)
  note p = pk [unfolded packets_inv_def] and z = size [unfolded window_sized_def]
  define k where "k = FirstUnremovedElement w div 64"
  have k: "64 * k \<le> FirstUnremovedElement w" "64 * k < Count w" using p by (auto simp: k_def intro: le_less_trans)
  have mod8: "64 * k mod 8 = 0" by (simp add: mod_eq_0_iff_dvd)
  have len: "Count w + 7 < 64 * length (Subwindows w)" using z count by auto
  obtain ls r a b c where w1: "(if SumEndElement w > SumStartElement w then roll_sums mem gf (k * 64) w else Some w)
      = Some (w\<lparr>Lanes := ls, Requests := r, SumErasedCount := a, SumEndElement := b, SumStartElement := c\<rparr>)"
    "sums_shifted (w\<lparr>Lanes := ls, Requests := r, SumErasedCount := a, SumEndElement := b, SumStartElement := c\<rparr>) L base lo (64 * k)"
  proof (cases "SumEndElement w > SumStartElement w")
    case True
    then show thesis using roll_sums_ok [OF gf mem sums pk, of "64 * k"] mod8 k z by (auto simp: mult.commute intro: that)
  next
    case False
    then show thesis using that [of "SumStartElement w" "SumEndElement w" "SumErasedCount w" "Requests w" "Lanes w"] z by (simp add: sums_shifted_def)
  qed
  obtain g where g: "mem r = Some g" using mem_ok_block [OF mem] by blast
  let ?w2 = "w\<lparr>Lanes := ls, SumErasedCount := a, SumEndElement := b, SumStartElement := c, Requests := r + 1,
    Subwindows := drop k (Subwindows w) @ take k (Subwindows w), Count := Count w - 64 * k, winColumnStart := col (base + 64 * k),
    FirstUnremovedElement := FirstUnremovedElement w - 64 * k\<rparr>"
  have start: "AddColumns (word_of_nat k * 64) (col base) = col (base + 64 * k)" using AddColumns_col(1) [of "k * 64" base] by (simp add: mult.commute)
  have "length (Subwindows w) \<ge> k" using k len by linarith
  then have run: "RemoveElements mem gf w = do { w \<leftarrow> find_longest ?w2; Some (if SumEndElement w \<le> SumStartElement w then ResetSums (FirstUnremovedElement w) w else w) }"
    using g p unfolding RemoveElements_def Let_def sub_64 k_def [symmetric] w1(1)
    by (simp add: next_block_def ElementToColumn_def start) (simp add: mult.commute)
  have el: "elems_ok ?w2 L (base + 64 * k) (lo - 64 * k) (Count ?w2)"
    using elems_ok_rotate [of w L base lo k ?w2] p k len by simp
  have lz: "lanes_sized ?w2" using w1(2) by (simp add: sums_shifted_def lanes_sized_def)
  have bounds: "lo - 64 * k \<le> FirstUnremovedElement ?w2" "FirstUnremovedElement ?w2 \<le> Count ?w2" "base + 64 * k + Count ?w2 = length L"
    using p k by (simp_all add: diff_le_mono)
  obtain m ls' where m: "find_longest ?w2 = Some (?w2\<lparr>LongestPacket := m, Lanes := ls'\<rparr>)" "lanes_sized (?w2\<lparr>Lanes := ls'\<rparr>)"
    "\<And>l. l < 8 \<Longrightarrow> NextElement (ls' ! l) = NextElement (Lanes ?w2 ! l) \<and> Sum (ls' ! l) = Sum (Lanes ?w2 ! l)" "m \<le> maxlen L"
    "\<And>e. FirstUnremovedElement ?w2 \<le> e \<and> e < Count ?w2 \<Longrightarrow> length (L ! (base + 64 * k + e)) \<le> m"
    using find_longest_ok [OF el bounds lz] by blast
  let ?w3 = "?w2\<lparr>LongestPacket := m, Lanes := ls'\<rparr>"
  have pk3: "packets_inv ?w3 L (base + 64 * k) (lo - 64 * k)"
    using p k m(4,5) el mod8 elems_ok_cong [of ?w3 ?w2] by (auto simp: packets_inv_def mod_add_eq [symmetric, of base])
  have sz3: "window_sized ?w3"
    using z m(2) len by (auto simp: window_sized_def subs_ok_def lanes_sized_def dest: in_set_dropD in_set_takeD)
  have "slots_ok (Subwindows ?w3) L" using inv by (auto simp: window_inv_def slots_ok_def dest: in_set_dropD in_set_takeD)
  then have dis: "\<not> EmergencyDisabled ?w3" "NextColumn ?w3 = col (length L)" "slots_ok (Subwindows ?w3) L" using inv by (simp_all add: window_inv_def)
  show ?thesis
  proof (cases "b \<le> c")
    case True
    let ?w4 = "ResetSums (FirstUnremovedElement ?w3) ?w3"
    have r: "RemoveElements mem gf w = Some ?w4" using run m(1) True by simp
    have "window_inv ?w4 L (base + 64 * k) (lo - 64 * k)" by (rule ResetSums_window(1) [OF pk3 sz3 dis])
    then show ?thesis using r k by (intro exI [of _ ?w4] exI [of _ "base + 64 * k"] exI [of _ "lo - 64 * k"]) (simp add: ResetSums_def)
  next
    case False
    have r: "RemoveElements mem gf w = Some ?w3" using run m(1) False by simp
    have "sums_inv ?w3 L (base + 64 * k) (lo - 64 * k)"
      using w1(2) False m(3) by (simp add: sums_shifted_def sums_inv_def lane_ok_def Let_def)
    then have "window_inv ?w3 L (base + 64 * k) (lo - 64 * k)" using dis pk3 sz3 by (simp add: window_inv_def)
    then show ?thesis using r k by (intro exI [of _ ?w3] exI [of _ "base + 64 * k"] exI [of _ "lo - 64 * k"]) simp
  qed
qed

end
