(* ===== verification/Siamese_Acks.thy ===== *)
theory Siamese_Acks
  imports Siamese_Encoder
begin

text \<open>
  Acknowledgements and retransmissions of the FEC encoder, from \<open>SiameseEncoder.cpp\<close>: the acknowledgement state with its
  list of loss ranges, the estimate of the retransmission timeout, and the choice of the packet to send again.
\<close>

unbundle bit_operations_syntax

section \<open>Loss ranges\<close>

definition DecodeNextRange :: "EncoderAcknowledgementState \<Rightarrow> (bool \<times> EncoderAcknowledgementState) option" where
  "DecodeNextRange a =
     (if Offset a \<ge> DataBytes a then Some (False, a)
      else do {
        d \<leftarrow> ackData a;
        r \<leftarrow> DeserializeHeader_NACKLossRange d (Offset a) (DataBytes a + kPaddingBytes - Offset a);
        (case r of
           ParseError \<Rightarrow> Some (False, a)
         | Parsed n (relativeStart, lossCountM1) \<Rightarrow>
             let a = a\<lparr>Offset := Offset a + n\<rparr>
             in if Offset a > DataBytes a then Some (False, a)
                else Some (True, a\<lparr>LossColumn := AddColumns (LossColumn a) relativeStart, LossCount := lossCountM1 + 1\<rparr>)) })"

definition GetNextLossColumn :: "EncoderAcknowledgementState \<Rightarrow> (u32 option \<times> EncoderAcknowledgementState) option" where
  "GetNextLossColumn a = do {
     (ok, a) \<leftarrow> (if LossCount a \<le> 0 then DecodeNextRange (a\<lparr>LossColumn := IncrementColumn1 (LossColumn a)\<rparr>) else Some (True, a));
     (if \<not> ok then Some (None, a)
      else Some (Some (LossColumn a), a\<lparr>LossColumn := IncrementColumn1 (LossColumn a), LossCount := LossCount a - 1\<rparr>)) }"

definition RestartLossIterator :: "EncoderAcknowledgementState \<Rightarrow> EncoderAcknowledgementState option" where
  "RestartLossIterator a = do {
     (_, a) \<leftarrow> DecodeNextRange (a\<lparr>Offset := 0, LossColumn := NextColumnExpected a, LossCount := 0\<rparr>);
     Some a }"

definition Ack_Clear :: "EncoderAcknowledgementState \<Rightarrow> EncoderAcknowledgementState" where
  "Ack_Clear a = a\<lparr>Offset := 0, LossColumn := 0, LossCount := 0, DataBytes := 0, FoundOldest := False\<rparr>"

definition HasNegativeAcknowledgements :: "EncoderAcknowledgementState \<Rightarrow> bool" where
  "HasNegativeAcknowledgements a \<longleftrightarrow> DataBytes a > 0"

section \<open>Retransmission timeout\<close>

text \<open>The delay of an element since it was last sent, kept when it is the longest one.\<close>

definition ack_delay :: "EncoderPacketWindow \<Rightarrow> u32 \<Rightarrow> nat \<Rightarrow> u32 \<Rightarrow> u32 option" where
  "ack_delay w nowMsec element longest = do {
     sent \<leftarrow> GetWindowElementTimestamp w element;
     let delayMsec = nowMsec - sent;
     Some (if delayMsec > longest \<and> 0 <s delayMsec then delayMsec else longest) }"

text \<open>The elements before the first loss of a range; the loop stops the scan at the end of the window.\<close>

function scan_acked :: "EncoderPacketWindow \<Rightarrow> u32 \<Rightarrow> nat \<Rightarrow> nat \<Rightarrow> u32 \<Rightarrow> (bool \<times> nat \<times> u32) option" where
  "scan_acked w nowMsec firstLoss element longest =
     (if element < firstLoss then
        (if element \<ge> Count w then Some (False, element, longest)
         else do {
           longest \<leftarrow> ack_delay w nowMsec element longest;
           scan_acked w nowMsec firstLoss (element + 1) longest })
      else Some (True, element, longest))"
  by pat_completeness auto
termination by (relation "measure (\<lambda>(w, now, firstLoss, element, longest). firstLoss - element)") auto

declare scan_acked.simps [simp del]

text \<open>The selective acknowledgements implied by the loss ranges.  The last component tells that the data were bad, and
  the function returns.  The additions wrap at 32 bits.\<close>

lemma NACKLossRange_bytes:
  "DeserializeHeader_NACKLossRange b off space = Some (Parsed n v) \<Longrightarrow> 0 < n"
  by (auto simp: DeserializeHeader_NACKLossRange_def Let_def split: if_splits Option.bind_splits)

function scan_ranges :: "EncoderPacketWindow \<Rightarrow> u32 \<Rightarrow> bytes \<Rightarrow> nat \<Rightarrow> nat \<Rightarrow> nat \<Rightarrow> nat \<Rightarrow> u32 \<Rightarrow> (bool \<times> nat \<times> u32) option" where
  "scan_ranges w nowMsec d off remaining firstLoss element longest =
     (if remaining > 0 then do {
        r \<leftarrow> DeserializeHeader_NACKLossRange d off (remaining + kPaddingBytes);
        (case r of
           ParseError \<Rightarrow> Some (False, element, longest)
         | Parsed n (relativeStart, lossCountM1) \<Rightarrow>
             if n > remaining then Some (False, element, longest)
             else do {
               let element = (if element + 1 < firstLoss then firstLoss - 1 else element);
               let firstLoss = (firstLoss + unat relativeStart) mod 2 ^ 32;
               (ok, element, longest) \<leftarrow> scan_acked w nowMsec firstLoss element longest;
               (if \<not> ok then Some (False, element, longest)
                else scan_ranges w nowMsec d (off + n) (remaining - n) ((firstLoss + unat lossCountM1 + 2) mod 2 ^ 32) element longest) }) }
      else Some (True, element, longest))"
  by pat_completeness auto
termination by (relation "measure (\<lambda>(w, now, d, off, remaining, firstLoss, element, longest). remaining)")
  (auto dest: NACKLossRange_bytes)

declare scan_ranges.simps [simp del]

definition kMaxWindowMsec :: u64 where "kMaxWindowMsec = 4000"
definition kMinWindowMsec :: u64 where "kMinWindowMsec = 100"
definition kMinimumRTOMsec :: u32 where "kMinimumRTOMsec = 20"

definition apply_rtt :: "u32 \<Rightarrow> u64 \<Rightarrow> EncoderAcknowledgementState \<Rightarrow> EncoderAcknowledgementState" where
  "apply_rtt longestAckDelayMsec nowMsec64 a =
     (let windowMsec = ucast (RetransmitTimeoutMsec a * 2) :: u64;
          windowMsec = (if windowMsec < kMinWindowMsec then kMinWindowMsec else if windowMsec > kMaxWindowMsec then kMaxWindowMsec else windowMsec);
          rtts = Update WindowedMaxCompare longestAckDelayMsec nowMsec64 windowMsec (MaxWindowedRTT a);
          rto = (GetBest rtts * 3) div 2
      in a\<lparr>MaxWindowedRTT := rtts, RetransmitTimeoutMsec := (if rto < kMinimumRTOMsec then kMinimumRTOMsec else rto)\<rparr>)"

definition UpdateRTO :: "u64 \<Rightarrow> EncoderPacketWindow \<Rightarrow> EncoderAcknowledgementState \<Rightarrow> EncoderAcknowledgementState option" where
  "UpdateRTO nowMsec64 w a = (let firstLoss = ColumnToElement w (NextColumnExpected a)
     in if firstLoss \<ge> Count w then Some a
        else do {
          let nowMsec = ucast nowMsec64;
          let element = ColumnToElement w (NextRTOColumn a);
          let element = (if element \<ge> Count w then FirstUnremovedElement w else element);
          (_, element, longest) \<leftarrow> scan_acked w nowMsec firstLoss element 0;
          (ok, element, longest) \<leftarrow> (case ackData a of
              None \<Rightarrow> if DataBytes a > 0 then None else Some (True, element, longest)
            | Some d \<Rightarrow> scan_ranges w nowMsec d 0 (DataBytes a) firstLoss element longest);
          (if \<not> ok then Some a
           else
             let a = a\<lparr>NextRTOColumn := ElementToColumn w element\<rparr>
             in Some (if longest \<le> 0 then a else apply_rtt longest nowMsec64 a)) })"

section \<open>Acknowledgements\<close>

text \<open>The loss ranges are copied with some padding at the end.  The result of the reallocation is not checked.\<close>

definition store_ranges :: "memory \<Rightarrow> bytes \<Rightarrow> EncoderPacketWindow \<times> EncoderAcknowledgementState \<Rightarrow> (bool \<times> EncoderPacketWindow \<times> EncoderAcknowledgementState) option" where
  "store_ranges mem ranges = (\<lambda>(w, a).
     if length ranges > 0 then do {
       let (block, w) = next_block mem w;
       g \<leftarrow> block;
       let d = realloc_uninitialized g (length ranges + kPaddingBytes);
       d \<leftarrow> memcpy_at d 0 ranges;
       d \<leftarrow> memset0 d (length ranges) kPaddingBytes;
       (ok, a) \<leftarrow> DecodeNextRange (a\<lparr>ackData := Some d\<rparr>);
       Some (ok, w, a) }
     else Some (True, w, a))"

definition OnAcknowledgementData :: "memory \<Rightarrow> u64 \<Rightarrow> bytes \<Rightarrow> EncoderPacketWindow \<times> EncoderAcknowledgementState
    \<Rightarrow> (bool \<times> EncoderPacketWindow \<times> EncoderAcknowledgementState) option" where
  "OnAcknowledgementData mem now data = (\<lambda>(w, a). do {
     r \<leftarrow> DeserializeHeader_PacketNum data 0 (length data);
     (case r of
        ParseError \<Rightarrow> Some (False, w, a)
      | Parsed headerBytes nextColumnExpected \<Rightarrow>
          let ranges = drop headerBytes data in
          if IsColumnDeltaNegative (SubtractColumns nextColumnExpected (NextColumnExpected a)) then Some (True, w, a)
          else if NextColumnExpected a = nextColumnExpected \<and> (\<exists>d\<in>set_option (ackData a). length ranges = DataBytes a \<and> take (DataBytes a) d = ranges)
          then Some (True, w, a)
          else do {
            let a = a\<lparr>NextColumnExpected := nextColumnExpected, Offset := 0, LossColumn := nextColumnExpected, LossCount := 0, DataBytes := length ranges\<rparr>;
            (ok, w, a) \<leftarrow> store_ranges mem ranges (w, a);
            (if \<not> ok then Some (False, w, a)
             else do {
               a \<leftarrow> UpdateRTO now w a;
               Some (True, RemoveBefore (NextColumnExpected a) w, a) }) }) })"

definition Encoder_Acknowledge :: "memory \<Rightarrow> u64 \<Rightarrow> bytes \<Rightarrow> Encoder \<Rightarrow> (SiameseResult \<times> u32 \<times> Encoder) option" where
  "Encoder_Acknowledge mem now data e =
     (if EmergencyDisabled (Window e) then Some (Siamese_Disabled, 0, e)
      else do {
        (ok, w, a) \<leftarrow> OnAcknowledgementData mem now data (Window e, Ack e);
        (if \<not> ok then Some (Siamese_InvalidInput, 0, e\<lparr>Window := w, Ack := a\<rparr>)
         else Some (Siamese_Success, NextColumnExpected a,
           e\<lparr>Window := count_stat SiameseEncoderStats_AckBytes (length data) (count_stat SiameseEncoderStats_AckCount 1 w), Ack := a\<rparr>)) })"

section \<open>Retransmission\<close>

text \<open>The packet without its length prefix.\<close>

definition LoadOriginal :: "OriginalPacket \<Rightarrow> nat \<times> SiameseOriginalPacket" where
  "LoadOriginal orig = (let headerBytes = HeaderBytes orig; len = (Bytes (Buffer orig) + 2 ^ 32 - headerBytes) mod 2 ^ 32
     in (len, \<lparr> PacketNum = Column orig, PacketData = (case Data (Buffer orig) of None \<Rightarrow> [] | Some d \<Rightarrow> slice d headerBytes len) \<rparr>))"

definition AttemptRetransmit :: "OriginalPacket \<Rightarrow> Encoder \<Rightarrow> SiameseResult \<times> SiameseOriginalPacket option \<times> Encoder" where
  "AttemptRetransmit orig e = (let (len, p) = LoadOriginal orig
     in if len = 0 then (Siamese_Disabled, Some p, e\<lparr>Window := (Window e)\<lparr>EmergencyDisabled := True\<rparr>\<rparr>)
        else (Siamese_Success, Some p,
          e\<lparr>Window := count_stat SiameseEncoderStats_RetransmitBytes len (count_stat SiameseEncoderStats_RetransmitCount 1 (Window e))\<rparr>))"

text \<open>A packet whose timeout expired is sent again with a new time; otherwise it may be the oldest one so far.\<close>

definition resend :: "u32 \<Rightarrow> nat \<Rightarrow> OriginalPacket \<Rightarrow> Encoder \<Rightarrow> (SiameseResult \<times> SiameseOriginalPacket option \<times> Encoder) option" where
  "resend nowMsec element orig e = do {
     w \<leftarrow> PutWindowElementTimestamp element nowMsec (Window e);
     Some (AttemptRetransmit orig (e\<lparr>Window := w\<rparr>)) }"

definition expired :: "u32 \<Rightarrow> u32 \<Rightarrow> u32 \<Rightarrow> bool" where
  "expired nowMsec sent rto \<longleftrightarrow> nowMsec - sent \<ge> rto"

definition older :: "u32 \<times> u32 \<Rightarrow> u32 \<Rightarrow> u32 \<Rightarrow> u32 \<times> u32" where
  "older oldest column sent = (if 0 <s snd oldest - sent then (column, sent) else oldest)"

datatype search_result = Found nat OriginalPacket | NotFound "u32 \<times> u32" nat

text \<open>The negatively acknowledged columns; the oldest column is kept with its time, and the last element looked at.\<close>

partial_function (option) search_nacks :: "u32 \<Rightarrow> EncoderPacketWindow \<Rightarrow> u32 \<times> u32 \<Rightarrow> nat \<Rightarrow> EncoderAcknowledgementState \<Rightarrow> (search_result \<times> EncoderAcknowledgementState) option" where
  "search_nacks nowMsec w oldest nackElement a = do {
     (c, a) \<leftarrow> GetNextLossColumn a;
     (case c of
        None \<Rightarrow> Some (NotFound oldest nackElement, a)
      | Some column \<Rightarrow> do {
          let nackElement = ColumnToElement w column;
          (if nackElement \<ge> Count w then Some (NotFound oldest nackElement, a)
           else do {
             orig \<leftarrow> GetWindowElement w nackElement;
             sent \<leftarrow> GetWindowElementTimestamp w nackElement;
             (if expired nowMsec sent (RetransmitTimeoutMsec a) then Some (Found nackElement orig, a)
              else search_nacks nowMsec w (older oldest (Column orig) sent) nackElement a) }) }) }"

text \<open>The elements in flight after the last loss.\<close>

function search_rest :: "u32 \<Rightarrow> u32 \<Rightarrow> EncoderPacketWindow \<Rightarrow> u32 \<times> u32 \<Rightarrow> nat \<Rightarrow> search_result option" where
  "search_rest nowMsec rto w oldest element =
     (if element < Count w then do {
        orig \<leftarrow> GetWindowElement w element;
        sent \<leftarrow> GetWindowElementTimestamp w element;
        (if expired nowMsec sent rto then Some (Found element orig)
         else search_rest nowMsec rto w (older oldest (Column orig) sent) (element + 1)) }
      else Some (NotFound oldest element))"
  by pat_completeness auto
termination by (relation "measure (\<lambda>(now, rto, w, oldest, element). Count w - element)") auto

declare search_rest.simps [simp del]

text \<open>The search for the first column that is ready to go, or the oldest one.\<close>

definition retransmit_search :: "u32 \<Rightarrow> nat \<Rightarrow> Encoder \<Rightarrow> (SiameseResult \<times> SiameseOriginalPacket option \<times> Encoder) option" where
  "retransmit_search nowMsec firstElement e = do {
     orig \<leftarrow> GetWindowElement (Window e) firstElement;
     sent \<leftarrow> GetWindowElementTimestamp (Window e) firstElement;
     (if expired nowMsec sent (RetransmitTimeoutMsec (Ack e)) then resend nowMsec firstElement orig e
      else do {
        (r, a) \<leftarrow> (if HasNegativeAcknowledgements (Ack e) then do {
            a \<leftarrow> RestartLossIterator (Ack e);
            search_nacks nowMsec (Window e) (Column orig, sent) firstElement a }
          else Some (NotFound (Column orig, sent) firstElement, Ack e));
        let e = e\<lparr>Ack := a\<rparr>;
        (case r of
           Found element orig \<Rightarrow> resend nowMsec element orig e
         | NotFound oldest nackElement \<Rightarrow> do {
             r \<leftarrow> search_rest nowMsec (RetransmitTimeoutMsec a) (Window e) oldest (nackElement + 1);
             (case r of
                Found element orig \<Rightarrow> resend nowMsec element orig e
              | NotFound oldest _ \<Rightarrow>
                  Some (Siamese_NeedMoreData, None, e\<lparr>Ack := a\<lparr>FoundOldest := True, OldestColumn := fst oldest\<rparr>\<rparr>)) }) }) }"

definition Retransmit :: "u64 \<Rightarrow> Encoder \<Rightarrow> (SiameseResult \<times> SiameseOriginalPacket option \<times> Encoder) option" where
  "Retransmit now e = (let w = Window e; a = Ack e in
     if EmergencyDisabled w then Some (Siamese_Disabled, None, e)
     else if GetUnacknowledgedCount w \<le> 0 then Some (Siamese_NeedMoreData, None, e\<lparr>Ack := a\<lparr>FoundOldest := False\<rparr>\<rparr>)
     else let firstElement = unat (SubtractColumns (NextColumnExpected a) (winColumnStart w)); nowMsec = ucast now :: u32 in
     if IsColumnDeltaNegative (of_nat firstElement) \<or> firstElement < FirstUnremovedElement w \<or> firstElement \<ge> Count w
     then Some (Siamese_NeedMoreData, None, e)
     else if FoundOldest a then
       (let element = unat (SubtractColumns (OldestColumn a) (winColumnStart w)); e' = e\<lparr>Ack := a\<lparr>FoundOldest := False\<rparr>\<rparr>
        in if \<not> IsColumnDeltaNegative (of_nat element) \<and> element \<ge> firstElement \<and> element < Count w then do {
             orig \<leftarrow> GetWindowElement w element;
             sent \<leftarrow> GetWindowElementTimestamp w element;
             (if nowMsec - sent < RetransmitTimeoutMsec a then Some (Siamese_NeedMoreData, None, e)
              else resend nowMsec element orig e') }
           else retransmit_search nowMsec firstElement e')
     else retransmit_search nowMsec firstElement e)"

section \<open>Access and statistics\<close>

definition Encoder_Get :: "u32 \<Rightarrow> Encoder \<Rightarrow> (SiameseResult \<times> SiameseOriginalPacket option \<times> Encoder) option" where
  "Encoder_Get packetNum e = (let w = Window e in
     if EmergencyDisabled w then Some (Siamese_Disabled, None, e)
     else let element = ColumnToElement w packetNum in
     if InvalidElement w element then Some (Siamese_NeedMoreData, None, e)
     else do {
       orig \<leftarrow> GetWindowElement w element;
       (if Bytes (Buffer orig) \<le> 0 then Some (Siamese_NeedMoreData, None, e)
        else let (len, p) = LoadOriginal orig
             in if len = 0 then Some (Siamese_Disabled, Some p, e\<lparr>Window := w\<lparr>EmergencyDisabled := True\<rparr>\<rparr>)
                else Some (Siamese_Success, Some p, e)) })"

text \<open>The memory in use comes from the allocator.\<close>

definition Encoder_GetStatistics :: "nat \<Rightarrow> nat \<Rightarrow> Encoder \<Rightarrow> u64 list \<times> Encoder" where
  "Encoder_GetStatistics memoryUsed statsCount e =
     (let n = (if statsCount > SiameseEncoderStats_Count then SiameseEncoderStats_Count else statsCount);
          w = Window e;
          w = w\<lparr>Stats := (Stats w)[SiameseEncoderStats_MemoryUsed := of_nat memoryUsed]\<rparr>
      in (take n (Stats w), e\<lparr>Window := w\<rparr>))"


section \<open>The interface of the encoder\<close>

text \<open>The functions of \<open>siamese.cpp\<close>.  Handles and pointers are options; \<open>None\<close> is the null pointer.\<close>

definition SIAMESE_VERSION :: nat where "SIAMESE_VERSION = 5"
definition SIAMESE_MAX_PACKET_BYTES :: nat where "SIAMESE_MAX_PACKET_BYTES = 0x1fffffff"
definition SIAMESE_PACKET_NUM_MAX :: u32 where "SIAMESE_PACKET_NUM_MAX = 0x3fffff"

definition siamese_init :: "bool \<Rightarrow> (nat \<Rightarrow> u32 list) \<Rightarrow> nat \<times> nat \<times> nat \<Rightarrow> nat \<Rightarrow> nat \<Rightarrow> bool \<times> gf256_state \<Rightarrow> (SiameseResult \<times> bool \<times> gf256_state) option" where
  "siamese_init mobile cpuid addrs align version = (\<lambda>(m_Initialized, st).
     if version \<noteq> SIAMESE_VERSION then Some (Siamese_Disabled, m_Initialized, st)
     else do {
       (r, st) \<leftarrow> gf256_init mobile cpuid addrs align GF256_VERSION st;
       (if r \<noteq> 0 then Some (Siamese_Disabled, m_Initialized, st) else Some (Siamese_Success, True, st)) })"

definition siamese_encoder_create :: "bool \<Rightarrow> bool \<Rightarrow> Encoder option" where
  "siamese_encoder_create m_Initialized memory_left = (if \<not> m_Initialized then None else if memory_left then Some Encoder_init else None)"

definition siamese_encoder_is_ready :: "Encoder option \<Rightarrow> SiameseResult" where
  "siamese_encoder_is_ready encoder = (case encoder of
     None \<Rightarrow> Siamese_InvalidInput
   | Some e \<Rightarrow> if GetRemainingSlots (Window e) \<le> 2 then Siamese_MaxPacketsReached else Siamese_Success)"

definition siamese_encoder_add :: "memory \<Rightarrow> u64 \<Rightarrow> Encoder option \<Rightarrow> bytes option \<Rightarrow> (SiameseResult \<times> u32 \<times> Encoder option) option" where
  "siamese_encoder_add mem now encoder data = (case (encoder, data) of
     (Some e, Some d) \<Rightarrow>
       if length d \<le> 0 \<or> length d > SIAMESE_MAX_PACKET_BYTES then Some (Siamese_InvalidInput, 0, encoder)
       else map_option (\<lambda>(r, c, e). (r, c, Some e)) (Encoder_Add mem now d e)
   | _ \<Rightarrow> Some (Siamese_InvalidInput, 0, encoder))"

definition siamese_encoder_get :: "Encoder option \<Rightarrow> u32 option \<Rightarrow> (SiameseResult \<times> SiameseOriginalPacket option \<times> Encoder option) option" where
  "siamese_encoder_get encoder packetNum = (case (encoder, packetNum) of
     (Some e, Some n) \<Rightarrow>
       if n > SIAMESE_PACKET_NUM_MAX then Some (Siamese_InvalidInput, None, encoder)
       else map_option (\<lambda>(r, q, e). (r, q, Some e)) (Encoder_Get n e)
   | _ \<Rightarrow> Some (Siamese_InvalidInput, None, encoder))"

definition siamese_encoder_remove_before :: "Encoder option \<Rightarrow> u32 \<Rightarrow> SiameseResult \<times> Encoder option" where
  "siamese_encoder_remove_before encoder packetNum = (case encoder of
     None \<Rightarrow> (Siamese_InvalidInput, None)
   | Some e \<Rightarrow> if packetNum > SIAMESE_PACKET_NUM_MAX then (Siamese_InvalidInput, encoder)
       else (Siamese_Success, Some (e\<lparr>Window := RemoveBefore packetNum (Window e)\<rparr>)))"

definition siamese_encoder_ack :: "memory \<Rightarrow> u64 \<Rightarrow> Encoder option \<Rightarrow> bytes option \<Rightarrow> (SiameseResult \<times> u32 \<times> Encoder option) option" where
  "siamese_encoder_ack mem now encoder buffer = (case (encoder, buffer) of
     (Some e, Some d) \<Rightarrow>
       if length d < 1 then Some (Siamese_InvalidInput, 0, encoder)
       else map_option (\<lambda>(r, n, e). (r, n, Some e)) (Encoder_Acknowledge mem now d e)
   | _ \<Rightarrow> Some (Siamese_InvalidInput, 0, encoder))"

definition siamese_encoder_retransmit :: "u64 \<Rightarrow> Encoder option \<Rightarrow> (SiameseResult \<times> SiameseOriginalPacket option \<times> Encoder option) option" where
  "siamese_encoder_retransmit now encoder = (case encoder of
     None \<Rightarrow> Some (Siamese_InvalidInput, None, None)
   | Some e \<Rightarrow> map_option (\<lambda>(r, q, e). (r, q, Some e)) (Retransmit now e))"

definition siamese_encode :: "memory \<Rightarrow> gf256_state \<Rightarrow> Encoder option \<Rightarrow> (SiameseResult \<times> bytes \<times> Encoder option) option" where
  "siamese_encode mem gf encoder = (case encoder of
     None \<Rightarrow> Some (Siamese_InvalidInput, [], None)
   | Some e \<Rightarrow> map_option (\<lambda>(r, p, e). (r, p, Some e)) (Encode mem gf e))"

definition siamese_encoder_stats :: "nat \<Rightarrow> Encoder option \<Rightarrow> nat \<Rightarrow> SiameseResult \<times> u64 list \<times> Encoder option" where
  "siamese_encoder_stats memoryUsed encoder statsCount = (case encoder of
     None \<Rightarrow> (Siamese_InvalidInput, [], None)
   | Some e \<Rightarrow> if statsCount \<le> 0 then (Siamese_InvalidInput, [], encoder)
       else let (out, e) = Encoder_GetStatistics memoryUsed statsCount e in (Siamese_Success, out, Some e))"

end
