(* ===== verification/Encoder_Encode.thy ===== *)
theory Encoder_Encode
  imports Encoder_Remove Siamese_Acks
begin

text \<open>
  The recovery packets.  A reference definition gives each byte of a recovery packet as a linear combination, over the
  field with 256 elements, of the packets that its metadata name; the packets that \<open>Encode\<close> makes are shown to be these.
\<close>

unbundle bit_operations_syntax

section \<open>Reference definition\<close>

definition opbit :: "u32 \<Rightarrow> nat \<Rightarrow> bool" where
  "opbit opcode i \<longleftrightarrow> opcode AND push_bit i 1 \<noteq> 0"

text \<open>The coefficient of a packet in the first and in the second half of a row: powers of the column value, selected by three bits of the
  opcode of its lane.\<close>

definition lane_opcode :: "nat \<Rightarrow> nat \<Rightarrow> u32" where
  "lane_opcode row l = GetRowOpcode (of_nat l) (of_nat row)"

definition dense_coef :: "nat \<Rightarrow> nat \<Rightarrow> nat \<Rightarrow> u8" where
  "dense_coef row half i = xsum (\<lambda>s. if opbit (lane_opcode row (i mod 8)) (3 * half + s) then colpow (col i) s else 0) [0..<3]"

definition dense_part :: "bytes list \<Rightarrow> nat \<Rightarrow> nat \<Rightarrow> nat \<Rightarrow> nat \<Rightarrow> nat \<Rightarrow> u8" where
  "dense_part L S n row half k = xsum (\<lambda>i. gmul (byte_of (L ! i) k) (dense_coef row half i)) [S..<n]"

text \<open>The pairs of packets that are added to the two halves, drawn from the last \<open>c\<close> packets.\<close>

definition prng_at :: "PCGRandom \<Rightarrow> nat \<Rightarrow> PCGRandom" where
  "prng_at g j = ((\<lambda>g. snd (Next (snd (Next g)))) ^^ j) g"

definition light_at :: "nat \<Rightarrow> nat \<Rightarrow> nat \<Rightarrow> nat \<Rightarrow> nat" where
  "light_at row c half j = (let g = prng_at (Seed (of_nat row) (of_nat c)) j
     in unat (fst (if half = 0 then Next g else Next (snd (Next g))) mod of_nat c))"

definition light_part :: "bytes list \<Rightarrow> nat \<Rightarrow> nat \<Rightarrow> nat \<Rightarrow> nat \<Rightarrow> nat \<Rightarrow> u8" where
  "light_part L n c row half k = xsum (\<lambda>j. byte_of (L ! (n - c + light_at row c half j)) k) [0..<(c + 15) div 16]"

definition ginv :: "u8 \<Rightarrow> u8" where
  "ginv x = (case find (\<lambda>i. gmul x i = 1) (map of_nat [0..<256]) of Some i \<Rightarrow> i | None \<Rightarrow> 0)"

definition cauchy_coef :: "nat \<Rightarrow> nat \<Rightarrow> u8" where
  "cauchy_coef r i = ginv (of_nat (r + 64) XOR of_nat (i mod 64))"

text \<open>The byte at position \<open>k\<close> of a recovery packet over the packets from number \<open>S\<close> up to number \<open>n\<close>, of which the last \<open>c\<close>
  were not acknowledged.\<close>

definition recovery_byte :: "bytes list \<Rightarrow> nat \<Rightarrow> nat \<Rightarrow> nat \<Rightarrow> nat \<Rightarrow> nat \<Rightarrow> u8" where
  "recovery_byte L S n c row k =
     (if n - S = 1 then byte_of (L ! S) k
      else if n - S \<le> 64 then
        (if row = 0 then xsum (\<lambda>i. byte_of (L ! i) k) [S..<n]
         else xsum (\<lambda>i. gmul (byte_of (L ! i) k) (cauchy_coef (row - 1) i)) [S..<n])
      else (dense_part L S n row 0 k XOR light_part L n c row 0 k)
        XOR gmul (dense_part L S n row 1 k XOR light_part L n c row 1 k) (GetRowValue (of_nat row)))"

section \<open>Work areas\<close>

definition filled_with :: "bytes \<Rightarrow> (nat \<Rightarrow> u8) \<Rightarrow> nat \<Rightarrow> bool" where
  "filled_with d F n \<longleftrightarrow> n \<le> length d \<and> (\<forall>k<n. d ! k = F k)"

lemma filled_with_cong: "filled_with d F n \<Longrightarrow> (\<And>k. k < n \<Longrightarrow> F k = G k) \<Longrightarrow> filled_with d G n"
  by (simp add: filled_with_def)

text \<open>Adding a packet, or a sum that may be longer than the work area.\<close>

lemma add_mem_filled:
  assumes "filled_with d F n" and "m \<le> n" and "m \<le> length x" and "\<And>k. k < n \<Longrightarrow> G k = (if k < m then x ! k else 0)"
  shows "\<exists>d'. gf256_add_mem arch d x m = Some d' \<and> length d' = length d \<and> filled_with d' (\<lambda>k. F k XOR G k) n"
proof -
  have len: "m \<le> length d" using assms(1,2) by (simp add: filled_with_def)
  let ?d = "filled (\<lambda>i. d ! i XOR x ! i) d m"
  have "gf256_add_mem arch d x m = Some ?d" using len assms(3) by (rule gf256_add_mem_eq)
  moreover have "length ?d = length d" using len by (simp add: filled_def)
  moreover have "filled_with ?d (\<lambda>k. F k XOR G k) n"
    using assms len by (auto simp: filled_with_def nth_filled filled_def nth_append)
  ultimately show ?thesis by blast
qed

lemma add_sum_filled:
  assumes "holds sm F'" and "filled_with d F n"
  shows "\<exists>d'. (if Bytes sm > 0 then do {
      x \<leftarrow> Data sm;
      d \<leftarrow> gf256_add_mem arch d x (if Bytes sm > n then n else Bytes sm);
      Some (d, w) } else Some (d, w)) = Some (d', w) \<and> length d' = length d \<and> filled_with d' (\<lambda>k. F k XOR F' k) n"
proof (cases "Bytes sm > 0")
  case True
  then obtain x where x: "Data sm = Some x" "Bytes sm \<le> length x" "\<And>k. k < Bytes sm \<Longrightarrow> x ! k = F' k" "\<And>k. Bytes sm \<le> k \<Longrightarrow> F' k = 0"
    using assms(1) by (auto simp: holds_def split: option.splits)
  have "\<exists>d'. gf256_add_mem arch d x (if Bytes sm > n then n else Bytes sm) = Some d' \<and> length d' = length d \<and> filled_with d' (\<lambda>k. F k XOR F' k) n"
    by (rule add_mem_filled [OF assms(2)]) (use x(2-) in \<open>auto simp: not_less\<close>)
  then show ?thesis using True x(1) by auto
next
  case False
  then have "F' k = 0" for k using assms(1) by (simp add: holds_def)
  then show ?thesis using False assms(2) by auto
qed

section \<open>Dense columns\<close>

definition dense_inv :: "EncoderPacketWindow \<Rightarrow> bytes list \<Rightarrow> nat \<Rightarrow> nat \<Rightarrow> nat \<Rightarrow> EncoderPacketWindow \<Rightarrow> bool" where
  "dense_inv w0 L base S st w \<longleftrightarrow> w = w0\<lparr>Lanes := Lanes w, Requests := Requests w\<rparr> \<and> lanes_sized w
     \<and> (\<forall>l<8. \<forall>s<3. lane_ok w L base S st (Count w0) l s)"

lemma dense_inv_fields:
  assumes "dense_inv w0 L base S st w"
  shows "Count w = Count w0" "Subwindows w = Subwindows w0" "LongestPacket w = LongestPacket w0"
  using assms unfolding dense_inv_def by (cases w0, cases w, simp)+

lemma lane_sum_upto:
  assumes "lane_ok w L base S st hi l s" and "hi \<le> NextElement (Lanes w ! l) ! s" and "base mod 8 = 0" and "l < 8"
  shows "holds (Sum (Lanes w ! l) ! s) (lane_sum L S (base + hi) l s)"
proof -
  let ?ne = "NextElement (Lanes w ! l) ! s"
  have ne: "?ne mod 8 = l" "?ne < hi + 8" "holds (Sum (Lanes w ! l) ! s) (lane_sum L S (base + ?ne) l s)" using assms(1) by (simp_all add: lane_ok_def Let_def)
  have "(base + ?ne) mod 8 = l" using ne(1) assms(3,4) by (simp add: mod_add_eq [symmetric])
  then have "filter (\<lambda>i. i mod 8 = l) [S..<base + ?ne] = filter (\<lambda>i. i mod 8 = l) [S..<base + hi]"
    by (rule filter_lane_gap) (use ne(2) assms(2) in auto)
  then show ?thesis using ne(3) unfolding lane_sum_def by simp
qed

text \<open>The sums of the lanes together.\<close>

lemmas xsum_swap = gf.sum_swap [folded xsum_def]

lemma gmul_xsum: "gmul b (xsum f xs) = xsum (\<lambda>s. gmul b (f s)) xs"
  using xsum_gmul [of f xs b] by (simp add: gmul_commute [of b])

lemma lane_total:
  "xsum (\<lambda>s. if opbit (lane_opcode row l) (3 * half + s) then lane_sum L S n l s k else 0) [0..<3]
    = xsum (\<lambda>i. gmul (byte_of (L ! i) k) (dense_coef row half i)) (filter (\<lambda>i. i mod 8 = l) [S..<n])"
proof -
  let ?xs = "filter (\<lambda>i. i mod 8 = l) [S..<n]" and ?f = "\<lambda>i s. gmul (byte_of (L ! i) k) (if opbit (lane_opcode row l) (3 * half + s) then colpow (col i) s else 0)"
  have "xsum (\<lambda>s. if opbit (lane_opcode row l) (3 * half + s) then lane_sum L S n l s k else 0) [0..<3] = xsum (\<lambda>s. xsum (\<lambda>i. ?f i s) ?xs) [0..<3]"
    by (rule xsum_cong) (simp add: lane_sum_def xsum_zero)
  also have "\<dots> = xsum (\<lambda>i. xsum (?f i) [0..<3]) ?xs" by (rule xsum_swap)
  also have "\<dots> = xsum (\<lambda>i. gmul (byte_of (L ! i) k) (dense_coef row half i)) ?xs"
    by (rule xsum_cong) (simp only: dense_coef_def gmul_xsum [symmetric] set_filter mem_Collect_eq)
  finally show ?thesis .
qed

lemma dense_total:
  "xsum (\<lambda>l. xsum (\<lambda>s. if opbit (lane_opcode row l) (3 * half + s) then lane_sum L S n l s k else 0) [0..<3]) [0..<8] = dense_part L S n row half k"
  unfolding lane_total dense_part_def by (rule xsum_classes) auto

definition dense_setup :: "memory \<Rightarrow> gf256_state \<Rightarrow> EncoderPacketWindow \<Rightarrow> bytes list \<Rightarrow> nat \<Rightarrow> nat \<Rightarrow> nat \<Rightarrow> nat \<Rightarrow> bool" where
  "dense_setup mem gf w0 L base lo S st \<longleftrightarrow> gf256_ready gf \<and> mem_ok mem \<and> elems_ok w0 L base lo (Count w0)
     \<and> lo \<le> st \<and> S \<le> base + st \<and> base mod 8 = 0 \<and> base + Count w0 = length L"

lemma add_sum_ok:
  assumes ctx: "dense_setup mem gf w0 L base lo S st" and ls: "l < 8" "s < 3" and inv: "dense_inv w0 L base S st w" and d: "filled_with d F R"
  shows "\<exists>d' w'. add_sum mem gf R l s (d, w) = Some (d', w') \<and> dense_inv w0 L base S st w' \<and> length d' = length d
    \<and> filled_with d' (\<lambda>k. F k XOR lane_sum L S (length L) l s k) R"
proof -
  have gf: "gf256_ready gf" and mem: "mem_ok mem" and el: "elems_ok w0 L base lo (Count w0)"
    and range: "lo \<le> st" "S \<le> base + st" "base mod 8 = 0" "base + Count w0 = length L" using ctx by (simp_all add: dense_setup_def)
  note f = dense_inv_fields [OF inv] and i = inv [unfolded dense_inv_def]
  have el': "elems_ok w L base lo (Count w0)" using el elems_ok_cong [OF f(2)] by simp
  have ln: "lane_ok w L base S st (Count w0) l s" using i ls by blast
  have sz: "lanes_sized w" using i by blast
  obtain sm w' where g: "GetSum mem gf l s (Count w0) w = Some (sm, w')" "sum_touched l s w w'" "lane_ok w' L base S st (Count w0) l s"
    "Count w0 \<le> NextElement (Lanes w' ! l) ! s" "sm = Sum (Lanes w' ! l) ! s"
    using GetSum_ok [OF gf mem el' sz ls ln range(1-3) order_refl] by blast
  have sm: "holds sm (lane_sum L S (length L) l s)"
    using lane_sum_upto [OF g(3,4) range(3) ls(1)] g(5) range(4) by simp
  obtain d' where d': "(if Bytes sm > 0 then do {
      x \<leftarrow> Data sm;
      d \<leftarrow> gf256_add_mem (lib_arch gf) d x (if Bytes sm > R then R else Bytes sm);
      Some (d, w') } else Some (d, w')) = Some (d', w')" "length d' = length d" "filled_with d' (\<lambda>k. F k XOR lane_sum L S (length L) l s k) R"
    using add_sum_filled [OF sm d, of "lib_arch gf" w'] by (elim exE conjE) (rule that)
  have "lane_ok w' L base S st (Count w0) l' s'" if "l' < 8" "s' < 3" for l' s'
  proof (cases "l' = l \<and> s' = s")
    case False
    then show ?thesis using that i lane_ok_touched [OF g(2) that(1), of s'] by blast
  qed (use g(3) in simp)
  moreover have "w' = w0\<lparr>Lanes := Lanes w', Requests := Requests w'\<rparr>"
    using i g(2) unfolding sum_touched_def by (blast intro: lanes_update_trans)
  ultimately have "dense_inv w0 L base S st w'" using lanes_sized_touched [OF g(2)] i unfolding dense_inv_def by blast
  moreover have "add_sum mem gf R l s (d, w) = Some (d', w')" using d'(1) g(1) unfolding add_sum_def prod.case f(1) by simp
  ultimately show ?thesis using d'(2,3) by blast
qed

text \<open>The sums of a lane that the opcode selects.\<close>

lemma add_sums_ok:
  assumes ctx: "dense_setup mem gf w0 L base lo S st" and l: "l < 8" and inv: "dense_inv w0 L base S st w" and d: "filled_with d F R"
  shows "\<exists>d' w'. for_range 0 kColumnSumCount (\<lambda>s x. if P s then add_sum mem gf R l s x else Some x) (d, w) = Some (d', w')
    \<and> dense_inv w0 L base S st w' \<and> length d' = length d
    \<and> filled_with d' (\<lambda>k. F k XOR xsum (\<lambda>s. if P s then lane_sum L S (length L) l s k else 0) [0..<3]) R"
proof -
  let ?I = "\<lambda>m (d', w'). dense_inv w0 L base S st w' \<and> length d' = length d
    \<and> filled_with d' (\<lambda>k. F k XOR xsum (\<lambda>s. if P s then lane_sum L S (length L) l s k else 0) [0..<m]) R"
  have "\<exists>x. for_range 0 3 (\<lambda>s x. if P s then add_sum mem gf R l s x else Some x) (d, w) = Some x \<and> ?I 3 x"
  proof (rule for_range_rule)
    show "?I 0 (d, w)" using inv d by simp
    fix s and x :: "bytes \<times> EncoderPacketWindow"
    assume s: "0 \<le> s" "s < 3" "?I s x"
    obtain d1 w1 where x: "x = (d1, w1)" by (cases x)
    show "\<exists>x'. (if P s then add_sum mem gf R l s x else Some x) = Some x' \<and> ?I (Suc s) x'"
    proof (cases "P s")
      case True
      have i1: "dense_inv w0 L base S st w1" "filled_with d1 (\<lambda>k. F k XOR xsum (\<lambda>s. if P s then lane_sum L S (length L) l s k else 0) [0..<s]) R" "length d1 = length d"
        using s(3) x by simp_all
      obtain d' w' where "add_sum mem gf R l s (d1, w1) = Some (d', w')" "dense_inv w0 L base S st w'" "length d' = length d"
        "filled_with d' (\<lambda>k. (F k XOR xsum (\<lambda>s. if P s then lane_sum L S (length L) l s k else 0) [0..<s]) XOR lane_sum L S (length L) l s k) R"
        using add_sum_ok [OF ctx l s(2) i1(1,2)] i1(3) by auto
      then show ?thesis using True x by (simp add: xsum_append xor.assoc)
    next
      case False
      then show ?thesis using s(3) x by (simp add: xsum_append)
    qed
  qed simp
  then show ?thesis by (auto simp: kColumnSumCount_def)
qed

lemma dense_lane_ok:
  assumes ctx: "dense_setup mem gf w0 L base lo S st" and l: "l < 8" and inv: "dense_inv w0 L base S st w" and d: "filled_with d F R" "filled_with q G R"
  shows "\<exists>d' q' w'. dense_lane mem gf R row l (d, q, w) = Some (d', q', w') \<and> dense_inv w0 L base S st w' \<and> length d' = length d \<and> length q' = length q
    \<and> filled_with d' (\<lambda>k. F k XOR xsum (\<lambda>s. if opbit (lane_opcode row l) s then lane_sum L S (length L) l s k else 0) [0..<3]) R
    \<and> filled_with q' (\<lambda>k. G k XOR xsum (\<lambda>s. if opbit (lane_opcode row l) (3 + s) then lane_sum L S (length L) l s k else 0) [0..<3]) R"
proof -
  obtain d' w1 where d': "for_range 0 kColumnSumCount (\<lambda>s x. if opbit (lane_opcode row l) s then add_sum mem gf R l s x else Some x) (d, w) = Some (d', w1)"
    "dense_inv w0 L base S st w1" "length d' = length d"
    "filled_with d' (\<lambda>k. F k XOR xsum (\<lambda>s. if opbit (lane_opcode row l) s then lane_sum L S (length L) l s k else 0) [0..<3]) R"
    using add_sums_ok [OF ctx l inv d(1), of "\<lambda>s. opbit (lane_opcode row l) s"] by blast
  obtain q' w' where q': "for_range 0 kColumnSumCount (\<lambda>s x. if opbit (lane_opcode row l) (3 + s) then add_sum mem gf R l s x else Some x) (q, w1) = Some (q', w')"
    "dense_inv w0 L base S st w'" "length q' = length q"
    "filled_with q' (\<lambda>k. G k XOR xsum (\<lambda>s. if opbit (lane_opcode row l) (3 + s) then lane_sum L S (length L) l s k else 0) [0..<3]) R"
    using add_sums_ok [OF ctx l d'(2) d(2), of "\<lambda>s. opbit (lane_opcode row l) (3 + s)"] by blast
  have "dense_lane mem gf R row l (d, q, w) = Some (d', q', w')"
    unfolding dense_lane_def Let_def prod.case lane_opcode_def [symmetric] opbit_def [symmetric]
    using d'(1) q'(1) by (simp add: kColumnSumCount_def)
  then show ?thesis using d' q' by blast
qed

lemma AddDenseColumns_ok:
  assumes ctx: "dense_setup mem gf w0 L base lo S st" and inv: "dense_inv w0 L base S st w0" and R: "R = LongestPacket w0" and d: "filled_with d (\<lambda>_. 0) R" "filled_with q (\<lambda>_. 0) R"
  shows "\<exists>d' q' w'. AddDenseColumns mem gf row (d, q, w0) = Some (d', q', w'\<lparr>SumEndElement := Count w0\<rparr>) \<and> dense_inv w0 L base S st w'
    \<and> length d' = length d \<and> length q' = length q
    \<and> filled_with d' (dense_part L S (length L) row 0) R \<and> filled_with q' (dense_part L S (length L) row 1) R"
proof -
  define H where "H = (\<lambda>half l k. xsum (\<lambda>s. if opbit (lane_opcode row l) (3 * half + s) then lane_sum L S (length L) l s k else 0) [0..<3])"
  let ?I = "\<lambda>m (d', q', w'). dense_inv w0 L base S st w' \<and> length d' = length d \<and> length q' = length q
    \<and> filled_with d' (\<lambda>k. xsum (\<lambda>l. H 0 l k) [0..<m]) R \<and> filled_with q' (\<lambda>k. xsum (\<lambda>l. H 1 l k) [0..<m]) R"
  have "\<exists>x. for_range 0 8 (dense_lane mem gf R row) (d, q, w0) = Some x \<and> ?I 8 x"
  proof (rule for_range_rule)
    show "?I 0 (d, q, w0)" using inv d by simp
    fix l and x :: "bytes \<times> bytes \<times> EncoderPacketWindow"
    assume l: "0 \<le> l" "l < 8" "?I l x"
    obtain d1 q1 w1 where x: "x = (d1, q1, w1)" by (cases x)
    have i: "dense_inv w0 L base S st w1" "filled_with d1 (\<lambda>k. xsum (\<lambda>l. H 0 l k) [0..<l]) R" "filled_with q1 (\<lambda>k. xsum (\<lambda>l. H 1 l k) [0..<l]) R"
      "length d1 = length d" "length q1 = length q" using l(3) x by simp_all
    show "\<exists>x'. dense_lane mem gf R row l x = Some x' \<and> ?I (Suc l) x'"
      using dense_lane_ok [OF ctx l(2) i(1-3), of row] i(4,5) unfolding x by (auto simp: H_def xsum_append)
  qed simp
  then obtain d' q' w' where run: "for_range 0 8 (dense_lane mem gf R row) (d, q, w0) = Some (d', q', w')" "?I 8 (d', q', w')" by auto
  have "(\<lambda>k. xsum (\<lambda>l. H h l k) [0..<8]) = dense_part L S (length L) row h" for h using dense_total by (auto simp: H_def fun_eq_iff)
  moreover have "Count w' = Count w0" using run(2) dense_inv_fields(1) by auto
  ultimately show ?thesis using run unfolding AddDenseColumns_def prod.case R [symmetric] lanes_8 by auto
qed

section \<open>Light columns\<close>

lemma prng_at_Suc: "prng_at g (Suc j) = snd (Next (snd (Next (prng_at g j))))"
  by (simp add: prng_at_def)

lemma GetWindowElement_orig:
  assumes "elems_ok w L base lo hi" and "lo \<le> e" and "e < hi"
  obtains orig x where "GetWindowElement w e = Some orig" "Data (Buffer orig) = Some x" "Bytes (Buffer orig) = length (L ! (base + e))"
    "length (L ! (base + e)) \<le> length x" "\<And>k. k < length (L ! (base + e)) \<Longrightarrow> x ! k = L ! (base + e) ! k" "orig_ok orig (L ! (base + e)) (col (base + e))"
proof -
  obtain orig where o: "GetWindowElement w e = Some orig" "orig_ok orig (L ! (base + e)) (col (base + e))" using assms by (auto simp: elems_ok_def)
  then show thesis using orig_ok_data [OF o(2)] that by metis
qed

text \<open>Adding a packet of the window to a work area.\<close>

lemma add_packet_filled:
  assumes "elems_ok w L base lo hi" and "lo \<le> e" and "e < hi" and "length (L ! (base + e)) \<le> n" and "filled_with d F n"
  shows "\<exists>orig x d'. GetWindowElement w e = Some orig \<and> Data (Buffer orig) = Some x \<and> Bytes (Buffer orig) = length (L ! (base + e))
    \<and> gf256_add_mem arch d x (length (L ! (base + e))) = Some d' \<and> length d' = length d \<and> filled_with d' (\<lambda>k. F k XOR byte_of (L ! (base + e)) k) n"
proof -
  obtain orig x where o: "GetWindowElement w e = Some orig" "Data (Buffer orig) = Some x" "Bytes (Buffer orig) = length (L ! (base + e))"
    "length (L ! (base + e)) \<le> length x" "\<And>k. k < length (L ! (base + e)) \<Longrightarrow> x ! k = L ! (base + e) ! k"
    using GetWindowElement_orig [OF assms(1-3)] by metis
  have "\<exists>d'. gf256_add_mem arch d x (length (L ! (base + e))) = Some d' \<and> length d' = length d \<and> filled_with d' (\<lambda>k. F k XOR byte_of (L ! (base + e)) k) n"
    by (rule add_mem_filled [OF assms(5,4) o(4)]) (use o(5) in \<open>auto simp: byte_of_def\<close>)
  then show ?thesis using o by blast
qed

lemma AddLightColumns_ok:
  assumes pk: "packets_inv w L base lo" and se: "SumEndElement w = Count w" and count: "Count w \<le> 16000" and R: "R = LongestPacket w"
    and d: "filled_with d F R" "filled_with q G R" and c: "c = Count w - FirstUnremovedElement w"
  shows "\<exists>d' q'. AddLightColumns gf row (d, q, w) = Some (d', q') \<and> length d' = length d \<and> length q' = length q
    \<and> filled_with d' (\<lambda>k. F k XOR light_part L (length L) c row 0 k) R \<and> filled_with q' (\<lambda>k. G k XOR light_part L (length L) c row 1 k) R"
proof -
  note p = pk [unfolded packets_inv_def]
  let ?f = "FirstUnremovedElement w" and ?n = "length L" and ?g = "Seed (of_nat row) (of_nat c)"
  define B where "B = (\<lambda>half j k. byte_of (L ! (?n - c + light_at row c half j)) k)"
  let ?I = "\<lambda>m (d', q', g). g = prng_at ?g m \<and> length d' = length d \<and> length q' = length q
    \<and> filled_with d' (\<lambda>k. F k XOR xsum (\<lambda>j. B 0 j k) [0..<m]) R \<and> filled_with q' (\<lambda>k. G k XOR xsum (\<lambda>j. B 1 j k) [0..<m]) R"
  have c0: "0 < c" "c < 2 ^ 32" using p c count by auto
  have start: "?n - c = base + ?f" using p c by auto
  have uc: "unat (of_nat c :: u32) = c" using c0 by (simp add: unat_of_nat)
  have small: "unat (r mod of_nat c) < c" for r :: u32 using uc c0(1) by (simp add: unat_mod)
  have step: "\<exists>x'. light_pair gf w ?f c j x = Some x' \<and> ?I (Suc j) x'" if x: "?I j x" for j and x :: "bytes \<times> bytes \<times> PCGRandom"
  proof -
    obtain d1 q1 g where x': "x = (d1, q1, g)" by (cases x)
    have i: "g = prng_at ?g j" "length d1 = length d" "length q1 = length q" "filled_with d1 (\<lambda>k. F k XOR xsum (\<lambda>j. B 0 j k) [0..<j]) R"
      "filled_with q1 (\<lambda>k. G k XOR xsum (\<lambda>j. B 1 j k) [0..<j]) R" using x x' by simp_all
    obtain r1 g1 where n1: "Next g = (r1, g1)" by (cases "Next g")
    obtain r2 g2 where n2: "Next g1 = (r2, g2)" by (cases "Next g1")
    have e1: "lo \<le> ?f + unat (r1 mod of_nat c)" "?f + unat (r1 mod of_nat c) < Count w" using p c small [of r1] by auto
    have e2: "lo \<le> ?f + unat (r2 mod of_nat c)" "?f + unat (r2 mod of_nat c) < Count w" using p c small [of r2] by auto
    have el: "elems_ok w L base lo (Count w)" using p by simp
    have la: "light_at row c 0 j = unat (r1 mod of_nat c)" "light_at row c 1 j = unat (r2 mod of_nat c)"
      using n1 n2 i(1) by (simp_all add: light_at_def Let_def)
    have len: "length (L ! (base + (?f + unat (r1 mod of_nat c)))) \<le> R" "length (L ! (base + (?f + unat (r2 mod of_nat c)))) \<le> R"
      using p R e1(2) e2(2) by auto
    have B: "byte_of (L ! (base + (?f + unat (r1 mod of_nat c)))) = B 0 j" "byte_of (L ! (base + (?f + unat (r2 mod of_nat c)))) = B 1 j"
      by (simp_all add: B_def la(1) la(2) [unfolded One_nat_def] start add.assoc fun_eq_iff)
    obtain o1 x1 d2 where d2: "GetWindowElement w (?f + unat (r1 mod of_nat c)) = Some o1" "Data (Buffer o1) = Some x1"
      "Bytes (Buffer o1) = length (L ! (base + (?f + unat (r1 mod of_nat c))))" "gf256_add_mem (lib_arch gf) d1 x1 (length (L ! (base + (?f + unat (r1 mod of_nat c))))) = Some d2" "length d2 = length d1" "filled_with d2 (\<lambda>k. (F k XOR xsum (\<lambda>j. B 0 j k) [0..<j]) XOR B 0 j k) R"
      using add_packet_filled [OF el e1 len(1) i(4), of "lib_arch gf"] unfolding B by (elim exE conjE) (rule that)
    obtain o2 x2 q2 where q2: "GetWindowElement w (?f + unat (r2 mod of_nat c)) = Some o2" "Data (Buffer o2) = Some x2"
      "Bytes (Buffer o2) = length (L ! (base + (?f + unat (r2 mod of_nat c))))" "gf256_add_mem (lib_arch gf) q1 x2 (length (L ! (base + (?f + unat (r2 mod of_nat c))))) = Some q2" "length q2 = length q1" "filled_with q2 (\<lambda>k. (G k XOR xsum (\<lambda>j. B 1 j k) [0..<j]) XOR B 1 j k) R"
      using add_packet_filled [OF el e2 len(2) i(5), of "lib_arch gf"] unfolding B by (elim exE conjE) (rule that)
    have "light_pair gf w ?f c j x = Some (d2, q2, g2)" using d2(1-4) q2(1-4) n1 n2 by (simp add: x' light_pair_def)
    moreover have "g2 = prng_at ?g (Suc j)" using n1 n2 i(1) by (simp add: prng_at_Suc)
    ultimately show ?thesis using d2 q2 i(2,3) by (auto simp: xsum_append xor.assoc)
  qed
  have "\<exists>x. for_range 0 ((c + 15) div 16) (light_pair gf w ?f c) (d, q, ?g) = Some x \<and> ?I ((c + 15) div 16) x"
  proof (rule for_range_rule [where P = ?I])
    show "?I 0 (d, q, ?g)" using d by (simp add: prng_at_def)
    show "\<exists>x'. light_pair gf w ?f c j x = Some x' \<and> ?I (Suc j) x'" if "?I j x" for j x using that by (rule step)
  qed simp
  then obtain d' q' g where run: "for_range 0 ((c + 15) div 16) (light_pair gf w ?f c) (d, q, ?g) = Some (d', q', g)" "?I ((c + 15) div 16) (d', q', g)" by auto
  have "AddLightColumns gf row (d, q, w) = Some (d', q')"
    using run(1) unfolding AddLightColumns_def prod.case se c [symmetric] Let_def by (simp add: kPairAddRate_def add.commute)
  then show ?thesis using run(2) unfolding light_part_def B_def by auto
qed


section \<open>The footer\<close>

lemma NextAlignedOffset_ge:
  assumes "n + 31 < 2 ^ 32"
  shows "n \<le> NextAlignedOffset n"
proof -
  have u: "unat (of_nat (n + 31) :: u32) = n + 31" using assms by (simp add: unat_of_nat del: of_nat_add)
  have split: "(x AND NOT 31) + (x AND 31) = x" for x :: u32
  proof -
    have "(x AND NOT 31) AND (x AND 31) = 0" "(x AND NOT 31) OR (x AND 31) = x" by (auto intro!: bit_eqI simp: bit_simps)
    then show ?thesis by (simp add: disjunctive_add_eq_or)
  qed
  then have "(of_nat (n + 31) :: u32) AND NOT 31 = of_nat (n + 31) - (of_nat (n + 31) AND 31)" by (metis add_diff_cancel_right')
  moreover have "unat ((of_nat (n + 31) :: u32) AND 31) < 32"
    using word_and_le1 [of "of_nat (n + 31) :: u32" 31] by (simp add: word_le_nat_alt and.commute)
  moreover have "(of_nat (n + 31) :: u32) AND 31 \<le> of_nat (n + 31)" by (rule word_and_le2)
  ultimately have "unat ((of_nat (n + 31) :: u32) AND NOT 31) = n + 31 - unat ((of_nat (n + 31) :: u32) AND 31)" "unat ((of_nat (n + 31) :: u32) AND 31) < 32"
    using u unat_sub by metis+
  moreover have "NextAlignedOffset n = unat ((of_nat (n + 31) :: u32) AND NOT 31)"
    unfolding NextAlignedOffset_def kAlignmentBytes_def by (simp add: add.commute)
  ultimately show ?thesis by linarith
qed

lemma metadata_wire_length: "length (recovery_metadata_wire m) \<le> 8"
  by (simp add: recovery_metadata_wire_def packet_count_wire_def packet_num_wire_def)

lemma write_footer:
  assumes "recovery_metadata_ok m" and "n + 8 \<le> length d"
  shows "\<exists>d'. SerializeFooter_RecoveryMetadata m d n = Some (d', length (recovery_metadata_wire m)) \<and> length d' = length d
    \<and> take (n + length (recovery_metadata_wire m)) d' = take n d @ recovery_metadata_wire m \<and> take n d' = take n d"
proof -
  let ?wire = "recovery_metadata_wire m"
  have len: "n + length ?wire \<le> length d" using assms(2) metadata_wire_length [of m] by simp
  then show ?thesis using SerializeFooter_RecoveryMetadata_wire [OF assms(1) len] by (intro exI [of _ "overwrite d n ?wire"]) (simp add: overwrite_def)
qed

text \<open>A recovery packet that agrees with its metadata and covers the packets that were not acknowledged.\<close>

definition recovery_ok :: "bytes list \<Rightarrow> bytes \<Rightarrow> RecoveryMetadata \<Rightarrow> bool" where
  "recovery_ok L packet m \<longleftrightarrow> (\<exists>S data. packet = data @ recovery_metadata_wire m \<and> recovery_metadata_ok m
     \<and> ColumnStart m = col S \<and> S + unat (SumCount m) = length L
     \<and> (\<forall>k<length data. data ! k = recovery_byte L S (length L) (unat (LDPCCount m)) (unat (Row m)) k)
     \<and> (\<forall>i. length L - unat (LDPCCount m) \<le> i \<and> i < length L \<longrightarrow> length (L ! i) \<le> length data))"

section \<open>Siamese rows\<close>

lemma unat_small: "n < 2 ^ 32 \<Longrightarrow> unat (of_nat n :: u32) = n"
  by (simp add: unat_of_nat)

lemma col_bound: "col i < 0x400000"
  by (simp add: word_less_nat_alt)

lemma metadata_ok_nat:
  assumes "row < 256" and "1 \<le> n" and "n \<le> 16000" and "c \<le> n" and "n = 1 \<longrightarrow> row = 0 \<and> c = 1"
  shows "recovery_metadata_ok \<lparr> Row = of_nat row, ColumnStart = col S, SumCount = of_nat n, LDPCCount = of_nat c \<rparr>"
    "unat (of_nat row :: u32) = row" "unat (of_nat n :: u32) = n" "unat (of_nat c :: u32) = c"
proof -
  show u: "unat (of_nat row :: u32) = row" "unat (of_nat n :: u32) = n" "unat (of_nat c :: u32) = c"
    using assms by (auto intro!: unat_small)
  show "recovery_metadata_ok \<lparr> Row = of_nat row, ColumnStart = col S, SumCount = of_nat n, LDPCCount = of_nat c \<rparr>"
    using assms u col_bound [of S] by (simp add: recovery_metadata_ok_def word_less_nat_alt word_le_nat_alt word_unat_eq_iff)
qed

lemma window_inv_count_stat [simp]: "window_inv (count_stat i n w) L base lo = window_inv w L base lo" "Count (count_stat i n w) = Count w"
  by (simp_all add: count_stat_def window_inv_def window_sized_def subs_ok_def lanes_sized_def packets_inv_def elems_ok_def sums_inv_def lane_ok_def)

lemma recovery_done_ok:
  assumes "recovery_ok L (take n d) m" and "window_inv (Window e') L base lo" and "0 < Count (Window e')" and "NextRow e' < 255" and "NextCauchyRow e' < 192" and "unat (LDPCCount m) = c"
  shows "\<exists>packet m e''. Some (recovery_done d n e') = Some (Siamese_Success, packet, e'') \<and> recovery_ok L packet m \<and> unat (LDPCCount m) = c
    \<and> window_inv (Window e'') L base lo \<and> 0 < Count (Window e'') \<and> NextRow e'' < 255 \<and> NextCauchyRow e'' < 192"
  using assms by (auto simp: recovery_done_def)

lemma sums_dense_inv:
  assumes "sums_inv w L base lo" and "lanes_sized w"
  shows "dense_inv w L base (base + SumStartElement w - SumErasedCount w) (SumStartElement w) w"
  using assms by (simp add: dense_inv_def sums_inv_def Let_def)

lemma sums_inv_dense:
  assumes "sums_inv w L base lo" and "dense_inv w L base (base + SumStartElement w - SumErasedCount w) (SumStartElement w) w'"
  shows "sums_inv (w'\<lparr>SumEndElement := Count w\<rparr>) L base lo"
proof -
  obtain ls r where w': "w' = w\<lparr>Lanes := ls, Requests := r\<rparr>" using assms(2) unfolding dense_inv_def by blast
  have "\<forall>l<8. \<forall>s<3. lane_ok w' L base (base + SumStartElement w - SumErasedCount w) (SumStartElement w) (Count w) l s"
    using assms(2) unfolding dense_inv_def by blast
  then show ?thesis using assms(1) by (simp add: sums_inv_def w' lane_ok_def Let_def)
qed


lemma work_areas:
  assumes "n \<le> a"
  shows "memset0 (map g [0..<2 * a + 8]) 0 (a * 2) = Some (replicate (2 * a) 0 @ map g [2 * a..<2 * a + 8])"
    "filled_with (replicate a 0) (\<lambda>_. 0) n"
  using assms by (simp_all add: memset0_def overwrite_def filled_with_def drop_map mult.commute)

lemma GenerateSiamesePacket_ok:
  assumes gf: "gf256_ready gf" and mem: "mem_ok mem" and inv: "window_inv (Window e) L base lo" and count: "0 < Count (Window e)" and sums: "sums_inv (Window e) L base lo"
    and row: "NextRow e < 255" "NextCauchyRow e < 192" and longest: "maxlen L + 31 < 2 ^ 32"
    and span: "n = length L - (base + SumStartElement (Window e) - SumErasedCount (Window e))" "64 < n" "n \<le> 16000"
    and c: "c = Count (Window e) - FirstUnremovedElement (Window e)"
  shows "\<exists>packet m e'. GenerateSiamesePacket mem gf c e = Some (Siamese_Success, packet, e') \<and> recovery_ok L packet m \<and> unat (LDPCCount m) = c
    \<and> window_inv (Window e') L base lo \<and> 0 < Count (Window e') \<and> NextRow e' < 255 \<and> NextCauchyRow e' < 192"
proof -
  let ?w = "Window e" and ?row = "NextRow e" and ?S = "base + SumStartElement (Window e) - SumErasedCount (Window e)" and ?st = "SumStartElement (Window e)" and ?N = "length L"
  have pk: "packets_inv ?w L base lo" and size: "window_sized ?w" using inv count by (simp_all add: window_inv_def)
  note p = pk [unfolded packets_inv_def] and s = sums [unfolded sums_inv_def Let_def]
  define R a where "R = LongestPacket ?w" and "a = NextAlignedOffset R"
  have Ra: "R \<le> a" using NextAlignedOffset_ge [of R] p longest by (simp add: R_def a_def)
  obtain g where g: "mem (Requests ?w) = Some g" using mem_ok_block [OF mem] by blast
  define w1 where "w1 = ?w\<lparr>Requests := Requests ?w + 1\<rparr>"
  have pk1: "packets_inv w1 L base lo" and s1: "sums_inv w1 L base lo" and z1: "lanes_sized w1"
    using pk sums size by (simp_all add: w1_def packets_inv_def elems_ok_def sums_inv_def lane_ok_def window_sized_def lanes_sized_def)
  have f1: "SumStartElement w1 = ?st" "SumErasedCount w1 = SumErasedCount ?w" "Count w1 = Count ?w" "LongestPacket w1 = R" by (simp_all add: w1_def R_def)
  have ctx: "dense_setup mem gf w1 L base lo ?S ?st"
    using gf mem pk1 s by (simp add: dense_setup_def packets_inv_def)
  have inv1: "dense_inv w1 L base ?S ?st w1" using sums_dense_inv [OF s1 z1] f1(1,2) by simp
  obtain d1 q1 w2 where d1: "AddDenseColumns mem gf ?row (replicate a 0, replicate a 0, w1) = Some (d1, q1, w2\<lparr>SumEndElement := Count ?w\<rparr>)"
    "dense_inv w1 L base ?S ?st w2" "length d1 = a" "length q1 = a" "filled_with d1 (dense_part L ?S ?N ?row 0) R" "filled_with q1 (dense_part L ?S ?N ?row 1) R"
    using AddDenseColumns_ok [OF ctx inv1 _ work_areas(2) [OF Ra] work_areas(2) [OF Ra], of ?row] f1(3,4) by auto
  define w3 where "w3 = w2\<lparr>SumEndElement := Count ?w\<rparr>"
  define ls r where "ls = Lanes w2" and "r = Requests w2"
  have w2: "w2 = w1\<lparr>Lanes := ls, Requests := r\<rparr>" "lanes_sized w2" using d1(2) unfolding dense_inv_def ls_def r_def by blast+
  have w3: "w3 = ?w\<lparr>Lanes := ls, Requests := r, SumEndElement := Count ?w\<rparr>" unfolding w3_def w2(1) by (simp add: w1_def)
  have z3: "lanes_sized w3" using w2(2) by (simp add: w3_def lanes_sized_def)
  have pk3: "packets_inv w3 L base lo" using pk by (simp add: w3 packets_inv_def elems_ok_def)
  have s3: "sums_inv w3 L base lo" using sums_inv_dense [OF s1] d1(2) f1 by (simp add: w3_def)
  obtain d2 q2 where d2: "AddLightColumns gf ?row (d1, q1, w3) = Some (d2, q2)" "length d2 = a" "length q2 = a"
    "filled_with d2 (\<lambda>k. dense_part L ?S ?N ?row 0 k XOR light_part L ?N c ?row 0 k) R" "filled_with q2 (\<lambda>k. dense_part L ?S ?N ?row 1 k XOR light_part L ?N c ?row 1 k) R"
    using AddLightColumns_ok [OF pk3 _ _ _ d1(5,6), of c gf ?row] c size d1(3,4) by (auto simp: w3 R_def window_sized_def)
  let ?RX = "GetRowValue (of_nat ?row)"
  define d3 where "d3 = filled (\<lambda>i. d2 ! i XOR gmul (q2 ! i) ?RX) d2 R"
  have d3: "gf256_muladd_mem (lib_arch gf) (lib_ctx gf) d2 ?RX q2 R = Some d3" "length d3 = a"
    using gf256_muladd_mem_eq [of R d2 q2 "lib_ctx gf" "lib_arch gf" ?RX] gf d2(2,3) Ra by (simp_all add: gf256_ready_def d3_def filled_def)
  define d4 where "d4 = d3 @ q2 @ map g [2 * a..<2 * a + 8]"
  have n: "SumEndElement w3 - SumStartElement w3 + SumErasedCount w3 = n" "?S + n = ?N" using span(1) p s by (auto simp: w3)
  define m where "m = \<lparr> Row = of_nat ?row, ColumnStart = SumColumnStart w3, SumCount = of_nat n, LDPCCount = of_nat c \<rparr>"
  have c_le: "0 < c" "c \<le> n" using c p s n(2) by auto
  have cs: "SumColumnStart w3 = col ?S" using s by (simp add: w3)
  have ok: "recovery_metadata_ok m" and u: "unat (Row m) = ?row" "unat (SumCount m) = n" "unat (LDPCCount m) = c"
    using metadata_ok_nat(1) [of ?row n c ?S] metadata_ok_nat(2-4) [of ?row n c] row span(2,3) c_le by (simp_all add: m_def cs)
  have len4: "R + 8 \<le> length d4" using Ra d3(2) d2(3) by (simp add: d4_def)
  obtain d5 where d5: "SerializeFooter_RecoveryMetadata m d4 R = Some (d5, length (recovery_metadata_wire m))"
    "take (R + length (recovery_metadata_wire m)) d5 = take R d4 @ recovery_metadata_wire m"
    using write_footer [OF ok len4] by blast
  have byte: "take R d4 ! k = recovery_byte L ?S ?N c ?row k" if "k < R" for k
  proof -
    have "take R d4 ! k = d3 ! k" using that Ra d3(2) by (simp add: d4_def nth_append)
    also have "\<dots> = d2 ! k XOR gmul (q2 ! k) ?RX" using that Ra d2(2) by (simp add: d3_def nth_filled)
    finally show ?thesis using d2(4,5) that span n(2) by (simp add: filled_with_def recovery_byte_def)
  qed
  have cover: "length (L ! i) \<le> R" if "?N - c \<le> i" "i < ?N" for i
  proof -
    have "FirstUnremovedElement ?w \<le> i - base \<and> i - base < Count ?w" "base + (i - base) = i" using that p c by auto
    then show ?thesis using p unfolding R_def by metis
  qed
  define e' where "e' = e\<lparr>NextRow := (if ?row + 1 \<ge> kRowPeriod then 0 else ?row + 1), Window := w3, RecoveryPacket := \<lparr> Data = Some d5, Bytes = 2 * a + 8 \<rparr>\<rparr>"
  have folds: "LongestPacket ?w = R" "NextAlignedOffset R = a" "?w\<lparr>Requests := Suc (Requests ?w)\<rparr> = w1"
    "word_of_nat (SumEndElement w3 - SumStartElement w3) + word_of_nat (SumErasedCount w3) = (word_of_nat n :: u32)"
    using n(1) by (simp_all add: R_def a_def w1_def flip: of_nat_add)
  have run: "GenerateSiamesePacket mem gf c e = Some (recovery_done d5 (R + length (recovery_metadata_wire m)) e')"
    using g d1(1) [folded w3_def] d2(1) d3(1) d5(1) work_areas(1) [OF Ra, of g]
    unfolding GenerateSiamesePacket_def Let_def next_block_def prod.case buf_Initialize_def kMaxRecoveryMetadataBytes_def
    by (simp add: realloc_uninitialized_def slice_def folds m_def d4_def e'_def)
  have "recovery_ok L (take (R + length (recovery_metadata_wire m)) d5) m"
    unfolding recovery_ok_def
  proof (intro exI conjI)
    show "take (R + length (recovery_metadata_wire m)) d5 = take R d4 @ recovery_metadata_wire m" by (rule d5(2))
    show "ColumnStart m = col ?S" by (simp add: m_def cs)
    show "?S + unat (SumCount m) = ?N" using u n(2) by simp
    show "\<forall>k<length (take R d4). take R d4 ! k = recovery_byte L ?S ?N (unat (LDPCCount m)) (unat (Row m)) k" using byte u by simp
    show "\<forall>i. ?N - unat (LDPCCount m) \<le> i \<and> i < ?N \<longrightarrow> length (L ! i) \<le> length (take R d4)" using cover u len4 by simp
  qed (rule ok)
  moreover have "window_inv (Window e') L base lo" "0 < Count (Window e')"
    using inv count pk3 s3 z3 size by (auto simp: e'_def window_inv_def w3 window_sized_def subs_ok_def)
  moreover have "NextRow e' < 255" "NextCauchyRow e' < 192" using row by (simp_all add: e'_def kRowPeriod_def kRowValuePeriod_def)
  ultimately show ?thesis unfolding run using u(3) by (intro recovery_done_ok)
qed


section \<open>Parity and Cauchy rows\<close>

lemma ginv_ok:
  assumes "x \<noteq> 0"
  shows "gmul x (ginv x) = 1"
proof -
  obtain i where i: "gmul x i = 1" using gmul_inverse [OF assms] by (metis gmul_commute)
  have "unat i < 256" using unsigned_less [where ?'a = nat, of i] by simp
  then have "i \<in> set (map of_nat [0..<256])" by (auto intro!: image_eqI [of _ _ "unat i"])
  then obtain j where "find (\<lambda>i. gmul x i = 1) (map of_nat [0..<256]) = Some j"
    using i by (metis (mono_tags, lifting) find_None_iff option.exhaust)
  moreover from this have "gmul x j = 1" by (auto simp: find_Some_iff)
  ultimately show ?thesis by (simp add: ginv_def)
qed

lemma gf256_inv_ginv:
  assumes "gf256_ready gf" and "x \<noteq> 0"
  shows "gf256_inv (lib_ctx gf) x = Some (ginv x)"
proof -
  obtain i where i: "gf256_inv (lib_ctx gf) x = Some i" "gmul x i = 1" using assms by (auto simp: gf256_ready_def scalar_ok_def)
  have "i = ginv x" using i(2) ginv_ok [OF assms(2)] by (metis gmul_1 gmul_assoc gmul_commute)
  then show ?thesis using i(1) by simp
qed

lemma xor_nonzero: "x \<noteq> y \<Longrightarrow> x XOR y \<noteq> (0 :: u8)"
proof
  assume "x \<noteq> y" "x XOR y = 0"
  moreover have "x = (x XOR y) XOR y" by (simp add: xor.assoc)
  ultimately show False by simp
qed

lemma CauchyElement_ok:
  assumes "gf256_ready gf" and "row < 192"
  shows "CauchyElement gf row (i mod 64) = Some (cauchy_coef row i)"
proof -
  have "unat (of_nat (row + 64) :: u8) = row + 64" "unat (of_nat (i mod 64) :: u8) = i mod 64"
    using assms(2) mod_less_divisor [of 64 i] by (simp_all add: unat_of_nat del: of_nat_add)
  moreover have "row + 64 \<noteq> i mod 64" using mod_less_divisor [of 64 i] by linarith
  ultimately have "(of_nat (row + 64) :: u8) \<noteq> of_nat (i mod 64)" by metis
  then have "(of_nat (row + 64) :: u8) XOR of_nat (i mod 64) \<noteq> 0" by (rule xor_nonzero)
  then show ?thesis using gf256_inv_ginv [OF assms(1)] by (simp add: CauchyElement_def kCauchyMaxColumns_def SIAMESE_CAUCHY_THRESHOLD_def cauchy_coef_def)
qed

text \<open>The weight of a packet: the parity row adds packets, a Cauchy row multiplies them first.\<close>

definition row_coef :: "nat \<Rightarrow> nat \<Rightarrow> u8" where
  "row_coef row i = (if row = 0 then 1 else cauchy_coef (row - 1) i)"

lemma muladd_packet_filled:
  assumes gf: "gf256_ready gf" and el: "elems_ok w L base lo hi" "lo \<le> e" "e < hi" and len: "length (L ! (base + e)) \<le> n" and d: "filled_with d F n"
  shows "\<exists>orig x d'. GetWindowElement w e = Some orig \<and> Data (Buffer orig) = Some x \<and> Bytes (Buffer orig) = length (L ! (base + e))
    \<and> gf256_muladd_mem (lib_arch gf) (lib_ctx gf) d y x (length (L ! (base + e))) = Some d' \<and> length d' = length d
    \<and> filled_with d' (\<lambda>k. F k XOR gmul (byte_of (L ! (base + e)) k) y) n"
proof -
  let ?m = "length (L ! (base + e))"
  obtain orig x where o: "GetWindowElement w e = Some orig" "Data (Buffer orig) = Some x" "Bytes (Buffer orig) = ?m"
    "?m \<le> length x" "\<And>k. k < ?m \<Longrightarrow> x ! k = L ! (base + e) ! k"
    using GetWindowElement_orig [OF el] by metis
  have ld: "?m \<le> length d" using d len by (simp add: filled_with_def)
  let ?d = "filled (\<lambda>i. d ! i XOR gmul (x ! i) y) d ?m"
  have "gf256_muladd_mem (lib_arch gf) (lib_ctx gf) d y x ?m = Some ?d" using gf ld o(4) by (simp add: gf256_muladd_mem_eq gf256_ready_def)
  moreover have "length ?d = length d" using ld by (simp add: filled_def)
  moreover have "filled_with ?d (\<lambda>k. F k XOR gmul (byte_of (L ! (base + e)) k) y) n"
    using d ld o(5) by (auto simp: filled_with_def nth_filled byte_of_def filled_def nth_append)
  ultimately show ?thesis using o by blast
qed

lemma copy_first_ok:
  assumes gf: "gf256_ready gf" and x: "length p \<le> length x" "\<And>k. k < length p \<Longrightarrow> x ! k = p ! k" and n: "length p \<le> n" "n \<le> length d"
    and y: "c = (case y of None \<Rightarrow> 1 | Some v \<Rightarrow> v)"
  shows "\<exists>d'. copy_first gf y x (length p) n d = Some d' \<and> length d' = length d \<and> filled_with d' (\<lambda>k. gmul (byte_of p k) c) n"
proof -
  have "\<exists>d1. (case y of None \<Rightarrow> memcpy_at d 0 (take (length p) x) | Some y \<Rightarrow> gf256_mul_mem (lib_arch gf) (lib_ctx gf) d x y (length p)) = Some d1
      \<and> length d1 = length d \<and> (\<forall>k<length p. d1 ! k = gmul (p ! k) c)"
  proof (cases y)
    case None
    have "overwrite d 0 (take (length p) x) ! k = p ! k" if "k < length p" for k using that x n by (simp add: nth_overwrite)
    then show ?thesis using None x(1) n y by (simp add: memcpy_at_def)
  next
    case (Some v)
    then show ?thesis using gf x n y by (simp add: gf256_mul_mem_eq gf256_ready_def nth_filled filled_def nth_append)
  qed
  then obtain d1 where d1: "(case y of None \<Rightarrow> memcpy_at d 0 (take (length p) x) | Some y \<Rightarrow> gf256_mul_mem (lib_arch gf) (lib_ctx gf) d x y (length p)) = Some d1"
    "length d1 = length d" "\<And>k. k < length p \<Longrightarrow> d1 ! k = gmul (p ! k) c" by blast
  have "copy_first gf y x (length p) n d = Some (overwrite d1 (length p) (replicate (n - length p) 0))"
    using d1(1,2) n by (simp add: copy_first_def memset0_def)
  then show ?thesis using d1(2,3) n by (auto simp: filled_with_def nth_overwrite byte_of_def)
qed


text \<open>The loop over the remaining packets; the step may keep more state.\<close>

lemma rows_loop:
  assumes pk: "packets_inv w L base lo" and f: "f = FirstUnremovedElement w" and R: "R = LongestPacket w"
    and start: "filled_with d (\<lambda>k. gmul (byte_of (L ! (base + f)) k) (row_coef row (base + f))) R" and A: "A (Suc f) a"
    and step: "\<And>e d u a F. f < e \<Longrightarrow> e < Count w \<Longrightarrow> A e a \<Longrightarrow> filled_with d F R
      \<Longrightarrow> \<exists>d' a'. body e (d, u, a) = Some (d', if u < length (L ! (base + e)) then length (L ! (base + e)) else u, a') \<and> A (Suc e) a'
        \<and> length d' = length d \<and> filled_with d' (\<lambda>k. F k XOR gmul (byte_of (L ! (base + e)) k) (row_coef row (base + e))) R"
  shows "\<exists>d' u a'. for_range (Suc f) (Count w) body (d, length (L ! (base + f)), a) = Some (d', u, a') \<and> length d' = length d
    \<and> filled_with d' (\<lambda>k. xsum (\<lambda>i. gmul (byte_of (L ! i) k) (row_coef row i)) [base + f..<length L]) R
    \<and> u \<le> R \<and> (\<forall>i. base + f \<le> i \<and> i < length L \<longrightarrow> length (L ! i) \<le> u)"
proof -
  note p = pk [unfolded packets_inv_def]
  let ?I = "\<lambda>e (d', u, a'). A e a' \<and> length d' = length d \<and> filled_with d' (\<lambda>k. xsum (\<lambda>i. gmul (byte_of (L ! i) k) (row_coef row i)) [base + f..<base + e]) R
    \<and> u \<le> R \<and> (\<forall>i. base + f \<le> i \<and> i < base + e \<longrightarrow> length (L ! i) \<le> u)"
  have len: "length (L ! (base + e)) \<le> R" if "f \<le> e" "e < Count w" for e using p that R f by auto
  have first: "length (L ! i) \<le> length (L ! (base + f))" if "base + f \<le> i" "i < Suc (base + f)" for i using that by (simp add: less_Suc_eq_le)
  have "\<exists>x. for_range (Suc f) (Count w) body (d, length (L ! (base + f)), a) = Some x \<and> ?I (Count w) x"
  proof (rule for_range_rule [where P = ?I])
    show "Suc f \<le> Count w" using p f by auto
    show "?I (Suc f) (d, length (L ! (base + f)), a)" using start A first len [of f] p f by simp
    fix e x assume e: "Suc f \<le> e" "e < Count w" "?I e x"
    obtain d1 u1 a1 where x: "x = (d1, u1, a1)" by (cases x)
    have i: "A e a1" "length d1 = length d" "filled_with d1 (\<lambda>k. xsum (\<lambda>i. gmul (byte_of (L ! i) k) (row_coef row i)) [base + f..<base + e]) R"
      "u1 \<le> R" "\<And>i. base + f \<le> i \<Longrightarrow> i < base + e \<Longrightarrow> length (L ! i) \<le> u1" using e(3) x by simp_all
    obtain d2 a2 where d2: "body e (d1, u1, a1) = Some (d2, if u1 < length (L ! (base + e)) then length (L ! (base + e)) else u1, a2)" "A (Suc e) a2" "length d2 = length d"
      "filled_with d2 (\<lambda>k. xsum (\<lambda>i. gmul (byte_of (L ! i) k) (row_coef row i)) [base + f..<base + e] XOR gmul (byte_of (L ! (base + e)) k) (row_coef row (base + e))) R"
      using step [OF _ e(2) i(1,3), of u1] e(1) i(2) by auto
    have "length (L ! i) \<le> (if u1 < length (L ! (base + e)) then length (L ! (base + e)) else u1)" if "base + f \<le> i \<and> i < base + Suc e" for i
      using i(5) [of i] that by (cases "i = base + e") auto
    moreover have "[base + f..<base + Suc e] = [base + f..<base + e] @ [base + e]" using e(1) by simp
    ultimately show "\<exists>x'. body e x = Some x' \<and> ?I (Suc e) x'"
      using d2 i(4) len [of e] e(1,2) unfolding x by (auto simp: xsum_append)
  qed
  then show ?thesis using p by auto
qed


lemma for_range_map:
  assumes "\<And>i s. f i (h s) = map_option h (g i s)"
  shows "for_range a b f (h s) = map_option h (for_range a b g s)"
proof -
  have "for_each f xs (h s) = map_option h (for_each g xs s)" for xs
    by (induction xs arbitrary: s) (auto simp: assms map_option_case split: option.splits Option.bind_splits)
  then show ?thesis by (simp add: for_range_def)
qed

lemma GetUnacknowledgedCount_eq:
  assumes "FirstUnremovedElement w \<le> Count w" and "Count w \<le> 16000"
  shows "GetUnacknowledgedCount w = Count w - FirstUnremovedElement w"
  unfolding GetUnacknowledgedCount_def by (rule wrap_diff) (use assms in auto)

lemma parity_row:
  assumes gf: "gf256_ready gf" and pk: "packets_inv w L base lo" and f: "f = FirstUnremovedElement w" and R: "R = LongestPacket w"
    and orig: "GetWindowElement w f = Some orig" "Data (Buffer orig) = Some x" "Bytes (Buffer orig) = length (L ! (base + f))" and d: "R \<le> length d"
  shows "\<exists>d' u. (do { d \<leftarrow> copy_first gf None x (Bytes (Buffer orig)) R d; for_range (Suc f) (Count w) (parity_step gf w) (d, Bytes (Buffer orig)) }) = Some (d', u)
    \<and> length d' = length d \<and> filled_with d' (\<lambda>k. xsum (\<lambda>i. gmul (byte_of (L ! i) k) (row_coef 0 i)) [base + f..<length L]) R
    \<and> u \<le> R \<and> (\<forall>i. base + f \<le> i \<and> i < length L \<longrightarrow> length (L ! i) \<le> u)"
proof -
  note p = pk [unfolded packets_inv_def]
  have el: "elems_ok w L base lo (Count w)" "lo \<le> f" "f < Count w" and len: "\<And>e. f \<le> e \<Longrightarrow> e < Count w \<Longrightarrow> length (L ! (base + e)) \<le> R" using p f R by auto
  have x: "length (L ! (base + f)) \<le> length x" "\<And>k. k < length (L ! (base + f)) \<Longrightarrow> x ! k = L ! (base + f) ! k"
    using GetWindowElement_orig [OF el] orig by (metis option.inject)+
  obtain d1 where d1: "copy_first gf None x (length (L ! (base + f))) R d = Some d1" "length d1 = length d" "filled_with d1 (\<lambda>k. gmul (byte_of (L ! (base + f)) k) (row_coef 0 (base + f))) R"
    using copy_first_ok [OF gf x len [OF order_refl el(3)] d, of "row_coef 0 (base + f)" None] by (auto simp: row_coef_def)
  let ?body = "\<lambda>e (d, u, a :: unit). map_option (\<lambda>(d, u). (d, u, ())) (parity_step gf w e (d, u))"
  have "\<exists>d' u a'. for_range (Suc f) (Count w) ?body (d1, length (L ! (base + f)), ()) = Some (d', u, a') \<and> length d' = length d1
    \<and> filled_with d' (\<lambda>k. xsum (\<lambda>i. gmul (byte_of (L ! i) k) (row_coef 0 i)) [base + f..<length L]) R
    \<and> u \<le> R \<and> (\<forall>i. base + f \<le> i \<and> i < length L \<longrightarrow> length (L ! i) \<le> u)"
  proof (rule rows_loop [OF pk f R d1(3), where A = "\<lambda>_ _. True"])
    fix e d u and a :: unit and F assume e: "f < e" "e < Count w" "filled_with d F R"
    have e': "lo \<le> e" "f \<le> e" using e(1) el(2) by simp_all
    show "\<exists>d' a'. ?body e (d, u, a) = Some (d', if u < length (L ! (base + e)) then length (L ! (base + e)) else u, a') \<and> True
        \<and> length d' = length d \<and> filled_with d' (\<lambda>k. F k XOR gmul (byte_of (L ! (base + e)) k) (row_coef 0 (base + e))) R"
      using add_packet_filled [OF el(1) e'(1) e(2) len [OF e'(2) e(2)] e(3), of "lib_arch gf"] by (auto simp: parity_step_def row_coef_def)
  qed simp
  moreover have "for_range (Suc f) (Count w) (parity_step gf w) ((\<lambda>(d, u, a :: unit). (d, u)) (d1, length (L ! (base + f)), ()))
      = map_option (\<lambda>(d, u, a :: unit). (d, u)) (for_range (Suc f) (Count w) ?body (d1, length (L ! (base + f)), ()))"
    by (rule for_range_map) (auto simp: option.map_comp comp_def case_prod_unfold option.map_ident)
  ultimately show ?thesis using d1(1,2) orig(3) by auto
qed

lemma cauchy_row:
  assumes gf: "gf256_ready gf" and pk: "packets_inv w L base lo" and f: "f = FirstUnremovedElement w" and R: "R = LongestPacket w" and row: "row < 192"
    and orig: "GetWindowElement w f = Some orig" "Data (Buffer orig) = Some x" "Bytes (Buffer orig) = length (L ! (base + f))" and d: "R \<le> length d"
  shows "\<exists>d' u a. (do { y \<leftarrow> CauchyElement gf row ((base + f) mod 64); d \<leftarrow> copy_first gf (Some y) x (Bytes (Buffer orig)) R d;
      for_range (Suc f) (Count w) (cauchy_step gf w row) (d, Bytes (Buffer orig), (base + f) mod 64) }) = Some (d', u, a)
    \<and> length d' = length d \<and> filled_with d' (\<lambda>k. xsum (\<lambda>i. gmul (byte_of (L ! i) k) (row_coef (Suc row) i)) [base + f..<length L]) R
    \<and> u \<le> R \<and> (\<forall>i. base + f \<le> i \<and> i < length L \<longrightarrow> length (L ! i) \<le> u)"
proof -
  note p = pk [unfolded packets_inv_def]
  have el: "elems_ok w L base lo (Count w)" "lo \<le> f" "f < Count w" and len: "\<And>e. f \<le> e \<Longrightarrow> e < Count w \<Longrightarrow> length (L ! (base + e)) \<le> R" using p f R by auto
  have x: "length (L ! (base + f)) \<le> length x" "\<And>k. k < length (L ! (base + f)) \<Longrightarrow> x ! k = L ! (base + f) ! k"
    using GetWindowElement_orig [OF el] orig by (metis option.inject)+
  obtain d1 where d1: "copy_first gf (Some (cauchy_coef row (base + f))) x (length (L ! (base + f))) R d = Some d1" "length d1 = length d"
    "filled_with d1 (\<lambda>k. gmul (byte_of (L ! (base + f)) k) (row_coef (Suc row) (base + f))) R"
    using copy_first_ok [OF gf x len [OF order_refl el(3)] d, of "row_coef (Suc row) (base + f)" "Some (cauchy_coef row (base + f))"] by (auto simp: row_coef_def)
  have "\<exists>d' u a'. for_range (Suc f) (Count w) (cauchy_step gf w row) (d1, length (L ! (base + f)), (base + f) mod 64) = Some (d', u, a') \<and> length d' = length d1
    \<and> filled_with d' (\<lambda>k. xsum (\<lambda>i. gmul (byte_of (L ! i) k) (row_coef (Suc row) i)) [base + f..<length L]) R
    \<and> u \<le> R \<and> (\<forall>i. base + f \<le> i \<and> i < length L \<longrightarrow> length (L ! i) \<le> u)"
  proof (rule rows_loop [OF pk f R d1(3), where A = "\<lambda>e a. Suc a mod 64 = (base + e) mod 64"])
    show "Suc ((base + f) mod 64) mod 64 = (base + Suc f) mod 64" by (simp add: mod_Suc_eq)
    fix e d u a F assume e: "f < e" "e < Count w" "Suc a mod 64 = (base + e) mod 64" "filled_with d F R"
    have e': "lo \<le> e" "f \<le> e" using e(1) el(2) by simp_all
    have col: "Suc ((base + e) mod 64) mod 64 = (base + Suc e) mod 64" by (simp add: mod_Suc_eq)
    show "\<exists>d' a'. cauchy_step gf w row e (d, u, a) = Some (d', if u < length (L ! (base + e)) then length (L ! (base + e)) else u, a') \<and> Suc a' mod 64 = (base + Suc e) mod 64
        \<and> length d' = length d \<and> filled_with d' (\<lambda>k. F k XOR gmul (byte_of (L ! (base + e)) k) (row_coef (Suc row) (base + e))) R"
      using muladd_packet_filled [OF gf el(1) e'(1) e(2) len [OF e'(2) e(2)] e(4), of "cauchy_coef row (base + e)"] e(3) CauchyElement_ok [OF gf row, of "base + e"] col
      by (auto simp: cauchy_step_def row_coef_def kCauchyMaxColumns_def SIAMESE_CAUCHY_THRESHOLD_def)
  qed
  then show ?thesis using d1(1,2) orig(3) CauchyElement_ok [OF gf row, of "base + f"] by auto
qed


text \<open>A row that was computed becomes a recovery packet.\<close>

lemma row_packet:
  assumes d: "filled_with d (\<lambda>k. xsum (\<lambda>i. gmul (byte_of (L ! i) k) (row_coef row i)) [S..<length L]) R" and R: "R + 8 \<le> length d"
    and u: "u \<le> R" "\<And>i. S \<le> i \<Longrightarrow> i < length L \<Longrightarrow> length (L ! i) \<le> u" and c: "S + c = length L" "1 < c" "c \<le> 64" and row: "row < 256"
    and m: "m = \<lparr> Row = of_nat row, ColumnStart = col S, SumCount = of_nat c, LDPCCount = of_nat c \<rparr>"
  shows "\<exists>d'. SerializeFooter_RecoveryMetadata m d u = Some (d', length (recovery_metadata_wire m)) \<and> recovery_ok L (take (u + length (recovery_metadata_wire m)) d') m
    \<and> unat (LDPCCount m) = c"
proof -
  have ok: "recovery_metadata_ok m" and n: "unat (Row m) = row" "unat (SumCount m) = c" "unat (LDPCCount m) = c"
    using metadata_ok_nat(1) [of row c c S] metadata_ok_nat(2-4) [of row c c] row c by (simp_all add: m)
  have len: "u + 8 \<le> length d" using R u(1) by simp
  obtain d' where d': "SerializeFooter_RecoveryMetadata m d u = Some (d', length (recovery_metadata_wire m))"
    "take (u + length (recovery_metadata_wire m)) d' = take u d @ recovery_metadata_wire m"
    using write_footer [OF ok len] by blast
  have byte: "take u d ! k = recovery_byte L S (length L) c row k" if "k < u" for k
  proof -
    have "take u d ! k = xsum (\<lambda>i. gmul (byte_of (L ! i) k) (row_coef row i)) [S..<length L]"
      using that u(1) d by (simp add: filled_with_def)
    moreover have "length L - S = c" using c(1) by simp
    ultimately show ?thesis using c(2,3) by (simp add: recovery_byte_def row_coef_def)
  qed
  have "recovery_ok L (take (u + length (recovery_metadata_wire m)) d') m"
    unfolding recovery_ok_def
  proof (intro exI conjI)
    show "take (u + length (recovery_metadata_wire m)) d' = take u d @ recovery_metadata_wire m" by (rule d'(2))
    show "\<forall>k<length (take u d). take u d ! k = recovery_byte L S (length L) (unat (LDPCCount m)) (unat (Row m)) k" using byte n by simp
    show "\<forall>i. length L - unat (LDPCCount m) \<le> i \<and> i < length L \<longrightarrow> length (L ! i) \<le> length (take u d)" using u(2) n len c(1) by auto
  qed (use ok n c in \<open>simp_all add: m\<close>)
  then show ?thesis using d'(1) n by blast
qed

lemma window_inv_requests [simp]: "window_inv (w\<lparr>Requests := r\<rparr>) L base lo = window_inv w L base lo"
  by (simp add: window_inv_def window_sized_def subs_ok_def lanes_sized_def packets_inv_def elems_ok_def sums_inv_def lane_ok_def)

lemma GenerateCauchyPacket_ok:
  assumes gf: "gf256_ready gf" and mem: "mem_ok mem" and inv: "window_inv (Window e) L base lo" and count: "0 < Count (Window e)"
    and row: "NextRow e < 255" "NextCauchyRow e < 192"
    and c: "c = Count (Window e) - FirstUnremovedElement (Window e)" "1 < c" "c \<le> 64"
  shows "\<exists>packet m e'. GenerateCauchyPacket mem gf e = Some (Siamese_Success, packet, e') \<and> recovery_ok L packet m \<and> unat (LDPCCount m) = c
    \<and> window_inv (Window e') L base lo \<and> 0 < Count (Window e') \<and> NextRow e' < 255 \<and> NextCauchyRow e' < 192"
proof -
  define w where "w = (Window e)\<lparr>Requests := Requests (Window e) + 1\<rparr>"
  have invw: "window_inv w L base lo" "0 < Count w" using inv count by (simp_all add: w_def)
  have pk: "packets_inv w L base lo" and size: "window_sized w" using invw by (simp_all add: window_inv_def)
  note p = pk [unfolded packets_inv_def]
  define f R where "f = FirstUnremovedElement w" and "R = LongestPacket w"
  obtain g where g: "mem (Requests (Window e)) = Some g" using mem_ok_block [OF mem] by blast
  have el: "elems_ok w L base lo (Count w)" "lo \<le> f" "f < Count w" using p by (simp_all add: f_def)
  obtain orig x where o: "GetWindowElement w f = Some orig" "Data (Buffer orig) = Some x" "Bytes (Buffer orig) = length (L ! (base + f))"
    using GetWindowElement_orig [OF el] by metis
  have uc: "GetUnacknowledgedCount w = c" using GetUnacknowledgedCount_eq [of w] p size c(1) by (simp add: window_sized_def w_def)
  have cs: "ElementToColumn w f = col (base + f)" using p by (simp add: ElementToColumn_def)
  have S: "base + f + c = length L" using p c(1) by (simp add: f_def w_def)
  let ?d = "map g [0..<R + 8]" and ?meta = "\<lambda>row. \<lparr> Row = of_nat row, ColumnStart = col (base + f), SumCount = of_nat c, LDPCCount = of_nat c \<rparr>"
  have d: "R \<le> length ?d" by simp
  have cc: "unat (col (base + f)) mod kCauchyMaxColumns = (base + f) mod 64"
    by (simp add: kCauchyMaxColumns_def SIAMESE_CAUCHY_THRESHOLD_def mod_mod_cancel)
  note prefix = GenerateCauchyPacket_def Let_def next_block_def prod.case buf_Initialize_def kMaxRecoveryMetadataBytes_def
  have folds: "(Window e)\<lparr>Requests := Suc (Requests (Window e))\<rparr> = w" "FirstUnremovedElement (Window e) = f" "LongestPacket (Window e) = R" by (simp_all add: w_def f_def R_def)
  show ?thesis
  proof (cases "ColumnToElement w (NextParityColumn e) \<le> f \<or> IsColumnDeltaNegative (of_nat (ColumnToElement w (NextParityColumn e)))")
    case True
    obtain d1 u where d1: "(do { d \<leftarrow> copy_first gf None x (Bytes (Buffer orig)) R ?d; for_range (Suc f) (Count w) (parity_step gf w) (d, Bytes (Buffer orig)) }) = Some (d1, u)"
      "length d1 = R + 8" "filled_with d1 (\<lambda>k. xsum (\<lambda>i. gmul (byte_of (L ! i) k) (row_coef 0 i)) [base + f..<length L]) R"
      "u \<le> R" "\<And>i. base + f \<le> i \<Longrightarrow> i < length L \<Longrightarrow> length (L ! i) \<le> u"
      using parity_row [OF gf pk f_def R_def o d] by auto
    obtain d2 where d2: "SerializeFooter_RecoveryMetadata (?meta 0) d1 u = Some (d2, length (recovery_metadata_wire (?meta 0)))"
      "recovery_ok L (take (u + length (recovery_metadata_wire (?meta 0))) d2) (?meta 0)" "unat (LDPCCount (?meta 0)) = c"
      using row_packet [OF d1(3) _ d1(4,5) S c(2,3)] d1(2) by auto
    let ?e = "e\<lparr>Window := w, NextParityColumn := AddColumns (col (base + f)) (of_nat c), RecoveryPacket := \<lparr> Data = Some d2, Bytes = R + 8 \<rparr>\<rparr>"
    obtain d0 where d0: "copy_first gf None x (Bytes (Buffer orig)) R ?d = Some d0" "for_range (Suc f) (Count w) (parity_step gf w) (d0, Bytes (Buffer orig)) = Some (d1, u)"
      using d1(1) by (auto split: Option.bind_splits)
    have "GenerateCauchyPacket mem gf e = Some (recovery_done d2 (u + length (recovery_metadata_wire (?meta 0))) ?e)"
      using g o(1,2) d0 d2(1) True unfolding prefix by (simp add: folds realloc_uninitialized_def cs uc)
    then show ?thesis using invw row d2(2,3) recovery_done_ok [of L _ _ "?meta 0" ?e base lo c] by simp
  next
    case False
    let ?row = "NextCauchyRow e"
    obtain d1 u a where d1: "(do { y \<leftarrow> CauchyElement gf ?row ((base + f) mod 64); d \<leftarrow> copy_first gf (Some y) x (Bytes (Buffer orig)) R ?d;
        for_range (Suc f) (Count w) (cauchy_step gf w ?row) (d, Bytes (Buffer orig), (base + f) mod 64) }) = Some (d1, u, a)"
      "length d1 = R + 8" "filled_with d1 (\<lambda>k. xsum (\<lambda>i. gmul (byte_of (L ! i) k) (row_coef (Suc ?row) i)) [base + f..<length L]) R"
      "u \<le> R" "\<And>i. base + f \<le> i \<Longrightarrow> i < length L \<Longrightarrow> length (L ! i) \<le> u"
      using cauchy_row [OF gf pk f_def R_def row(2) o d] by auto
    obtain d2 where d2: "SerializeFooter_RecoveryMetadata (?meta (Suc ?row)) d1 u = Some (d2, length (recovery_metadata_wire (?meta (Suc ?row))))"
      "recovery_ok L (take (u + length (recovery_metadata_wire (?meta (Suc ?row)))) d2) (?meta (Suc ?row))" "unat (LDPCCount (?meta (Suc ?row))) = c"
      using row_packet [OF d1(3) _ d1(4,5) S c(2,3)] d1(2) row(2) by auto
    let ?e = "e\<lparr>Window := w, NextCauchyRow := (if ?row + 1 \<ge> kCauchyMaxRows then 0 else ?row + 1), RecoveryPacket := \<lparr> Data = Some d2, Bytes = R + 8 \<rparr>\<rparr>"
    obtain y d0 where d0: "CauchyElement gf ?row ((base + f) mod 64) = Some y" "copy_first gf (Some y) x (Bytes (Buffer orig)) R ?d = Some d0"
      "for_range (Suc f) (Count w) (cauchy_step gf w ?row) (d0, Bytes (Buffer orig), (base + f) mod 64) = Some (d1, u, a)"
      using d1(1) by (auto split: Option.bind_splits)
    have "GenerateCauchyPacket mem gf e = Some (recovery_done d2 (u + length (recovery_metadata_wire (?meta (Suc ?row)))) ?e)"
      using g o(1,2) d0 d2(1) False unfolding prefix by (simp add: folds realloc_uninitialized_def cs uc cc del: unat_col)
    then show ?thesis using invw row d2(2,3) recovery_done_ok [of L _ _ "?meta (Suc ?row)" ?e base lo c]
      by (simp add: kCauchyMaxRows_def kCauchyMaxColumns_def SIAMESE_CAUCHY_THRESHOLD_def)
  qed
qed


section \<open>A single packet\<close>

lemma PutWindowElement_inv:
  assumes inv: "window_inv w L base lo" and e: "e < Count w" and orig: "orig_ok orig (L ! (base + e)) (col (base + e))"
  shows "\<exists>w'. PutWindowElement e orig w = Some w' \<and> window_inv w' L base lo \<and> Count w' = Count w"
proof -
  have size: "subs_ok w" "e < 64 * length (Subwindows w)" and pk: "packets_inv w L base lo" using inv e by (auto simp: window_inv_def window_sized_def)
  obtain ss where ss: "PutWindowElement e orig w = Some (w\<lparr>Subwindows := ss\<rparr>)" "length ss = length (Subwindows w)" "subs_ok (w\<lparr>Subwindows := ss\<rparr>)"
    "\<And>e'. GetWindowElement (w\<lparr>Subwindows := ss\<rparr>) e' = (if e' = e then Some orig else GetWindowElement w e')"
    using PutWindowElement_ok [OF size, of orig] by blast
  have "elems_ok (w\<lparr>Subwindows := ss\<rparr>) L base lo (Count w)"
    using pk orig by (auto simp: packets_inv_def elems_ok_def ss(4))
  moreover have "slots_ok (Subwindows (w\<lparr>Subwindows := ss\<rparr>)) L"
  proof (rule slots_okI [OF ss(3)])
    fix e' orig' assume get: "GetWindowElement (w\<lparr>Subwindows := ss\<rparr>) e' = Some orig'"
    have "base + e < length L" using pk e by (simp add: packets_inv_def)
    then have "slot_ok L orig" using orig unfolding slot_ok_def by blast
    moreover have "slots_ok (Subwindows w) L" using inv by (simp add: window_inv_def)
    ultimately show "slot_ok L orig'" using get slots_ok_get [of w L e' orig'] unfolding ss(4) by (cases "e' = e") auto
  qed
  ultimately have "window_inv (w\<lparr>Subwindows := ss\<rparr>) L base lo"
    using inv ss(2,3) by (auto simp: window_inv_def window_sized_def subs_ok_def lanes_sized_def packets_inv_def sums_inv_def lane_ok_def)
  then show ?thesis using ss(1) by auto
qed

lemma GenerateSinglePacket_ok:
  assumes mem: "mem_ok mem" and inv: "window_inv (Window e) L base lo" and count: "0 < Count (Window e)"
    and row: "NextRow e < 255" "NextCauchyRow e < 192" and c: "Count (Window e) - FirstUnremovedElement (Window e) = 1"
  shows "\<exists>packet m e'. GenerateSinglePacket mem e = Some (Siamese_Success, packet, e') \<and> recovery_ok L packet m \<and> unat (LDPCCount m) = 1
    \<and> window_inv (Window e') L base lo \<and> 0 < Count (Window e') \<and> NextRow e' < 255 \<and> NextCauchyRow e' < 192"
proof -
  define w where "w = (Window e)\<lparr>Requests := Suc (Requests (Window e))\<rparr>"
  have invw: "window_inv w L base lo" "0 < Count w" using inv count by (simp_all add: w_def)
  have pk: "packets_inv w L base lo" using invw by (simp add: window_inv_def)
  note p = pk [unfolded packets_inv_def]
  define f where "f = FirstUnremovedElement w"
  have el: "elems_ok w L base lo (Count w)" "lo \<le> f" "f < Count w" using p by (simp_all add: f_def)
  let ?p = "L ! (base + f)" and ?c = "col (base + f)"
  have "Count w - f = 1" "base + Count w = length L" using p c by (simp_all add: f_def w_def)
  then have last: "Suc (base + f) = length L" using el(3) by linarith
  obtain g where g: "mem (Requests (Window e)) = Some g" using mem_ok_block [OF mem] by blast
  obtain orig x where o: "GetWindowElement w f = Some orig" "Data (Buffer orig) = Some x" "Bytes (Buffer orig) = length ?p" "length ?p \<le> length x"
    "\<And>k. k < length ?p \<Longrightarrow> x ! k = ?p ! k" "orig_ok orig ?p ?c"
    using GetWindowElement_orig [OF el] by metis
  have "holds (Buffer orig) (byte_of ?p)" using o by (simp add: holds_def byte_of_def)
  then obtain b d where b: "GrowZeroPadded (Some g) (length ?p + 8) (Buffer orig) = Some (True, b)" "holds b (byte_of ?p)" "Bytes b = length ?p + 8" "Data b = Some d"
    using GrowZeroPadded_ok [of "Buffer orig" "byte_of ?p" g "length ?p + 8"] o(3) by auto
  have d: "length ?p + 8 \<le> length d" "take (length ?p) d = ?p"
    using b(2-4) by (auto simp: holds_def byte_of_def intro!: nth_equalityI)
  define m where "m = \<lparr> Row = 0, ColumnStart = ?c, SumCount = 1, LDPCCount = 1 \<rparr>"
  have ok: "recovery_metadata_ok m" using metadata_ok_nat(1) [of 0 1 1 "base + f"] by (simp add: m_def)
  obtain d' where d': "SerializeFooter_RecoveryMetadata m d (length ?p) = Some (d', length (recovery_metadata_wire m))" "length d' = length d"
    "take (length ?p + length (recovery_metadata_wire m)) d' = ?p @ recovery_metadata_wire m" "take (length ?p) d' = ?p"
    using write_footer [OF ok d(1)] d(2) by auto
  let ?orig = "orig\<lparr>Buffer := \<lparr> Data = Some d', Bytes = length ?p \<rparr>\<rparr>"
  have "orig_ok ?orig ?p ?c" using o(6) d'(2,4) d(1) by (simp add: orig_ok_def)
  then obtain w' where w': "PutWindowElement f ?orig w = Some w'" "window_inv w' L base lo" "Count w' = Count w"
    using PutWindowElement_inv [OF invw(1) el(3)] by blast
  have folds: "FirstUnremovedElement (Window e) = f" "FirstUnremovedElement w = f" by (simp_all add: w_def f_def)
  have o1: "GetWindowElement (Window e) f = Some orig" "Column orig = ?c" using o(1,6) by (simp_all add: w_def orig_ok_def)
  have "GenerateSinglePacket mem e = Some (recovery_done d' (length ?p + length (recovery_metadata_wire m)) (e\<lparr>Window := w'\<rparr>))"
    using g o1 o(3) b(1,4) d'(1) w'(1)
    unfolding GenerateSinglePacket_def Let_def next_block_def prod.case folds by (simp add: kMaxRecoveryMetadataBytes_def m_def folds flip: w_def)
  moreover have "recovery_ok L (take (length ?p + length (recovery_metadata_wire m)) d') m"
    unfolding recovery_ok_def d'(3)
  proof (intro exI conjI)
    show "base + f + unat (SumCount m) = length L" using last by (simp add: m_def)
    show "\<forall>k<length ?p. ?p ! k = recovery_byte L (base + f) (length L) (unat (LDPCCount m)) (unat (Row m)) k"
      using last by (auto simp: recovery_byte_def byte_of_def)
    show "\<forall>i. length L - unat (LDPCCount m) \<le> i \<and> i < length L \<longrightarrow> length (L ! i) \<le> length ?p"
    proof (intro allI impI)
      fix i assume "length L - unat (LDPCCount m) \<le> i \<and> i < length L"
      then have "length L - 1 \<le> i \<and> i < length L" by (simp add: m_def)
      then have "i = base + f" using last by linarith
      then show "length (L ! i) \<le> length ?p" by simp
    qed
  qed (use ok in \<open>simp_all add: m_def\<close>)
  ultimately show ?thesis using invw w'(2,3) row recovery_done_ok [of L _ d' m "e\<lparr>Window := w'\<rparr>" base lo 1] by (simp add: m_def)
qed


section \<open>The choice of the code\<close>

definition encoder_inv :: "Encoder \<Rightarrow> bytes list \<Rightarrow> bool" where
  "encoder_inv e L \<longleftrightarrow> (\<exists>base lo. window_inv (Window e) L base lo) \<and> NextRow e < 255 \<and> NextCauchyRow e < 192"

abbreviation unacknowledged :: "Encoder \<Rightarrow> nat" where
  "unacknowledged e \<equiv> Count (Window e) - FirstUnremovedElement (Window e)"

text \<open>After the elements before the threshold were removed.\<close>

lemma Encode_choice:
  assumes gf: "gf256_ready gf" and mem: "mem_ok mem" and inv: "window_inv (Window e) L base lo" and count: "0 < Count (Window e)"
    and row: "NextRow e < 255" "NextCauchyRow e < 192" and len: "length L < 2 ^ 31" "maxlen L + 31 < 2 ^ 32"
    and w: "w = Window e" and c: "c = unacknowledged e"
  shows "\<exists>packet m e'. (if GetUnacknowledgedCount w = 1 then GenerateSinglePacket mem e
         else
           let newSumCountUB = (Count w + 2 ^ 32 - SumStartElement w + SumErasedCount w) mod 2 ^ 32
           in if SumEndElement w \<le> SumStartElement w \<or> newSumCountUB \<ge> SIAMESE_MAX_PACKETS then
                (if GetUnacknowledgedCount w \<le> SIAMESE_CAUCHY_THRESHOLD then GenerateCauchyPacket mem gf e
                 else GenerateSiamesePacket mem gf (GetUnacknowledgedCount w) (e\<lparr>Window := ResetSums (FirstUnremovedElement w) w\<rparr>))
              else if GetUnacknowledgedCount w \<le> SIAMESE_SUM_RESET_THRESHOLD \<or> newSumCountUB \<le> SIAMESE_CAUCHY_THRESHOLD then
                GenerateCauchyPacket mem gf (e\<lparr>Window := w\<lparr>SumEndElement := SumStartElement w\<rparr>\<rparr>)
              else GenerateSiamesePacket mem gf (GetUnacknowledgedCount w) e) = Some (Siamese_Success, packet, e')
    \<and> recovery_ok L packet m \<and> unat (LDPCCount m) = c \<and> window_inv (Window e') L base lo \<and> 0 < Count (Window e') \<and> NextRow e' < 255 \<and> NextCauchyRow e' < 192"
proof -
  have pk: "packets_inv w L base lo" and size: "window_sized w" and sums: "SumStartElement w < SumEndElement w \<Longrightarrow> sums_inv w L base lo"
    and dis: "\<not> EmergencyDisabled w" "NextColumn w = col (length L)" "slots_ok (Subwindows w) L" using inv count w by (simp_all add: window_inv_def)
  note p = pk [unfolded packets_inv_def]
  have uc: "GetUnacknowledgedCount w = c" and c16: "c \<le> 16000" "0 < c" using GetUnacknowledgedCount_eq [of w] p size c w by (auto simp: window_sized_def)
  let ?ub = "(Count w + 2 ^ 32 - SumStartElement w + SumErasedCount w) mod 2 ^ 32"
  have ub: "?ub = length L - (base + SumStartElement w - SumErasedCount w)" "c \<le> ?ub" if "SumStartElement w < SumEndElement w"
  proof -
    note s = sums [OF that, unfolded sums_inv_def Let_def]
    define n where "n = length L - (base + SumStartElement w - SumErasedCount w)"
    have "Count w + 2 ^ 32 - SumStartElement w + SumErasedCount w = n + 2 ^ 32" "n < 2 ^ 32" using s p len(1) that unfolding n_def by auto
    then show "?ub = length L - (base + SumStartElement w - SumErasedCount w)" by (simp only: n_def mod_add_self2 mod_less)
    then show "c \<le> ?ub" using s p c w by auto
  qed
  note limits = SIAMESE_MAX_PACKETS_def SIAMESE_CAUCHY_THRESHOLD_def SIAMESE_SUM_RESET_THRESHOLD_def
  consider "c = 1" | "c \<noteq> 1" "SumEndElement w \<le> SumStartElement w \<or> ?ub \<ge> 16000" "c \<le> 64" | "c \<noteq> 1" "SumEndElement w \<le> SumStartElement w \<or> ?ub \<ge> 16000" "64 < c"
    | "c \<noteq> 1" "SumStartElement w < SumEndElement w" "?ub < 16000" "c \<le> 32 \<or> ?ub \<le> 64" | "c \<noteq> 1" "SumStartElement w < SumEndElement w" "?ub < 16000" "32 < c" "64 < ?ub"
    by linarith
  then show ?thesis
  proof cases
    case 1
    then show ?thesis using GenerateSinglePacket_ok [OF mem inv count row] c uc by simp
  next
    case 2
    then show ?thesis using GenerateCauchyPacket_ok [OF gf mem inv count row c] c16 uc by (auto simp: limits Let_def)
  next
    case 3
    let ?e = "e\<lparr>Window := ResetSums (FirstUnremovedElement w) w\<rparr>"
    note r = ResetSums_window [OF pk size dis]
    have f: "SumStartElement (Window ?e) = FirstUnremovedElement w" "SumErasedCount (Window ?e) = 0" "Count (Window ?e) = Count w" "FirstUnremovedElement (Window ?e) = FirstUnremovedElement w"
      by (simp_all add: ResetSums_def)
    have n: "c = length L - (base + SumStartElement (Window ?e) - SumErasedCount (Window ?e))" "c = unacknowledged ?e" using p c w unfolding f by auto
    have "\<exists>packet m e'. GenerateSiamesePacket mem gf c ?e = Some (Siamese_Success, packet, e') \<and> recovery_ok L packet m \<and> unat (LDPCCount m) = c
        \<and> window_inv (Window e') L base lo \<and> 0 < Count (Window e') \<and> NextRow e' < 255 \<and> NextCauchyRow e' < 192"
      by (rule GenerateSiamesePacket_ok [OF gf mem _ _ _ _ _ len(2) n(1) 3(3) c16(1) n(2)]) (use r f row count w in simp_all)
    then show ?thesis using 3 uc by (auto simp: limits Let_def)
  next
    case 4
    let ?e = "e\<lparr>Window := w\<lparr>SumEndElement := SumStartElement w\<rparr>\<rparr>"
    have i: "window_inv (Window ?e) L base lo" using inv w by (simp add: window_inv_def window_sized_def subs_ok_def lanes_sized_def packets_inv_def elems_ok_def)
    have "c \<le> 64" using 4(4) ub(2) [OF 4(2)] by linarith
    then show ?thesis using GenerateCauchyPacket_ok [OF gf mem i _ _ _ _ _ \<open>c \<le> 64\<close>] 4 c16 uc c w count row by (auto simp: limits Let_def)
  next
    case 5
    have n: "?ub = length L - (base + SumStartElement (Window e) - SumErasedCount (Window e))" using ub(1) [OF 5(2)] w by simp
    have s: "sums_inv (Window e) L base lo" using sums [OF 5(2)] w by simp
    have "\<exists>packet m e'. GenerateSiamesePacket mem gf c e = Some (Siamese_Success, packet, e') \<and> recovery_ok L packet m \<and> unat (LDPCCount m) = c
        \<and> window_inv (Window e') L base lo \<and> 0 < Count (Window e') \<and> NextRow e' < 255 \<and> NextCauchyRow e' < 192"
      by (rule GenerateSiamesePacket_ok [OF gf mem inv count s row len(2) n 5(5) less_imp_le [OF 5(3)] c])
    then show ?thesis using 5 uc by (auto simp: limits Let_def)
  qed
qed

lemma Encode_ok:
  assumes gf: "gf256_ready gf" and mem: "mem_ok mem" and inv: "encoder_inv e L" and count: "0 < Count (Window e)" and len: "length L < 2 ^ 31" "maxlen L + 31 < 2 ^ 32"
  shows "\<exists>packet m e'. Encode mem gf e = Some (Siamese_Success, packet, e') \<and> recovery_ok L packet m \<and> unat (LDPCCount m) = unacknowledged e
    \<and> encoder_inv e' L \<and> 0 < Count (Window e')"
proof -
  obtain base lo where i: "window_inv (Window e) L base lo" and row: "NextRow e < 255" "NextCauchyRow e < 192" using inv by (auto simp: encoder_inv_def)
  have dis: "\<not> EmergencyDisabled (Window e)" using i by (simp add: window_inv_def)
  have "\<exists>w base' lo'. (if FirstUnremovedElement (Window e) \<ge> kEncoderRemoveThreshold then RemoveElements mem gf (Window e) else Some (Window e)) = Some w
      \<and> window_inv w L base' lo' \<and> 0 < Count w \<and> Count w - FirstUnremovedElement w = unacknowledged e"
  proof (cases "FirstUnremovedElement (Window e) \<ge> kEncoderRemoveThreshold")
    case True
    obtain w base' lo' where w: "RemoveElements mem gf (Window e) = Some w" "window_inv w L base' lo'" "0 < Count w" "base' + FirstUnremovedElement w = base + FirstUnremovedElement (Window e)"
      using RemoveElements_ok [OF gf mem i count] by blast
    moreover have "base' + Count w = length L" "base + Count (Window e) = length L" using w(2,3) i count by (simp_all add: window_inv_def packets_inv_def)
    ultimately have "Count w - FirstUnremovedElement w = unacknowledged e" by linarith
    then show ?thesis using True w by auto
  qed (use i count in auto)
  then obtain w base' lo' where w: "(if FirstUnremovedElement (Window e) \<ge> kEncoderRemoveThreshold then RemoveElements mem gf (Window e) else Some (Window e)) = Some w"
    "window_inv w L base' lo'" "0 < Count w" "Count w - FirstUnremovedElement w = unacknowledged e" by blast
  let ?e = "e\<lparr>Window := w\<rparr>"
  have "\<exists>packet m e'. Encode mem gf e = Some (Siamese_Success, packet, e') \<and> recovery_ok L packet m \<and> unat (LDPCCount m) = unacknowledged e
      \<and> window_inv (Window e') L base' lo' \<and> 0 < Count (Window e') \<and> NextRow e' < 255 \<and> NextCauchyRow e' < 192"
    using Encode_choice [OF gf mem, of ?e L base' lo' w "unacknowledged e"] w(2-4) row len dis count
    unfolding Encode_def w(1) Option.bind.bind_lunit Let_def by simp
  then show ?thesis unfolding encoder_inv_def by blast
qed

end
