(* ===== verification/Encoder_Life.thy ===== *)
theory Encoder_Life
  imports Encoder_Encode
begin

text \<open>
  The encoder over its life: acknowledgements and retransmissions return on every input and keep the invariant, and the
  states that a sequence of calls can reach.
\<close>

unbundle bit_operations_syntax

section \<open>Acknowledgement data\<close>

definition ack_ok :: "EncoderAcknowledgementState \<Rightarrow> bool" where
  "ack_ok a \<longleftrightarrow> (DataBytes a > 0 \<longrightarrow> (\<exists>d. ackData a = Some d \<and> DataBytes a + 8 \<le> length d))"

text \<open>Reading loss ranges moves the position only.\<close>

definition ack_moved :: "EncoderAcknowledgementState \<Rightarrow> EncoderAcknowledgementState \<Rightarrow> bool" where
  "ack_moved a a' \<longleftrightarrow> ackData a' = ackData a \<and> DataBytes a' = DataBytes a"

lemma ack_moved_ok: "ack_moved a a' \<Longrightarrow> ack_ok a' = ack_ok a"
  by (simp add: ack_moved_def ack_ok_def)

lemma DecodeNextRange_ok:
  assumes "ack_ok a"
  shows "\<exists>ok a'. DecodeNextRange a = Some (ok, a') \<and> ack_moved a a' \<and> (ok \<longrightarrow> Offset a < Offset a' \<and> Offset a' \<le> DataBytes a)"
proof (cases "Offset a \<ge> DataBytes a")
  case True
  then show ?thesis by (auto simp: DecodeNextRange_def ack_moved_def)
next
  case False
  then obtain d where d: "ackData a = Some d" "DataBytes a + 8 \<le> length d" using assms by (auto simp: ack_ok_def)
  have "Offset a + (DataBytes a + kPaddingBytes - Offset a) \<le> length d" using d(2) False by (simp add: kPaddingBytes_def)
  then obtain r where r: "DeserializeHeader_NACKLossRange d (Offset a) (DataBytes a + kPaddingBytes - Offset a) = Some r"
    using DeserializeHeader_NACKLossRange_safe by blast
  show ?thesis
  proof (cases r)
    case ParseError
    then show ?thesis using False d(1) r by (auto simp: DecodeNextRange_def ack_moved_def)
  next
    case (Parsed n v)
    obtain rs m where v: "v = (rs, m)" by (cases v)
    have "0 < n" using NACKLossRange_bytes r Parsed by blast
    then show ?thesis using False d(1) r Parsed v by (auto simp: DecodeNextRange_def ack_moved_def Let_def)
  qed
qed

definition loss_measure :: "EncoderAcknowledgementState \<Rightarrow> nat \<times> nat" where
  "loss_measure a = (DataBytes a - Offset a, unat (LossCount a))"

lemma GetNextLossColumn_ok:
  assumes "ack_ok a"
  shows "\<exists>c a'. GetNextLossColumn a = Some (c, a') \<and> ack_moved a a'
    \<and> (c \<noteq> None \<longrightarrow> (loss_measure a', loss_measure a) \<in> less_than <*lex*> less_than)"
proof (cases "LossCount a \<le> 0")
  case True
  have ok1: "ack_ok (a\<lparr>LossColumn := IncrementColumn1 (LossColumn a)\<rparr>)" using assms by (simp add: ack_ok_def)
  obtain ok a' where a': "DecodeNextRange (a\<lparr>LossColumn := IncrementColumn1 (LossColumn a)\<rparr>) = Some (ok, a')"
    "ack_moved (a\<lparr>LossColumn := IncrementColumn1 (LossColumn a)\<rparr>) a'" "ok \<longrightarrow> Offset a < Offset a' \<and> Offset a' \<le> DataBytes a"
    using DecodeNextRange_ok [OF ok1] by auto
  then show ?thesis using True by (cases ok) (auto simp: GetNextLossColumn_def ack_moved_def loss_measure_def)
next
  case False
  then have "unat (LossCount a - 1) < unat (LossCount a)"
    by (intro measure_unat) auto
  then show ?thesis using False by (auto simp: GetNextLossColumn_def ack_moved_def loss_measure_def)
qed

section \<open>Reading the window\<close>

lemma window_slot:
  assumes "window_sized w" and "e < Count w"
  shows "\<exists>orig sent. GetWindowElement w e = Some orig \<and> GetWindowElementTimestamp w e = Some sent"
proof -
  have "e < length (Subwindows w) * 64" using assms by (auto simp: window_sized_def)
  then have i: "e div 64 < length (Subwindows w)" by (rule less_mult_imp_div_less)
  then have "length (Originals (Subwindows w ! (e div 64))) = 64" "length (LastSendMsec (Subwindows w ! (e div 64))) = 64"
    using assms(1) by (simp_all add: window_sized_def subs_ok_def)
  then show ?thesis using i by (simp add: GetWindowElement_def GetWindowElementTimestamp_def sub_64)
qed

lemma scan_acked_ok: "window_sized w \<Longrightarrow> \<exists>r. scan_acked w now firstLoss element longest = Some r"
proof (induction "firstLoss - element" arbitrary: element longest rule: less_induct)
  case less
  show ?case
  proof (cases "element < firstLoss \<and> element < Count w")
    case True
    then obtain sent where sent: "GetWindowElementTimestamp w element = Some sent" using window_slot [OF less.prems] by blast
    have "\<exists>r. scan_acked w now firstLoss (element + 1) l = Some r" for l by (rule less.hyps) (use True less.prems in auto)
    then show ?thesis using True sent by (subst scan_acked.simps) (simp add: ack_delay_def Let_def)
  next
    case False
    then show ?thesis by (subst scan_acked.simps) auto
  qed
qed

lemma scan_ranges_ok:
  assumes "window_sized w"
  shows "off + remaining + 8 \<le> length d \<Longrightarrow> \<exists>r. scan_ranges w now d off remaining firstLoss element longest = Some r"
proof (induction remaining arbitrary: off firstLoss element longest rule: less_induct)
  case (less remaining)
  show ?case
  proof (cases "remaining > 0")
    case True
    have "off + (remaining + kPaddingBytes) \<le> length d" using less.prems by (simp add: kPaddingBytes_def)
    then obtain r where r: "DeserializeHeader_NACKLossRange d off (remaining + kPaddingBytes) = Some r"
      using DeserializeHeader_NACKLossRange_safe by blast
    show ?thesis
    proof (cases r)
      case ParseError
      then show ?thesis using r True by (subst scan_ranges.simps) auto
    next
      case (Parsed n v)
      obtain rs m where v: "v = (rs, m)" by (cases v)
      have n: "0 < n" using NACKLossRange_bytes r Parsed by blast
      let ?el = "if element + 1 < firstLoss then firstLoss - 1 else element"
      obtain ok el' l' where sc: "scan_acked w now ((firstLoss + unat rs) mod 2 ^ 32) ?el longest = Some (ok, el', l')"
        using scan_acked_ok [OF assms] by (metis prod_cases3)
      have ih: "\<exists>r. scan_ranges w now d (off + n) (remaining - n) fl el l = Some r" if "n \<le> remaining" for fl el l
        by (rule less.IH) (use that n less.prems in auto)
      have "scan_ranges w now d off remaining firstLoss element longest = (if n > remaining then Some (False, element, longest)
          else if \<not> ok then Some (False, el', l')
          else scan_ranges w now d (off + n) (remaining - n) (((firstLoss + unat rs) mod 2 ^ 32 + unat m + 2) mod 2 ^ 32) el' l')"
        unfolding scan_ranges.simps [of w now d off remaining] using r True Parsed v sc by simp
      then show ?thesis using ih by (cases "n > remaining") auto
    qed
  next
    case False
    then show ?thesis by (subst scan_ranges.simps) auto
  qed
qed

lemma UpdateRTO_ok:
  assumes "window_sized w" and "ack_ok a"
  shows "\<exists>a'. UpdateRTO now w a = Some a' \<and> ack_moved a a' \<and> NextColumnExpected a' = NextColumnExpected a"
proof (cases "ColumnToElement w (NextColumnExpected a) \<ge> Count w")
  case True
  then show ?thesis by (simp add: UpdateRTO_def ack_moved_def)
next
  case False
  let ?fl = "ColumnToElement w (NextColumnExpected a)" and ?el = "let element = ColumnToElement w (NextRTOColumn a) in if element \<ge> Count w then FirstUnremovedElement w else element"
  obtain ok el l where s: "scan_acked w (ucast now) ?fl ?el 0 = Some (ok, el, l)" using scan_acked_ok [OF assms(1)] by (metis prod_cases3)
  have "\<exists>r. (case ackData a of None \<Rightarrow> if DataBytes a > 0 then None else Some (True, el, l)
      | Some d \<Rightarrow> scan_ranges w (ucast now) d 0 (DataBytes a) ?fl el l) = Some r"
  proof (cases "DataBytes a > 0")
    case True
    then obtain d where "ackData a = Some d" "0 + DataBytes a + 8 \<le> length d" using assms(2) by (auto simp: ack_ok_def)
    then show ?thesis using scan_ranges_ok [OF assms(1), of 0 "DataBytes a" d] by simp
  next
    case False
    then show ?thesis by (cases "ackData a") (auto simp: scan_ranges.simps)
  qed
  then obtain ok' el' l' where r: "(case ackData a of None \<Rightarrow> if DataBytes a > 0 then None else Some (True, el, l)
      | Some d \<Rightarrow> scan_ranges w (ucast now) d 0 (DataBytes a) ?fl el l) = Some (ok', el', l')" by (metis prod_cases3)
  have run: "UpdateRTO now w a = Some (if \<not> ok' then a else
      let a = a\<lparr>NextRTOColumn := ElementToColumn w el'\<rparr> in if l' \<le> 0 then a else apply_rtt l' now a)"
    using False s r unfolding UpdateRTO_def Let_def by auto
  show ?thesis unfolding run by (simp add: ack_moved_def apply_rtt_def Let_def)
qed


section \<open>Acknowledgements\<close>

definition encoder_ok :: "Encoder \<Rightarrow> bytes list \<Rightarrow> bool" where
  "encoder_ok e L \<longleftrightarrow> encoder_inv e L \<and> ack_ok (Ack e)"

lemma encoder_okI: "window_inv (Window e) L base lo \<Longrightarrow> NextRow e < 255 \<Longrightarrow> NextCauchyRow e < 192 \<Longrightarrow> ack_ok (Ack e) \<Longrightarrow> encoder_ok e L"
  unfolding encoder_ok_def encoder_inv_def by blast

lemma DeserializeHeader_PacketNum_safe:
  assumes "off + space \<le> length b"
  shows "DeserializeHeader_PacketNum b off space \<noteq> None"
  using assms tag_3 [of "b ! off"] by (auto simp: DeserializeHeader_PacketNum_def Let_def rd8_def)

lemma store_ranges_ok:
  assumes "mem_ok mem" and "DataBytes a = length ranges"
  shows "\<exists>ok r a'. store_ranges mem ranges (w, a) = Some (ok, w\<lparr>Requests := r\<rparr>, a') \<and> ack_ok a'"
proof (cases "length ranges > 0")
  case True
  obtain g where g: "mem (Requests w) = Some g" using mem_ok_block [OF assms(1)] by blast
  let ?d = "ranges @ replicate 8 0"
  have cp: "memcpy_at (realloc_uninitialized g (length ranges + kPaddingBytes)) 0 ranges = Some (ranges @ map g [length ranges..<length ranges + 8])"
    by (simp add: memcpy_at_def realloc_uninitialized_def kPaddingBytes_def overwrite_def drop_map del: upt_Suc)
  have ms: "memset0 (ranges @ map g [length ranges..<length ranges + 8]) (length ranges) kPaddingBytes = Some ?d"
    by (simp add: memset0_def kPaddingBytes_def overwrite_def del: upt_Suc)
  have "ack_ok (a\<lparr>ackData := Some ?d\<rparr>)" using assms(2) by (simp add: ack_ok_def)
  then obtain ok a' where "DecodeNextRange (a\<lparr>ackData := Some ?d\<rparr>) = Some (ok, a')" "ack_ok a'"
    using DecodeNextRange_ok ack_moved_ok by blast
  then show ?thesis using True g cp ms by (auto simp: store_ranges_def next_block_def)
next
  case False
  then show ?thesis using assms(2) by (auto simp: store_ranges_def ack_ok_def intro!: exI [of _ "Requests w"])
qed

lemma OnAcknowledgementData_ok:
  assumes mem: "mem_ok mem" and inv: "window_inv w L base lo" and a: "ack_ok a"
  shows "\<exists>ok w' a'. OnAcknowledgementData mem now data (w, a) = Some (ok, w', a') \<and> window_inv w' L base lo \<and> ack_ok a'"
proof -
  obtain r where r: "DeserializeHeader_PacketNum data 0 (length data) = Some r" using DeserializeHeader_PacketNum_safe [of 0 "length data" data] by auto
  show ?thesis
  proof (cases r)
    case ParseError
    then show ?thesis using r inv a by (auto simp: OnAcknowledgementData_def)
  next
    case (Parsed n c)
    let ?ranges = "drop n data"
    let ?a = "a\<lparr>NextColumnExpected := c, Offset := 0, LossColumn := c, LossCount := 0, DataBytes := length ?ranges\<rparr>"
    obtain ok q a1 where st: "store_ranges mem ?ranges (w, ?a) = Some (ok, w\<lparr>Requests := q\<rparr>, a1)" "ack_ok a1"
      using store_ranges_ok [OF mem, of ?a ?ranges w] by auto
    have size: "window_sized (w\<lparr>Requests := q\<rparr>)" using inv by (simp add: window_inv_def window_sized_def subs_ok_def lanes_sized_def)
    obtain a2 where a2: "UpdateRTO now (w\<lparr>Requests := q\<rparr>) a1 = Some a2" "ack_ok a2" using UpdateRTO_ok [OF size st(2)] ack_moved_ok st(2) by blast
    have "OnAcknowledgementData mem now data (w, a) = Some (True, w, a) \<or> OnAcknowledgementData mem now data (w, a) = Some (False, w\<lparr>Requests := q\<rparr>, a1)
        \<or> OnAcknowledgementData mem now data (w, a) = Some (True, RemoveBefore (NextColumnExpected a2) (w\<lparr>Requests := q\<rparr>), a2)"
      using r Parsed a2(1) unfolding OnAcknowledgementData_def prod.case Let_def by (cases ok) (simp_all add: st(1) [unfolded length_drop])
    then show ?thesis using inv a st(2) a2(2) RemoveBefore_ok [of "w\<lparr>Requests := q\<rparr>" L base lo] by (elim disjE) auto
  qed
qed

lemma Acknowledge_ok:
  assumes mem: "mem_ok mem" and ok: "encoder_ok e L"
  shows "\<exists>r n e'. Encoder_Acknowledge mem now data e = Some (r, n, e') \<and> encoder_ok e' L \<and> r \<noteq> Siamese_Disabled"
proof -
  obtain base lo where inv: "window_inv (Window e) L base lo" and a: "ack_ok (Ack e)" and rows: "NextRow e < 255" "NextCauchyRow e < 192"
    using ok by (auto simp: encoder_ok_def encoder_inv_def)
  obtain b w' a' where o: "OnAcknowledgementData mem now data (Window e, Ack e) = Some (b, w', a')" "window_inv w' L base lo" "ack_ok a'"
    using OnAcknowledgementData_ok [OF mem inv a] by blast
  have dis: "\<not> EmergencyDisabled (Window e)" using inv by (simp add: window_inv_def)
  show ?thesis using o dis rows by (cases b) (auto simp: Encoder_Acknowledge_def intro!: encoder_okI [of _ L base lo])
qed


section \<open>Retransmissions\<close>

text \<open>The packet that is sent again is one that was added, with its number.\<close>

definition packet_of :: "bytes list \<Rightarrow> SiameseOriginalPacket \<Rightarrow> bool" where
  "packet_of L q \<longleftrightarrow> (\<exists>i<length L. PacketNum q = col i \<and> L ! i = packet_bytes (PacketData q))"

lemma LoadOriginal_slot:
  assumes "slot_ok L orig"
  shows "fst (LoadOriginal orig) = 0 \<or> packet_of L (snd (LoadOriginal orig))"
proof (cases "orig = empty_original")
  case True
  then show ?thesis by (simp add: LoadOriginal_def empty_original_def null_buffer_def)
next
  case False
  then obtain i where i: "i < length L" "orig_ok orig (L ! i) (col i)" using assms by (auto simp: slot_ok_def)
  then obtain data x where d: "L ! i = packet_bytes data" "length data \<le> 0x1fffffff" "HeaderBytes orig = length (L ! i) - length data"
    "Data (Buffer orig) = Some x" "length (L ! i) \<le> length x" "take (length (L ! i)) x = L ! i" "Bytes (Buffer orig) = length (L ! i)" "Column orig = col i"
    by (auto simp: orig_ok_def headed_def)
  have h: "HeaderBytes orig = length (packet_length_wire (of_nat (length data)))" "length (L ! i) = HeaderBytes orig + length data" using d(1,3) by (simp_all add: packet_bytes_def)
  have len: "(Bytes (Buffer orig) + 2 ^ 32 - HeaderBytes orig) mod 2 ^ 32 = length data"
    using wrap_diff [of "HeaderBytes orig" "Bytes (Buffer orig)"] d(2,7) h(2) by simp
  have "slice x (HeaderBytes orig) (length data) = drop (HeaderBytes orig) (take (HeaderBytes orig + length data) x)"
    by (simp add: slice_def take_drop add.commute)
  also have "\<dots> = drop (HeaderBytes orig) (L ! i)" using d(6) h(2) by simp
  also have "\<dots> = data" using d(1) h(1) by (simp add: packet_bytes_def)
  finally show ?thesis using i(1) d(1,4,8) len by (auto simp: LoadOriginal_def packet_of_def Let_def)
qed

lemma PutWindowElementTimestamp_inv:
  assumes inv: "window_inv w L base lo" and e: "e < Count w"
  shows "\<exists>w'. PutWindowElementTimestamp e t w = Some w' \<and> window_inv w' L base lo"
proof -
  have size: "subs_ok w" "e < 64 * length (Subwindows w)" and pk: "packets_inv w L base lo" using inv e by (auto simp: window_inv_def window_sized_def)
  obtain ss where ss: "PutWindowElementTimestamp e t w = Some (w\<lparr>Subwindows := ss\<rparr>)" "length ss = length (Subwindows w)" "subs_ok (w\<lparr>Subwindows := ss\<rparr>)"
    "\<And>e'. GetWindowElement (w\<lparr>Subwindows := ss\<rparr>) e' = GetWindowElement w e'"
    using PutWindowElementTimestamp_ok [OF size, of t] by blast
  have "slots_ok (Subwindows (w\<lparr>Subwindows := ss\<rparr>)) L"
    by (rule slots_okI [OF ss(3)]) (use inv slots_ok_get ss(4) in \<open>auto simp: window_inv_def\<close>)
  moreover have "elems_ok (w\<lparr>Subwindows := ss\<rparr>) L base lo (Count w)" using pk by (simp add: packets_inv_def elems_ok_def ss(4))
  ultimately have "window_inv (w\<lparr>Subwindows := ss\<rparr>) L base lo"
    using inv ss(2,3) by (auto simp: window_inv_def window_sized_def subs_ok_def lanes_sized_def packets_inv_def sums_inv_def lane_ok_def)
  then show ?thesis using ss(1) by blast
qed

text \<open>What a call of \<open>Retransmit\<close> may give.\<close>

definition retransmitted :: "bytes list \<Rightarrow> (SiameseResult \<times> SiameseOriginalPacket option \<times> Encoder) option \<Rightarrow> bool" where
  "retransmitted L out \<longleftrightarrow> (\<exists>r q e'. out = Some (r, q, e')
     \<and> (r = Siamese_Success \<and> encoder_ok e' L \<and> (\<exists>p. q = Some p \<and> packet_of L p) \<or> r = Siamese_NeedMoreData \<and> encoder_ok e' L \<and> q = None \<or> r = Siamese_Disabled))"

lemma resend_ok:
  assumes ok: "encoder_ok e L" and el: "element < Count (Window e)" "GetWindowElement (Window e) element = Some orig"
  shows "retransmitted L (resend now element orig e)"
proof -
  obtain base lo where inv: "window_inv (Window e) L base lo" and a: "ack_ok (Ack e)" and rows: "NextRow e < 255" "NextCauchyRow e < 192"
    using ok by (auto simp: encoder_ok_def encoder_inv_def)
  obtain w' where w': "PutWindowElementTimestamp element now (Window e) = Some w'" "window_inv w' L base lo" using PutWindowElementTimestamp_inv [OF inv el(1)] by blast
  have "slot_ok L orig" using inv el(2) slots_ok_get by (auto simp: window_inv_def)
  then show ?thesis using LoadOriginal_slot [of L orig] w' a rows
    by (cases "LoadOriginal orig") (auto simp: retransmitted_def resend_def AttemptRetransmit_def intro!: encoder_okI [of _ L base lo])
qed

definition search_ok :: "EncoderPacketWindow \<Rightarrow> search_result \<Rightarrow> bool" where
  "search_ok w r \<longleftrightarrow> (case r of Found e orig \<Rightarrow> e < Count w \<and> GetWindowElement w e = Some orig | NotFound _ _ \<Rightarrow> True)"

lemma search_nacks_ok:
  assumes size: "window_sized w"
  shows "ack_ok a \<Longrightarrow> \<exists>r a'. search_nacks now w oldest el a = Some (r, a') \<and> ack_ok a' \<and> search_ok w r"
proof (induction a arbitrary: oldest el rule: wf_induct_rule [OF wf_inv_image [OF wf_lex_prod [OF wf_less_than wf_less_than], of loss_measure]])
  case (1 a)
  obtain c a' where g: "GetNextLossColumn a = Some (c, a')" "ack_moved a a'" "c \<noteq> None \<longrightarrow> (loss_measure a', loss_measure a) \<in> less_than <*lex*> less_than"
    using GetNextLossColumn_ok [OF "1.prems"] by blast
  have a': "ack_ok a'" using g(2) "1.prems" ack_moved_ok by blast
  show ?case
  proof (cases c)
    case None
    then show ?thesis using g(1) a' by (subst search_nacks.simps) (simp add: search_ok_def)
  next
    case (Some column)
    let ?e = "ColumnToElement w column"
    show ?thesis
    proof (cases "?e < Count w")
      case False
      then show ?thesis using g(1) a' Some by (subst search_nacks.simps) (simp add: search_ok_def)
    next
      case True
      obtain orig sent where o: "GetWindowElement w ?e = Some orig" "GetWindowElementTimestamp w ?e = Some sent" using window_slot [OF size True] by blast
      have "(a', a) \<in> inv_image (less_than <*lex*> less_than) loss_measure" using g(3) Some by simp
      then have "\<exists>r a''. search_nacks now w (older oldest (Column orig) sent) ?e a' = Some (r, a'') \<and> ack_ok a'' \<and> search_ok w r" using "1.IH" a' by blast
      then show ?thesis using g(1) a' Some True o by (subst search_nacks.simps) (auto simp: search_ok_def Let_def)
    qed
  qed
qed

lemma search_rest_ok:
  assumes size: "window_sized w"
  shows "\<exists>r. search_rest now rto w oldest el = Some r \<and> search_ok w r"
proof (induction "Count w - el" arbitrary: oldest el rule: less_induct)
  case less
  show ?case
  proof (cases "el < Count w")
    case True
    obtain orig sent where o: "GetWindowElement w el = Some orig" "GetWindowElementTimestamp w el = Some sent" using window_slot [OF size True] by blast
    have "\<exists>r. search_rest now rto w (older oldest (Column orig) sent) (el + 1) = Some r \<and> search_ok w r" by (rule less) (use True in simp)
    then show ?thesis using True o by (subst search_rest.simps) (auto simp: search_ok_def)
  next
    case False
    then show ?thesis by (subst search_rest.simps) (simp add: search_ok_def)
  qed
qed


lemma encoder_ok_Ack: "encoder_ok e L \<Longrightarrow> ack_ok a \<Longrightarrow> encoder_ok (e\<lparr>Ack := a\<rparr>) L"
  by (simp add: encoder_ok_def encoder_inv_def)

lemma retransmit_search_ok:
  assumes ok: "encoder_ok e L" and el: "firstElement < Count (Window e)"
  shows "retransmitted L (retransmit_search now firstElement e)"
proof -
  have size: "window_sized (Window e)" and a: "ack_ok (Ack e)" using ok by (auto simp: encoder_ok_def encoder_inv_def window_inv_def)
  obtain orig sent where o: "GetWindowElement (Window e) firstElement = Some orig" "GetWindowElementTimestamp (Window e) firstElement = Some sent"
    using window_slot [OF size el] by blast
  have "\<exists>r a'. (if HasNegativeAcknowledgements (Ack e) then do {
            a \<leftarrow> RestartLossIterator (Ack e);
            search_nacks now (Window e) (Column orig, sent) firstElement a }
          else Some (NotFound (Column orig, sent) firstElement, Ack e)) = Some (r, a') \<and> ack_ok a' \<and> search_ok (Window e) r"
  proof (cases "HasNegativeAcknowledgements (Ack e)")
    case True
    have "ack_ok ((Ack e)\<lparr>Offset := 0, LossColumn := NextColumnExpected (Ack e), LossCount := 0\<rparr>)" using a by (simp add: ack_ok_def)
    then obtain b a1 where "DecodeNextRange ((Ack e)\<lparr>Offset := 0, LossColumn := NextColumnExpected (Ack e), LossCount := 0\<rparr>) = Some (b, a1)" "ack_ok a1"
      using DecodeNextRange_ok ack_moved_ok by blast
    then show ?thesis using True search_nacks_ok [OF size] by (simp add: RestartLossIterator_def)
  qed (use a in \<open>simp add: search_ok_def\<close>)
  then obtain r a' where r: "(if HasNegativeAcknowledgements (Ack e) then do {
            a \<leftarrow> RestartLossIterator (Ack e);
            search_nacks now (Window e) (Column orig, sent) firstElement a }
          else Some (NotFound (Column orig, sent) firstElement, Ack e)) = Some (r, a')" "ack_ok a'" "search_ok (Window e) r" by blast
  have ok': "encoder_ok (e\<lparr>Ack := a'\<rparr>) L" using encoder_ok_Ack [OF ok r(2)] .
  let ?rest = "case r of Found element orig \<Rightarrow> resend now element orig (e\<lparr>Ack := a'\<rparr>)
       | NotFound oldest nackElement \<Rightarrow> do {
           r \<leftarrow> search_rest now (RetransmitTimeoutMsec a') (Window e) oldest (nackElement + 1);
           (case r of
              Found element orig \<Rightarrow> resend now element orig (e\<lparr>Ack := a'\<rparr>)
            | NotFound oldest _ \<Rightarrow> Some (Siamese_NeedMoreData, None, e\<lparr>Ack := a'\<lparr>FoundOldest := True, OldestColumn := fst oldest\<rparr>\<rparr>)) }"
  have run: "retransmit_search now firstElement e = (if expired now sent (RetransmitTimeoutMsec (Ack e)) then resend now firstElement orig e else ?rest)"
    unfolding retransmit_search_def o Let_def Option.bind.bind_lunit r(1) prod.case by (cases r) simp_all
  have "retransmitted L ?rest"
  proof (cases r)
    case (Found element orig')
    then show ?thesis using r(3) resend_ok [OF ok'] by (simp add: search_ok_def)
  next
    case (NotFound oldest n)
    obtain r' where r': "search_rest now (RetransmitTimeoutMsec a') (Window e) oldest (n + 1) = Some r'" "search_ok (Window e) r'" using search_rest_ok [OF size] by blast
    have ack: "ack_ok (a'\<lparr>FoundOldest := True, OldestColumn := c\<rparr>)" for c using r(2) by (simp add: ack_ok_def)
    show ?thesis
    proof (cases r')
      case (Found element orig')
      then show ?thesis using NotFound r' resend_ok [OF ok'] by (simp add: search_ok_def)
    next
      case (NotFound oldest' n')
      then show ?thesis using \<open>r = NotFound oldest n\<close> r'(1) encoder_ok_Ack [OF ok ack] by (simp add: retransmitted_def)
    qed
  qed
  then show ?thesis unfolding run using resend_ok [OF ok el o(1)] by simp
qed

lemma Retransmit_ok:
  assumes ok: "encoder_ok e L"
  shows "retransmitted L (Retransmit now e)"
proof -
  have size: "window_sized (Window e)" and a: "ack_ok (Ack e)" and dis: "\<not> EmergencyDisabled (Window e)" using ok by (auto simp: encoder_ok_def encoder_inv_def window_inv_def)
  have a': "encoder_ok (e\<lparr>Ack := (Ack e)\<lparr>FoundOldest := False\<rparr>\<rparr>) L" by (rule encoder_ok_Ack [OF ok]) (use a in \<open>simp add: ack_ok_def\<close>)
  have none: "retransmitted L (Some (Siamese_NeedMoreData, None, e'))" if "encoder_ok e' L" for e' using that by (simp add: retransmitted_def)
  have old: "retransmitted L (do {
      orig \<leftarrow> GetWindowElement (Window e) element;
      sent \<leftarrow> GetWindowElementTimestamp (Window e) element;
      (if now' - sent < RetransmitTimeoutMsec (Ack e) then Some (Siamese_NeedMoreData, None, e)
       else resend now' element orig (e\<lparr>Ack := (Ack e)\<lparr>FoundOldest := False\<rparr>\<rparr>)) })" if el: "element < Count (Window e)" for element now'
  proof -
    obtain orig sent where "GetWindowElement (Window e) element = Some orig" "GetWindowElementTimestamp (Window e) element = Some sent" using window_slot [OF size el] by blast
    then show ?thesis using none [OF ok] resend_ok [OF a', of element orig now'] el by simp
  qed
  show ?thesis unfolding Retransmit_def Let_def
    using dis none [OF ok] none [OF a'] old retransmit_search_ok [OF ok] retransmit_search_ok [OF a'] by simp
qed


section \<open>Reading packets\<close>

lemma Get_ok:
  assumes ok: "encoder_ok e L"
  shows "retransmitted L (Encoder_Get packetNum e)"
proof -
  have size: "window_sized (Window e)" and dis: "\<not> EmergencyDisabled (Window e)" and slots: "slots_ok (Subwindows (Window e)) L"
    using ok by (auto simp: encoder_ok_def encoder_inv_def window_inv_def)
  show ?thesis
  proof (cases "ColumnToElement (Window e) packetNum < Count (Window e)")
    case True
    obtain orig where o: "GetWindowElement (Window e) (ColumnToElement (Window e) packetNum) = Some orig" using window_slot [OF size True] by blast
    have "slot_ok L orig" using slots_ok_get [OF slots o] .
    then show ?thesis using LoadOriginal_slot [of L orig] o True dis ok
      by (cases "LoadOriginal orig") (auto simp: Encoder_Get_def Let_def InvalidElement_def retransmitted_def)
  next
    case False
    then show ?thesis using dis ok by (simp add: Encoder_Get_def Let_def InvalidElement_def retransmitted_def)
  qed
qed

section \<open>The life of an encoder\<close>

text \<open>The calls of the interface in \<open>siamese.cpp\<close> from the creation of an encoder on, and the packets that were added so far.\<close>

inductive encoder_reach :: "memory \<Rightarrow> gf256_state \<Rightarrow> Encoder \<Rightarrow> bytes list \<Rightarrow> bool" for mem gf where
  init: "encoder_reach mem gf Encoder_init []"
| add: "encoder_reach mem gf e L \<Longrightarrow> siamese_encoder_add mem now (Some e) (Some data) = Some (Siamese_Success, column, Some e')
    \<Longrightarrow> encoder_reach mem gf e' (L @ [packet_bytes data])"
| remove: "encoder_reach mem gf e L \<Longrightarrow> siamese_encoder_remove_before (Some e) column = (r, Some e') \<Longrightarrow> encoder_reach mem gf e' L"
| ack: "encoder_reach mem gf e L \<Longrightarrow> siamese_encoder_ack mem now (Some e) (Some data) = Some (r, n, Some e') \<Longrightarrow> encoder_reach mem gf e' L"
| retransmit: "encoder_reach mem gf e L \<Longrightarrow> siamese_encoder_retransmit now (Some e) = Some (r, q, Some e') \<Longrightarrow> r \<noteq> Siamese_Disabled \<Longrightarrow> encoder_reach mem gf e' L"
| get: "encoder_reach mem gf e L \<Longrightarrow> siamese_encoder_get (Some e) (Some packetNum) = Some (r, q, Some e') \<Longrightarrow> r \<noteq> Siamese_Disabled \<Longrightarrow> encoder_reach mem gf e' L"
| stats: "encoder_reach mem gf e L \<Longrightarrow> siamese_encoder_stats memoryUsed (Some e) count = (r, out, Some e') \<Longrightarrow> encoder_reach mem gf e' L"
| encode: "encoder_reach mem gf e L \<Longrightarrow> siamese_encode mem gf (Some e) = Some (r, packet, Some e') \<Longrightarrow> encoder_reach mem gf e' L"

text \<open>What a successful call of the interface does.\<close>

lemmas siamese_encoder_defs = siamese_encoder_add_def siamese_encoder_remove_before_def siamese_encoder_ack_def siamese_encoder_retransmit_def
  siamese_encoder_get_def siamese_encoder_stats_def siamese_encode_def

lemma siamese_calls:
  "siamese_encoder_add mem now (Some e) (Some data) = Some (Siamese_Success, c, Some e') \<Longrightarrow> length data \<le> 0x1fffffff \<and> Encoder_Add mem now data e = Some (Siamese_Success, c, e')"
  "siamese_encoder_remove_before (Some e) column = (r, Some e') \<Longrightarrow> e' = e \<or> e' = e\<lparr>Window := RemoveBefore column (Window e)\<rparr>"
  "siamese_encoder_ack mem now (Some e) (Some data) = Some (r, n, Some e') \<Longrightarrow> e' = e \<or> Encoder_Acknowledge mem now data e = Some (r, n, e')"
  "siamese_encoder_retransmit now (Some e) = Some (r, q, Some e') \<Longrightarrow> Retransmit now e = Some (r, q, e')"
  "siamese_encoder_get (Some e) (Some packetNum) = Some (r, q, Some e') \<Longrightarrow> e' = e \<or> Encoder_Get packetNum e = Some (r, q, e')"
  "siamese_encoder_stats memoryUsed (Some e) count = (r, out, Some e') \<Longrightarrow> e' = e \<or> e' = snd (Encoder_GetStatistics memoryUsed count e)"
  "siamese_encode mem gf (Some e) = Some (r, packet, Some e') \<Longrightarrow> Encode mem gf e = Some (r, packet, e')"
  by (auto simp: siamese_encoder_defs SIAMESE_MAX_PACKET_BYTES_def split: if_splits prod.splits)

lemma Encoder_init_ok: "encoder_ok Encoder_init []"
proof -
  have "window_sized EncoderPacketWindow_init"
    by (simp add: window_sized_def EncoderPacketWindow_init_def ClearWindow_def subs_ok_def lanes_sized_def lanes_8 kColumnSumCount_def)
  then have "window_inv EncoderPacketWindow_init [] 0 0"
    by (simp add: window_inv_def slots_ok_def) (simp add: EncoderPacketWindow_init_def ClearWindow_def col_def)
  then show ?thesis by (intro encoder_okI [of _ _ 0 0]) (simp_all add: Encoder_init_def ack_ok_def EncoderAcknowledgementState_init_def)
qed

lemma packet_bytes_length: "length (packet_bytes data) \<le> length data + 4"
  using packet_length_wire_bounds(2) by (simp add: packet_bytes_def)

lemma Window_Add_full:
  assumes "window_inv w L base lo" and "\<not> Count w < 16000"
  shows "Window_Add mem now data w = Some (Siamese_MaxPacketsReached, 0, w)"
proof -
  have "Count w = 16000" using assms by (simp add: window_inv_def window_sized_def)
  then show ?thesis using assms by (simp add: Window_Add_def GetRemainingSlots_eq window_inv_def)
qed

lemma Add_ok:
  assumes mem: "mem_ok mem" and ok: "encoder_ok e L" and len: "length data \<le> 0x1fffffff"
  shows "\<exists>r c e'. Encoder_Add mem now data e = Some (r, c, e')
    \<and> (r = Siamese_Success \<and> c = col (length L) \<and> encoder_ok e' (L @ [packet_bytes data]) \<and> 0 < Count (Window e') \<or> r = Siamese_MaxPacketsReached \<and> e' = e \<and> Count (Window e) = 16000)"
proof -
  obtain base lo where inv: "window_inv (Window e) L base lo" and a: "ack_ok (Ack e)" and rows: "NextRow e < 255" "NextCauchyRow e < 192"
    using ok by (auto simp: encoder_ok_def encoder_inv_def)
  show ?thesis
  proof (cases "Count (Window e) < 16000")
    case True
    obtain w' base' lo' where w': "Window_Add mem now data (Window e) = Some (Siamese_Success, col (length L), w')" "window_inv w' (L @ [packet_bytes data]) base' lo'" "0 < Count w'"
      using Window_Add_ok [OF mem inv len True] by blast
    have "encoder_ok (e\<lparr>Window := w'\<rparr>) (L @ [packet_bytes data])" by (rule encoder_okI [of _ _ base' lo']) (use w' a rows in simp_all)
    then show ?thesis using w' by (simp add: Encoder_Add_def)
  next
    case False
    then show ?thesis using Window_Add_full [OF inv False] inv by (simp add: Encoder_Add_def window_inv_def window_sized_def)
  qed
qed


text \<open>Recovery packets leave the acknowledgement state alone.\<close>

lemma Generate_Ack:
  "GenerateSinglePacket mem e = Some (r, packet, e') \<Longrightarrow> Ack e' = Ack e"
  "GenerateCauchyPacket mem gf e = Some (r, packet, e') \<Longrightarrow> Ack e' = Ack e"
  "GenerateSiamesePacket mem gf c e = Some (r, packet, e') \<Longrightarrow> Ack e' = Ack e"
  by (auto simp: GenerateSinglePacket_def GenerateCauchyPacket_def GenerateSiamesePacket_def recovery_done_def Let_def
      split: Option.bind_splits if_splits prod.splits)

lemma Encode_Ack: "Encode mem gf e = Some (r, packet, e') \<Longrightarrow> Ack e' = Ack e"
  by (auto simp: Encode_def Let_def dest!: Generate_Ack split: Option.bind_splits if_splits)

lemma encoder_reach_ok:
  assumes gf: "gf256_ready gf" and mem: "mem_ok mem"
  shows "encoder_reach mem gf e L \<Longrightarrow> length L < 2 ^ 31 \<Longrightarrow> encoder_ok e L \<and> maxlen L + 31 < 2 ^ 32"
proof (induction rule: encoder_reach.induct)
  case init
  then show ?case using Encoder_init_ok by (simp add: maxlen_def)
next
  case (add e L now data column e')
  note c = siamese_calls(1) [OF add.hyps(2)]
  have ih: "encoder_ok e L" "maxlen L + 31 < 2 ^ 32" using add.IH add.prems by simp_all
  have "encoder_ok e' (L @ [packet_bytes data])" using Add_ok [OF mem ih(1), of data now] c by auto
  then show ?case using ih(2) packet_bytes_length [of data] c by (simp add: maxlen_append)
next
  case (remove e L column r e')
  then obtain base lo where w: "window_inv (Window e) L base lo" and ok: "encoder_ok e L" "maxlen L + 31 < 2 ^ 32" by (auto simp: encoder_ok_def encoder_inv_def)
  have "encoder_ok (e\<lparr>Window := RemoveBefore column (Window e)\<rparr>) L"
    by (rule encoder_okI [of _ _ base lo]) (use ok(1) RemoveBefore_ok [OF w] in \<open>auto simp: encoder_ok_def encoder_inv_def\<close>)
  then show ?case using ok siamese_calls(2) [OF remove.hyps(2)] by auto
next
  case (ack e L now data r n e')
  then show ?case using Acknowledge_ok [OF mem, of e L now data] siamese_calls(3) [OF ack.hyps(2)] by auto
next
  case (retransmit e L now r q e')
  then show ?case using Retransmit_ok [of e L now] siamese_calls(4) [OF retransmit.hyps(2)] by (auto simp: retransmitted_def)
next
  case (get e L packetNum r q e')
  then show ?case using Get_ok [of e L packetNum] siamese_calls(5) [OF get.hyps(2)] by (auto simp: retransmitted_def)
next
  case (stats e L memoryUsed count r out e')
  have st: "window_inv (w\<lparr>Stats := st\<rparr>) L base lo = window_inv w L base lo" for w st base lo
    by (simp add: window_inv_def window_sized_def subs_ok_def lanes_sized_def packets_inv_def elems_ok_def sums_inv_def lane_ok_def)
  have "encoder_ok (e\<lparr>Window := (Window e)\<lparr>Stats := st\<rparr>\<rparr>) L" if "encoder_ok e L" for st
  proof -
    from that obtain base lo where "window_inv (Window e) L base lo" "NextRow e < 255" "NextCauchyRow e < 192" "ack_ok (Ack e)" by (auto simp: encoder_ok_def encoder_inv_def)
    then show ?thesis by (intro encoder_okI [of _ _ base lo]) (simp_all add: st)
  qed
  then show ?case using stats siamese_calls(6) [OF stats.hyps(2)] by (auto simp: Encoder_GetStatistics_def Let_def)
next
  case (encode e L r packet e')
  note c = siamese_calls(7) [OF encode.hyps(2)]
  have ok: "encoder_ok e L" "maxlen L + 31 < 2 ^ 32" using encode by simp_all
  have "encoder_inv e' L"
  proof (cases "0 < Count (Window e)")
    case True
    then show ?thesis using Encode_ok [OF gf mem _ True encode.prems ok(2)] ok(1) c by (auto simp: encoder_ok_def)
  next
    case False
    then have "e' = e" using c by (simp add: Encode_def split: if_splits)
    then show ?thesis using ok(1) by (simp add: encoder_ok_def)
  qed
  then show ?case using ok Encode_Ack [OF c] by (simp add: encoder_ok_def)
qed

section \<open>Properties\<close>

text \<open>Property C11: in every state that the calls of the interface can reach, \<open>Encode\<close> gives a recovery packet whose footer is read back, and
  whose bytes are exactly the linear combination of the packets added so far that the metadata in the footer describe; the
  packets that were not acknowledged are covered in full.\<close>

theorem recovery_packets_match_metadata:
  assumes "gf256_ready gf" and "mem_ok mem" and "encoder_reach mem gf e L" and "0 < Count (Window e)" and "length L < 2 ^ 31"
  shows "\<exists>packet m n S e'. Encode mem gf e = Some (Siamese_Success, packet, e')
    \<and> DeserializeFooter_RecoveryMetadata packet 0 (length packet) = Some (Parsed n m) \<and> n \<le> length packet
    \<and> ColumnStart m = col S \<and> S + unat (SumCount m) = length L \<and> unat (LDPCCount m) = unacknowledged e
    \<and> (\<forall>k<length packet - n. packet ! k = recovery_byte L S (length L) (unacknowledged e) (unat (Row m)) k)
    \<and> (\<forall>i. length L - unacknowledged e \<le> i \<and> i < length L \<longrightarrow> length (L ! i) \<le> length packet - n)"
proof -
  have ok: "encoder_inv e L" "maxlen L + 31 < 2 ^ 32" using encoder_reach_ok [OF assms(1,2,3,5)] by (simp_all add: encoder_ok_def)
  obtain packet m e' where e: "Encode mem gf e = Some (Siamese_Success, packet, e')" "recovery_ok L packet m" "unat (LDPCCount m) = unacknowledged e"
    using Encode_ok [OF assms(1,2) ok(1) assms(4,5) ok(2)] by blast
  obtain S data where d: "packet = data @ recovery_metadata_wire m" "recovery_metadata_ok m" "ColumnStart m = col S" "S + unat (SumCount m) = length L"
    "\<forall>k<length data. data ! k = recovery_byte L S (length L) (unat (LDPCCount m)) (unat (Row m)) k"
    "\<forall>i. length L - unat (LDPCCount m) \<le> i \<and> i < length L \<longrightarrow> length (L ! i) \<le> length data"
    using e(2) unfolding recovery_ok_def by blast
  let ?n = "length (recovery_metadata_wire m)"
  have "DeserializeFooter_RecoveryMetadata packet 0 (length packet) = Some (Parsed ?n m)"
    using DeserializeFooter_RecoveryMetadata_wire [OF d(2), of "[]" data "[]"] d(1) by simp
  moreover have "length packet - ?n = length data" "?n \<le> length packet" using d(1) by simp_all
  moreover have "\<forall>k<length data. packet ! k = recovery_byte L S (length L) (unacknowledged e) (unat (Row m)) k"
    using d(1,5) e(3) by (simp add: nth_append)
  ultimately show ?thesis using e(1,3) d(3,4,6) by (intro exI [of _ packet] exI [of _ m] exI [of _ ?n] exI [of _ S] exI [of _ e']) simp
qed

lemma packets_added:
  assumes mem: "mem_ok mem"
  shows "list_all (\<lambda>data. 0 < length data \<and> length data \<le> 0x1fffffff) ds \<Longrightarrow> length ds < 16000
    \<Longrightarrow> \<exists>e. encoder_reach mem gf e (map packet_bytes ds) \<and> encoder_ok e (map packet_bytes ds) \<and> (ds \<noteq> [] \<longrightarrow> 0 < Count (Window e))"
proof (induction ds rule: rev_induct)
  case Nil
  then show ?case using encoder_reach.init Encoder_init_ok by auto
next
  case (snoc data ds)
  have len: "0 < length data" "length data \<le> 0x1fffffff" using snoc.prems by simp_all
  obtain e where e: "encoder_reach mem gf e (map packet_bytes ds)" "encoder_ok e (map packet_bytes ds)" using snoc by auto
  have "Count (Window e) \<le> length ds"
    using e(2) by (cases "0 < Count (Window e)") (auto simp: encoder_ok_def encoder_inv_def window_inv_def packets_inv_def)
  then obtain e' where "Encoder_Add mem 0 data e = Some (Siamese_Success, col (length ds), e')" "encoder_ok e' (map packet_bytes ds @ [packet_bytes data])" "0 < Count (Window e')"
    using Add_ok [OF mem e(2) len(2), of 0] snoc.prems(2) by auto
  moreover from this have "encoder_reach mem gf e' (map packet_bytes ds @ [packet_bytes data])"
    using encoder_reach.add [OF e(1)] len by (simp add: siamese_encoder_add_def SIAMESE_MAX_PACKET_BYTES_def)
  ultimately show ?case by auto
qed

lemma gf256_ready_exists: "\<exists>gf. gf256_ready gf"
proof -
  let ?st = "\<lparr> lib_ctx = GF256Ctx, Initialized = False, lib_buffers = m_SelfTestBuffers,
    lib_arch = \<lparr> TARGET_MOBILE = False, CpuHasAVX2 = False, CpuHasSSSE3 = False \<rparr> \<rparr>"
  have "gf256_fresh ?st" by (simp add: gf256_fresh_def)
  then show ?thesis using gf256_init_ready [of ?st 64 32 128 192 False "\<lambda>_. [0, 0x20, 0x200, 0]"] by auto
qed

theorem recovery_packets_match_metadata_witness:
  "\<exists>gf e. gf256_ready gf \<and> mem_ok (\<lambda>i. Some (\<lambda>j. 0xcc)) \<and> encoder_reach (\<lambda>i. Some (\<lambda>j. 0xcc)) gf e (map packet_bytes [[1], [2, 3], [4]]) \<and> 0 < Count (Window e)
    \<and> (\<exists>packet m n S e'. Encode (\<lambda>i. Some (\<lambda>j. 0xcc)) gf e = Some (Siamese_Success, packet, e')
      \<and> DeserializeFooter_RecoveryMetadata packet 0 (length packet) = Some (Parsed n m) \<and> S + unat (SumCount m) = 3)"
proof -
  obtain gf where gf: "gf256_ready gf" using gf256_ready_exists by blast
  let ?mem = "\<lambda>i :: nat. Some (\<lambda>j :: nat. 0xcc :: u8)"
  have mem: "mem_ok ?mem" by (simp add: mem_ok_def)
  obtain e where e: "encoder_reach ?mem gf e (map packet_bytes [[1], [2, 3], [4]])" "0 < Count (Window e)"
    using packets_added [OF mem, of "[[1], [2, 3], [4]]" gf] by auto
  have len: "length (map packet_bytes [[1], [2, 3], [4]]) < 2 ^ 31" by simp
  obtain packet m n S e' where r: "Encode ?mem gf e = Some (Siamese_Success, packet, e')" "DeserializeFooter_RecoveryMetadata packet 0 (length packet) = Some (Parsed n m)"
    "S + unat (SumCount m) = length (map packet_bytes [[1], [2, 3], [4]])"
    using recovery_packets_match_metadata [OF gf mem e len] by blast
  have "S + unat (SumCount m) = 3" using r(3) by simp
  then show ?thesis using gf mem e r(1,2) by blast
qed



end
