(* ===== verification/Siamese_Decoder.thy ===== *)
theory Siamese_Decoder
  imports Siamese_Encoder Custom_Bit_Set
begin

text \<open>
  The state of the FEC decoder of \<open>SiameseDecoder.h\<close> and \<open>.cpp\<close>: the window of original packets with its bookkeeping of
  received and lost elements, the list of recovery packets, the checked region, the running sums, and the removal
  of elements that are no longer needed.

  Pointers to subwindows are indices into the table of all subwindows, which are never freed; pointers to recovery
  packets are their numbers, and following one after the packet was freed is an error.  The doubly linked list of
  recovery packets is a list, \<open>Next\<close> is the successor in it.  Allocations are numbered as in the
  encoder, and \<open>None\<close> is an access outside of a buffer or through a dangling pointer.
\<close>

unbundle bit_operations_syntax

section \<open>Constants\<close>

definition kMaximumLossRecoveryCount :: nat where "kMaximumLossRecoveryCount = 255"
definition kDecoderRemoveThreshold :: nat where "kDecoderRemoveThreshold = 2 * kSubwindowSize"
definition kExtraRows :: nat where "kExtraRows = 4"
definition kMinExtraColumns :: nat where "kMinExtraColumns = 4"
definition SiameseDecoderStats_OriginalCount :: nat where "SiameseDecoderStats_OriginalCount = 0"
definition SiameseDecoderStats_OriginalBytes :: nat where "SiameseDecoderStats_OriginalBytes = 1"
definition SiameseDecoderStats_RecoveryCount :: nat where "SiameseDecoderStats_RecoveryCount = 2"
definition SiameseDecoderStats_RecoveryBytes :: nat where "SiameseDecoderStats_RecoveryBytes = 3"
definition SiameseDecoderStats_AckCount :: nat where "SiameseDecoderStats_AckCount = 4"
definition SiameseDecoderStats_AckBytes :: nat where "SiameseDecoderStats_AckBytes = 5"
definition SiameseDecoderStats_DupedOriginalCount :: nat where "SiameseDecoderStats_DupedOriginalCount = 6"
definition SiameseDecoderStats_SolveSuccessCount :: nat where "SiameseDecoderStats_SolveSuccessCount = 7"
definition SiameseDecoderStats_SolveFailCount :: nat where "SiameseDecoderStats_SolveFailCount = 8"
definition SiameseDecoderStats_DupedRecoveryCount :: nat where "SiameseDecoderStats_DupedRecoveryCount = 9"
definition SiameseDecoderStats_MemoryUsed :: nat where "SiameseDecoderStats_MemoryUsed = 10"
definition SiameseDecoderStats_Count :: nat where "SiameseDecoderStats_Count = 11"

text \<open>Subtraction of unsigned numbers.\<close>

definition minus32 :: "nat \<Rightarrow> nat \<Rightarrow> nat" where
  "minus32 a b = (a + 2 ^ 32 - b) mod 2 ^ 32"

section \<open>Data\<close>

record DecoderSum =
  sumElementStart :: nat
  sumElementEnd :: nat
  sumBuffer :: GrowingAlignedDataBuffer

record DecoderColumnLane =
  Sums :: "DecoderSum list"

record RecoveryPacket =
  rId :: nat
  rMetadata :: RecoveryMetadata
  rElementStart :: nat
  rElementEnd :: nat
  rLostCount :: nat
  rBuffer :: GrowingAlignedDataBuffer

record CheckedRegionState =
  cElementStart :: nat
  FirstRecovery :: "nat option"
  LastRecovery :: "nat option"
  NextCheckStart :: nat
  RecoveryCount :: nat
  LostCount :: nat
  SolveFailed :: bool

record RecoveryPacketList =
  Packets :: "RecoveryPacket list"
  RecoveryPacketCount :: nat
  LastRecoveryMetadata :: RecoveryMetadata
  LastRecoveryBytes :: nat

record DecoderSubwindow =
  dOriginals :: "OriginalPacket list"
  Got :: CustomBitSet
  GotCount :: nat

record DecoderPacketWindow =
  dCount :: nat
  dColumnStart :: u32
  NextExpectedElement :: nat
  dSubwindows :: "nat list"
  Blocks :: "DecoderSubwindow list"
  dLanes :: "DecoderColumnLane list"
  dSumColumnStart :: u32
  SumColumnCount :: u32
  RecoveredPackets :: "SiameseOriginalPacket list"
  HasRecoveredPackets :: bool
  RecoveredColumns :: "u32 list"
  dEmergencyDisabled :: bool
  dRequests :: nat

record RowInfo =
  Recovery :: nat
  UsedForSolution :: bool
  MatrixColumnCount :: nat

record ColumnInfo =
  colOriginal :: "nat \<times> nat"
  colColumn :: u32
  CX :: u8

record GrowingAlignedByteMatrix =
  mData :: "bytes option"
  mRows :: nat
  mColumns :: nat
  AllocatedRows :: nat
  AllocatedColumns :: nat

record RecoveryMatrixState =
  Rows :: "RowInfo list"
  Columns :: "ColumnInfo list"
  PreviousNextCheckStart :: nat
  Matrix :: GrowingAlignedByteMatrix
  Pivots :: "nat list"
  GEResumePivot :: nat

record Decoder =
  dStats :: "u64 list"
  CheckedRegion :: CheckedRegionState
  RecoveryPackets :: RecoveryPacketList
  dWindow :: DecoderPacketWindow
  RecoveryMatrix :: RecoveryMatrixState
  ProductSum :: GrowingAlignedDataBuffer
  LatestColumn :: u32
  PacketIds :: nat

definition dcount_stat :: "nat \<Rightarrow> nat \<Rightarrow> Decoder \<Rightarrow> Decoder" where
  "dcount_stat i n D = D\<lparr>dStats := (dStats D)[i := dStats D ! i + of_nat n]\<rparr>"

definition new_dsubwindow :: DecoderSubwindow where
  "new_dsubwindow = \<lparr> dOriginals = replicate kSubwindowSize empty_original, Got = replicate (bitset_words kSubwindowSize) 0, GotCount = 0 \<rparr>"

definition Subwindow_Reset :: "DecoderSubwindow \<Rightarrow> DecoderSubwindow option" where
  "Subwindow_Reset s = do {
     got \<leftarrow> bitset_ClearAll (Got s);
     os \<leftarrow> for_range 0 kSubwindowSize (\<lambda>i os. do {
        p \<leftarrow> tab_get os i;
        tab_set os i (p\<lparr>Column := 0, Buffer := (Buffer p)\<lparr>Bytes := 0\<rparr>\<rparr>) }) (dOriginals s);
     Some \<lparr> dOriginals = os, Got = got, GotCount = 0 \<rparr> }"

definition Decoder_init :: Decoder where
  "Decoder_init = \<lparr> dStats = replicate SiameseDecoderStats_Count 0,
     CheckedRegion = \<lparr> cElementStart = 0, FirstRecovery = None, LastRecovery = None, NextCheckStart = 0, RecoveryCount = 0, LostCount = 0, SolveFailed = False \<rparr>,
     RecoveryPackets = \<lparr> Packets = [], RecoveryPacketCount = 0, LastRecoveryMetadata = \<lparr> Row = 0, ColumnStart = 0, SumCount = 0, LDPCCount = 0 \<rparr>, LastRecoveryBytes = 0 \<rparr>,
     dWindow = \<lparr> dCount = 0, dColumnStart = 0, NextExpectedElement = 0, dSubwindows = [], Blocks = [],
       dLanes = replicate lanes \<lparr> Sums = replicate kColumnSumCount \<lparr> sumElementStart = 0, sumElementEnd = 0, sumBuffer = null_buffer \<rparr> \<rparr>,
       dSumColumnStart = 0, SumColumnCount = 0, RecoveredPackets = [], HasRecoveredPackets = False, RecoveredColumns = [],
       dEmergencyDisabled = False, dRequests = 0 \<rparr>,
     RecoveryMatrix = \<lparr> Rows = [], Columns = [], PreviousNextCheckStart = 0,
       Matrix = \<lparr> mData = None, mRows = 0, mColumns = 0, AllocatedRows = 0, AllocatedColumns = 0 \<rparr>, Pivots = [], GEResumePivot = 0 \<rparr>,
     ProductSum = null_buffer, LatestColumn = 0, PacketIds = 0 \<rparr>"

definition dnext_block :: "memory \<Rightarrow> DecoderPacketWindow \<Rightarrow> (nat \<Rightarrow> u8) option \<times> DecoderPacketWindow" where
  "dnext_block mem w = (mem (dRequests w), w\<lparr>dRequests := dRequests w + 1\<rparr>)"

definition Disable :: "Decoder \<Rightarrow> Decoder" where
  "Disable D = D\<lparr>dWindow := (dWindow D)\<lparr>dEmergencyDisabled := True\<rparr>\<rparr>"

section \<open>The byte matrix\<close>

definition Matrix_Initialize :: "(nat \<Rightarrow> u8) option \<Rightarrow> nat \<Rightarrow> nat \<Rightarrow> GrowingAlignedByteMatrix \<Rightarrow> bool \<times> GrowingAlignedByteMatrix" where
  "Matrix_Initialize block rows columns m =
     (let allocatedRows = rows + kExtraRows; allocatedColumns = NextAlignedOffset (columns + kMinExtraColumns);
          d = map_option (\<lambda>g. realloc_uninitialized g (allocatedRows * allocatedColumns)) block
      in (d \<noteq> None, \<lparr> mData = d, mRows = rows, mColumns = columns, AllocatedRows = allocatedRows, AllocatedColumns = allocatedColumns \<rparr>))"

definition copy_row :: "bytes \<Rightarrow> nat \<Rightarrow> nat \<Rightarrow> nat \<Rightarrow> nat \<Rightarrow> bytes \<Rightarrow> bytes option" where
  "copy_row old oldStride stride copyCount i d =
     (if i * oldStride + copyCount \<le> length old then memcpy_at d (i * stride) (slice old (i * oldStride) copyCount) else None)"

definition Matrix_Resize :: "(nat \<Rightarrow> u8) option \<Rightarrow> nat \<Rightarrow> nat \<Rightarrow> GrowingAlignedByteMatrix \<Rightarrow> (bool \<times> GrowingAlignedByteMatrix) option" where
  "Matrix_Resize block rows columns m =
     (if rows \<le> AllocatedRows m \<and> columns \<le> AllocatedColumns m then Some (True, m\<lparr>mRows := rows, mColumns := columns\<rparr>)
      else do {
        let allocatedRows = rows + kExtraRows;
        let allocatedColumns = NextAlignedOffset (columns + kMinExtraColumns);
        (case block of
           None \<Rightarrow> Some (False, if mData m = None then m else m\<lparr>mData := None, AllocatedRows := 0, AllocatedColumns := 0\<rparr>)
         | Some g \<Rightarrow> do {
             let d = realloc_uninitialized g (allocatedRows * allocatedColumns);
             let copyCount = (if mColumns m > columns then columns else mColumns m);
             d \<leftarrow> (case mData m of
                 None \<Rightarrow> Some d
               | Some old \<Rightarrow> if mColumns m > 0 then for_range 0 (mRows m) (copy_row old (AllocatedColumns m) allocatedColumns copyCount) d else Some d);
             Some (True, \<lparr> mData = Some d, mRows = rows, mColumns = columns, AllocatedRows = allocatedRows, AllocatedColumns = allocatedColumns \<rparr>) }) })"

definition Matrix_Get :: "nat \<Rightarrow> nat \<Rightarrow> GrowingAlignedByteMatrix \<Rightarrow> u8 option" where
  "Matrix_Get row column m = do { d \<leftarrow> mData m; tab_get d (row * AllocatedColumns m + column) }"

section \<open>The window\<close>

definition IsRunningSums :: "DecoderPacketWindow \<Rightarrow> bool" where
  "IsRunningSums w \<longleftrightarrow> SumColumnCount w > 0"

definition dColumnToElement :: "DecoderPacketWindow \<Rightarrow> u32 \<Rightarrow> nat" where
  "dColumnToElement w column = unat (SubtractColumns column (dColumnStart w))"

definition dInvalidElement :: "DecoderPacketWindow \<Rightarrow> nat \<Rightarrow> bool" where
  "dInvalidElement w element \<longleftrightarrow> element \<ge> dCount w"

definition dElementToColumn :: "DecoderPacketWindow \<Rightarrow> nat \<Rightarrow> u32" where
  "dElementToColumn w element = AddColumns (of_nat element) (dColumnStart w)"

definition get_subwindow :: "DecoderPacketWindow \<Rightarrow> nat \<Rightarrow> DecoderSubwindow option" where
  "get_subwindow w i = do { p \<leftarrow> tab_get (dSubwindows w) i; tab_get (Blocks w) p }"

definition put_subwindow :: "nat \<Rightarrow> DecoderSubwindow \<Rightarrow> DecoderPacketWindow \<Rightarrow> DecoderPacketWindow option" where
  "put_subwindow i s w = do { p \<leftarrow> tab_get (dSubwindows w) i; bs \<leftarrow> tab_set (Blocks w) p s; Some (w\<lparr>Blocks := bs\<rparr>) }"

definition dGetWindowElement :: "DecoderPacketWindow \<Rightarrow> nat \<Rightarrow> OriginalPacket option" where
  "dGetWindowElement w windowElement = do {
     s \<leftarrow> get_subwindow w (windowElement div kSubwindowSize);
     tab_get (dOriginals s) (windowElement mod kSubwindowSize) }"

definition dPutWindowElement :: "nat \<Rightarrow> OriginalPacket \<Rightarrow> DecoderPacketWindow \<Rightarrow> DecoderPacketWindow option" where
  "dPutWindowElement windowElement orig w = do {
     s \<leftarrow> get_subwindow w (windowElement div kSubwindowSize);
     os \<leftarrow> tab_set (dOriginals s) (windowElement mod kSubwindowSize) orig;
     put_subwindow (windowElement div kSubwindowSize) (s\<lparr>dOriginals := os\<rparr>) w }"

text \<open>The bit and the count of a received element.\<close>

definition mark_got :: "nat \<Rightarrow> DecoderPacketWindow \<Rightarrow> DecoderPacketWindow option" where
  "mark_got element w = do {
     s \<leftarrow> get_subwindow w (element div kSubwindowSize);
     got \<leftarrow> bitset_Set (element mod kSubwindowSize) (Got s);
     put_subwindow (element div kSubwindowSize) (s\<lparr>Got := got, GotCount := GotCount s + 1\<rparr>) w }"

definition MarkGotColumn :: "u32 \<Rightarrow> DecoderPacketWindow \<Rightarrow> (bool \<times> DecoderPacketWindow) option" where
  "MarkGotColumn column w =
     (let element = dColumnToElement w column
      in if dInvalidElement w element then Some (False, w\<lparr>dEmergencyDisabled := True\<rparr>)
         else do {
           w \<leftarrow> mark_got element w;
           Some (element = NextExpectedElement w, w) })"

definition RangeLostPackets :: "DecoderPacketWindow \<Rightarrow> nat \<Rightarrow> nat \<Rightarrow> nat option" where
  "RangeLostPackets w elementStart elementEnd =
     (if elementStart \<ge> elementEnd then Some 0
      else do {
        let subwindowStart = elementStart div kSubwindowSize;
        let bitStart = elementStart mod kSubwindowSize;
        (lostCount, subwindowStart) \<leftarrow>
          (if bitStart > 0 then do {
             let bitEnd = (if bitStart + elementEnd - elementStart > kSubwindowSize then kSubwindowSize else bitStart + elementEnd - elementStart);
             s \<leftarrow> get_subwindow w subwindowStart;
             n \<leftarrow> RangePopcount bitStart bitEnd (Got s);
             Some (minus32 (bitEnd - bitStart) n, subwindowStart + 1) }
           else Some (0, subwindowStart));
        let subwindowEnd = elementEnd div kSubwindowSize;
        lostCount \<leftarrow> for_range subwindowStart subwindowEnd (\<lambda>i lostCount. do {
            s \<leftarrow> get_subwindow w i;
            Some (lostCount + minus32 kSubwindowSize (GotCount s)) }) lostCount;
        (if subwindowEnd \<ge> subwindowStart then do {
           let lastSubwindowBits = elementEnd - subwindowEnd * kSubwindowSize;
           (if lastSubwindowBits > 0 then do {
              s \<leftarrow> get_subwindow w subwindowEnd;
              gotCount \<leftarrow> RangePopcount 0 lastSubwindowBits (Got s);
              Some (lostCount + minus32 lastSubwindowBits gotCount) }
            else Some lostCount) }
         else Some lostCount) })"

text \<open>The search that \<open>FindNextLostElement\<close> and \<open>FindNextGotElement\<close> share: subwindows that cannot have a hit are skipped.\<close>

function find_element :: "(DecoderSubwindow \<Rightarrow> bool) \<Rightarrow> (nat \<Rightarrow> CustomBitSet \<Rightarrow> nat option) \<Rightarrow> DecoderPacketWindow \<Rightarrow> nat \<Rightarrow> nat \<Rightarrow> nat \<Rightarrow> nat option" where
  "find_element may search w subwindowEnd subwindowIndex bitIndex =
     (if subwindowIndex < subwindowEnd then do {
        s \<leftarrow> get_subwindow w subwindowIndex;
        bitIndex \<leftarrow> (if may s then search bitIndex (Got s) else Some kSubwindowSize);
        (if bitIndex \<ge> kSubwindowSize then find_element may search w subwindowEnd (subwindowIndex + 1) 0
         else let nextElement = subwindowIndex * kSubwindowSize + bitIndex
              in Some (if nextElement > dCount w then dCount w else nextElement)) }
      else Some (dCount w))"
  by pat_completeness auto
termination by (relation "measure (\<lambda>(may, search, w, subwindowEnd, subwindowIndex, bitIndex). subwindowEnd - subwindowIndex)") auto

declare find_element.simps [simp del]

definition FindNextLostElement :: "DecoderPacketWindow \<Rightarrow> nat \<Rightarrow> nat option" where
  "FindNextLostElement w elementStart =
     (if elementStart \<ge> dCount w then Some (dCount w)
      else find_element (\<lambda>s. GotCount s < kSubwindowSize) (FindFirstClear kSubwindowSize) w
        ((dCount w + kSubwindowSize - 1) div kSubwindowSize) (elementStart div kSubwindowSize) (elementStart mod kSubwindowSize))"

definition FindNextGotElement :: "DecoderPacketWindow \<Rightarrow> nat \<Rightarrow> nat option" where
  "FindNextGotElement w elementStart =
     (if elementStart \<ge> dCount w then Some (dCount w)
      else find_element (\<lambda>s. GotCount s > 0) (\<lambda>b. FindFirstSet b kSubwindowSize) w
        ((dCount w + kSubwindowSize - 1) div kSubwindowSize) (elementStart div kSubwindowSize) (elementStart mod kSubwindowSize))"

definition IterateNextExpectedElement :: "nat \<Rightarrow> DecoderPacketWindow \<Rightarrow> DecoderPacketWindow option" where
  "IterateNextExpectedElement elementStart w =
     (if NextExpectedElement w \<ge> dCount w then Some w
      else do {
        nextLostElement \<leftarrow> FindNextLostElement w elementStart;
        Some (w\<lparr>NextExpectedElement := nextLostElement\<rparr>) })"

text \<open>New subwindows, up to the first one for which there is no memory.\<close>

fun construct_subwindows :: "memory \<Rightarrow> nat \<Rightarrow> DecoderPacketWindow \<Rightarrow> bool \<times> DecoderPacketWindow" where
  "construct_subwindows mem 0 w = (True, w)"
| "construct_subwindows mem (Suc n) w =
     (let (block, w) = dnext_block mem w
      in if block = None then (False, w)
         else construct_subwindows mem n (w\<lparr>dSubwindows := dSubwindows w @ [length (Blocks w)], Blocks := Blocks w @ [new_dsubwindow]\<rparr>))"

definition GrowWindow :: "memory \<Rightarrow> nat \<Rightarrow> DecoderPacketWindow \<Rightarrow> bool \<times> DecoderPacketWindow" where
  "GrowWindow mem windowElementEnd w =
     (let subwindowCount = length (dSubwindows w);
          subwindowsNeeded = (windowElementEnd + lanes + kSubwindowSize - 1) div kSubwindowSize;
          (ok, w) = (if subwindowsNeeded > subwindowCount then
              (let (block, w) = dnext_block mem w
               in if block = None then (False, w) else construct_subwindows mem (subwindowsNeeded - subwindowCount) w)
            else (True, w))
      in if \<not> ok then (False, w)
         else (True, if windowElementEnd > dCount w then w\<lparr>dCount := windowElementEnd\<rparr> else w))"

section \<open>Recovery packets and the checked region\<close>

text \<open>Following a pointer to a recovery packet, and the packet after it.\<close>

definition find_recovery :: "nat \<Rightarrow> RecoveryPacketList \<Rightarrow> RecoveryPacket option" where
  "find_recovery i l = find (\<lambda>r. rId r = i) (Packets l)"

definition put_recovery :: "RecoveryPacket \<Rightarrow> RecoveryPacketList \<Rightarrow> RecoveryPacketList" where
  "put_recovery r l = l\<lparr>Packets := map (\<lambda>r'. if rId r' = rId r then r else r') (Packets l)\<rparr>"

definition next_recovery :: "nat \<Rightarrow> RecoveryPacketList \<Rightarrow> RecoveryPacket option option" where
  "next_recovery i l =
     (case dropWhile (\<lambda>r. rId r \<noteq> i) (Packets l) of
        [] \<Rightarrow> None
      | _ # rest \<Rightarrow> Some (case rest of [] \<Rightarrow> None | r # _ \<Rightarrow> Some r))"

definition Matrix_Reset :: "RecoveryMatrixState \<Rightarrow> RecoveryMatrixState" where
  "Matrix_Reset m = m\<lparr>Columns := [], Rows := [], Pivots := [], Matrix := (Matrix m)\<lparr>mRows := 0, mColumns := 0\<rparr>, PreviousNextCheckStart := 0, GEResumePivot := 0\<rparr>"

definition CheckedRegion_Reset :: "Decoder \<Rightarrow> Decoder" where
  "CheckedRegion_Reset D = D\<lparr>CheckedRegion := \<lparr> cElementStart = 0, FirstRecovery = None, LastRecovery = None, NextCheckStart = 0, RecoveryCount = 0, LostCount = 0, SolveFailed = False \<rparr>,
     RecoveryMatrix := Matrix_Reset (RecoveryMatrix D)\<rparr>"

definition CheckedRegion_DecrementElementCounters :: "nat \<Rightarrow> Decoder \<Rightarrow> Decoder" where
  "CheckedRegion_DecrementElementCounters elementCount D =
     (let c = CheckedRegion D
      in if cElementStart c < elementCount \<or> NextCheckStart c < elementCount then CheckedRegion_Reset D
         else D\<lparr>CheckedRegion := c\<lparr>cElementStart := cElementStart c - elementCount, NextCheckStart := NextCheckStart c - elementCount\<rparr>\<rparr>)"

definition Matrix_DecrementElementCounters :: "nat \<Rightarrow> RecoveryMatrixState \<Rightarrow> RecoveryMatrixState" where
  "Matrix_DecrementElementCounters elementCount m =
     m\<lparr>PreviousNextCheckStart := (if PreviousNextCheckStart m > elementCount then PreviousNextCheckStart m - elementCount else 0)\<rparr>"

text \<open>The place of a new packet is searched from the end of the list.\<close>

definition goes_after :: "RecoveryPacket \<Rightarrow> RecoveryPacket \<Rightarrow> bool" where
  "goes_after recovery prev \<longleftrightarrow>
     rElementEnd recovery > rElementEnd prev
     \<or> rElementEnd recovery = rElementEnd prev \<and> IsColumnDeltaNegative (SubtractColumns (ColumnStart (rMetadata recovery)) (ColumnStart (rMetadata prev)))"

definition List_Insert :: "RecoveryPacket \<Rightarrow> bool \<Rightarrow> Decoder \<Rightarrow> Decoder" where
  "List_Insert recovery outOfOrder D =
     (let l = RecoveryPackets D;
          after = rev (takeWhile (\<lambda>prev. \<not> goes_after recovery prev) (rev (Packets l)));
          before = rev (dropWhile (\<lambda>prev. \<not> goes_after recovery prev) (rev (Packets l)));
          l = l\<lparr>Packets := before @ [recovery] @ after, RecoveryPacketCount := RecoveryPacketCount l + 1\<rparr>;
          l = (if outOfOrder then l else l\<lparr>LastRecoveryMetadata := rMetadata recovery, LastRecoveryBytes := Bytes (rBuffer recovery)\<rparr>);
          D = D\<lparr>RecoveryPackets := l\<rparr>
      in if before = [] \<or> after \<noteq> [] then CheckedRegion_Reset D else D)"

definition DeletePacketsBefore :: "nat \<Rightarrow> RecoveryPacketList \<Rightarrow> RecoveryPacketList" where
  "DeletePacketsBefore element l =
     (let kept = dropWhile (\<lambda>r. rElementEnd r \<le> element) (Packets l);
          deleteCount = length (takeWhile (\<lambda>r. rElementEnd r \<le> element) (Packets l))
      in l\<lparr>Packets := kept, RecoveryPacketCount := (if kept = [] then 0 else minus32 (RecoveryPacketCount l) deleteCount)\<rparr>)"

definition List_DecrementElementCounters :: "nat \<Rightarrow> RecoveryPacketList \<Rightarrow> RecoveryPacketList" where
  "List_DecrementElementCounters elementCount l =
     l\<lparr>Packets := map (\<lambda>r. r\<lparr>rElementEnd := minus32 (rElementEnd r) elementCount, rElementStart := minus32 (rElementStart r) elementCount\<rparr>) (Packets l)\<rparr>"

definition List_Delete :: "nat \<Rightarrow> RecoveryPacketList \<Rightarrow> RecoveryPacketList option" where
  "List_Delete i l = do {
     _ \<leftarrow> find_recovery i l;
     Some (l\<lparr>Packets := filter (\<lambda>r. rId r \<noteq> i) (Packets l), RecoveryPacketCount := minus32 (RecoveryPacketCount l) 1\<rparr>) }"

end
