(* ===== verification/Decoder_Sums.thy ===== *)
theory Decoder_Sums
  imports Siamese_Decoder
begin

text \<open>
  The running sums of the FEC decoder (\<open>SiameseDecoder.cpp\<close>): accumulation over the received elements of a lane, holes that are filled in
  after a recovery, and the removal of elements from the front of the window.
\<close>

section \<open>Accumulation\<close>

function dsum_loop :: "memory \<Rightarrow> gf256_state \<Rightarrow> nat \<Rightarrow> nat \<Rightarrow> nat \<Rightarrow> GrowingAlignedDataBuffer \<Rightarrow> DecoderPacketWindow
    \<Rightarrow> (nat option \<times> GrowingAlignedDataBuffer \<times> DecoderPacketWindow) option" where
  "dsum_loop mem gf sumIndex elementEnd element sm w = do {
     orig \<leftarrow> dGetWindowElement w element;
     let originalBytes = Bytes (Buffer orig);
     (ok, sm, w) \<leftarrow> (if originalBytes > 0 then do {
         (ok, sm, w) \<leftarrow> (if originalBytes > Bytes sm then do {
             let (block, w) = dnext_block mem w;
             (ok, sm) \<leftarrow> GrowZeroPadded block originalBytes sm;
             Some (ok, sm, w) }
           else Some (True, sm, w));
         (if \<not> ok then Some (False, sm, w\<lparr>dEmergencyDisabled := True\<rparr>)
          else do {
            d \<leftarrow> Data sm;
            d \<leftarrow> accumulate gf sumIndex orig originalBytes d;
            Some (True, sm\<lparr>Data := Some d\<rparr>, w) }) }
       else Some (True, sm, w));
     (if \<not> ok then Some (None, sm, w)
      else let element' = element + lanes
           in if element' < elementEnd then dsum_loop mem gf sumIndex elementEnd element' sm w
              else Some (Some element', sm, w)) }"
  by pat_completeness auto
termination by (relation "measure (\<lambda>(mem, gf, sumIndex, elementEnd, element, sm, w). elementEnd - element)") (auto simp: lanes_def kColumnLaneCount_def)

declare dsum_loop.simps [simp del]

definition get_dsum :: "nat \<Rightarrow> nat \<Rightarrow> DecoderPacketWindow \<Rightarrow> DecoderSum option" where
  "get_dsum laneIndex sumIndex w = do { lane \<leftarrow> tab_get (dLanes w) laneIndex; tab_get (Sums lane) sumIndex }"

definition put_dsum :: "nat \<Rightarrow> nat \<Rightarrow> DecoderSum \<Rightarrow> DecoderPacketWindow \<Rightarrow> DecoderPacketWindow option" where
  "put_dsum laneIndex sumIndex s w = do {
     lane \<leftarrow> tab_get (dLanes w) laneIndex;
     ss \<leftarrow> tab_set (Sums lane) sumIndex s;
     ls \<leftarrow> tab_set (dLanes w) laneIndex (lane\<lparr>Sums := ss\<rparr>);
     Some (w\<lparr>dLanes := ls\<rparr>) }"

definition dGetSum :: "memory \<Rightarrow> gf256_state \<Rightarrow> nat \<Rightarrow> nat \<Rightarrow> nat \<Rightarrow> DecoderPacketWindow \<Rightarrow> (GrowingAlignedDataBuffer \<times> DecoderPacketWindow) option" where
  "dGetSum mem gf laneIndex sumIndex elementEnd w = do {
     s \<leftarrow> get_dsum laneIndex sumIndex w;
     (if sumElementEnd s \<ge> elementEnd then Some (sumBuffer s, w)
      else do {
        (next, b, w) \<leftarrow> dsum_loop mem gf sumIndex elementEnd (sumElementEnd s) (sumBuffer s) w;
        w \<leftarrow> put_dsum laneIndex sumIndex (s\<lparr>sumElementEnd := (case next of None \<Rightarrow> sumElementEnd s | Some e \<Rightarrow> e), sumBuffer := b\<rparr>) w;
        Some (b, w) }) }"

section \<open>Starting sums\<close>

definition dResetSums :: "nat \<Rightarrow> DecoderPacketWindow \<Rightarrow> DecoderPacketWindow" where
  "dResetSums elementStart w = w\<lparr>
     dLanes := map (\<lambda>laneIndex. (dLanes w ! laneIndex)\<lparr>Sums := map (\<lambda>s.
        \<lparr> sumElementStart = GetNextLaneElement elementStart laneIndex, sumElementEnd = GetNextLaneElement elementStart laneIndex,
          sumBuffer = (sumBuffer s)\<lparr>Bytes := 0\<rparr> \<rparr>) (Sums (dLanes w ! laneIndex))\<rparr>) [0..<lanes],
     RecoveredColumns := []\<rparr>"

text \<open>A hole of one sum; the flag tells whether to go on.\<close>

definition plug_hole :: "memory \<Rightarrow> gf256_state \<Rightarrow> u32 \<Rightarrow> nat \<Rightarrow> nat \<Rightarrow> nat \<Rightarrow> bool \<times> DecoderPacketWindow \<Rightarrow> (bool \<times> DecoderPacketWindow) option" where
  "plug_hole mem gf column element laneElementStart sumIndex = (\<lambda>(ok, w).
     if \<not> ok then Some (False, w)
     else do {
       let laneIndex = unat (column mod kColumnLaneCount);
       s \<leftarrow> get_dsum laneIndex sumIndex w;
       (if element \<ge> laneElementStart \<and> element < sumElementEnd s then do {
          orig \<leftarrow> dGetWindowElement w element;
          let originalBytes = Bytes (Buffer orig);
          (if originalBytes \<le> 0 then Some (False, w)
           else do {
             (ok, b, w) \<leftarrow> (if originalBytes > Bytes (sumBuffer s) then do {
                 let (block, w) = dnext_block mem w;
                 (ok, b) \<leftarrow> GrowZeroPadded block originalBytes (sumBuffer s);
                 Some (ok, b, w) }
               else Some (True, sumBuffer s, w));
             (if \<not> ok then do {
                w \<leftarrow> put_dsum laneIndex sumIndex (s\<lparr>sumBuffer := b\<rparr>) w;
                Some (False, w) }
              else do {
                d \<leftarrow> Data b;
                d \<leftarrow> accumulate gf sumIndex (orig\<lparr>Column := column\<rparr>) originalBytes d;
                w \<leftarrow> put_dsum laneIndex sumIndex (s\<lparr>sumBuffer := b\<lparr>Data := Some d\<rparr>\<rparr>) w;
                Some (True, w) }) }) }
        else Some (True, w)) })"

definition plug_column :: "memory \<Rightarrow> gf256_state \<Rightarrow> nat \<Rightarrow> nat \<Rightarrow> bool \<times> DecoderPacketWindow \<Rightarrow> (bool \<times> DecoderPacketWindow) option" where
  "plug_column mem gf elementStart i = (\<lambda>(ok, w).
     if \<not> ok then Some (False, w)
     else do {
       column \<leftarrow> tab_get (RecoveredColumns w) i;
       let element = dColumnToElement w column;
       (if dInvalidElement w element then Some (True, w)
        else for_range 0 kColumnSumCount
          (plug_hole mem gf column element (GetNextLaneElement elementStart (unat (column mod kColumnLaneCount)))) (True, w)) })"

definition PlugSumHoles :: "memory \<Rightarrow> gf256_state \<Rightarrow> nat \<Rightarrow> DecoderPacketWindow \<Rightarrow> (bool \<times> DecoderPacketWindow) option" where
  "PlugSumHoles mem gf elementStart w = do {
     (ok, w) \<leftarrow> for_range 0 (length (RecoveredColumns w)) (plug_column mem gf elementStart) (True, w);
     Some (ok, if ok then w\<lparr>RecoveredColumns := []\<rparr> else w) }"

definition start_sum :: "memory \<Rightarrow> nat \<Rightarrow> nat \<Rightarrow> nat \<Rightarrow> nat \<Rightarrow> bool \<times> DecoderPacketWindow \<Rightarrow> (bool \<times> DecoderPacketWindow) option" where
  "start_sum mem bufferBytes laneIndex laneElementStart sumIndex = (\<lambda>(ok, w).
     if \<not> ok then Some (False, w)
     else do {
       s \<leftarrow> get_dsum laneIndex sumIndex w;
       let s = (if Bytes (sumBuffer s) = 0 then s\<lparr>sumElementEnd := laneElementStart\<rparr>
                else if sumElementStart s \<noteq> laneElementStart then s\<lparr>sumElementEnd := laneElementStart, sumBuffer := (sumBuffer s)\<lparr>Bytes := 0\<rparr>\<rparr>
                else s);
       let (block, w) = dnext_block mem w;
       (ok, b) \<leftarrow> GrowZeroPadded block bufferBytes (sumBuffer s);
       w \<leftarrow> put_dsum laneIndex sumIndex (s\<lparr>sumElementStart := laneElementStart, sumBuffer := b\<rparr>) w;
       Some (ok, w) })"

definition StartSums :: "memory \<Rightarrow> gf256_state \<Rightarrow> nat \<Rightarrow> nat \<Rightarrow> DecoderPacketWindow \<Rightarrow> (bool \<times> DecoderPacketWindow) option" where
  "StartSums mem gf elementStart bufferBytes w = do {
     (ok, w) \<leftarrow> for_range 0 lanes (\<lambda>laneIndex. for_range 0 kColumnSumCount
        (start_sum mem bufferBytes laneIndex (GetNextLaneElement elementStart laneIndex))) (True, w);
     (if ok \<and> RecoveredColumns w \<noteq> [] then PlugSumHoles mem gf elementStart w else Some (ok, w)) }"

section \<open>Removal of elements\<close>

record RemovalPlan =
  firstKeptElement :: nat
  targetSumStartColumn :: u32
  targetSumColumnCount :: u32
  initialRecoveryBytes :: nat
  seenSum :: bool

text \<open>What the received recovery packets still need.  Nothing is returned when the start of a second sum was clipped.\<close>

fun survey_packets :: "DecoderPacketWindow \<Rightarrow> RecoveryPacket list \<Rightarrow> RemovalPlan \<Rightarrow> RemovalPlan option" where
  "survey_packets w [] p = Some p"
| "survey_packets w (recovery # rest) p = do {
     let p = (if firstKeptElement p > rElementStart recovery then p\<lparr>firstKeptElement := rElementStart recovery\<rparr> else p);
     let p = (if initialRecoveryBytes p < Bytes (rBuffer recovery) then p\<lparr>initialRecoveryBytes := Bytes (rBuffer recovery)\<rparr> else p);
     let sumCount = SumCount (rMetadata recovery);
     let columnStart = ColumnStart (rMetadata recovery);
     p \<leftarrow> (if unat sumCount > SIAMESE_CAUCHY_THRESHOLD then
             (if \<not> seenSum p then Some (p\<lparr>targetSumStartColumn := columnStart, targetSumColumnCount := sumCount, seenSum := True\<rparr>)
              else if columnStart \<noteq> targetSumStartColumn p \<or> sumCount < targetSumColumnCount p then
                (let firstSumElement = dColumnToElement w columnStart
                 in if dInvalidElement w firstSumElement then None
                    else Some (if firstKeptElement p > firstSumElement then p\<lparr>firstKeptElement := firstSumElement\<rparr> else p))
              else Some p)
           else Some p);
     survey_packets w rest p }"

definition removal_plan :: "RecoveryPacketList \<Rightarrow> DecoderPacketWindow \<Rightarrow> RemovalPlan option" where
  "removal_plan l w =
     (case Packets l of
        [] \<Rightarrow>
          let metadata = LastRecoveryMetadata l; elementEnd = dColumnToElement w (ColumnStart metadata + SumCount metadata)
          in if IsColumnDeltaNegative (of_nat elementEnd) \<or> elementEnd < unat (LDPCCount metadata) then None
             else Some \<lparr> firstKeptElement = elementEnd - unat (LDPCCount metadata), targetSumStartColumn = ColumnStart metadata,
                         targetSumColumnCount = SumCount metadata, initialRecoveryBytes = LastRecoveryBytes l,
                         seenSum = (unat (SumCount metadata) > SIAMESE_CAUCHY_THRESHOLD) \<rparr>
      | recovery # _ \<Rightarrow>
          survey_packets w (Packets l) \<lparr> firstKeptElement = rElementStart recovery, targetSumStartColumn = 0, targetSumColumnCount = 0,
            initialRecoveryBytes = Bytes (rBuffer recovery), seenSum = False \<rparr>)"

text \<open>Rolling one sum past the point of removal.\<close>

definition roll_dsum :: "memory \<Rightarrow> gf256_state \<Rightarrow> nat \<Rightarrow> nat \<Rightarrow> nat \<Rightarrow> DecoderPacketWindow \<Rightarrow> DecoderPacketWindow option" where
  "roll_dsum mem gf removedElementCount laneIndex sumIndex w = do {
     (_, w) \<leftarrow> dGetSum mem gf laneIndex sumIndex removedElementCount w;
     s \<leftarrow> get_dsum laneIndex sumIndex w;
     put_dsum laneIndex sumIndex (s\<lparr>
        sumElementStart := (if sumElementStart s \<ge> removedElementCount then sumElementStart s - removedElementCount else laneIndex),
        sumElementEnd := minus32 (sumElementEnd s) removedElementCount\<rparr>) w }"

definition maintain_sums :: "memory \<Rightarrow> gf256_state \<Rightarrow> RemovalPlan \<Rightarrow> nat \<Rightarrow> DecoderPacketWindow \<Rightarrow> (bool \<times> DecoderPacketWindow) option" where
  "maintain_sums mem gf p removedElementCount w =
     (if seenSum p then do {
        let sumElementStart = dColumnToElement w (targetSumStartColumn p);
        (ok, w) \<leftarrow>
          (if dSumColumnStart w \<noteq> targetSumStartColumn p \<or> SumColumnCount w > targetSumColumnCount p then
             (if dInvalidElement w sumElementStart then Some (False, w)
              else Some (True, (dResetSums sumElementStart w)\<lparr>dSumColumnStart := targetSumStartColumn p, SumColumnCount := targetSumColumnCount p\<rparr>))
           else StartSums mem gf (if dInvalidElement w sumElementStart then 0 else sumElementStart) (initialRecoveryBytes p) w);
        (if \<not> ok then Some (False, w\<lparr>dEmergencyDisabled := True\<rparr>)
         else do {
           w \<leftarrow> for_range 0 lanes (\<lambda>laneIndex. for_range 0 kColumnSumCount (roll_dsum mem gf removedElementCount laneIndex)) w;
           Some (True, w) }) }
      else Some (True, w\<lparr>SumColumnCount := 0\<rparr>))"

definition shift_window :: "nat \<Rightarrow> nat \<Rightarrow> DecoderPacketWindow \<Rightarrow> DecoderPacketWindow" where
  "shift_window firstKeptSubwindow removedElementCount w = w\<lparr>
     dSubwindows := drop firstKeptSubwindow (dSubwindows w) @ take firstKeptSubwindow (dSubwindows w),
     dCount := minus32 (dCount w) removedElementCount,
     dColumnStart := dElementToColumn w removedElementCount,
     NextExpectedElement := minus32 (NextExpectedElement w) removedElementCount\<rparr>"

definition reset_subwindow :: "nat \<Rightarrow> DecoderPacketWindow \<Rightarrow> DecoderPacketWindow option" where
  "reset_subwindow i w = do { s \<leftarrow> get_subwindow w i; s \<leftarrow> Subwindow_Reset s; put_subwindow i s w }"

definition dRemoveElements :: "memory \<Rightarrow> gf256_state \<Rightarrow> Decoder \<Rightarrow> Decoder option" where
  "dRemoveElements mem gf D =
     (if NextExpectedElement (dWindow D) < kDecoderRemoveThreshold then Some D
      else case removal_plan (RecoveryPackets D) (dWindow D) of
        None \<Rightarrow> Some (Disable D)
      | Some p \<Rightarrow>
          if firstKeptElement p < kDecoderRemoveThreshold then Some D
          else do {
            let firstKeptSubwindow = firstKeptElement p div kSubwindowSize;
            let removedElementCount = firstKeptSubwindow * kSubwindowSize;
            (ok, w) \<leftarrow> maintain_sums mem gf p removedElementCount (dWindow D);
            (if \<not> ok then Some (D\<lparr>dWindow := w\<rparr>)
             else do {
               w \<leftarrow> for_range 0 firstKeptSubwindow reset_subwindow w;
               let (block, w) = dnext_block mem w;
               (if block = None then Some (D\<lparr>dWindow := w\<lparr>dEmergencyDisabled := True\<rparr>\<rparr>)
                else if length (dSubwindows w) < firstKeptSubwindow then None
                else do {
                  let D = D\<lparr>dWindow := shift_window firstKeptSubwindow removedElementCount w,
                            RecoveryPackets := List_DecrementElementCounters removedElementCount (RecoveryPackets D)\<rparr>;
                  let D = CheckedRegion_DecrementElementCounters removedElementCount D;
                  Some (D\<lparr>RecoveryMatrix := Matrix_DecrementElementCounters removedElementCount (RecoveryMatrix D)\<rparr>) }) }) })"

end
