(* ===== verification/Decoder_Matrix.thy ===== *)
theory Decoder_Matrix
  imports Decoder_Sums
begin

text \<open>
  The recovery matrix of the FEC decoder (\<open>RecoveryMatrixState\<close> of \<open>SiameseDecoder.h\<close> and \<open>.cpp\<close>): rows for recovery packets, columns for lost packets,
  coefficients sampled from the code, and Gaussian elimination that is resumed when rows and columns are added.
  The matrix is one block of memory; a row is an offset into it.
\<close>

unbundle bit_operations_syntax

section \<open>Rows and columns\<close>

text \<open>The new size of a vector, when there is memory.  The results of these calls are not checked.\<close>

definition resize_vec :: "memory \<Rightarrow> nat \<Rightarrow> 'a \<Rightarrow> 'a list \<Rightarrow> DecoderPacketWindow \<Rightarrow> 'a list \<times> DecoderPacketWindow" where
  "resize_vec mem n x xs w = (let (block, w) = dnext_block mem w
     in (if block = None then xs else take n xs @ replicate (n - length xs) x, w))"

function populate_columns :: "nat \<Rightarrow> nat \<Rightarrow> nat \<Rightarrow> nat \<Rightarrow> nat \<Rightarrow> DecoderPacketWindow \<times> ColumnInfo list \<Rightarrow> (bool \<times> DecoderPacketWindow \<times> ColumnInfo list) option" where
  "populate_columns subwindowEnd newColumns subwindowIndex bitIndex column (w, cols) =
     (if subwindowIndex < subwindowEnd then do {
        s \<leftarrow> get_subwindow w subwindowIndex;
        bitIndex \<leftarrow> (if GotCount s < kSubwindowSize then FindFirstClear kSubwindowSize bitIndex (Got s) else Some kSubwindowSize);
        (if bitIndex \<ge> kSubwindowSize then populate_columns subwindowEnd newColumns (subwindowIndex + 1) 0 column (w, cols)
         else do {
           let element = subwindowIndex * kSubwindowSize + bitIndex;
           let c = dElementToColumn w element;
           p \<leftarrow> tab_get (dSubwindows w) subwindowIndex;
           cols \<leftarrow> tab_set cols column \<lparr> colOriginal = (p, bitIndex), colColumn = c, CX = GetColumnValue c \<rparr>;
           orig \<leftarrow> dGetWindowElement w element;
           w \<leftarrow> dPutWindowElement element (orig\<lparr>Column := of_nat column\<rparr>) w;
           (if column + 1 \<ge> newColumns then Some (True, w, cols)
            else if bitIndex + 1 < kSubwindowSize then populate_columns subwindowEnd newColumns subwindowIndex (bitIndex + 1) (column + 1) (w, cols)
            else populate_columns subwindowEnd newColumns (subwindowIndex + 1) 0 (column + 1) (w, cols)) }) }
      else Some (False, w, cols))"
  by pat_completeness auto
termination
  by (relation "measures [\<lambda>(e, n, i, b, c, s). n - c, \<lambda>(e, n, i, b, c, s). e - i]") auto

declare populate_columns.simps [simp del]

definition PopulateColumns :: "memory \<Rightarrow> nat \<Rightarrow> nat \<Rightarrow> Decoder \<Rightarrow> Decoder option" where
  "PopulateColumns mem oldColumns newColumns D =
     (if oldColumns \<ge> newColumns then Some D
      else do {
        let M = RecoveryMatrix D;
        let (cols, w) = resize_vec mem newColumns \<lparr> colOriginal = (0, 0), colColumn = 0, CX = 0 \<rparr> (Columns M) (dWindow D);
        let elementEnd = NextCheckStart (CheckedRegion D);
        let elementStart = (if PreviousNextCheckStart M < cElementStart (CheckedRegion D) then cElementStart (CheckedRegion D) else PreviousNextCheckStart M);
        (ok, w, cols) \<leftarrow> populate_columns ((elementEnd + kSubwindowSize - 1) div kSubwindowSize) newColumns
            (elementStart div kSubwindowSize) (elementStart mod kSubwindowSize) oldColumns (w, cols);
        Some (D\<lparr>dWindow := (if ok then w else w\<lparr>dEmergencyDisabled := True\<rparr>),
                RecoveryMatrix := M\<lparr>Columns := cols, PreviousNextCheckStart := elementEnd\<rparr>\<rparr>) })"

function populate_rows :: "RecoveryPacketList \<Rightarrow> nat \<Rightarrow> nat \<Rightarrow> RecoveryPacket option \<Rightarrow> RowInfo list \<Rightarrow> RowInfo list option" where
  "populate_rows l newRows rowIndex recovery rows =
     (if rowIndex < newRows then do {
        r \<leftarrow> recovery;
        rows \<leftarrow> tab_set rows rowIndex \<lparr> Recovery = rId r, UsedForSolution = False, MatrixColumnCount = rLostCount r \<rparr>;
        next \<leftarrow> next_recovery (rId r) l;
        populate_rows l newRows (rowIndex + 1) next rows }
      else Some rows)"
  by pat_completeness auto
termination by (relation "measure (\<lambda>(l, n, i, r, rows). n - i)") auto

declare populate_rows.simps [simp del]

definition PopulateRows :: "memory \<Rightarrow> nat \<Rightarrow> nat \<Rightarrow> Decoder \<Rightarrow> Decoder option" where
  "PopulateRows mem oldRows newRows D =
     (if oldRows \<ge> newRows then Some D
      else do {
        let M = RecoveryMatrix D;
        let (rows, w) = resize_vec mem newRows \<lparr> Recovery = 0, UsedForSolution = False, MatrixColumnCount = 0 \<rparr> (Rows M) (dWindow D);
        recovery \<leftarrow> (if oldRows > 0 then do { r \<leftarrow> tab_get rows (oldRows - 1); next_recovery (Recovery r) (RecoveryPackets D) }
                     else case FirstRecovery (CheckedRegion D) of None \<Rightarrow> Some None
                          | Some i \<Rightarrow> do { r \<leftarrow> find_recovery i (RecoveryPackets D); Some (Some r) });
        rows \<leftarrow> populate_rows (RecoveryPackets D) newRows oldRows recovery rows;
        Some (D\<lparr>dWindow := w, RecoveryMatrix := M\<lparr>Rows := rows\<rparr>\<rparr>) })"

section \<open>Coefficients\<close>

text \<open>A row is filled from the left; after the end of the packet it is zero.\<close>

function fill_row :: "(u32 \<Rightarrow> u8 \<Rightarrow> u8 option) \<Rightarrow> RecoveryMetadata \<Rightarrow> ColumnInfo list \<Rightarrow> nat \<Rightarrow> nat \<Rightarrow> nat \<Rightarrow> bytes \<Rightarrow> bytes option" where
  "fill_row coef metadata cols rowStart columns j d =
     (if j < columns then do {
        c \<leftarrow> tab_get cols j;
        let element = unat (SubtractColumns (colColumn c) (ColumnStart metadata));
        (if element \<ge> unat (SumCount metadata) then for_range j columns (\<lambda>j d. tab_set d (rowStart + j) 0) d
         else do {
           v \<leftarrow> coef (colColumn c) (CX c);
           d \<leftarrow> tab_set d (rowStart + j) v;
           fill_row coef metadata cols rowStart columns (j + 1) d }) }
      else Some d)"
  by pat_completeness auto
termination by (relation "measure (\<lambda>(coef, m, cols, r, n, j, d). n - j)") auto

declare fill_row.simps [simp del]

definition cauchy_value :: "gf256_state \<Rightarrow> u32 \<Rightarrow> u32 \<Rightarrow> u8 \<Rightarrow> u8 option" where
  "cauchy_value gf row column cx =
     (if row = 0 then Some 1 else CauchyElement gf (unat (row - 1)) (unat column mod kCauchyMaxColumns))"

definition dense_value :: "gf256_state \<Rightarrow> u32 \<Rightarrow> u32 \<Rightarrow> u8 \<Rightarrow> u8 option" where
  "dense_value gf row column cx = do {
     let RX = GetRowValue row;
     CX2 \<leftarrow> gf256_sqr (lib_ctx gf) cx;
     let opcode = GetRowOpcode (column mod kColumnLaneCount) row;
     CXRX \<leftarrow> gf256_mul (lib_ctx gf) cx RX;
     CX2RX \<leftarrow> gf256_mul (lib_ctx gf) CX2 RX;
     let value = 0;
     let value = (if opcode AND 1 \<noteq> 0 then value XOR 1 else value);
     let value = (if opcode AND 2 \<noteq> 0 then value XOR cx else value);
     let value = (if opcode AND 4 \<noteq> 0 then value XOR CX2 else value);
     let value = (if opcode AND 8 \<noteq> 0 then value XOR RX else value);
     let value = (if opcode AND 16 \<noteq> 0 then value XOR CXRX else value);
     let value = (if opcode AND 32 \<noteq> 0 then value XOR CX2RX else value);
     Some value }"

text \<open>A random element changes the coefficient of its column when it is lost; \<open>Column\<close> is then its column of the matrix.\<close>

definition light_cell :: "DecoderPacketWindow \<Rightarrow> nat \<Rightarrow> nat \<Rightarrow> nat \<Rightarrow> u8 \<Rightarrow> bytes \<Rightarrow> bytes option" where
  "light_cell w startMatrixColumn rowStart element v d = do {
     orig \<leftarrow> dGetWindowElement w element;
     (if Bytes (Buffer orig) \<le> 0 \<and> unat (Column orig) \<ge> startMatrixColumn then do {
        x \<leftarrow> tab_get d (rowStart + unat (Column orig));
        tab_set d (rowStart + unat (Column orig)) (x XOR v) }
      else Some d) }"

definition light_cells :: "DecoderPacketWindow \<Rightarrow> RecoveryMetadata \<Rightarrow> nat \<Rightarrow> nat \<Rightarrow> nat \<Rightarrow> nat \<Rightarrow> bytes \<times> PCGRandom \<Rightarrow> (bytes \<times> PCGRandom) option" where
  "light_cells w metadata elementStart startMatrixColumn rowStart k = (\<lambda>(d, prng). do {
     let (r1, prng) = Next prng;
     d \<leftarrow> light_cell w startMatrixColumn rowStart (elementStart + unat (r1 mod LDPCCount metadata)) 1 d;
     let (rx, prng) = Next prng;
     d \<leftarrow> light_cell w startMatrixColumn rowStart (elementStart + unat (rx mod LDPCCount metadata)) (GetRowValue (Row metadata)) d;
     Some (d, prng) })"

definition generate_row :: "gf256_state \<Rightarrow> Decoder \<Rightarrow> nat \<Rightarrow> nat \<Rightarrow> nat \<Rightarrow> bytes \<Rightarrow> bytes option" where
  "generate_row gf D oldRows oldColumns i d = do {
     let M = RecoveryMatrix D;
     let columns = LostCount (CheckedRegion D);
     row \<leftarrow> tab_get (Rows M) i;
     recovery \<leftarrow> find_recovery (Recovery row) (RecoveryPackets D);
     let metadata = rMetadata recovery;
     let startMatrixColumn = (if i < oldRows then oldColumns else 0);
     let rowStart = i * AllocatedColumns (Matrix M);
     (if unat (SumCount metadata) \<le> SIAMESE_CAUCHY_THRESHOLD then
        fill_row (cauchy_value gf (Row metadata)) metadata (Columns M) rowStart columns startMatrixColumn d
      else do {
        d \<leftarrow> fill_row (dense_value gf (Row metadata)) metadata (Columns M) rowStart columns startMatrixColumn d;
        let prng = Seed (ucast (Row metadata)) (ucast (LDPCCount metadata));
        let pairCount = (unat (LDPCCount metadata) + kPairAddRate - 1) div kPairAddRate;
        (d, _) \<leftarrow> for_range 0 pairCount (light_cells (dWindow D) metadata (rElementStart recovery) startMatrixColumn rowStart) (d, prng);
        Some d }) }"

section \<open>Elimination\<close>

definition MulAddRows :: "gf256_state \<Rightarrow> nat \<Rightarrow> nat \<Rightarrow> nat \<Rightarrow> nat \<Rightarrow> u8 \<Rightarrow> bytes \<Rightarrow> bytes option" where
  "MulAddRows gf ge_row rem_row columnStart columnEnd y d = do {
     let n = minus32 columnEnd columnStart;
     (if rem_row + columnStart + n \<le> length d \<and> ge_row + columnStart + n \<le> length d then do {
        x \<leftarrow> gf256_muladd_mem (lib_arch gf) (lib_ctx gf) (slice d (rem_row + columnStart) n) y (slice d (ge_row + columnStart) n) n;
        Some (overwrite d (rem_row + columnStart) x) }
      else None) }"

definition EliminateRow :: "gf256_state \<Rightarrow> nat \<Rightarrow> nat \<Rightarrow> nat \<Rightarrow> nat \<Rightarrow> u8 \<Rightarrow> bytes \<Rightarrow> (bool \<times> bytes) option" where
  "EliminateRow gf ge_row rem_row pivot_i columnEnd val_i d = do {
     val_j \<leftarrow> tab_get d (rem_row + pivot_i);
     (if val_j = 0 then Some (False, d)
      else do {
        y \<leftarrow> gf256_div (lib_ctx gf) val_j val_i;
        d \<leftarrow> tab_set d (rem_row + pivot_i) y;
        d \<leftarrow> MulAddRows gf ge_row rem_row (pivot_i + 1) columnEnd y d;
        Some (True, d) }) }"

text \<open>Elimination of one row, with the growth of its count of columns.\<close>

definition eliminate_from :: "gf256_state \<Rightarrow> nat \<Rightarrow> nat \<Rightarrow> nat \<Rightarrow> nat \<Rightarrow> u8 \<Rightarrow> nat \<Rightarrow> bytes \<times> RowInfo list \<Rightarrow> (bytes \<times> RowInfo list) option" where
  "eliminate_from gf stride row_i pivot_i pivotColumnCount val_i row_k = (\<lambda>(d, rows). do {
     (changed, d) \<leftarrow> EliminateRow gf (stride * row_i) (stride * row_k) pivot_i pivotColumnCount val_i d;
     r \<leftarrow> tab_get rows row_k;
     rows \<leftarrow> (if changed \<and> MatrixColumnCount r < pivotColumnCount then tab_set rows row_k (r\<lparr>MatrixColumnCount := pivotColumnCount\<rparr>) else Some rows);
     Some (d, rows) })"

definition resume_pivot :: "gf256_state \<Rightarrow> nat \<Rightarrow> nat list \<Rightarrow> nat \<Rightarrow> nat \<Rightarrow> nat \<Rightarrow> bytes \<times> RowInfo list \<Rightarrow> (bytes \<times> RowInfo list) option" where
  "resume_pivot gf stride pivots oldRows newRows pivot_i = (\<lambda>(d, rows). do {
     row_i \<leftarrow> tab_get pivots pivot_i;
     val_i \<leftarrow> tab_get d (stride * row_i + pivot_i);
     r \<leftarrow> tab_get rows row_i;
     for_range oldRows newRows (eliminate_from gf stride row_i pivot_i (MatrixColumnCount r) val_i) (d, rows) })"

definition ResumeGE :: "gf256_state \<Rightarrow> nat \<Rightarrow> nat \<Rightarrow> RecoveryMatrixState \<Rightarrow> RecoveryMatrixState option" where
  "ResumeGE gf oldRows rows M =
     (if oldRows \<ge> rows then Some M
      else do {
        d \<leftarrow> mData (Matrix M);
        (d, rs) \<leftarrow> for_range 0 (GEResumePivot M) (resume_pivot gf (AllocatedColumns (Matrix M)) (Pivots M) oldRows rows) (d, Rows M);
        Some (M\<lparr>Matrix := (Matrix M)\<lparr>mData := Some d\<rparr>, Rows := rs\<rparr>) })"

definition GenerateMatrix :: "memory \<Rightarrow> gf256_state \<Rightarrow> Decoder \<Rightarrow> (bool \<times> Decoder) option" where
  "GenerateMatrix mem gf D = do {
     let columns = LostCount (CheckedRegion D);
     let rows = RecoveryCount (CheckedRegion D);
     let D = (if rows < length (Rows (RecoveryMatrix D)) \<or> columns < length (Columns (RecoveryMatrix D))
              then D\<lparr>RecoveryMatrix := Matrix_Reset (RecoveryMatrix D)\<rparr> else D);
     let M = RecoveryMatrix D;
     let oldRows = length (Rows M);
     let oldColumns = length (Columns M);
     let (block, w) = dnext_block mem (dWindow D);
     (ok, m) \<leftarrow> (if oldRows = 0 then Some (Matrix_Initialize block rows columns (Matrix M)) else Matrix_Resize block rows columns (Matrix M));
     let D = D\<lparr>dWindow := w, RecoveryMatrix := M\<lparr>Matrix := m\<rparr>\<rparr>;
     (if \<not> ok then Some (False, D\<lparr>RecoveryMatrix := Matrix_Reset (RecoveryMatrix D)\<rparr>)
      else do {
        D \<leftarrow> PopulateColumns mem oldColumns columns D;
        D \<leftarrow> PopulateRows mem oldRows rows D;
        d \<leftarrow> mData m;
        d \<leftarrow> for_range (if columns \<le> oldColumns then oldRows else 0) rows (generate_row gf D oldRows oldColumns) d;
        let (pivots, w) = resize_vec mem rows 0 (Pivots (RecoveryMatrix D)) (dWindow D);
        pivots \<leftarrow> for_range oldRows rows (\<lambda>i pivots. tab_set pivots i i) pivots;
        let M = (RecoveryMatrix D)\<lparr>Matrix := m\<lparr>mData := Some d\<rparr>, Pivots := pivots\<rparr>;
        M \<leftarrow> (if GEResumePivot M > 0 then ResumeGE gf oldRows rows M else Some M);
        Some (True, D\<lparr>dWindow := w, RecoveryMatrix := M\<rparr>) }) }"

section \<open>Gaussian elimination\<close>

text \<open>The first row, in the order of the pivots, that has a value in the column.\<close>

function find_pivot :: "bytes \<Rightarrow> nat \<Rightarrow> nat list \<Rightarrow> nat \<Rightarrow> nat \<Rightarrow> nat \<Rightarrow> nat option option" where
  "find_pivot d stride pivots rows pivot_i pivot_j =
     (if pivot_j < rows then do {
        row_j \<leftarrow> tab_get pivots pivot_j;
        val_i \<leftarrow> tab_get d (stride * row_j + pivot_i);
        (if val_i = 0 then find_pivot d stride pivots rows pivot_i (pivot_j + 1) else Some (Some pivot_j)) }
      else Some None)"
  by pat_completeness auto
termination by (relation "measure (\<lambda>(d, s, p, n, i, j). n - j)") auto

declare find_pivot.simps [simp del]

definition swap_pivots :: "nat \<Rightarrow> nat \<Rightarrow> nat list \<Rightarrow> nat list option" where
  "swap_pivots i j ps = do { x \<leftarrow> tab_get ps i; y \<leftarrow> tab_get ps j; ps \<leftarrow> tab_set ps i y; tab_set ps j x }"

definition mark_used :: "nat \<Rightarrow> RecoveryMatrixState \<Rightarrow> (nat \<times> RecoveryMatrixState) option" where
  "mark_used i M = do {
     r \<leftarrow> tab_get (Rows M) i;
     rows \<leftarrow> tab_set (Rows M) i (r\<lparr>UsedForSolution := True\<rparr>);
     Some (MatrixColumnCount r, M\<lparr>Rows := rows\<rparr>) }"

definition eliminate_below :: "gf256_state \<Rightarrow> nat \<Rightarrow> nat \<Rightarrow> nat \<Rightarrow> u8 \<Rightarrow> RecoveryMatrixState \<Rightarrow> RecoveryMatrixState option" where
  "eliminate_below gf row_i pivot_i pivotColumnCount val_i M = do {
     d \<leftarrow> mData (Matrix M);
     (d, rows) \<leftarrow> for_range (pivot_i + 1) (mRows (Matrix M)) (\<lambda>pivot_k s. do {
         row_k \<leftarrow> tab_get (Pivots M) pivot_k;
         eliminate_from gf (AllocatedColumns (Matrix M)) row_i pivot_i pivotColumnCount val_i row_k s }) (d, Rows M);
     Some (M\<lparr>Matrix := (Matrix M)\<lparr>mData := Some d\<rparr>, Rows := rows\<rparr>) }"

function pivoted_loop :: "gf256_state \<Rightarrow> nat \<Rightarrow> nat \<Rightarrow> nat \<Rightarrow> RecoveryMatrixState \<Rightarrow> (bool \<times> RecoveryMatrixState) option" where
  "pivoted_loop gf columns pivot_i pivot_j M = do {
     d \<leftarrow> mData (Matrix M);
     found \<leftarrow> find_pivot d (AllocatedColumns (Matrix M)) (Pivots M) (mRows (Matrix M)) pivot_i pivot_j;
     (case found of
        None \<Rightarrow> Some (False, M\<lparr>GEResumePivot := pivot_i\<rparr>)
      | Some pivot_j \<Rightarrow> do {
          row_j \<leftarrow> tab_get (Pivots M) pivot_j;
          val_i \<leftarrow> tab_get d (AllocatedColumns (Matrix M) * row_j + pivot_i);
          pivots \<leftarrow> (if pivot_i \<noteq> pivot_j then swap_pivots pivot_i pivot_j (Pivots M) else Some (Pivots M));
          (pivotColumnCount, M) \<leftarrow> mark_used row_j (M\<lparr>Pivots := pivots\<rparr>);
          (if pivot_i \<ge> minus32 columns 1 then Some (True, M)
           else do {
             M \<leftarrow> eliminate_below gf row_j pivot_i pivotColumnCount val_i M;
             (if pivot_i + 1 < columns then pivoted_loop gf columns (pivot_i + 1) (pivot_i + 1) M else Some (True, M)) }) }) }"
  by pat_completeness auto
termination by (relation "measure (\<lambda>(gf, columns, i, j, M). columns - i)") auto

declare pivoted_loop.simps [simp del]

definition PivotedGaussianElimination :: "gf256_state \<Rightarrow> nat \<Rightarrow> RecoveryMatrixState \<Rightarrow> (bool \<times> RecoveryMatrixState) option" where
  "PivotedGaussianElimination gf pivot_i M = pivoted_loop gf (mColumns (Matrix M)) pivot_i (pivot_i + 1) M"

definition eliminate_plain :: "gf256_state \<Rightarrow> nat \<Rightarrow> nat \<Rightarrow> u8 \<Rightarrow> RecoveryMatrixState \<Rightarrow> RecoveryMatrixState option" where
  "eliminate_plain gf pivot_i pivotColumnCount val_i M = do {
     d \<leftarrow> mData (Matrix M);
     let stride = AllocatedColumns (Matrix M);
     d \<leftarrow> for_range (pivot_i + 1) (mRows (Matrix M)) (\<lambda>pivot_j d. do {
         (_, d) \<leftarrow> EliminateRow gf (stride * pivot_i) (stride * pivot_j) pivot_i pivotColumnCount val_i d;
         Some d }) d;
     Some (M\<lparr>Matrix := (Matrix M)\<lparr>mData := Some d\<rparr>\<rparr>) }"

function plain_loop :: "gf256_state \<Rightarrow> nat \<Rightarrow> nat \<Rightarrow> RecoveryMatrixState \<Rightarrow> (bool \<times> RecoveryMatrixState) option" where
  "plain_loop gf columns pivot_i M =
     (if pivot_i < columns then do {
        val_i \<leftarrow> Matrix_Get pivot_i pivot_i (Matrix M);
        (if val_i = 0 then PivotedGaussianElimination gf pivot_i M
         else do {
           (pivotColumnCount, M) \<leftarrow> mark_used pivot_i M;
           M \<leftarrow> eliminate_plain gf pivot_i pivotColumnCount val_i M;
           plain_loop gf columns (pivot_i + 1) M }) }
      else Some (True, M))"
  by pat_completeness auto
termination by (relation "measure (\<lambda>(gf, columns, i, M). columns - i)") auto

declare plain_loop.simps [simp del]

definition GaussianElimination :: "gf256_state \<Rightarrow> RecoveryMatrixState \<Rightarrow> (bool \<times> RecoveryMatrixState) option" where
  "GaussianElimination gf M =
     (if GEResumePivot M > 0 then PivotedGaussianElimination gf (GEResumePivot M) M
      else plain_loop gf (mColumns (Matrix M)) 0 M)"

end
