(* ===== verification/Decoder_Recovery.thy ===== *)
theory Decoder_Recovery
  imports Decoder_Matrix Siamese_Acks
begin

text \<open>
  The operations of the FEC decoder (\<open>SiameseDecoder.cpp\<close>): original and recovery packets are added, the region that can be solved is
  found, received data is eliminated from the recovery packets, the system is solved, and
  acknowledgements are generated.  The functions of \<open>siamese.cpp\<close> check their arguments and forward.
\<close>

unbundle bit_operations_syntax

section \<open>Adding packets\<close>

definition set_window :: "DecoderPacketWindow \<Rightarrow> Decoder \<Rightarrow> Decoder" where
  "set_window w D = D\<lparr>dWindow := w\<rparr>"

definition delete_packets :: "Decoder \<Rightarrow> Decoder" where
  "delete_packets D = D\<lparr>RecoveryPackets := DeletePacketsBefore (NextExpectedElement (dWindow D)) (RecoveryPackets D)\<rparr>"

text \<open>An element that arrives inside of the checked region invalidates it.\<close>

definition check_region :: "nat \<Rightarrow> Decoder \<Rightarrow> Decoder" where
  "check_region element D =
     (if element \<ge> cElementStart (CheckedRegion D) \<and> element < NextCheckStart (CheckedRegion D) then CheckedRegion_Reset D else D)"

definition AddOriginal :: "memory \<Rightarrow> SiameseOriginalPacket \<Rightarrow> Decoder \<Rightarrow> (SiameseResult \<times> Decoder) option" where
  "AddOriginal mem packet D =
     (let w = dWindow D; element = dColumnToElement w (PacketNum packet) in
      if dEmergencyDisabled w then Some (Siamese_Disabled, D)
      else if IsColumnDeltaNegative (of_nat element) then Some (Siamese_DuplicateData, dcount_stat SiameseDecoderStats_DupedOriginalCount 1 D)
      else let (ok, w) = GrowWindow mem (element + 1) w in
      if \<not> ok then Some (Siamese_Disabled, Disable (set_window w D))
      else do {
        orig \<leftarrow> dGetWindowElement w element;
        (if Bytes (Buffer orig) > 0 then Some (Siamese_DuplicateData, dcount_stat SiameseDecoderStats_DupedOriginalCount 1 (set_window w D))
         else do {
           let (block, w) = dnext_block mem w;
           (n, orig) \<leftarrow> Original_Initialize block packet orig;
           w \<leftarrow> dPutWindowElement element orig w;
           (if n = 0 then Some (Siamese_Disabled, Disable (set_window w D))
            else do {
              w \<leftarrow> mark_got element w;
              D \<leftarrow> (if element = NextExpectedElement w then do {
                      w \<leftarrow> IterateNextExpectedElement (element + 1) w;
                      Some (delete_packets (set_window w D)) }
                    else Some (set_window w D));
              let D = check_region element D;
              let D = dcount_stat SiameseDecoderStats_OriginalCount 1 D;
              let D = dcount_stat SiameseDecoderStats_OriginalBytes (length (PacketData packet)) D;
              Some (Siamese_Success, D) }) }) })"

text \<open>A vector that a packet or column is appended to.\<close>

definition append_vec :: "memory \<Rightarrow> 'a \<Rightarrow> 'a list \<Rightarrow> DecoderPacketWindow \<Rightarrow> bool \<times> 'a list \<times> DecoderPacketWindow" where
  "append_vec mem x xs w = (let (block, w) = dnext_block mem w in if block = None then (False, xs, w) else (True, xs @ [x], w))"

definition AddSingleRecovery :: "memory \<Rightarrow> gf256_state \<Rightarrow> bytes \<Rightarrow> RecoveryMetadata \<Rightarrow> nat \<Rightarrow> Decoder \<Rightarrow> (bool \<times> Decoder) option" where
  "AddSingleRecovery mem gf packet metadata footerSize D = (let w = dWindow D; element = dColumnToElement w (ColumnStart metadata) in
     if dInvalidElement w element then Some (False, D)
     else do {
       orig \<leftarrow> dGetWindowElement w element;
       (if Bytes (Buffer orig) \<noteq> 0 then Some (True, D)
        else do {
          let lengthPlusDataBytes = length packet - footerSize;
          r \<leftarrow> DeserializeHeader_PacketLength packet 0 lengthPlusDataBytes;
          (case r of
             ParseError \<Rightarrow> Some (False, D)
           | Parsed headerBytes lengthCheck \<Rightarrow>
               if lengthCheck = 0 \<or> unat lengthCheck + headerBytes \<noteq> lengthPlusDataBytes then Some (False, D)
               else do {
                 let original = \<lparr> PacketNum = ColumnStart metadata, PacketData = slice packet headerBytes (unat lengthCheck) \<rparr>;
                 let (block, w) = dnext_block mem w;
                 (n, orig) \<leftarrow> Original_Initialize block original orig;
                 w \<leftarrow> dPutWindowElement element orig w;
                 (if n = 0 then Some (False, set_window w D)
                  else do {
                    let w = (if HasRecoveredPackets w then w else w\<lparr>HasRecoveredPackets := True, RecoveredPackets := []\<rparr>);
                    let (ok, ps, w) = append_vec mem original (RecoveredPackets w) w;
                    let w = w\<lparr>RecoveredPackets := ps\<rparr>;
                    (if \<not> ok then Some (False, set_window w D)
                     else do {
                       let (ok, cs, w) = append_vec mem (ColumnStart metadata) (RecoveredColumns w) w;
                       let w = w\<lparr>RecoveredColumns := cs\<rparr>;
                       (if \<not> ok then Some (False, set_window w D)
                        else do {
                          let D = check_region element (set_window w D);
                          (expected, w) \<leftarrow> MarkGotColumn (ColumnStart metadata) w;
                          let D = set_window w D;
                          (if expected then do {
                             w \<leftarrow> IterateNextExpectedElement (element + 1) w;
                             let D = delete_packets (set_window w D);
                             D \<leftarrow> (if NextCheckStart (CheckedRegion D) \<ge> kDecoderRemoveThreshold then dRemoveElements mem gf D else Some D);
                             Some (True, D) }
                           else Some (True, D)) }) }) }) }) }) })"

definition ignore_recovery :: "Decoder \<Rightarrow> (SiameseResult \<times> Decoder) option" where
  "ignore_recovery D = Some (Siamese_Success, dcount_stat SiameseDecoderStats_DupedRecoveryCount 1 D)"

text \<open>The packet object that is put into the list.\<close>

definition insert_recovery :: "memory \<Rightarrow> gf256_state \<Rightarrow> bytes \<Rightarrow> RecoveryMetadata \<Rightarrow> nat \<Rightarrow> bool \<Rightarrow> nat \<Rightarrow> nat \<Rightarrow> Decoder \<Rightarrow> (SiameseResult \<times> Decoder) option" where
  "insert_recovery mem gf packet metadata footerSize outOfOrder elementStart elementEnd D = do {
     let recoveryBytes = length packet - footerSize;
     let (block, w) = dnext_block mem (dWindow D);
     (if block = None then Some (Siamese_Disabled, Disable (set_window w D))
      else do {
        let (block, w) = dnext_block mem w;
        let D = set_window w D;
        let (ok, b) = buf_Initialize block recoveryBytes;
        (if \<not> ok then Some (Siamese_Disabled, Disable D)
         else do {
           d \<leftarrow> Data b;
           d \<leftarrow> memcpy_at d 0 (take recoveryBytes packet);
           let recovery = \<lparr> rId = PacketIds D, rMetadata = metadata, rElementStart = elementStart, rElementEnd = elementEnd, rLostCount = 0, rBuffer = b\<lparr>Data := Some d\<rparr> \<rparr>;
           let D = List_Insert recovery outOfOrder (D\<lparr>PacketIds := PacketIds D + 1\<rparr>);
           D \<leftarrow> (if elementStart \<ge> kDecoderRemoveThreshold then dRemoveElements mem gf D else Some D);
           Some (Siamese_Success, D) }) }) }"

definition accept_recovery :: "memory \<Rightarrow> gf256_state \<Rightarrow> bytes \<Rightarrow> RecoveryMetadata \<Rightarrow> nat \<Rightarrow> bool \<Rightarrow> nat \<Rightarrow> nat \<Rightarrow> Decoder \<Rightarrow> (SiameseResult \<times> Decoder) option" where
  "accept_recovery mem gf packet metadata footerSize outOfOrder elementStart elementEnd D = (
     let (ok, w) = GrowWindow mem elementEnd (dWindow D); D = set_window w D in
     if \<not> ok then Some (Siamese_Disabled, Disable D)
     else if SumCount metadata = 1 then do {
       (ok, D) \<leftarrow> AddSingleRecovery mem gf packet metadata footerSize D;
       Some (if ok then (Siamese_Success, D) else (Siamese_Disabled, Disable D)) }
     else insert_recovery mem gf packet metadata footerSize outOfOrder elementStart elementEnd D)"

definition AddRecovery :: "memory \<Rightarrow> gf256_state \<Rightarrow> bytes \<Rightarrow> Decoder \<Rightarrow> (SiameseResult \<times> Decoder) option" where
  "AddRecovery mem gf packet D =
     (if dEmergencyDisabled (dWindow D) then Some (Siamese_Disabled, D)
      else do {
        r \<leftarrow> DeserializeFooter_RecoveryMetadata packet 0 (length packet);
        (case r of
           ParseError \<Rightarrow> Some (Siamese_Disabled, Disable D)
         | Parsed footerSize metadata \<Rightarrow>
             let D = dcount_stat SiameseDecoderStats_RecoveryBytes (length packet) (dcount_stat SiameseDecoderStats_RecoveryCount 1 D);
                 outOfOrder = IsColumnDeltaNegative (ColumnStart metadata + SumCount metadata - LatestColumn D);
                 D = (if outOfOrder then D else D\<lparr>LatestColumn := (ColumnStart metadata + SumCount metadata) mod kColumnPeriod\<rparr>);
                 w = dWindow D in
             if dCount w \<le> 0 then
               (if outOfOrder then ignore_recovery D
                else accept_recovery mem gf packet metadata footerSize outOfOrder (unat (SumCount metadata) - unat (LDPCCount metadata)) (unat (SumCount metadata))
                       (set_window (w\<lparr>dColumnStart := ColumnStart metadata\<rparr>) D))
             else
               let elementEnd = dColumnToElement w (ColumnStart metadata + SumCount metadata) in
               if IsColumnDeltaNegative (of_nat elementEnd) then ignore_recovery D
               else if elementEnd < unat (LDPCCount metadata) then ignore_recovery D
               else
                 let elementStart = elementEnd - unat (LDPCCount metadata) in
                 if elementEnd \<le> NextExpectedElement w then
                   (if outOfOrder then ignore_recovery D
                    else if elementStart \<ge> kDecoderRemoveThreshold then do {
                      D \<leftarrow> dRemoveElements mem gf (D\<lparr>RecoveryPackets := (RecoveryPackets D)\<lparr>LastRecoveryMetadata := metadata, LastRecoveryBytes := length packet - footerSize\<rparr>\<rparr>);
                      ignore_recovery D }
                    else ignore_recovery D)
                 else if unat (SumCount metadata) > SIAMESE_CAUCHY_THRESHOLD \<and> (SumColumnCount w = 0 \<or> dSumColumnStart w \<noteq> ColumnStart metadata)
                         \<and> dInvalidElement w (dColumnToElement w (ColumnStart metadata)) then ignore_recovery D
                 else accept_recovery mem gf packet metadata footerSize outOfOrder elementStart elementEnd D) })"

section \<open>The checked region\<close>

definition recoveries_after :: "nat \<Rightarrow> RecoveryPacketList \<Rightarrow> RecoveryPacket list option" where
  "recoveries_after i l = (case dropWhile (\<lambda>r. rId r \<noteq> i) (Packets l) of [] \<Rightarrow> None | _ # rest \<Rightarrow> Some rest)"

text \<open>The next recovery packet joins the region: its losses are counted, and the region ends where it ends.\<close>

definition join_region :: "DecoderPacketWindow \<Rightarrow> RecoveryPacket \<Rightarrow> RecoveryPacketList \<times> CheckedRegionState \<Rightarrow> (RecoveryPacketList \<times> CheckedRegionState) option" where
  "join_region w r = (\<lambda>(l, c). do {
     let elementEnd = (if rElementEnd r < NextCheckStart c then NextCheckStart c else rElementEnd r);
     n \<leftarrow> RangeLostPackets w (NextCheckStart c) elementEnd;
     let lostCount = LostCount c + n;
     Some (put_recovery (r\<lparr>rLostCount := lostCount\<rparr>) l,
           c\<lparr>LastRecovery := Some (rId r), NextCheckStart := elementEnd, RecoveryCount := RecoveryCount c + 1, LostCount := lostCount\<rparr>) })"

fun check_loop :: "DecoderPacketWindow \<Rightarrow> RecoveryPacket list \<Rightarrow> RecoveryPacketList \<times> CheckedRegionState \<Rightarrow> (RecoveryPacketList \<times> CheckedRegionState) option" where
  "check_loop w [] s = Some s"
| "check_loop w (r # rest) (l, c) =
     (if RecoveryCount c < LostCount c \<or> SolveFailed c then do {
        (l, c) \<leftarrow> join_region w r (l, c);
        check_loop w rest (l, c\<lparr>SolveFailed := False\<rparr>) }
      else Some (l, c))"

definition start_region :: "DecoderPacketWindow \<Rightarrow> RecoveryPacket \<Rightarrow> RecoveryPacketList \<times> CheckedRegionState \<Rightarrow> (RecoveryPacketList \<times> CheckedRegionState) option" where
  "start_region w r = (\<lambda>(l, c). do {
     lostCount \<leftarrow> RangeLostPackets w (rElementStart r) (rElementEnd r);
     Some (put_recovery (r\<lparr>rLostCount := lostCount\<rparr>) l,
           c\<lparr>FirstRecovery := Some (rId r), cElementStart := rElementStart r, SolveFailed := False,
             LastRecovery := Some (rId r), NextCheckStart := rElementEnd r, RecoveryCount := 1, LostCount := lostCount\<rparr>) })"

definition CheckRecoveryPossible :: "Decoder \<Rightarrow> (bool \<times> Decoder) option" where
  "CheckRecoveryPossible D =
     (let w = dWindow D; l = RecoveryPackets D; c = CheckedRegion D in
      if dEmergencyDisabled w then Some (False, D)
      else if LastRecovery c = None \<and> Packets l = [] then Some (False, D)
      else if LastRecovery c \<noteq> None \<and> RecoveryCount c \<ge> LostCount c \<and> \<not> SolveFailed c then Some (LostCount c \<le> kMaximumLossRecoveryCount, D)
      else do {
        (l, c) \<leftarrow> (case LastRecovery c of None \<Rightarrow> start_region w (hd (Packets l)) (l, c) | Some i \<Rightarrow> Some (l, c));
        i \<leftarrow> LastRecovery c;
        rest \<leftarrow> recoveries_after i l;
        (l, c) \<leftarrow> check_loop w rest (l, c);
        Some (LostCount c \<le> kMaximumLossRecoveryCount \<and> RecoveryCount c \<ge> LostCount c \<and> \<not> SolveFailed c,
              D\<lparr>RecoveryPackets := l, CheckedRegion := c\<rparr>) })"

definition IsReadyToDecode :: "Decoder \<Rightarrow> (SiameseResult \<times> Decoder) option" where
  "IsReadyToDecode D =
     (if HasRecoveredPackets (dWindow D) then Some (Siamese_Success, D)
      else do {
        (possible, D) \<leftarrow> CheckRecoveryPossible D;
        Some (if possible then Siamese_Success else Siamese_NeedMoreData, D) })"

section \<open>Elimination of received data\<close>

definition cauchy_eliminate :: "gf256_state \<Rightarrow> DecoderPacketWindow \<Rightarrow> RecoveryMetadata \<Rightarrow> nat \<Rightarrow> GrowingAlignedDataBuffer \<Rightarrow> GrowingAlignedDataBuffer option" where
  "cauchy_eliminate gf w metadata j b = do {
     orig \<leftarrow> dGetWindowElement w j;
     (if Bytes (Buffer orig) > 0 then do {
        let addBytes = (if Bytes (Buffer orig) > Bytes b then Bytes b else Bytes (Buffer orig));
        d \<leftarrow> Data b;
        x \<leftarrow> Data (Buffer orig);
        d \<leftarrow> (if Row metadata = 0 then gf256_add_mem (lib_arch gf) d x addBytes
              else do {
                y \<leftarrow> CauchyElement gf (unat (Row metadata - 1)) (unat (Column orig) mod kCauchyMaxColumns);
                gf256_muladd_mem (lib_arch gf) (lib_ctx gf) d y x addBytes });
        Some (b\<lparr>Data := Some d\<rparr>) }
      else Some b) }"

text \<open>Sums that start elsewhere or reach further are started again.\<close>

definition prepare_sums :: "memory \<Rightarrow> gf256_state \<Rightarrow> RecoveryMetadata \<Rightarrow> nat \<Rightarrow> DecoderPacketWindow \<Rightarrow> (bool \<times> DecoderPacketWindow) option" where
  "prepare_sums mem gf metadata recoveryBytes w = do {
     let sumElementStart = dColumnToElement w (ColumnStart metadata);
     (ok, w) \<leftarrow>
       (if ColumnStart metadata \<noteq> dSumColumnStart w \<or> SumCount metadata < SumColumnCount w then
          (if dInvalidElement w sumElementStart then Some (False, w)
           else Some (True, (dResetSums sumElementStart w)\<lparr>dSumColumnStart := ColumnStart metadata\<rparr>))
        else StartSums mem gf (if dInvalidElement w sumElementStart then 0 else sumElementStart) recoveryBytes w);
     Some (ok, if ok then w\<lparr>SumColumnCount := SumCount metadata\<rparr> else w) }"

definition add_dsum :: "memory \<Rightarrow> gf256_state \<Rightarrow> nat \<Rightarrow> nat \<Rightarrow> nat \<Rightarrow> nat \<Rightarrow> bytes \<times> DecoderPacketWindow \<Rightarrow> (bytes \<times> DecoderPacketWindow) option" where
  "add_dsum mem gf recoveryBytes elementEnd laneIndex sumIndex = (\<lambda>(d, w). do {
     (sm, w) \<leftarrow> dGetSum mem gf laneIndex sumIndex elementEnd w;
     (if Bytes sm > 0 then do {
        x \<leftarrow> Data sm;
        d \<leftarrow> gf256_add_mem (lib_arch gf) d x (if Bytes sm > recoveryBytes then recoveryBytes else Bytes sm);
        Some (d, w) }
      else Some (d, w)) })"

definition ddense_lane :: "memory \<Rightarrow> gf256_state \<Rightarrow> nat \<Rightarrow> nat \<Rightarrow> u32 \<Rightarrow> nat \<Rightarrow> bytes \<times> bytes \<times> DecoderPacketWindow \<Rightarrow> (bytes \<times> bytes \<times> DecoderPacketWindow) option" where
  "ddense_lane mem gf recoveryBytes elementEnd row laneIndex = (\<lambda>(recovery, product, w). do {
     let opcode = GetRowOpcode (of_nat laneIndex) row;
     (recovery, w) \<leftarrow> for_range 0 kColumnSumCount (\<lambda>sumIndex s.
        if opcode AND push_bit sumIndex 1 \<noteq> 0 then add_dsum mem gf recoveryBytes elementEnd laneIndex sumIndex s else Some s) (recovery, w);
     (product, w) \<leftarrow> for_range 0 kColumnSumCount (\<lambda>sumIndex s.
        if opcode AND push_bit (kColumnSumCount + sumIndex) 1 \<noteq> 0 then add_dsum mem gf recoveryBytes elementEnd laneIndex sumIndex s else Some s) (product, w);
     Some (recovery, product, w) })"

definition light_add :: "gf256_state \<Rightarrow> DecoderPacketWindow \<Rightarrow> nat \<Rightarrow> nat \<Rightarrow> bytes \<Rightarrow> bytes option" where
  "light_add gf w recoveryBytes element d = do {
     orig \<leftarrow> dGetWindowElement w element;
     (if Bytes (Buffer orig) > 0 then do {
        x \<leftarrow> Data (Buffer orig);
        gf256_add_mem (lib_arch gf) d x (if Bytes (Buffer orig) > recoveryBytes then recoveryBytes else Bytes (Buffer orig)) }
      else Some d) }"

definition dlight_pair :: "gf256_state \<Rightarrow> DecoderPacketWindow \<Rightarrow> RecoveryMetadata \<Rightarrow> nat \<Rightarrow> nat \<Rightarrow> nat \<Rightarrow> bytes \<times> bytes \<times> PCGRandom \<Rightarrow> (bytes \<times> bytes \<times> PCGRandom) option" where
  "dlight_pair gf w metadata recoveryBytes elementStart i = (\<lambda>(recovery, product, prng). do {
     let (r1, prng) = Next prng;
     recovery \<leftarrow> light_add gf w recoveryBytes (elementStart + unat (r1 mod LDPCCount metadata)) recovery;
     let (rx, prng) = Next prng;
     product \<leftarrow> light_add gf w recoveryBytes (elementStart + unat (rx mod LDPCCount metadata)) product;
     Some (recovery, product, prng) })"

definition siamese_eliminate :: "memory \<Rightarrow> gf256_state \<Rightarrow> RecoveryPacket \<Rightarrow> Decoder \<Rightarrow> (bool \<times> Decoder) option" where
  "siamese_eliminate mem gf recovery D = do {
     let metadata = rMetadata recovery;
     let recoveryBytes = Bytes (rBuffer recovery);
     let (block, w) = dnext_block mem (dWindow D);
     let (ok, p) = buf_Initialize block recoveryBytes;
     (if \<not> ok then Some (False, (set_window w D)\<lparr>ProductSum := p\<rparr>)
      else do {
        product \<leftarrow> Data p;
        product \<leftarrow> memset0 product 0 recoveryBytes;
        (ok, w) \<leftarrow> prepare_sums mem gf metadata recoveryBytes w;
        (if \<not> ok then Some (False, (set_window w D)\<lparr>ProductSum := p\<lparr>Data := Some product\<rparr>\<rparr>)
         else do {
           d \<leftarrow> Data (rBuffer recovery);
           (d, product, w) \<leftarrow> for_range 0 lanes (ddense_lane mem gf recoveryBytes (rElementEnd recovery) (Row metadata)) (d, product, w);
           let prng = Seed (ucast (Row metadata)) (ucast (LDPCCount metadata));
           let pairCount = (unat (LDPCCount metadata) + kPairAddRate - 1) div kPairAddRate;
           (d, product, _) \<leftarrow> for_range 0 pairCount (dlight_pair gf w metadata recoveryBytes (rElementStart recovery)) (d, product, prng);
           let RX = GetRowValue (Row metadata);
           d \<leftarrow> gf256_muladd_mem (lib_arch gf) (lib_ctx gf) d RX product recoveryBytes;
           let D = (set_window w D)\<lparr>ProductSum := p\<lparr>Data := Some product\<rparr>,
              RecoveryPackets := put_recovery (recovery\<lparr>rBuffer := (rBuffer recovery)\<lparr>Data := Some d\<rparr>\<rparr>) (RecoveryPackets D)\<rparr>;
           Some (True, D) }) }) }"

definition eliminate_row_data :: "memory \<Rightarrow> gf256_state \<Rightarrow> nat \<Rightarrow> bool \<times> Decoder \<Rightarrow> (bool \<times> Decoder) option" where
  "eliminate_row_data mem gf matrixRowIndex = (\<lambda>(ok, D).
     if \<not> ok then Some (False, D)
     else do {
       row \<leftarrow> tab_get (Rows (RecoveryMatrix D)) matrixRowIndex;
       (if \<not> UsedForSolution row then Some (True, D)
        else do {
          recovery \<leftarrow> find_recovery (Recovery row) (RecoveryPackets D);
          (if unat (SumCount (rMetadata recovery)) \<le> SIAMESE_CAUCHY_THRESHOLD then do {
             b \<leftarrow> for_range (rElementStart recovery) (rElementEnd recovery) (cauchy_eliminate gf (dWindow D) (rMetadata recovery)) (rBuffer recovery);
             Some (True, D\<lparr>RecoveryPackets := put_recovery (recovery\<lparr>rBuffer := b\<rparr>) (RecoveryPackets D)\<rparr>) }
           else siamese_eliminate mem gf recovery D) }) })"

definition EliminateOriginalData :: "memory \<Rightarrow> gf256_state \<Rightarrow> Decoder \<Rightarrow> (bool \<times> Decoder) option" where
  "EliminateOriginalData mem gf D = do {
     (ok, D) \<leftarrow> for_range 0 (RecoveryCount (CheckedRegion D)) (eliminate_row_data mem gf) (True, D);
     Some (ok \<and> \<not> dEmergencyDisabled (dWindow D), D) }"

section \<open>Solution\<close>

text \<open>The buffer of the recovery packet of a row.\<close>

definition row_packet :: "Decoder \<Rightarrow> nat \<Rightarrow> RecoveryPacket option" where
  "row_packet D matrixRowIndex = do {
     row \<leftarrow> tab_get (Rows (RecoveryMatrix D)) matrixRowIndex;
     find_recovery (Recovery row) (RecoveryPackets D) }"

definition put_row_buffer :: "RecoveryPacket \<Rightarrow> GrowingAlignedDataBuffer \<Rightarrow> Decoder \<Rightarrow> Decoder" where
  "put_row_buffer r b D = D\<lparr>RecoveryPackets := put_recovery (r\<lparr>rBuffer := b\<rparr>) (RecoveryPackets D)\<rparr>"

definition lower_step :: "memory \<Rightarrow> gf256_state \<Rightarrow> nat \<Rightarrow> bytes \<Rightarrow> nat \<Rightarrow> nat \<Rightarrow> bool \<times> Decoder \<Rightarrow> (bool \<times> Decoder) option" where
  "lower_step mem gf col_i srcData srcBytes col_j = (\<lambda>(ok, D).
     if \<not> ok then Some (False, D)
     else do {
       row_j \<leftarrow> tab_get (Pivots (RecoveryMatrix D)) col_j;
       y \<leftarrow> Matrix_Get row_j col_i (Matrix (RecoveryMatrix D));
       (if y = 0 then Some (True, D)
        else do {
          r \<leftarrow> row_packet D row_j;
          let (block, w) = dnext_block mem (dWindow D);
          (ok, b) \<leftarrow> GrowZeroPadded block srcBytes (rBuffer r);
          (if \<not> ok then Some (False, put_row_buffer r b (set_window w D))
           else do {
             d \<leftarrow> Data b;
             d \<leftarrow> gf256_muladd_mem (lib_arch gf) (lib_ctx gf) d y srcData srcBytes;
             Some (True, put_row_buffer r (b\<lparr>Data := Some d\<rparr>) (set_window w D)) }) }) })"

definition lower_column :: "memory \<Rightarrow> gf256_state \<Rightarrow> nat \<Rightarrow> nat \<Rightarrow> bool \<times> Decoder \<Rightarrow> (bool \<times> Decoder) option" where
  "lower_column mem gf columns col_i = (\<lambda>(ok, D).
     if \<not> ok then Some (False, D)
     else do {
       row_i \<leftarrow> tab_get (Pivots (RecoveryMatrix D)) col_i;
       r \<leftarrow> row_packet D row_i;
       srcData \<leftarrow> Data (rBuffer r);
       for_range (col_i + 1) columns (lower_step mem gf col_i srcData (Bytes (rBuffer r))) (True, D) })"

definition MultiplyLowerTriangle :: "memory \<Rightarrow> gf256_state \<Rightarrow> Decoder \<Rightarrow> (bool \<times> Decoder) option" where
  "MultiplyLowerTriangle mem gf D = (let columns = LostCount (CheckedRegion D)
     in for_range 0 (minus32 columns 1) (lower_column mem gf columns) (True, D))"

definition get_original :: "nat \<times> nat \<Rightarrow> DecoderPacketWindow \<Rightarrow> OriginalPacket option" where
  "get_original = (\<lambda>(p, i) w. do { s \<leftarrow> tab_get (Blocks w) p; tab_get (dOriginals s) i })"

definition put_original :: "nat \<times> nat \<Rightarrow> OriginalPacket \<Rightarrow> DecoderPacketWindow \<Rightarrow> DecoderPacketWindow option" where
  "put_original = (\<lambda>(p, i) orig w. do {
     s \<leftarrow> tab_get (Blocks w) p;
     os \<leftarrow> tab_set (dOriginals s) i orig;
     bs \<leftarrow> tab_set (Blocks w) p (s\<lparr>dOriginals := os\<rparr>);
     Some (w\<lparr>Blocks := bs\<rparr>) })"

definition upper_step :: "gf256_state \<Rightarrow> nat \<Rightarrow> bytes \<Rightarrow> nat \<Rightarrow> nat \<Rightarrow> Decoder \<Rightarrow> Decoder option" where
  "upper_step gf col_i buffer bufferBytes col_j D = do {
     pivot_j \<leftarrow> tab_get (Pivots (RecoveryMatrix D)) col_j;
     x \<leftarrow> Matrix_Get pivot_j col_i (Matrix (RecoveryMatrix D));
     (if x = 0 then Some D
      else do {
        r \<leftarrow> row_packet D pivot_j;
        d \<leftarrow> Data (rBuffer r);
        d \<leftarrow> gf256_muladd_mem (lib_arch gf) (lib_ctx gf) d x buffer (if bufferBytes > Bytes (rBuffer r) then Bytes (rBuffer r) else bufferBytes);
        Some (put_row_buffer r ((rBuffer r)\<lparr>Data := Some d\<rparr>) D) }) }"

text \<open>The data of a column: its first bytes give the length, which tells how much more has to be divided by the pivot.\<close>

definition reveal :: "gf256_state \<Rightarrow> u8 \<Rightarrow> GrowingAlignedDataBuffer \<Rightarrow> (bytes \<times> nat \<times> nat) option option" where
  "reveal gf inv_y b = do {
     d \<leftarrow> Data b;
     let lengthCheckBytes = (if kAlignmentBytes > Bytes b then Bytes b else kAlignmentBytes);
     d \<leftarrow> gf256_mul_mem (lib_arch gf) (lib_ctx gf) d d inv_y lengthCheckBytes;
     r \<leftarrow> DeserializeHeader_PacketLength d 0 lengthCheckBytes;
     (case r of
        ParseError \<Rightarrow> Some None
      | Parsed headerBytes len \<Rightarrow>
          if len = 0 \<or> headerBytes + unat len > Bytes b then Some None
          else do {
            let bufferBytes = headerBytes + unat len;
            d \<leftarrow> (if bufferBytes > lengthCheckBytes then do {
                t \<leftarrow> gf256_mul_mem (lib_arch gf) (lib_ctx gf) (drop lengthCheckBytes d) (drop lengthCheckBytes d) inv_y (bufferBytes - lengthCheckBytes);
                Some (take lengthCheckBytes d @ t) }
              else Some d);
            Some (Some (d, headerBytes, unat len)) }) }"

definition back_column :: "memory \<Rightarrow> gf256_state \<Rightarrow> nat \<Rightarrow> bool \<times> bool \<times> Decoder \<Rightarrow> (bool \<times> bool \<times> Decoder) option" where
  "back_column mem gf col_i = (\<lambda>(ok, iterateNextExpected, D).
     if \<not> ok then Some (False, iterateNextExpected, D)
     else do {
       let M = RecoveryMatrix D;
       matrixRowIndex \<leftarrow> tab_get (Pivots M) col_i;
       c \<leftarrow> tab_get (Columns M) col_i;
       orig \<leftarrow> get_original (colOriginal c) (dWindow D);
       recovery \<leftarrow> row_packet D matrixRowIndex;
       y \<leftarrow> Matrix_Get matrixRowIndex col_i (Matrix M);
       inv_y \<leftarrow> gf256_inv (lib_ctx gf) y;
       v \<leftarrow> reveal gf inv_y (rBuffer recovery);
       (case v of
          None \<Rightarrow> Some (False, iterateNextExpected, Disable D)
        | Some (buffer, headerBytes, len) \<Rightarrow> do {
            let bufferBytes = headerBytes + len;
            w \<leftarrow> put_original (colOriginal c) \<lparr> Buffer = \<lparr> Data = Some buffer, Bytes = bufferBytes \<rparr>, Column = colColumn c, HeaderBytes = headerBytes \<rparr> (dWindow D);
            let D = put_row_buffer recovery \<lparr> Data = Data (Buffer orig), Bytes = 0 \<rparr> (set_window w D);
            ps \<leftarrow> tab_set (RecoveredPackets w) col_i \<lparr> PacketNum = colColumn c, PacketData = slice buffer headerBytes len \<rparr>;
            let (ok, cs, w) = append_vec mem (colColumn c) (RecoveredColumns w) (w\<lparr>RecoveredPackets := ps\<rparr>);
            let w = w\<lparr>RecoveredColumns := cs\<rparr>;
            (if \<not> ok then Some (False, iterateNextExpected, Disable (set_window w D))
             else do {
               (expected, w) \<leftarrow> MarkGotColumn (colColumn c) w;
               D \<leftarrow> for_range 0 col_i (upper_step gf col_i buffer bufferBytes) (set_window w D);
               Some (True, iterateNextExpected \<or> expected, D) }) }) })"

definition BackSubstitution :: "memory \<Rightarrow> gf256_state \<Rightarrow> Decoder \<Rightarrow> (SiameseResult \<times> Decoder) option" where
  "BackSubstitution mem gf D = do {
     let columns = LostCount (CheckedRegion D);
     let (ps, w) = resize_vec mem columns \<lparr> PacketNum = 0, PacketData = [] \<rparr> (RecoveredPackets (dWindow D)) (dWindow D);
     (ok, iterateNextExpected, D) \<leftarrow> for_each (back_column mem gf) (rev [0..<columns]) (True, False, set_window (w\<lparr>RecoveredPackets := ps\<rparr>) D);
     (if \<not> ok then Some (Siamese_Disabled, D)
      else if \<not> iterateNextExpected then Some (Siamese_Disabled, Disable D)
      else do {
        w \<leftarrow> IterateNextExpectedElement (NextCheckStart (CheckedRegion D)) (dWindow D);
        let D = delete_packets (set_window w D);
        D \<leftarrow> (if NextCheckStart (CheckedRegion D) \<ge> kDecoderRemoveThreshold then dRemoveElements mem gf D else Some D);
        Some (Siamese_Success, dcount_stat SiameseDecoderStats_SolveSuccessCount 1 D) }) }"

definition DecodeCheckedRegion :: "memory \<Rightarrow> gf256_state \<Rightarrow> Decoder \<Rightarrow> (SiameseResult \<times> Decoder) option" where
  "DecodeCheckedRegion mem gf D = do {
     (ok, D) \<leftarrow> GenerateMatrix mem gf D;
     (if \<not> ok then Some (Siamese_Disabled, Disable D)
      else do {
        (ok, M) \<leftarrow> GaussianElimination gf (RecoveryMatrix D);
        let D = D\<lparr>RecoveryMatrix := M\<rparr>;
        (if \<not> ok then Some (Siamese_NeedMoreData, dcount_stat SiameseDecoderStats_SolveFailCount 1 (D\<lparr>CheckedRegion := (CheckedRegion D)\<lparr>SolveFailed := True\<rparr>\<rparr>))
         else do {
           (ok, D) \<leftarrow> EliminateOriginalData mem gf D;
           (if \<not> ok then Some (Siamese_Disabled, Disable D)
            else do {
              (ok, D) \<leftarrow> MultiplyLowerTriangle mem gf D;
              (if \<not> ok then Some (Siamese_Disabled, Disable D)
               else do {
                 (solveResult, D) \<leftarrow> BackSubstitution mem gf D;
                 Some (solveResult, CheckedRegion_Reset D) }) }) }) }) }"

text \<open>The loop of \<open>Decode\<close>.  The counts that it carries go into the checked region only after the loop.\<close>

fun decode_loop :: "memory \<Rightarrow> gf256_state \<Rightarrow> RecoveryPacket list \<Rightarrow> CheckedRegionState \<Rightarrow> Decoder \<Rightarrow> (SiameseResult \<times> Decoder) option" where
  "decode_loop mem gf rest c D = do {
     (result, D) \<leftarrow> (if RecoveryCount c \<ge> LostCount c then DecodeCheckedRegion mem gf D else Some (Siamese_NeedMoreData, D));
     (if result \<noteq> Siamese_NeedMoreData then Some (result, D)
      else case rest of
        [] \<Rightarrow> Some (Siamese_NeedMoreData, D\<lparr>CheckedRegion := c\<lparr>SolveFailed := SolveFailed (CheckedRegion D), cElementStart := cElementStart (CheckedRegion D), FirstRecovery := FirstRecovery (CheckedRegion D)\<rparr>\<rparr>)
      | r # rest' \<Rightarrow> do {
          (l, c) \<leftarrow> join_region (dWindow D) r (RecoveryPackets D, c);
          decode_loop mem gf rest' c (D\<lparr>RecoveryPackets := l\<rparr>) }) }"

definition Decode :: "memory \<Rightarrow> gf256_state \<Rightarrow> Decoder \<Rightarrow> (SiameseResult \<times> SiameseOriginalPacket list \<times> Decoder) option" where
  "Decode mem gf D =
     (if dEmergencyDisabled (dWindow D) then Some (Siamese_Disabled, [], D)
      else if HasRecoveredPackets (dWindow D) then
        Some (Siamese_Success, RecoveredPackets (dWindow D), set_window ((dWindow D)\<lparr>HasRecoveredPackets := False\<rparr>) D)
      else do {
        (possible, D) \<leftarrow> CheckRecoveryPossible D;
        (if \<not> possible then Some (Siamese_NeedMoreData, [], D)
         else do {
           i \<leftarrow> LastRecovery (CheckedRegion D);
           rest \<leftarrow> recoveries_after i (RecoveryPackets D);
           (result, D) \<leftarrow> decode_loop mem gf rest (CheckedRegion D) D;
           Some (result, if result = Siamese_Success then RecoveredPackets (dWindow D) else [], D) }) })"

section \<open>Acknowledgements, access and statistics\<close>

lemma SerializeHeader_NACKLossRange_pos: "SerializeHeader_NACKLossRange v b off = Some (b', n) \<Longrightarrow> 0 < n"
  by (auto simp: SerializeHeader_NACKLossRange_def Let_def split: prod.splits if_splits Option.bind_splits)

function ack_ranges :: "DecoderPacketWindow \<Rightarrow> nat \<Rightarrow> nat \<Rightarrow> bytes \<times> nat \<Rightarrow> (bytes \<times> nat) option" where
  "ack_ranges w byteLimit rangeOffset (b, off) =
     (if byteLimit \<ge> kMaxLossRangeFieldBytes then do {
        rangeStart \<leftarrow> FindNextLostElement w rangeOffset;
        (if rangeStart \<ge> dCount w then
           (if dCount w \<ge> rangeOffset then do {
              (b, n) \<leftarrow> SerializeHeader_NACKLossRange (of_nat (dCount w - rangeOffset), 0) b off;
              Some (b, off + n) }
            else Some (b, off))
         else do {
           rangeEnd \<leftarrow> FindNextGotElement w (rangeStart + 1);
           v \<leftarrow> Some (of_nat (minus32 rangeStart rangeOffset), of_nat (minus32 rangeEnd (rangeStart + 1)));
           (case SerializeHeader_NACKLossRange v b off of
              None \<Rightarrow> None
            | Some (b, n) \<Rightarrow> ack_ranges w (byteLimit - n) (rangeEnd + 1) (b, off + n)) }) }
      else Some (b, off))"
  by pat_completeness auto
termination
  by (relation "measure (\<lambda>(w, n, r, s). n)") (auto simp: kMaxLossRangeFieldBytes_def dest: SerializeHeader_NACKLossRange_pos)

declare ack_ranges.simps [simp del]

definition ack_done :: "bytes \<Rightarrow> nat \<Rightarrow> Decoder \<Rightarrow> SiameseResult \<times> bytes \<times> nat \<times> Decoder" where
  "ack_done buffer usedBytes D = (Siamese_Success, buffer, usedBytes,
     dcount_stat SiameseDecoderStats_AckBytes usedBytes (dcount_stat SiameseDecoderStats_AckCount 1 D))"

definition GenerateAcknowledgement :: "bytes \<Rightarrow> nat \<Rightarrow> Decoder \<Rightarrow> (SiameseResult \<times> bytes \<times> nat \<times> Decoder) option" where
  "GenerateAcknowledgement buffer byteLimit D =
     (let w = dWindow D in
      if dEmergencyDisabled w then Some (Siamese_Disabled, buffer, 0, D)
      else if dCount w = 0 then Some (Siamese_NeedMoreData, buffer, 0, D)
      else do {
        (buffer, headerBytes) \<leftarrow> SerializeHeader_PacketNum (dElementToColumn w (NextExpectedElement w)) buffer 0;
        (if dInvalidElement w (NextExpectedElement w) then Some (ack_done buffer headerBytes D)
         else do {
           (buffer, usedBytes) \<leftarrow> ack_ranges w (byteLimit - headerBytes) (NextExpectedElement w) (buffer, headerBytes);
           Some (ack_done buffer usedBytes D) }) })"

definition Decoder_Get :: "u32 \<Rightarrow> Decoder \<Rightarrow> (SiameseResult \<times> bytes option) option" where
  "Decoder_Get packetNum D =
     (let w = dWindow D; element = dColumnToElement w packetNum in
      if dEmergencyDisabled w then Some (Siamese_Disabled, None)
      else if dInvalidElement w element then Some (Siamese_NeedMoreData, None)
      else do {
        orig \<leftarrow> dGetWindowElement w element;
        (if Bytes (Buffer orig) \<le> 0 then Some (Siamese_NeedMoreData, None)
         else do {
           d \<leftarrow> Data (Buffer orig);
           let len = minus32 (Bytes (Buffer orig)) (HeaderBytes orig);
           (if HeaderBytes orig + len \<le> length d then Some (Siamese_Success, Some (slice d (HeaderBytes orig) len)) else None) }) })"

definition Decoder_GetStatistics :: "nat \<Rightarrow> nat \<Rightarrow> Decoder \<Rightarrow> u64 list \<times> Decoder" where
  "Decoder_GetStatistics memoryUsed statsCount D =
     (let statsCount = (if statsCount > SiameseDecoderStats_Count then SiameseDecoderStats_Count else statsCount);
          D = D\<lparr>dStats := (dStats D)[SiameseDecoderStats_MemoryUsed := of_nat memoryUsed]\<rparr>
      in (take statsCount (dStats D), D))"

section \<open>The interface\<close>

definition SIAMESE_ACK_MIN_BYTES :: nat where "SIAMESE_ACK_MIN_BYTES = 16"

text \<open>A null pointer is \<open>None\<close>.\<close>

definition siamese_decoder_create :: "bool \<Rightarrow> bool \<Rightarrow> Decoder option" where
  "siamese_decoder_create initialized new_ok = (if \<not> initialized then None else if new_ok then Some Decoder_init else None)"

definition siamese_decoder_add_original :: "memory \<Rightarrow> Decoder option \<Rightarrow> SiameseOriginalPacket option \<Rightarrow> (SiameseResult \<times> Decoder option) option" where
  "siamese_decoder_add_original mem decoder packet =
     (case (decoder, packet) of
        (Some D, Some p) \<Rightarrow>
          if length (PacketData p) \<le> 0 \<or> length (PacketData p) > SIAMESE_MAX_PACKET_BYTES \<or> PacketNum p > SIAMESE_PACKET_NUM_MAX
          then Some (Siamese_InvalidInput, decoder)
          else do { (r, D) \<leftarrow> AddOriginal mem p D; Some (r, Some D) }
      | _ \<Rightarrow> Some (Siamese_InvalidInput, decoder))"

definition siamese_decoder_add_recovery :: "memory \<Rightarrow> gf256_state \<Rightarrow> Decoder option \<Rightarrow> bytes option \<Rightarrow> (SiameseResult \<times> Decoder option) option" where
  "siamese_decoder_add_recovery mem gf decoder packet =
     (case (decoder, packet) of
        (Some D, Some p) \<Rightarrow>
          if length p \<le> 0 \<or> length p > SIAMESE_MAX_PACKET_BYTES then Some (Siamese_InvalidInput, decoder)
          else do { (r, D) \<leftarrow> AddRecovery mem gf p D; Some (r, Some D) }
      | _ \<Rightarrow> Some (Siamese_InvalidInput, decoder))"

definition siamese_decoder_get :: "Decoder option \<Rightarrow> u32 option \<Rightarrow> (SiameseResult \<times> bytes option) option" where
  "siamese_decoder_get decoder packetNum =
     (case (decoder, packetNum) of
        (Some D, Some n) \<Rightarrow> if n > SIAMESE_PACKET_NUM_MAX then Some (Siamese_InvalidInput, None) else Decoder_Get n D
      | _ \<Rightarrow> Some (Siamese_InvalidInput, None))"

definition siamese_decoder_is_ready :: "Decoder option \<Rightarrow> (SiameseResult \<times> Decoder option) option" where
  "siamese_decoder_is_ready decoder =
     (case decoder of None \<Rightarrow> Some (Siamese_InvalidInput, None)
      | Some D \<Rightarrow> do { (r, D) \<leftarrow> IsReadyToDecode D; Some (r, Some D) })"

definition siamese_decode :: "memory \<Rightarrow> gf256_state \<Rightarrow> Decoder option \<Rightarrow> bool \<Rightarrow> bool \<Rightarrow> (SiameseResult \<times> SiameseOriginalPacket list \<times> Decoder option) option" where
  "siamese_decode mem gf decoder packetsPtr countPtr =
     (case decoder of None \<Rightarrow> Some (Siamese_InvalidInput, [], None)
      | Some D \<Rightarrow>
          if packetsPtr \<noteq> countPtr then Some (Siamese_InvalidInput, [], decoder)
          else do { (r, ps, D) \<leftarrow> Decode mem gf D; Some (r, if packetsPtr then ps else [], Some D) })"

definition siamese_decoder_ack :: "Decoder option \<Rightarrow> bytes option \<Rightarrow> nat \<Rightarrow> (SiameseResult \<times> bytes \<times> nat \<times> Decoder option) option" where
  "siamese_decoder_ack decoder buffer byteLimit =
     (case (decoder, buffer) of
        (Some D, Some b) \<Rightarrow>
          if byteLimit < SIAMESE_ACK_MIN_BYTES then Some (Siamese_InvalidInput, b, 0, decoder)
          else do { (r, b, n, D) \<leftarrow> GenerateAcknowledgement b byteLimit D; Some (r, b, n, Some D) }
      | _ \<Rightarrow> Some (Siamese_InvalidInput, [], 0, decoder))"

definition siamese_decoder_stats :: "nat \<Rightarrow> Decoder option \<Rightarrow> nat \<Rightarrow> SiameseResult \<times> u64 list \<times> Decoder option" where
  "siamese_decoder_stats memoryUsed decoder statsCount =
     (case decoder of None \<Rightarrow> (Siamese_InvalidInput, [], None)
      | Some D \<Rightarrow>
          if statsCount \<le> 0 then (Siamese_InvalidInput, [], decoder)
          else let (st, D) = Decoder_GetStatistics memoryUsed statsCount D in (Siamese_Success, st, Some D))"

end
