(* ===== verification/Decoder_Window.thy ===== *)
theory Decoder_Window
  imports Decoder_Recovery
begin

text \<open>
  The bookkeeping of the window of the FEC decoder: bits and counts per subwindow stand for the set of received elements, and
  the operations that count losses and search for the next lost or received element agree with that set.
\<close>

unbundle bit_operations_syntax

section \<open>The set of received elements\<close>

lemma kSubwindowSize_eq [simp]: "kSubwindowSize = 64"
  by (simp add: kSubwindowSize_def kColumnLaneCount_def)

lemma lanes_eq [simp]: "lanes = 8"
  by (simp add: lanes_def kColumnLaneCount_def)

lemma minus32_le: "b \<le> a \<Longrightarrow> a < 2 ^ 32 \<Longrightarrow> minus32 a b = a - b"
proof -
  assume "b \<le> a" "a < 2 ^ 32"
  then obtain c where "a = b + c" "c < 2 ^ 32" using le_Suc_ex by fastforce
  then show ?thesis by (simp add: minus32_def add.assoc)
qed

definition sub_ok :: "DecoderSubwindow \<Rightarrow> bool" where
  "sub_ok s \<longleftrightarrow> length (dOriginals s) = 64 \<and> length (Got s) = 1 \<and> GotCount s = card (bits_of (Got s))"

definition blocks_ok :: "DecoderPacketWindow \<Rightarrow> bool" where
  "blocks_ok w \<longleftrightarrow> distinct (dSubwindows w) \<and> set (dSubwindows w) \<subseteq> {..<length (Blocks w)} \<and> (\<forall>s\<in>set (Blocks w). sub_ok s)"

definition room :: "DecoderPacketWindow \<Rightarrow> nat" where
  "room w = 64 * length (dSubwindows w)"

definition sub_at :: "DecoderPacketWindow \<Rightarrow> nat \<Rightarrow> DecoderSubwindow" where
  "sub_at w i = Blocks w ! (dSubwindows w ! i)"

definition got :: "DecoderPacketWindow \<Rightarrow> nat \<Rightarrow> bool" where
  "got w e \<longleftrightarrow> e < room w \<and> e mod 64 \<in> bits_of (Got (sub_at w (e div 64)))"

abbreviation lost_in :: "DecoderPacketWindow \<Rightarrow> nat \<Rightarrow> nat \<Rightarrow> nat set" where
  "lost_in w a b \<equiv> {e \<in> {a..<b}. \<not> got w e}"

lemma room_sub: "e < room w \<longleftrightarrow> e div 64 < length (dSubwindows w)"
  by (simp add: room_def div_less_iff_less_mult mult.commute)

lemma sub_at_ok:
  assumes "blocks_ok w" and "i < length (dSubwindows w)"
  shows "get_subwindow w i = Some (sub_at w i)" "sub_ok (sub_at w i)"
proof -
  have i: "dSubwindows w ! i < length (Blocks w)" using assms(1) nth_mem [OF assms(2)] unfolding blocks_ok_def by blast
  then show "get_subwindow w i = Some (sub_at w i)" using assms(2) by (simp add: get_subwindow_def sub_at_def)
  show "sub_ok (sub_at w i)" using assms(1) i by (simp add: blocks_ok_def sub_at_def)
qed

lemma got_bit: "b < 64 \<Longrightarrow> i < length (dSubwindows w) \<Longrightarrow> got w (64 * i + b) \<longleftrightarrow> b \<in> bits_of (Got (sub_at w i))"
  by (simp add: got_def room_sub)

lemma sub_bits: "sub_ok s \<Longrightarrow> bits_of (Got s) \<subseteq> {..<64}"
  using bits_of_bound(1) [of "Got s"] by (simp add: sub_ok_def)

section \<open>Counting losses\<close>

lemma card_lost_bits:
  assumes "blocks_ok w" and "i < length (dSubwindows w)" and "x \<le> y" and "y \<le> 64"
  shows "card (lost_in w (64 * i + x) (64 * i + y)) = y - x - card (bits_of (Got (sub_at w i)) \<inter> {x..<y})"
    and "card (bits_of (Got (sub_at w i)) \<inter> {x..<y}) \<le> y - x"
proof -
  let ?B = "bits_of (Got (sub_at w i)) \<inter> {x..<y}"
  have le: "?B \<subseteq> {x..<y}" by blast
  show "card ?B \<le> y - x" using card_mono [OF _ le] by simp
  have "lost_in w (64 * i + x) (64 * i + y) = (\<lambda>b. 64 * i + b) ` ({x..<y} - ?B)"
  proof (rule set_eqI)
    fix e
    show "e \<in> lost_in w (64 * i + x) (64 * i + y) \<longleftrightarrow> e \<in> (\<lambda>b. 64 * i + b) ` ({x..<y} - ?B)"
    proof
      assume e: "e \<in> lost_in w (64 * i + x) (64 * i + y)"
      then obtain b where b: "e = 64 * i + b" using le_Suc_ex [of "64 * i" e] by auto
      then have "b \<in> {x..<y}" "b \<notin> bits_of (Got (sub_at w i))" using e got_bit [OF _ assms(2), of b] assms(4) by auto
      then show "e \<in> (\<lambda>b. 64 * i + b) ` ({x..<y} - ?B)" using b by blast
    next
      assume "e \<in> (\<lambda>b. 64 * i + b) ` ({x..<y} - ?B)"
      then show "e \<in> lost_in w (64 * i + x) (64 * i + y)" using got_bit [OF _ assms(2)] assms(4) by auto
    qed
  qed
  then have "card (lost_in w (64 * i + x) (64 * i + y)) = card ({x..<y} - ?B)"
    using card_image [of "\<lambda>b. 64 * i + b" "{x..<y} - ?B"] by (simp add: inj_on_def)
  then show "card (lost_in w (64 * i + x) (64 * i + y)) = y - x - card ?B" using card_Diff_subset [OF _ le] by (simp add: finite_subset [OF le])
qed

lemma lost_split: "a \<le> b \<Longrightarrow> b \<le> c \<Longrightarrow> card (lost_in w a c) = card (lost_in w a b) + card (lost_in w b c)"
proof -
  assume "a \<le> b" "b \<le> c"
  then have "lost_in w a c = lost_in w a b \<union> lost_in w b c" by auto
  then show ?thesis by (simp add: card_Un_disjoint disjoint_iff)
qed

lemma whole_lost:
  assumes "blocks_ok w" and "i < length (dSubwindows w)"
  shows "minus32 64 (GotCount (sub_at w i)) = card (lost_in w (64 * i) (64 * Suc i))"
proof -
  have "bits_of (Got (sub_at w i)) \<inter> {0..<64} = bits_of (Got (sub_at w i))" using sub_bits [OF sub_at_ok(2) [OF assms]] by auto
  then show ?thesis using card_lost_bits [OF assms, of 0 64] sub_at_ok(2) [OF assms] by (simp add: sub_ok_def minus32_le add.commute)
qed

lemma count_whole:
  assumes "blocks_ok w" and "a \<le> b" and "b \<le> length (dSubwindows w)"
  shows "for_range a b (\<lambda>i n. do { s \<leftarrow> get_subwindow w i; Some (n + minus32 kSubwindowSize (GotCount s)) }) m = Some (m + card (lost_in w (64 * a) (64 * b)))"
proof -
  have "\<exists>n. for_range a b (\<lambda>i n. do { s \<leftarrow> get_subwindow w i; Some (n + minus32 kSubwindowSize (GotCount s)) }) m = Some n
      \<and> n = m + card (lost_in w (64 * a) (64 * b))"
  proof (rule for_range_rule [where P = "\<lambda>i n. n = m + card (lost_in w (64 * a) (64 * i))", OF assms(2)])
    fix i n
    assume i: "a \<le> i" "i < b" and n: "n = m + card (lost_in w (64 * a) (64 * i))"
    then have "i < length (dSubwindows w)" using assms(3) by simp
    then show "\<exists>n'. do { s \<leftarrow> get_subwindow w i; Some (n + minus32 kSubwindowSize (GotCount s)) } = Some n' \<and> n' = m + card (lost_in w (64 * a) (64 * Suc i))"
      using sub_at_ok [OF assms(1)] whole_lost [OF assms(1)] n lost_split [of "64 * a" "64 * i" "64 * Suc i" w] i by simp
  qed simp
  then show ?thesis by blast
qed

lemma part_lost:
  assumes "blocks_ok w" and "i < length (dSubwindows w)" and "x \<le> y" and "y \<le> 64"
  shows "RangePopcount x y (Got (sub_at w i)) = Some (card (bits_of (Got (sub_at w i)) \<inter> {x..<y}))"
    and "minus32 (y - x) (card (bits_of (Got (sub_at w i)) \<inter> {x..<y})) = card (lost_in w (64 * i + x) (64 * i + y))"
proof -
  show "RangePopcount x y (Got (sub_at w i)) = Some (card (bits_of (Got (sub_at w i)) \<inter> {x..<y}))"
    using sub_at_ok(2) [OF assms(1,2)] assms(4) by (intro RangePopcount_card) (simp add: sub_ok_def)
  show "minus32 (y - x) (card (bits_of (Got (sub_at w i)) \<inter> {x..<y})) = card (lost_in w (64 * i + x) (64 * i + y))"
    using card_lost_bits [OF assms] assms(4) by (simp add: minus32_le)
qed

lemma RangeLostPackets_ok:
  assumes "blocks_ok w" and "b \<le> room w"
  shows "RangeLostPackets w a b = Some (card (lost_in w a b))"
proof (cases "a < b")
  case False
  then show ?thesis by (simp add: RangeLostPackets_def)
next
  case True
  let ?i = "a div 64" and ?x = "a mod 64" and ?j = "b div 64" and ?y = "b mod 64"
  have a: "a = 64 * ?i + ?x" and b: "b = 64 * ?j + ?y" by simp_all
  have i: "?i < length (dSubwindows w)" using room_sub [of a w] True assms(2) by simp
  have j: "?j \<le> length (dSubwindows w)" using assms(2) by (simp add: room_def div_le_mono less_mult_imp_div_less)
  have ij: "?i \<le> ?j" using True by (simp add: div_le_mono)
  have last: "?y = 0 \<or> ?j < length (dSubwindows w)" 
  proof (cases "?j < length (dSubwindows w)")
    case False
    then have j: "?j = length (dSubwindows w)" using j by simp
    then have "b \<le> 64 * ?j" using assms(2) by (simp add: room_def)
    then have "64 * ?j + ?y \<le> 64 * ?j" by (subst (asm) b)
    then show ?thesis by linarith
  qed simp
  let ?s = "if ?x > 0 then Suc ?i else ?i" and ?e = "if ?x + b - a > 64 then 64 else ?x + b - a"
  have first: "(if ?x > 0 then do { s \<leftarrow> get_subwindow w ?i; n \<leftarrow> RangePopcount ?x ?e (Got s); Some (minus32 (?e - ?x) n, ?i + 1) } else Some (0, ?i))
      = Some (card (lost_in w a (if ?x > 0 then min (64 * Suc ?i) b else a)), ?s)"
  proof (cases "?x > 0")
    case True
    have e0: "?x + b - a = b - 64 * ?i" "64 * ?i \<le> a" "?x < 64" using a by linarith+
    have min: "?x \<le> min 64 (b - 64 * i) \<and> 64 * i + min 64 (b - 64 * i) = min (64 * Suc i) b" if "64 * i + ?x < b" for i
      using that e0(3) by (cases "64 * Suc i \<le> b") auto
    have e: "?x \<le> ?e" "?e \<le> 64" "64 * ?i + ?e = min (64 * Suc ?i) b"
    proof -
      have "?e = min 64 (b - 64 * ?i)" unfolding e0(1) min_def by (simp split: if_split)
      then show "?x \<le> ?e" "?e \<le> 64" "64 * ?i + ?e = min (64 * Suc ?i) b" using min [of ?i] \<open>a < b\<close> by simp_all
    qed
    have "64 * ?i + ?x = a" by simp
    note part = part_lost [OF assms(1) i e(1,2), unfolded e(3) this]
    show ?thesis using True by (simp only: sub_at_ok(1) [OF assms(1) i] part if_True bind.bind_lunit) simp
  qed simp
  show ?thesis
  proof (cases "?s \<le> ?j")
    case le: True
    have mid: "(if ?x > 0 then min (64 * Suc ?i) b else a) = 64 * ?s"
    proof (cases "?x > 0")
      case True
      then have "64 * Suc ?i \<le> 64 * ?j" using le by simp
      also have "\<dots> \<le> b" by simp
      finally show ?thesis using True by (simp add: min_def)
    next
      case False
      then have "64 * ?i = a" by presburger
      then show ?thesis using False by simp
    qed
    have whole: "for_range ?s ?j (\<lambda>i n. do { s \<leftarrow> get_subwindow w i; Some (n + minus32 kSubwindowSize (GotCount s)) }) m = Some (m + card (lost_in w (64 * ?s) (64 * ?j)))" for m
      by (rule count_whole [OF assms(1) le j])
    have tail: "(if ?y > 0 then do { s \<leftarrow> get_subwindow w ?j; n \<leftarrow> RangePopcount 0 ?y (Got s); Some (m + minus32 ?y n) } else Some m) = Some (m + card (lost_in w (64 * ?j) b))" for m
    proof (cases "?y > 0")
      case True
      then have lt: "?j < length (dSubwindows w)" using last by simp
      show ?thesis using True sub_at_ok [OF assms(1) lt] part_lost [OF assms(1) lt, of 0 ?y] by simp
    next
      case False
      then have "64 * ?j = b" using b by simp
      then show ?thesis using False by simp
    qed
    have y: "b - ?j * 64 = ?y" by (simp add: minus_mult_div_eq_mod mult.commute)
    have "a \<le> 64 * (if 0 < x then Suc i else i)" if "64 * i + x = a" "x < 64" for i x using that by auto
    then have "a \<le> 64 * ?s" by simp
    moreover have "64 * ?s \<le> 64 * ?j" using le by simp
    moreover have "64 * ?j \<le> b" by simp
    ultimately have sum: "card (lost_in w a (64 * ?s)) + card (lost_in w (64 * ?s) (64 * ?j)) + card (lost_in w (64 * ?j) b) = card (lost_in w a b)"
      using lost_split [of a "64 * ?s" "64 * ?j" w] lost_split [of a "64 * ?j" b w] by simp
    show ?thesis using True first whole tail le sum unfolding RangeLostPackets_def kSubwindowSize_eq Let_def mid y by simp
  next
    case False
    then have x: "?x > 0" "?j = ?i" "\<not> Suc ?i \<le> ?j" using ij by (auto split: if_splits)
    have "min (64 * Suc i) b = b" if "64 * i + y = b" "y < 64" for i y using that by auto
    from this [of ?j ?y] have "min (64 * Suc ?i) b = b" using x(2) by simp
    then show ?thesis using True first x unfolding RangeLostPackets_def kSubwindowSize_eq Let_def by (simp add: for_range_def)
  qed
qed

section \<open>Searching\<close>

lemma find_element_ok:
  assumes w: "blocks_ok w" "n \<le> length (dSubwindows w)" "dCount w \<le> 64 * n" and "i \<le> n" and "b < 64"
    and may: "\<And>i k. i < n \<Longrightarrow> k < 64 \<Longrightarrow> P (64 * i + k) \<Longrightarrow> may (sub_at w i)"
    and search: "\<And>i b. i < n \<Longrightarrow> b < 64 \<Longrightarrow> \<exists>r. search b (Got (sub_at w i)) = Some r \<and> b \<le> r
        \<and> (\<forall>k. b \<le> k \<and> k < r \<and> k < 64 \<longrightarrow> \<not> P (64 * i + k)) \<and> (r < 64 \<longrightarrow> P (64 * i + r))"
  shows "\<exists>r. find_element may search w n i b = Some (min r (dCount w)) \<and> (64 * i + b \<le> r \<or> r = 64 * n)
    \<and> (\<forall>e. 64 * i + b \<le> e \<and> e < r \<longrightarrow> \<not> P e) \<and> r \<le> 64 * n \<and> (r < 64 * n \<longrightarrow> P r)"
  using \<open>i \<le> n\<close> \<open>b < 64\<close>
proof (induction "n - i" arbitrary: i b)
  case 0
  then show ?case using w(3) by (subst find_element.simps) (auto intro!: exI [of _ "64 * n"])
next
  case (Suc m)
  then have i: "i < n" by simp
  then have i': "i < length (dSubwindows w)" using w(2) by simp
  obtain r where r: "search b (Got (sub_at w i)) = Some r" "b \<le> r" "\<And>k. b \<le> k \<Longrightarrow> k < r \<Longrightarrow> k < 64 \<Longrightarrow> \<not> P (64 * i + k)" "r < 64 \<Longrightarrow> P (64 * i + r)"
    using search [OF i Suc.prems(2)] by blast
  have part: "\<exists>k. e = 64 * i + k \<and> b \<le> k" if "64 * i + b \<le> e" for e using that le_Suc_ex [of "64 * i + b" e] by (auto simp: add.assoc)
  show ?case
  proof (cases "may (sub_at w i) \<and> r < 64")
    case True
    have "\<not> P e" if "64 * i + b \<le> e" "e < 64 * i + r" for e using part [OF that(1)] that(2) r(3) True by auto
    moreover have "64 * i + r < 64 * n" using i True by linarith
    ultimately show ?thesis using True i r(1,2,4) sub_at_ok(1) [OF w(1) i']
      by (subst find_element.simps) (auto intro!: exI [of _ "64 * i + r"] simp: min_def mult.commute)
  next
    case False
    have none: "\<not> P (64 * i + k)" if "b \<le> k" "k < 64" for k using False may [OF i that(2)] r(3) that by fastforce
    obtain q where q: "find_element may search w n (Suc i) 0 = Some (min q (dCount w))" "64 * Suc i \<le> q \<or> q = 64 * n"
      "\<And>e. 64 * Suc i \<le> e \<Longrightarrow> e < q \<Longrightarrow> \<not> P e" "q \<le> 64 * n" "q < 64 * n \<Longrightarrow> P q"
      using Suc.hyps(1) [of "Suc i" 0] Suc.hyps(2) i by fastforce
    have ge: "64 * Suc i \<le> q" using q(2) i by auto
    have "\<not> P e" if "64 * i + b \<le> e" "e < q" for e
    proof (cases "e < 64 * Suc i")
      case True
      then show ?thesis using part [OF that(1)] none by auto
    qed (use q(3) that(2) in simp)
    moreover have "find_element may search w n i b = find_element may search w n (Suc i) 0"
      using False i r(1) sub_at_ok(1) [OF w(1) i'] by (subst find_element.simps) auto
    ultimately show ?thesis using q(1,4,5) ge Suc.prems(2) by (intro exI [of _ q]) auto
  qed
qed

lemma subwindows_for:
  assumes "dCount w \<le> room w" and "e < dCount w"
  shows "(dCount w + 64 - 1) div 64 \<le> length (dSubwindows w)" "dCount w \<le> 64 * ((dCount w + 64 - 1) div 64)" "e div 64 \<le> (dCount w + 64 - 1) div 64"
proof -
  have "(dCount w + 64 - 1) div 64 \<le> (64 * length (dSubwindows w) + 63) div 64" using assms(1) by (intro div_le_mono) (simp add: room_def)
  then show "(dCount w + 64 - 1) div 64 \<le> length (dSubwindows w)" by simp
  show "dCount w \<le> 64 * ((dCount w + 64 - 1) div 64)" by presburger
  show "e div 64 \<le> (dCount w + 64 - 1) div 64" using assms(2) by (intro div_le_mono) simp
qed

lemma FindNextLostElement_ok:
  assumes w: "blocks_ok w" "dCount w \<le> room w"
  shows "\<exists>r. FindNextLostElement w s = Some r \<and> r \<le> dCount w \<and> (s \<le> dCount w \<longrightarrow> s \<le> r)
    \<and> (\<forall>e. s \<le> e \<and> e < r \<longrightarrow> got w e) \<and> (r < dCount w \<longrightarrow> \<not> got w r)"
proof (cases "s < dCount w")
  case False
  then show ?thesis by (auto simp: FindNextLostElement_def)
next
  case True
  let ?n = "(dCount w + 64 - 1) div 64" and ?P = "\<lambda>e. \<not> got w e"
  note n = subwindows_for [OF w(2) True]
  have "\<exists>r. find_element (\<lambda>s. GotCount s < kSubwindowSize) (FindFirstClear kSubwindowSize) w ?n (s div 64) (s mod 64) = Some (min r (dCount w)) \<and> (64 * (s div 64) + s mod 64 \<le> r \<or> r = 64 * ?n)
    \<and> (\<forall>e. 64 * (s div 64) + s mod 64 \<le> e \<and> e < r \<longrightarrow> \<not> ?P e) \<and> r \<le> 64 * ?n \<and> (r < 64 * ?n \<longrightarrow> ?P r)"
  proof (rule find_element_ok [OF w(1) n])
    fix i k :: nat
    assume i: "i < ?n" "k < 64"
    then have i': "i < length (dSubwindows w)" using n(1) by simp
    note ok = sub_at_ok(2) [OF w(1) i']
    show "GotCount (sub_at w i) < kSubwindowSize" if "?P (64 * i + k)"
    proof -
      have "k \<notin> bits_of (Got (sub_at w i))" using that got_bit [OF i(2) i'] by simp
      then have "bits_of (Got (sub_at w i)) \<subset> {..<64}" using i(2) sub_bits [OF ok] by blast
      from psubset_card_mono [OF finite_lessThan this] show ?thesis using ok by (simp add: sub_ok_def)
    qed
    obtain r where r: "FindFirstClear 64 k (Got (sub_at w i)) = Some r" "least_from (- bits_of (Got (sub_at w i))) k 64 r"
      using FindFirstClear_least [of 64 "Got (sub_at w i)" k] ok i(2) by (auto simp: sub_ok_def)
    have "\<not> ?P (64 * i + j)" if "k \<le> j" "j < r" "j < 64" for j
    proof -
      have "j \<in> bits_of (Got (sub_at w i))" using r(2) that unfolding least_from_def by auto
      then show ?thesis using got_bit [OF that(3) i'] by simp
    qed
    moreover have "?P (64 * i + r)" if "r < 64" using r(2) that got_bit [OF that i'] unfolding least_from_def by auto
    moreover have "k \<le> r" using r(2) unfolding least_from_def by simp
    ultimately show "\<exists>r. FindFirstClear kSubwindowSize k (Got (sub_at w i)) = Some r \<and> k \<le> r
        \<and> (\<forall>j. k \<le> j \<and> j < r \<and> j < 64 \<longrightarrow> \<not> ?P (64 * i + j)) \<and> (r < 64 \<longrightarrow> ?P (64 * i + r))" using r(1) by auto
  qed simp
  then obtain r where r: "FindNextLostElement w s = Some (min r (dCount w))" "s \<le> r \<or> r = 64 * ?n" "\<And>e. s \<le> e \<Longrightarrow> e < r \<Longrightarrow> got w e" "r \<le> 64 * ?n" "r < 64 * ?n \<Longrightarrow> \<not> got w r"
    using True by (auto simp: FindNextLostElement_def)
  have "s \<le> r" using r(2) n(2) True by auto
  then show ?thesis using r(1,3,5) n(2) True by (intro exI [of _ "min r (dCount w)"]) (auto simp: min_def)
qed

lemma FindNextGotElement_ok:
  assumes w: "blocks_ok w" "dCount w \<le> room w"
  shows "\<exists>r. FindNextGotElement w s = Some r \<and> r \<le> dCount w \<and> (s \<le> dCount w \<longrightarrow> s \<le> r)
    \<and> (\<forall>e. s \<le> e \<and> e < r \<longrightarrow> \<not> got w e) \<and> (r < dCount w \<longrightarrow> got w r)"
proof (cases "s < dCount w")
  case False
  then show ?thesis by (auto simp: FindNextGotElement_def)
next
  case True
  let ?n = "(dCount w + 64 - 1) div 64" and ?P = "\<lambda>e. got w e"
  note n = subwindows_for [OF w(2) True]
  have "\<exists>r. find_element (\<lambda>s. GotCount s > 0) (\<lambda>b. FindFirstSet b kSubwindowSize) w ?n (s div 64) (s mod 64) = Some (min r (dCount w)) \<and> (64 * (s div 64) + s mod 64 \<le> r \<or> r = 64 * ?n)
    \<and> (\<forall>e. 64 * (s div 64) + s mod 64 \<le> e \<and> e < r \<longrightarrow> \<not> ?P e) \<and> r \<le> 64 * ?n \<and> (r < 64 * ?n \<longrightarrow> ?P r)"
  proof (rule find_element_ok [OF w(1) n])
    fix i k :: nat
    assume i: "i < ?n" "k < 64"
    then have i': "i < length (dSubwindows w)" using n(1) by simp
    note ok = sub_at_ok(2) [OF w(1) i']
    show "GotCount (sub_at w i) > 0" if "?P (64 * i + k)"
    proof -
      have "bits_of (Got (sub_at w i)) \<noteq> {}" using that got_bit [OF i(2) i'] by auto
      then show ?thesis using ok bits_of_bound(2) by (simp add: sub_ok_def card_gt_0_iff)
    qed
    obtain r where r: "FindFirstSet k 64 (Got (sub_at w i)) = Some r" "least_from (bits_of (Got (sub_at w i))) k 64 r"
      using FindFirstSet_least [of 64 "Got (sub_at w i)" k] ok i(2) by (auto simp: sub_ok_def)
    have "\<not> ?P (64 * i + j)" if "k \<le> j" "j < r" "j < 64" for j
    proof -
      have "j \<notin> bits_of (Got (sub_at w i))" using r(2) that unfolding least_from_def by auto
      then show ?thesis using got_bit [OF that(3) i'] by simp
    qed
    moreover have "?P (64 * i + r)" if "r < 64" using r(2) that got_bit [OF that i'] unfolding least_from_def by auto
    moreover have "k \<le> r" using r(2) unfolding least_from_def by simp
    ultimately show "\<exists>r. FindFirstSet k kSubwindowSize (Got (sub_at w i)) = Some r \<and> k \<le> r
        \<and> (\<forall>j. k \<le> j \<and> j < r \<and> j < 64 \<longrightarrow> \<not> ?P (64 * i + j)) \<and> (r < 64 \<longrightarrow> ?P (64 * i + r))" using r(1) by auto
  qed simp
  then obtain r where r: "FindNextGotElement w s = Some (min r (dCount w))" "s \<le> r \<or> r = 64 * ?n" "\<And>e. s \<le> e \<Longrightarrow> e < r \<Longrightarrow> \<not> got w e" "r \<le> 64 * ?n" "r < 64 * ?n \<Longrightarrow> got w r"
    using True by (auto simp: FindNextGotElement_def)
  have "s \<le> r" using r(2) n(2) True by auto
  then show ?thesis using r(1,3,5) n(2) True by (intro exI [of _ "min r (dCount w)"]) (auto simp: min_def)
qed

end
