(* ===== verification/Decoder_Acks.thy ===== *)
theory Decoder_Acks
  imports Decoder_Window Encoder_Life
begin

text \<open>
  Acknowledgements between the two halves of the code: what the decoder writes is read by the loss iterator of the encoder as
  exactly the elements that the decoder has not received.
\<close>

unbundle bit_operations_syntax

section \<open>The loss ranges that are written\<close>

fun expand :: "nat \<Rightarrow> (u32 \<times> u32) list \<Rightarrow> nat list" where
  "expand off [] = []"
| "expand off ((r, c) # rs) = [off + unat r..<off + unat r + unat c + 1] @ expand (off + unat r + unat c + 2) rs"

definition losses :: "DecoderPacketWindow \<Rightarrow> nat \<Rightarrow> nat list" where
  "losses w a = filter (\<lambda>e. \<not> got w e) [a..<dCount w]"

definition nack_wires :: "(u32 \<times> u32) list \<Rightarrow> bytes" where
  "nack_wires rs = concat (map nack_wire rs)"

lemma nack_wires_simps [simp]: "nack_wires [] = []" "nack_wires (v # rs) = nack_wire v @ nack_wires rs"
  by (simp_all add: nack_wires_def)

text \<open>The elements of a report: all losses, perhaps followed by the end of the window, or as many as there was space for; \<open>spare\<close> is the space left.\<close>

definition reported :: "DecoderPacketWindow \<Rightarrow> nat \<Rightarrow> nat \<Rightarrow> nat list \<Rightarrow> bool" where
  "reported w a spare es \<longleftrightarrow> (\<exists>m. es = take m (losses w a) \<and> (m < length (losses w a) \<longrightarrow> spare < kMaxLossRangeFieldBytes))
     \<or> es = losses w a @ [dCount w]"

lemma losses_range:
  assumes "a \<le> s" "s < t" "t \<le> dCount w" and "\<And>e. a \<le> e \<Longrightarrow> e < s \<Longrightarrow> got w e" "\<And>e. s \<le> e \<Longrightarrow> e < t \<Longrightarrow> \<not> got w e" "t < dCount w \<Longrightarrow> got w t"
  shows "losses w a = [s..<t] @ losses w (Suc t)"
proof -
  have "[a..<dCount w] = [a..<s] @ [s..<t] @ [t..<dCount w]"
    using assms(1-3) upt_add_eq_append [of a s "dCount w - s"] upt_add_eq_append [of s t "dCount w - t"] by simp
  moreover have "filter (\<lambda>e. \<not> got w e) [a..<s] = []" using assms(4) by simp
  moreover have "filter (\<lambda>e. \<not> got w e) [s..<t] = [s..<t]" using assms(5) by (intro filter_True) simp
  moreover have "filter (\<lambda>e. \<not> got w e) [t..<dCount w] = losses w (Suc t)"
    using assms(6) by (cases "t < dCount w") (simp_all add: losses_def upt_rec [of t])
  ultimately show ?thesis by (simp add: losses_def)
qed

lemma reported_range: "losses w a = xs @ losses w b \<Longrightarrow> reported w b spare es \<Longrightarrow> reported w a spare (xs @ es)"
proof -
  assume l: "losses w a = xs @ losses w b" and "reported w b spare es"
  then consider m where "es = take m (losses w b)" "m < length (losses w b) \<longrightarrow> spare < kMaxLossRangeFieldBytes" | "es = losses w b @ [dCount w]" unfolding reported_def by blast
  then show ?thesis
  proof cases
    case 1
    then have "xs @ es = take (length xs + m) (losses w a)" "length xs + m < length (losses w a) \<longrightarrow> spare < kMaxLossRangeFieldBytes" using l by simp_all
    then show ?thesis unfolding reported_def by blast
  qed (simp add: reported_def l)
qed

lemma ack_ranges_ok:
  assumes w: "blocks_ok w" "dCount w \<le> room w" "dCount w < 2 ^ 21"
    and "off + limit \<le> length b" and "a \<le> dCount w + 1"
  shows "\<exists>rs. ack_ranges w limit a (b, off) = Some (overwrite b off (nack_wires rs), off + length (nack_wires rs))
    \<and> length (nack_wires rs) \<le> limit \<and> list_all nack_ok rs \<and> reported w a (limit - length (nack_wires rs)) (expand a rs)"
  using assms(4,5)
proof (induction limit arbitrary: a b off rule: less_induct)
  case (less limit)
  show ?case
  proof (cases "limit < kMaxLossRangeFieldBytes")
    case True
    have "reported w a limit []" unfolding reported_def using True by (intro disjI1 exI [of _ 0]) simp
    then show ?thesis using True by (subst ack_ranges.simps) (auto intro!: exI [of _ "[]"])
  next
    case limit: False
    obtain s where s: "FindNextLostElement w a = Some s" "s \<le> dCount w" "a \<le> dCount w \<longrightarrow> a \<le> s" "\<And>e. a \<le> e \<Longrightarrow> e < s \<Longrightarrow> got w e" "s < dCount w \<Longrightarrow> \<not> got w s"
      using FindNextLostElement_ok [OF w(1,2), of a] by blast
    have small: "unat (of_nat n :: u32) = n" "(of_nat n :: u32) < 2 ^ 22" if "n \<le> dCount w" for n
    proof -
      have n: "n < 2 ^ 21" using that w(3) by simp
      then show "unat (of_nat n :: u32) = n" by (simp add: unat_of_nat)
      then show "(of_nat n :: u32) < 2 ^ 22" using n by (simp add: word_less_nat_alt)
    qed
    show ?thesis
    proof (cases "s < dCount w")
      case False
      then have all: "losses w a = []" using s(2,4) by (simp add: losses_def filter_empty_conv)
      show ?thesis
      proof (cases "a \<le> dCount w")
        case True
        let ?v = "(of_nat (dCount w - a), 0) :: u32 \<times> u32"
        have len: "length (nack_wire ?v) \<le> limit" using length_nack_wire [of ?v] limit by simp
        then have fits: "off + length (nack_wire ?v) \<le> length b" using less.prems(1) by simp
        note ser = SerializeHeader_NACKLossRange_wire [OF fits]
        have ex: "expand a [?v] = [dCount w]" using True small [of "dCount w - a"] by (simp del: of_nat_diff)
        have "reported w a (limit - length (nack_wires [?v])) (expand a [?v])" unfolding ex reported_def all by simp
        moreover have "list_all nack_ok [?v]" using small [of "dCount w - a"] by (simp add: nack_ok_def del: of_nat_diff)
        ultimately show ?thesis using True False limit s(1) ser len by (subst ack_ranges.simps) (auto intro!: exI [of _ "[?v]"])
      next
        case out: False
        have "reported w a limit []" unfolding reported_def all by (intro disjI1 exI [of _ 0]) simp
        then show ?thesis using False out limit s(1) by (subst ack_ranges.simps) (auto intro!: exI [of _ "[]"])
      qed
    next
      case True
      then have as: "a \<le> s" using s(3) less.prems(2) by (cases "a \<le> dCount w") (use s(1) in \<open>auto simp: FindNextLostElement_def\<close>)
      obtain t where t: "FindNextGotElement w (s + 1) = Some t" "t \<le> dCount w" "s + 1 \<le> dCount w \<longrightarrow> s + 1 \<le> t" "\<And>e. s + 1 \<le> e \<Longrightarrow> e < t \<Longrightarrow> \<not> got w e" "t < dCount w \<Longrightarrow> got w t"
        using FindNextGotElement_ok [OF w(1,2), of "s + 1"] by blast
      then have st: "s < t" using True by simp
      let ?v = "(of_nat (minus32 s a), of_nat (minus32 t (s + 1))) :: u32 \<times> u32"
      have v: "?v = (of_nat (s - a), of_nat (t - (s + 1)))" using as st t(2) w(3) by (simp add: minus32_le)
      have len: "length (nack_wire ?v) \<le> limit" "0 < length (nack_wire ?v)" using length_nack_wire [of ?v] limit by (simp_all add: nack_wire_def)
      then have fits: "off + length (nack_wire ?v) \<le> length b" using less.prems(1) by simp
      note ser = SerializeHeader_NACKLossRange_wire [OF fits]
      let ?b = "overwrite b off (nack_wire ?v)"
      have "off + length (nack_wire ?v) + (limit - length (nack_wire ?v)) \<le> length ?b" using less.prems(1) len fits by simp
      moreover have "t + 1 \<le> dCount w + 1" using t(2) by simp
      moreover have "limit - length (nack_wire ?v) < limit" using len by linarith
      ultimately obtain rs where rs: "ack_ranges w (limit - length (nack_wire ?v)) (t + 1) (?b, off + length (nack_wire ?v))
          = Some (overwrite ?b (off + length (nack_wire ?v)) (nack_wires rs), off + length (nack_wire ?v) + length (nack_wires rs))"
        "length (nack_wires rs) \<le> limit - length (nack_wire ?v)" "list_all nack_ok rs" "reported w (t + 1) (limit - length (nack_wire ?v) - length (nack_wires rs)) (expand (t + 1) rs)"
        using less.IH by blast
      have sums: "unat (of_nat (s - a) :: u32) = s - a" "unat (of_nat (t - (s + 1)) :: u32) = t - (s + 1)" using small t(2) s(2) by (simp_all del: of_nat_diff)
      have exp: "expand a (?v # rs) = [s..<t] @ expand (t + 1) rs" unfolding v using sums as st by (simp del: of_nat_diff)
      have "losses w a = [s..<t] @ losses w (Suc t)"
      proof (rule losses_range [OF as st t(2)])
        show "\<not> got w e" if "s \<le> e" "e < t" for e using that t(4) s(5) True by (cases "e = s") auto
      qed (use s(4) t(5) in auto)
      then have rep: "reported w a (limit - length (nack_wires (?v # rs))) (expand a (?v # rs))" unfolding exp using reported_range rs(4) by simp
      have join: "overwrite ?b (off + length (nack_wire ?v)) (nack_wires rs) = overwrite b off (nack_wires (?v # rs))"
        using overwrite_append [of off "nack_wire ?v" "nack_wires rs" b] rs(2) len less.prems(1) by simp
      have nok: "list_all nack_ok (?v # rs)" using rs(3) small [of "s - a"] small [of "t - (s + 1)"] t(2) s(2) unfolding v by (simp add: nack_ok_def del: of_nat_diff)
      have "ack_ranges w limit a (b, off) = Some (overwrite b off (nack_wires (?v # rs)), off + length (nack_wires (?v # rs)))"
        using limit s(1) True t(1) ser rs(1) unfolding join by (subst ack_ranges.simps) simp
      then show ?thesis using rep nok rs(2) len by (intro exI [of _ "?v # rs"]) simp
    qed
  qed
qed

section \<open>The loss ranges that are read\<close>

text \<open>The columns that the loss iterator of the encoder returns, until it ends.\<close>

inductive yields :: "EncoderAcknowledgementState \<Rightarrow> u32 list \<Rightarrow> bool" where
  yields_end: "GetNextLossColumn a = Some (None, a') \<Longrightarrow> yields a []"
| yields_next: "GetNextLossColumn a = Some (Some c, a') \<Longrightarrow> yields a' cs \<Longrightarrow> yields a (c # cs)"

definition ack_holds :: "EncoderAcknowledgementState \<Rightarrow> bytes \<Rightarrow> bool" where
  "ack_holds a ranges \<longleftrightarrow> DataBytes a = length ranges \<and> (ranges \<noteq> [] \<longrightarrow> (\<exists>post. ackData a = Some (ranges @ post) \<and> 8 \<le> length post))"

lemma shift_upt: "[b + i..<b + j] = map (\<lambda>e. b + e) [i..<j]"
  by (induction j) auto

lemma yields_run:
  assumes "yields (a\<lparr>LossColumn := col (x + n), LossCount := 0\<rparr>) cs" and "n < 2 ^ 32"
  shows "yields (a\<lparr>LossColumn := col x, LossCount := of_nat n\<rparr>) (map col [x..<x + n] @ cs)"
  using assms
proof (induction n arbitrary: x)
  case (Suc n)
  let ?a = "a\<lparr>LossColumn := col x, LossCount := of_nat (Suc n)\<rparr>"
  have pos: "\<not> (of_nat (Suc n) :: u32) \<le> 0"
  proof
    assume "(of_nat (Suc n) :: u32) \<le> 0"
    then have "(of_nat (Suc n) :: u32) = 0" by (simp add: word_le_0_iff)
    then have "(2 :: nat) ^ 32 dvd Suc n" using word_of_nat_eq_0_iff [where 'a = 32, of "Suc n"] by simp
    then show False using Suc.prems(2) nat_dvd_not_less [of "Suc n" "2 ^ 32"] by blast
  qed
  have "GetNextLossColumn ?a = Some (Some (col x), a\<lparr>LossColumn := col (Suc x), LossCount := of_nat n\<rparr>)"
    using pos by (simp add: GetNextLossColumn_def)
  moreover have "yields (a\<lparr>LossColumn := col (Suc x), LossCount := of_nat n\<rparr>) (map col [Suc x..<Suc x + n] @ cs)"
    using Suc.prems by (intro Suc.IH) simp_all
  ultimately have "yields ?a (col x # map col [Suc x..<Suc x + n] @ cs)" by (rule yields_next)
  moreover have "[x..<x + Suc n] = x # [Suc x..<Suc x + n]" by (simp add: upt_conv_Cons del: upt_Suc)
  ultimately show ?case by simp
qed simp

lemma decode_range:
  assumes "ackData a = Some (pre @ nack_wire (r, c) @ post)" and "Offset a = length pre" and "length pre + length (nack_wire (r, c)) \<le> DataBytes a"
    and "DataBytes a + 8 \<le> length (pre @ nack_wire (r, c) @ post)" and "nack_ok (r, c)" and "LossColumn a = col n"
  shows "DecodeNextRange a = Some (True, a\<lparr>Offset := length pre + length (nack_wire (r, c)), LossColumn := col (n + unat r), LossCount := c + 1\<rparr>)"
proof -
  have "0 < length (nack_wire (r, c))" by (simp add: nack_wire_def)
  then have lt: "\<not> DataBytes a \<le> length pre" using assms(3) by linarith
  then have "DeserializeHeader_NACKLossRange (pre @ nack_wire (r, c) @ post) (length pre) (DataBytes a + kPaddingBytes - length pre) = Some (Parsed (length (nack_wire (r, c))) (r, c))"
    by (intro DeserializeHeader_NACKLossRange_wire assms(5)) (simp add: kPaddingBytes_def kMaxLossRangeFieldBytes_def)
  moreover have "AddColumns (col n) r = col (n + unat r)" using AddColumns_col(2) [of n "unat r"] by simp
  ultimately show ?thesis using assms(1-3,6) lt by (simp add: DecodeNextRange_def Let_def)
qed

lemma range_count: "nack_ok (r, c) \<Longrightarrow> c + 1 = of_nat (unat c + 1)" "nack_ok (r, c) \<Longrightarrow> unat c + 1 < 2 ^ 32"
  by (simp, simp add: nack_ok_def word_less_nat_alt)

lemma yields_ranges:
  assumes "ackData a = Some (pre @ nack_wires rs @ post)" "Offset a = length pre" "DataBytes a = length pre + length (nack_wires rs)" "8 \<le> length post"
    and "list_all nack_ok rs" and "LossColumn a = col m" "Suc m = base + off" "LossCount a = 0"
  shows "yields a (map (\<lambda>e. col (base + e)) (expand off rs))"
  using assms
proof (induction rs arbitrary: a pre m off)
  case Nil
  then have "GetNextLossColumn a = Some (None, a\<lparr>LossColumn := IncrementColumn1 (LossColumn a)\<rparr>)"
    by (simp add: GetNextLossColumn_def DecodeNextRange_def)
  then show ?case by (simp add: yields_end)
next
  case (Cons v rs)
  obtain r c where v: "v = (r, c)" by (cases v)
  let ?w = "nack_wire (r, c)" and ?a1 = "a\<lparr>LossColumn := col (Suc m)\<rparr>"
  have ok: "nack_ok (r, c)" using Cons.prems(5) v by simp
  have dec: "DecodeNextRange ?a1 = Some (True, ?a1\<lparr>Offset := length pre + length ?w, LossColumn := col (Suc m + unat r), LossCount := c + 1\<rparr>)"
    by (rule decode_range [of ?a1 pre r c "nack_wires rs @ post" "Suc m"]) (use Cons.prems v ok in auto)
  let ?x = "Suc m + unat r" and ?n = "unat c"
  let ?b = "a\<lparr>Offset := length pre + length ?w\<rparr>"
  have next1: "GetNextLossColumn a = Some (Some (col ?x), ?b\<lparr>LossColumn := col (Suc ?x), LossCount := of_nat ?n\<rparr>)"
    using dec Cons.prems(6,8) by (simp add: GetNextLossColumn_def)
  have "yields (?b\<lparr>LossColumn := col (Suc ?x + ?n), LossCount := 0\<rparr>) (map (\<lambda>e. col (base + e)) (expand (off + unat r + ?n + 2) rs))"
    by (rule Cons.IH [of _ "pre @ ?w" "Suc ?x + ?n"]) (use Cons.prems v in auto)
  then have "yields (?b\<lparr>LossColumn := col (Suc ?x), LossCount := of_nat ?n\<rparr>) (map col [Suc ?x..<Suc ?x + ?n] @ map (\<lambda>e. col (base + e)) (expand (off + unat r + ?n + 2) rs))"
    using range_count(2) [OF ok] by (intro yields_run) simp_all
  from yields_next [OF next1 this] have "yields a (map col (?x # [Suc ?x..<Suc ?x + ?n]) @ map (\<lambda>e. col (base + e)) (expand (off + unat r + ?n + 2) rs))" by simp
  moreover have "?x # [Suc ?x..<Suc ?x + ?n] = map ((+) base) [off + unat r..<off + unat r + ?n + 1]"
  proof -
    have "?x # [Suc ?x..<Suc ?x + ?n] = [?x..<?x + ?n + 1]" by (simp add: upt_conv_Cons del: upt_Suc)
    also have "\<dots> = [base + (off + unat r)..<base + (off + unat r + ?n + 1)]" using Cons.prems(7) by (simp add: add.assoc del: upt_Suc)
    finally show ?thesis unfolding shift_upt .
  qed
  ultimately have "yields a (map col (map ((+) base) [off + unat r..<off + unat r + ?n + 1]) @ map (\<lambda>e. col (base + e)) (expand (off + unat r + ?n + 2) rs))"
    by (simp only:)
  then show ?case unfolding v expand.simps by (simp add: comp_def del: upt_Suc)
qed

text \<open>Restarting the iterator and reading to the end.\<close>

lemma restart_yields:
  assumes "ack_holds a (nack_wires rs)" and "list_all nack_ok rs" and "NextColumnExpected a = col (base + off)"
  shows "\<exists>a'. RestartLossIterator a = Some a' \<and> yields a' (map (\<lambda>e. col (base + e)) (expand off rs))"
proof (cases rs)
  case Nil
  let ?a = "a\<lparr>Offset := 0, LossColumn := NextColumnExpected a, LossCount := 0\<rparr>"
  have d: "DataBytes a = 0" using assms(1) Nil by (simp add: ack_holds_def)
  then have "RestartLossIterator a = Some ?a" by (simp add: RestartLossIterator_def DecodeNextRange_def)
  moreover have "GetNextLossColumn ?a = Some (None, ?a\<lparr>LossColumn := IncrementColumn1 (LossColumn ?a)\<rparr>)"
    using d by (simp add: GetNextLossColumn_def DecodeNextRange_def)
  ultimately show ?thesis using yields_end Nil by auto
next
  case (Cons v rs')
  obtain r c where v: "v = (r, c)" by (cases v)
  have ok: "nack_ok (r, c)" using assms(2) Cons v by simp
  let ?w = "nack_wire (r, c)"
  have "nack_wires rs \<noteq> []" using Cons v by (simp add: nack_wire_def)
  then obtain post where post: "ackData a = Some (nack_wires rs @ post)" "8 \<le> length post" "DataBytes a = length (nack_wires rs)"
    using assms(1) by (auto simp: ack_holds_def)
  let ?a = "a\<lparr>Offset := 0, LossColumn := col (base + off), LossCount := 0\<rparr>"
  let ?x = "base + off + unat r" and ?b = "a\<lparr>Offset := length ?w\<rparr>"
  have "DecodeNextRange ?a = Some (True, ?a\<lparr>Offset := length ([] :: bytes) + length ?w, LossColumn := col ?x, LossCount := c + 1\<rparr>)"
    by (rule decode_range [of ?a "[]" r c "nack_wires rs' @ post" "base + off"]) (use post Cons v ok in auto)
  then have run: "RestartLossIterator a = Some (?b\<lparr>LossColumn := col ?x, LossCount := of_nat (unat c + 1)\<rparr>)"
    using assms(3) range_count(1) [OF ok] by (simp add: RestartLossIterator_def)
  have "yields (?b\<lparr>LossColumn := col (?x + (unat c + 1)), LossCount := 0\<rparr>) (map (\<lambda>e. col (base + e)) (expand (off + unat r + unat c + 2) rs'))"
    by (rule yields_ranges [of _ ?w rs' post "?x + (unat c + 1)"]) (use post Cons v assms(2) in auto)
  from yields_run [OF this range_count(2) [OF ok]]
  have "yields (?b\<lparr>LossColumn := col ?x, LossCount := of_nat (unat c + 1)\<rparr>)
      (map col [?x..<?x + (unat c + 1)] @ map (\<lambda>e. col (base + e)) (expand (off + unat r + unat c + 2) rs'))" .
  moreover have "[?x..<?x + (unat c + 1)] = map (\<lambda>e. base + e) [off + unat r..<off + unat r + unat c + 1]"
    using shift_upt [of base "off + unat r" "off + unat r + unat c + 1"] by (simp add: add.assoc del: upt_Suc)
  then have "map col [?x..<?x + (unat c + 1)] = map (\<lambda>e. col (base + e)) [off + unat r..<off + unat r + unat c + 1]"
    by (simp del: upt_Suc)
  ultimately have "yields (?b\<lparr>LossColumn := col ?x, LossCount := of_nat (unat c + 1)\<rparr>) (map (\<lambda>e. col (base + e)) (expand off rs))"
    unfolding Cons v by (simp del: upt_Suc)
  then show ?thesis using run by blast
qed

lemma store_ranges_holds:
  assumes "mem_ok mem" and "list_all nack_ok rs" and "DataBytes a = length (nack_wires rs)" "Offset a = 0" "LossColumn a = col n"
  shows "\<exists>q a'. store_ranges mem (nack_wires rs) (w, a) = Some (True, w\<lparr>Requests := q\<rparr>, a') \<and> ack_holds a' (nack_wires rs) \<and> NextColumnExpected a' = NextColumnExpected a"
proof (cases rs)
  case Nil
  then show ?thesis using assms(3) by (auto simp: store_ranges_def ack_holds_def intro!: exI [of _ "Requests w"])
next
  case (Cons v rs')
  obtain r c where v: "v = (r, c)" by (cases v)
  let ?ranges = "nack_wires rs"
  let ?d = "?ranges @ replicate 8 0"
  have pos: "0 < length ?ranges" using Cons v by (simp add: nack_wire_def)
  obtain g where g: "mem (Requests w) = Some g" using mem_ok_block [OF assms(1)] by blast
  have cp: "memcpy_at (realloc_uninitialized g (length ?ranges + kPaddingBytes)) 0 ?ranges = Some (?ranges @ map g [length ?ranges..<length ?ranges + 8])"
    by (simp add: memcpy_at_def realloc_uninitialized_def kPaddingBytes_def overwrite_def drop_map del: upt_Suc)
  have ms: "memset0 (?ranges @ map g [length ?ranges..<length ?ranges + 8]) (length ?ranges) kPaddingBytes = Some ?d"
    by (simp add: memset0_def kPaddingBytes_def overwrite_def del: upt_Suc)
  let ?a = "a\<lparr>ackData := Some ?d\<rparr>"
  have "DecodeNextRange ?a = Some (True, ?a\<lparr>Offset := length ([] :: bytes) + length (nack_wire (r, c)), LossColumn := col (n + unat r), LossCount := c + 1\<rparr>)"
    by (rule decode_range [of ?a "[]" r c "nack_wires rs' @ replicate 8 0" n]) (use assms Cons v in auto)
  then show ?thesis using pos g cp ms assms(3) by (auto simp: store_ranges_def next_block_def ack_holds_def)
qed

lemma OnAcknowledgementData_holds:
  assumes mem: "mem_ok mem" and inv: "window_inv w L lbase lo" and a: "ack_ok a" and rs: "list_all nack_ok rs"
    and new: "\<not> IsColumnDeltaNegative (SubtractColumns (col n) (NextColumnExpected a))"
  shows "\<exists>w' a'. OnAcknowledgementData mem now (packet_num_wire (col n) @ nack_wires rs) (w, a) = Some (True, w', a')
    \<and> NextColumnExpected a' = col n \<and> ack_holds a' (nack_wires rs)"
proof -
  let ?h = "packet_num_wire (col n)" and ?r = "nack_wires rs"
  have "packet_num_ok (col n)" by (simp add: packet_num_ok_def word_le_nat_alt unat_col)
  then have hdr: "DeserializeHeader_PacketNum (?h @ ?r) 0 (length (?h @ ?r)) = Some (Parsed (length ?h) (col n))"
    using packet_num_header.dec_wire [of "col n" "length (?h @ ?r)" ?r "[]"] by (simp add: packet_num_wire_def)
  show ?thesis
  proof (cases "NextColumnExpected a = col n \<and> (\<exists>d\<in>set_option (ackData a). length ?r = DataBytes a \<and> take (DataBytes a) d = ?r)")
    case True
    then obtain d where d: "ackData a = Some d" "DataBytes a = length ?r" "take (length ?r) d = ?r" by auto
    have "ack_holds a ?r"
    proof (cases "?r = []")
      case False
      then have "length ?r + 8 \<le> length d" using a d by (auto simp: ack_ok_def)
      then show ?thesis using d append_take_drop_id [of "length ?r" d] by (auto simp: ack_holds_def intro!: exI [of _ "drop (length ?r) d"])
    qed (simp add: ack_holds_def d(2))
    then show ?thesis using True new hdr unfolding OnAcknowledgementData_def by simp
  next
    case False
    let ?a = "a\<lparr>NextColumnExpected := col n, Offset := 0, LossColumn := col n, LossCount := 0, DataBytes := length ?r\<rparr>"
    obtain q a1 where st: "store_ranges mem ?r (w, ?a) = Some (True, w\<lparr>Requests := q\<rparr>, a1)" "ack_holds a1 ?r" "NextColumnExpected a1 = col n"
      using store_ranges_holds [OF mem rs, of ?a n w] by auto
    have size: "window_sized (w\<lparr>Requests := q\<rparr>)" using inv by (simp add: window_inv_def window_sized_def subs_ok_def lanes_sized_def)
    have "ack_ok a1" using st(2) by (auto simp: ack_holds_def ack_ok_def)
    then obtain a2 where a2: "UpdateRTO now (w\<lparr>Requests := q\<rparr>) a1 = Some a2" "ack_moved a1 a2" "NextColumnExpected a2 = col n"
      using UpdateRTO_ok [OF size] st(3) by metis
    have "ack_holds a2 ?r" using st(2) a2(2) by (simp add: ack_holds_def ack_moved_def)
    moreover have "OnAcknowledgementData mem now (?h @ ?r) (w, a) = Some (True, RemoveBefore (NextColumnExpected a2) (w\<lparr>Requests := q\<rparr>), a2)"
      using hdr new False st(1) a2(1) unfolding OnAcknowledgementData_def prod.case Let_def by auto
    ultimately show ?thesis using a2(3) by simp
  qed
qed

section \<open>From the decoder to the encoder\<close>

text \<open>A decoder whose next expected element is the first one that is lost.\<close>

definition tracks :: "Decoder \<Rightarrow> nat \<Rightarrow> bool" where
  "tracks D base \<longleftrightarrow> (let w = dWindow D in blocks_ok w \<and> dCount w \<le> room w \<and> 0 < dCount w \<and> dCount w < 2 ^ 21 \<and> \<not> dEmergencyDisabled w
     \<and> dColumnStart w = col base \<and> NextExpectedElement w \<le> dCount w \<and> (\<forall>e<NextExpectedElement w. got w e)
     \<and> (NextExpectedElement w < dCount w \<longrightarrow> \<not> got w (NextExpectedElement w)))"

lemma GenerateAcknowledgement_ok:
  assumes tr: "tracks D base" and limit: "16 \<le> limit" "limit \<le> length buffer"
  shows "\<exists>rs D'. let n = length (packet_num_wire (col (base + NextExpectedElement (dWindow D))) @ nack_wires rs) in
    GenerateAcknowledgement buffer limit D
      = Some (Siamese_Success, overwrite buffer 0 (packet_num_wire (col (base + NextExpectedElement (dWindow D))) @ nack_wires rs), n, D')
    \<and> dWindow D' = dWindow D \<and> n \<le> limit \<and> list_all nack_ok rs
    \<and> reported (dWindow D) (NextExpectedElement (dWindow D)) (limit - n) (expand (NextExpectedElement (dWindow D)) rs)"
proof -
  let ?w = "dWindow D" let ?x = "NextExpectedElement ?w" let ?h = "packet_num_wire (col (base + ?x))"
  have w: "blocks_ok ?w" "dCount ?w \<le> room ?w" "dCount ?w < 2 ^ 21" "0 < dCount ?w" "\<not> dEmergencyDisabled ?w" "dColumnStart ?w = col base" "?x \<le> dCount ?w"
    using tr by (simp_all add: tracks_def Let_def)
  have hl: "length ?h \<le> 3" by (simp add: packet_num_wire_def)
  have fits: "0 + length ?h \<le> length buffer" using hl limit by simp
  have c: "dElementToColumn ?w ?x = col (base + ?x)" using w(6) by (simp add: dElementToColumn_def)
  have "packet_num_ok (col (base + ?x))" by (simp add: packet_num_ok_def word_le_nat_alt)
  from packet_num_header.enc_wire [OF this fits]
  have hdr: "SerializeHeader_PacketNum (col (base + ?x)) buffer 0 = Some (overwrite buffer 0 ?h, length ?h)" .
  show ?thesis
  proof (cases "?x \<ge> dCount ?w")
    case True
    then have "losses ?w ?x = []" by (simp add: losses_def)
    then have "reported ?w ?x (limit - length ?h) []" unfolding reported_def by (intro disjI1 exI [of _ 0]) simp
    then show ?thesis using True hdr w c hl limit
      by (intro exI [of _ "[]"]) (auto simp: GenerateAcknowledgement_def dInvalidElement_def ack_done_def dcount_stat_def Let_def)
  next
    case False
    have "length ?h + (limit - length ?h) \<le> length (overwrite buffer 0 ?h)" using fits hl limit by simp
    from ack_ranges_ok [OF w(1-3) this, of ?x] w(7)
    obtain rs where rs: "ack_ranges ?w (limit - length ?h) ?x (overwrite buffer 0 ?h, length ?h)
        = Some (overwrite (overwrite buffer 0 ?h) (length ?h) (nack_wires rs), length ?h + length (nack_wires rs))"
      "length (nack_wires rs) \<le> limit - length ?h" "list_all nack_ok rs" "reported ?w ?x (limit - length ?h - length (nack_wires rs)) (expand ?x rs)" by auto
    have "overwrite (overwrite buffer 0 ?h) (length ?h) (nack_wires rs) = overwrite buffer 0 (?h @ nack_wires rs)"
      using overwrite_append [of 0 ?h "nack_wires rs" buffer] rs(2) hl limit by simp
    then show ?thesis using False hdr w c hl limit rs
      by (intro exI [of _ rs]) (auto simp: GenerateAcknowledgement_def dInvalidElement_def ack_done_def dcount_stat_def Let_def)
  qed
qed


text \<open>Three elements, of which the second is lost.\<close>

definition sample_window :: DecoderPacketWindow where
  "sample_window = (dWindow Decoder_init)\<lparr>dCount := 3, NextExpectedElement := 1, dSubwindows := [0],
     Blocks := [\<lparr> dOriginals = replicate 64 empty_original, Got = [5], GotCount = 2 \<rparr>]\<rparr>"

lemma sample_bits: "bits_of [5] = {0, 2}"
proof -
  have "list_all (\<lambda>k. bit (5 :: u64) k \<longleftrightarrow> k = 0 \<or> k = 2) [0..<64]" by code_simp
  then have "bit (5 :: u64) k \<longleftrightarrow> k = 0 \<or> k = 2" if "k < 64" for k using that by (simp add: list_all_iff)
  then show ?thesis by (auto simp: bits_of_def)
qed

lemma sample_got: "e < 3 \<Longrightarrow> got sample_window e \<longleftrightarrow> e \<noteq> 1"
proof -
  assume "e < 3"
  then have "e div 64 = 0" "e mod 64 = e" "e < 64" by simp_all
  then have "got sample_window e \<longleftrightarrow> e \<in> {0, 2}" using sample_bits by (simp add: got_def room_def sub_at_def sample_window_def)
  then show ?thesis using \<open>e < 3\<close> by auto
qed

lemma sample_tracks: "tracks (Decoder_init\<lparr>dWindow := sample_window\<rparr>) 0"
proof -
  have "blocks_ok sample_window" by (simp add: blocks_ok_def sub_ok_def sample_window_def sample_bits)
  moreover have "got sample_window 0" "\<not> got sample_window 1" using sample_got by simp_all
  ultimately show ?thesis
    by (simp add: tracks_def Let_def room_def) (simp add: sample_window_def Decoder_init_def col_def)
qed


end
