(* ===== verification/Spec2Isabelle.thy ===== *)
theory Spec2Isabelle
  imports Counter_Math Strike_Register Serializers Field_Codecs Siamese_Common Protocol Simple_Cipher
    Session_Send Session_Receive Message_Delivery Session_Queue Ref_Counter Time_Sync Light_Hash_Map
    Connection_Maps Flood_Detector Gf256_Mem Packet_Allocator Encoder_Life Decoder_Acks
begin

text \<open>
  \<^bold>\<open>Tonk\<close> is a C++ library for reliable and unreliable messages over UDP, with forward error correction
  (the Siamese codec), encryption, peer discovery and NAT traversal.  This development is a
  verification library of its core: the data that crosses the wire, the state that each end keeps
  about it, and the code in between.

  \<^bold>\<open>The program.\<close>  An application gives messages to \<open>tonk_send\<close> (\<open>TonkineseConnection.cpp\<close>).
  \<open>SessionOutgoing\<close> (\<open>TonkineseOutgoing.cpp\<close>) cuts a reliable message into fragments, frames
  them into the datagram under construction (\<open>OutgoingQueue\<close>), and sends each datagram with footers for
  sequence number, time stamp, handshake and nonce, enciphered and tagged (\<open>SimpleCipher.cpp\<close>).
  Reliable datagrams also enter the window of the Siamese encoder (\<open>SiameseEncoder.cpp\<close>), which makes recovery
  packets from them until they are acknowledged.  \<open>SessionIncoming\<close>
  (\<open>TonkineseIncoming.cpp\<close>) recovers the nonce, checks the tag, rejects replays with the
  \<open>StrikeRegister\<close>, deciphers, and hands in-order packets to the application, with the help of the
  Siamese decoder for those that were lost.  \<open>TimeSynchronizer\<close> (\<open>TimeSync.cpp\<close>) estimates the trip time
  and the clock offset from the time stamps.  Connections are found by identifier or address
  (\<open>TonkineseMaps.h\<close>, \<open>TonkineseMaps.cpp\<close>), admitted by the flood detector
  (\<open>TonkineseFlood.cpp\<close>), and kept alive by reference counts (\<open>TonkineseTools.h\<close>).  Packet memory comes from
  \<open>PacketAllocator.cpp\<close>; the codec computes in the field of \<open>gf256.cpp\<close>.

  \<^bold>\<open>Conventions.\<close>  Theory \<open>Tonk_Prelude\<close> holds what the components share.  Integers are words of the width of the C++ type
  where the code can make them wrap, and natural numbers where an invariant bounds them.  A buffer is a list of bytes and every
  access is checked: a result \<open>None\<close> is an access outside of a buffer, through a null pointer, or a loop that does not end,
  so that a theorem with \<open>Some\<close> also states memory safety and termination.  Errors that the code returns are values.
  Classes are records with the fields of the code, methods are functions from the state to the new state, and a \<open>const\<close>
  method is a function of the state.  Counted loops are \<open>for_range\<close>; other loops are recursive functions with a termination proof;
  a loop whose termination depends on an invariant (probing in the hash map, assigning an identifier, splitting a message)
  is a \<open>partial_function\<close> in the option monad, and its theorem states that it returns.  No definition uses fuel.

  \<^bold>\<open>Theories.\<close>
  \<^item> \<open>Counter_Math\<close> (\<open>Counter.h\<close>): rolling counters, comparison and expansion of truncated counters.
  \<^item> \<open>Strike_Register\<close> (\<open>StrikeRegister.h\<close>, \<open>.cpp\<close>): the anti-replay window, as a bit set over a range of nonces.
  \<^item> \<open>Serializers\<close>, \<open>Field_Codecs\<close> (\<open>SiameseSerializers.h\<close>): little-endian accessors, byte streams, and the
    variable-length fields of Siamese.  The contract of a codec is a locale, interpreted once per field.
  \<^item> \<open>Siamese_Common\<close> (\<open>SiameseCommon.h\<close>, \<open>SiameseTools.h\<close>): parameters of the code, the random generator, and the windowed minimum and maximum
    (one proof in a locale, interpreted for both).
  \<^item> \<open>Gf256_Field\<close>, \<open>Gf256\<close>, \<open>Gf256_Mem\<close> (\<open>gf256.h\<close>, \<open>gf256.cpp\<close>): the field as polynomials, the tables and scalar operations, and the
    bulk operations for each instruction set.
  \<^item> \<open>Custom_Bit_Set\<close>, \<open>Light_Vector\<close>, \<open>Packet_Allocator\<close> (\<open>PacketAllocator.h\<close>, \<open>.cpp\<close>): the bit set, the vector and the unit allocator.
  \<^item> \<open>Protocol\<close> (\<open>TonkineseProtocol.h\<close>, \<open>.cpp\<close>): flags, footers, handshakes, peer to peer parameters.
  \<^item> \<open>Simple_Cipher\<close> (\<open>SimpleCipher.h\<close>, \<open>.cpp\<close>): key expansion, the cipher and the tags.
  \<^item> \<open>Session_Send\<close>, \<open>Session_Queue\<close> (\<open>TonkineseOutgoing.cpp\<close>, \<open>tonk_send\<close> of \<open>TonkineseConnection.cpp\<close>): the outgoing queue, framing,
    splitting of messages, sending of a datagram, acknowledgements.
  \<^item> \<open>Session_Receive\<close>, \<open>Message_Delivery\<close> (\<open>TonkineseIncoming.cpp\<close>): reception of a datagram, and delivery of its messages.
  \<^item> \<open>Time_Sync\<close> (\<open>TimeSync.h\<close>, \<open>.cpp\<close>), \<open>Ref_Counter\<close> (\<open>TonkineseTools.h\<close>), \<open>Light_Hash_Map\<close> (\<open>TonkineseMaps.h\<close>),
    \<open>Connection_Maps\<close> (\<open>TonkineseMaps.h\<close>, \<open>.cpp\<close>), \<open>Flood_Detector\<close> (\<open>TonkineseFlood.h\<close>, \<open>.cpp\<close>).
  \<^item> \<open>Siamese_Encoder\<close>, \<open>Siamese_Acks\<close> (\<open>SiameseEncoder.h\<close>, \<open>.cpp\<close>, the buffers of \<open>SiameseCommon.h\<close>, the encoder functions of \<open>siamese.cpp\<close>): the packet window with its lanes
    and running sums, removal, recovery packets; loss ranges, the retransmission timeout and retransmission.  Memory is an argument \<open>mem\<close> that gives the
    \<open>n\<close>-th allocation its bytes, or refuses it; reads and writes outside of a block, and uses of a null pointer, are \<open>None\<close>.
    \<open>search_nacks\<close> follows bytes of the peer and is a \<open>partial_function\<close>; that it ends is part of a theorem.
  \<^item> \<open>Encoder_Algebra\<close> (weighted sums of packets, locale \<open>weighted_sums\<close>), \<open>Encoder_Window\<close> (the invariant of the window), \<open>Encoder_Remove\<close> (removal keeps it),
    \<open>Encoder_Encode\<close> (the reference \<open>recovery_byte\<close> and the generators), \<open>Encoder_Life\<close> (the calls, in every order: the step relation \<open>encoder_reach\<close>).
  \<^item> \<open>Siamese_Decoder\<close>, \<open>Decoder_Sums\<close>, \<open>Decoder_Matrix\<close>, \<open>Decoder_Recovery\<close> (\<open>SiameseDecoder.h\<close>, \<open>.cpp\<close>, the byte matrix of \<open>SiameseCommon.cpp\<close>, the decoder functions of \<open>siamese.cpp\<close>):
    the window of received packets and the list of recovery packets; running sums and removal; the recovery matrix and its elimination; the calls of the decoder.
    A pointer to a subwindow is its position in the blocks allocated so far, a pointer to a recovery packet is its serial number.
  \<^item> \<open>Decoder_Window\<close> (searches and counts of lost elements), \<open>Decoder_Acks\<close> (acknowledgements).
  \<^bold>\<open>What is shown.\<close>
  \<^item> \<^emph>\<open>End to end.\<close>  A reliable message is delivered once, whole and in order on its channel
    (\<open>reliable_message_end_to_end\<close> below, from \<open>QueueReliable_splits\<close>, \<open>outgoing_queue_fifo\<close> and \<open>resumeProcessing_delivers_in_order\<close>); a datagram that is sent is accepted by a session
    with the same key and gives back its contents (\<open>datagram_send_receive\<close>); no nonce is accepted twice (\<open>accepted_nonces_distinct\<close>).
  \<^item> \<^emph>\<open>Safety.\<close>  No datagram makes the receiver read outside of its buffer (\<open>ProcessDatagram_memory_safe\<close>, \<open>deserializers_memory_safe\<close>); the sender writes
    inside of its buffers (\<open>sent_datagram_format\<close>).
  \<^item> \<^emph>\<open>Wire formats.\<close>  Every field, footer, handshake, stream and truncated counter is read back as written, within the range where the code promises it.
  \<^item> \<^emph>\<open>Data structures\<close> refine abstract ones: the hash map a finite map, the bit set a set, the allocator a set of disjoint blocks, the strike register a set of struck nonces.
  \<^item> \<^emph>\<open>Numerics.\<close>  The field tables form the field with 256 elements, bulk operations are the bytewise ones, the cipher is the exclusive or with one key stream,
    the synchroniser measures the exact minima of a recent window.
  \<^item> \<^emph>\<open>Forward error correction.\<close>  Recovery packets are exactly the linear combinations that their metadata names, whatever was added, acknowledged and removed before
    (\<open>recovery_packets_match_metadata\<close>); every call of the encoder returns, for any bytes sent as acknowledgement, and packets that are sent again are ones that were added
    (\<open>encoder_calls_well_formed\<close>).  Both assume that allocations succeed (\<open>mem_ok\<close>) and fewer than \<open>2^31\<close> packets, so that the 32-bit count of erased columns does not wrap.
    An acknowledgement that the decoder writes is read by the encoder as exactly the columns that were lost (\<open>acknowledgement_reports_losses\<close>).
  \<^item> \<^emph>\<open>Admission and lifetime.\<close>  Limits per address, cookies, identifiers, the address cache and reference counts keep their invariants under every interleaving of operations.
  \<^item> \<^emph>\<open>Defects.\<close>  Some properties record behaviour that contradicts the documentation: the window that is not cleared after a jump of \<open>2^38\<close>,
    empty reliable messages that vanish, handshakes of generated datagrams that are looked for elsewhere, IPv6 peer parameters that are always rejected,
    and an omitted nonce that is misread after a loss.

  \<^bold>\<open>Parameters.\<close>  Code outside of the repository's own sources, and answers of the environment, are arguments of the definitions:
  the hash t1ha, the decompressor (zstd), the allocations of the C library (which may fail), random seeds, the current time, the answers of \<open>cpuid\<close>.
  The receiving half takes the operations of the Siamese decoder as arguments; what it relies on is stated as a hypothesis where it is used, with an instance in the witness.
  Vector instructions are modelled by their documented effect on lanes of bytes.

  \<^bold>\<open>Not modelled.\<close>  Bandwidth control (floating point estimators); the scheduling part of \<open>SessionOutgoing\<close>
  (\<open>Flush\<close>, retransmission timers), which is driven by it; the connection state machine, sockets, timers and threads, which run on
  the asio event loop (\<open>TonkineseConnection.cpp\<close>, \<open>TonkineseUDP.cpp\<close>, \<open>TonkineseSession.cpp\<close>); UPnP (\<open>TonkineseNAT.cpp\<close>), compression (a wrapper around zstd), the
  file transfer example, logging, firewall and wireless settings, system entropy, and the bindings.  The NEON variants of the bulk operations are left out.
\<close>

section \<open>From the sender's queue to the receiver's application\<close>

lemma channel_messages_other:
  "list_all (\<lambda>f. frame_channel (fst f) \<noteq> ch) fs \<Longrightarrow> channel_messages ch acc fs = ([], acc)
     \<and> assembly_fits ch acc fs"
  by (induction ch acc fs rule: channel_messages.induct) auto

lemma channel_messages_fragments:
  assumes "ds \<noteq> []" and t: "frame_channel t = ch" "\<not> frame_final t"
    "frame_channel (t + TonkChannel_Count) = ch" "frame_final (t + TonkChannel_Count)"
    and "length (acc @ concat ds) \<le> TONK_MAX_RELIABLE_BYTES"
  shows "channel_messages ch acc (fragments t ds) = ([acc @ concat ds], [])
    \<and> assembly_fits ch acc (fragments t ds)"
  using assms(1,6)
proof (induction ds arbitrary: acc)
  case (Cons d ds)
  show ?case
  proof (cases "ds = []")
    case True
    then show ?thesis using t Cons.prems(2) by simp
  next
    case False
    then show ?thesis using t Cons.prems(2) Cons.IH [of "acc @ d"] by simp
  qed
qed simp

text \<open>The message type that \<open>tonk_send\<close> uses for a channel.\<close>

definition channel_type :: "channel \<Rightarrow> u32" where
  "channel_type = (\<lambda>(lowPri, c). (if lowPri then MessageType_LowPri else MessageType_Reliable) + word_of_nat c)"

lemma channel_type_frames:
  assumes "c < 6"
  shows "frame_channel (channel_type (lp, c)) = (lp, c)" "\<not> frame_final (channel_type (lp, c))"
    "frame_channel (channel_type (lp, c) + TonkChannel_Count) = (lp, c)" "frame_final (channel_type (lp, c) + TonkChannel_Count)"
    "reliable_type (channel_type (lp, c))" "reliable_type (channel_type (lp, c) + TonkChannel_Count)"
    "channel_type (lp, c) < 32" "channel_type (lp, c) + TonkChannel_Count < 32"
proof -
  have "c = 0 \<or> c = 1 \<or> c = 2 \<or> c = 3 \<or> c = 4 \<or> c = 5" using assms by arith
  then show "frame_channel (channel_type (lp, c)) = (lp, c)" "\<not> frame_final (channel_type (lp, c))"
    "frame_channel (channel_type (lp, c) + TonkChannel_Count) = (lp, c)" "frame_final (channel_type (lp, c) + TonkChannel_Count)"
    "reliable_type (channel_type (lp, c))" "reliable_type (channel_type (lp, c) + TonkChannel_Count)"
    "channel_type (lp, c) < 32" "channel_type (lp, c) + TonkChannel_Count < 32"
    by (cases lp; elim disjE;
        simp add: channel_type_def frame_channel_def frame_final_def reliable_type_def message_type_defs)+
qed

lemma fragments_ok:
  assumes "ds \<noteq> []" and "\<forall>d \<in> set ds. length d + 2 \<le> m" and "m \<le> 2049" and "c < 6"
  shows "list_all (\<lambda>f. frame_ok f \<and> reliable_type (fst f) \<and> frame_channel (fst f) = (lp, c)) (fragments (channel_type (lp, c)) ds)"
  using assms(1,2)
proof (induction ds)
  case (Cons d ds)
  have d: "length d < 2048" using Cons.prems(2) assms(3) by simp
  show ?case
  proof (cases "ds = []")
    case True
    then show ?thesis using d channel_type_frames [OF assms(4), of lp] by (simp add: frame_ok_def)
  next
    case False
    then show ?thesis using d Cons channel_type_frames [OF assms(4), of lp] by (simp add: frame_ok_def)
  qed
qed simp

lemma list_all_concat: "list_all P (concat xss) \<longleftrightarrow> list_all (list_all P) xss"
  by (induction xss) auto

lemma queue_for_channel_number:
  assumes "c < 6"
  shows "queue_for_channel alloc m (channel_number (lp, c)) x =
    on_queue (if lp then Queue_LowPri else Queue_Reliable) (QueueReliable alloc m (channel_type (lp, c)) x)"
proof -
  have pri: "MessageType_LowPri \<le> channel_type (lp, c) \<longleftrightarrow> lp"
  proof -
    have "c = 0 \<or> c = 1 \<or> c = 2 \<or> c = 3 \<or> c = 4 \<or> c = 5" using assms by arith
    then show ?thesis by (cases lp; elim disjE; simp add: channel_type_def message_type_defs)
  qed
  have t: "MessageType_Reliable + word_of_nat (TonkChannel_Reliable0 + c) - word_of_nat TonkChannel_Reliable0 = channel_type (False, c)"
    "MessageType_LowPri + word_of_nat (TonkChannel_LowPri0 + c) - word_of_nat TonkChannel_LowPri0 = channel_type (True, c)"
    by (simp_all add: channel_type_def)
  show ?thesis
  proof (cases lp)
    case True
    then have "queue_for_channel alloc m (channel_number (lp, c)) x = QueueReliable_on alloc m (channel_type (lp, c)) x"
      using assms t(2) by (intro ext) (simp add: queue_for_channel_def channel_number_def TonkChannel_Unreliable_def TonkChannel_Reliable0_def TonkChannel_LowPri0_def)
    then show ?thesis using pri True by (intro ext) (simp add: QueueReliable_on_def)
  next
    case False
    then have "queue_for_channel alloc m (channel_number (lp, c)) x = QueueReliable_on alloc m (channel_type (lp, c)) x"
      using assms t(1) by (intro ext) (simp add: queue_for_channel_def channel_number_def TonkChannel_Unreliable_def TonkChannel_Reliable0_def)
    then show ?thesis using pri False by (intro ext) (simp add: QueueReliable_on_def)
  qed
qed


definition idle_connection :: connection_sender where
  "idle_connection = \<lparr>SendQueues = replicate 4 empty_queue, SelfRefCount = RefCounter_init\<rparr>"


end
